(* ===== verification/Slurm_Prelude.thy ===== *)
theory Slurm_Prelude
  imports Main "HOL-Library.Word" "HOL-Library.Monad_Syntax"
begin

unbundle bit_operations_syntax

section \<open>Shared vocabulary of the development\<close>

text \<open>
  The C functions of the modelled components either return normally or stop: an
  \<open>assert\<close>/\<open>xassert\<close> fails, or the code would read or write outside an object. Both
  outcomes are the value \<open>None\<close> of the option monad, so that a theorem whose
  conclusion is \<open>f x = Some y\<close> states that no assertion fails and no access is out of
  bounds. (The assertions are compiled out when \<open>NDEBUG\<close> is defined; then \<open>None\<close>
  stands for undefined behaviour.)

  The theory also holds the simplification collections of the development and the
  lemmas on lists, integers and words that several components use.
\<close>

named_theorems bitmap_simps \<open>characteristic equations of the bitstring operations\<close>
named_theorems ring_simps \<open>index arithmetic of circular buffers\<close>

type_synonym byte = "8 word"
type_synonym u16 = "16 word"
type_synonym u32 = "32 word"
type_synonym u64 = "64 word"

text \<open>A C assertion: the empty statement when the condition holds.\<close>

definition c_assert :: "bool \<Rightarrow> unit option" where
  "c_assert p = (if p then Some () else None)"

lemma c_assert_True [simp]: "c_assert True = Some ()"
  by (simp add: c_assert_def)

lemma c_assert_False [simp]: "c_assert False = None"
  by (simp add: c_assert_def)

lemma c_assert_bind [simp]: "p \<Longrightarrow> (c_assert p \<bind> f) = f ()"
  by (simp add: c_assert_def)

lemma c_assert_bind_Some:
  "(c_assert p \<bind> f) = Some y \<longleftrightarrow> p \<and> f () = Some y"
  by (simp add: c_assert_def)

text \<open>Reading and writing an array element: outside the array there is no value.\<close>

definition c_rd :: "'a list \<Rightarrow> int \<Rightarrow> 'a option" where
  "c_rd xs i = (if 0 \<le> i \<and> i < int (length xs) then Some (xs ! nat i) else None)"

definition c_wr :: "'a list \<Rightarrow> int \<Rightarrow> 'a \<Rightarrow> 'a list option" where
  "c_wr xs i v = (if 0 \<le> i \<and> i < int (length xs) then Some (xs[nat i := v]) else None)"

lemma c_rd_in [simp]: "0 \<le> i \<Longrightarrow> i < int (length xs) \<Longrightarrow> c_rd xs i = Some (xs ! nat i)"
  by (simp add: c_rd_def)

lemma c_wr_in [simp]: "0 \<le> i \<Longrightarrow> i < int (length xs) \<Longrightarrow> c_wr xs i v = Some (xs[nat i := v])"
  by (simp add: c_wr_def)

lemma takeWhile_length_less: "x \<in> set xs \<Longrightarrow> \<not> P x \<Longrightarrow> length (takeWhile P xs) < length xs"
  by (induction xs) auto

lemma no_int_between [simp]: "\<not> (a \<le> j \<and> j < a)" "a \<le> j \<and> j < a \<and> P \<longleftrightarrow> False" for a j :: int
  by auto

text \<open>The C remainder takes the sign of the dividend; a zero divisor is undefined.\<close>

definition c_rem :: "int \<Rightarrow> int \<Rightarrow> int option" where
  "c_rem a b = (if b = 0 then None else Some (sgn a * (\<bar>a\<bar> mod \<bar>b\<bar>)))"

lemma c_rem_mod:
  assumes "0 < b"
  shows "\<exists>r. c_rem a b = Some r \<and> - b < r \<and> r < b \<and> (if r < 0 then r + b else r) = a mod b"
proof (cases "0 \<le> a")
  case True
  moreover have "- b < a mod b" "(if a mod b < 0 then a mod b + b else a mod b) = a mod b"
    using pos_mod_sign [OF assms, of a] assms by (linarith, metis leD)
  ultimately show ?thesis using assms by (intro exI [of _ "a mod b"]) (simp add: c_rem_def sgn_if)
next
  case False
  have m: "0 \<le> (- a) mod b" "(- a) mod b < b" using assms by simp_all
  have "a mod b = (if (- a) mod b = 0 then 0 else b - (- a) mod b)"
    using zmod_zminus1_eq_if [of "- a" b] by simp
  then show ?thesis using False assms m by (auto simp: c_rem_def sgn_if)
qed

end
