(* ===== verification/Bitstring.thy ===== *)
theory Bitstring
  imports Slurm_Prelude
begin

unbundle bit_operations_syntax

section \<open>Bitstrings (\<open>src/common/bitstring.c\<close>)\<close>

text \<open>
  A \<open>bitstr_t *\<close> is an array of 64-bit words: word 0 is a magic cookie, word 1 the
  number of valid bits and the words from \<open>BITSTR_OVERHEAD\<close> on hold the bits. The record
  below has these three parts, so a word index of the model is the C index minus
  \<open>BITSTR_OVERHEAD\<close>. The little-endian layout is modelled (\<open>SLURM_BIGENDIAN\<close> not
  defined) with the compiler's bit-count builtins, which a gcc build selects. Bit
  offsets (\<open>bitoff_t\<close>, an \<open>int64_t\<close>; some parameters are \<open>int32_t\<close>) are integers: sizes are at most \<open>0x40000000\<close>, so
  no offset computed here leaves the range of its C type.
\<close>

record bitstr =
  bs_magic :: int
  bs_bits :: int
  bs_words :: "u64 list"

definition BITSTR_MAGIC :: int where
  "BITSTR_MAGIC = 0x42434445"

definition BITSTR_MAGIC_STACK :: int where
  "BITSTR_MAGIC_STACK = 0x42434446"

definition BITSTR_MAXVAL :: u64 where
  "BITSTR_MAXVAL = 0xffffffffffffffff"

text \<open>\<open>_bit_word\<close>: \<open>bit >> 6\<close>; \<open>_bit_mask\<close>: \<open>1 << (bit & 63)\<close>.\<close>

definition bit_word :: "int \<Rightarrow> int" where
  "bit_word i = i div 64"

definition bit_mask :: "int \<Rightarrow> u64" where
  "bit_mask i = push_bit (nat (i mod 64)) 1"

definition bitstr_words :: "int \<Rightarrow> int" where
  "bitstr_words nbits = (nbits + 63) div 64"

definition bitstr_valid :: "bitstr \<Rightarrow> bool" where
  "bitstr_valid b \<longleftrightarrow> bs_magic b = BITSTR_MAGIC \<or> bs_magic b = BITSTR_MAGIC_STACK"

definition bit_valid :: "bitstr \<Rightarrow> int \<Rightarrow> bool" where
  "bit_valid b i \<longleftrightarrow> 0 \<le> i \<and> i < bs_bits b"

definition valid_size :: "int \<Rightarrow> bool" where
  "valid_size n \<longleftrightarrow> 0 \<le> n \<and> n \<le> 0x40000000"

subsection \<open>Allocation and single bits\<close>

definition bit_alloc :: "int \<Rightarrow> bitstr option" where
  "bit_alloc nbits = do {
     c_assert (valid_size nbits);
     Some \<lparr>bs_magic = BITSTR_MAGIC, bs_bits = nbits,
           bs_words = replicate (nat (bitstr_words nbits)) 0\<rparr>
   }"

definition bit_realloc :: "bitstr \<Rightarrow> int \<Rightarrow> bitstr option" where
  "bit_realloc b nbits = do {
     c_assert (bitstr_valid b);
     c_assert (valid_size nbits);
     let n = nat (bitstr_words nbits);
     Some (b\<lparr>bs_bits := nbits,
             bs_words := take n (bs_words b) @ replicate (n - length (bs_words b)) 0\<rparr>)
   }"

text \<open>\<open>bit_free\<close> clears the cookie before it releases the memory; the cleared string is
  what a dangling pointer would still see.\<close>

definition bit_free :: "bitstr \<Rightarrow> bitstr option" where
  "bit_free b = do {
     c_assert (bs_magic b = BITSTR_MAGIC);
     Some (b\<lparr>bs_magic := 0\<rparr>)
   }"

definition bit_size :: "bitstr \<Rightarrow> int option" where
  "bit_size b = do { c_assert (bitstr_valid b); Some (bs_bits b) }"

definition bit_test :: "bitstr \<Rightarrow> int \<Rightarrow> bool option" where
  "bit_test b i = do {
     c_assert (bitstr_valid b);
     c_assert (bit_valid b i);
     w \<leftarrow> c_rd (bs_words b) (bit_word i);
     Some (w AND bit_mask i \<noteq> 0)
   }"

definition bit_set :: "bitstr \<Rightarrow> int \<Rightarrow> bitstr option" where
  "bit_set b i = do {
     c_assert (bitstr_valid b);
     c_assert (bit_valid b i);
     w \<leftarrow> c_rd (bs_words b) (bit_word i);
     ws \<leftarrow> c_wr (bs_words b) (bit_word i) (w OR bit_mask i);
     Some (b\<lparr>bs_words := ws\<rparr>)
   }"

definition bit_clear :: "bitstr \<Rightarrow> int \<Rightarrow> bitstr option" where
  "bit_clear b i = do {
     c_assert (bitstr_valid b);
     c_assert (bit_valid b i);
     w \<leftarrow> c_rd (bs_words b) (bit_word i);
     ws \<leftarrow> c_wr (bs_words b) (bit_word i) (w AND NOT (bit_mask i));
     Some (b\<lparr>bs_words := ws\<rparr>)
   }"

subsection \<open>Ranges\<close>

text \<open>
  \<open>bit_nset\<close> and \<open>bit_nclear\<close> treat the partial first and last byte bit by bit and the
  bytes between them with one \<open>memset\<close>. The two \<open>while\<close> loops differ only in the call
  they make, their first argument here.
\<close>

function bits_head_loop ::
    "(bitstr \<Rightarrow> int \<Rightarrow> bitstr option) \<Rightarrow> bitstr \<Rightarrow> int \<Rightarrow> int \<Rightarrow> (bitstr \<times> int) option" where
  "bits_head_loop f b start stop =
     (if start \<le> stop \<and> start mod 8 > 0
      then do { b' \<leftarrow> f b start; bits_head_loop f b' (start + 1) stop }
      else Some (b, start))"
  by pat_completeness auto
termination
  by (relation "measure (\<lambda>(f, b, start, stop). nat (stop + 1 - start))") auto

function bits_tail_loop ::
    "(bitstr \<Rightarrow> int \<Rightarrow> bitstr option) \<Rightarrow> bitstr \<Rightarrow> int \<Rightarrow> int \<Rightarrow> (bitstr \<times> int) option" where
  "bits_tail_loop f b start stop =
     (if stop \<ge> start \<and> (stop + 1) mod 8 > 0
      then do { b' \<leftarrow> f b stop; bits_tail_loop f b' start (stop - 1) }
      else Some (b, stop))"
  by pat_completeness auto
termination
  by (relation "measure (\<lambda>(f, b, start, stop). nat (stop + 1 - start))") auto

declare bits_head_loop.simps [simp del] bits_tail_loop.simps [simp del]

text \<open>\<open>memset\<close> over the bytes of the word array: byte \<open>a\<close> is byte \<open>a mod 8\<close> of word
  \<open>a div 8\<close>, counted from the least significant one.\<close>

definition set_byte :: "u64 \<Rightarrow> nat \<Rightarrow> u64 \<Rightarrow> u64" where
  "set_byte w k v = (w AND NOT (push_bit (8 * k) 0xff)) OR push_bit (8 * k) (v AND 0xff)"

fun memset_bytes :: "u64 list \<Rightarrow> int \<Rightarrow> u64 \<Rightarrow> nat \<Rightarrow> u64 list option" where
  "memset_bytes ws a v 0 = Some ws"
| "memset_bytes ws a v (Suc n) = do {
     w \<leftarrow> c_rd ws (a div 8);
     ws' \<leftarrow> c_wr ws (a div 8) (set_byte w (nat (a mod 8)) v);
     memset_bytes ws' (a + 1) v n
   }"

definition bits_range ::
    "(bitstr \<Rightarrow> int \<Rightarrow> bitstr option) \<Rightarrow> u64 \<Rightarrow> bitstr \<Rightarrow> int \<Rightarrow> int \<Rightarrow> bitstr option" where
  "bits_range f v b start stop = do {
     c_assert (bitstr_valid b);
     c_assert (bit_valid b start);
     c_assert (bit_valid b stop);
     (b, start) \<leftarrow> bits_head_loop f b start stop;
     (b, stop) \<leftarrow> bits_tail_loop f b start stop;
     if stop > start then do {
       c_assert ((stop - start + 1) mod 8 = 0);
       ws \<leftarrow> memset_bytes (bs_words b) (start div 8) v (nat ((stop - start + 1) div 8));
       Some (b\<lparr>bs_words := ws\<rparr>)
     } else Some b
   }"

definition bit_nset :: "bitstr \<Rightarrow> int \<Rightarrow> int \<Rightarrow> bitstr option" where
  "bit_nset b start stop = bits_range bit_set 0xff b start stop"

definition bit_nclear :: "bitstr \<Rightarrow> int \<Rightarrow> int \<Rightarrow> bitstr option" where
  "bit_nclear b start stop = bits_range bit_clear 0 b start stop"

definition bit_set_all :: "bitstr \<Rightarrow> bitstr option" where
  "bit_set_all b = do { n \<leftarrow> bit_size b; bit_nset b 0 (n - 1) }"

definition bit_clear_all :: "bitstr \<Rightarrow> bitstr option" where
  "bit_clear_all b = do { n \<leftarrow> bit_size b; bit_nclear b 0 (n - 1) }"

subsection \<open>Whole-word operations\<close>

text \<open>
  \<open>for (bit = 0; bit < nbits; bit += 64) b1[word] = f (b1[word], b2[word])\<close>, the loop of
  \<open>bit_and\<close>, \<open>bit_and_not\<close>, \<open>bit_or\<close> and (with \<open>b2 = b1\<close>) \<open>bit_not\<close>.
\<close>

function bit_words_loop ::
    "(u64 \<Rightarrow> u64 \<Rightarrow> u64) \<Rightarrow> bitstr \<Rightarrow> bitstr \<Rightarrow> int \<Rightarrow> bitstr option" where
  "bit_words_loop f b1 b2 i =
     (if i < bs_bits b1 then do {
        w1 \<leftarrow> c_rd (bs_words b1) (bit_word i);
        w2 \<leftarrow> c_rd (bs_words b2) (bit_word i);
        ws \<leftarrow> c_wr (bs_words b1) (bit_word i) (f w1 w2);
        bit_words_loop f (b1\<lparr>bs_words := ws\<rparr>) b2 (i + 64)
      } else Some b1)"
  by pat_completeness auto
termination
  by (relation "measure (\<lambda>(f, b1, b2, i). nat (bs_bits b1 - i))") auto

text \<open>The same loop as a test: the first word pair that does not satisfy \<open>p\<close> ends it.\<close>

function bit_words_all ::
    "(u64 \<Rightarrow> u64 \<Rightarrow> bool) \<Rightarrow> bitstr \<Rightarrow> bitstr \<Rightarrow> int \<Rightarrow> bool option" where
  "bit_words_all p b1 b2 i =
     (if i < bs_bits b1 then do {
        w1 \<leftarrow> c_rd (bs_words b1) (bit_word i);
        w2 \<leftarrow> c_rd (bs_words b2) (bit_word i);
        if \<not> p w1 w2 then Some False else bit_words_all p b1 b2 (i + 64)
      } else Some True)"
  by pat_completeness auto
termination
  by (relation "measure (\<lambda>(p, b1, b2, i). nat (bs_bits b1 - i))") auto

declare bit_words_loop.simps [simp del] bit_words_all.simps [simp del]

definition bit_and :: "bitstr \<Rightarrow> bitstr \<Rightarrow> bitstr option" where
  "bit_and b1 b2 = do {
     c_assert (bitstr_valid b1);
     c_assert (bitstr_valid b2);
     c_assert (bs_bits b1 = bs_bits b2);
     bit_words_loop (AND) b1 b2 0
   }"

definition bit_and_not :: "bitstr \<Rightarrow> bitstr \<Rightarrow> bitstr option" where
  "bit_and_not b1 b2 = do {
     c_assert (bitstr_valid b1);
     c_assert (bitstr_valid b2);
     c_assert (bs_bits b1 = bs_bits b2);
     bit_words_loop (\<lambda>w1 w2. w1 AND NOT w2) b1 b2 0
   }"

definition bit_or :: "bitstr \<Rightarrow> bitstr \<Rightarrow> bitstr option" where
  "bit_or b1 b2 = do {
     c_assert (bitstr_valid b1);
     c_assert (bitstr_valid b2);
     c_assert (bs_bits b1 = bs_bits b2);
     bit_words_loop (OR) b1 b2 0
   }"

definition bit_not :: "bitstr \<Rightarrow> bitstr option" where
  "bit_not b = do {
     c_assert (bitstr_valid b);
     bit_words_loop (\<lambda>w _. NOT w) b b 0
   }"

definition bit_super_set :: "bitstr \<Rightarrow> bitstr \<Rightarrow> bool option" where
  "bit_super_set b1 b2 = do {
     c_assert (bitstr_valid b1);
     c_assert (bitstr_valid b2);
     c_assert (bs_bits b1 = bs_bits b2);
     bit_words_all (\<lambda>w1 w2. w1 = w1 AND w2) b1 b2 0
   }"

definition bit_equal :: "bitstr \<Rightarrow> bitstr \<Rightarrow> bool option" where
  "bit_equal b1 b2 = do {
     c_assert (bitstr_valid b1);
     c_assert (bitstr_valid b2);
     if bs_bits b1 \<noteq> bs_bits b2 then Some False
     else bit_words_all (=) b1 b2 0
   }"

text \<open>\<open>memcpy\<close> of the words that hold \<open>n\<close> bits.\<close>

definition copy_words :: "u64 list \<Rightarrow> u64 list \<Rightarrow> nat \<Rightarrow> u64 list option" where
  "copy_words dst src n =
     (if n \<le> length dst \<and> n \<le> length src then Some (take n src @ drop n dst) else None)"

definition bit_copy :: "bitstr \<Rightarrow> bitstr option" where
  "bit_copy b = do {
     c_assert (bitstr_valid b);
     newsize_bits \<leftarrow> bit_size b;
     new \<leftarrow> bit_alloc newsize_bits;
     ws \<leftarrow> copy_words (bs_words new) (bs_words b) (nat (bitstr_words newsize_bits));
     Some (new\<lparr>bs_words := ws\<rparr>)
   }"

definition bit_copybits :: "bitstr \<Rightarrow> bitstr \<Rightarrow> bitstr option" where
  "bit_copybits dest src = do {
     c_assert (bitstr_valid dest);
     c_assert (bitstr_valid src);
     n \<leftarrow> bit_size src;
     m \<leftarrow> bit_size dest;
     c_assert (n = m);
     ws \<leftarrow> copy_words (bs_words dest) (bs_words src) (nat (bitstr_words n));
     Some (dest\<lparr>bs_words := ws\<rparr>)
   }"

subsection \<open>Well-formed bitstrings and their bits\<close>

text \<open>
  \<open>wf_bitstr\<close> is what \<open>bit_alloc\<close> establishes: a valid cookie, an admissible size and
  as many words as the size needs. \<open>bit_at\<close> reads bit \<open>i\<close> of the word array, also in
  the slack of the last word (\<open>bs_bits b \<le> i < bit_cap b\<close>), and \<open>with_bits b P\<close> is \<open>b\<close>
  with the bits given by \<open>P\<close>: every operation is characterised by such an equation.
\<close>

definition wf_bitstr :: "bitstr \<Rightarrow> bool" where
  "wf_bitstr b \<longleftrightarrow> bitstr_valid b \<and> valid_size (bs_bits b) \<and>
     int (length (bs_words b)) = bitstr_words (bs_bits b)"

definition bit_cap :: "bitstr \<Rightarrow> int" where
  "bit_cap b = 64 * int (length (bs_words b))"

definition bit_at :: "bitstr \<Rightarrow> int \<Rightarrow> bool" where
  "bit_at b i = bit (bs_words b ! nat (i div 64)) (nat (i mod 64))"

definition word_of_bits :: "(nat \<Rightarrow> bool) \<Rightarrow> u64" where
  "word_of_bits P = horner_sum of_bool 2 (map P [0..<64])"

definition with_bits :: "bitstr \<Rightarrow> (int \<Rightarrow> bool) \<Rightarrow> bitstr" where
  "with_bits b P = b\<lparr>bs_words :=
     map (\<lambda>k. word_of_bits (\<lambda>i. P (64 * int k + int i))) [0..<length (bs_words b)]\<rparr>"

lemma bit_word_of_bits: "bit (word_of_bits P) n \<longleftrightarrow> n < 64 \<and> P n"
  by (auto simp: word_of_bits_def bit_horner_sum_bit_word_iff)

lemma with_bits_simps [simp]:
  "bs_magic (with_bits b P) = bs_magic b"
  "bs_bits (with_bits b P) = bs_bits b"
  "length (bs_words (with_bits b P)) = length (bs_words b)"
  "bit_cap (with_bits b P) = bit_cap b"
  "wf_bitstr (with_bits b P) = wf_bitstr b"
  "bitstr_valid (with_bits b P) = bitstr_valid b"
  "bit_valid (with_bits b P) i = bit_valid b i"
  by (simp_all add: with_bits_def bit_cap_def wf_bitstr_def bitstr_valid_def bit_valid_def)

lemma nat_div64_less: "0 \<le> i \<Longrightarrow> i < 64 * int n \<Longrightarrow> nat (i div 64) < n"
  by (simp add: nat_less_iff div_less_iff_less_mult)

lemma bit_at_with_bits [simp]:
  assumes "0 \<le> i" "i < bit_cap b"
  shows "bit_at (with_bits b P) i = P i"
proof -
  have "nat (i div 64) < length (bs_words b)"
    using assms nat_div64_less by (simp add: bit_cap_def)
  moreover have "64 * int (nat (i div 64)) + int (nat (i mod 64)) = i"
    using assms by (simp add: pos_imp_zdiv_nonneg_iff)
  moreover have "nat (i mod 64) < 64"
    by (simp add: nat_less_iff)
  ultimately show ?thesis
    by (simp add: bit_at_def with_bits_def bit_word_of_bits)
qed

lemma wf_bits_cap: "wf_bitstr b \<Longrightarrow> 0 \<le> bs_bits b \<and> bs_bits b \<le> bit_cap b \<and> bit_cap b < bs_bits b + 64"
  unfolding wf_bitstr_def bit_cap_def bitstr_words_def valid_size_def by presburger

lemma bitstr_eqI:
  assumes "bs_magic a = bs_magic b" "bs_bits a = bs_bits b"
    and len: "length (bs_words a) = length (bs_words b)"
    and bits: "\<And>i. 0 \<le> i \<Longrightarrow> i < bit_cap b \<Longrightarrow> bit_at a i = bit_at b i"
  shows "a = (b::bitstr)"
proof -
  have "bs_words a ! k = bs_words b ! k" if k: "k < length (bs_words b)" for k
  proof (rule bit_eqI)
    fix n assume "possible_bit TYPE(u64) n"
    then have n: "n < 64" by simp
    have "nat ((64 * int k + int n) div 64) = k" "nat ((64 * int k + int n) mod 64) = n"
      using n by auto
    moreover have "64 * int k + int n < bit_cap b"
      using k n by (simp add: bit_cap_def)
    ultimately show "bit (bs_words a ! k) n = bit (bs_words b ! k) n"
      using bits [of "64 * int k + int n"] by (simp add: bit_at_def)
  qed
  then have "bs_words a = bs_words b"
    using len by (simp add: list_eq_iff_nth_eq)
  with assms show ?thesis by (cases a, cases b) simp
qed

lemma with_bits_same: "with_bits b (bit_at b) = b"
  by (rule bitstr_eqI) simp_all

lemma with_bits_id:
  "(\<And>i. 0 \<le> i \<Longrightarrow> i < bit_cap b \<Longrightarrow> P i = bit_at b i) \<Longrightarrow> with_bits b P = b"
  by (rule bitstr_eqI) simp_all

lemma with_bits_cong:
  "(\<And>i. 0 \<le> i \<Longrightarrow> i < bit_cap b \<Longrightarrow> P i = Q i) \<Longrightarrow> with_bits b P = with_bits b Q"
  by (rule bitstr_eqI) simp_all

lemma with_bits_twice [simp]: "with_bits (with_bits b P) Q = with_bits b Q"
  by (rule bitstr_eqI) simp_all

lemma wf_word_index:
  assumes "wf_bitstr b" "0 \<le> i" "i < bs_bits b"
  shows "0 \<le> bit_word i" "bit_word i < int (length (bs_words b))"
  using assms wf_bits_cap [of b] by (auto simp: bit_word_def bit_cap_def)

lemma and_bit_mask: "(w AND bit_mask i \<noteq> 0) = bit w (nat (i mod 64))"
proof -
  have "nat (i mod 64) < 64" by (simp add: nat_less_iff)
  then show ?thesis
    by (auto simp: bit_mask_def bit_eq_iff [of _ 0] bit_simps)
qed

lemma split64: "n < 64 \<Longrightarrow> (64 * (i div 64) + int n = i) = (n = nat (i mod 64))"
  using mult_div_mod_eq [of 64 i] by linarith

lemma bit_bit_mask: "bit (bit_mask i) n \<longleftrightarrow> n = nat (i mod 64)"
proof -
  have "nat (i mod 64) < 64" by (simp add: nat_less_iff)
  then show ?thesis by (auto simp: bit_mask_def bit_simps)
qed

lemma bit_test_eq [bitmap_simps]:
  assumes "wf_bitstr b" "0 \<le> i" "i < bs_bits b"
  shows "bit_test b i = Some (bit_at b i)"
  using assms wf_word_index [OF assms]
  by (simp add: bit_test_def wf_bitstr_def bit_valid_def and_bit_mask bit_at_def bit_word_def)

lemma words_upd_eq:
  assumes k: "0 \<le> i" "i < bit_cap b"
    and v: "\<And>n. n < 64 \<Longrightarrow> bit v n = P (64 * (i div 64) + int n)"
    and P: "\<And>j. 0 \<le> j \<Longrightarrow> j < bit_cap b \<Longrightarrow> j div 64 \<noteq> i div 64 \<Longrightarrow> P j = bit_at b j"
  shows "b\<lparr>bs_words := (bs_words b)[nat (i div 64) := v]\<rparr> = with_bits b P"
proof (rule bitstr_eqI)
  fix j assume j: "0 \<le> j" "j < bit_cap (with_bits b P)"
  have k': "nat (i div 64) < length (bs_words b)"
    using k nat_div64_less by (simp add: bit_cap_def)
  have [simp]: "nat (j mod 64) < 64" by (simp add: nat_less_iff)
  show "bit_at (b\<lparr>bs_words := (bs_words b)[nat (i div 64) := v]\<rparr>) j = bit_at (with_bits b P) j"
  proof (cases "j div 64 = i div 64")
    case True
    then have "64 * (i div 64) + int (nat (j mod 64)) = j"
      using mult_div_mod_eq [of 64 j] by simp
    then show ?thesis using True k' j v [of "nat (j mod 64)"] by (simp add: bit_at_def [of "b\<lparr>bs_words := _\<rparr>"])
  next
    case False
    then have "nat (i div 64) \<noteq> nat (j div 64)" using j k by (simp add: nat_eq_iff pos_imp_zdiv_nonneg_iff)
    then show ?thesis using False j P by (simp add: bit_at_def [of "b\<lparr>bs_words := _\<rparr>"] bit_at_def [of b])
  qed
qed (simp_all)

lemma bit_set_eq [bitmap_simps]:
  assumes "wf_bitstr b" "0 \<le> i" "i < bs_bits b"
  shows "bit_set b i = Some (with_bits b (\<lambda>j. j = i \<or> bit_at b j))"
proof -
  note ix = wf_word_index [OF assms]
  have cap: "i < bit_cap b" using assms wf_bits_cap by fastforce
  have "b\<lparr>bs_words := (bs_words b)[nat (i div 64) := bs_words b ! nat (i div 64) OR bit_mask i]\<rparr>
        = with_bits b (\<lambda>j. j = i \<or> bit_at b j)"
  proof (rule words_upd_eq [OF assms(2) cap])
    fix n :: nat assume n: "n < 64"
    show "bit (bs_words b ! nat (i div 64) OR bit_mask i) n
        = (64 * (i div 64) + int n = i \<or> bit_at b (64 * (i div 64) + int n))"
      using n by (auto simp: bit_or_iff bit_bit_mask bit_at_def split64)
  qed auto
  then show ?thesis
    using assms ix by (simp add: bit_set_def wf_bitstr_def bit_valid_def bit_word_def)
qed

lemma bit_clear_eq [bitmap_simps]:
  assumes "wf_bitstr b" "0 \<le> i" "i < bs_bits b"
  shows "bit_clear b i = Some (with_bits b (\<lambda>j. j \<noteq> i \<and> bit_at b j))"
proof -
  note ix = wf_word_index [OF assms]
  have cap: "i < bit_cap b" using assms wf_bits_cap by fastforce
  have "b\<lparr>bs_words := (bs_words b)[nat (i div 64) := bs_words b ! nat (i div 64) AND NOT (bit_mask i)]\<rparr>
        = with_bits b (\<lambda>j. j \<noteq> i \<and> bit_at b j)"
  proof (rule words_upd_eq [OF assms(2) cap])
    fix n :: nat assume n: "n < 64"
    show "bit (bs_words b ! nat (i div 64) AND NOT (bit_mask i)) n
        = (64 * (i div 64) + int n \<noteq> i \<and> bit_at b (64 * (i div 64) + int n))"
      using n by (auto simp: bit_and_iff bit_not_iff bit_bit_mask bit_at_def split64)
  qed auto
  then show ?thesis
    using assms ix by (simp add: bit_clear_def wf_bitstr_def bit_valid_def bit_word_def)
qed

subsection \<open>Ranges: the byte-wise fill equals the bit-wise one\<close>

definition single_bit_op :: "(bitstr \<Rightarrow> int \<Rightarrow> bitstr option) \<Rightarrow> bool \<Rightarrow> bool" where
  "single_bit_op f v \<longleftrightarrow> (\<forall>b i. wf_bitstr b \<longrightarrow> 0 \<le> i \<longrightarrow> i < bs_bits b \<longrightarrow>
     f b i = Some (with_bits b (\<lambda>j. if j = i then v else bit_at b j)))"

lemma single_bit_opD:
  "single_bit_op f v \<Longrightarrow> wf_bitstr b \<Longrightarrow> 0 \<le> i \<Longrightarrow> i < bs_bits b \<Longrightarrow>
   f b i = Some (with_bits b (\<lambda>j. if j = i then v else bit_at b j))"
  by (simp add: single_bit_op_def)

lemma single_bit_op_set: "single_bit_op bit_set True"
  unfolding single_bit_op_def by (auto simp: bit_set_eq intro!: with_bits_cong)

lemma single_bit_op_clear: "single_bit_op bit_clear False"
  unfolding single_bit_op_def by (auto simp: bit_clear_eq intro!: with_bits_cong)

lemma bits_head_loop_eq:
  assumes "single_bit_op f v"
  shows "wf_bitstr b \<Longrightarrow> 0 \<le> start \<Longrightarrow> stop < bs_bits b \<Longrightarrow>
    \<exists>s'. bits_head_loop f b start stop =
           Some (with_bits b (\<lambda>j. if start \<le> j \<and> j < s' then v else bit_at b j), s') \<and>
         start \<le> s' \<and> s' \<le> max start (stop + 1) \<and> (s' mod 8 = 0 \<or> stop < s')"
proof (induction "nat (stop + 1 - start)" arbitrary: b start)
  case 0
  then have "bits_head_loop f b start stop = Some (b, start)"
    by (subst bits_head_loop.simps) simp
  then show ?case using 0 by (intro exI [of _ start]) (auto intro!: with_bits_id [symmetric])
next
  case (Suc n)
  show ?case
  proof (cases "start mod 8 > 0")
    case True
    let ?b = "with_bits b (\<lambda>j. if j = start then v else bit_at b j)"
    have le: "start \<le> stop" using Suc.hyps(2) by linarith
    have step: "bits_head_loop f b start stop = bits_head_loop f ?b (start + 1) stop"
      using True le Suc.prems
      by (subst bits_head_loop.simps) (simp add: single_bit_opD [OF assms])
    have "\<exists>s'. bits_head_loop f ?b (start + 1) stop =
           Some (with_bits ?b (\<lambda>j. if start + 1 \<le> j \<and> j < s' then v else bit_at ?b j), s') \<and>
         start + 1 \<le> s' \<and> s' \<le> max (start + 1) (stop + 1) \<and> (s' mod 8 = 0 \<or> stop < s')"
      using Suc.hyps(2) Suc.prems by (intro Suc.hyps(1)) auto
    then obtain s' where s': "bits_head_loop f ?b (start + 1) stop =
           Some (with_bits ?b (\<lambda>j. if start + 1 \<le> j \<and> j < s' then v else bit_at ?b j), s')"
        "start + 1 \<le> s'" "s' \<le> max (start + 1) (stop + 1)" "s' mod 8 = 0 \<or> stop < s'"
      by (elim exE conjE) (rule that; assumption)
    have "with_bits ?b (\<lambda>j. if start + 1 \<le> j \<and> j < s' then v else bit_at ?b j) =
          with_bits b (\<lambda>j. if start \<le> j \<and> j < s' then v else bit_at b j)"
      using s'(2) by (auto intro!: with_bits_cong)
    then show ?thesis
      using s' Suc.hyps(2) by (intro exI [of _ s']) (simp add: step)
  next
    case False
    then have "start mod 8 = 0" using Suc.prems by (simp add: order.antisym)
    moreover have "bits_head_loop f b start stop = Some (b, start)"
      using False by (subst bits_head_loop.simps) simp
    ultimately show ?thesis by (intro exI [of _ start]) (auto intro!: with_bits_id [symmetric])
  qed
qed

lemma bits_tail_loop_eq:
  assumes "single_bit_op f v"
  shows "wf_bitstr b \<Longrightarrow> 0 \<le> start \<Longrightarrow> stop < bs_bits b \<Longrightarrow>
    \<exists>t'. bits_tail_loop f b start stop =
           Some (with_bits b (\<lambda>j. if t' < j \<and> j \<le> stop then v else bit_at b j), t') \<and>
         t' \<le> stop \<and> min stop (start - 1) \<le> t' \<and> ((t' + 1) mod 8 = 0 \<or> t' < start)"
proof (induction "nat (stop + 1 - start)" arbitrary: b stop)
  case 0
  then have "bits_tail_loop f b start stop = Some (b, stop)"
    by (subst bits_tail_loop.simps) simp
  then show ?case using 0 by (intro exI [of _ stop]) (auto intro!: with_bits_id [symmetric])
next
  case (Suc n)
  show ?case
  proof (cases "(stop + 1) mod 8 > 0")
    case True
    let ?b = "with_bits b (\<lambda>j. if j = stop then v else bit_at b j)"
    have le: "start \<le> stop" using Suc.hyps(2) by linarith
    have step: "bits_tail_loop f b start stop = bits_tail_loop f ?b start (stop - 1)"
      using True le Suc.prems
      by (subst bits_tail_loop.simps) (simp add: single_bit_opD [OF assms])
    have "\<exists>t'. bits_tail_loop f ?b start (stop - 1) =
           Some (with_bits ?b (\<lambda>j. if t' < j \<and> j \<le> stop - 1 then v else bit_at ?b j), t') \<and>
         t' \<le> stop - 1 \<and> min (stop - 1) (start - 1) \<le> t' \<and> ((t' + 1) mod 8 = 0 \<or> t' < start)"
      using Suc.hyps(2) Suc.prems by (intro Suc.hyps(1)) auto
    then obtain t' where t': "bits_tail_loop f ?b start (stop - 1) =
           Some (with_bits ?b (\<lambda>j. if t' < j \<and> j \<le> stop - 1 then v else bit_at ?b j), t')"
        "t' \<le> stop - 1" "min (stop - 1) (start - 1) \<le> t'" "(t' + 1) mod 8 = 0 \<or> t' < start"
      by (elim exE conjE) (rule that; assumption)
    have "with_bits ?b (\<lambda>j. if t' < j \<and> j \<le> stop - 1 then v else bit_at ?b j) =
          with_bits b (\<lambda>j. if t' < j \<and> j \<le> stop then v else bit_at b j)"
      using t'(2) by (auto intro!: with_bits_cong)
    then show ?thesis
      using t' Suc.hyps(2) by (intro exI [of _ t']) (simp add: step)
  next
    case False
    then have "(stop + 1) mod 8 = 0" using Suc.prems by (simp add: order.antisym)
    moreover have "bits_tail_loop f b start stop = Some (b, stop)"
      using False by (subst bits_tail_loop.simps) simp
    ultimately show ?thesis by (intro exI [of _ stop]) (auto intro!: with_bits_id [symmetric])
  qed
qed

lemma div_nat_eq_iff: "0 < c \<Longrightarrow> (m div c = k) = (c * k \<le> m \<and> m < c * k + c)" for m c k :: nat
  by (metis div_nat_eqI dividend_less_times_div mult_Suc_right mult.commute add.commute times_div_less_eq_dividend)

lemma byte_range:
  assumes "8 * q + int r = (a :: int)"
  shows "(8 * r \<le> m \<and> m < 8 * r + 8) = (8 * a \<le> 64 * q + int m \<and> 64 * q + int m < 8 * (a + 1))"
  unfolding assms [symmetric] by auto

lemma bit_set_byte:
  assumes "k < 8" "n < 64" "\<And>i. i < 8 \<Longrightarrow> bit v i = x"
  shows "bit (set_byte w k v) n = (if n div 8 = k then x else bit w n)"
proof -
  have ff: "bit (255 :: int) i = (i < 8)" for i
    using bit_mask_iff [where 'a = int, of 8 i] by (simp add: mask_eq_exp_minus_1)
  have "n div 8 = k \<longleftrightarrow> 8 * k \<le> n \<and> n - 8 * k < 8" by auto
  then show ?thesis
    using assms by (auto simp: set_byte_def bit_simps ff)
qed

lemma memset_bytes_eq:
  assumes v: "\<And>i. i < 8 \<Longrightarrow> bit v i = x"
  shows "0 \<le> a \<Longrightarrow> 8 * (a + int n) \<le> bit_cap b \<Longrightarrow>
    memset_bytes (bs_words b) a v n =
      Some (bs_words (with_bits b (\<lambda>j. if 8 * a \<le> j \<and> j < 8 * (a + int n) then x else bit_at b j)))"
proof (induction n arbitrary: a b)
  case 0
  have "with_bits b (\<lambda>j. if 8 * a \<le> j \<and> j < 8 * (a + int 0) then x else bit_at b j) = b"
    by (rule with_bits_id) auto
  then show ?case by simp
next
  case (Suc n)
  have k: "nat (a div 8) < length (bs_words b)" "0 \<le> a div 8" "a div 8 < int (length (bs_words b))"
    using Suc.prems by (auto simp: bit_cap_def)
  have ix: "(8 * a) div 64 = a div 8" by simp
  let ?b = "with_bits b (\<lambda>j. if 8 * a \<le> j \<and> j < 8 * (a + 1) then x else bit_at b j)"
  let ?w = "set_byte (bs_words b ! nat (a div 8)) (nat (a mod 8)) v"
  have "b\<lparr>bs_words := (bs_words b)[nat ((8 * a) div 64) := ?w]\<rparr> = ?b"
  proof (rule words_upd_eq)
    fix m :: nat assume m: "m < 64"
    define r where "r = nat (a mod 8)"
    have r: "8 * (a div 8) + int r = a" unfolding r_def by simp
    have "(m div 8 = r) = (8 * a \<le> 64 * (a div 8) + int m \<and> 64 * (a div 8) + int m < 8 * (a + 1))"
      unfolding div_nat_eq_iff [OF zero_less_numeral] by (rule byte_range [OF r])
    moreover have "r < 8" unfolding r_def by (simp add: nat_less_iff)
    ultimately show "bit ?w m = (if 8 * a \<le> 64 * (8 * a div 64) + int m \<and> 64 * (8 * a div 64) + int m < 8 * (a + 1)
        then x else bit_at b (64 * (8 * a div 64) + int m))"
      using m v unfolding ix r_def by (simp add: bit_set_byte bit_at_def)
  next
    fix j :: int assume "0 \<le> j" "j < bit_cap b" "j div 64 \<noteq> 8 * a div 64"
    then show "(if 8 * a \<le> j \<and> j < 8 * (a + 1) then x else bit_at b j) = bit_at b j"
      unfolding ix by (auto)
  qed (use Suc.prems in auto)
  then have "bs_words (b\<lparr>bs_words := (bs_words b)[nat ((8 * a) div 64) := ?w]\<rparr>) = bs_words ?b"
    by (rule arg_cong)
  then have "(bs_words b)[nat (a div 8) := ?w] = bs_words ?b"
    unfolding ix by simp
  moreover have "with_bits ?b (\<lambda>j. if 8 * (a + 1) \<le> j \<and> j < 8 * (a + 1 + int n) then x else bit_at ?b j)
     = with_bits b (\<lambda>j. if 8 * a \<le> j \<and> j < 8 * (a + int (Suc n)) then x else bit_at b j)"
    by (auto intro!: with_bits_cong)
  ultimately show ?case
    using Suc.prems k Suc.IH [of "a + 1" ?b] by (simp add: algebra_simps)
qed

lemma bits_range_eq:
  assumes f: "single_bit_op f x" and v: "\<And>i. i < 8 \<Longrightarrow> bit v i = x"
    and wf: "wf_bitstr b" and start: "0 \<le> start" "start < bs_bits b" and stop: "0 \<le> stop" "stop < bs_bits b"
  shows "bits_range f v b start stop =
    Some (with_bits b (\<lambda>j. if start \<le> j \<and> j \<le> stop then x else bit_at b j))"
proof -
  let ?g = "\<lambda>b. \<lambda>p q j. if p \<le> j \<and> j \<le> q then x else bit_at b j"
  obtain s where s: "bits_head_loop f b start stop =
      Some (with_bits b (\<lambda>j. if start \<le> j \<and> j < s then x else bit_at b j), s)"
      "start \<le> s" "s \<le> max start (stop + 1)" "s mod 8 = 0 \<or> stop < s"
    using bits_head_loop_eq [OF f wf start(1) stop(2)] by (elim exE conjE) (rule that; assumption)
  define b1 where "b1 = with_bits b (\<lambda>j. if start \<le> j \<and> j < s then x else bit_at b j)"
  have b1: "wf_bitstr b1" "0 \<le> s" "stop < bs_bits b1" using wf start stop s by (auto simp: b1_def)
  obtain t where t: "bits_tail_loop f b1 s stop =
      Some (with_bits b1 (\<lambda>j. if t < j \<and> j \<le> stop then x else bit_at b1 j), t)"
      "t \<le> stop" "min stop (s - 1) \<le> t" "(t + 1) mod 8 = 0 \<or> t < s"
    using bits_tail_loop_eq [OF f b1] by (elim exE conjE) (rule that; assumption)
  define b2 where "b2 = with_bits b1 (\<lambda>j. if t < j \<and> j \<le> stop then x else bit_at b1 j)"
  note loops = s(1) [folded b1_def] t(1) [folded b2_def]
  have valid: "bitstr_valid b" "bit_valid b start" "bit_valid b stop"
    using wf start stop by (auto simp: wf_bitstr_def bit_valid_def)
  show ?thesis
  proof (cases "t > s")
    case False
    have "t < s \<or> (t = s \<and> (t + 1) mod 8 = 0)" using False t(4) by auto
    moreover have "\<not> ((s + 1) mod 8 = 0 \<and> s mod 8 = 0)" by presburger
    ultimately have "t < s" using s(4) t(2) by auto
    then have "b2 = with_bits b (?g b start stop)"
      unfolding b2_def b1_def using t(2,3) s(2,3) by (intro bitstr_eqI) auto
    then show ?thesis using False by (simp add: bits_range_def valid loops)
  next
    case True
    then have m: "s mod 8 = 0" "(t + 1) mod 8 = 0" using s t by auto
    have len: "(t - s + 1) mod 8 = 0" using m by presburger
    obtain k1 k2 where k: "s = 8 * k1" "t - s + 1 = 8 * k2"
      using m(1) len by (auto simp: mod_eq_0_iff_dvd elim!: dvdE)
    have eqs: "8 * (s div 8) = s" "8 * (s div 8 + (t - s + 1) div 8) = t + 1"
      unfolding k(2) using k by simp_all
    have nn: "int (nat ((t - s + 1) div 8)) = (t - s + 1) div 8"
      using True by simp
    define b3 where "b3 = with_bits b2 (\<lambda>j. if s \<le> j \<and> j < t + 1 then x else bit_at b2 j)"
    have "memset_bytes (bs_words b2) (s div 8) v (nat ((t - s + 1) div 8)) = Some (bs_words b3)"
      using memset_bytes_eq [OF v, of "s div 8" "nat ((t - s + 1) div 8)" b2, unfolded nn eqs]
        t(2) stop start s(2) wf_bits_cap [OF wf]
      by (simp add: b3_def b2_def b1_def)
    moreover have "b2\<lparr>bs_words := bs_words b3\<rparr> = b3"
      by (simp add: b3_def with_bits_def)
    moreover have "b3 = with_bits b (?g b start stop)"
      unfolding b3_def b2_def b1_def using t(2) s(2) True by (intro bitstr_eqI) auto
    ultimately show ?thesis using True len by (simp add: bits_range_def valid loops)
  qed
qed

lemma bit_nset_eq [bitmap_simps]:
  assumes "wf_bitstr b" "0 \<le> start" "start < bs_bits b" "0 \<le> stop" "stop < bs_bits b"
  shows "bit_nset b start stop = Some (with_bits b (\<lambda>j. (start \<le> j \<and> j \<le> stop) \<or> bit_at b j))"
proof -
  have "bit (0xff :: u64) i" if "i < 8" for i
    using bit_mask_iff [where 'a = u64, of 8 i] that by (simp add: mask_eq_exp_minus_1)
  then have "bit_nset b start stop = Some (with_bits b (\<lambda>j. if start \<le> j \<and> j \<le> stop then True else bit_at b j))"
    unfolding bit_nset_def using assms by (intro bits_range_eq single_bit_op_set) auto
  then show ?thesis by (auto intro!: with_bits_cong)
qed

lemma bit_nclear_eq [bitmap_simps]:
  assumes "wf_bitstr b" "0 \<le> start" "start < bs_bits b" "0 \<le> stop" "stop < bs_bits b"
  shows "bit_nclear b start stop = Some (with_bits b (\<lambda>j. \<not> (start \<le> j \<and> j \<le> stop) \<and> bit_at b j))"
proof -
  have "bit_nclear b start stop = Some (with_bits b (\<lambda>j. if start \<le> j \<and> j \<le> stop then False else bit_at b j))"
    unfolding bit_nclear_def using assms by (intro bits_range_eq single_bit_op_clear) auto
  then show ?thesis by (auto intro!: with_bits_cong)
qed

subsection \<open>Whole-word operations act bit by bit\<close>

lemma mod64_E: "i mod 64 = 0 \<Longrightarrow> (\<And>k. i = 64 * k \<Longrightarrow> P) \<Longrightarrow> P" for i :: int
  by (metis mult_div_mod_eq add.right_neutral)

lemma wf_cap_words:
  assumes "wf_bitstr b" "0 \<le> i" "i mod 64 = 0" "bs_bits b \<le> i"
  shows "bit_cap b \<le> i"
proof -
  obtain k where i: "i = 64 * k" using assms(3) by (rule mod64_E)
  have "bit_cap b < bs_bits b + 64" using wf_bits_cap [OF assms(1)] by simp
  then have "bit_cap b < 64 * k + 64" using assms(4) i by linarith
  then show ?thesis by (simp add: bit_cap_def i)
qed

lemma wf_same_length:
  "wf_bitstr a \<Longrightarrow> wf_bitstr b \<Longrightarrow> bs_bits a = bs_bits b \<Longrightarrow> length (bs_words a) = length (bs_words b)"
  by (simp add: wf_bitstr_def)

lemma wf_same_cap: "wf_bitstr a \<Longrightarrow> wf_bitstr b \<Longrightarrow> bs_bits a = bs_bits b \<Longrightarrow> bit_cap a = bit_cap b"
  unfolding bit_cap_def using wf_same_length [of a b] by simp

lemma div64_range:
  fixes i j :: int
  assumes "i mod 64 = 0"
  shows "(j div 64 = i div 64) = (i \<le> j \<and> j < i + 64)"
proof -
  obtain k where i: "i = 64 * k" using assms by (rule mod64_E)
  have "j = 64 * (j div 64) + j mod 64" "0 \<le> j mod 64" "j mod 64 < 64" by simp_all
  then show ?thesis unfolding i by (auto simp del: mult_div_mod_eq)
qed

lemma mult64_div: "i mod 64 = 0 \<Longrightarrow> 64 * (i div 64) = i" for i :: int
  by (auto elim!: mod64_E)

lemma word64_offset:
  assumes "i mod 64 = 0" "n < 64"
  shows "(i + int n) div 64 = i div 64" "(i + int n) mod 64 = int n"
  using assms by (auto elim!: mod64_E)

lemma all_word64: "(\<forall>j. i \<le> j \<and> j < i + 64 \<longrightarrow> R j) = (\<forall>n<64::nat. R (i + int n))"
proof (intro iffI allI impI)
  fix j assume R: "\<forall>n<64. R (i + int n)" and j: "i \<le> j \<and> j < i + 64"
  then show "R j" using R [rule_format, of "nat (j - i)"] by (simp add: nat_less_iff)
qed simp

lemma bit_words_loop_eq:
  assumes f: "\<And>w1 w2 n. n < 64 \<Longrightarrow> bit (f w1 w2) n = g (bit w1 n) (bit w2 n)"
  shows "wf_bitstr b1 \<Longrightarrow> wf_bitstr b2 \<Longrightarrow> bs_bits b1 = bs_bits b2 \<Longrightarrow> 0 \<le> i \<Longrightarrow> i mod 64 = 0 \<Longrightarrow>
    bit_words_loop f b1 b2 i =
      Some (with_bits b1 (\<lambda>j. if i \<le> j then g (bit_at b1 j) (bit_at b2 j) else bit_at b1 j))"
proof (induction "nat (bs_bits b1 - i)" arbitrary: b1 i rule: less_induct)
  case less
  show ?case
  proof (cases "i < bs_bits b1")
    case False
    then have "bit_cap b1 \<le> i" using less.prems by (intro wf_cap_words) auto
    then show ?thesis using False
      by (subst bit_words_loop.simps) (auto intro!: with_bits_id [symmetric])
  next
    case True
    note ix = wf_word_index [OF less.prems(1) less.prems(4) True]
    have ix2: "bit_word i < int (length (bs_words b2))"
      using ix wf_same_length [OF less.prems(1,2,3)] by simp
    have cap: "i < bit_cap b1" using True wf_bits_cap [OF less.prems(1)] by linarith
    let ?w = "f (bs_words b1 ! nat (i div 64)) (bs_words b2 ! nat (i div 64))"
    define b where "b = with_bits b1 (\<lambda>j. if i \<le> j \<and> j < i + 64 then g (bit_at b1 j) (bit_at b2 j) else bit_at b1 j)"
    have b: "b1\<lparr>bs_words := (bs_words b1)[nat (i div 64) := ?w]\<rparr> = b"
      unfolding b_def
    proof (rule words_upd_eq [OF less.prems(4) cap])
      fix n :: nat assume "n < 64"
      then show "bit ?w n = (if i \<le> 64 * (i div 64) + int n \<and> 64 * (i div 64) + int n < i + 64
          then g (bit_at b1 (64 * (i div 64) + int n)) (bit_at b2 (64 * (i div 64) + int n))
          else bit_at b1 (64 * (i div 64) + int n))"
        by (simp add: f bit_at_def mult64_div [OF less.prems(5)] word64_offset [OF less.prems(5)])
    next
      fix j :: int assume "j div 64 \<noteq> i div 64"
      then show "(if i \<le> j \<and> j < i + 64 then g (bit_at b1 j) (bit_at b2 j) else bit_at b1 j) = bit_at b1 j"
        by (auto simp: div64_range [OF less.prems(5)])
    qed
    have "bit_words_loop f b1 b2 i = bit_words_loop f b b2 (i + 64)"
      using True ix ix2 by (subst bit_words_loop.simps) (simp add: b bit_word_def)
    also have "\<dots> = Some (with_bits b (\<lambda>j. if i + 64 \<le> j then g (bit_at b j) (bit_at b2 j) else bit_at b j))"
      using True less.prems by (intro less.hyps) (auto simp: b_def)
    also have "\<dots> = Some (with_bits b1 (\<lambda>j. if i \<le> j then g (bit_at b1 j) (bit_at b2 j) else bit_at b1 j))"
      unfolding b_def by (auto intro!: with_bits_cong)
    finally show ?thesis .
  qed
qed

lemma bit_words_all_eq:
  assumes p: "\<And>w1 w2. p w1 w2 = (\<forall>n<64. q (bit w1 n) (bit w2 n))"
  shows "wf_bitstr b1 \<Longrightarrow> wf_bitstr b2 \<Longrightarrow> bs_bits b1 = bs_bits b2 \<Longrightarrow> 0 \<le> i \<Longrightarrow> i mod 64 = 0 \<Longrightarrow>
    bit_words_all p b1 b2 i = Some (\<forall>j. i \<le> j \<and> j < bit_cap b1 \<longrightarrow> q (bit_at b1 j) (bit_at b2 j))"
proof (induction "nat (bs_bits b1 - i)" arbitrary: i rule: less_induct)
  case less
  show ?case
  proof (cases "i < bs_bits b1")
    case False
    then have "bit_cap b1 \<le> i" using less.prems by (intro wf_cap_words) auto
    then show ?thesis using False by (subst bit_words_all.simps) auto
  next
    case True
    note ix = wf_word_index [OF less.prems(1) less.prems(4) True]
    have ix2: "bit_word i < int (length (bs_words b2))"
      using ix wf_same_length [OF less.prems(1,2,3)] by simp
    have cap: "i + 64 \<le> bit_cap b1"
      using ix(2) mult64_div [OF less.prems(5)] by (simp add: bit_cap_def bit_word_def)
    let ?R = "\<lambda>j. q (bit_at b1 j) (bit_at b2 j)"
    have "p (bs_words b1 ! nat (i div 64)) (bs_words b2 ! nat (i div 64)) = (\<forall>j. i \<le> j \<and> j < i + 64 \<longrightarrow> ?R j)"
    proof -
      have "(\<forall>j. i \<le> j \<and> j < i + 64 \<longrightarrow> ?R j) = (\<forall>n<64::nat. ?R (i + int n))"
        by (rule all_word64)
      moreover have "?R (i + int n) = q (bit (bs_words b1 ! nat (i div 64)) n) (bit (bs_words b2 ! nat (i div 64)) n)"
        if "n < 64" for n
      proof -
        show ?thesis by (simp add: bit_at_def word64_offset [OF less.prems(5) that])
      qed
      ultimately show ?thesis by (simp add: p)
    qed
    moreover have "bit_words_all p b1 b2 (i + 64) = Some (\<forall>j. i + 64 \<le> j \<and> j < bit_cap b1 \<longrightarrow> ?R j)"
      using True less.prems by (intro less.hyps) auto
    moreover have "(\<forall>j. i \<le> j \<and> j < bit_cap b1 \<longrightarrow> ?R j) =
        ((\<forall>j. i \<le> j \<and> j < i + 64 \<longrightarrow> ?R j) \<and> (\<forall>j. i + 64 \<le> j \<and> j < bit_cap b1 \<longrightarrow> ?R j))"
      using cap by (metis dual_order.trans le_add_same_cancel1 not_less order_less_le_trans zero_le_numeral)
    ultimately show ?thesis
      using True ix ix2 by (subst bit_words_all.simps) (simp add: bit_word_def)
  qed
qed

lemma bit_and_eq [bitmap_simps]:
  assumes "wf_bitstr b1" "wf_bitstr b2" "bs_bits b1 = bs_bits b2"
  shows "bit_and b1 b2 = Some (with_bits b1 (\<lambda>j. bit_at b1 j \<and> bit_at b2 j))"
proof -
  have "bit_words_loop (AND) b1 b2 0 =
      Some (with_bits b1 (\<lambda>j. if 0 \<le> j then bit_at b1 j \<and> bit_at b2 j else bit_at b1 j))"
    using assms by (intro bit_words_loop_eq [where g = "(\<and>)"]) (auto simp: bit_and_iff)
  moreover have "with_bits b1 (\<lambda>j. if 0 \<le> j then bit_at b1 j \<and> bit_at b2 j else bit_at b1 j) =
      with_bits b1 (\<lambda>j. bit_at b1 j \<and> bit_at b2 j)" by (rule with_bits_cong) simp
  ultimately show ?thesis using assms by (simp add: bit_and_def wf_bitstr_def)
qed

lemma bit_and_not_eq [bitmap_simps]:
  assumes "wf_bitstr b1" "wf_bitstr b2" "bs_bits b1 = bs_bits b2"
  shows "bit_and_not b1 b2 = Some (with_bits b1 (\<lambda>j. bit_at b1 j \<and> \<not> bit_at b2 j))"
proof -
  have "bit_words_loop (\<lambda>w1 w2. w1 AND NOT w2) b1 b2 0 =
      Some (with_bits b1 (\<lambda>j. if 0 \<le> j then bit_at b1 j \<and> \<not> bit_at b2 j else bit_at b1 j))"
    using assms by (intro bit_words_loop_eq [where g = "\<lambda>x y. x \<and> \<not> y"]) (auto simp: bit_and_iff bit_not_iff)
  moreover have "with_bits b1 (\<lambda>j. if 0 \<le> j then bit_at b1 j \<and> \<not> bit_at b2 j else bit_at b1 j) =
      with_bits b1 (\<lambda>j. bit_at b1 j \<and> \<not> bit_at b2 j)" by (rule with_bits_cong) simp
  ultimately show ?thesis using assms by (simp add: bit_and_not_def wf_bitstr_def)
qed

lemma bit_or_eq [bitmap_simps]:
  assumes "wf_bitstr b1" "wf_bitstr b2" "bs_bits b1 = bs_bits b2"
  shows "bit_or b1 b2 = Some (with_bits b1 (\<lambda>j. bit_at b1 j \<or> bit_at b2 j))"
proof -
  have "bit_words_loop (OR) b1 b2 0 =
      Some (with_bits b1 (\<lambda>j. if 0 \<le> j then bit_at b1 j \<or> bit_at b2 j else bit_at b1 j))"
    using assms by (intro bit_words_loop_eq [where g = "(\<or>)"]) (auto simp: bit_or_iff)
  moreover have "with_bits b1 (\<lambda>j. if 0 \<le> j then bit_at b1 j \<or> bit_at b2 j else bit_at b1 j) =
      with_bits b1 (\<lambda>j. bit_at b1 j \<or> bit_at b2 j)" by (rule with_bits_cong) simp
  ultimately show ?thesis using assms by (simp add: bit_or_def wf_bitstr_def)
qed

lemma bit_not_eq [bitmap_simps]:
  assumes "wf_bitstr b"
  shows "bit_not b = Some (with_bits b (\<lambda>j. \<not> bit_at b j))"
proof -
  have "bit_words_loop (\<lambda>w _. NOT w) b b 0 =
      Some (with_bits b (\<lambda>j. if 0 \<le> j then \<not> bit_at b j else bit_at b j))"
    using assms by (intro bit_words_loop_eq [where g = "\<lambda>x y. \<not> x"]) (auto simp: bit_not_iff)
  moreover have "with_bits b (\<lambda>j. if 0 \<le> j then \<not> bit_at b j else bit_at b j) =
      with_bits b (\<lambda>j. \<not> bit_at b j)" by (rule with_bits_cong) simp
  ultimately show ?thesis using assms by (simp add: bit_not_def wf_bitstr_def)
qed

lemma bit_super_set_eq [bitmap_simps]:
  assumes "wf_bitstr b1" "wf_bitstr b2" "bs_bits b1 = bs_bits b2"
  shows "bit_super_set b1 b2 = Some (\<forall>j. 0 \<le> j \<and> j < bit_cap b1 \<longrightarrow> bit_at b1 j \<longrightarrow> bit_at b2 j)"
proof -
  have "bit_words_all (\<lambda>w1 w2. w1 = w1 AND w2) b1 b2 0 =
      Some (\<forall>j. 0 \<le> j \<and> j < bit_cap b1 \<longrightarrow> bit_at b1 j \<longrightarrow> bit_at b2 j)"
    using assms by (intro bit_words_all_eq [where q = "(\<longrightarrow>)"]) (auto simp: bit_eq_iff bit_and_iff)
  then show ?thesis using assms by (simp add: bit_super_set_def wf_bitstr_def)
qed

lemma bit_equal_eq [bitmap_simps]:
  assumes "wf_bitstr b1" "wf_bitstr b2"
  shows "bit_equal b1 b2 = Some (bs_bits b1 = bs_bits b2 \<and>
    (\<forall>j. 0 \<le> j \<and> j < bit_cap b1 \<longrightarrow> bit_at b1 j = bit_at b2 j))"
proof (cases "bs_bits b1 = bs_bits b2")
  case True
  have "bit_words_all (=) b1 b2 0 = Some (\<forall>j. 0 \<le> j \<and> j < bit_cap b1 \<longrightarrow> bit_at b1 j = bit_at b2 j)"
    using assms True by (intro bit_words_all_eq) (auto simp: bit_eq_iff)
  then show ?thesis using assms True by (simp add: bit_equal_def wf_bitstr_def)
next
  case False
  then show ?thesis using assms by (simp add: bit_equal_def wf_bitstr_def)
qed

lemma bit_copy_eq [bitmap_simps]:
  assumes "wf_bitstr b"
  shows "bit_copy b = Some (b\<lparr>bs_magic := BITSTR_MAGIC\<rparr>)"
  using assms
  by (cases b) (auto simp: bit_copy_def bit_size_def bit_alloc_def copy_words_def wf_bitstr_def nat_eq_iff)

lemma bit_copybits_eq [bitmap_simps]:
  assumes "wf_bitstr dest" "wf_bitstr src" "bs_bits dest = bs_bits src"
  shows "bit_copybits dest src = Some (with_bits dest (bit_at src))"
proof -
  have "dest\<lparr>bs_words := bs_words src\<rparr> = with_bits dest (bit_at src)"
    using wf_same_length [OF assms] by (intro bitstr_eqI) (auto simp: bit_at_def [of "dest\<lparr>bs_words := _\<rparr>"] simp flip: bit_at_def)
  moreover have "nat (bitstr_words (bs_bits src)) = length (bs_words src)"
    using assms by (simp add: wf_bitstr_def nat_eq_iff)
  ultimately show ?thesis
    using assms wf_same_length [OF assms] by (simp add: bit_copybits_def bit_size_def copy_words_def wf_bitstr_def)
qed

lemma bit_alloc_eq [bitmap_simps]:
  assumes "valid_size n"
  shows "bit_alloc n = Some \<lparr>bs_magic = BITSTR_MAGIC, bs_bits = n, bs_words = replicate (nat (bitstr_words n)) 0\<rparr>"
  using assms by (simp add: bit_alloc_def)

lemma bit_alloc_wf:
  assumes "valid_size n" "bit_alloc n = Some b"
  shows "wf_bitstr b" "bs_bits b = n" "0 \<le> j \<Longrightarrow> j < bit_cap b \<Longrightarrow> \<not> bit_at b j"
proof -
  have b: "b = \<lparr>bs_magic = BITSTR_MAGIC, bs_bits = n, bs_words = replicate (nat (bitstr_words n)) 0\<rparr>"
    using assms by (simp add: bit_alloc_eq)
  show "wf_bitstr b" "bs_bits b = n"
    using assms(1) by (auto simp: b wf_bitstr_def bitstr_valid_def bitstr_words_def valid_size_def)
  show "\<not> bit_at b j" if "0 \<le> j" "j < bit_cap b"
    using that nat_div64_less [of j "length (bs_words b)"] by (simp add: bit_at_def b bit_cap_def)
qed

lemma bit_allocE:
  assumes "valid_size n"
  obtains z where "bit_alloc n = Some z" "wf_bitstr z" "bs_bits z = n" "bs_magic z = BITSTR_MAGIC"
    "\<forall>j. 0 \<le> j \<and> j < bit_cap z \<longrightarrow> \<not> bit_at z j"
proof (rule that)
  let ?z = "\<lparr>bs_magic = BITSTR_MAGIC, bs_bits = n, bs_words = replicate (nat (bitstr_words n)) 0\<rparr>"
  show z: "bit_alloc n = Some ?z" by (rule bit_alloc_eq [OF assms])
  show "wf_bitstr ?z" "bs_bits ?z = n" by (fact bit_alloc_wf [OF assms z])+
  show "\<forall>j. 0 \<le> j \<and> j < bit_cap ?z \<longrightarrow> \<not> bit_at ?z j" using bit_alloc_wf(3) [OF assms z] by blast
qed simp

subsection \<open>Bitstrings as sets of bit positions\<close>

text \<open>
  \<open>bitset b\<close> is the set a bitstring stands for. A string is \<open>clean\<close> when the slack
  of its last word is zero; \<open>bit_not\<close> is the only operation that makes a clean string
  dirty, and the word-wise comparisons are exact on clean strings only.
\<close>

definition bitset :: "bitstr \<Rightarrow> int set" where
  "bitset b = {i. 0 \<le> i \<and> i < bs_bits b \<and> bit_at b i}"

definition clean :: "bitstr \<Rightarrow> bool" where
  "clean b \<longleftrightarrow> (\<forall>i. bs_bits b \<le> i \<and> i < bit_cap b \<longrightarrow> \<not> bit_at b i)"

lemma bitset_bounds: "bitset b \<subseteq> {0..<bs_bits b}"
  by (auto simp: bitset_def)

lemma finite_bitset [simp]: "finite (bitset b)"
  using finite_subset [OF bitset_bounds] by simp

lemma bitset_with_bits:
  "wf_bitstr b \<Longrightarrow> bitset (with_bits b P) = {i. 0 \<le> i \<and> i < bs_bits b \<and> P i}"
  using wf_bits_cap [of b] by (auto simp: bitset_def)

lemma clean_with_bits:
  "wf_bitstr b \<Longrightarrow> clean (with_bits b P) = (\<forall>i. bs_bits b \<le> i \<and> i < bit_cap b \<longrightarrow> \<not> P i)"
  using wf_bits_cap [of b] by (auto simp: clean_def)

lemma bit_at_bitset: "0 \<le> i \<Longrightarrow> i < bs_bits b \<Longrightarrow> bit_at b i = (i \<in> bitset b)"
  by (simp add: bitset_def)

locale bitmap_store =
  fixes wf :: "'b \<Rightarrow> bool" and cl :: "'b \<Rightarrow> bool" and width :: "'b \<Rightarrow> int" and elems :: "'b \<Rightarrow> int set"
    and band :: "'b \<Rightarrow> 'b \<Rightarrow> 'b option" and bdiff :: "'b \<Rightarrow> 'b \<Rightarrow> 'b option"
    and bor :: "'b \<Rightarrow> 'b \<Rightarrow> 'b option" and bnot :: "'b \<Rightarrow> 'b option"
    and bcopy :: "'b \<Rightarrow> 'b option" and bsub :: "'b \<Rightarrow> 'b \<Rightarrow> bool option"
  assumes elems_bound: "elems a \<subseteq> {0..<width a}"
    and band_law: "wf a \<Longrightarrow> wf b \<Longrightarrow> width a = width b \<Longrightarrow>
      \<exists>c. band a b = Some c \<and> wf c \<and> width c = width a \<and> elems c = elems a \<inter> elems b \<and> (cl a \<or> cl b \<longrightarrow> cl c)"
    and bdiff_law: "wf a \<Longrightarrow> wf b \<Longrightarrow> width a = width b \<Longrightarrow>
      \<exists>c. bdiff a b = Some c \<and> wf c \<and> width c = width a \<and> elems c = elems a - elems b \<and> (cl a \<longrightarrow> cl c)"
    and bor_law: "wf a \<Longrightarrow> wf b \<Longrightarrow> width a = width b \<Longrightarrow>
      \<exists>c. bor a b = Some c \<and> wf c \<and> width c = width a \<and> elems c = elems a \<union> elems b \<and> (cl a \<and> cl b \<longrightarrow> cl c)"
    and bnot_law: "wf a \<Longrightarrow> \<exists>c. bnot a = Some c \<and> wf c \<and> width c = width a \<and> elems c = {0..<width a} - elems a"
    and bcopy_law: "wf a \<Longrightarrow> \<exists>c. bcopy a = Some c \<and> wf c \<and> width c = width a \<and> elems c = elems a \<and> (cl a \<longrightarrow> cl c)"
    and bsub_law: "wf a \<Longrightarrow> wf b \<Longrightarrow> width a = width b \<Longrightarrow> cl a \<Longrightarrow> bsub a b = Some (elems a \<subseteq> elems b)"
begin

text \<open>Taking the nodes of \<open>r\<close> out of \<open>a\<close> by a complement and an intersection, the way the
  schedulers do it, is the difference \<open>bdiff\<close> computes, and keeps \<open>a\<close> clean.\<close>

lemma band_bnot:
  assumes "wf a" "wf r" "width a = width r"
  shows "\<exists>n c d. bnot r = Some n \<and> band a n = Some c \<and> bdiff a r = Some d \<and>
    wf c \<and> width c = width a \<and> elems c = elems d \<and> elems c = elems a - elems r \<and> (cl a \<longrightarrow> cl c)"
proof -
  obtain n where n: "bnot r = Some n" "wf n" "width n = width r" "elems n = {0..<width r} - elems r"
    using bnot_law [OF assms(2)] by auto
  obtain c where c: "band a n = Some c" "wf c" "width c = width a" "elems c = elems a \<inter> elems n" "cl a \<longrightarrow> cl c"
    using band_law [OF assms(1) n(2)] n(3) assms(3) by auto
  obtain d where d: "bdiff a r = Some d" "elems d = elems a - elems r"
    using bdiff_law [OF assms] by auto
  have "elems c = elems a - elems r" using c(4) n(4) elems_bound [of a] assms(3) by auto
  then show ?thesis using n(1) c d by auto
qed

text \<open>What is taken out can no longer be claimed by a non-empty request.\<close>

lemma taken_not_claimable:
  assumes "wf a" "wf r" "width a = width r" "cl r" "elems r \<noteq> {}" "bdiff a r = Some d"
  shows "bsub r d = Some False"
proof -
  have d: "wf d" "width d = width a" "elems d = elems a - elems r"
    using bdiff_law [OF assms(1-3)] assms(6) by auto
  show ?thesis using bsub_law [of r d] d assms by auto
qed

end

lemma bit_and_set:
  assumes "wf_bitstr a" "wf_bitstr b" "bs_bits a = bs_bits b"
  shows "\<exists>c. bit_and a b = Some c \<and> wf_bitstr c \<and> bs_bits c = bs_bits a \<and>
    bitset c = bitset a \<inter> bitset b \<and> (clean a \<or> clean b \<longrightarrow> clean c)"
  using assms wf_same_cap [OF assms]
  by (auto simp: bit_and_eq bitset_with_bits clean_with_bits) (auto simp: bitset_def clean_def)

lemma bit_and_not_set:
  assumes "wf_bitstr a" "wf_bitstr b" "bs_bits a = bs_bits b"
  shows "\<exists>c. bit_and_not a b = Some c \<and> wf_bitstr c \<and> bs_bits c = bs_bits a \<and>
    bitset c = bitset a - bitset b \<and> (clean a \<longrightarrow> clean c)"
  using assms wf_same_cap [OF assms]
  by (auto simp: bit_and_not_eq bitset_with_bits clean_with_bits) (auto simp: bitset_def clean_def)

lemma bit_or_set:
  assumes "wf_bitstr a" "wf_bitstr b" "bs_bits a = bs_bits b"
  shows "\<exists>c. bit_or a b = Some c \<and> wf_bitstr c \<and> bs_bits c = bs_bits a \<and>
    bitset c = bitset a \<union> bitset b \<and> (clean a \<and> clean b \<longrightarrow> clean c)"
  using assms wf_same_cap [OF assms]
  by (auto simp: bit_or_eq bitset_with_bits clean_with_bits) (auto simp: bitset_def clean_def)

lemma bit_not_set:
  assumes "wf_bitstr a"
  shows "\<exists>c. bit_not a = Some c \<and> wf_bitstr c \<and> bs_bits c = bs_bits a \<and> bitset c = {0..<bs_bits a} - bitset a"
  using assms by (auto simp: bit_not_eq bitset_with_bits) (auto simp: bitset_def)

lemma bit_copy_set:
  assumes "wf_bitstr a"
  shows "\<exists>c. bit_copy a = Some c \<and> wf_bitstr c \<and> bs_bits c = bs_bits a \<and> bitset c = bitset a \<and> (clean a \<longrightarrow> clean c)"
  using assms
  by (auto simp: bit_copy_eq wf_bitstr_def bitstr_valid_def bitset_def clean_def bit_at_def bit_cap_def)

lemma bit_super_set_set:
  assumes "wf_bitstr a" "wf_bitstr b" "bs_bits a = bs_bits b" "clean a"
  shows "bit_super_set a b = Some (bitset a \<subseteq> bitset b)"
proof -
  have "(\<forall>j. 0 \<le> j \<and> j < bit_cap a \<longrightarrow> bit_at a j \<longrightarrow> bit_at b j) = (bitset a \<subseteq> bitset b)"
    using assms(3,4) wf_bits_cap [OF assms(1)] unfolding bitset_def clean_def subset_iff mem_Collect_eq
    by (metis (no_types, lifting) not_le order_less_le_trans)
  then show ?thesis using assms by (simp add: bit_super_set_eq)
qed

lemma bit_equal_set:
  assumes "wf_bitstr a" "wf_bitstr b" "clean a" "clean b"
  shows "bit_equal a b = Some (bs_bits a = bs_bits b \<and> bitset a = bitset b)"
proof (cases "bs_bits a = bs_bits b")
  case True
  have "(\<forall>j. 0 \<le> j \<and> j < bit_cap a \<longrightarrow> bit_at a j = bit_at b j) = (bitset a = bitset b)"
    using True assms(3,4) wf_bits_cap [OF assms(1)] wf_same_cap [OF assms(1,2) True]
    by (auto simp: bitset_def clean_def set_eq_iff not_less) (meson not_le)+
  then show ?thesis using assms True by (simp add: bit_equal_eq)
qed (use assms in \<open>simp add: bit_equal_eq\<close>)

interpretation bm: bitmap_store wf_bitstr clean bs_bits bitset bit_and bit_and_not bit_or bit_not bit_copy bit_super_set
  by unfold_locales
    (fact bitset_bounds bit_and_set bit_and_not_set bit_or_set bit_not_set bit_copy_set bit_super_set_set)+

subsection \<open>Properties\<close>

text \<open>A concrete string for the instances below: ten bits, of which 0, 2, 3 and 9 are set.\<close>

definition ten_bits :: bitstr where
  "ten_bits = \<lparr>bs_magic = BITSTR_MAGIC, bs_bits = 10, bs_words = [0x20D]\<rparr>"

lemma ten_bits_simps [simp]:
  "bs_bits ten_bits = 10" "bs_magic ten_bits = BITSTR_MAGIC" "bit_cap ten_bits = 64" "wf_bitstr ten_bits"
  by (simp_all add: ten_bits_def bit_cap_def wf_bitstr_def bitstr_valid_def valid_size_def bitstr_words_def)

lemma ten_bits_at: "0 \<le> i \<Longrightarrow> i < 64 \<Longrightarrow> bit_at ten_bits i = (i \<in> {0, 2, 3, 9})"
proof -
  have w: "bit (0x20D :: u64) n = (n \<in> {0, 2, 3, 9})" if "n < 64" for n
    using that by (auto simp: bit_simps numeral_eq_Suc elim!: less_SucE)
  assume "0 \<le> i" "i < 64"
  then show ?thesis using w [of "nat i"] by (auto simp: ten_bits_def bit_at_def nat_eq_iff)
qed

lemma ten_bits_set [simp]: "bitset ten_bits = {0, 2, 3, 9}" "clean ten_bits"
proof -
  show "bitset ten_bits = {0, 2, 3, 9}"
  proof (rule set_eqI)
    fix x :: int
    show "x \<in> bitset ten_bits \<longleftrightarrow> x \<in> {0, 2, 3, 9}"
      by (cases "0 \<le> x \<and> x < 10") (auto simp: bitset_def ten_bits_at)
  qed
  show "clean ten_bits" by (auto simp: clean_def ten_bits_at)
qed

text \<open>C32 (equivalence): \<open>bit_nset\<close> and \<open>bit_nclear\<close>, which fill whole bytes with \<open>memset\<close> and
  treat the partial first and last byte bit by bit, return and add (remove) exactly the
  positions \<open>start .. stop\<close>; no other bit changes, the slack of the last word included.\<close>

theorem bit_range_ops:
  assumes "wf_bitstr b" "0 \<le> start" "start < bs_bits b" "0 \<le> stop" "stop < bs_bits b"
  shows "\<exists>c d. bit_nset b start stop = Some c \<and> bit_nclear b start stop = Some d \<and>
    wf_bitstr c \<and> wf_bitstr d \<and> bitset c = bitset b \<union> {start..stop} \<and> bitset d = bitset b - {start..stop} \<and>
    (\<forall>j. 0 \<le> j \<and> j < bit_cap b \<and> (j < start \<or> stop < j) \<longrightarrow> bit_at c j = bit_at b j \<and> bit_at d j = bit_at b j)"
proof -
  define c where "c = with_bits b (\<lambda>j. (start \<le> j \<and> j \<le> stop) \<or> bit_at b j)"
  define d where "d = with_bits b (\<lambda>j. \<not> (start \<le> j \<and> j \<le> stop) \<and> bit_at b j)"
  have "bitset c = bitset b \<union> {start..stop}" "bitset d = bitset b - {start..stop}"
    unfolding c_def d_def bitset_with_bits [OF assms(1)] using assms by (auto simp: bitset_def)
  moreover have "\<forall>j. 0 \<le> j \<and> j < bit_cap b \<and> (j < start \<or> stop < j) \<longrightarrow> bit_at c j = bit_at b j \<and> bit_at d j = bit_at b j"
    unfolding c_def d_def by auto
  moreover have "wf_bitstr c" "wf_bitstr d" using assms(1) by (simp_all add: c_def d_def)
  ultimately show ?thesis
    using bit_nset_eq [OF assms, folded c_def] bit_nclear_eq [OF assms, folded d_def] by blast
qed

theorem bit_range_ops_witness:
  "\<exists>c d. bit_nset ten_bits 1 8 = Some c \<and> bit_nclear ten_bits 1 8 = Some d \<and>
    bitset c = {0, 2, 3, 9} \<union> {1..8} \<and> bitset d = {0, 2, 3, 9} - {1..8}"
  using bit_range_ops [of ten_bits 1 8] by auto

text \<open>The way the schedulers remove nodes from an available set, a
  complement (\<open>bit_not\<close>) followed by an intersection (\<open>bit_and\<close>), computes the set difference,
  agrees with \<open>bit_and_not\<close>, keeps the target clean although the complement is not, and
  leaves a set that no longer contains the removed nodes: \<open>bit_super_set\<close> then refuses any
  non-empty part of them.\<close>

theorem bit_remove_nodes:
  assumes "wf_bitstr a" "wf_bitstr r" "bs_bits a = bs_bits r" "clean a" "clean r" "bitset r \<noteq> {}"
  shows "\<exists>n c d. bit_not r = Some n \<and> bit_and a n = Some c \<and> bit_and_not a r = Some d \<and> c = d \<and>
    wf_bitstr c \<and> clean c \<and> bitset c = bitset a - bitset r \<and> bit_super_set r d = Some False"
proof -
  obtain n c d where n: "bit_not r = Some n" "bit_and a n = Some c" "bit_and_not a r = Some d"
      "wf_bitstr c" "bitset c = bitset a - bitset r" "clean c"
    using bm.band_bnot [OF assms(1-3)] assms(4) by blast
  have "c = d"
    using n(1-3) assms bit_and_eq [of a n] wf_same_cap [OF assms(1-3)]
    by (auto simp: bit_not_eq bit_and_eq bit_and_not_eq intro!: with_bits_cong)
  then show ?thesis using n bm.taken_not_claimable [OF assms(1-3,5,6) n(3)] by auto
qed

theorem bit_remove_nodes_witness:
  "\<exists>n c d. bit_not ten_bits = Some n \<and> bit_and ten_bits n = Some c \<and> bit_and_not ten_bits ten_bits = Some d \<and>
    c = d \<and> bitset c = {} \<and> bit_super_set ten_bits d = Some False"
  using bit_remove_nodes [of ten_bits ten_bits] by auto

text \<open>On clean strings \<open>bit_equal\<close> and \<open>bit_super_set\<close>, which compare whole
  words, decide equality of size and set and the subset relation.\<close>

theorem bit_compare_exact:
  assumes "wf_bitstr a" "wf_bitstr b" "clean a" "clean b"
  shows "bit_equal a b = Some (bs_bits a = bs_bits b \<and> bitset a = bitset b) \<and>
    (bs_bits a = bs_bits b \<longrightarrow> bit_super_set a b = Some (bitset a \<subseteq> bitset b))"
  using assms by (simp_all add: bit_equal_set bit_super_set_set)

theorem bit_compare_exact_witness:
  "bit_equal ten_bits ten_bits = Some True \<and> bit_super_set ten_bits ten_bits = Some True"
  using bit_compare_exact [of ten_bits ten_bits] by simp

end
