(* ===== verification/Bitstring_Search.thy ===== *)
theory Bitstring_Search
  imports Bitstring
begin

unbundle bit_operations_syntax

section \<open>Searching bitstrings (\<open>src/common/bitstring.c\<close>)\<close>

text \<open>
  The \<open>bit_ff*\<close>, \<open>bit_fls\<close>, \<open>bit_noc\<close> and \<open>bit_fill_gaps\<close> functions. The searches that skip
  whole words are related to the first or last position of \<open>bitset\<close>; the searches for
  \<open>n\<close> contiguous bits are related to the predicate \<open>run\<close>. Each search function is total
  on well-formed strings: its result is \<open>Some v\<close>, with \<open>v = - 1\<close> for not found.
\<close>

subsection \<open>The operations\<close>

text \<open>The builtins \<open>__builtin_ctzll\<close> and \<open>__builtin_clzll\<close> on a non-zero word.\<close>

definition ctzll :: "u64 \<Rightarrow> int" where
  "ctzll w = int (length (takeWhile (\<lambda>n. \<not> bit w n) [0..<64]))"

definition clzll :: "u64 \<Rightarrow> int" where
  "clzll w = int (length (takeWhile (\<lambda>n. \<not> bit w n) (rev [0..<64])))"

text \<open>The inner loop of \<open>bit_ffc\<close>: the value found (\<open>- 1\<close> if none) and the final offset.\<close>

function ffc_word :: "bitstr \<Rightarrow> int \<Rightarrow> int \<Rightarrow> (int \<times> int) option" where
  "ffc_word b word i =
     (if i < bs_bits b \<and> bit_word i = word then do {
        t \<leftarrow> bit_test b i;
        if \<not> t then Some (i, i) else ffc_word b word (i + 1)
      } else Some (- 1, i))"
  by pat_completeness auto
termination
  by (relation "measure (\<lambda>(b, word, i). nat (bs_bits b - i))") auto

declare ffc_word.simps [simp del]

lemma ffc_word_mono: "ffc_word b word i = Some (v, i') \<Longrightarrow> i \<le> i'"
proof (induction b word i rule: ffc_word.induct)
  case (1 b word i)
  then show ?case
    by (subst (asm) (2) ffc_word.simps) (fastforce split: if_splits bind_splits)
qed

lemma ffc_word_progress:
  assumes "i < bs_bits b" "ffc_word b (bit_word i) i = Some (- 1, i')"
  shows "i < i'"
proof -
  have "bit_test b (- 1) = None"
    by (simp add: bit_test_def bit_valid_def c_assert_def)
  then show ?thesis
    using assms ffc_word_mono [of b "bit_word i" "i + 1" "- 1" i']
    by (subst (asm) ffc_word.simps) (auto split: if_splits bind_splits)
qed

function ffc_loop :: "bitstr \<Rightarrow> int \<Rightarrow> int option" where
  "ffc_loop b i =
     (if i < bs_bits b then do {
        w \<leftarrow> c_rd (bs_words b) (bit_word i);
        if w = BITSTR_MAXVAL then ffc_loop b (i + 64)
        else do {
          (v, i') \<leftarrow> ffc_word b (bit_word i) i;
          if v = - 1 then ffc_loop b i' else Some v
        }
      } else Some (- 1))"
  by pat_completeness auto
termination
  by (relation "measure (\<lambda>(b, i). nat (bs_bits b - i))") (auto dest: ffc_word_progress)

declare ffc_loop.simps [simp del]

definition bit_ffc :: "bitstr \<Rightarrow> int option" where
  "bit_ffc b = do { c_assert (bitstr_valid b); ffc_loop b 0 }"

text \<open>
  The counting loop of \<open>bit_nffc\<close>, \<open>bit_noc\<close> and \<open>bit_nffs\<close>: \<open>want\<close> is the value of the
  bits that are counted, \<open>hi\<close> the bound of the \<open>for\<close> loop and \<open>brk\<close> the condition under
  which a bit of the other value ends the loop (\<open>bit >= seed\<close> in \<open>bit_noc\<close>).
\<close>

function run_loop :: "bitstr \<Rightarrow> bool \<Rightarrow> (int \<Rightarrow> bool) \<Rightarrow> int \<Rightarrow> int \<Rightarrow> int \<Rightarrow> int \<Rightarrow> int option" where
  "run_loop b want brk n hi i cnt =
     (if i < hi then do {
        t \<leftarrow> bit_test b i;
        if t \<noteq> want then (if brk i then Some (- 1) else run_loop b want brk n hi (i + 1) 0)
        else let cnt = cnt + 1 in
          if cnt \<ge> n then Some (i - (cnt - 1)) else run_loop b want brk n hi (i + 1) cnt
      } else Some (- 1))"
  by pat_completeness auto
termination
  by (relation "measure (\<lambda>(b, want, brk, n, hi, i, cnt). nat (hi - i))") auto

declare run_loop.simps [simp del]

definition bit_nffc :: "bitstr \<Rightarrow> int \<Rightarrow> int option" where
  "bit_nffc b n = do {
     c_assert (bitstr_valid b);
     c_assert (n > 0 \<and> n < bs_bits b);
     run_loop b False (\<lambda>_. False) n (bs_bits b) 0 0
   }"

definition bit_noc :: "bitstr \<Rightarrow> int \<Rightarrow> int \<Rightarrow> int option" where
  "bit_noc b n seed = do {
     c_assert (bitstr_valid b);
     c_assert (n > 0 \<and> n \<le> bs_bits b);
     let seed = (if seed + n \<ge> bs_bits b then bs_bits b else seed);
     v \<leftarrow> run_loop b False (\<lambda>_. False) n (bs_bits b) seed 0;
     if v \<noteq> - 1 then Some v
     else run_loop b False (\<lambda>i. i \<ge> seed) n (bs_bits b) 0 0
   }"

definition bit_nffs :: "bitstr \<Rightarrow> int \<Rightarrow> int option" where
  "bit_nffs b n = do {
     c_assert (bitstr_valid b);
     c_assert (n > 0 \<and> n \<le> bs_bits b);
     run_loop b True (\<lambda>_. False) n (bs_bits b - n + 1) 0 0
   }"

function ffs_loop :: "bitstr \<Rightarrow> int \<Rightarrow> int option" where
  "ffs_loop b i =
     (if i < bs_bits b then do {
        w \<leftarrow> c_rd (bs_words b) (bit_word i);
        if w = 0 then ffs_loop b (i + 64) else Some (i + ctzll w)
      } else Some (- 1))"
  by pat_completeness auto
termination
  by (relation "measure (\<lambda>(b, i). nat (bs_bits b - i))") auto

declare ffs_loop.simps [simp del]

definition bit_ffs :: "bitstr \<Rightarrow> int option" where
  "bit_ffs b = do { c_assert (bitstr_valid b); ffs_loop b 0 }"

text \<open>The two loops of \<open>bit_fls\<close>: single bits down to a word boundary, then whole words.
  The first returns the value found and the final offset.\<close>

function fls_part :: "bitstr \<Rightarrow> int \<Rightarrow> (int \<times> int) option" where
  "fls_part b i =
     (if i \<ge> 0 \<and> bit_word i = bit_word (i + 1) then do {
        t \<leftarrow> bit_test b i;
        if t then Some (i, i) else fls_part b (i - 1)
      } else Some (- 1, i))"
  by pat_completeness auto
termination
  by (relation "measure (\<lambda>(b, i). nat (i + 1))") auto

function fls_words :: "bitstr \<Rightarrow> int \<Rightarrow> int option" where
  "fls_words b i =
     (if i \<ge> 0 then do {
        w \<leftarrow> c_rd (bs_words b) (bit_word i);
        if w = 0 then fls_words b (i - 64) else Some (i - clzll w)
      } else Some (- 1))"
  by pat_completeness auto
termination
  by (relation "measure (\<lambda>(b, i). nat (i + 1))") auto

declare fls_part.simps [simp del] fls_words.simps [simp del]

definition bit_fls :: "bitstr \<Rightarrow> int option" where
  "bit_fls b = do {
     c_assert (bitstr_valid b);
     if bs_bits b = 0 then Some (- 1)
     else do {
       (v, i) \<leftarrow> fls_part b (bs_bits b - 1);
       if v = - 1 then fls_words b i else Some v
     }
   }"

definition bit_fill_gaps :: "bitstr \<Rightarrow> bitstr option" where
  "bit_fill_gaps b = do {
     c_assert (bitstr_valid b);
     first \<leftarrow> bit_ffs b;
     if first = - 1 then Some b
     else do { last \<leftarrow> bit_fls b; bit_nset b first last }
   }"

subsection \<open>First and last positions\<close>

lemma ctzll_props:
  assumes "w \<noteq> 0"
  shows "ctzll w < 64" "bit w (nat (ctzll w))" "\<And>n. int n < ctzll w \<Longrightarrow> \<not> bit w n"
proof -
  let ?P = "\<lambda>n. \<not> bit w n"
  obtain m where m: "bit w m" using assms by (auto simp: bit_eq_iff)
  then have m64: "m < 64" using bit_imp_le_length [OF m] by simp
  have len: "length (takeWhile ?P [0..<64]) < length [0..<64::nat]"
    using m m64 by (intro takeWhile_length_less [of m]) auto
  then show "ctzll w < 64" by (simp add: ctzll_def)
  show "bit w (nat (ctzll w))"
    using nth_length_takeWhile [OF len] len by (simp add: ctzll_def)
  show "\<not> bit w n" if "int n < ctzll w" for n
    using nth_mem [of n "takeWhile ?P [0..<64]"] that len takeWhile_nth [of n ?P "[0..<64]"]
    by (auto simp: ctzll_def dest!: set_takeWhileD)
qed

lemma clzll_props:
  assumes "w \<noteq> 0"
  shows "clzll w < 64" "bit w (nat (63 - clzll w))" "\<And>n. 63 - clzll w < int n \<Longrightarrow> \<not> bit w n"
proof -
  let ?P = "\<lambda>n. \<not> bit w n" and ?l = "rev [0..<64] :: nat list"
  obtain m where m: "bit w m" using assms by (auto simp: bit_eq_iff)
  then have m64: "m < 64" using bit_imp_le_length [OF m] by simp
  have len: "length (takeWhile ?P ?l) < length ?l"
    using m m64 by (intro takeWhile_length_less [of m]) auto
  then show "clzll w < 64" by (simp add: clzll_def)
  have nth: "?l ! k = 63 - k" if "k < 64" for k
    using that by (subst rev_nth) auto
  show "bit w (nat (63 - clzll w))"
    using nth_length_takeWhile [OF len] len by (simp add: clzll_def nth nat_diff_distrib)
  show "\<not> bit w n" if n: "63 - clzll w < int n" for n
  proof (cases "n < 64")
    case True
    then have "63 - n < length (takeWhile ?P ?l)" using n by (simp add: clzll_def)
    then have "?P (?l ! (63 - n))"
      using nth_mem [of "63 - n" "takeWhile ?P ?l"] takeWhile_nth [of "63 - n" ?P ?l]
      by (auto dest!: set_takeWhileD)
    then show ?thesis using True by (simp add: nth)
  next
    case False
    then show ?thesis using bit_imp_le_length [of w n] by auto
  qed
qed

text \<open>\<open>first_at P hi v\<close>: \<open>v\<close> is the first position below \<open>hi\<close> that satisfies \<open>P\<close>, or \<open>- 1\<close>.\<close>

definition first_at :: "(int \<Rightarrow> bool) \<Rightarrow> int \<Rightarrow> int \<Rightarrow> bool" where
  "first_at P hi v \<longleftrightarrow>
     (v = - 1 \<and> (\<forall>j. 0 \<le> j \<and> j < hi \<longrightarrow> \<not> P j)) \<or>
     (0 \<le> v \<and> v < hi \<and> P v \<and> (\<forall>j. 0 \<le> j \<and> j < v \<longrightarrow> \<not> P j))"

lemma bit_at_word: "0 \<le> i \<Longrightarrow> i mod 64 = 0 \<Longrightarrow> n < 64 \<Longrightarrow> bit_at b (i + int n) = bit (bs_words b ! nat (i div 64)) n"
  by (simp add: bit_at_def word64_offset)

lemma zero_wordD:
  assumes "bs_words b ! nat (i div 64) = 0" "i mod 64 = 0" "i \<le> j" "j < i + 64"
  shows "\<not> bit_at b j"
  using assms div64_range [of i j] by (simp add: bit_at_def)

lemma ffs_loop_eq:
  "wf_bitstr b \<Longrightarrow> 0 \<le> i \<Longrightarrow> i mod 64 = 0 \<Longrightarrow> (\<forall>j. 0 \<le> j \<and> j < i \<longrightarrow> \<not> bit_at b j) \<Longrightarrow>
   \<exists>v. ffs_loop b i = Some v \<and> first_at (bit_at b) (bit_cap b) v"
proof (induction b i rule: ffs_loop.induct)
  case (1 b i)
  show ?case
  proof (cases "i < bs_bits b")
    case False
    then have "bit_cap b \<le> i" using 1 wf_cap_words by auto
    then show ?thesis using False "1.prems" by (subst ffs_loop.simps) (auto simp: first_at_def)
  next
    case True
    define w where "w = bs_words b ! nat (i div 64)"
    have rd: "c_rd (bs_words b) (bit_word i) = Some w"
      using wf_word_index [OF "1.prems"(1,2) True] by (simp add: w_def bit_word_def)
    have cap: "i + 64 \<le> bit_cap b"
      using wf_word_index(2) [OF "1.prems"(1,2) True] mult64_div [OF "1.prems"(3)]
      by (simp add: bit_cap_def bit_word_def)
    show ?thesis
    proof (cases "w = 0")
      case w: True
      have "\<not> bit_at b j" if "0 \<le> j" "j < i + 64" for j
        using that "1.prems"(4) zero_wordD [OF w [unfolded w_def] "1.prems"(3), of j] by (cases "j < i") auto
      then have "\<exists>v. ffs_loop b (i + 64) = Some v \<and> first_at (bit_at b) (bit_cap b) v"
        using "1.prems" by (intro "1.IH" [OF True rd w]) auto
      then show ?thesis using True w rd by (subst ffs_loop.simps) simp
    next
      case w: False
      note c = ctzll_props [OF w]
      have c0: "0 \<le> ctzll w" by (simp add: ctzll_def)
      have at: "bit_at b (i + int n) = bit w n" if "n < 64" for n
        unfolding w_def by (rule bit_at_word [OF "1.prems"(2,3) that])
      have hit: "bit_at b (i + ctzll w)" using c(1,2) at [of "nat (ctzll w)"] c0 by simp
      have "\<not> bit_at b j" if "0 \<le> j" "j < i + ctzll w" for j
      proof (cases "j < i")
        case False
        then show ?thesis using that c(1) c(3) [of "nat (j - i)"] at [of "nat (j - i)"] by simp
      qed (use that "1.prems"(4) in auto)
      then have "first_at (bit_at b) (bit_cap b) (i + ctzll w)"
        unfolding first_at_def using hit cap c(1) c0 "1.prems"(2) by auto
      then show ?thesis using True w rd by (subst ffs_loop.simps) simp
    qed
  qed
qed

lemma bit_ffs_eq [bitmap_simps]:
  "wf_bitstr b \<Longrightarrow> \<exists>v. bit_ffs b = Some v \<and> first_at (bit_at b) (bit_cap b) v"
  unfolding bit_ffs_def using ffs_loop_eq [of b 0] by (auto simp: wf_bitstr_def c_assert_def)

lemma bit_word_range: "(bit_word i = k) = (64 * k \<le> i \<and> i < 64 * k + 64)"
  using div64_range [of "64 * k" i] by (simp add: bit_word_def)

lemma ffc_word_eq:
  "wf_bitstr b \<Longrightarrow> 0 \<le> i \<Longrightarrow> 64 * k \<le> i \<Longrightarrow> i \<le> 64 * k + 64 \<Longrightarrow>
   \<exists>v i'. ffc_word b k i = Some (v, i') \<and>
     (v = - 1 \<and> i \<le> i' \<and> (i' \<ge> bs_bits b \<or> i' = 64 * k + 64) \<and> (\<forall>j. i \<le> j \<and> j < i' \<longrightarrow> bit_at b j) \<or>
      i \<le> v \<and> v < bs_bits b \<and> \<not> bit_at b v \<and> (\<forall>j. i \<le> j \<and> j < v \<longrightarrow> bit_at b j))"
proof (induction b k i rule: ffc_word.induct)
  case (1 b k i)
  show ?case
  proof (cases "i < bs_bits b \<and> bit_word i = k \<and> bit_at b i")
    case True
    then have "\<exists>v i'. ffc_word b k (i + 1) = Some (v, i') \<and>
     (v = - 1 \<and> i + 1 \<le> i' \<and> (i' \<ge> bs_bits b \<or> i' = 64 * k + 64) \<and> (\<forall>j. i + 1 \<le> j \<and> j < i' \<longrightarrow> bit_at b j) \<or>
      i + 1 \<le> v \<and> v < bs_bits b \<and> \<not> bit_at b v \<and> (\<forall>j. i + 1 \<le> j \<and> j < v \<longrightarrow> bit_at b j))"
      using "1.prems" by (intro "1.IH" [of True]) (auto simp: bit_test_eq bit_word_range)
    moreover have "ffc_word b k i = ffc_word b k (i + 1)"
      using True "1.prems" by (subst ffc_word.simps) (simp add: bit_test_eq)
    moreover have "(\<forall>j. i \<le> j \<and> j < m \<longrightarrow> bit_at b j) = (\<forall>j. i + 1 \<le> j \<and> j < m \<longrightarrow> bit_at b j)" for m
      using True by (metis add1_zle_eq order_le_less)
    ultimately show ?thesis by fastforce
  next
    case False
    then show ?thesis
      using "1.prems" by (subst ffc_word.simps) (auto simp: bit_test_eq bit_word_range)
  qed
qed

lemma ffc_loop_eq:
  "wf_bitstr b \<Longrightarrow> 0 \<le> i \<Longrightarrow> i mod 64 = 0 \<or> i \<ge> bs_bits b \<Longrightarrow> (\<forall>j. 0 \<le> j \<and> j < i \<and> j < bs_bits b \<longrightarrow> bit_at b j) \<Longrightarrow>
   \<exists>v. ffc_loop b i = Some v \<and> first_at (\<lambda>j. \<not> bit_at b j) (bs_bits b) v"
proof (induction b i rule: ffc_loop.induct)
  case (1 b i)
  show ?case
  proof (cases "i < bs_bits b")
    case False
    then show ?thesis using "1.prems" by (subst ffc_loop.simps) (auto simp: first_at_def)
  next
    case True
    then have i64: "i mod 64 = 0" using "1.prems" by auto
    define w where "w = bs_words b ! nat (i div 64)"
    have rd: "c_rd (bs_words b) (bit_word i) = Some w"
      using wf_word_index [OF "1.prems"(1,2) True] by (simp add: w_def bit_word_def)
    show ?thesis
    proof (cases "w = BITSTR_MAXVAL")
      case w: True
      have max: "bit BITSTR_MAXVAL n" if "n < 64" for n
        using that bit_mask_iff [where 'a = u64, of 64 n] by (simp add: mask_eq_exp_minus_1 BITSTR_MAXVAL_def)
      have "bit_at b j" if "0 \<le> j" "j < i + 64" "j < bs_bits b" for j
        using that "1.prems"(4) bit_at_word [OF "1.prems"(2) i64, of "nat (j - i)" b] max w_def w
        by (cases "j < i") (auto simp: nat_less_iff)
      then have "\<exists>v. ffc_loop b (i + 64) = Some v \<and> first_at (\<lambda>j. \<not> bit_at b j) (bs_bits b) v"
        using "1.prems" i64 by (intro "1.IH" (1) [OF True rd w]) auto
      then show ?thesis using True w rd by (subst ffc_loop.simps) simp
    next
      case w: False
      have k: "64 * bit_word i = i" using mult64_div [OF i64] by (simp add: bit_word_def)
      obtain v i' where f: "ffc_word b (bit_word i) i = Some (v, i')"
        and c: "v = - 1 \<and> i \<le> i' \<and> (i' \<ge> bs_bits b \<or> i' = i + 64) \<and> (\<forall>j. i \<le> j \<and> j < i' \<longrightarrow> bit_at b j) \<or>
          i \<le> v \<and> v < bs_bits b \<and> \<not> bit_at b v \<and> (\<forall>j. i \<le> j \<and> j < v \<longrightarrow> bit_at b j)"
        using ffc_word_eq [OF "1.prems"(1,2), of "bit_word i"] k by auto
      show ?thesis
      proof (cases "v = - 1")
        case True
        then have c: "i \<le> i'" "i' \<ge> bs_bits b \<or> i' = i + 64" "\<forall>j. i \<le> j \<and> j < i' \<longrightarrow> bit_at b j"
          using c "1.prems"(2) by auto
        have "bit_at b j" if "0 \<le> j" "j < i'" "j < bs_bits b" for j
          using that c(3) "1.prems"(4) by (cases "j < i") auto
        then have "\<exists>v. ffc_loop b i' = Some v \<and> first_at (\<lambda>j. \<not> bit_at b j) (bs_bits b) v"
          using "1.prems" c i64 by (intro "1.IH"(2) [OF \<open>i < bs_bits b\<close> rd w f]) (auto simp: True)
        then show ?thesis using \<open>i < bs_bits b\<close> w rd f True by (subst ffc_loop.simps) simp
      next
        case v: False
        then have "first_at (\<lambda>j. \<not> bit_at b j) (bs_bits b) v"
          using c "1.prems"(2,4) unfolding first_at_def by (metis not_le order_trans order_less_trans)
        then show ?thesis using True w rd f v by (subst ffc_loop.simps) simp
      qed
    qed
  qed
qed

lemma bit_ffc_eq [bitmap_simps]:
  "wf_bitstr b \<Longrightarrow> \<exists>v. bit_ffc b = Some v \<and> first_at (\<lambda>j. \<not> bit_at b j) (bs_bits b) v"
  unfolding bit_ffc_def using ffc_loop_eq [of b 0] by (auto simp: wf_bitstr_def c_assert_def)

text \<open>\<open>last_at P hi v\<close>: \<open>v\<close> is the last position below \<open>hi\<close> that satisfies \<open>P\<close>, or \<open>- 1\<close>.\<close>

definition last_at :: "(int \<Rightarrow> bool) \<Rightarrow> int \<Rightarrow> int \<Rightarrow> bool" where
  "last_at P hi v \<longleftrightarrow>
     (v = - 1 \<and> (\<forall>j. 0 \<le> j \<and> j < hi \<longrightarrow> \<not> P j)) \<or>
     (0 \<le> v \<and> v < hi \<and> P v \<and> (\<forall>j. v < j \<and> j < hi \<longrightarrow> \<not> P j))"

lemma last_at_shrink:
  "hi \<le> hi' \<Longrightarrow> (\<forall>j. hi \<le> j \<and> j < hi' \<longrightarrow> \<not> P j) \<Longrightarrow> last_at P hi v \<Longrightarrow> last_at P hi' v"
  unfolding last_at_def by (metis not_le order_less_le_trans)

lemma fls_words_eq:
  "wf_bitstr b \<Longrightarrow> i < bs_bits b \<Longrightarrow> - 1 \<le> i \<Longrightarrow> (i + 1) mod 64 = 0 \<Longrightarrow>
   \<exists>v. fls_words b i = Some v \<and> last_at (bit_at b) (i + 1) v"
proof (induction b i rule: fls_words.induct)
  case (1 b i)
  show ?case
  proof (cases "0 \<le> i")
    case False
    then show ?thesis using "1.prems" by (subst fls_words.simps) (auto simp: last_at_def)
  next
    case True
    define s where "s = i - 63"
    obtain k where k: "i + 1 = 64 * k" using "1.prems"(4) by (rule mod64_E)
    have s: "s mod 64 = 0" "0 \<le> s" "i div 64 = s div 64"
    proof -
      have sk: "s = 64 * (k - 1)" using k by (simp add: s_def)
      show "s mod 64 = 0" by (simp add: sk)
      then show "i div 64 = s div 64" using div64_range [of s i] by (simp add: s_def)
      show "0 \<le> s" using k True by (simp add: sk)
    qed
    define w where "w = bs_words b ! nat (s div 64)"
    have rd: "c_rd (bs_words b) (bit_word i) = Some w"
      using wf_word_index [OF "1.prems"(1) True "1.prems"(2)] by (simp add: w_def bit_word_def s(3))
    have at: "bit_at b (s + int n) = bit w n" if "n < 64" for n
      unfolding w_def by (rule bit_at_word [OF s(2,1) that])
    show ?thesis
    proof (cases "w = 0")
      case w: True
      have z: "\<not> bit_at b j" if "s \<le> j" "j < i + 1" for j
        using that zero_wordD [OF w [unfolded w_def] s(1), of j] by (simp add: s_def)
      have "\<exists>v. fls_words b (i - 64) = Some v \<and> last_at (bit_at b) (i - 64 + 1) v"
        using "1.prems" s by (intro "1.IH" [OF True rd w]) (auto simp: s_def)
      then show ?thesis
        using True w rd z last_at_shrink [of "i - 64 + 1" "i + 1"]
        by (subst fls_words.simps) (auto simp: s_def)
    next
      case w: False
      note c = clzll_props [OF w]
      have c0: "0 \<le> clzll w" by (simp add: clzll_def)
      have "bit_at b (i - clzll w)" using c(1,2) at [of "nat (63 - clzll w)"] c0 by (simp add: s_def)
      moreover have "\<not> bit_at b j" if "i - clzll w < j" "j < i + 1" for j
        using that c(1) c(3) [of "nat (j - s)"] at [of "nat (j - s)"] by (simp add: s_def)
      ultimately have "last_at (bit_at b) (i + 1) (i - clzll w)"
        unfolding last_at_def using c(1) c0 s(2) by (auto simp: s_def)
      then show ?thesis using True w rd by (subst fls_words.simps) simp
    qed
  qed
qed

lemma fls_part_eq:
  "wf_bitstr b \<Longrightarrow> - 1 \<le> i \<Longrightarrow> i < bs_bits b \<Longrightarrow>
   \<exists>v i'. fls_part b i = Some (v, i') \<and>
     (v = - 1 \<and> - 1 \<le> i' \<and> i' \<le> i \<and> (i' + 1) mod 64 = 0 \<and> (\<forall>j. i' < j \<and> j \<le> i \<longrightarrow> \<not> bit_at b j) \<or>
      0 \<le> v \<and> v \<le> i \<and> bit_at b v \<and> (\<forall>j. v < j \<and> j \<le> i \<longrightarrow> \<not> bit_at b j))"
proof (induction b i rule: fls_part.induct)
  case (1 b i)
  show ?case
  proof (cases "0 \<le> i \<and> bit_word i = bit_word (i + 1) \<and> \<not> bit_at b i")
    case True
    then have "\<exists>v i'. fls_part b (i - 1) = Some (v, i') \<and>
     (v = - 1 \<and> - 1 \<le> i' \<and> i' \<le> i - 1 \<and> (i' + 1) mod 64 = 0 \<and> (\<forall>j. i' < j \<and> j \<le> i - 1 \<longrightarrow> \<not> bit_at b j) \<or>
      0 \<le> v \<and> v \<le> i - 1 \<and> bit_at b v \<and> (\<forall>j. v < j \<and> j \<le> i - 1 \<longrightarrow> \<not> bit_at b j))"
      using "1.prems" by (intro "1.IH" [of False]) (auto simp: bit_test_eq)
    moreover have "fls_part b i = fls_part b (i - 1)"
      using True "1.prems" by (subst fls_part.simps) (simp add: bit_test_eq)
    moreover have "(\<forall>j. m < j \<and> j \<le> i \<longrightarrow> \<not> bit_at b j) = (\<forall>j. m < j \<and> j \<le> i - 1 \<longrightarrow> \<not> bit_at b j)" for m
      using True by (metis zle_diff1_eq order_le_less)
    ultimately show ?thesis by fastforce
  next
    case False
    moreover have "(i + 1) mod 64 = 0" if "bit_word i \<noteq> bit_word (i + 1)"
    proof -
      have "bit_word (i + 1) = bit_word i + 1 \<and> 64 * (bit_word i + 1) = i + 1"
        using that bit_word_range [of i "bit_word i"] bit_word_range [of "i + 1" "bit_word i"] 
          bit_word_range [of "i + 1" "bit_word i + 1"] by auto
      then show ?thesis by (metis mod_mult_self1_is_0)
    qed
    ultimately show ?thesis
      using "1.prems" by (subst fls_part.simps) (auto simp: bit_test_eq)
  qed
qed

lemma bit_fls_eq [bitmap_simps]:
  assumes "wf_bitstr b"
  shows "\<exists>v. bit_fls b = Some v \<and> last_at (bit_at b) (bs_bits b) v"
proof (cases "bs_bits b = 0")
  case True
  then show ?thesis using assms by (simp add: bit_fls_def wf_bitstr_def last_at_def)
next
  case False
  then have n: "- 1 \<le> bs_bits b - 1" "bs_bits b - 1 < bs_bits b" using wf_bits_cap [OF assms] by auto
  obtain v i where f: "fls_part b (bs_bits b - 1) = Some (v, i)"
    and c: "v = - 1 \<and> - 1 \<le> i \<and> i \<le> bs_bits b - 1 \<and> (i + 1) mod 64 = 0 \<and> (\<forall>j. i < j \<and> j \<le> bs_bits b - 1 \<longrightarrow> \<not> bit_at b j) \<or>
      0 \<le> v \<and> v \<le> bs_bits b - 1 \<and> bit_at b v \<and> (\<forall>j. v < j \<and> j \<le> bs_bits b - 1 \<longrightarrow> \<not> bit_at b j)"
    using fls_part_eq [OF assms n] by (elim exE conjE) (rule that; assumption)
  have valid: "bitstr_valid b" using assms by (simp add: wf_bitstr_def)
  show ?thesis
  proof (cases "v = - 1")
    case True
    then have c: "- 1 \<le> i" "i < bs_bits b" "(i + 1) mod 64 = 0" "\<forall>j. i < j \<and> j \<le> bs_bits b - 1 \<longrightarrow> \<not> bit_at b j"
      using c by auto
    obtain u where u: "fls_words b i = Some u" "last_at (bit_at b) (i + 1) u"
      using fls_words_eq [OF assms c(2,1,3)] by auto
    have "last_at (bit_at b) (bs_bits b) u"
      using last_at_shrink [OF _ _ u(2), of "bs_bits b"] c(2,4) by auto
    then show ?thesis using f u(1) True False valid by (simp add: bit_fls_def)
  next
    case v: False
    then have "last_at (bit_at b) (bs_bits b) v" using c by (auto simp: last_at_def)
    then show ?thesis using f v False valid by (simp add: bit_fls_def)
  qed
qed

lemma first_at_Min:
  assumes "first_at P hi v"
  shows "v = (let S = {j. 0 \<le> j \<and> j < hi \<and> P j} in if S = {} then - 1 else Min S)"
proof (cases "v = - 1")
  case True
  then have "{j. 0 \<le> j \<and> j < hi \<and> P j} = {}" using assms by (auto simp: first_at_def)
  then show ?thesis using True by simp
next
  case False
  then have v: "0 \<le> v" "v < hi" "P v" "\<forall>j. 0 \<le> j \<and> j < v \<longrightarrow> \<not> P j" using assms by (auto simp: first_at_def)
  have fin: "finite {j. 0 \<le> j \<and> j < hi \<and> P j}" by (rule finite_subset [of _ "{0..<hi}"]) auto
  have "Min {j. 0 \<le> j \<and> j < hi \<and> P j} = v"
    using v fin by (intro Min_eqI) (auto intro: leI)
  then show ?thesis using v by (auto simp: Let_def)
qed

lemma last_at_Max:
  assumes "last_at P hi v"
  shows "v = (let S = {j. 0 \<le> j \<and> j < hi \<and> P j} in if S = {} then - 1 else Max S)"
proof (cases "v = - 1")
  case True
  then have "{j. 0 \<le> j \<and> j < hi \<and> P j} = {}" using assms by (auto simp: last_at_def)
  then show ?thesis using True by simp
next
  case False
  then have v: "0 \<le> v" "v < hi" "P v" "\<forall>j. v < j \<and> j < hi \<longrightarrow> \<not> P j" using assms by (auto simp: last_at_def)
  have fin: "finite {j. 0 \<le> j \<and> j < hi \<and> P j}" by (rule finite_subset [of _ "{0..<hi}"]) auto
  have "Max {j. 0 \<le> j \<and> j < hi \<and> P j} = v"
    using v fin by (intro Max_eqI) (auto intro: leI)
  then show ?thesis using v by (auto simp: Let_def)
qed

lemma first_at_clean: "wf_bitstr b \<Longrightarrow> clean b \<Longrightarrow> first_at (bit_at b) (bit_cap b) v \<Longrightarrow> first_at (bit_at b) (bs_bits b) v"
  using wf_bits_cap [of b] unfolding first_at_def clean_def by (metis not_le order_less_le_trans)

lemma bit_ffs_Min:
  assumes "wf_bitstr b" "clean b"
  shows "bit_ffs b = Some (if bitset b = {} then - 1 else Min (bitset b))"
proof -
  obtain v where v: "bit_ffs b = Some v" "first_at (bit_at b) (bs_bits b) v"
    using bit_ffs_eq [OF assms(1)] first_at_clean [OF assms] by auto
  then show ?thesis using first_at_Min [OF v(2), folded bitset_def] by (simp only: Let_def)
qed

lemma bit_fls_Max:
  assumes "wf_bitstr b"
  shows "bit_fls b = Some (if bitset b = {} then - 1 else Max (bitset b))"
proof -
  obtain v where v: "bit_fls b = Some v" "last_at (bit_at b) (bs_bits b) v"
    using bit_fls_eq [OF assms(1)] by auto
  then show ?thesis using last_at_Max [OF v(2), folded bitset_def] by (simp only: Let_def)
qed

lemma bit_ffc_Min:
  assumes "wf_bitstr b"
  shows "bit_ffc b = Some (if bitset b = {0..<bs_bits b} then - 1 else Min ({0..<bs_bits b} - bitset b))"
proof -
  obtain v where v: "bit_ffc b = Some v" "first_at (\<lambda>j. \<not> bit_at b j) (bs_bits b) v"
    using bit_ffc_eq [OF assms(1)] by auto
  have "{j. 0 \<le> j \<and> j < bs_bits b \<and> \<not> bit_at b j} = {0..<bs_bits b} - bitset b" by (auto simp: bitset_def)
  then show ?thesis using v first_at_Min [OF v(2)] bitset_bounds [of b] by (auto simp: Let_def)
qed

lemma bit_fill_gaps_set:
  assumes "wf_bitstr b" "clean b"
  shows "\<exists>c. bit_fill_gaps b = Some c \<and> wf_bitstr c \<and> clean c \<and> bs_bits c = bs_bits b \<and>
    bitset c = (if bitset b = {} then {} else {Min (bitset b)..Max (bitset b)})"
proof (cases "bitset b = {}")
  case True
  then show ?thesis using assms by (simp add: bit_fill_gaps_def bit_ffs_Min wf_bitstr_def)
next
  case False
  have b: "Min (bitset b) \<in> {0..<bs_bits b}" "Max (bitset b) \<in> {0..<bs_bits b}"
    using Min_in [OF finite_bitset False] Max_in [OF finite_bitset False] bitset_bounds [of b] by blast+
  then have "Min (bitset b) \<noteq> - 1" by auto
  then have "bit_fill_gaps b = bit_nset b (Min (bitset b)) (Max (bitset b))"
    using assms False by (simp add: bit_fill_gaps_def bit_ffs_Min bit_fls_Max wf_bitstr_def)
  then have "bit_fill_gaps b = Some (with_bits b (\<lambda>j. Min (bitset b) \<le> j \<and> j \<le> Max (bitset b) \<or> bit_at b j))"
    using b assms by (simp add: bit_nset_eq)
  moreover have "clean (with_bits b (\<lambda>j. Min (bitset b) \<le> j \<and> j \<le> Max (bitset b) \<or> bit_at b j))"
    using assms b by (auto simp: clean_with_bits) (auto simp: clean_def)
  moreover have "bitset (with_bits b (\<lambda>j. Min (bitset b) \<le> j \<and> j \<le> Max (bitset b) \<or> bit_at b j)) =
      {0..<bs_bits b} \<inter> {Min (bitset b)..Max (bitset b)} \<union> bitset b"
    unfolding bitset_with_bits [OF assms(1)] by (auto simp: bit_at_bitset) (auto simp: bitset_def)
  moreover have "{0..<bs_bits b} \<inter> {Min (bitset b)..Max (bitset b)} \<union> bitset b = {Min (bitset b)..Max (bitset b)}"
  proof -
    have "bitset b \<subseteq> {Min (bitset b)..Max (bitset b)}" by auto
    moreover have "{Min (bitset b)..Max (bitset b)} \<subseteq> {0..<bs_bits b}"
      using b by (simp only: atLeastatMost_subset_iff atLeastLessThan_iff subset_iff atLeastAtMost_iff) linarith
    ultimately show ?thesis by auto
  qed
  ultimately show ?thesis using assms(1) False by (intro exI conjI) (assumption | simp)+
qed

subsection \<open>Runs of \<open>n\<close> bits\<close>

definition run :: "(int \<Rightarrow> bool) \<Rightarrow> int \<Rightarrow> int \<Rightarrow> bool" where
  "run P n p \<longleftrightarrow> (\<forall>j. p \<le> j \<and> j < p + n \<longrightarrow> P j)"

text \<open>
  The counting loop, started at \<open>i\<close> with the last \<open>cnt\<close> bits already counted: it finds the
  first run that begins at \<open>i - cnt\<close> or later and ends below \<open>hi\<close>; it misses only runs that
  lie behind a bit at which \<open>brk\<close> ends the loop.
\<close>

lemma run_miss: "\<not> P i \<Longrightarrow> p \<le> i \<Longrightarrow> i < p + n \<Longrightarrow> \<not> run P n p"
  by (auto simp: run_def)

lemma run_loop_eq:
  fixes b :: bitstr and want :: bool
  defines "P \<equiv> \<lambda>j. bit_at b j = want"
  assumes wf: "wf_bitstr b" and hi: "hi \<le> bs_bits b" and n: "0 < n"
  shows "0 \<le> i - cnt \<Longrightarrow> 0 \<le> cnt \<Longrightarrow> cnt < n \<Longrightarrow> (\<forall>j. i - cnt \<le> j \<and> j < i \<longrightarrow> P j) \<Longrightarrow>
    \<exists>v. run_loop b want brk n hi i cnt = Some v \<and>
      (v = - 1 \<and> (\<forall>p. i - cnt \<le> p \<and> p + n \<le> hi \<and> (\<forall>j. i \<le> j \<and> j < p \<and> brk j \<longrightarrow> P j) \<longrightarrow> \<not> run P n p) \<or>
       i - cnt \<le> v \<and> v + n \<le> hi \<and> run P n v \<and> (\<forall>p. i - cnt \<le> p \<and> p < v \<longrightarrow> \<not> run P n p))"
proof (induction "nat (hi - i)" arbitrary: i cnt rule: less_induct)
  case less
  show ?case
  proof (cases "i < hi")
    case False
    have "\<not> run P n p" if "i - cnt \<le> p" "p + n \<le> hi" for p
      using that False less.prems(3) by linarith
    then show ?thesis using False by (subst run_loop.simps) auto
  next
    case True
    have t: "bit_test b i = Some (bit_at b i)" using less.prems True hi by (intro bit_test_eq [OF wf]) auto
    have early: "\<not> run P n p" if "\<not> P i" "i - cnt \<le> p" "p \<le> i" for p
      using that less.prems(3) by (intro run_miss [of P i]) auto
    consider (stop) "\<not> P i" "brk i" | (miss) "\<not> P i" "\<not> brk i" | (found) "P i" "cnt + 1 \<ge> n" | (more) "P i" "cnt + 1 < n"
      by force
    then show ?thesis
    proof cases
      case stop
      then have "\<not> run P n p" if "i - cnt \<le> p" "\<forall>j. i \<le> j \<and> j < p \<and> brk j \<longrightarrow> P j" for p
        using that early [of p] by (cases "p \<le> i") auto
      then show ?thesis using stop True t by (subst run_loop.simps) (auto simp: P_def)
    next
      case miss
      have step: "run_loop b want brk n hi i cnt = run_loop b want brk n hi (i + 1) 0"
        using miss True t by (subst run_loop.simps) (simp add: P_def)
      obtain v where v: "run_loop b want brk n hi (i + 1) 0 = Some v" and
        c: "v = - 1 \<and> (\<forall>p. i + 1 - 0 \<le> p \<and> p + n \<le> hi \<and> (\<forall>j. i + 1 \<le> j \<and> j < p \<and> brk j \<longrightarrow> P j) \<longrightarrow> \<not> run P n p) \<or>
         i + 1 - 0 \<le> v \<and> v + n \<le> hi \<and> run P n v \<and> (\<forall>p. i + 1 - 0 \<le> p \<and> p < v \<longrightarrow> \<not> run P n p)"
        using less.hyps [of "i + 1" 0] less.prems True n by auto
      have late: "i + 1 \<le> p" if "i - cnt \<le> p" "run P n p" for p
        using that early [OF miss(1)] by (cases "p \<le> i") auto
      have "\<not> run P n p" if "v = - 1" "i - cnt \<le> p" "p + n \<le> hi" "\<forall>j. i \<le> j \<and> j < p \<and> brk j \<longrightarrow> P j" for p
        using that c late [of p] less.prems by auto
      moreover have "i - cnt \<le> v \<and> v + n \<le> hi \<and> run P n v \<and> (\<forall>p. i - cnt \<le> p \<and> p < v \<longrightarrow> \<not> run P n p)"
        if "v \<noteq> - 1"
        using that c late less.prems(2) by auto
      ultimately show ?thesis
        using step v by (cases "v = - 1"; intro exI [of _ v]) simp_all
    next
      case found
      then have "run P n (i - cnt)" "n = cnt + 1" using less.prems by (auto simp: run_def order_le_less)
      then show ?thesis using found True t by (subst run_loop.simps) (auto simp: P_def)
    next
      case more
      have "run_loop b want brk n hi i cnt = run_loop b want brk n hi (i + 1) (cnt + 1)"
        using more True t by (subst run_loop.simps) (simp add: P_def)
      moreover have "\<forall>j. i + 1 - (cnt + 1) \<le> j \<and> j < i + 1 \<longrightarrow> P j"
        using more(1) less.prems(4) by (auto simp: order_le_less)
      then obtain v where v: "run_loop b want brk n hi (i + 1) (cnt + 1) = Some v" and
        c: "v = - 1 \<and> (\<forall>p. i + 1 - (cnt + 1) \<le> p \<and> p + n \<le> hi \<and> (\<forall>j. i + 1 \<le> j \<and> j < p \<and> brk j \<longrightarrow> P j) \<longrightarrow> \<not> run P n p) \<or>
         i + 1 - (cnt + 1) \<le> v \<and> v + n \<le> hi \<and> run P n v \<and> (\<forall>p. i + 1 - (cnt + 1) \<le> p \<and> p < v \<longrightarrow> \<not> run P n p)"
        using less.hyps [of "i + 1" "cnt + 1"] less.prems True more by auto
      ultimately show ?thesis by (intro exI [of _ v]) auto
    qed
  qed
qed

lemmas run_loop_0 = run_loop_eq [where cnt = 0, simplified]

text \<open>\<open>bit_nffc\<close> finds the first run of \<open>n\<close> clear bits; it demands \<open>n\<close> below the size.\<close>

lemma bit_nffc_eq:
  assumes "wf_bitstr b" "0 < n" "n < bs_bits b"
  shows "\<exists>v. bit_nffc b n = Some v \<and>
    first_at (run (\<lambda>j. \<not> bit_at b j) n) (bs_bits b - n + 1) v"
proof -
  obtain v where v: "run_loop b False (\<lambda>_. False) n (bs_bits b) 0 0 = Some v"
    "v = - 1 \<and> (\<forall>p. 0 \<le> p \<and> p + n \<le> bs_bits b \<longrightarrow> \<not> run (\<lambda>j. \<not> bit_at b j) n p) \<or>
       0 \<le> v \<and> v + n \<le> bs_bits b \<and> run (\<lambda>j. \<not> bit_at b j) n v \<and> (\<forall>p. 0 \<le> p \<and> p < v \<longrightarrow> \<not> run (\<lambda>j. \<not> bit_at b j) n p)"
    using run_loop_0 [where b = b and hi = "bs_bits b" and n = n and i = 0 and want = False and brk = "\<lambda>_. False"] assms by auto
  then show ?thesis using assms by (auto simp: bit_nffc_def wf_bitstr_def first_at_def)
qed

text \<open>\<open>bit_noc\<close> finds a run whenever there is one, the first at or after \<open>seed\<close> if there is
  one there and the tail of the string is long enough, the first of all otherwise.\<close>

lemma bit_noc_eq:
  fixes b :: bitstr
  defines "R \<equiv> run (\<lambda>j. \<not> bit_at b j)"
  assumes "wf_bitstr b" "0 < n" "n \<le> bs_bits b" "0 \<le> seed"
  shows "\<exists>v. bit_noc b n seed = Some v \<and>
    (if v = - 1 then \<forall>p. 0 \<le> p \<and> p + n \<le> bs_bits b \<longrightarrow> \<not> R n p
     else 0 \<le> v \<and> v + n \<le> bs_bits b \<and> R n v \<and>
       (if seed \<le> v \<and> seed + n < bs_bits b then \<forall>p. seed \<le> p \<and> p < v \<longrightarrow> \<not> R n p
        else \<forall>p. 0 \<le> p \<and> p < v \<longrightarrow> \<not> R n p))"
proof -
  define s where "s = (if seed + n \<ge> bs_bits b then bs_bits b else seed)"
  have s: "0 \<le> s" using assms by (simp add: s_def)
  have valid: "bitstr_valid b" using assms by (simp add: wf_bitstr_def)
  obtain v where v: "run_loop b False (\<lambda>_. False) n (bs_bits b) s 0 = Some v"
    "v = - 1 \<and> (\<forall>p. s \<le> p \<and> p + n \<le> bs_bits b \<longrightarrow> \<not> R n p) \<or>
       s \<le> v \<and> v + n \<le> bs_bits b \<and> R n v \<and> (\<forall>p. s \<le> p \<and> p < v \<longrightarrow> \<not> R n p)"
    using run_loop_0 [where b = b and hi = "bs_bits b" and n = n and i = s and want = False and brk = "\<lambda>_. False"] assms s by auto
  obtain u where u: "run_loop b False (\<lambda>i. s \<le> i) n (bs_bits b) 0 0 = Some u"
    "u = - 1 \<and> (\<forall>p. 0 \<le> p \<and> p + n \<le> bs_bits b \<and> (\<forall>j. 0 \<le> j \<and> j < p \<and> s \<le> j \<longrightarrow> \<not> bit_at b j) \<longrightarrow> \<not> R n p) \<or>
       0 \<le> u \<and> u + n \<le> bs_bits b \<and> R n u \<and> (\<forall>p. 0 \<le> p \<and> p < u \<longrightarrow> \<not> R n p)"
    using run_loop_0 [where b = b and hi = "bs_bits b" and n = n and i = 0 and want = False and brk = "\<lambda>i. s \<le> i"] assms s by auto
  show ?thesis
  proof (cases "v = - 1")
    case False
    then have "bit_noc b n seed = Some v" using assms valid v(1) by (simp add: bit_noc_def s_def [symmetric])
    moreover have "s = seed" "seed + n < bs_bits b"
      using v(2) False assms(3) by (auto simp: s_def split: if_splits)
    ultimately show ?thesis using v(2) False assms(5) by auto
  next
    case True
    then have none: "\<forall>p. s \<le> p \<and> p + n \<le> bs_bits b \<longrightarrow> \<not> R n p" using v(2) s by auto
    have "bit_noc b n seed = Some u" using assms valid v(1) True u(1) by (simp add: bit_noc_def s_def [symmetric])
    moreover have "\<forall>p. 0 \<le> p \<and> p + n \<le> bs_bits b \<longrightarrow> \<not> R n p" if "u = - 1"
    proof (intro allI impI)
      fix p assume p: "0 \<le> p \<and> p + n \<le> bs_bits b"
      show "\<not> R n p"
      proof (cases "s \<le> p")
        case False
        then have "\<forall>j. 0 \<le> j \<and> j < p \<and> s \<le> j \<longrightarrow> \<not> bit_at b j" by auto
        then show ?thesis using u(2) that p by auto
      qed (use none p in auto)
    qed
    ultimately show ?thesis using u(2) assms(5) by (intro exI [of _ u]) auto
  qed
qed

text \<open>
  \<open>bit_nffs\<close> bounds the \<^emph>\<open>position tested\<close> by \<open>nbits - n\<close>, where the bound belongs to the start
  of the run: it finds the first run that ends at \<open>nbits - n\<close> or before, and only such runs.
\<close>

lemma bit_nffs_eq:
  assumes "wf_bitstr b" "0 < n" "n \<le> bs_bits b"
  shows "\<exists>v. bit_nffs b n = Some v \<and> first_at (run (bit_at b) n) (bs_bits b - 2 * n + 2) v"
proof -
  obtain v where v: "run_loop b True (\<lambda>_. False) n (bs_bits b - n + 1) 0 0 = Some v"
    "v = - 1 \<and> (\<forall>p. 0 \<le> p \<and> p + n \<le> bs_bits b - n + 1 \<longrightarrow> \<not> run (bit_at b) n p) \<or>
       0 \<le> v \<and> v + n \<le> bs_bits b - n + 1 \<and> run (bit_at b) n v \<and> (\<forall>p. 0 \<le> p \<and> p < v \<longrightarrow> \<not> run (bit_at b) n p)"
    using run_loop_0 [where b = b and hi = "bs_bits b - n + 1" and n = n and i = 0 and want = True and brk = "\<lambda>_. False"] assms by auto
  then show ?thesis using assms by (auto simp: bit_nffs_def wf_bitstr_def first_at_def)
qed

subsection \<open>Properties\<close>

text \<open>On a clean string \<open>bit_ffs\<close> returns the least and \<open>bit_fls\<close> the greatest
  set position, \<open>bit_ffc\<close> the least clear one, each \<open>- 1\<close> when there is none: skipping zero
  (or full) words and the trailing-zero and leading-zero builtins lose no position.\<close>

theorem bit_find_exact:
  assumes "wf_bitstr b" "clean b"
  shows "bit_ffs b = Some (if bitset b = {} then - 1 else Min (bitset b)) \<and>
    bit_fls b = Some (if bitset b = {} then - 1 else Max (bitset b)) \<and>
    bit_ffc b = Some (if bitset b = {0..<bs_bits b} then - 1 else Min ({0..<bs_bits b} - bitset b))"
  using bit_ffs_Min [OF assms] bit_fls_Max [OF assms(1)] bit_ffc_Min [OF assms(1)] by blast

theorem bit_find_exact_witness:
  "bit_ffs ten_bits = Some 0 \<and> bit_fls ten_bits = Some 9"
  using bit_find_exact [of ten_bits] by simp

text \<open>\<open>bit_noc\<close>, the search for \<open>n\<close> contiguous clear bits from a seed with
  wrap-around, fails only if the string has no such run at all; otherwise it returns the
  start of one, and no run between the seed (the beginning, after the wrap) and the result
  was passed over.\<close>

theorem bit_noc_complete:
  assumes "wf_bitstr b" "0 < n" "n \<le> bs_bits b" "0 \<le> seed"
  shows "\<exists>v. bit_noc b n seed = Some v \<and>
    (if v = - 1 then \<forall>p. 0 \<le> p \<and> p + n \<le> bs_bits b \<longrightarrow> \<not> ({p..<p + n} \<inter> bitset b = {})
     else {v..<v + n} \<subseteq> {0..<bs_bits b} - bitset b \<and>
       (\<forall>p. (if seed \<le> v \<and> seed + n < bs_bits b then seed else 0) \<le> p \<and> p < v \<longrightarrow> {p..<p + n} \<inter> bitset b \<noteq> {}))"
proof -
  have run: "run (\<lambda>j. \<not> bit_at b j) n p = ({p..<p + n} \<inter> bitset b = {})" if "0 \<le> p" "p + n \<le> bs_bits b" for p
    using that by (auto simp: run_def bitset_def)
  obtain v where v: "bit_noc b n seed = Some v"
    "if v = - 1 then \<forall>p. 0 \<le> p \<and> p + n \<le> bs_bits b \<longrightarrow> \<not> run (\<lambda>j. \<not> bit_at b j) n p
     else 0 \<le> v \<and> v + n \<le> bs_bits b \<and> run (\<lambda>j. \<not> bit_at b j) n v \<and>
       (if seed \<le> v \<and> seed + n < bs_bits b then \<forall>p. seed \<le> p \<and> p < v \<longrightarrow> \<not> run (\<lambda>j. \<not> bit_at b j) n p
        else \<forall>p. 0 \<le> p \<and> p < v \<longrightarrow> \<not> run (\<lambda>j. \<not> bit_at b j) n p)"
    using bit_noc_eq [OF assms] by blast
  show ?thesis
  proof (cases "v = - 1")
    case True
    then show ?thesis using v by (simp add: run)
  next
    case False
    then have b: "0 \<le> v" "v + n \<le> bs_bits b" "run (\<lambda>j. \<not> bit_at b j) n v" using v(2) by auto
    then have "{v..<v + n} \<subseteq> {0..<bs_bits b} - bitset b" using run [of v] by auto
    moreover have "{p..<p + n} \<inter> bitset b \<noteq> {}"
      if "(if seed \<le> v \<and> seed + n < bs_bits b then seed else 0) \<le> p" "p < v" for p
      using that v(2) False b run [of p] assms(4) by (auto split: if_splits)
    ultimately show ?thesis using v(1) False by auto
  qed
qed

theorem bit_noc_complete_witness:
  "\<exists>v. bit_noc ten_bits 5 2 = Some v \<and>
    (if v = - 1 then \<forall>p. 0 \<le> p \<and> p + 5 \<le> bs_bits ten_bits \<longrightarrow> \<not> ({p..<p + 5} \<inter> bitset ten_bits = {})
     else {v..<v + 5} \<subseteq> {0..<bs_bits ten_bits} - bitset ten_bits \<and>
       (\<forall>p. (if 2 \<le> v \<and> 2 + 5 < bs_bits ten_bits then 2 else 0) \<le> p \<and> p < v \<longrightarrow> {p..<p + 5} \<inter> bitset ten_bits \<noteq> {}))"
  by (rule bit_noc_complete) simp_all

text \<open>\<open>bit_nffs\<close> does not find every run of \<open>n\<close> set bits. Its loop bounds the tested
  position, not the start of the run, by \<open>nbits - n\<close>: a run that lies behind that
  position is reported as missing (\<open>- 1\<close>), whatever its length, while a run it reports
  is one.\<close>

theorem bit_nffs_misses_tail:
  assumes "wf_bitstr b" "0 < n" "n \<le> bs_bits b" "bitset b = {s..<bs_bits b}" "0 \<le> s" "s + n \<le> bs_bits b"
  shows "bit_nffs b n = Some (if s + n \<le> bs_bits b - n + 1 then s else - 1)"
proof -
  have at: "bit_at b j = (s \<le> j)" if "0 \<le> j" "j < bs_bits b" for j
    using that assms(4) bit_at_bitset [OF that] by auto
  have run: "run (bit_at b) n p = (s \<le> p)" if "0 \<le> p" "p + n \<le> bs_bits b" for p
    using that assms(2) at by (auto simp: run_def)
  obtain v where v: "bit_nffs b n = Some v" "first_at (run (bit_at b) n) (bs_bits b - 2 * n + 2) v"
    using bit_nffs_eq [OF assms(1-3)] by blast
  have "v = (if s + n \<le> bs_bits b - n + 1 then s else - 1)"
  proof (cases "v = - 1")
    case True
    then have "\<not> run (bit_at b) n s" if "s < bs_bits b - 2 * n + 2" using v(2) that assms(5) by (auto simp: first_at_def)
    then show ?thesis using True run [of s] assms by auto
  next
    case False
    then have v2: "0 \<le> v" "v < bs_bits b - 2 * n + 2" "run (bit_at b) n v" "\<forall>j. 0 \<le> j \<and> j < v \<longrightarrow> \<not> run (bit_at b) n j"
      using v(2) by (auto simp: first_at_def)
    have "s \<le> v" using v2 run [of v] assms(2) by simp
    moreover have "\<not> s < v" using v2 run [of s] assms by auto
    ultimately show ?thesis using v2 by auto
  qed
  then show ?thesis using v(1) by simp
qed

theorem bit_nffs_misses_tail_witness:
  "\<exists>b. wf_bitstr b \<and> bitset b = {1..<4} \<and> bs_bits b = 4 \<and> bit_nffs b 3 = Some (- 1)"
proof -
  define b where "b = \<lparr>bs_magic = BITSTR_MAGIC, bs_bits = 4, bs_words = [14]\<rparr>"
  have wf: "wf_bitstr b" "bs_bits b = 4"
    by (simp_all add: b_def wf_bitstr_def bitstr_valid_def valid_size_def bitstr_words_def)
  have "bit_at b j = (1 \<le> j)" if "0 \<le> j" "j < 4" for j
  proof -
    have "j \<in> {0, 1, 2, 3}" using that by auto
    then show ?thesis by (auto simp: b_def bit_at_def bit_simps)
  qed
  then have "bitset b = {1..<4}" using wf by (auto simp: bitset_def)
  then show ?thesis using bit_nffs_misses_tail [of b 3 1] wf by auto
qed

text \<open>\<open>bit_not\<close> complements the slack of the last word as well. On a full string whose
  size is not a multiple of the word size the complement is the empty set, yet \<open>bit_ffs\<close> of it
  returns the position \<open>bs_bits b\<close>, one past the last bit, instead of \<open>- 1\<close>.\<close>

theorem bit_not_slack_found:
  assumes "wf_bitstr b" "clean b" "bitset b = {0..<bs_bits b}" "bs_bits b mod 64 \<noteq> 0"
  shows "\<exists>c. bit_not b = Some c \<and> bitset c = {} \<and> bit_ffs c = Some (bs_bits b)"
proof -
  define c where "c = with_bits b (\<lambda>j. \<not> bit_at b j)"
  have c: "bit_not b = Some c" "wf_bitstr c" "bit_cap c = bit_cap b" "bs_bits c = bs_bits b"
    using assms(1) by (simp_all add: c_def bit_not_eq)
  have at: "bit_at b j" if "0 \<le> j" "j < bs_bits b" for j using that bit_at_bitset [OF that] assms(3) by simp
  have n0: "0 \<le> bs_bits b" and cap: "bs_bits b < bit_cap b"
    using wf_bits_cap [OF assms(1)] assms(4) by (auto simp: bit_cap_def order_le_less)
  have "bitset c = {}" using at by (auto simp: c_def bitset_with_bits [OF assms(1)])
  moreover obtain v where v: "bit_ffs c = Some v" "first_at (bit_at c) (bit_cap b) v"
    using bit_ffs_eq [OF c(2)] c(3) by auto
  moreover have "v = bs_bits b"
  proof -
    have "bit_at c (bs_bits b)" using assms(2) n0 cap by (auto simp: c_def clean_def)
    moreover have "\<not> bit_at c j" if "0 \<le> j" "j < bs_bits b" for j using that cap at by (simp add: c_def)
    ultimately show ?thesis using v(2) n0 cap unfolding first_at_def by (metis linorder_neqE_linordered_idom)
  qed
  ultimately show ?thesis using c by blast
qed

theorem bit_not_slack_found_witness:
  "\<exists>b c. bs_bits b = 3 \<and> bit_not b = Some c \<and> bitset c = {} \<and> bit_ffs c = Some 3"
proof -
  define b where "b = \<lparr>bs_magic = BITSTR_MAGIC, bs_bits = 3, bs_words = [7]\<rparr>"
  have wf: "wf_bitstr b" "bs_bits b = 3" "bit_cap b = 64"
    by (simp_all add: b_def wf_bitstr_def bitstr_valid_def valid_size_def bitstr_words_def bit_cap_def)
  have seven: "bit (7 :: int) n = (n < 3)" for n
    using bit_mask_iff [where 'a = int, of 3 n] by (simp add: mask_eq_exp_minus_1)
  have at: "bit_at b j = (j < 3)" if "0 \<le> j" "j < 64" for j
    using that by (auto simp: b_def bit_at_def seven bit_simps nat_less_iff)
  have "bitset b = {0..<3}" "clean b" using wf at by (auto simp: bitset_def clean_def)
  then show ?thesis using bit_not_slack_found [of b] wf by auto
qed

end
