(* ===== verification/Bitstring_Count.thy ===== *)
theory Bitstring_Count
  imports Bitstring_Search
begin

unbundle bit_operations_syntax

section \<open>Counting, rotating and picking bits (\<open>src/common/bitstring.c\<close>)\<close>

text \<open>
  The counting functions add the weights of whole words and test the remaining bits one
  by one. \<open>count_in P lo hi\<close> is the number of positions in a range, to which each of them
  is related; the maximal run, the rotation, the selection of the first \<open>n\<close> set bits and
  the conversions between a bit's position and its rank follow.
\<close>

subsection \<open>The operations\<close>

definition hweight :: "u64 \<Rightarrow> int" where
  "hweight w = int (length (filter (bit w) [0..<64]))"

function count_words :: "bitstr \<Rightarrow> int \<Rightarrow> int \<Rightarrow> int \<Rightarrow> (int \<times> int) option" where
  "count_words b i hi count =
     (if i + 64 \<le> hi then do {
        w \<leftarrow> c_rd (bs_words b) (bit_word i);
        count_words b (i + 64) hi (count + hweight w)
      } else Some (i, count))"
  by pat_completeness auto
termination
  by (relation "measure (\<lambda>(b, i, hi, count). nat (hi - i))") auto

function count_bits :: "bitstr \<Rightarrow> int \<Rightarrow> int \<Rightarrow> int \<Rightarrow> int option" where
  "count_bits b i hi count =
     (if i < hi then do {
        t \<leftarrow> bit_test b i;
        count_bits b (i + 1) hi (if t then count + 1 else count)
      } else Some count)"
  by pat_completeness auto
termination
  by (relation "measure (\<lambda>(b, i, hi, count). nat (hi - i))") auto

declare count_words.simps [simp del] count_bits.simps [simp del]

definition bit_set_count :: "bitstr \<Rightarrow> int option" where
  "bit_set_count b = do {
     c_assert (bitstr_valid b);
     (i, count) \<leftarrow> count_words b 0 (bs_bits b) 0;
     count_bits b i (bs_bits b) count
   }"

text \<open>The first \<open>for\<close> loop ends at \<open>MIN (end, eow)\<close>, or where it began.\<close>

definition bit_set_count_range :: "bitstr \<Rightarrow> int \<Rightarrow> int \<Rightarrow> int option" where
  "bit_set_count_range b start stop = do {
     c_assert (bitstr_valid b);
     c_assert (bit_valid b start);
     let stop = min stop (bs_bits b);
     let eow = ((start + 64 - 1) div 64) * 64;
     count \<leftarrow> count_bits b start (min stop eow) 0;
     (i, count) \<leftarrow> count_words b (max start (min stop eow)) stop count;
     count_bits b i stop count
   }"

function overlap_words :: "bitstr \<Rightarrow> bitstr \<Rightarrow> int \<Rightarrow> int \<Rightarrow> (int \<times> int) option" where
  "overlap_words b1 b2 i count =
     (if i < bs_bits b1 then
        if i + 64 - 1 \<ge> bs_bits b1 then Some (i, count)
        else do {
          w1 \<leftarrow> c_rd (bs_words b1) (bit_word i);
          w2 \<leftarrow> c_rd (bs_words b2) (bit_word i);
          overlap_words b1 b2 (i + 64) (count + hweight (w1 AND w2))
        }
      else Some (i, count))"
  by pat_completeness auto
termination
  by (relation "measure (\<lambda>(b1, b2, i, count). nat (bs_bits b1 - i))") auto

function overlap_bits :: "bitstr \<Rightarrow> bitstr \<Rightarrow> int \<Rightarrow> int \<Rightarrow> int option" where
  "overlap_bits b1 b2 i count =
     (if i < bs_bits b1 then do {
        t1 \<leftarrow> bit_test b1 i;
        t \<leftarrow> (if t1 then bit_test b2 i else Some False);
        overlap_bits b1 b2 (i + 1) (if t then count + 1 else count)
      } else Some count)"
  by pat_completeness auto
termination
  by (relation "measure (\<lambda>(b1, b2, i, count). nat (bs_bits b1 - i))") auto

declare overlap_words.simps [simp del] overlap_bits.simps [simp del]

definition bit_overlap :: "bitstr \<Rightarrow> bitstr \<Rightarrow> int option" where
  "bit_overlap b1 b2 = do {
     c_assert (bitstr_valid b1);
     c_assert (bitstr_valid b2);
     c_assert (bs_bits b1 = bs_bits b2);
     (i, count) \<leftarrow> overlap_words b1 b2 0 0;
     overlap_bits b1 b2 i count
   }"

definition bit_clear_count :: "bitstr \<Rightarrow> int option" where
  "bit_clear_count b = do {
     c_assert (bitstr_valid b);
     n \<leftarrow> bit_set_count b;
     Some (bs_bits b - n)
   }"

definition bit_clear_count_range :: "bitstr \<Rightarrow> int \<Rightarrow> int \<Rightarrow> int option" where
  "bit_clear_count_range b start stop = do {
     c_assert (bitstr_valid b);
     let diff = stop - start;
     if diff < 1 then Some 0
     else do { n \<leftarrow> bit_set_count_range b start stop; Some (diff - n) }
   }"

function nset_max_loop :: "bitstr \<Rightarrow> int \<Rightarrow> int \<Rightarrow> int \<Rightarrow> int option" where
  "nset_max_loop b i cnt maxcnt =
     (if i < bs_bits b then do {
        t \<leftarrow> bit_test b i;
        let cnt = (if \<not> t then 0 else cnt + 1);
        let maxcnt = (if t \<and> cnt > maxcnt then cnt else maxcnt);
        if cnt = 0 \<and> bs_bits b - i < maxcnt then Some maxcnt
        else nset_max_loop b (i + 1) cnt maxcnt
      } else Some maxcnt)"
  by pat_completeness auto
termination
  by (relation "measure (\<lambda>(b, i, cnt, maxcnt). nat (bs_bits b - i))") auto

declare nset_max_loop.simps [simp del]

definition bit_nset_max_count :: "bitstr \<Rightarrow> int option" where
  "bit_nset_max_count b = do { c_assert (bitstr_valid b); nset_max_loop b 0 0 0 }"

text \<open>Both copying loops of \<open>bit_rotate_copy\<close>: source bits \<open>i ..< hi\<close> to offsets from \<open>dst\<close> on.\<close>

function rotate_loop :: "bitstr \<Rightarrow> bitstr \<Rightarrow> int \<Rightarrow> int \<Rightarrow> int \<Rightarrow> bitstr option" where
  "rotate_loop b1 new i hi dst =
     (if i < hi then do {
        t \<leftarrow> bit_test b1 i;
        new \<leftarrow> (if t then bit_set new dst else Some new);
        rotate_loop b1 new (i + 1) hi (dst + 1)
      } else Some new)"
  by pat_completeness auto
termination
  by (relation "measure (\<lambda>(b1, new, i, hi, dst). nat (hi - i))") auto

declare rotate_loop.simps [simp del]

definition bit_rotate_copy :: "bitstr \<Rightarrow> int \<Rightarrow> int \<Rightarrow> bitstr option" where
  "bit_rotate_copy b1 n nbits = do {
     c_assert (bitstr_valid b1);
     bitsize \<leftarrow> bit_size b1;
     c_assert (nbits \<ge> bitsize);
     let deltasize = nbits - bitsize;
     n \<leftarrow> c_rem n nbits;
     let n = (if n < 0 then n + nbits else n);
     let wrapbits = (if n > deltasize then n - deltasize else 0);
     new \<leftarrow> bit_alloc nbits;
     new \<leftarrow> bit_nclear new 0 (nbits - 1);
     new \<leftarrow> rotate_loop b1 new 0 (bitsize - wrapbits) n;
     rotate_loop b1 new (max 0 (bitsize - wrapbits)) bitsize 0
   }"

definition bit_rotate :: "bitstr \<Rightarrow> int \<Rightarrow> bitstr option" where
  "bit_rotate b1 n =
     (if n = 0 then Some b1
      else do {
        c_assert (bitstr_valid b1);
        bitsize \<leftarrow> bit_size b1;
        new \<leftarrow> bit_rotate_copy b1 n bitsize;
        b1' \<leftarrow> bit_copybits b1 new;
        _ \<leftarrow> bit_free new;
        Some b1'
      })"

text \<open>The loops of \<open>bit_pick_cnt\<close>. The inner one runs to its end, after which the outer
  condition is false as well.\<close>

function pick_bits :: "bitstr \<Rightarrow> int \<Rightarrow> bitstr \<Rightarrow> int \<Rightarrow> int \<Rightarrow> (bitstr \<times> int \<times> int) option" where
  "pick_bits b nbits new i count =
     (if i < bs_bits b \<and> count < nbits then do {
        t \<leftarrow> bit_test b i;
        new' \<leftarrow> (if t then bit_set new i else Some new);
        pick_bits b nbits new' (i + 1) (if t then count + 1 else count)
      } else Some (new, i, count))"
  by pat_completeness auto
termination
  by (relation "measure (\<lambda>(b, nbits, new, i, count). nat (bs_bits b - i))") auto

declare pick_bits.simps [simp del]

lemma pick_bits_mono: "pick_bits b nbits new i count = Some (new', i', count') \<Longrightarrow> i \<le> i'"
proof (induction b nbits new i count rule: pick_bits.induct)
  case (1 b nbits new i count)
  then show ?case
    by (subst (asm) (2) pick_bits.simps) (fastforce split: if_splits bind_splits)
qed

lemma pick_bits_progress:
  "i < bs_bits b \<Longrightarrow> count < nbits \<Longrightarrow> pick_bits b nbits new i count = Some (new', i', count') \<Longrightarrow> i < i'"
  by (subst (asm) pick_bits.simps) (fastforce dest!: pick_bits_mono split: if_splits bind_splits)

function pick_loop :: "bitstr \<Rightarrow> int \<Rightarrow> bitstr \<Rightarrow> int \<Rightarrow> int \<Rightarrow> (bitstr \<times> int) option" where
  "pick_loop b nbits new i count =
     (if i < bs_bits b \<and> count < nbits then do {
        w \<leftarrow> c_rd (bs_words b) (bit_word i);
        if w = 0 then pick_loop b nbits new (i + 64) count
        else let new_bits = hweight w in
          if count + new_bits \<le> nbits \<and> i + 64 - 1 < bs_bits b then do {
            ws \<leftarrow> c_wr (bs_words new) (bit_word i) w;
            pick_loop b nbits (new\<lparr>bs_words := ws\<rparr>) (i + 64) (count + new_bits)
          } else do {
            (new', i', count') \<leftarrow> pick_bits b nbits new i count;
            pick_loop b nbits new' i' count'
          }
      } else Some (new, count))"
  by pat_completeness auto
termination
  by (relation "measure (\<lambda>(b, nbits, new, i, count). nat (bs_bits b - i))")
    (auto dest: pick_bits_progress)

declare pick_loop.simps [simp del]

text \<open>The result \<open>Some None\<close> is the null pointer.\<close>

definition bit_pick_cnt :: "bitstr \<Rightarrow> int \<Rightarrow> bitstr option option" where
  "bit_pick_cnt b nbits = do {
     c_assert (bitstr_valid b);
     if bs_bits b < nbits then Some None
     else do {
       n \<leftarrow> bit_size b;
       new \<leftarrow> bit_alloc n;
       (new, count) \<leftarrow> pick_loop b nbits new 0 0;
       if count < nbits then do { _ \<leftarrow> bit_free new; Some None }
       else Some (Some new)
     }
   }"

function bit_num_loop :: "bitstr \<Rightarrow> int \<Rightarrow> int \<Rightarrow> int \<Rightarrow> int option" where
  "bit_num_loop b pos i cnt =
     (if i < bs_bits b then do {
        t \<leftarrow> bit_test b i;
        if t \<and> cnt = pos then Some i
        else bit_num_loop b pos (i + 1) (if t then cnt + 1 else cnt)
      } else Some i)"
  by pat_completeness auto
termination
  by (relation "measure (\<lambda>(b, pos, i, cnt). nat (bs_bits b - i))") auto

declare bit_num_loop.simps [simp del]

definition bit_get_bit_num :: "bitstr \<Rightarrow> int \<Rightarrow> int option" where
  "bit_get_bit_num b pos = do {
     c_assert (bitstr_valid b);
     c_assert (pos \<le> bs_bits b);
     i \<leftarrow> bit_num_loop b pos 0 0;
     Some (if i \<ge> bs_bits b then - 1 else i)
   }"

definition bit_get_pos_num :: "bitstr \<Rightarrow> int \<Rightarrow> int option" where
  "bit_get_pos_num b pos = do {
     c_assert (bitstr_valid b);
     c_assert (pos \<le> bs_bits b);
     t \<leftarrow> bit_test b pos;
     if \<not> t then Some (- 1) else count_bits b 0 (pos + 1) (- 1)
   }"

subsection \<open>Counts are cardinalities\<close>

definition count_in :: "(int \<Rightarrow> bool) \<Rightarrow> int \<Rightarrow> int \<Rightarrow> int" where
  "count_in P lo hi = int (card {j. lo \<le> j \<and> j < hi \<and> P j})"

lemma finite_range_int [simp]: "finite {j. lo \<le> j \<and> j < hi \<and> P j}" for lo hi :: int
  by (rule finite_subset [of _ "{lo..<hi}"]) auto

lemma count_in_empty [simp]: "hi \<le> lo \<Longrightarrow> count_in P lo hi = 0"
  by (auto simp: count_in_def intro!: arg_cong [where f = card, of _ "{}", simplified])

lemma count_in_split: "lo \<le> mid \<Longrightarrow> mid \<le> hi \<Longrightarrow> count_in P lo hi = count_in P lo mid + count_in P mid hi"
proof -
  assume "lo \<le> mid" "mid \<le> hi"
  then have "{j. lo \<le> j \<and> j < hi \<and> P j} = {j. lo \<le> j \<and> j < mid \<and> P j} \<union> {j. mid \<le> j \<and> j < hi \<and> P j}" by auto
  moreover have "{j. lo \<le> j \<and> j < mid \<and> P j} \<inter> {j. mid \<le> j \<and> j < hi \<and> P j} = {}" by auto
  ultimately show ?thesis by (simp add: count_in_def card_Un_disjoint)
qed

lemma count_in_one: "count_in P i (i + 1) = (if P i then 1 else 0)"
proof -
  have "{j. i \<le> j \<and> j < i + 1 \<and> P j} = (if P i then {i} else {})" by auto
  then show ?thesis by (simp add: count_in_def)
qed

lemma count_in_step: "i < hi \<Longrightarrow> count_in P i hi = (if P i then 1 else 0) + count_in P (i + 1) hi"
  using count_in_split [of i "i + 1" hi P] by (simp add: count_in_one)

lemma count_in_bounds: "lo \<le> hi \<Longrightarrow> 0 \<le> count_in P lo hi \<and> count_in P lo hi \<le> hi - lo"
proof -
  assume "lo \<le> hi"
  moreover have "card {j. lo \<le> j \<and> j < hi \<and> P j} \<le> card {lo..<hi}" by (rule card_mono) auto
  ultimately show ?thesis by (simp add: count_in_def)
qed

lemma count_in_cong: "(\<And>j. lo \<le> j \<Longrightarrow> j < hi \<Longrightarrow> P j = Q j) \<Longrightarrow> count_in P lo hi = count_in Q lo hi"
  unfolding count_in_def by (metis (mono_tags, lifting) Collect_cong)

lemma count_in_bitset: "int (card (bitset b)) = count_in (bit_at b) 0 (bs_bits b)"
  by (simp add: count_in_def bitset_def)

lemma hweight_card: "hweight w = int (card {n. n < 64 \<and> bit w n})"
proof -
  have "card (set (filter (bit w) [0..<64])) = length (filter (bit w) [0..<64])"
    by (intro distinct_card) simp
  moreover have "set (filter (bit w) [0..<64]) = {n. n < 64 \<and> bit w n}" by auto
  ultimately show ?thesis by (simp add: hweight_def)
qed

lemma hweight_count_in:
  assumes "\<And>n. n < 64 \<Longrightarrow> P (i + int n) = bit w n"
  shows "hweight w = count_in P i (i + 64)"
proof -
  have "{j. i \<le> j \<and> j < i + 64 \<and> P j} = (\<lambda>n. i + int n) ` {n. n < 64 \<and> bit w n}"
  proof (intro set_eqI iffI)
    fix j assume "j \<in> {j. i \<le> j \<and> j < i + 64 \<and> P j}"
    then show "j \<in> (\<lambda>n. i + int n) ` {n. n < 64 \<and> bit w n}"
      using assms [of "nat (j - i)"] by (intro image_eqI [of _ _ "nat (j - i)"]) (auto simp: nat_less_iff)
  qed (use assms in auto)
  then show ?thesis
    by (simp add: hweight_card count_in_def card_image inj_on_def)
qed

lemma hweight_word:
  assumes "0 \<le> i" "i mod 64 = 0"
  shows "hweight (bs_words b ! nat (i div 64)) = count_in (bit_at b) i (i + 64)"
  using assms by (intro hweight_count_in bit_at_word) auto

lemma count_words_eq:
  "wf_bitstr b \<Longrightarrow> 0 \<le> i \<Longrightarrow> hi \<le> bs_bits b \<Longrightarrow> i + 64 \<le> hi \<longrightarrow> i mod 64 = 0 \<Longrightarrow>
   \<exists>i'. count_words b i hi count = Some (i', count + count_in (bit_at b) i i') \<and> i \<le> i' \<and> i' \<le> max i hi"
proof (induction b i hi count rule: count_words.induct)
  case (1 b i hi count)
  show ?case
  proof (cases "i + 64 \<le> hi")
    case True
    then have i: "i mod 64 = 0" "i < bs_bits b" using "1.prems" by auto
    define w where "w = bs_words b ! nat (i div 64)"
    have rd: "c_rd (bs_words b) (bit_word i) = Some w"
      using wf_word_index [OF "1.prems"(1,2) i(2)] by (simp add: w_def bit_word_def)
    obtain i' where i': "count_words b (i + 64) hi (count + hweight w) =
        Some (i', count + hweight w + count_in (bit_at b) (i + 64) i')" "i + 64 \<le> i'" "i' \<le> max (i + 64) hi"
      using "1.IH" [OF True rd] "1.prems" i(1) by auto
    have "hweight w = count_in (bit_at b) i (i + 64)" unfolding w_def by (rule hweight_word [OF "1.prems"(2) i(1)])
    then have "hweight w + count_in (bit_at b) (i + 64) i' = count_in (bit_at b) i i'"
      using count_in_split [of i "i + 64" i' "bit_at b"] i'(2) by simp
    then show ?thesis using i' True rd by (subst count_words.simps) (simp add: add.assoc)
  qed (simp add: count_words.simps)
qed

lemma count_bits_eq:
  "wf_bitstr b \<Longrightarrow> 0 \<le> i \<Longrightarrow> hi \<le> bs_bits b \<Longrightarrow> count_bits b i hi count = Some (count + count_in (bit_at b) i hi)"
proof (induction b i hi count rule: count_bits.induct)
  case (1 b i hi count)
  show ?case
  proof (cases "i < hi")
    case True
    then have "bit_test b i = Some (bit_at b i)" using "1.prems" by (simp add: bit_test_eq)
    then show ?thesis using True "1.IH" [OF True] "1.prems" by (subst count_bits.simps) (simp add: count_in_step)
  qed (simp add: count_bits.simps)
qed

lemma bit_set_count_eq [bitmap_simps]:
  assumes "wf_bitstr b"
  shows "bit_set_count b = Some (int (card (bitset b)))"
proof -
  have n: "0 \<le> bs_bits b" using wf_bits_cap [OF assms] by simp
  obtain i where i: "count_words b 0 (bs_bits b) 0 = Some (i, 0 + count_in (bit_at b) 0 i)" "0 \<le> i" "i \<le> max 0 (bs_bits b)"
    using count_words_eq [OF assms, of 0 "bs_bits b" 0] by auto
  then show ?thesis
    using assms n count_in_split [of 0 i "bs_bits b" "bit_at b"]
    by (simp add: bit_set_count_def wf_bitstr_def count_bits_eq [OF assms] count_in_bitset)
qed

lemma bit_set_count_range_eq [bitmap_simps]:
  assumes "wf_bitstr b" "0 \<le> start" "start < bs_bits b"
  shows "bit_set_count_range b start stop = Some (int (card (bitset b \<inter> {start..<stop})))"
proof -
  define e where "e = min stop (bs_bits b)"
  define m where "m = min e (((start + 64 - 1) div 64) * 64)"
  have e: "e \<le> bs_bits b" "m \<le> e" unfolding m_def by (simp_all only: min.cobounded1 min.cobounded2 e_def)
  have valid: "bitstr_valid b" "bit_valid b start" using assms by (auto simp: wf_bitstr_def bit_valid_def)
  have md: "max start m + 64 \<le> e \<longrightarrow> max start m mod 64 = 0"
  proof
    assume le: "max start m + 64 \<le> e"
    then have m: "m = ((start + 64 - 1) div 64) * 64" by (auto simp: m_def)
    have "start \<le> m" unfolding m using div_mult_mod_eq [of "start + 64 - 1" 64] pos_mod_bound [of 64 "start + 64 - 1"] by linarith
    then show "max start m mod 64 = 0" by (simp add: max_absorb2 m)
  qed
  have "0 \<le> max start m" using assms(2) by simp
  from count_words_eq [OF assms(1) this e(1) md]
  obtain i where i: "count_words b (max start m) e (count_in (bit_at b) start m) =
      Some (i, count_in (bit_at b) start m + count_in (bit_at b) (max start m) i)" "max start m \<le> i" "i \<le> max (max start m) e"
    by blast
  have c: "count_bits b start m 0 = Some (count_in (bit_at b) start m)"
    using count_bits_eq [OF assms(1,2), of m 0] by (auto simp: m_def e_def)
  have "count_bits b i e x = Some (x + count_in (bit_at b) i e)" for x
    using i(2) assms by (intro count_bits_eq) (auto simp: e_def)
  moreover have "count_in (bit_at b) start m + count_in (bit_at b) (max start m) i + count_in (bit_at b) i e = count_in (bit_at b) start e"
  proof (cases "start \<le> e")
    case True
    then have "i \<le> e" using i(3) by (auto simp: m_def)
    then show ?thesis using i(2) count_in_split [of start i e "bit_at b"] count_in_split [of start m i "bit_at b"]
      by (cases "start \<le> m") (simp_all add: max_def)
  next
    case False
    then have "m \<le> e" "max start m = start" by (auto simp: m_def)
    then show ?thesis using False i by simp
  qed
  moreover have "count_in (bit_at b) start e = int (card (bitset b \<inter> {start..<stop}))"
    unfolding count_in_def using assms(2) by (intro arg_cong [where f = "\<lambda>S. int (card S)"]) (auto simp: bitset_def e_def)
  ultimately show ?thesis
    using i(1) c valid unfolding bit_set_count_range_def Let_def e_def [symmetric] m_def [symmetric] by simp
qed

lemma overlap_words_eq:
  "wf_bitstr a \<Longrightarrow> wf_bitstr b \<Longrightarrow> bs_bits a = bs_bits b \<Longrightarrow> 0 \<le> i \<Longrightarrow> i mod 64 = 0 \<Longrightarrow>
   \<exists>i'. overlap_words a b i count = Some (i', count + count_in (\<lambda>j. bit_at a j \<and> bit_at b j) i i') \<and>
     i \<le> i' \<and> i' \<le> max i (bs_bits a)"
proof (induction a b i count rule: overlap_words.induct)
  case (1 a b i count)
  let ?P = "\<lambda>j. bit_at a j \<and> bit_at b j"
  show ?case
  proof (cases "i + 64 - 1 < bs_bits a")
    case True
    then have i: "i < bs_bits a" "\<not> bs_bits a \<le> i + 64 - 1" by auto
    let ?wa = "bs_words a ! nat (i div 64)" and ?wb = "bs_words b ! nat (i div 64)"
    have rd: "c_rd (bs_words a) (bit_word i) = Some ?wa" "c_rd (bs_words b) (bit_word i) = Some ?wb"
      using wf_word_index [OF "1.prems"(1,4) i(1)] wf_same_length [OF "1.prems"(1-3)] by (simp_all add: bit_word_def)
    have h: "hweight (?wa AND ?wb) = count_in ?P i (i + 64)"
      using "1.prems"(4,5) by (intro hweight_count_in) (simp add: bit_at_word bit_and_iff)
    obtain i' where i': "overlap_words a b (i + 64) (count + hweight (?wa AND ?wb)) =
        Some (i', count + hweight (?wa AND ?wb) + count_in ?P (i + 64) i')" "i + 64 \<le> i'" "i' \<le> max (i + 64) (bs_bits a)"
      using "1.IH" [OF i rd] "1.prems" by auto
    have "hweight (?wa AND ?wb) + count_in ?P (i + 64) i' = count_in ?P i i'"
      using count_in_split [of i "i + 64" i' ?P] i'(2) h by simp
    then show ?thesis using i' i rd True by (subst overlap_words.simps) (simp add: add.assoc)
  qed (simp add: overlap_words.simps)
qed

lemma overlap_bits_eq:
  "wf_bitstr a \<Longrightarrow> wf_bitstr b \<Longrightarrow> bs_bits a = bs_bits b \<Longrightarrow> 0 \<le> i \<Longrightarrow>
   overlap_bits a b i count = Some (count + count_in (\<lambda>j. bit_at a j \<and> bit_at b j) i (bs_bits a))"
proof (induction a b i count rule: overlap_bits.induct)
  case (1 a b i count)
  show ?case
  proof (cases "i < bs_bits a")
    case True
    then have t: "bit_test a i = Some (bit_at a i)" "bit_test b i = Some (bit_at b i)" using "1.prems" by (simp_all add: bit_test_eq)
    have "(if bit_at a i then bit_test b i else Some False) = Some (bit_at a i \<and> bit_at b i)" by (simp add: t)
    then show ?thesis
      using True t "1.IH" [OF True t(1)] "1.prems" by (subst overlap_bits.simps) (simp add: count_in_step)
  qed (simp add: overlap_bits.simps)
qed

lemma bit_overlap_eq [bitmap_simps]:
  assumes "wf_bitstr a" "wf_bitstr b" "bs_bits a = bs_bits b"
  shows "bit_overlap a b = Some (int (card (bitset a \<inter> bitset b)))"
proof -
  let ?P = "\<lambda>j. bit_at a j \<and> bit_at b j"
  have n: "0 \<le> bs_bits a" using wf_bits_cap [OF assms(1)] by simp
  obtain i where i: "overlap_words a b 0 0 = Some (i, 0 + count_in ?P 0 i)" "0 \<le> i" "i \<le> max 0 (bs_bits a)"
    using overlap_words_eq [OF assms, of 0 0] by auto
  have "count_in ?P 0 (bs_bits a) = int (card (bitset a \<inter> bitset b))"
    unfolding count_in_def using assms(3) by (intro arg_cong [where f = "\<lambda>S. int (card S)"]) (auto simp: bitset_def)
  then show ?thesis
    using assms n i count_in_split [of 0 i "bs_bits a" ?P]
    by (simp add: bit_overlap_def wf_bitstr_def overlap_bits_eq [OF assms])
qed

lemma bit_clear_count_eq [bitmap_simps]:
  assumes "wf_bitstr b"
  shows "bit_clear_count b = Some (int (card ({0..<bs_bits b} - bitset b)))"
proof -
  have "card ({0..<bs_bits b} - bitset b) = card {0..<bs_bits b} - card (bitset b)"
    using bitset_bounds by (intro card_Diff_subset) auto
  moreover have "card (bitset b) \<le> card {0..<bs_bits b}" using bitset_bounds by (intro card_mono) auto
  ultimately show ?thesis
    using assms by (simp add: bit_clear_count_def bit_set_count_eq wf_bitstr_def valid_size_def of_nat_diff)
qed

text \<open>\<open>bit_clear_count_range\<close> is exact while the range ends inside the string; past the end
  every position counts as clear.\<close>

lemma bit_clear_count_range_eq [bitmap_simps]:
  assumes "wf_bitstr b" "0 \<le> start" "start < bs_bits b"
  shows "bit_clear_count_range b start stop = Some (int (card ({start..<stop} - bitset b)))"
proof (cases "stop - start < 1")
  case False
  have "card ({start..<stop} - bitset b) = card {start..<stop} - card (bitset b \<inter> {start..<stop})"
    by (metis Diff_Int2 Diff_Int_distrib2 Int_commute card_Diff_subset_Int finite_Int finite_bitset inf.idem Diff_Int)
  moreover have "card (bitset b \<inter> {start..<stop}) \<le> card {start..<stop}" by (intro card_mono) auto
  ultimately show ?thesis
    using assms False by (simp add: bit_clear_count_range_def bit_set_count_range_eq wf_bitstr_def of_nat_diff)
qed (use assms in \<open>auto simp: bit_clear_count_range_def wf_bitstr_def\<close>)

subsection \<open>The longest run\<close>

lemma run_mono: "run P n p \<Longrightarrow> m \<le> n \<Longrightarrow> run P m p"
  by (auto simp: run_def)

lemma nset_max_loop_eq:
  "wf_bitstr b \<Longrightarrow> 0 \<le> cnt \<Longrightarrow> cnt \<le> maxcnt \<Longrightarrow> cnt \<le> i \<Longrightarrow> i \<le> bs_bits b \<Longrightarrow>
   run (bit_at b) cnt (i - cnt) \<Longrightarrow> (cnt < i \<longrightarrow> \<not> bit_at b (i - cnt - 1)) \<Longrightarrow>
   (\<exists>p. 0 \<le> p \<and> p + maxcnt \<le> i \<and> run (bit_at b) maxcnt p) \<Longrightarrow>
   (\<forall>n p. 0 \<le> p \<and> 0 \<le> n \<and> p + n \<le> i \<and> run (bit_at b) n p \<longrightarrow> n \<le> maxcnt) \<Longrightarrow>
   \<exists>m. nset_max_loop b i cnt maxcnt = Some m \<and>
     (\<exists>p. 0 \<le> p \<and> p + m \<le> bs_bits b \<and> run (bit_at b) m p) \<and> 0 \<le> m \<and>
     (\<forall>n p. 0 \<le> p \<and> 0 \<le> n \<and> p + n \<le> bs_bits b \<and> run (bit_at b) n p \<longrightarrow> n \<le> m)"
proof (induction b i cnt maxcnt rule: nset_max_loop.induct)
  case (1 b i cnt maxcnt)
  show ?case
  proof (cases "i < bs_bits b")
    case False
    then show ?thesis using "1.prems" by (subst nset_max_loop.simps) auto
  next
    case True
    then have t: "bit_test b i = Some (bit_at b i)" using "1.prems" by (simp add: bit_test_eq)
    define c where "c = (if \<not> bit_at b i then 0 else cnt + 1)"
    define m where "m = (if bit_at b i \<and> c > maxcnt then c else maxcnt)"
    have step: "nset_max_loop b i cnt maxcnt = (if c = 0 \<and> bs_bits b - i < m then Some m else nset_max_loop b (i + 1) c m)"
      unfolding c_def m_def using True t by (subst nset_max_loop.simps) (simp add: Let_def)
    have cm: "0 \<le> c" "c \<le> m" "c \<le> i + 1" "maxcnt \<le> m" using "1.prems" by (auto simp: c_def m_def)
    have rc: "run (bit_at b) c (i + 1 - c)" using "1.prems"(6) by (auto simp: c_def run_def order_le_less)
    have lc: "c < i + 1 \<longrightarrow> \<not> bit_at b (i + 1 - c - 1)" using "1.prems"(7) by (auto simp: c_def diff_diff_eq)
    have ex: "\<exists>p. 0 \<le> p \<and> p + m \<le> i + 1 \<and> run (bit_at b) m p"
    proof (cases "m = c")
      case True
      then show ?thesis using rc cm by (intro exI [of _ "i + 1 - c"]) auto
    next
      case False
      then have "m = maxcnt" by (auto simp: m_def split: if_splits)
      then show ?thesis using "1.prems"(8) by auto
    qed
    have up: "n \<le> m" if n: "0 \<le> p" "0 \<le> n" "p + n \<le> i + 1" "run (bit_at b) n p" for n p
    proof (cases "p + n \<le> i")
      case True
      then show ?thesis using "1.prems"(9) n cm(4) by fastforce
    next
      case False
      then have pn: "p + n = i + 1" using n by auto
      show ?thesis
      proof (cases "n \<le> c")
        case False
        then have "p \<le> i - c" using pn by auto
        then have "bit_at b (i - c)" using n(4) pn False cm(1) by (auto simp: run_def)
        moreover have "c < i + 1" using \<open>p \<le> i - c\<close> n(1) by auto
        ultimately show ?thesis using lc by simp
      qed (use cm in auto)
    qed
    show ?thesis
    proof (cases "c = 0 \<and> bs_bits b - i < m")
      case stop: True
      have "n \<le> m" if n: "0 \<le> p" "0 \<le> n" "p + n \<le> bs_bits b" "run (bit_at b) n p" for n p
      proof (cases "p + n \<le> i + 1")
        case False
        have "\<not> bit_at b i" using stop "1.prems"(2) by (auto simp: c_def split: if_splits)
        then have "i < p" using n(4) False by (auto simp: run_def not_le [symmetric])
        then show ?thesis using n(3) stop by auto
      qed (use up n in auto)
      moreover have "\<exists>p. 0 \<le> p \<and> p + m \<le> bs_bits b \<and> run (bit_at b) m p" using ex True by fastforce
      ultimately show ?thesis using stop step cm by auto
    next
      case go: False
      have up': "\<forall>n p. 0 \<le> p \<and> 0 \<le> n \<and> p + n \<le> i + 1 \<and> run (bit_at b) n p \<longrightarrow> n \<le> m" using up by blast
      have "i + 1 \<le> bs_bits b" using True by simp
      then show ?thesis
        using go "1.IH" [OF True t c_def m_def go "1.prems"(1) cm(1-3) _ rc lc ex up'] unfolding step if_not_P [OF go] by blast
    qed
  qed
qed

lemma bit_nset_max_count_eq:
  assumes "wf_bitstr b"
  shows "\<exists>m. bit_nset_max_count b = Some m \<and> 0 \<le> m \<and>
     (\<exists>p. 0 \<le> p \<and> p + m \<le> bs_bits b \<and> run (bit_at b) m p) \<and>
     (\<forall>n p. 0 \<le> p \<and> 0 \<le> n \<and> p + n \<le> bs_bits b \<and> run (bit_at b) n p \<longrightarrow> n \<le> m)"
proof -
  have "\<exists>m. nset_max_loop b 0 0 0 = Some m \<and>
     (\<exists>p. 0 \<le> p \<and> p + m \<le> bs_bits b \<and> run (bit_at b) m p) \<and> 0 \<le> m \<and>
     (\<forall>n p. 0 \<le> p \<and> 0 \<le> n \<and> p + n \<le> bs_bits b \<and> run (bit_at b) n p \<longrightarrow> n \<le> m)"
    using wf_bits_cap [OF assms] by (intro nset_max_loop_eq [OF assms]) (auto simp: run_def)
  then show ?thesis using assms by (auto simp: bit_nset_max_count_def wf_bitstr_def)
qed

subsection \<open>Rotation\<close>

lemma rotate_loop_eq:
  "wf_bitstr b \<Longrightarrow> wf_bitstr new \<Longrightarrow> 0 \<le> i \<Longrightarrow> hi \<le> bs_bits b \<Longrightarrow> 0 \<le> dst \<Longrightarrow> dst + (hi - i) \<le> bs_bits new \<Longrightarrow>
   rotate_loop b new i hi dst =
     Some (with_bits new (\<lambda>j. bit_at new j \<or> (dst \<le> j \<and> j < dst + (hi - i) \<and> bit_at b (j - dst + i))))"
proof (induction b new i hi dst rule: rotate_loop.induct)
  case (1 b new i hi dst)
  show ?case
  proof (cases "i < hi")
    case False
    then show ?thesis by (subst rotate_loop.simps) (auto intro!: with_bits_id [symmetric])
  next
    case True
    have t: "bit_test b i = Some (bit_at b i)" using "1.prems" True by (simp add: bit_test_eq)
    define new' where "new' = with_bits new (\<lambda>j. bit_at new j \<or> (j = dst \<and> bit_at b i))"
    have s: "(if bit_at b i then bit_set new dst else Some new) = Some new'"
      using "1.prems" True unfolding new'_def
      by (auto simp: bit_set_eq intro!: with_bits_cong with_bits_id [symmetric])
    have "rotate_loop b new i hi dst = rotate_loop b new' (i + 1) hi (dst + 1)"
      using True t s by (subst rotate_loop.simps) simp
    also have "\<dots> = Some (with_bits new' (\<lambda>j. bit_at new' j \<or> (dst + 1 \<le> j \<and> j < dst + 1 + (hi - (i + 1)) \<and> bit_at b (j - (dst + 1) + (i + 1)))))"
      using "1.prems" by (intro "1.IH" [OF True t s]) (simp_all add: new'_def)
    also have "with_bits new' (\<lambda>j. bit_at new' j \<or> (dst + 1 \<le> j \<and> j < dst + 1 + (hi - (i + 1)) \<and> bit_at b (j - (dst + 1) + (i + 1)))) =
        with_bits new (\<lambda>j. bit_at new j \<or> (dst \<le> j \<and> j < dst + (hi - i) \<and> bit_at b (j - dst + i)))"
      using True unfolding new'_def by (auto intro!: with_bits_cong simp: order_le_less algebra_simps)
    finally show ?thesis .
  qed
qed

text \<open>Bit \<open>j\<close> of the source lands at \<open>(j + n) mod nbits\<close>.\<close>

lemma bit_rotate_copy_set:
  assumes wf: "wf_bitstr b" and nb: "bs_bits b \<le> nbits" "0 < nbits" "valid_size nbits"
  shows "\<exists>c. bit_rotate_copy b n nbits = Some c \<and> wf_bitstr c \<and> bs_magic c = BITSTR_MAGIC \<and> clean c \<and> bs_bits c = nbits \<and>
    bitset c = (\<lambda>j. (j + n) mod nbits) ` bitset b"
proof -
  obtain r where r: "c_rem n nbits = Some r" "(if r < 0 then r + nbits else r) = n mod nbits"
    using c_rem_mod [OF nb(2)] by blast
  define k where "k = n mod nbits"
  have k: "0 \<le> k" "k < nbits" using nb by (simp_all add: k_def)
  define s where "s = bs_bits b"
  define wrap where "wrap = (if k > nbits - s then k - (nbits - s) else 0)"
  have s0: "0 \<le> s" using wf_bits_cap [OF wf] by (simp add: s_def)
  have w: "0 \<le> wrap" "wrap \<le> s" "k + (s - wrap) \<le> nbits" "wrap \<le> k" using k s0 nb(1) unfolding s_def [symmetric] wrap_def by (cases "k > nbits - s"; simp)+
  obtain z where z: "bit_alloc nbits = Some z" "wf_bitstr z" "bs_bits z = nbits" "bs_magic z = BITSTR_MAGIC"
      "\<forall>j. 0 \<le> j \<and> j < bit_cap z \<longrightarrow> \<not> bit_at z j"
    using nb(3) by (rule bit_allocE)
  have zc: "bit_nclear z 0 (nbits - 1) = Some z"
    using z nb by (auto simp: bit_nclear_eq intro!: with_bits_id)
  define c1 where "c1 = with_bits z (\<lambda>j. k \<le> j \<and> j < k + (s - wrap) \<and> bit_at b (j - k))"
  have c1: "rotate_loop b z 0 (s - wrap) k = Some c1"
  proof -
    have "rotate_loop b z 0 (s - wrap) k = Some (with_bits z (\<lambda>j. bit_at z j \<or> (k \<le> j \<and> j < k + (s - wrap - 0) \<and> bit_at b (j - k + 0))))"
      using wf z(2,3) w k s_def by (intro rotate_loop_eq) auto
    then show ?thesis unfolding c1_def using z(5) by (auto intro!: with_bits_cong)
  qed
  define c where "c = with_bits z (\<lambda>j. (k \<le> j \<and> j < k + (s - wrap) \<and> bit_at b (j - k)) \<or> (j < wrap \<and> bit_at b (j + s - wrap)))"
  have c: "rotate_loop b c1 (s - wrap) s 0 = Some c"
  proof -
    have "rotate_loop b c1 (s - wrap) s 0 = Some (with_bits c1 (\<lambda>j. bit_at c1 j \<or> (0 \<le> j \<and> j < 0 + (s - (s - wrap)) \<and> bit_at b (j - 0 + (s - wrap)))))"
      using wf z(2,3) w k nb s_def by (intro rotate_loop_eq) (auto simp: c1_def)
    then show ?thesis unfolding c_def c1_def by (auto intro!: with_bits_cong simp: algebra_simps)
  qed
  have "bit_rotate_copy b n nbits = Some c"
    using wf nb r z(1) zc c1 c w(2) unfolding bit_rotate_copy_def
    by (simp add: wf_bitstr_def bit_size_def k_def [symmetric] s_def [symmetric] wrap_def [symmetric])
  moreover have "clean c"
    using w z(2,3) by (auto simp: c_def clean_with_bits)
  moreover have "bitset c = (\<lambda>j. (j + n) mod nbits) ` bitset b"
  proof (rule set_eqI)
    fix x
    have mem: "x \<in> bitset c \<longleftrightarrow> 0 \<le> x \<and> x < nbits \<and>
        (k \<le> x \<and> x < k + (s - wrap) \<and> bit_at b (x - k) \<or> x < wrap \<and> bit_at b (x + s - wrap))"
      unfolding c_def bitset_with_bits [OF z(2)] z(3) by simp
    have md: "(j + n) mod nbits = (if j < s - wrap then j + k else j + k - nbits)" if "0 \<le> j" "j < s" for j
    proof -
      have "(j + n) mod nbits = (j + k) mod nbits" by (simp add: k_def mod_add_right_eq)
      moreover have "j < s - wrap \<longleftrightarrow> j + k < nbits" using that by (auto simp: wrap_def)
      moreover have "(j + k) mod nbits = j + k - nbits" if "\<not> j + k < nbits"
        using that k \<open>j < s\<close> nb(1) s_def by (intro mod_pos_pos_trivial [of "j + k - nbits" nbits, simplified]) auto
      ultimately show ?thesis using that(1) k by auto
    qed
    have wr: "wrap = 0 \<or> s - wrap = nbits - k" by (auto simp: wrap_def)
    show "x \<in> bitset c \<longleftrightarrow> x \<in> (\<lambda>j. (j + n) mod nbits) ` bitset b"
    proof
      assume "x \<in> bitset c"
      then consider "0 \<le> x - k" "x - k < s - wrap" "bit_at b (x - k)" | "0 \<le> x" "x < wrap" "bit_at b (x + s - wrap)"
        unfolding mem by auto
      then show "x \<in> (\<lambda>j. (j + n) mod nbits) ` bitset b"
      proof cases
        case 1
        then show ?thesis using w md [of "x - k"] by (intro image_eqI [of _ _ "x - k"]) (auto simp: bitset_def s_def)
      next
        case 2
        then have "x + s - wrap + k - nbits = x" using wr by auto
        then show ?thesis
          using 2 w md [of "x + s - wrap"] by (intro image_eqI [of _ _ "x + s - wrap"]) (auto simp: bitset_def s_def)
      qed
    next
      assume "x \<in> (\<lambda>j. (j + n) mod nbits) ` bitset b"
      then obtain j where j: "0 \<le> j" "j < s" "bit_at b j" "x = (if j < s - wrap then j + k else j + k - nbits)"
        using md by (auto simp: bitset_def s_def)
      show "x \<in> bitset c"
      proof (cases "j < s - wrap")
        case True
        then show ?thesis unfolding mem using j w k by auto
      next
        case False
        then have e: "s - wrap = nbits - k" "0 < wrap" using wr j by auto
        then have "x + s - wrap = j" "0 \<le> x" "x < wrap" "x < nbits" using j False w k by auto
        then show ?thesis unfolding mem using j(3) by simp
      qed
    qed
  qed
  ultimately show ?thesis using z by (auto simp: c_def)
qed

lemma bit_rotate_set:
  assumes wf: "wf_bitstr b" and nb: "0 < bs_bits b" and cl: "clean b"
  shows "\<exists>c. bit_rotate b n = Some c \<and> wf_bitstr c \<and> clean c \<and> bs_bits c = bs_bits b \<and>
    bitset c = (\<lambda>j. (j + n) mod bs_bits b) ` bitset b"
proof (cases "n = 0")
  case True
  have "(\<lambda>j. (j + n) mod bs_bits b) ` bitset b = id ` bitset b"
    using bitset_bounds [of b] True by (intro image_cong) auto
  then show ?thesis using True wf cl by (simp add: bit_rotate_def)
next
  case False
  have vs: "valid_size (bs_bits b)" and valid: "bitstr_valid b" using wf by (auto simp: wf_bitstr_def)
  obtain c where c: "bit_rotate_copy b n (bs_bits b) = Some c" "wf_bitstr c" "bs_magic c = BITSTR_MAGIC" "clean c"
      "bs_bits c = bs_bits b" "bitset c = (\<lambda>j. (j + n) mod bs_bits b) ` bitset b"
    using bit_rotate_copy_set [OF wf order_refl nb vs, of n] by blast
  define d where "d = with_bits b (bit_at c)"
  have "bit_rotate b n = Some d"
    using False valid c bit_copybits_eq [OF wf c(2) c(5) [symmetric]]
    by (simp add: bit_rotate_def bit_size_def bit_free_def d_def)
  moreover have "clean d" "bitset d = bitset c"
    using c wf wf_same_cap [OF wf c(2) c(5) [symmetric]]
    by (auto simp: d_def clean_with_bits bitset_with_bits) (auto simp: clean_def bitset_def)
  ultimately show ?thesis using wf c by (auto simp: d_def)
qed

subsection \<open>Picking the first set bits\<close>

text \<open>The state of the picking loops: \<open>new\<close> holds the bits of \<open>b\<close> below \<open>i\<close>, \<open>count\<close> of them.\<close>

definition picked :: "bitstr \<Rightarrow> bitstr \<Rightarrow> int \<Rightarrow> int \<Rightarrow> bool" where
  "picked b new i count \<longleftrightarrow> wf_bitstr new \<and> bs_bits new = bs_bits b \<and> bs_magic new = BITSTR_MAGIC \<and>
     (\<forall>j. 0 \<le> j \<and> j < bit_cap b \<longrightarrow> bit_at new j = (j < i \<and> j < bs_bits b \<and> bit_at b j)) \<and>
     count = count_in (bit_at b) 0 (min i (bs_bits b))"

lemma pick_bits_eq:
  "wf_bitstr b \<Longrightarrow> picked b new i count \<Longrightarrow> 0 \<le> i \<Longrightarrow> i \<le> bs_bits b \<Longrightarrow> count \<le> nbits \<Longrightarrow>
   \<exists>new' i' count'. pick_bits b nbits new i count = Some (new', i', count') \<and> picked b new' i' count' \<and>
     count' \<le> nbits \<and> i' \<le> bs_bits b \<and> (i' = bs_bits b \<or> count' = nbits)"
proof (induction b nbits new i count rule: pick_bits.induct)
  case (1 b nbits new i count)
  show ?case
  proof (cases "i < bs_bits b \<and> count < nbits")
    case False
    then show ?thesis using "1.prems" by (subst pick_bits.simps) auto
  next
    case True
    have t: "bit_test b i = Some (bit_at b i)" using "1.prems" True by (simp add: bit_test_eq)
    have new: "wf_bitstr new" "bs_bits new = bs_bits b" using "1.prems"(2) by (auto simp: picked_def)
    define new' where "new' = with_bits new (\<lambda>j. bit_at new j \<or> (j = i \<and> bit_at b i))"
    have s: "(if bit_at b i then bit_set new i else Some new) = Some new'"
      using "1.prems" True new unfolding new'_def
      by (auto simp: bit_set_eq intro!: with_bits_cong with_bits_id [symmetric])
    have "picked b new' (i + 1) (if bit_at b i then count + 1 else count)"
      using "1.prems" True new count_in_split [of 0 i "i + 1" "bit_at b"] count_in_one [of "bit_at b" i] wf_same_cap [OF new(1) "1.prems"(1) new(2)]
      unfolding picked_def new'_def by auto
    then have "\<exists>new'' i' count'. pick_bits b nbits new' (i + 1) (if bit_at b i then count + 1 else count) = Some (new'', i', count') \<and>
       picked b new'' i' count' \<and> count' \<le> nbits \<and> i' \<le> bs_bits b \<and> (i' = bs_bits b \<or> count' = nbits)"
      using "1.prems" True by (intro "1.IH" [OF True t s]) auto
    then show ?thesis using True t s by (subst pick_bits.simps) simp
  qed
qed

lemma pick_loop_eq:
  "wf_bitstr b \<Longrightarrow> picked b new i count \<Longrightarrow> 0 \<le> i \<Longrightarrow> i mod 64 = 0 \<or> i \<ge> bs_bits b \<or> count = nbits \<Longrightarrow> count \<le> nbits \<Longrightarrow>
   \<exists>new' i' count'. pick_loop b nbits new i count = Some (new', count') \<and> picked b new' i' count' \<and>
     count' \<le> nbits \<and> (i' \<ge> bs_bits b \<or> count' = nbits)"
proof (induction b nbits new i count rule: pick_loop.induct)
  case (1 b nbits new i count)
  show ?case
  proof (cases "i < bs_bits b \<and> count < nbits")
    case False
    then show ?thesis using "1.prems" by (subst pick_loop.simps) auto
  next
    case True
    then have i64: "i mod 64 = 0" using "1.prems" by auto
    have new: "wf_bitstr new" "bs_bits new = bs_bits b" using "1.prems"(2) by (auto simp: picked_def)
    note cap = wf_same_cap [OF new(1) "1.prems"(1) new(2)]
    define w where "w = bs_words b ! nat (i div 64)"
    have ix: "0 \<le> bit_word i" "bit_word i < int (length (bs_words b))"
      using wf_word_index [OF "1.prems"(1,3)] True by auto
    have rd: "c_rd (bs_words b) (bit_word i) = Some w"
      using ix by (simp add: w_def bit_word_def)
    have at: "bit_at b (i + int n) = bit w n" if "n < 64" for n
      unfolding w_def by (rule bit_at_word [OF "1.prems"(3) i64 that])
    have hw: "hweight w = count_in (bit_at b) i (i + 64)" unfolding w_def by (rule hweight_word [OF "1.prems"(3) i64])
    consider (zero) "w = 0" | (whole) "w \<noteq> 0" "count + hweight w \<le> nbits \<and> i + 64 - 1 < bs_bits b"
      | (bits) "w \<noteq> 0" "\<not> (count + hweight w \<le> nbits \<and> i + 64 - 1 < bs_bits b)" by blast
    then show ?thesis
    proof cases
      case zero
      have z: "\<not> bit_at b j" if "i \<le> j" "j < i + 64" for j using zero_wordD [OF zero [unfolded w_def] i64 that] .
      have "count_in (bit_at b) i (min (i + 64) (bs_bits b)) = 0"
        using z by (auto simp: count_in_def)
      then have "picked b new (i + 64) count"
        using "1.prems"(2,3) True z count_in_split [of 0 i "min (i + 64) (bs_bits b)" "bit_at b"]
        unfolding picked_def by (auto simp: not_less)
      then have "\<exists>new' i' count'. pick_loop b nbits new (i + 64) count = Some (new', count') \<and> picked b new' i' count' \<and>
        count' \<le> nbits \<and> (i' \<ge> bs_bits b \<or> count' = nbits)"
        using "1.prems" i64 by (intro "1.IH"(1) [OF True rd zero]) auto
      then show ?thesis using True rd zero by (subst pick_loop.simps) simp
    next
      case whole
      define new' where "new' = with_bits new (\<lambda>j. if i \<le> j \<and> j < i + 64 then bit_at b j else bit_at new j)"
      have upd: "new\<lparr>bs_words := (bs_words new)[nat (i div 64) := w]\<rparr> = new'"
        unfolding new'_def
      proof (rule words_upd_eq [OF "1.prems"(3)])
        show "i < bit_cap new" using True wf_bits_cap [OF "1.prems"(1)] cap by simp
        show "bit w n = (if i \<le> 64 * (i div 64) + int n \<and> 64 * (i div 64) + int n < i + 64
            then bit_at b (64 * (i div 64) + int n) else bit_at new (64 * (i div 64) + int n))" if "n < 64" for n
          using that at by (simp add: mult64_div [OF i64])
        show "(if i \<le> j \<and> j < i + 64 then bit_at b j else bit_at new j) = bit_at new j" if "j div 64 \<noteq> i div 64" for j
          using that by (auto simp: div64_range [OF i64])
      qed
      have "(bs_words new)[nat (i div 64) := w] = bs_words new'" using arg_cong [OF upd, of bs_words] by simp
      then have wr: "c_wr (bs_words new) (bit_word i) w = Some (bs_words new')" "new\<lparr>bs_words := bs_words new'\<rparr> = new'"
        using ix wf_same_length [OF new(1) "1.prems"(1) new(2)] upd by (simp_all add: bit_word_def)
      have "picked b new' (i + 64) (count + hweight w)"
        using "1.prems"(2,3) whole new cap hw count_in_split [of 0 i "i + 64" "bit_at b"]
        unfolding picked_def new'_def by (auto simp: not_less)
      then have "\<exists>new'' i' count'. pick_loop b nbits new' (i + 64) (count + hweight w) = Some (new'', count') \<and> picked b new'' i' count' \<and>
        count' \<le> nbits \<and> (i' \<ge> bs_bits b \<or> count' = nbits)"
        using "1.prems" i64 whole wr(2) "1.IH"(2) [OF True rd whole(1) refl whole(2) wr(1)] by auto
      then show ?thesis using True rd whole wr by (subst pick_loop.simps) (simp add: Let_def)
    next
      case bits
      obtain new' i' count' where p: "pick_bits b nbits new i count = Some (new', i', count')" "picked b new' i' count'"
          "count' \<le> nbits" "i' \<le> bs_bits b" "i' = bs_bits b \<or> count' = nbits"
        using pick_bits_eq [OF "1.prems"(1-3) _ "1.prems"(5)] True by auto
      have "0 \<le> i'" using pick_bits_mono [OF p(1)] "1.prems"(3) by simp
      then have "\<exists>new'' i'' count''. pick_loop b nbits new' i' count' = Some (new'', count'') \<and> picked b new'' i'' count'' \<and>
        count'' \<le> nbits \<and> (i'' \<ge> bs_bits b \<or> count'' = nbits)"
        using "1.prems"(1) p by (intro "1.IH"(3) [OF True rd bits(1) refl bits(2) p(1) refl refl]) auto
      moreover have "pick_loop b nbits new i count = pick_loop b nbits new' i' count'"
        using True rd bits(1) p(1) by (subst pick_loop.simps) (simp only: Let_def if_not_P [OF bits(2)] bind.bind_lunit prod.case if_True if_False simp_thms)
      ultimately show ?thesis by simp
    qed
  qed
qed

lemma bit_pick_cnt_set:
  assumes wf: "wf_bitstr b" and n: "0 \<le> n"
  shows "if int (card (bitset b)) < n then bit_pick_cnt b n = Some None
    else \<exists>c. bit_pick_cnt b n = Some (Some c) \<and> wf_bitstr c \<and> clean c \<and> bs_bits c = bs_bits b \<and>
      int (card (bitset c)) = n \<and> (\<exists>i. bitset c = {j \<in> bitset b. j < i})"
proof (cases "bs_bits b < n")
  case True
  have "card (bitset b) \<le> card {0..<bs_bits b}" using bitset_bounds by (intro card_mono) auto
  then have "int (card (bitset b)) \<le> bs_bits b" using wf_bits_cap [OF wf] by (simp add: nat_int_comparison)
  then have "int (card (bitset b)) < n" using True by simp
  then show ?thesis using True wf by (simp add: bit_pick_cnt_def wf_bitstr_def)
next
  case False
  have vs: "valid_size (bs_bits b)" and valid: "bitstr_valid b" using wf by (auto simp: wf_bitstr_def)
  obtain z where z: "bit_alloc (bs_bits b) = Some z" "wf_bitstr z" "bs_bits z = bs_bits b" "bs_magic z = BITSTR_MAGIC"
      "\<forall>j. 0 \<le> j \<and> j < bit_cap z \<longrightarrow> \<not> bit_at z j"
    using vs by (rule bit_allocE)
  have "picked b z 0 0"
    using z wf_same_cap [OF z(2) wf z(3)] wf_bits_cap [OF wf] by (auto simp: picked_def min_def)
  then obtain new i count where p: "pick_loop b n z 0 0 = Some (new, count)" "picked b new i count" "count \<le> n"
      "i \<ge> bs_bits b \<or> count = n"
    using pick_loop_eq [OF wf, of z 0 0 n] n by auto
  have new: "wf_bitstr new" "bs_bits new = bs_bits b" "bs_magic new = BITSTR_MAGIC" using p(2) by (auto simp: picked_def)
  have eq: "bit_pick_cnt b n = (if count < n then Some None else Some (Some new))"
    using False valid z(1) p(1) new by (simp add: bit_pick_cnt_def bit_size_def bit_free_def)
  have set: "bitset new = {j \<in> bitset b. j < i}" and cl: "clean new"
    using p(2) wf_bits_cap [OF wf] wf_same_cap [OF new(1) wf new(2)] by (auto simp: picked_def bitset_def clean_def)
  have "{j \<in> bitset b. j < i} = {j. 0 \<le> j \<and> j < min i (bs_bits b) \<and> bit_at b j}" by (auto simp: bitset_def)
  then have card: "int (card (bitset new)) = count" using p(2) by (simp add: set picked_def count_in_def)
  have le: "card (bitset new) \<le> card (bitset b)" unfolding set by (intro card_mono) auto
  show ?thesis
  proof (cases "count < n")
    case True
    then have "bitset new = bitset b" using p(4) bitset_bounds [of b] unfolding set by auto
    then show ?thesis using True card eq by simp
  next
    case False
    then have "count = n" using p(3) by simp
    then show ?thesis using eq new set cl card le by auto
  qed
qed

subsection \<open>Rank and selection\<close>

lemma bit_num_loop_eq:
  "wf_bitstr b \<Longrightarrow> 0 \<le> i \<Longrightarrow> i \<le> bs_bits b \<Longrightarrow> cnt = count_in (bit_at b) 0 i \<Longrightarrow> cnt \<le> pos \<Longrightarrow>
   \<exists>v. bit_num_loop b pos i cnt = Some v \<and>
     (i \<le> v \<and> v < bs_bits b \<and> bit_at b v \<and> count_in (bit_at b) 0 v = pos \<or>
      v = bs_bits b \<and> count_in (bit_at b) 0 (bs_bits b) \<le> pos)"
proof (induction b pos i cnt rule: bit_num_loop.induct)
  case (1 b pos i cnt)
  show ?case
  proof (cases "i < bs_bits b \<and> \<not> (bit_at b i \<and> cnt = pos)")
    case False
    then show ?thesis using "1.prems" by (subst bit_num_loop.simps) (auto simp: bit_test_eq)
  next
    case True
    have t: "bit_test b i = Some (bit_at b i)" using "1.prems" True by (simp add: bit_test_eq)
    have c: "(if bit_at b i then cnt + 1 else cnt) = count_in (bit_at b) 0 (i + 1)"
      using "1.prems" count_in_split [of 0 i "i + 1" "bit_at b"] by (simp add: count_in_one)
    have "\<exists>v. bit_num_loop b pos (i + 1) (if bit_at b i then cnt + 1 else cnt) = Some v \<and>
     (i + 1 \<le> v \<and> v < bs_bits b \<and> bit_at b v \<and> count_in (bit_at b) 0 v = pos \<or>
      v = bs_bits b \<and> count_in (bit_at b) 0 (bs_bits b) \<le> pos)"
      using "1.prems" True c by (intro "1.IH" [OF _ t]) (auto split: if_splits)
    moreover have "bit_num_loop b pos i cnt = bit_num_loop b pos (i + 1) (if bit_at b i then cnt + 1 else cnt)"
      using True t by (subst bit_num_loop.simps) auto
    ultimately show ?thesis by fastforce
  qed
qed

lemma bit_get_pos_num_eq:
  assumes "wf_bitstr b" "0 \<le> pos" "pos < bs_bits b"
  shows "bit_get_pos_num b pos = Some (if pos \<in> bitset b then int (card {j \<in> bitset b. j < pos}) else - 1)"
proof -
  have "{j \<in> bitset b. j < pos} = {j. 0 \<le> j \<and> j < pos \<and> bit_at b j}" using assms by (auto simp: bitset_def)
  then have "count_in (bit_at b) 0 pos = int (card {j \<in> bitset b. j < pos})" by (simp add: count_in_def)
  moreover have "count_bits b 0 (pos + 1) (- 1) = Some (- 1 + count_in (bit_at b) 0 (pos + 1))"
    using assms by (intro count_bits_eq) auto
  ultimately show ?thesis
    using assms count_in_split [of 0 pos "pos + 1" "bit_at b"]
    by (simp add: bit_get_pos_num_def bit_test_eq count_in_one wf_bitstr_def bit_at_bitset)
qed

lemma bit_get_bit_num_eq:
  assumes "wf_bitstr b" "0 \<le> pos" "pos \<le> bs_bits b"
  shows "\<exists>v. bit_get_bit_num b pos = Some v \<and>
    (if pos < int (card (bitset b)) then v \<in> bitset b \<and> int (card {j \<in> bitset b. j < v}) = pos else v = - 1)"
proof -
  have n: "0 \<le> bs_bits b" using wf_bits_cap [OF assms(1)] by simp
  obtain v where v: "bit_num_loop b pos 0 0 = Some v"
    "0 \<le> v \<and> v < bs_bits b \<and> bit_at b v \<and> count_in (bit_at b) 0 v = pos \<or>
      v = bs_bits b \<and> count_in (bit_at b) 0 (bs_bits b) \<le> pos"
    using bit_num_loop_eq [OF assms(1), of 0 0 pos] assms(2) n by auto
  have valid: "bitstr_valid b" using assms by (simp add: wf_bitstr_def)
  show ?thesis
  proof (cases "v < bs_bits b")
    case True
    then have v2: "v \<in> bitset b" "count_in (bit_at b) 0 v = pos" using v(2) by (auto simp: bitset_def)
    have s: "{j \<in> bitset b. j < v} = {j. 0 \<le> j \<and> j < v \<and> bit_at b j}" using True by (auto simp: bitset_def)
    have "card {j \<in> bitset b. j < v} < card (bitset b)" using v2(1) by (intro psubset_card_mono) auto
    then show ?thesis using v(1) v2 True valid assms(3) s by (auto simp: bit_get_bit_num_def count_in_def)
  next
    case False
    then show ?thesis using v valid assms(3) by (auto simp: bit_get_bit_num_def count_in_bitset)
  qed
qed

subsection \<open>Properties\<close>

text \<open>C33 (equivalence): the population counts, computed with one weight per whole word and single
  tests for the rest, are the cardinalities of the set, of its part in a range, of the
  overlap of two sets and of the complement, whatever the slack bits of the last word hold.\<close>

theorem bit_counts_exact:
  assumes "wf_bitstr a" "wf_bitstr b" "bs_bits a = bs_bits b" "0 \<le> start" "start < bs_bits a"
  shows "bit_set_count a = Some (int (card (bitset a))) \<and>
    bit_set_count_range a start stop = Some (int (card (bitset a \<inter> {start..<stop}))) \<and>
    bit_overlap a b = Some (int (card (bitset a \<inter> bitset b))) \<and>
    bit_clear_count a = Some (int (card ({0..<bs_bits a} - bitset a)))"
  using assms by (simp add: bit_set_count_eq bit_set_count_range_eq bit_overlap_eq bit_clear_count_eq)

theorem bit_counts_exact_witness:
  "bit_set_count ten_bits = Some 4 \<and> bit_set_count_range ten_bits 1 9 = Some 2 \<and> bit_overlap ten_bits ten_bits = Some 4"
proof -
  have "{0, 2, 3, 9} \<inter> {1..<9} = {2, 3 :: int}" by auto
  then show ?thesis using bit_counts_exact [of ten_bits ten_bits 1 9] by simp
qed

text \<open>\<open>bit_nset_max_count\<close> returns the length of a longest run of set bits; the
  early exit, taken when fewer bits are left than the longest run so far, loses none.\<close>

theorem bit_longest_run:
  assumes "wf_bitstr b"
  shows "\<exists>m. bit_nset_max_count b = Some m \<and> 0 \<le> m \<and>
     (\<exists>p. 0 \<le> p \<and> p + m \<le> bs_bits b \<and> {p..<p + m} \<subseteq> bitset b) \<and>
     (\<forall>n p. 0 \<le> p \<and> 0 \<le> n \<and> p + n \<le> bs_bits b \<and> {p..<p + n} \<subseteq> bitset b \<longrightarrow> n \<le> m)"
proof -
  have "run (bit_at b) n p = ({p..<p + n} \<subseteq> bitset b)" if "0 \<le> p" "p + n \<le> bs_bits b" for n p
    using that by (auto simp: run_def bitset_def)
  then show ?thesis using bit_nset_max_count_eq [OF assms] by (metis (no_types, lifting))
qed

theorem bit_longest_run_witness:
  "\<exists>m. bit_nset_max_count ten_bits = Some m \<and> 0 \<le> m \<and>
     (\<exists>p. 0 \<le> p \<and> p + m \<le> bs_bits ten_bits \<and> {p..<p + m} \<subseteq> bitset ten_bits) \<and>
     (\<forall>n p. 0 \<le> p \<and> 0 \<le> n \<and> p + n \<le> bs_bits ten_bits \<and> {p..<p + n} \<subseteq> bitset ten_bits \<longrightarrow> n \<le> m)"
  by (rule bit_longest_run) simp

text \<open>\<open>bit_rotate_copy\<close> into a string of \<open>nbits \<ge> bit_size\<close> bits moves bit \<open>j\<close> to
  \<open>(j + n) mod nbits\<close>, for negative and oversized distances too: it returns, drops no bit and
  sets no other. In particular rotating by \<open>n\<close> and then by \<open>- n\<close> restores the set.\<close>

theorem bit_rotate_moves:
  assumes "wf_bitstr b" "bs_bits b \<le> nbits" "0 < nbits" "valid_size nbits"
  shows "\<exists>c d. bit_rotate_copy b n nbits = Some c \<and> bitset c = (\<lambda>j. (j + n) mod nbits) ` bitset b \<and>
    card (bitset c) = card (bitset b) \<and>
    bit_rotate_copy c (- n) nbits = Some d \<and> bitset d = bitset b"
proof -
  obtain c where c: "bit_rotate_copy b n nbits = Some c" "wf_bitstr c" "bs_bits c = nbits"
      "bitset c = (\<lambda>j. (j + n) mod nbits) ` bitset b"
    using bit_rotate_copy_set [OF assms] by blast
  obtain d where d: "bit_rotate_copy c (- n) nbits = Some d" "bitset d = (\<lambda>j. (j + (- n)) mod nbits) ` bitset c"
    using bit_rotate_copy_set [OF c(2) _ assms(3,4), of "- n"] c(3) by auto
  have undo: "((j + n) mod nbits + (- n)) mod nbits = j" if "j \<in> bitset b" for j
    using that assms(2,3) by (simp add: bitset_def mod_diff_left_eq)
  have "bitset d = id ` bitset b"
    unfolding d(2) c(4) image_image using undo by (intro image_cong) auto
  moreover have "card (bitset c) = card (bitset b)"
    unfolding c(4) by (rule card_image) (metis (no_types, lifting) undo inj_onI)
  ultimately show ?thesis using c d by auto
qed

theorem bit_rotate_moves_witness:
  "\<exists>c d. bit_rotate_copy ten_bits (- 13) 12 = Some c \<and> bitset c = {1, 2, 8, 11} \<and>
    bit_rotate_copy c 13 12 = Some d \<and> bitset d = {0, 2, 3, 9}"
proof -
  have "(\<lambda>j. (j + (- 13)) mod 12) ` {0, 2, 3, 9} = {1, 2, 8, 11 :: int}" by auto
  then show ?thesis using bit_rotate_moves [of ten_bits 12 "- 13"] by (auto simp: valid_size_def)
qed

text \<open>\<open>bit_pick_cnt\<close> returns the null pointer exactly when fewer than \<open>n\<close> bits
  are set; otherwise the result holds the \<open>n\<close> lowest set positions and nothing else, although
  whole words are copied at once.\<close>

theorem bit_pick_lowest:
  assumes "wf_bitstr b" "0 \<le> n"
  shows "if int (card (bitset b)) < n then bit_pick_cnt b n = Some None
    else \<exists>c. bit_pick_cnt b n = Some (Some c) \<and> wf_bitstr c \<and> clean c \<and> bs_bits c = bs_bits b \<and>
      bitset c \<subseteq> bitset b \<and> int (card (bitset c)) = n \<and> (\<forall>x \<in> bitset c. \<forall>y \<in> bitset b - bitset c. x < y)"
  using bit_pick_cnt_set [OF assms] by (auto split: if_splits)

theorem bit_pick_lowest_witness:
  "bit_pick_cnt ten_bits 5 = Some None \<and>
   (\<exists>c. bit_pick_cnt ten_bits 3 = Some (Some c) \<and> bitset c \<subseteq> {0, 2, 3, 9} \<and> card (bitset c) = 3)"
  using bit_pick_lowest [of ten_bits 5] bit_pick_lowest [of ten_bits 3] by (auto split: if_splits)

text \<open>\<open>bit_get_pos_num\<close> (the rank of a set bit) and \<open>bit_get_bit_num\<close> (the bit of a
  given rank) are inverse to each other.\<close>

theorem bit_rank_select:
  assumes "wf_bitstr b" "i \<in> bitset b"
  shows "\<exists>k. bit_get_pos_num b i = Some k \<and> 0 \<le> k \<and> k < int (card (bitset b)) \<and> bit_get_bit_num b k = Some i"
proof -
  define k where "k = int (card {j \<in> bitset b. j < i})"
  have i: "0 \<le> i" "i < bs_bits b" using assms(2) by (auto simp: bitset_def)
  have "card {j \<in> bitset b. j < i} < card (bitset b)" using assms(2) by (intro psubset_card_mono) auto
  then have k: "0 \<le> k" "k < int (card (bitset b))" by (simp_all add: k_def)
  have "card (bitset b) \<le> card {0..<bs_bits b}" using bitset_bounds by (intro card_mono) auto
  then have "k \<le> bs_bits b" using k i by simp
  then obtain v where v: "bit_get_bit_num b k = Some v" "v \<in> bitset b" "int (card {j \<in> bitset b. j < v}) = k"
    using bit_get_bit_num_eq [OF assms(1) k(1)] k(2) by auto
  have less: "card {j \<in> bitset b. j < x} < card {j \<in> bitset b. j < y}" if "x \<in> bitset b" "x < y" for x y
    using that by (intro psubset_card_mono) auto
  have "v = i" using less [OF v(2), of i] less [OF assms(2), of v] v(3) k_def by linarith
  then show ?thesis using v(1) k bit_get_pos_num_eq [OF assms(1) i] assms(2) by (simp add: k_def)
qed

theorem bit_rank_select_witness:
  "\<exists>k. bit_get_pos_num ten_bits 3 = Some k \<and> 0 \<le> k \<and> k < 4 \<and> bit_get_bit_num ten_bits k = Some 3"
  using bit_rank_select [of ten_bits 3] by simp

end
