(* ===== verification/Bitstring_Fmt.thy ===== *)
theory Bitstring_Fmt
  imports Bitstring_Search
begin

section \<open>Bit strings as text (\<open>src/common/bitstring.c\<close>)\<close>

text \<open>
  The conversions of bit strings to and from lists of ranges (\<open>0-5,42\<close>), arrays of index pairs ended by
  \<open>-1\<close>, and hexadecimal or binary masks. C strings are HOL strings without the null byte; a null pointer is \<open>None\<close> inside
  the result. Formatted numbers are below \<open>2 ^ 31\<close>, as sizes of bit strings are, and so are the sums that the parser
  computes from them; on a number with more digits the parser overflows, which is undefined in C and
  not modelled. The arrays that the code allocates are lists.
\<close>

subsection \<open>Numbers\<close>

definition digit_char :: "nat \<Rightarrow> char" where
  "digit_char n = char_of (48 + n)"

fun show_nat :: "nat \<Rightarrow> string" where
  "show_nat n = (if n < 10 then [digit_char n] else show_nat (n div 10) @ [digit_char (n mod 10)])"

declare show_nat.simps [simp del]

text \<open>The conversion \<open>%ld\<close> of \<open>printf\<close>.\<close>

definition show_int :: "int \<Rightarrow> string" where
  "show_int i = (if i < 0 then CHR ''-'' # show_nat (nat (- i)) else show_nat (nat i))"

definition is_digit :: "char \<Rightarrow> bool" where
  "is_digit c \<longleftrightarrow> (48 :: nat) \<le> of_char c \<and> of_char c \<le> (57 :: nat)"

definition digit_val :: "char \<Rightarrow> int" where
  "digit_val c = int (of_char c) - 48"

text \<open>\<open>strtol\<close> in base ten: the value, limited to \<open>long\<close>, and the rest of the string, the whole string if there
  is no number. \<open>s32\<close> is the conversion to \<open>int32_t\<close>.\<close>

definition strtol :: "string \<Rightarrow> int \<times> string" where
  "strtol s = (let t = dropWhile (\<lambda>c. of_char c \<in> {9, 10, 11, 12, 13, 32 :: nat}) s;
     neg = (t \<noteq> [] \<and> hd t = CHR ''-'');
     t = (if t \<noteq> [] \<and> hd t \<in> {CHR ''-'', CHR ''+''} then tl t else t);
     ds = takeWhile is_digit t;
     v = foldl (\<lambda>n c. n * 10 + digit_val c) 0 ds
   in if ds = [] then (0, s)
      else (max (- (2 ^ 63)) (min (2 ^ 63 - 1) (if neg then - v else v)), dropWhile is_digit t))"

definition s32 :: "int \<Rightarrow> int" where
  "s32 x = (x + 2 ^ 31) mod 2 ^ 32 - 2 ^ 31"

subsection \<open>Ranges\<close>

text \<open>The inner \<open>while\<close> loop of the formatting functions: the end of the run that begins at \<open>b\<close>.\<close>

function run_end :: "bitstr \<Rightarrow> int \<Rightarrow> int \<Rightarrow> int option" where
  "run_end b fini_bit i =
     (if i + 1 < fini_bit then do { t \<leftarrow> bit_test b (i + 1); if t then run_end b fini_bit (i + 1) else Some i }
      else Some i)"
  by pat_completeness auto
termination
  by (relation "measure (\<lambda>(b, fini_bit, i). nat (fini_bit - i))") auto

declare run_end.simps [simp del]

lemma run_end_ge: "run_end b fini_bit i = Some e \<Longrightarrow> i \<le> e"
proof (induction b fini_bit i rule: run_end.induct)
  case (1 b fini_bit i)
  then show ?case by (subst (asm) run_end.simps) (fastforce split: if_splits Option.bind_splits)
qed

text \<open>The loop that \<open>bit_fmt_full\<close> and \<open>bit_fmt_range\<close> share; it skips 64 positions when the current word is zero.\<close>

definition range_text :: "int \<Rightarrow> int \<Rightarrow> string" where
  "range_text start stop = (if start = stop then show_int start else show_int start @ ''-'' @ show_int stop)"

function fmt_loop :: "bitstr \<Rightarrow> int \<Rightarrow> int \<Rightarrow> int \<Rightarrow> string option \<Rightarrow> string \<Rightarrow> string option option" where
  "fmt_loop b offset fini_bit i str comma =
     (if i < fini_bit then do {
        w \<leftarrow> c_rd (bs_words b) (bit_word i);
        if w = 0 then fmt_loop b offset fini_bit (i + 64) str comma
        else do {
          t \<leftarrow> bit_test b i;
          if t then do {
            e \<leftarrow> run_end b fini_bit i;
            let str = (case str of None \<Rightarrow> '''' | Some s \<Rightarrow> s) @ comma @ range_text (i - offset) (e - offset);
            fmt_loop b offset fini_bit (e + 1) (Some str) '',''
          } else fmt_loop b offset fini_bit (i + 1) str comma
        }
      } else Some str)"
  by pat_completeness auto
termination
  by (relation "measure (\<lambda>(b, offset, fini_bit, i, str, comma). nat (fini_bit - i))") (auto dest!: run_end_ge)

declare fmt_loop.simps [simp del]

definition bit_fmt_full :: "bitstr \<Rightarrow> string option option" where
  "bit_fmt_full b = do { c_assert (bitstr_valid b); fmt_loop b 0 (bs_bits b) 0 None '''' }"

definition bit_fmt_range :: "bitstr \<Rightarrow> int \<Rightarrow> int \<Rightarrow> string option option" where
  "bit_fmt_range b offset len = do {
     c_assert (bitstr_valid b);
     fmt_loop b offset (min (bs_bits b) (offset + len)) offset None ''''
   }"

text \<open>\<open>bit_fmt\<close> prints into an array of \<open>len\<close> bytes with \<open>snprintf\<close>, which cuts what does not fit, and
  overwrites the last character at the end; with an empty string that would be the byte before the array.\<close>

function fmt_buf_loop :: "int \<Rightarrow> bitstr \<Rightarrow> int \<Rightarrow> string \<Rightarrow> int \<Rightarrow> (string \<times> int) option" where
  "fmt_buf_loop len b i str count =
     (if i < bs_bits b then do {
        w \<leftarrow> c_rd (bs_words b) (bit_word i);
        if w = 0 then fmt_buf_loop len b (i + 64) str count
        else do {
          t \<leftarrow> bit_test b i;
          if t then do {
            e \<leftarrow> run_end b (bs_bits b) i;
            fmt_buf_loop len b (e + 1) (take (nat len - 1) (str @ range_text i e @ '','')) (count + (e - i + 1))
          } else fmt_buf_loop len b (i + 1) str count
        }
      } else Some (str, count))"
  by pat_completeness auto
termination
  by (relation "measure (\<lambda>(len, b, i, str, count). nat (bs_bits b - i))") (auto dest!: run_end_ge)

declare fmt_buf_loop.simps [simp del]

definition bit_fmt :: "int \<Rightarrow> bitstr \<Rightarrow> string option" where
  "bit_fmt len b = do {
     c_assert (bitstr_valid b);
     c_assert (0 < len);
     (str, count) \<leftarrow> fmt_buf_loop len b 0 '''' 0;
     if 0 < count then do { c_assert (str \<noteq> ''''); Some (butlast str) } else Some str
   }"

text \<open>The loop of \<open>bitfmt2int\<close>; the null byte that ends the string is part of its input, and \<open>first\<close> says that \<open>i\<close>
  is zero. The pairs found so far are in \<open>acc\<close>.\<close>

fun bitfmt_loop :: "string \<Rightarrow> bool \<Rightarrow> int \<Rightarrow> int \<Rightarrow> int list \<Rightarrow> int list" where
  "bitfmt_loop [] first sum_val start_val acc = acc"
| "bitfmt_loop (c # cs) first sum_val start_val acc =
     (if is_digit c then bitfmt_loop cs False (sum_val * 10 + digit_val c) start_val acc
      else if c = CHR ''-'' then bitfmt_loop cs False 0 sum_val acc
      else if c = CHR '','' \<or> c = CHR 0x00 then
        (if first then acc
         else bitfmt_loop cs False 0 (- 1) (acc @ [if start_val = - 1 then sum_val else start_val, sum_val]))
      else bitfmt_loop cs False sum_val start_val acc)"

function step_loop :: "int \<Rightarrow> int \<Rightarrow> int \<Rightarrow> int list" where
  "step_loop i end_task_id step = (if i < end_task_id \<and> 0 < step then i # i # step_loop (i + step) end_task_id step else [])"
  by pat_completeness auto
termination
  by (relation "measure (\<lambda>(i, end_task_id, step). nat (end_task_id - i))") auto

declare step_loop.simps [simp del]

definition bitfmt2int :: "string \<Rightarrow> int list option" where
  "bitfmt2int str =
     (if CHR '':'' \<notin> set str then Some (bitfmt_loop (str @ [CHR 0x00]) True 0 (- 1) [] @ [- 1])
      else let (start_task_id, tmp) = strtol str in
        if tmp = [] \<or> hd tmp \<noteq> CHR ''-'' then None
        else let (end_task_id, tmp) = strtol (tl tmp) in
        if tmp = [] \<or> hd tmp \<noteq> CHR '':'' then None
        else let (step, tmp) = strtol (tl tmp) in
        if tmp \<noteq> [] then None
        else if s32 end_task_id < s32 start_task_id \<or> s32 step \<le> 0 then None
        else Some (step_loop (s32 start_task_id) (s32 end_task_id) (s32 step) @ [- 1]))"

fun inx_loop :: "bitstr \<Rightarrow> int list \<Rightarrow> (bitstr \<times> int) option" where
  "inx_loop b [] = None"
| "inx_loop b [p] = (if p = - 1 then Some (b, 0) else None)"
| "inx_loop b (p # q # inx) =
     (if p = - 1 then Some (b, 0)
      else if p < 0 \<or> p \<ge> bs_bits b \<or> q < 0 \<or> q \<ge> bs_bits b then Some (b, - 1)
      else do { b \<leftarrow> bit_nset b p q; inx_loop b inx })"

definition inx2bitstr :: "bitstr \<Rightarrow> int list \<Rightarrow> (bitstr \<times> int) option" where
  "inx2bitstr b inx = do { b \<leftarrow> bit_nclear b 0 (bs_bits b - 1); inx_loop b inx }"

definition bit_unfmt :: "bitstr \<Rightarrow> string option \<Rightarrow> (bitstr \<times> int) option" where
  "bit_unfmt b str = do {
     c_assert (bitstr_valid b);
     (case str of
        None \<Rightarrow> Some (b, 0)
      | Some s \<Rightarrow> if s = '''' then Some (b, 0)
          else (case bitfmt2int s of None \<Rightarrow> Some (b, - 1) | Some intvec \<Rightarrow> inx2bitstr b intvec))
   }"

function inx_runs_loop :: "bitstr \<Rightarrow> int \<Rightarrow> int list option" where
  "inx_runs_loop b i =
     (if i < bs_bits b then do {
        w \<leftarrow> c_rd (bs_words b) (bit_word i);
        if w = 0 then inx_runs_loop b (i + 64)
        else do {
          t \<leftarrow> bit_test b i;
          if t then do {
            e \<leftarrow> run_end b (bs_bits b) i;
            inx \<leftarrow> inx_runs_loop b (e + 1);
            Some (i # e # inx)
          } else inx_runs_loop b (i + 1)
        }
      } else Some [- 1])"
  by pat_completeness auto
termination
  by (relation "measure (\<lambda>(b, i). nat (bs_bits b - i))") (auto dest!: run_end_ge)

declare inx_runs_loop.simps [simp del]

definition bitstr2inx :: "bitstr option \<Rightarrow> int list option" where
  "bitstr2inx b = (case b of None \<Rightarrow> Some [- 1] | Some b \<Rightarrow> inx_runs_loop b 0)"

fun inx_text_loop :: "int list \<Rightarrow> string option \<Rightarrow> string option option" where
  "inx_text_loop [] str = None"
| "inx_text_loop [p] str = (if p \<ge> 0 then None else Some str)"
| "inx_text_loop (p # q # inx) str =
     (if p \<ge> 0 then inx_text_loop inx (Some (case str of
          None \<Rightarrow> show_int p @ ''-'' @ show_int q
        | Some s \<Rightarrow> s @ '','' @ show_int p @ ''-'' @ show_int q))
      else Some str)"

definition inx2bitfmt :: "int list option \<Rightarrow> string option option" where
  "inx2bitfmt inx = (case inx of None \<Rightarrow> Some None | Some inx \<Rightarrow> inx_text_loop inx None)"

subsection \<open>Masks\<close>

text \<open>The character of four bits from \<open>i\<close> on; positions behind the end count as clear.\<close>

definition hex_char :: "nat \<Rightarrow> char" where
  "hex_char n = (if n \<le> 9 then char_of (n + 48) else char_of (n + 55))"

definition test_in :: "bitstr \<Rightarrow> int \<Rightarrow> nat \<Rightarrow> nat option" where
  "test_in b i v = (if i < bs_bits b then map_option (\<lambda>t. if t then v else 0) (bit_test b i) else Some 0)"

function hexmask_loop :: "bitstr \<Rightarrow> int \<Rightarrow> string \<Rightarrow> string option" where
  "hexmask_loop b i str =
     (if i < bs_bits b then do {
        b0 \<leftarrow> test_in b i 1;
        b1 \<leftarrow> test_in b (i + 1) 2;
        b2 \<leftarrow> test_in b (i + 2) 4;
        b3 \<leftarrow> test_in b (i + 3) 8;
        hexmask_loop b (min (i + 4) (bs_bits b)) (hex_char (b0 + b1 + b2 + b3) # str)
      } else Some str)"
  by pat_completeness auto
termination
  by (relation "measure (\<lambda>(b, i, str). nat (bs_bits b - i))") auto

declare hexmask_loop.simps [simp del]

definition bit_fmt_hexmask :: "bitstr \<Rightarrow> string option" where
  "bit_fmt_hexmask b = do { n \<leftarrow> bit_size b; map_option (\<lambda>s. ''0x'' @ s) (hexmask_loop b 0 '''') }"

text \<open>\<open>isxdigit\<close> with the value of the digit.\<close>

definition hex_val :: "char \<Rightarrow> int option" where
  "hex_val c = (let n = int (of_char c) in
     if 48 \<le> n \<and> n \<le> 57 then Some (n - 48)
     else if 65 \<le> n \<and> n \<le> 70 then Some (n - 55)
     else if 97 \<le> n \<and> n \<le> 102 then Some (n - 87)
     else None)"

definition set_if :: "bool \<Rightarrow> bitstr \<Rightarrow> int \<Rightarrow> bitstr option" where
  "set_if t b i = (if t \<and> i < bs_bits b then bit_set b i else Some b)"

text \<open>The loops run from the last character to the first; their input is the reversed string.\<close>

fun unhex_loop :: "string \<Rightarrow> bitstr \<Rightarrow> int \<Rightarrow> int \<Rightarrow> (bitstr \<times> int) option" where
  "unhex_loop [] b bit_index rc = Some (b, rc)"
| "unhex_loop (c # cs) b bit_index rc = do {
     let (current, rc) = (case hex_val c of Some v \<Rightarrow> (v, rc) | None \<Rightarrow> (0, - 1));
     b \<leftarrow> set_if (odd current) b bit_index;
     b \<leftarrow> set_if (odd (current div 2)) b (bit_index + 1);
     b \<leftarrow> set_if (odd (current div 4)) b (bit_index + 2);
     b \<leftarrow> set_if (odd (current div 8)) b (bit_index + 3);
     unhex_loop cs b (bit_index + 4) rc
   }"

definition bit_unfmt_hexmask :: "bitstr \<Rightarrow> string \<Rightarrow> (bitstr \<times> int) option" where
  "bit_unfmt_hexmask b str = do {
     bitsize \<leftarrow> bit_size b;
     b \<leftarrow> bit_nclear b 0 (bitsize - 1);
     unhex_loop (rev (if take 2 str = ''0x'' then drop 2 str else str)) b 0 0
   }"

function binmask_loop :: "bitstr \<Rightarrow> int \<Rightarrow> string \<Rightarrow> string option" where
  "binmask_loop b i str =
     (if i < bs_bits b then do {
        t \<leftarrow> bit_test b i;
        binmask_loop b (i + 1) ((if t then CHR ''1'' else CHR ''0'') # str)
      } else Some str)"
  by pat_completeness auto
termination
  by (relation "measure (\<lambda>(b, i, str). nat (bs_bits b - i))") auto

declare binmask_loop.simps [simp del]

definition bit_fmt_binmask :: "bitstr \<Rightarrow> string option" where
  "bit_fmt_binmask b = do { n \<leftarrow> bit_size b; binmask_loop b 0 '''' }"

fun unbin_loop :: "string \<Rightarrow> bitstr \<Rightarrow> int \<Rightarrow> bitstr option" where
  "unbin_loop [] b bit_index = Some b"
| "unbin_loop (c # cs) b bit_index = do {
     b \<leftarrow> set_if (odd (int (of_char c) - 48)) b bit_index;
     unbin_loop cs b (bit_index + 1)
   }"

definition bit_unfmt_binmask :: "bitstr \<Rightarrow> string \<Rightarrow> bitstr option" where
  "bit_unfmt_binmask b str = do {
     bitsize \<leftarrow> bit_size b;
     b \<leftarrow> bit_nclear b 0 (bitsize - 1);
     unbin_loop (rev str) b 0
   }"

text \<open>Formatted numbers are read back.\<close>

lemma digit_char_simps:
  assumes "n < 10"
  shows "is_digit (digit_char n)" "digit_val (digit_char n) = int n" "digit_char n \<noteq> CHR '':''"
  using assms by (auto simp: is_digit_def digit_val_def digit_char_def dest!: arg_cong [of _ _ "of_char :: char \<Rightarrow> nat"])

lemma show_nat_chars: "c \<in> set (show_nat n) \<Longrightarrow> is_digit c"
proof (induction n rule: show_nat.induct)
  case (1 n)
  then show ?case using digit_char_simps(1) by (subst (asm) (2) show_nat.simps) (auto split: if_splits)
qed

lemma show_nat_ne: "show_nat n \<noteq> []"
  by (subst show_nat.simps) simp

text \<open>\<open>strtol\<close> reads back a printed number.\<close>

lemma foldl_digits: "foldl (\<lambda>n c. n * 10 + digit_val c) a (show_nat n) = a * 10 ^ length (show_nat n) + int n"
proof (induction n arbitrary: a rule: show_nat.induct)
  case (1 n)
  show ?case
  proof (cases "n < 10")
    case True
    then show ?thesis using digit_char_simps(2) [OF True] by (simp add: show_nat.simps [of n])
  next
    case False
    then show ?thesis using 1 [OF False] digit_char_simps(2) [of "n mod 10"]
      by (simp add: show_nat.simps [of n] algebra_simps zdiv_int zmod_int)
  qed
qed

lemma strtol_show:
  assumes n: "int n < 2 ^ 63" and r: "rest = [] \<or> \<not> is_digit (hd rest)"
  shows "strtol (show_nat n @ rest) = (int n, rest)"
proof -
  obtain c cs where c: "show_nat n = c # cs" using show_nat_ne [of n] by (cases "show_nat n") auto
  have d: "\<forall>c \<in> set (show_nat n). is_digit c" using show_nat_chars by blast
  then have "is_digit c" using c by simp
  then have "of_char c \<notin> {9, 10, 11, 12, 13, 32 :: nat}" "c \<noteq> CHR ''-''" "c \<noteq> CHR ''+''"
    by (auto simp: is_digit_def)
  then have w: "dropWhile (\<lambda>c. of_char c \<in> {9, 10, 11, 12, 13, 32 :: nat}) (show_nat n @ rest) = show_nat n @ rest"
    and s: "hd (show_nat n @ rest) \<noteq> CHR ''-''" "hd (show_nat n @ rest) \<noteq> CHR ''+''" by (auto simp: c)
  have "takeWhile is_digit rest = []" "dropWhile is_digit rest = rest" using r by (cases rest; auto)+
  then have t: "takeWhile is_digit (show_nat n @ rest) = show_nat n" "dropWhile is_digit (show_nat n @ rest) = rest"
    using d by (auto simp: takeWhile_append2 dropWhile_append2)
  show ?thesis unfolding strtol_def Let_def w using n foldl_digits [of 0 n] show_nat_ne [of n] s by (simp add: t)
qed

lemma bitfmt_digits:
  "bitfmt_loop (show_nat n @ cs) first t v acc = bitfmt_loop cs False (t * 10 ^ length (show_nat n) + int n) v acc"
proof (induction n arbitrary: cs first t rule: show_nat.induct)
  case (1 n)
  show ?case
  proof (cases "n < 10")
    case True
    then show ?thesis using digit_char_simps [OF True] by (simp add: show_nat.simps [of n])
  next
    case False
    have d: "n mod 10 < 10" by simp
    have "bitfmt_loop (show_nat n @ cs) first t v acc =
        bitfmt_loop (show_nat (n div 10) @ (digit_char (n mod 10) # cs)) first t v acc"
      using False by (simp add: show_nat.simps [of n])
    also have "\<dots> = bitfmt_loop (digit_char (n mod 10) # cs) False (t * 10 ^ length (show_nat (n div 10)) + int (n div 10)) v acc"
      by (rule 1 [OF False])
    also have "\<dots> = bitfmt_loop cs False ((t * 10 ^ length (show_nat (n div 10)) + int (n div 10)) * 10 + int (n mod 10)) v acc"
      using digit_char_simps [OF d] by simp
    also have "(t * 10 ^ length (show_nat (n div 10)) + int (n div 10)) * 10 + int (n mod 10) = t * 10 ^ length (show_nat n) + int n"
      using False by (simp add: show_nat.simps [of n] algebra_simps zdiv_int zmod_int)
    finally show ?thesis .
  qed
qed

text \<open>The text of a list of ranges, and the pairs it stands for.\<close>

fun ranges_text :: "(int \<times> int) list \<Rightarrow> string" where
  "ranges_text [] = ''''"
| "ranges_text [(s, e)] = range_text s e"
| "ranges_text ((s, e) # rs) = range_text s e @ '','' @ ranges_text rs"

definition pairs :: "(int \<times> int) list \<Rightarrow> int list" where
  "pairs rs = concat (map (\<lambda>(s, e). [s, e]) rs)"

lemma pairs_simps [simp]: "pairs [] = []" "pairs ((s, e) # rs) = s # e # pairs rs" "pairs (rs @ rs') = pairs rs @ pairs rs'"
  by (simp_all add: pairs_def)

lemma bitfmt_range:
  assumes "0 \<le> s" "s \<le> e" "c = CHR '','' \<or> c = CHR 0x00"
  shows "bitfmt_loop (range_text s e @ c # cs) first 0 (- 1) acc = bitfmt_loop cs False 0 (- 1) (acc @ [s, e])"
proof -
  have c: "\<not> is_digit c" "c \<noteq> CHR ''-''" "\<not> is_digit CHR ''-''" using assms(3) by (auto simp: is_digit_def)
  show ?thesis
  proof (cases "s = e")
    case True
    then show ?thesis using assms c by (simp add: range_text_def show_int_def bitfmt_digits)
  next
    case False
    then show ?thesis using assms c by (auto simp: range_text_def show_int_def bitfmt_digits)
  qed
qed

lemma bitfmt_ranges:
  assumes "\<forall>(s, e) \<in> set rs. 0 \<le> s \<and> s \<le> e" "rs \<noteq> []"
  shows "bitfmt_loop (ranges_text rs @ [CHR 0x00]) first 0 (- 1) acc = acc @ pairs rs"
  using assms
proof (induction rs arbitrary: first acc rule: ranges_text.induct)
  case (2 s e)
  then show ?case using bitfmt_range [of s e "CHR 0x00" "[]"] by simp
next
  case (3 s e r rs)
  then show ?case using bitfmt_range [of s e "CHR '',''" "ranges_text (r # rs) @ [CHR 0x00]"] by auto
qed simp

lemma range_text_chars: "0 \<le> s \<Longrightarrow> s \<le> e \<Longrightarrow> CHR '':'' \<notin> set (range_text s e)"
  using show_nat_chars [of "CHR '':''"] by (auto simp: range_text_def show_int_def is_digit_def)

lemma ranges_text_chars: "\<forall>(s, e) \<in> set rs. 0 \<le> s \<and> s \<le> e \<Longrightarrow> CHR '':'' \<notin> set (ranges_text rs)"
  by (induction rs rule: ranges_text.induct) (auto dest: range_text_chars)

lemma ranges_text_ne: "rs \<noteq> [] \<Longrightarrow> ranges_text rs \<noteq> []"
  by (induction rs rule: ranges_text.induct) (auto simp: range_text_def show_int_def show_nat_ne)

lemma bitfmt2int_ranges:
  assumes "\<forall>(s, e) \<in> set rs. 0 \<le> s \<and> s \<le> e" "rs \<noteq> []"
  shows "bitfmt2int (ranges_text rs) = Some (pairs rs @ [- 1])"
  using bitfmt_ranges [OF assms, of True "[]"] ranges_text_chars [OF assms(1)] by (simp add: bitfmt2int_def)

text \<open>Index pairs set their ranges.\<close>

definition positions :: "(int \<times> int) list \<Rightarrow> int set" where
  "positions rs = (\<Union>(s, e) \<in> set rs. {s..e})"

lemma positions_simps [simp]: "positions [] = {}" "positions ((s, e) # rs) = {s..e} \<union> positions rs"
  by (simp_all add: positions_def)

lemma inx_loop_pairs:
  assumes "wf_bitstr b" "\<forall>(s, e) \<in> set rs. 0 \<le> s \<and> s \<le> e \<and> e < bs_bits b"
  shows "\<exists>c. inx_loop b (pairs rs @ [- 1]) = Some (c, 0) \<and> wf_bitstr c \<and> bs_bits c = bs_bits b \<and> bitset c = bitset b \<union> positions rs"
  using assms
proof (induction rs arbitrary: b)
  case (Cons r rs)
  obtain s e where r: "r = (s, e)" by (cases r)
  have se: "0 \<le> s" "s \<le> e" "e < bs_bits b" using Cons.prems(2) r by auto
  define c where "c = with_bits b (\<lambda>j. (s \<le> j \<and> j \<le> e) \<or> bit_at b j)"
  have n: "bit_nset b s e = Some c" using bit_nset_eq [OF Cons.prems(1), of s e] se by (simp add: c_def)
  have w: "wf_bitstr c" "bs_bits c = bs_bits b" using Cons.prems(1) by (simp_all add: c_def)
  have "bitset c = bitset b \<union> {s..e}" unfolding c_def bitset_with_bits [OF Cons.prems(1)] using se by (auto simp: bitset_def)
  then show ?case using Cons.IH [OF w(1)] Cons.prems(2) w(2) r se n by auto
qed auto

lemma inx2bitstr_pairs:
  assumes "wf_bitstr b" "0 < bs_bits b" "\<forall>(s, e) \<in> set rs. 0 \<le> s \<and> s \<le> e \<and> e < bs_bits b"
  shows "\<exists>c. inx2bitstr b (pairs rs @ [- 1]) = Some (c, 0) \<and> wf_bitstr c \<and> bs_bits c = bs_bits b \<and> bitset c = positions rs"
proof -
  define d where "d = with_bits b (\<lambda>j. \<not> (0 \<le> j \<and> j \<le> bs_bits b - 1) \<and> bit_at b j)"
  have n: "bit_nclear b 0 (bs_bits b - 1) = Some d" using bit_nclear_eq [OF assms(1), of 0 "bs_bits b - 1"] assms(2) by (simp add: d_def)
  have w: "wf_bitstr d" "bs_bits d = bs_bits b" using assms(1) by (simp_all add: d_def)
  have "bitset d = {}" unfolding d_def bitset_with_bits [OF assms(1)] by auto
  then show ?thesis using inx_loop_pairs [OF w(1), of rs] assms(3) w(2) n by (simp add: inx2bitstr_def)
qed

subsection \<open>The runs of a bit string\<close>

text \<open>All formatting loops find the same runs.\<close>

function scan :: "bitstr \<Rightarrow> int \<Rightarrow> int \<Rightarrow> (int \<times> int) list option" where
  "scan b fini i =
     (if i < fini then do {
        w \<leftarrow> c_rd (bs_words b) (bit_word i);
        if w = 0 then scan b fini (i + 64)
        else do {
          t \<leftarrow> bit_test b i;
          if t then do { e \<leftarrow> run_end b fini i; map_option (Cons (i, e)) (scan b fini (e + 1)) } else scan b fini (i + 1)
        }
      } else Some [])"
  by pat_completeness auto
termination
  by (relation "measure (\<lambda>(b, fini, i). nat (fini - i))") (auto dest!: run_end_ge)

declare scan.simps [simp del]

lemma scan_cases:
  obtains (over) "\<not> i < fini" "scan b fini i = Some []"
  | (fault) "i < fini" "c_rd (bs_words b) (bit_word i) = None"
  | (skip) w where "i < fini" "c_rd (bs_words b) (bit_word i) = Some w" "w = 0" "scan b fini i = scan b fini (i + 64)"
  | (untested) w where "i < fini" "c_rd (bs_words b) (bit_word i) = Some w" "w \<noteq> 0" "bit_test b i = None"
  | (clear) w where "i < fini" "c_rd (bs_words b) (bit_word i) = Some w" "w \<noteq> 0" "bit_test b i = Some False" "scan b fini i = scan b fini (i + 1)"
  | (stuck) w where "i < fini" "c_rd (bs_words b) (bit_word i) = Some w" "w \<noteq> 0" "bit_test b i = Some True" "run_end b fini i = None"
  | (run) w e where "i < fini" "c_rd (bs_words b) (bit_word i) = Some w" "w \<noteq> 0" "bit_test b i = Some True" "run_end b fini i = Some e"
      "scan b fini i = map_option (Cons (i, e)) (scan b fini (e + 1))"
  using scan.simps [of b fini i]
  by (cases "i < fini"; cases "c_rd (bs_words b) (bit_word i)"; cases "bit_test b i"; cases "run_end b fini i") (auto split: if_splits)

lemma inx_runs_scan: "inx_runs_loop b i = map_option (\<lambda>rs. pairs rs @ [- 1]) (scan b (bs_bits b) i)"
proof (induction b i rule: inx_runs_loop.induct)
  case (1 b i)
  show ?case
    by (cases rule: scan_cases [of i "bs_bits b" b]; subst inx_runs_loop.simps) 
      (simp_all add: 1 scan.simps [of b "bs_bits b" i] option.map_comp comp_def map_conv_bind_option)
qed

lemma run_end_spec:
  assumes "wf_bitstr b" "0 \<le> i" "i < fini" "fini \<le> bs_bits b" "i \<in> bitset b"
  shows "\<exists>e. run_end b fini i = Some e \<and> i \<le> e \<and> e < fini \<and> {i..e} \<subseteq> bitset b"
  using assms
proof (induction b fini i rule: run_end.induct)
  case (1 b fini i)
  show ?case
  proof (cases "i + 1 < fini")
    case True
    have t: "bit_test b (i + 1) = Some (i + 1 \<in> bitset b)" using 1 True by (simp add: bit_test_eq bit_at_bitset)
    show ?thesis
    proof (cases "i + 1 \<in> bitset b")
      case in_b: True
      then obtain e where e: "run_end b fini (i + 1) = Some e" "i + 1 \<le> e" "e < fini" "{i + 1..e} \<subseteq> bitset b"
        using 1 True t by auto
      have "{i..e} = {i} \<union> {i + 1..e}" using e(2) by auto
      then show ?thesis using e t in_b True 1(6) by (subst run_end.simps) auto
    next
      case False
      then show ?thesis using t True 1 by (subst run_end.simps) auto
    qed
  next
    case False
    then show ?thesis using 1 by (subst run_end.simps) auto
  qed
qed

lemma next_aligned:
  assumes "bs_words b ! nat (e div 64) \<noteq> 0"
  shows "(e + 1) mod 64 = 0 \<or> bs_words b ! nat ((e + 1) div 64) \<noteq> (0 :: u64)"
proof (cases "(e + 1) mod 64 = 0")
  case False
  then have "0 < (e + 1) mod 64" using pos_mod_sign [of 64 "e + 1"] by linarith
  then have "e div 64 = (e + 1) div 64"
    using pos_mod_bound [of 64 "e + 1"] mult_div_mod_eq [of 64 "e + 1"]
    by (intro int_div_pos_eq [of _ _ _ "(e + 1) mod 64 - 1"]) linarith+
  then show ?thesis using assms by simp
qed simp

text \<open>The skip over a zero word is right because the loops reach the middle of a word only if it is not zero.\<close>

lemma scan_spec:
  assumes "wf_bitstr b" "0 \<le> i" "fini \<le> bs_bits b" "i mod 64 = 0 \<or> bs_words b ! nat (i div 64) \<noteq> 0"
  shows "\<exists>rs. scan b fini i = Some rs \<and> positions rs = {j \<in> bitset b. i \<le> j \<and> j < fini} \<and>
    (\<forall>(s, e) \<in> set rs. 0 \<le> s \<and> s \<le> e \<and> e < fini)"
  using assms
proof (induction b fini i rule: scan.induct)
  case (1 b fini i)
  show ?case
  proof (cases "i < fini")
    case False
    then show ?thesis by (subst scan.simps) auto
  next
    case i: True
    define w where "w = bs_words b ! nat (i div 64)"
    have w: "c_rd (bs_words b) (bit_word i) = Some w"
      using wf_word_index [OF "1.prems"(1,2)] i "1.prems"(3) by (simp add: w_def bit_word_def)
    have t: "bit_test b i = Some (i \<in> bitset b)" using 1 i by (simp add: bit_test_eq bit_at_bitset)
    show ?thesis
    proof (cases "w = 0")
      case True
      then have "i mod 64 = 0" using "1.prems"(4) w_def by auto
      then have nb: "j \<notin> bitset b" if "i \<le> j" "j < i + 64" for j
        using zero_wordD [OF True [unfolded w_def] _ that] by (simp add: bitset_def)
      have "j \<in> bitset b \<and> i + 64 \<le> j \<longleftrightarrow> j \<in> bitset b \<and> i \<le> j" for j using nb [of j] by (cases "j < i + 64") auto
      then have "{j \<in> bitset b. i + 64 \<le> j \<and> j < fini} = {j \<in> bitset b. i \<le> j \<and> j < fini}" by blast
      moreover have "scan b fini i = scan b fini (i + 64)" using i w True by (subst scan.simps) simp
      moreover have "(i + 64) mod 64 = 0" using \<open>i mod 64 = 0\<close> by simp
      ultimately show ?thesis using "1.IH"(1) [OF i w True] "1.prems" by simp
    next
      case nz: False
      show ?thesis
      proof (cases "i \<in> bitset b")
        case False
        then have "{j \<in> bitset b. i + 1 \<le> j \<and> j < fini} = {j \<in> bitset b. i \<le> j \<and> j < fini}" by (auto simp: order_le_less)
        moreover have "scan b fini i = scan b fini (i + 1)" using i w nz t False by (subst scan.simps) simp
        ultimately show ?thesis using "1.IH"(3) [OF i w nz t] False "1.prems" next_aligned [OF nz [unfolded w_def]] by simp
      next
        case in_b: True
        obtain e where e: "run_end b fini i = Some e" "i \<le> e" "e < fini" "{i..e} \<subseteq> bitset b"
          using run_end_spec [OF "1.prems"(1,2) i "1.prems"(3) in_b] by blast
        have "bit_at b e" using e by (auto simp: bitset_def)
        then have "bs_words b ! nat (e div 64) \<noteq> 0" by (auto simp: bit_at_def)
        then obtain rs where rs: "scan b fini (e + 1) = Some rs" "positions rs = {j \<in> bitset b. e + 1 \<le> j \<and> j < fini}"
            "\<forall>(s, e) \<in> set rs. 0 \<le> s \<and> s \<le> e \<and> e < fini"
          using "1.IH"(2) [OF i w nz t in_b e(1)] "1.prems" e(2) next_aligned by force
        have "scan b fini i = Some ((i, e) # rs)" using i w nz t in_b e(1) rs(1) by (subst scan.simps) simp
        moreover have "{j \<in> bitset b. i \<le> j \<and> j < fini} = {i..e} \<union> {j \<in> bitset b. e + 1 \<le> j \<and> j < fini}" using e by auto
        ultimately show ?thesis using rs e "1.prems"(2) by auto
      qed
    qed
  qed
qed

lemma scan_all:
  assumes "wf_bitstr b"
  obtains rs where "scan b (bs_bits b) 0 = Some rs" "positions rs = bitset b" "\<forall>(s, e) \<in> set rs. 0 \<le> s \<and> s \<le> e \<and> e < bs_bits b"
proof -
  have "{j \<in> bitset b. 0 \<le> j \<and> j < bs_bits b} = bitset b" by (auto simp: bitset_def)
  then show thesis using scan_spec [OF assms, of 0 "bs_bits b"] that by auto
qed

lemma positions_empty: "\<forall>(s, e) \<in> set rs. 0 \<le> s \<and> s \<le> e \<and> e < n \<Longrightarrow> positions rs = {} \<longleftrightarrow> rs = []"
  by (cases rs) auto

fun fmt_out :: "int \<Rightarrow> string option \<Rightarrow> string \<Rightarrow> (int \<times> int) list \<Rightarrow> string option" where
  "fmt_out off str comma [] = str"
| "fmt_out off str comma ((s, e) # rs) =
     fmt_out off (Some ((case str of None \<Rightarrow> '''' | Some s \<Rightarrow> s) @ comma @ range_text (s - off) (e - off))) '','' rs"

lemma fmt_loop_scan: "fmt_loop b off fini i str comma = map_option (fmt_out off str comma) (scan b fini i)"
proof (induction b off fini i str comma rule: fmt_loop.induct)
  case (1 b off fini i str comma)
  show ?case
    by (cases rule: scan_cases [of i fini b]; subst fmt_loop.simps)
      (simp_all add: 1 scan.simps [of b fini i] option.map_comp comp_def Let_def)
qed

lemma fmt_out_Some: "fmt_out 0 (Some x) '','' rs = Some (x @ (if rs = [] then '''' else '','' @ ranges_text rs))"
  by (induction rs arbitrary: x rule: ranges_text.induct) auto

lemma fmt_out_None: "fmt_out 0 None '''' rs = (if rs = [] then None else Some (ranges_text rs))"
  by (cases rs rule: ranges_text.cases) (auto simp: fmt_out_Some)

lemma bit_fmt_full_scan:
  assumes "wf_bitstr b" "scan b (bs_bits b) 0 = Some rs"
  shows "bit_fmt_full b = Some (if rs = [] then None else Some (ranges_text rs))"
  using assms by (simp add: bit_fmt_full_def fmt_loop_scan fmt_out_None wf_bitstr_def)

definition ranges_lines :: "(int \<times> int) list \<Rightarrow> string" where
  "ranges_lines rs = concat (map (\<lambda>(s, e). range_text s e @ '','') rs)"

lemma ranges_lines_text: "rs \<noteq> [] \<Longrightarrow> ranges_lines rs = ranges_text rs @ '',''"
  by (induction rs rule: ranges_text.induct) (auto simp: ranges_lines_def)

lemma take_take_append: "take n (take n xs @ ys) = take n (xs @ ys)"
  by (cases "length xs \<le> n") auto

lemma fmt_buf_scan:
  assumes "length str \<le> nat len - 1"
  shows "fmt_buf_loop len b i str count =
    map_option (\<lambda>rs. (take (nat len - 1) (str @ ranges_lines rs), count + (\<Sum>(s, e)\<leftarrow>rs. e - s + 1))) (scan b (bs_bits b) i)"
  using assms
proof (induction len b i str count rule: fmt_buf_loop.induct)
  case (1 len b i str count)
  note [simp del] = One_nat_def take_append
  show ?case
    by (cases rule: scan_cases [of i "bs_bits b" b]; subst fmt_buf_loop.simps)
      (simp_all add: 1 scan.simps [of b "bs_bits b" i] option.map_comp comp_def ranges_lines_def take_take_append add.assoc)
qed

lemma runs_total_pos: "\<forall>(s, e) \<in> set rs. 0 \<le> s \<and> s \<le> e \<and> e < n \<Longrightarrow> 0 < (\<Sum>(s, e)\<leftarrow>rs. e - s + 1) \<longleftrightarrow> rs \<noteq> []" for n :: int
  by (induction rs) (auto intro: add_pos_nonneg sum_list_nonneg)

lemma bit_fmt_scan:
  assumes "wf_bitstr b" "scan b (bs_bits b) 0 = Some rs" "\<forall>(s, e) \<in> set rs. 0 \<le> s \<and> s \<le> e \<and> e < bs_bits b" "1 < len"
  shows "bit_fmt len b = Some (if rs = [] then '''' else butlast (take (nat len - 1) (ranges_text rs @ '','')))"
proof -
  note runs_total_pos [OF assms(3)]
  moreover have "take (nat len - 1) (ranges_text rs @ '','') \<noteq> []" if "rs \<noteq> []" using assms(4) ranges_text_ne [OF that] by simp
  ultimately show ?thesis using assms(1,2,4)
    by (auto simp: bit_fmt_def fmt_buf_scan ranges_lines_text wf_bitstr_def ranges_lines_def [of "[]"])
qed

subsection \<open>Masks\<close>

text \<open>The value of the bits from \<open>i\<close> on in one hexadecimal digit.\<close>

definition at_val :: "bitstr \<Rightarrow> int \<Rightarrow> nat \<Rightarrow> nat" where
  "at_val b i v = (if i \<in> bitset b then v else 0)"

definition nib :: "bitstr \<Rightarrow> int \<Rightarrow> nat" where
  "nib b i = at_val b i 1 + at_val b (i + 1) 2 + at_val b (i + 2) 4 + at_val b (i + 3) 8"

lemma test_in_eq:
  assumes "wf_bitstr b" "0 \<le> i"
  shows "test_in b i v = Some (at_val b i v)"
proof (cases "i < bs_bits b")
  case True
  then show ?thesis using assms by (simp add: test_in_def at_val_def bit_test_eq bit_at_bitset)
next
  case False
  then have "i \<notin> bitset b" by (simp add: bitset_def)
  then show ?thesis using False by (simp add: test_in_def at_val_def)
qed

lemma nib_less: "nib b i < 16"
  by (simp add: nib_def at_val_def)

lemma hex_val_char: "n < 16 \<Longrightarrow> hex_val (hex_char n) = Some (int n)"
  by (auto simp: hex_val_def hex_char_def Let_def)

text \<open>Reading a digit at \<open>i\<close> sets the bits it has.\<close>

lemma set_if_spec:
  assumes "wf_bitstr b" "0 \<le> i"
  shows "\<exists>c. set_if t b i = Some c \<and> wf_bitstr c \<and> bs_bits c = bs_bits b \<and>
    bitset c = bitset b \<union> (if t \<and> i < bs_bits b then {i} else {})"
proof (cases "t \<and> i < bs_bits b")
  case True
  define c where "c = with_bits b (\<lambda>j. j = i \<or> bit_at b j)"
  have "bit_set b i = Some c" using bit_set_eq [OF assms] True by (simp add: c_def)
  moreover have "bitset c = bitset b \<union> {i}" unfolding c_def bitset_with_bits [OF assms(1)] using True assms(2) by (auto simp: bitset_def)
  ultimately show ?thesis using True assms(1) by (simp add: set_if_def c_def)
qed (use assms in \<open>auto simp: set_if_def\<close>)

definition nib_set :: "int \<Rightarrow> int \<Rightarrow> int \<Rightarrow> int set" where
  "nib_set n i v = {j. j < n \<and> (j = i \<and> odd v \<or> j = i + 1 \<and> odd (v div 2) \<or> j = i + 2 \<and> odd (v div 4) \<or> j = i + 3 \<and> odd (v div 8))}"

lemma unhex_step:
  assumes "wf_bitstr b" "0 \<le> i" "hex_val c = Some v"
  shows "\<exists>d. (\<forall>cs rc. unhex_loop (c # cs) b i rc = unhex_loop cs d (i + 4) rc) \<and> wf_bitstr d \<and> bs_bits d = bs_bits b \<and>
    bitset d = bitset b \<union> nib_set (bs_bits b) i v"
proof -
  obtain b0 where b0: "set_if (odd v) b i = Some b0" "wf_bitstr b0" "bs_bits b0 = bs_bits b"
      "bitset b0 = bitset b \<union> (if odd v \<and> i < bs_bits b then {i} else {})"
    using set_if_spec [OF assms(1,2)] by blast
  obtain b1 where b1: "set_if (odd (v div 2)) b0 (i + 1) = Some b1" "wf_bitstr b1" "bs_bits b1 = bs_bits b0"
      "bitset b1 = bitset b0 \<union> (if odd (v div 2) \<and> i + 1 < bs_bits b0 then {i + 1} else {})"
    using set_if_spec [OF b0(2), of "i + 1"] assms(2) by auto
  obtain b2 where b2: "set_if (odd (v div 4)) b1 (i + 2) = Some b2" "wf_bitstr b2" "bs_bits b2 = bs_bits b1"
      "bitset b2 = bitset b1 \<union> (if odd (v div 4) \<and> i + 2 < bs_bits b1 then {i + 2} else {})"
    using set_if_spec [OF b1(2), of "i + 2"] assms(2) by auto
  obtain b3 where b3: "set_if (odd (v div 8)) b2 (i + 3) = Some b3" "wf_bitstr b3" "bs_bits b3 = bs_bits b2"
      "bitset b3 = bitset b2 \<union> (if odd (v div 8) \<and> i + 3 < bs_bits b2 then {i + 3} else {})"
    using set_if_spec [OF b2(2), of "i + 3"] assms(2) by auto
  have "unhex_loop (c # cs) b i rc = unhex_loop cs b3 (i + 4) rc" for cs rc
    using assms(3) b0(1) b1(1) b2(1) b3(1) by simp
  moreover have "bitset b3 = bitset b \<union> nib_set (bs_bits b) i v"
    unfolding b3(4) b2(4) b1(4) b0(4) using b0(3) b1(3) b2(3) by (auto simp: nib_set_def)
  ultimately show ?thesis using b3(2,3) b2(3) b1(3) b0(3) by (intro exI [of _ b3]) simp
qed

lemma nib_set_nib:
  assumes "0 \<le> i"
  shows "nib_set (bs_bits b) i (int (nib b i)) = {j \<in> bitset b. i \<le> j \<and> j < i + 4}"
proof -
  have in_n: "j \<in> bitset b \<Longrightarrow> j < bs_bits b" for j by (simp add: bitset_def)
  have o: "odd (int (nib b i)) \<longleftrightarrow> i \<in> bitset b" "odd (int (nib b i) div 2) \<longleftrightarrow> i + 1 \<in> bitset b"
      "odd (int (nib b i) div 4) \<longleftrightarrow> i + 2 \<in> bitset b" "odd (int (nib b i) div 8) \<longleftrightarrow> i + 3 \<in> bitset b"
    by (simp_all add: nib_def at_val_def)
  have "i \<le> j \<and> j < i + 4 \<longleftrightarrow> j = i \<or> j = i + 1 \<or> j = i + 2 \<or> j = i + 3" for j by auto
  then show ?thesis unfolding nib_set_def o using in_n by auto
qed

function nibs :: "bitstr \<Rightarrow> int \<Rightarrow> string" where
  "nibs b i = (if i < bs_bits b then hex_char (nib b i) # nibs b (i + 4) else [])"
  by pat_completeness auto
termination
  by (relation "measure (\<lambda>(b, i). nat (bs_bits b - i))") auto

declare nibs.simps [simp del]

lemma hexmask_nibs: "wf_bitstr b \<Longrightarrow> 0 \<le> i \<Longrightarrow> hexmask_loop b i acc = Some (rev (nibs b i) @ acc)"
proof (induction b i arbitrary: acc rule: nibs.induct)
  case (1 b i)
  have n: "nibs b (bs_bits b) = []" by (subst nibs.simps) simp
  have e: "hexmask_loop b (bs_bits b) acc = Some acc" for acc by (subst hexmask_loop.simps) simp
  show ?case
  proof (cases "i < bs_bits b")
    case True
    note t = test_in_eq [OF "1.prems"(1)]
    have "hexmask_loop b i acc = hexmask_loop b (min (i + 4) (bs_bits b)) (hex_char (nib b i) # acc)"
      using True "1.prems"(2) by (subst hexmask_loop.simps) (simp add: t nib_def)
    also have "\<dots> = hexmask_loop b (i + 4) (hex_char (nib b i) # acc)"
      using e by (cases "i + 4 < bs_bits b") (simp_all add: min_def hexmask_loop.simps [of b "i + 4"])
    finally show ?thesis using 1 True by (simp add: nibs.simps [of b i])
  qed (simp add: nibs.simps hexmask_loop.simps)
qed

lemma unhex_nibs:
  assumes "wf_bitstr d" "bs_bits d = bs_bits b" "0 \<le> i"
  shows "\<exists>d'. unhex_loop (nibs b i) d i rc = Some (d', rc) \<and> wf_bitstr d' \<and> bs_bits d' = bs_bits b \<and>
    bitset d' = bitset d \<union> {j \<in> bitset b. i \<le> j}"
  using assms
proof (induction b i arbitrary: d rule: nibs.induct)
  case (1 b i)
  show ?case
  proof (cases "i < bs_bits b")
    case False
    then have "{j \<in> bitset b. i \<le> j} = {}" by (auto simp: bitset_def)
    then show ?thesis using False 1 by (auto simp: nibs.simps)
  next
    case True
    obtain d1 where d1: "\<forall>cs rc. unhex_loop (hex_char (nib b i) # cs) d i rc = unhex_loop cs d1 (i + 4) rc" "wf_bitstr d1" "bs_bits d1 = bs_bits d"
        "bitset d1 = bitset d \<union> nib_set (bs_bits d) i (int (nib b i))"
      using unhex_step [OF "1.prems"(1,3) hex_val_char [OF nib_less [of b i]]] by blast
    obtain d' where d': "unhex_loop (nibs b (i + 4)) d1 (i + 4) rc = Some (d', rc)" "wf_bitstr d'" "bs_bits d' = bs_bits b"
        "bitset d' = bitset d1 \<union> {j \<in> bitset b. i + 4 \<le> j}"
      using "1.IH" [OF True d1(2)] d1(3) "1.prems" by auto
    have "bitset d' = bitset d \<union> {j \<in> bitset b. i \<le> j}"
      unfolding d'(4) d1(4) "1.prems"(2) nib_set_nib [OF "1.prems"(3)] by auto
    then show ?thesis using d' d1(1) True by (simp add: nibs.simps [of b i])
  qed
qed

text \<open>Binary masks, one character per bit.\<close>

definition bins :: "bitstr \<Rightarrow> int \<Rightarrow> string" where
  "bins b i = map (\<lambda>j. if j \<in> bitset b then CHR ''1'' else CHR ''0'') [i..bs_bits b - 1]"

lemma bins_simps: "i < bs_bits b \<Longrightarrow> bins b i = (if i \<in> bitset b then CHR ''1'' else CHR ''0'') # bins b (i + 1)" "\<not> i < bs_bits b \<Longrightarrow> bins b i = []"
  by (simp_all add: bins_def upto_rec1)

lemma binmask_bins: "wf_bitstr b \<Longrightarrow> 0 \<le> i \<Longrightarrow> binmask_loop b i acc = Some (rev (bins b i) @ acc)"
proof (induction b i acc rule: binmask_loop.induct)
  case (1 b i acc)
  then show ?case
    by (subst binmask_loop.simps) (auto simp: bit_test_eq bit_at_bitset bins_simps)
qed

lemma unbin_bins:
  assumes "wf_bitstr d" "bs_bits d = bs_bits b" "0 \<le> i"
  shows "\<exists>d'. unbin_loop (bins b i) d i = Some d' \<and> wf_bitstr d' \<and> bs_bits d' = bs_bits b \<and> bitset d' = bitset d \<union> {j \<in> bitset b. i \<le> j}"
  using assms
proof (induction "nat (bs_bits b - i)" arbitrary: d i rule: less_induct)
  case less
  show ?case
  proof (cases "i < bs_bits b")
    case False
    then have "{j \<in> bitset b. i \<le> j} = {}" by (auto simp: bitset_def)
    then show ?thesis using False less.prems by (auto simp: bins_simps)
  next
    case True
    let ?t = "odd (int (of_char (if i \<in> bitset b then CHR ''1'' else CHR ''0'')) - 48)"
    have t: "?t \<longleftrightarrow> i \<in> bitset b" by simp
    obtain d1 where d1: "set_if ?t d i = Some d1" "wf_bitstr d1" "bs_bits d1 = bs_bits d" "bitset d1 = bitset d \<union> (if ?t \<and> i < bs_bits d then {i} else {})"
      using set_if_spec [OF less.prems(1,3)] by blast
    obtain d' where d': "unbin_loop (bins b (i + 1)) d1 (i + 1) = Some d'" "wf_bitstr d'" "bs_bits d' = bs_bits b"
        "bitset d' = bitset d1 \<union> {j \<in> bitset b. i + 1 \<le> j}"
      using less.hyps [of "i + 1" d1] d1(2,3) less.prems True by auto
    have "bitset d' = bitset d \<union> {j \<in> bitset b. i \<le> j}"
      unfolding d'(4) d1(4) t using True less.prems(2) by (auto simp: order_le_less)
    then show ?thesis using d' d1(1) True by (simp add: bins_simps)
  qed
qed

subsection \<open>Properties\<close>

text \<open>C34 (roundtrip): \<open>bit_unfmt\<close> reads what \<open>bit_fmt_full\<close> prints back into any string of the same size, except
  that the empty set, printed as a null pointer, leaves the string as it was; \<open>bit_fmt\<close> prints the same
  text if its buffer is large enough; and \<open>inx2bitstr\<close> inverts \<open>bitstr2inx\<close>.\<close>

theorem bit_fmt_roundtrip:
  assumes "wf_bitstr b" "wf_bitstr d" "bs_bits d = bs_bits b" "0 < bs_bits b"
  shows "\<exists>s c inx e. bit_fmt_full b = Some s \<and> bit_unfmt d s = Some (c, 0) \<and>
    bitset c = (if bitset b = {} then bitset d else bitset b) \<and>
    (\<forall>t len. s = Some t \<and> int (length t) + 1 < len \<longrightarrow> bit_fmt len b = Some t) \<and>
    bitstr2inx (Some b) = Some inx \<and> inx2bitstr d inx = Some (e, 0) \<and> bitset e = bitset b"
proof -
  obtain rs where rs: "scan b (bs_bits b) 0 = Some rs" "positions rs = bitset b" "\<forall>(s, e) \<in> set rs. 0 \<le> s \<and> s \<le> e \<and> e < bs_bits b"
    by (rule scan_all [OF assms(1)])
  have n: "bitset b = {} \<longleftrightarrow> rs = []" using positions_empty [OF rs(3)] rs(2) by simp
  obtain e where e: "inx2bitstr d (pairs rs @ [- 1]) = Some (e, 0)" "bitset e = bitset b"
    using inx2bitstr_pairs [OF assms(2), of rs] assms(3,4) rs(2,3) by auto
  have v: "bitstr_valid d" using assms(2) by (simp add: wf_bitstr_def)
  let ?s = "if rs = [] then None else Some (ranges_text rs)"
  have "\<exists>c. bit_unfmt d ?s = Some (c, 0) \<and> bitset c = (if bitset b = {} then bitset d else bitset b)"
  proof (cases "rs = []")
    case False
    have "\<forall>(s, e) \<in> set rs. 0 \<le> s \<and> s \<le> e" using rs(3) by auto
    then show ?thesis using bitfmt2int_ranges [of rs] ranges_text_ne False n e v by (auto simp: bit_unfmt_def)
  qed (use v n in \<open>simp add: bit_unfmt_def\<close>)
  moreover have "bit_fmt len b = Some t" if "?s = Some t" "int (length t) + 1 < len" for t len
  proof -
    have "rs \<noteq> []" "t = ranges_text rs" "1 < len" using that by (auto split: if_splits)
    then show ?thesis using bit_fmt_scan [OF assms(1) rs(1,3), of len] that(2) by simp
  qed
  ultimately show ?thesis using bit_fmt_full_scan [OF assms(1) rs(1)] rs(1) e by (auto simp: bitstr2inx_def inx_runs_scan)
qed

theorem bit_fmt_roundtrip_witness:
  "\<exists>s c. bit_fmt_full ten_bits = Some s \<and> bit_unfmt ten_bits s = Some (c, 0) \<and> bitset c = {0, 2, 3, 9}"
  using bit_fmt_roundtrip [of ten_bits ten_bits] by auto

text \<open>The hexadecimal and the binary mask of a string are read back without error as the same set.\<close>

theorem bit_mask_roundtrip:
  assumes "wf_bitstr b" "wf_bitstr d" "bs_bits d = bs_bits b" "0 < bs_bits b"
  shows "\<exists>h m c e. bit_fmt_hexmask b = Some h \<and> bit_unfmt_hexmask d h = Some (c, 0) \<and> bitset c = bitset b \<and>
    bit_fmt_binmask b = Some m \<and> bit_unfmt_binmask d m = Some e \<and> bitset e = bitset b"
proof -
  define d0 where "d0 = with_bits d (\<lambda>j. \<not> (0 \<le> j \<and> j \<le> bs_bits d - 1) \<and> bit_at d j)"
  have n: "bit_nclear d 0 (bs_bits d - 1) = Some d0" using bit_nclear_eq [OF assms(2), of 0 "bs_bits d - 1"] assms(3,4) by (simp add: d0_def)
  have d0: "wf_bitstr d0" "bs_bits d0 = bs_bits b" using assms(2,3) by (simp_all add: d0_def)
  have z: "bitset d0 = {}" unfolding d0_def bitset_with_bits [OF assms(2)] by auto
  have a: "{j \<in> bitset b. 0 \<le> j} = bitset b" by (auto simp: bitset_def)
  have sz: "bit_size b = Some (bs_bits b)" "bit_size d = Some (bs_bits d)" using assms(1,2) by (simp_all add: bit_size_def wf_bitstr_def)
  obtain c where c: "unhex_loop (nibs b 0) d0 0 0 = Some (c, 0)" "bitset c = bitset b"
    using unhex_nibs [OF d0, of 0 0] z a by auto
  obtain e where e: "unbin_loop (bins b 0) d0 0 = Some e" "bitset e = bitset b"
    using unbin_bins [OF d0, of 0] z a by auto
  have "bit_fmt_hexmask b = Some (''0x'' @ rev (nibs b 0))" "bit_fmt_binmask b = Some (rev (bins b 0))"
    using hexmask_nibs [OF assms(1)] binmask_bins [OF assms(1)] sz by (simp_all add: bit_fmt_hexmask_def bit_fmt_binmask_def)
  then show ?thesis using c e n sz by (auto simp: bit_unfmt_hexmask_def bit_unfmt_binmask_def)
qed

theorem bit_mask_roundtrip_witness:
  "\<exists>h c. bit_fmt_hexmask ten_bits = Some h \<and> bit_unfmt_hexmask ten_bits h = Some (c, 0) \<and> bitset c = {0, 2, 3, 9}"
  using bit_mask_roundtrip [of ten_bits ten_bits] by auto

text \<open>With an offset inside a zero word \<open>bit_fmt_range\<close> skips the beginning of the next word: position 64 of a string
  of 96 bits is not found from offset 32 on. The step format leaves out the end that its comment
  includes, \<open>bit_fmt\<close> writes before a buffer of one byte, and \<open>bit_unfmt\<close> of an empty text keeps the old bits.\<close>

lemma bit_fmt_range_skips:
  "bit_fmt_range \<lparr>bs_magic = BITSTR_MAGIC, bs_bits = 96, bs_words = [0, 1]\<rparr> 32 64 = Some None"
  by (simp add: bit_fmt_range_def bitstr_valid_def fmt_loop.simps bit_word_def)

lemma bitfmt2int_step_end: "bitfmt2int ''1-17:4'' = Some [1, 1, 5, 5, 9, 9, 13, 13, - 1]"
  by code_simp

lemma bit_fmt_one_byte: "bit_fmt 1 ten_bits = None"
proof -
  obtain rs where rs: "scan ten_bits (bs_bits ten_bits) 0 = Some rs" "positions rs = bitset ten_bits" "\<forall>(s, e) \<in> set rs. 0 \<le> s \<and> s \<le> e \<and> e < bs_bits ten_bits"
    by (rule scan_all [OF ten_bits_simps(4)])
  have "rs \<noteq> []" using rs(2) by auto
  then have "0 < (\<Sum>(s, e)\<leftarrow>rs. e - s + 1)" using runs_total_pos [OF rs(3)] by simp
  then show ?thesis using rs(1) by (simp add: bit_fmt_def fmt_buf_scan)
qed

lemma bit_unfmt_empty: "wf_bitstr b \<Longrightarrow> bit_unfmt b (Some '''') = Some (b, 0)"
  by (simp add: bit_unfmt_def wf_bitstr_def)

end
