(* ===== verification/Pack.thy ===== *)
theory Pack
  imports Bitstring_Fmt
begin

section \<open>Packing of messages (\<open>src/common/pack.c\<close>, \<open>pack.h\<close>)\<close>

text \<open>
  A buffer is an array of bytes with its size and the position up to which it is filled or read, both
  \<open>uint32_t\<close>, so that the computations of sizes wrap around as in C. The result \<open>None\<close> is a failed assertion
  or a copy that leaves the array. The functions that pack return the buffer, unchanged where the code
  reports an exceeded limit and returns; those that unpack return it with the value, and no value
  stands for \<open>SLURM_ERROR\<close>. A pointer with a length is a list; bytes of new memory, which C leaves
  indeterminate, are zero, and memory does not run out (\<open>xmalloc\<close> aborts the program then).
  Integers travel most significant byte first: \<open>htonl\<close> and the like swap the bytes on
  the little-endian hosts that are modelled. Doubles are packed like 64-bit integers after a multiplication and
  are not modelled.
\<close>

subsection \<open>Buffers\<close>

definition BUF_MAGIC :: u32 where
  "BUF_MAGIC = 0x42554545"

definition BUF_SIZE :: u32 where
  "BUF_SIZE = 16 * 1024"

definition MAX_BUF_SIZE :: u32 where
  "MAX_BUF_SIZE = 0xffff0000"

definition MAX_PACK_ARRAY_LEN :: u32 where
  "MAX_PACK_ARRAY_LEN = 128 * 1024"

definition MAX_PACK_MEM_LEN :: u32 where
  "MAX_PACK_MEM_LEN = 1024 * 1024 * 1024"

definition NO_VAL32 :: u32 where
  "NO_VAL32 = 0xfffffffe"

record slurm_buf =
  buf_magic :: u32
  buf_head :: "byte list"
  buf_size :: u32
  buf_processed :: u32

definition remaining_buf :: "slurm_buf \<Rightarrow> u32" where
  "remaining_buf b = buf_size b - buf_processed b"

definition create_buf :: "byte list \<Rightarrow> u32 \<Rightarrow> slurm_buf option" where
  "create_buf data n =
     (if n > MAX_BUF_SIZE then None
      else Some \<lparr>buf_magic = BUF_MAGIC, buf_head = data, buf_size = n, buf_processed = 0\<rparr>)"

definition free_buf :: "slurm_buf option \<Rightarrow> unit option" where
  "free_buf b = (case b of None \<Rightarrow> Some () | Some b \<Rightarrow> c_assert (buf_magic b = BUF_MAGIC))"

text \<open>\<open>xrealloc_nz\<close> to the new size.\<close>

definition buf_realloc :: "slurm_buf \<Rightarrow> slurm_buf" where
  "buf_realloc b = b\<lparr>buf_head := take (unat (buf_size b)) (buf_head b) @ replicate (unat (buf_size b) - length (buf_head b)) 0\<rparr>"

definition grow_buf :: "slurm_buf \<Rightarrow> u32 \<Rightarrow> slurm_buf" where
  "grow_buf b n =
     (if buf_size b + n > MAX_BUF_SIZE then b else buf_realloc (b\<lparr>buf_size := buf_size b + n\<rparr>))"

definition init_buf :: "u32 \<Rightarrow> slurm_buf option" where
  "init_buf n =
     (if n > MAX_BUF_SIZE then None
      else let n = (if n \<le> 0 then BUF_SIZE else n) in
        Some \<lparr>buf_magic = BUF_MAGIC, buf_head = replicate (unat n) 0, buf_size = n, buf_processed = 0\<rparr>)"

definition xfer_buf_data :: "slurm_buf \<Rightarrow> byte list option" where
  "xfer_buf_data b = do { c_assert (buf_magic b = BUF_MAGIC); Some (buf_head b) }"

text \<open>\<open>memcpy\<close> to and from the position \<open>processed\<close>, which then moves on.\<close>

definition buf_put :: "byte list \<Rightarrow> slurm_buf \<Rightarrow> slurm_buf option" where
  "buf_put bs b = (let p = unat (buf_processed b) in
     if p + length bs \<le> length (buf_head b)
     then Some (b\<lparr>buf_head := take p (buf_head b) @ bs @ drop (p + length bs) (buf_head b),
                  buf_processed := buf_processed b + of_nat (length bs)\<rparr>)
     else None)"

definition buf_get :: "nat \<Rightarrow> slurm_buf \<Rightarrow> (slurm_buf \<times> byte list) option" where
  "buf_get n b = (let p = unat (buf_processed b) in
     if p + n \<le> length (buf_head b)
     then Some (b\<lparr>buf_processed := buf_processed b + of_nat n\<rparr>, take n (drop p (buf_head b)))
     else None)"

subsection \<open>Integers\<close>

fun be_bytes :: "nat \<Rightarrow> nat \<Rightarrow> byte list" where
  "be_bytes 0 k = []"
| "be_bytes (Suc n) k = be_bytes n (k div 256) @ [of_nat (k mod 256)]"

definition be_val :: "byte list \<Rightarrow> nat" where
  "be_val bs = foldl (\<lambda>n b. n * 256 + unat b) 0 bs"

text \<open>The common part of the functions that pack a value of fixed size: grow by \<open>BUF_SIZE\<close> if the value
  does not fit, give up if the buffer would exceed the limit.\<close>

definition pack_fixed :: "byte list \<Rightarrow> slurm_buf \<Rightarrow> slurm_buf option" where
  "pack_fixed bs b =
     (if unat (remaining_buf b) < length bs then
        if buf_size b + BUF_SIZE > MAX_BUF_SIZE then Some b
        else buf_put bs (buf_realloc (b\<lparr>buf_size := buf_size b + BUF_SIZE\<rparr>))
      else buf_put bs b)"

definition unpack_fixed :: "nat \<Rightarrow> slurm_buf \<Rightarrow> (slurm_buf \<times> byte list option) option" where
  "unpack_fixed n b =
     (if unat (remaining_buf b) < n then Some (b, None)
      else map_option (\<lambda>(b, bs). (b, Some bs)) (buf_get n b))"

definition pack64 :: "u64 \<Rightarrow> slurm_buf \<Rightarrow> slurm_buf option" where
  "pack64 val b = pack_fixed (be_bytes 8 (unat val)) b"

definition unpack64 :: "slurm_buf \<Rightarrow> (slurm_buf \<times> u64 option) option" where
  "unpack64 b = map_option (map_prod (\<lambda>b. b) (map_option (\<lambda>bs. of_nat (be_val bs)))) (unpack_fixed 8 b)"

definition pack32 :: "u32 \<Rightarrow> slurm_buf \<Rightarrow> slurm_buf option" where
  "pack32 val b = pack_fixed (be_bytes 4 (unat val)) b"

definition unpack32 :: "slurm_buf \<Rightarrow> (slurm_buf \<times> u32 option) option" where
  "unpack32 b = map_option (map_prod (\<lambda>b. b) (map_option (\<lambda>bs. of_nat (be_val bs)))) (unpack_fixed 4 b)"

definition pack16 :: "u16 \<Rightarrow> slurm_buf \<Rightarrow> slurm_buf option" where
  "pack16 val b = pack_fixed (be_bytes 2 (unat val)) b"

definition unpack16 :: "slurm_buf \<Rightarrow> (slurm_buf \<times> u16 option) option" where
  "unpack16 b = map_option (map_prod (\<lambda>b. b) (map_option (\<lambda>bs. of_nat (be_val bs)))) (unpack_fixed 2 b)"

definition pack8 :: "byte \<Rightarrow> slurm_buf \<Rightarrow> slurm_buf option" where
  "pack8 val b = pack_fixed [val] b"

definition unpack8 :: "slurm_buf \<Rightarrow> (slurm_buf \<times> byte option) option" where
  "unpack8 b = map_option (map_prod (\<lambda>b. b) (map_option hd)) (unpack_fixed 1 b)"

text \<open>A \<open>time_t\<close> is a signed 64-bit integer.\<close>

definition pack_time :: "int \<Rightarrow> slurm_buf \<Rightarrow> slurm_buf option" where
  "pack_time val b = pack_fixed (be_bytes 8 (unat (of_int val :: u64))) b"

definition unpack_time :: "slurm_buf \<Rightarrow> (slurm_buf \<times> int option) option" where
  "unpack_time b = map_option (map_prod (\<lambda>b. b) (map_option (\<lambda>bs. sint (of_nat (be_val bs) :: u64)))) (unpack_fixed 8 b)"

subsection \<open>Memory and strings\<close>

definition packmem :: "byte list \<Rightarrow> u32 \<Rightarrow> slurm_buf \<Rightarrow> slurm_buf option" where
  "packmem valp size_val b =
     (if size_val > MAX_PACK_MEM_LEN then Some b
      else if unat (remaining_buf b) < 4 + unat size_val \<and> buf_size b + size_val + BUF_SIZE > MAX_BUF_SIZE then Some b
      else do {
        let b = (if unat (remaining_buf b) < 4 + unat size_val
                 then buf_realloc (b\<lparr>buf_size := buf_size b + (size_val + BUF_SIZE)\<rparr>) else b);
        b \<leftarrow> buf_put (be_bytes 4 (unat size_val)) b;
        if size_val \<noteq> 0 then do {
          c_assert (unat size_val \<le> length valp);
          buf_put (take (unat size_val) valp) b
        } else Some b
      })"

text \<open>The common part of the \<open>unpackmem\<close> functions: the size and the bytes, \<open>[]\<close> for a size of zero.\<close>

definition unpack_sized :: "slurm_buf \<Rightarrow> (slurm_buf \<times> byte list option) option" where
  "unpack_sized b = do {
     (b, n) \<leftarrow> unpack32 b;
     (case n of
        None \<Rightarrow> Some (b, None)
      | Some n \<Rightarrow>
          if n > MAX_PACK_MEM_LEN then Some (b, None)
          else if n > 0 then
            (if remaining_buf b < n then Some (b, None)
             else map_option (\<lambda>(b, bs). (b, Some bs)) (buf_get (unat n) b))
          else Some (b, Some []))
   }"

text \<open>A null pointer is \<open>None\<close>. \<open>unpackmem_ptr\<close> returns a pointer into the buffer, here the offset and the length.\<close>

definition null_if_empty :: "'a list \<Rightarrow> 'a list option" where
  "null_if_empty bs = (if bs = [] then None else Some bs)"

definition unpackmem_ptr :: "slurm_buf \<Rightarrow> (slurm_buf \<times> (nat \<times> nat) option option) option" where
  "unpackmem_ptr b = map_option (\<lambda>(b, r). (b, map_option
     (\<lambda>bs. if bs = [] then None else Some (unat (buf_processed b) - length bs, length bs)) r)) (unpack_sized b)"

definition unpackmem_xmalloc :: "slurm_buf \<Rightarrow> (slurm_buf \<times> byte list option option) option" where
  "unpackmem_xmalloc b = map_option (map_prod (\<lambda>b. b) (map_option null_if_empty)) (unpack_sized b)"

definition unpackmem_malloc :: "slurm_buf \<Rightarrow> (slurm_buf \<times> byte list option option) option" where
  "unpackmem_malloc b = map_option (map_prod (\<lambda>b. b) (map_option null_if_empty)) (unpack_sized b)"

text \<open>\<open>unpackmem\<close> copies to memory of the caller, who has to provide enough of it.\<close>

definition unpackmem :: "byte list \<Rightarrow> slurm_buf \<Rightarrow> (slurm_buf \<times> byte list option) option" where
  "unpackmem valp b = do {
     (b, r) \<leftarrow> unpack_sized b;
     (case r of
        None \<Rightarrow> Some (b, None)
      | Some bs \<Rightarrow> do {
          let bs = (if bs = [] then [0] else bs);
          c_assert (length bs \<le> length valp);
          Some (b, Some (bs @ drop (length bs) valp))
        })
   }"

definition packmem_array :: "byte list \<Rightarrow> u32 \<Rightarrow> slurm_buf \<Rightarrow> slurm_buf option" where
  "packmem_array valp size_val b =
     (if remaining_buf b < size_val \<and> buf_size b + size_val + BUF_SIZE > MAX_BUF_SIZE then Some b
      else do {
        let b = (if remaining_buf b < size_val
                 then buf_realloc (b\<lparr>buf_size := buf_size b + (size_val + BUF_SIZE)\<rparr>) else b);
        c_assert (unat size_val \<le> length valp);
        buf_put (take (unat size_val) valp) b
      })"

definition unpackmem_array :: "byte list \<Rightarrow> u32 \<Rightarrow> slurm_buf \<Rightarrow> (slurm_buf \<times> byte list \<times> bool) option" where
  "unpackmem_array valp size_valp b =
     (if remaining_buf b \<ge> size_valp then do {
        (b, bs) \<leftarrow> buf_get (unat size_valp) b;
        c_assert (length bs \<le> length valp);
        Some (b, bs @ drop (length bs) valp, True)
      } else do { c_assert (valp \<noteq> []); Some (b, valp[0 := 0], False) })"

definition c_bytes :: "string \<Rightarrow> byte list" where
  "c_bytes s = map (\<lambda>c. of_nat (of_char c)) s @ [0]"

text \<open>The string at a pointer ends at the first null byte; without one the code reads past the memory.\<close>

definition c_string :: "byte list \<Rightarrow> string option" where
  "c_string bs = (if 0 \<in> set bs then Some (map (\<lambda>x. char_of (unat x)) (takeWhile (\<lambda>x. x \<noteq> 0) bs)) else None)"

definition packstr :: "string option \<Rightarrow> slurm_buf \<Rightarrow> slurm_buf option" where
  "packstr str b = do {
     c_assert (buf_magic b = BUF_MAGIC);
     (case str of None \<Rightarrow> packmem [] 0 b | Some s \<Rightarrow> packmem (c_bytes s) (of_nat (length s) + 1) b)
   }"

definition packnull :: "slurm_buf \<Rightarrow> slurm_buf option" where
  "packnull b = do { c_assert (buf_magic b = BUF_MAGIC); packmem [] 0 b }"

subsection \<open>Arrays\<close>

fun pack_each :: "('a \<Rightarrow> slurm_buf \<Rightarrow> slurm_buf option) \<Rightarrow> 'a list \<Rightarrow> slurm_buf \<Rightarrow> slurm_buf option" where
  "pack_each f [] b = Some b"
| "pack_each f (x # xs) b = do { b \<leftarrow> f x b; pack_each f xs b }"

fun unpack_each :: "(slurm_buf \<Rightarrow> (slurm_buf \<times> 'a option) option) \<Rightarrow> nat \<Rightarrow> slurm_buf \<Rightarrow> (slurm_buf \<times> 'a list option) option" where
  "unpack_each f 0 b = Some (b, Some [])"
| "unpack_each f (Suc n) b = do {
     (b, x) \<leftarrow> f b;
     (case x of
        None \<Rightarrow> Some (b, None)
      | Some x \<Rightarrow> map_option (map_prod (\<lambda>b. b) (map_option (Cons x))) (unpack_each f n b))
   }"

text \<open>The common part of the functions that unpack an array: its length, which may not exceed \<open>limit\<close>, and the elements.\<close>

definition unpack_array :: "u32 \<Rightarrow> (slurm_buf \<Rightarrow> (slurm_buf \<times> 'a option) option) \<Rightarrow> slurm_buf \<Rightarrow> (slurm_buf \<times> 'a list option) option" where
  "unpack_array limit f b = do {
     (b, n) \<leftarrow> unpack32 b;
     (case n of
        None \<Rightarrow> Some (b, None)
      | Some n \<Rightarrow> if n > limit then Some (b, None) else unpack_each f (unat n) b)
   }"

definition pack16_array :: "u16 list \<Rightarrow> slurm_buf \<Rightarrow> slurm_buf option" where
  "pack16_array vals b = do { b \<leftarrow> pack32 (of_nat (length vals)) b; pack_each pack16 vals b }"

definition unpack16_array :: "slurm_buf \<Rightarrow> (slurm_buf \<times> u16 list option) option" where
  "unpack16_array b = unpack_array NO_VAL32 unpack16 b"

definition pack32_array :: "u32 list \<Rightarrow> slurm_buf \<Rightarrow> slurm_buf option" where
  "pack32_array vals b = do { b \<leftarrow> pack32 (of_nat (length vals)) b; pack_each pack32 vals b }"

definition unpack32_array :: "slurm_buf \<Rightarrow> (slurm_buf \<times> u32 list option) option" where
  "unpack32_array b = unpack_array NO_VAL32 unpack32 b"

definition pack64_array :: "u64 list \<Rightarrow> slurm_buf \<Rightarrow> slurm_buf option" where
  "pack64_array vals b = do { b \<leftarrow> pack32 (of_nat (length vals)) b; pack_each pack64 vals b }"

definition unpack64_array :: "slurm_buf \<Rightarrow> (slurm_buf \<times> u64 list option) option" where
  "unpack64_array b = unpack_array NO_VAL32 unpack64 b"

definition pack64_array_as_32 :: "u64 list \<Rightarrow> slurm_buf \<Rightarrow> slurm_buf option" where
  "pack64_array_as_32 vals b = do { b \<leftarrow> pack32 (of_nat (length vals)) b; pack_each (\<lambda>v. pack32 (ucast v)) vals b }"

definition unpack64_array_from_32 :: "slurm_buf \<Rightarrow> (slurm_buf \<times> u64 list option) option" where
  "unpack64_array_from_32 b =
     unpack_array NO_VAL32 (\<lambda>b. map_option (map_prod (\<lambda>b. b) (map_option ucast)) (unpack32 b)) b"

text \<open>\<open>packstr_array\<close> has the body of \<open>pack32\<close> inlined, so that it returns as a whole where the limit is exceeded;
  the arrays of integers call \<open>pack32\<close> and go on.\<close>

definition packstr_array :: "string option list \<Rightarrow> slurm_buf \<Rightarrow> slurm_buf option" where
  "packstr_array vals b =
     (if unat (remaining_buf b) < 4 \<and> buf_size b + BUF_SIZE > MAX_BUF_SIZE then Some b
      else do { b \<leftarrow> pack_fixed (be_bytes 4 (unat (of_nat (length vals) :: u32))) b; pack_each packstr vals b })"

definition unpackstr_array :: "slurm_buf \<Rightarrow> (slurm_buf \<times> byte list option list option) option" where
  "unpackstr_array b = unpack_array MAX_PACK_ARRAY_LEN unpackmem_xmalloc b"

subsection \<open>Bit strings\<close>

definition pack_bit_str_hex :: "bitstr option \<Rightarrow> slurm_buf \<Rightarrow> slurm_buf option" where
  "pack_bit_str_hex bitmap b = do {
     c_assert (buf_magic b = BUF_MAGIC);
     (case bitmap of
        None \<Rightarrow> pack32 NO_VAL32 b
      | Some m \<Rightarrow> do {
          tmp_str \<leftarrow> bit_fmt_hexmask m;
          n \<leftarrow> bit_size m;
          b \<leftarrow> pack32 (of_int n) b;
          packmem (c_bytes tmp_str) (of_nat (length tmp_str) + 1) b
        })
   }"

definition unpack_bit_str_hex :: "slurm_buf \<Rightarrow> (slurm_buf \<times> bitstr option option) option" where
  "unpack_bit_str_hex b = do {
     c_assert (buf_magic b = BUF_MAGIC);
     (b, n) \<leftarrow> unpack32 b;
     (case n of
        None \<Rightarrow> Some (b, None)
      | Some n \<Rightarrow>
          if n \<noteq> NO_VAL32 then do {
            (b, r) \<leftarrow> unpackmem_xmalloc b;
            (case r of
               None \<Rightarrow> Some (b, None)
             | Some tmp_str \<Rightarrow> do {
                 m \<leftarrow> bit_alloc (uint n);
                 bs \<leftarrow> tmp_str;
                 s \<leftarrow> c_string bs;
                 (m, rc) \<leftarrow> bit_unfmt_hexmask m s;
                 Some (b, Some (Some m))
               })
          } else Some (b, Some None))
   }"

definition unpack_bit_str_hex_as_inx :: "slurm_buf \<Rightarrow> (slurm_buf \<times> int list option) option" where
  "unpack_bit_str_hex_as_inx b = do {
     (b, r) \<leftarrow> unpack_bit_str_hex b;
     (case r of
        None \<Rightarrow> Some (b, None)
      | Some m \<Rightarrow> do { inx \<leftarrow> bitstr2inx m; Some (b, Some inx) })
   }"

definition pack_bit_fmt :: "bitstr option \<Rightarrow> slurm_buf \<Rightarrow> slurm_buf option" where
  "pack_bit_fmt bitmap b = do {
     c_assert (buf_magic b = BUF_MAGIC);
     (case bitmap of
        None \<Rightarrow> packmem [] 0 b
      | Some m \<Rightarrow> do {
          tmp_str \<leftarrow> bit_fmt 0xfffe m;
          packmem (c_bytes tmp_str) (of_nat (length tmp_str) + 1) b
        })
   }"

end
