(* ===== verification/Pack_Codec.thy ===== *)
theory Pack_Codec
  imports Pack
begin

section \<open>Packing appends, unpacking consumes\<close>

text \<open>
  The contract of a pair of functions of \<open>pack.c\<close> is the locale \<open>codec\<close>: packing appends
  the bytes of a value, unpacking consumes them and returns what the reader sees of the value, and
  unpacking stays inside the buffer whatever it holds. \<open>array_codec\<close> extends it by the length prefix
  of arrays, which makes a codec of lists again. Both are interpreted for every pair of the code.
\<close>

subsection \<open>Well-formed buffers\<close>

definition buf_ok :: "slurm_buf \<Rightarrow> bool" where
  "buf_ok b \<longleftrightarrow> length (buf_head b) = unat (buf_size b) \<and> buf_processed b \<le> buf_size b \<and>
     buf_size b \<le> MAX_BUF_SIZE \<and> buf_magic b = BUF_MAGIC"

definition written :: "slurm_buf \<Rightarrow> byte list" where
  "written b = take (unat (buf_processed b)) (buf_head b)"

definition unread :: "slurm_buf \<Rightarrow> byte list" where
  "unread b = drop (unat (buf_processed b)) (buf_head b)"

lemma unat_limits [simp]:
  "unat BUF_SIZE = 0x4000" "unat MAX_BUF_SIZE = 0xffff0000" "unat MAX_PACK_MEM_LEN = 0x40000000"
  "unat MAX_PACK_ARRAY_LEN = 0x20000" "unat NO_VAL32 = 0xfffffffe"
  by (simp_all add: BUF_SIZE_def MAX_BUF_SIZE_def MAX_PACK_MEM_LEN_def MAX_PACK_ARRAY_LEN_def NO_VAL32_def)

lemma unat_plus: "unat x + unat y < 4294967296 \<Longrightarrow> unat (x + y) = unat x + unat y" for x y :: u32
  by (simp add: unat_word_ariths)

lemma unat_of_nat32: "n < 4294967296 \<Longrightarrow> unat (of_nat n :: u32) = n"
  by (simp add: unat_of_nat)

lemma buf_okD:
  assumes "buf_ok b"
  shows "length (buf_head b) = unat (buf_size b)" "unat (buf_processed b) \<le> unat (buf_size b)" "unat (buf_size b) \<le> 0xffff0000"
    "unat (remaining_buf b) = unat (buf_size b) - unat (buf_processed b)" "length (written b) = unat (buf_processed b)"
    "length (unread b) = unat (buf_size b) - unat (buf_processed b)" "buf_magic b = BUF_MAGIC"
proof -
  show l: "length (buf_head b) = unat (buf_size b)" and p: "unat (buf_processed b) \<le> unat (buf_size b)" "buf_magic b = BUF_MAGIC"
    using assms by (simp_all add: buf_ok_def word_le_nat_alt)
  have "unat (buf_size b) \<le> unat MAX_BUF_SIZE" using assms by (simp add: buf_ok_def word_le_nat_alt)
  then show "unat (buf_size b) \<le> 0xffff0000" by simp
  show "unat (remaining_buf b) = unat (buf_size b) - unat (buf_processed b)"
    using assms by (simp add: remaining_buf_def buf_ok_def unat_sub)
  show "length (written b) = unat (buf_processed b)" "length (unread b) = unat (buf_size b) - unat (buf_processed b)"
    using l p by (simp_all add: written_def unread_def)
qed

lemma buf_okI:
  assumes "length (buf_head b) = unat (buf_size b)" "unat (buf_processed b) \<le> unat (buf_size b)" "unat (buf_size b) \<le> 0xffff0000" "buf_magic b = BUF_MAGIC"
  shows "buf_ok b"
  using assms by (simp add: buf_ok_def word_le_nat_alt)

lemma buf_put_ok:
  assumes ok: "buf_ok b" and f: "unat (buf_processed b) + length bs \<le> unat (buf_size b)"
  obtains b' where "buf_put bs b = Some b'" "buf_ok b'" "written b' = written b @ bs" "buf_size b' = buf_size b"
proof -
  let ?p = "unat (buf_processed b)"
  let ?b = "b\<lparr>buf_head := take ?p (buf_head b) @ bs @ drop (?p + length bs) (buf_head b), buf_processed := buf_processed b + of_nat (length bs)\<rparr>"
  note d = buf_okD [OF ok]
  have l: "length bs < 4294967296" using f d(3) by linarith
  have p: "unat (buf_processed b + of_nat (length bs)) = ?p + length bs"
    using f d(3) unat_of_nat32 [OF l] by (subst unat_plus) auto
  have "buf_ok ?b" using d f p by (intro buf_okI) auto
  moreover have "written ?b = written b @ bs" using p d f by (simp add: written_def)
  moreover have "buf_put bs b = Some ?b" using f d by (simp add: buf_put_def Let_def)
  ultimately show thesis using that by simp
qed

lemma buf_get_ok:
  assumes ok: "buf_ok b" and f: "n \<le> length (unread b)"
  obtains b' where "buf_get n b = Some (b', take n (unread b))" "buf_ok b'" "unread b' = drop n (unread b)"
    "unat (buf_processed b') = unat (buf_processed b) + n" "buf_size b' = buf_size b"
proof -
  let ?b = "b\<lparr>buf_processed := buf_processed b + of_nat n\<rparr>"
  note d = buf_okD [OF ok]
  have n: "n < 4294967296" "unat (buf_processed b) + n \<le> unat (buf_size b)" using f d(2,3,6) by linarith+
  have p: "unat (buf_processed b + of_nat n) = unat (buf_processed b) + n"
    using n d(3) unat_of_nat32 [OF n(1)] by (subst unat_plus) auto
  have "buf_ok ?b" using d n p by (intro buf_okI) auto
  moreover have "unread ?b = drop n (unread b)" using p by (simp add: unread_def add.commute)
  moreover have "buf_get n b = Some (?b, take n (unread b))" using n d(1) by (simp add: buf_get_def Let_def unread_def)
  ultimately show thesis using that p by simp
qed

lemma buf_grow_ok:
  assumes ok: "buf_ok b" and f: "unat (buf_size b) + unat n \<le> 0xffff0000"
  shows "buf_ok (buf_realloc (b\<lparr>buf_size := buf_size b + n\<rparr>))" "written (buf_realloc (b\<lparr>buf_size := buf_size b + n\<rparr>)) = written b"
    "unat (buf_size (buf_realloc (b\<lparr>buf_size := buf_size b + n\<rparr>))) = unat (buf_size b) + unat n"
    "buf_processed (buf_realloc (b\<lparr>buf_size := buf_size b + n\<rparr>)) = buf_processed b"
proof -
  note d = buf_okD [OF ok]
  have s: "unat (buf_size b + n) = unat (buf_size b) + unat n" using f by (intro unat_plus) linarith
  show "buf_ok (buf_realloc (b\<lparr>buf_size := buf_size b + n\<rparr>))" using d s f by (intro buf_okI) (auto simp: buf_realloc_def)
  show "written (buf_realloc (b\<lparr>buf_size := buf_size b + n\<rparr>)) = written b" using d s by (simp add: written_def buf_realloc_def)
qed (use f in \<open>simp_all add: buf_realloc_def unat_plus\<close>)

subsection \<open>Packing appends bytes\<close>

text \<open>\<open>packs f bs\<close>: \<open>f\<close> appends \<open>bs\<close> as long as the position plus twice their number stays below the limit by one \<open>BUF_SIZE\<close>.\<close>

definition packs :: "(slurm_buf \<Rightarrow> slurm_buf option) \<Rightarrow> byte list \<Rightarrow> bool" where
  "packs f bs \<longleftrightarrow> (\<forall>b. buf_ok b \<and> length (written b) + 2 * length bs + 0x4000 \<le> 0xffff0000 \<longrightarrow>
     (\<exists>b'. f b = Some b' \<and> buf_ok b' \<and> written b' = written b @ bs))"

lemma packsI:
  assumes "\<And>b. buf_ok b \<Longrightarrow> length (written b) + 2 * length bs + 0x4000 \<le> 0xffff0000 \<Longrightarrow> \<exists>b'. f b = Some b' \<and> buf_ok b' \<and> written b' = written b @ bs"
  shows "packs f bs"
  using assms unfolding packs_def by blast

lemma packsE:
  assumes "packs f bs" "buf_ok b" "length (written b) + 2 * length bs + 0x4000 \<le> 0xffff0000"
  obtains b' where "f b = Some b'" "buf_ok b'" "written b' = written b @ bs"
  using assms unfolding packs_def by blast

lemma packs_Some: "packs Some []"
  by (simp add: packs_def)

lemma packs_bind:
  assumes "packs f xs" "packs g ys"
  shows "packs (\<lambda>b. f b \<bind> g) (xs @ ys)"
proof (rule packsI)
  fix b
  assume b: "buf_ok b" "length (written b) + 2 * length (xs @ ys) + 0x4000 \<le> 0xffff0000"
  obtain b1 where b1: "f b = Some b1" "buf_ok b1" "written b1 = written b @ xs" using packsE [OF assms(1) b(1)] b(2) by auto
  obtain b2 where "g b1 = Some b2" "buf_ok b2" "written b2 = written b1 @ ys" using packsE [OF assms(2) b1(2)] b(2) b1(3) by auto
  then show "\<exists>b'. f b \<bind> g = Some b' \<and> buf_ok b' \<and> written b' = written b @ xs @ ys" using b1 by simp
qed

lemma pack_fixed_packs:
  assumes n: "length bs \<le> 0x4000"
  shows "packs (pack_fixed bs) bs"
proof (rule packsI)
  fix b
  assume ok: "buf_ok b" and l: "length (written b) + 2 * length bs + 0x4000 \<le> 0xffff0000"
  note d = buf_okD [OF ok]
  show "\<exists>b'. pack_fixed bs b = Some b' \<and> buf_ok b' \<and> written b' = written b @ bs"
  proof (cases "unat (remaining_buf b) < length bs")
    case True
    have s: "unat (buf_size b) + 0x4000 \<le> 0xffff0000" using True l d(4,5) by linarith
    let ?b = "buf_realloc (b\<lparr>buf_size := buf_size b + BUF_SIZE\<rparr>)"
    have lim: "\<not> buf_size b + BUF_SIZE > MAX_BUF_SIZE" using s unat_plus [of "buf_size b" BUF_SIZE] by (simp add: word_less_nat_alt)
    note g = buf_grow_ok [OF ok, of BUF_SIZE]
    have "unat (buf_processed ?b) + length bs \<le> unat (buf_size ?b)" using g(3,4) s d(2) n by simp
    then obtain b' where "buf_put bs ?b = Some b'" "buf_ok b'" "written b' = written ?b @ bs" using buf_put_ok g(1) s by force
    then show ?thesis using True lim g(2) s by (auto simp: pack_fixed_def)
  next
    case False
    have "unat (buf_processed b) + length bs \<le> unat (buf_size b)" using False d(2,4) by linarith
    then obtain b' where "buf_put bs b = Some b'" "buf_ok b'" "written b' = written b @ bs" by (rule buf_put_ok [OF ok])
    then show ?thesis using False by (auto simp: pack_fixed_def)
  qed
qed

lemma be_bytes_length [simp]: "length (be_bytes n k) = n"
  by (induction n arbitrary: k) auto

lemma packmem_packs:
  assumes v: "length valp = unat n" "unat n \<le> 0x40000000"
  shows "packs (packmem valp n) (be_bytes 4 (unat n) @ valp)"
proof (rule packsI)
  fix b
  assume ok: "buf_ok b" and l: "length (written b) + 2 * length (be_bytes 4 (unat n) @ valp) + 0x4000 \<le> 0xffff0000"
  note d = buf_okD [OF ok]
  let ?grow = "unat (remaining_buf b) < 4 + unat n"
  define c where "c = (if ?grow then buf_realloc (b\<lparr>buf_size := buf_size b + (n + BUF_SIZE)\<rparr>) else b)"
  have nb: "unat (n + BUF_SIZE) = unat n + 0x4000" using v(2) unat_plus [of n BUF_SIZE] by simp
  have s: "unat (buf_size b) + unat (n + BUF_SIZE) \<le> 0xffff0000" if "?grow" using that l d(4,5) v(1) nb by simp
  have c: "buf_ok c" "written c = written b" "unat (buf_processed c) + (4 + unat n) \<le> unat (buf_size c)"
    using buf_grow_ok [OF ok s] ok d(2,4) nb by (auto simp: c_def)
  have lim: "\<not> buf_size b + n + BUF_SIZE > MAX_BUF_SIZE" if "?grow"
    using s [OF that] unat_plus [of "buf_size b" "n + BUF_SIZE"] by (simp add: word_less_nat_alt add.assoc)
  have big: "\<not> n > MAX_PACK_MEM_LEN" using v(2) by (simp add: word_less_nat_alt)
  obtain b1 where b1: "buf_put (be_bytes 4 (unat n)) c = Some b1" "buf_ok b1" "written b1 = written b @ be_bytes 4 (unat n)" "buf_size b1 = buf_size c"
    using buf_put_ok [OF c(1), of "be_bytes 4 (unat n)"] c(2,3) by auto
  have p1: "unat (buf_processed b1) = unat (buf_processed c) + 4"
    using buf_okD(5) [OF b1(2)] buf_okD(5) [OF c(1)] b1(3) c(2) by simp
  obtain b2 where b2: "buf_put valp b1 = Some b2" "buf_ok b2" "written b2 = written b1 @ valp"
    using buf_put_ok [OF b1(2), of valp] p1 c(3) b1(4) v(1) by auto
  have "packmem valp n b = (if n \<noteq> 0 then buf_put valp b1 else Some b1)"
    using big lim b1(1) v(1) unfolding packmem_def Let_def c_def [symmetric] by auto
  moreover have "n = 0 \<Longrightarrow> valp = []" using v(1) by simp
  ultimately show "\<exists>b'. packmem valp n b = Some b' \<and> buf_ok b' \<and> written b' = written b @ be_bytes 4 (unat n) @ valp"
    using b1 b2 by (cases "n = 0") auto
qed

subsection \<open>Bytes of integers\<close>

lemma be_val_append [simp]: "be_val (xs @ [b]) = be_val xs * 256 + unat b"
  by (simp add: be_val_def)

lemma be_val_bytes: "be_val (be_bytes n k) = k mod 256 ^ n"
proof (induction n arbitrary: k)
  case 0
  then show ?case by (simp add: be_val_def)
next
  case (Suc n)
  have "unat (of_nat (k mod 256) :: byte) = k mod 256" by (simp add: unat_of_nat)
  then show ?case using Suc [of "k div 256"] mod_mult2_eq [of k 256 "256 ^ n"] by (simp add: mult.commute)
qed

lemma be_val_inverse: "LENGTH('a) = 8 * n \<Longrightarrow> of_nat (be_val (be_bytes n (unat w))) = (w :: 'a :: len word)"
proof -
  assume l: "LENGTH('a) = 8 * n"
  have "unat w < 2 ^ LENGTH('a)" by (rule unsigned_less)
  also have "(2 :: nat) ^ LENGTH('a) = 256 ^ n" unfolding l by (simp add: power_mult)
  finally show ?thesis by (simp add: be_val_bytes)
qed

subsection \<open>Codecs\<close>

text \<open>\<open>unpacks u bs x\<close>: on a buffer whose unread bytes begin with \<open>bs\<close>, \<open>u\<close> consumes them and returns \<open>x\<close>.\<close>

definition unpacks :: "(slurm_buf \<Rightarrow> (slurm_buf \<times> 'a option) option) \<Rightarrow> byte list \<Rightarrow> 'a \<Rightarrow> bool" where
  "unpacks u bs x \<longleftrightarrow> (\<forall>b ys. buf_ok b \<and> unread b = bs @ ys \<longrightarrow> (\<exists>b'. u b = Some (b', Some x) \<and> buf_ok b' \<and> unread b' = ys))"

lemma unpacksE:
  assumes "unpacks u bs x" "buf_ok b" "unread b = bs @ ys"
  obtains b' where "u b = Some (b', Some x)" "buf_ok b'" "unread b' = ys"
  using assms unfolding unpacks_def by blast

lemma unpack_fixed_unpacks: "length bs = n \<Longrightarrow> unpacks (unpack_fixed n) bs bs"
  unfolding unpacks_def
proof (intro allI impI)
  fix b ys
  assume n: "length bs = n" and b: "buf_ok b \<and> unread b = bs @ ys"
  obtain b' where "buf_get n b = Some (b', take n (unread b))" "buf_ok b'" "unread b' = drop n (unread b)"
    using buf_get_ok [of b n] b n by auto
  moreover have "\<not> unat (remaining_buf b) < n" using buf_okD(4,6) [of b] b n by simp
  ultimately show "\<exists>b'. unpack_fixed n b = Some (b', Some bs) \<and> buf_ok b' \<and> unread b' = ys"
    using b n by (auto simp: unpack_fixed_def)
qed

lemma unpacks_map: "unpacks u bs x \<Longrightarrow> unpacks (\<lambda>b. map_option (map_prod (\<lambda>b. b) (map_option g)) (u b)) bs (g x)"
  unfolding unpacks_def by (metis map_prod_simp option.simps(9))

text \<open>A reader never leaves the buffer, whatever it holds.\<close>

definition reads_safely :: "(slurm_buf \<Rightarrow> (slurm_buf \<times> 'a option) option) \<Rightarrow> bool" where
  "reads_safely u \<longleftrightarrow> (\<forall>b. buf_ok b \<longrightarrow> (\<exists>b' r. u b = Some (b', r) \<and> buf_ok b' \<and> buf_processed b \<le> buf_processed b' \<and> buf_size b' = buf_size b))"

lemma reads_safelyE:
  assumes "reads_safely u" "buf_ok b"
  obtains b' r where "u b = Some (b', r)" "buf_ok b'" "buf_processed b \<le> buf_processed b'" "buf_size b' = buf_size b"
  using assms unfolding reads_safely_def by blast

lemma unpack_fixed_safe: "reads_safely (unpack_fixed n)"
  unfolding reads_safely_def
proof (intro allI impI)
  fix b
  assume b: "buf_ok b"
  show "\<exists>b' r. unpack_fixed n b = Some (b', r) \<and> buf_ok b' \<and> buf_processed b \<le> buf_processed b' \<and> buf_size b' = buf_size b"
  proof (cases "unat (remaining_buf b) < n")
    case False
    then have "n \<le> length (unread b)" using buf_okD(4,6) [OF b] by simp
    then obtain b' where "buf_get n b = Some (b', take n (unread b))" "buf_ok b'" "unat (buf_processed b') = unat (buf_processed b) + n" "buf_size b' = buf_size b"
      by (rule buf_get_ok [OF b])
    then show ?thesis using False by (auto simp: unpack_fixed_def word_le_nat_alt)
  qed (use b in \<open>auto simp: unpack_fixed_def\<close>)
qed

lemma reads_safely_map: "reads_safely u \<Longrightarrow> reads_safely (\<lambda>b. map_option (map_prod (\<lambda>b. b) g) (u b))"
  unfolding reads_safely_def by (metis map_prod_simp option.simps(9))

lemma reads_safely_bind:
  assumes u: "reads_safely u" and n: "\<And>b. k b None = Some (b, None)" and s: "\<And>x. reads_safely (\<lambda>b. k b (Some x))"
  shows "reads_safely (\<lambda>b. u b \<bind> (\<lambda>(b, r). k b r))"
  unfolding reads_safely_def
proof (intro allI impI)
  fix b
  assume "buf_ok b"
  with u obtain b1 r where b1: "u b = Some (b1, r)" "buf_ok b1" "buf_processed b \<le> buf_processed b1" "buf_size b1 = buf_size b"
    by (rule reads_safelyE)
  show "\<exists>b' r. u b \<bind> (\<lambda>(b, r). k b r) = Some (b', r) \<and> buf_ok b' \<and> buf_processed b \<le> buf_processed b' \<and> buf_size b' = buf_size b"
  proof (cases r)
    case None
    then show ?thesis using b1 n by simp
  next
    case (Some x)
    from s [of x] b1(2) obtain b2 r2 where "k b1 (Some x) = Some (b2, r2)" "buf_ok b2" "buf_processed b1 \<le> buf_processed b2" "buf_size b2 = buf_size b1"
      by (rule reads_safelyE)
    then show ?thesis using b1 Some by (auto intro: order_trans)
  qed
qed

locale codec =
  fixes pk :: "'a \<Rightarrow> slurm_buf \<Rightarrow> slurm_buf option" and upk :: "slurm_buf \<Rightarrow> (slurm_buf \<times> 'b option) option"
    and enc :: "'a \<Rightarrow> byte list" and seen :: "'a \<Rightarrow> 'b" and valid :: "'a \<Rightarrow> bool"
  assumes pack_law: "valid x \<Longrightarrow> packs (pk x) (enc x)"
    and unpack_law: "valid x \<Longrightarrow> unpacks upk (enc x) (seen x)"
    and safe_law: "reads_safely upk"
begin

lemma pack_each_packs: "\<forall>x \<in> set xs. valid x \<Longrightarrow> packs (pack_each pk xs) (concat (map enc xs))"
proof (induction xs)
  case Nil
  have "pack_each pk [] = Some" by (rule ext) simp
  then show ?case by (simp add: packs_Some)
next
  case (Cons x xs)
  have "pack_each pk (x # xs) = (\<lambda>b. pk x b \<bind> pack_each pk xs)" by (rule ext) simp
  then show ?case using packs_bind [OF pack_law Cons.IH] Cons.prems by simp
qed

lemma unpack_each_unpacks:
  "\<forall>x \<in> set xs. valid x \<Longrightarrow> unpacks (unpack_each upk (length xs)) (concat (map enc xs)) (map seen xs)"
proof (induction xs)
  case Nil
  then show ?case by (simp add: unpacks_def)
next
  case (Cons x xs)
  show ?case
    unfolding unpacks_def
  proof (intro allI impI)
    fix b ys
    assume b: "buf_ok b \<and> unread b = concat (map enc (x # xs)) @ ys"
    obtain b1 where b1: "upk b = Some (b1, Some (seen x))" "buf_ok b1" "unread b1 = concat (map enc xs) @ ys"
      using unpacksE [OF unpack_law, of x b] Cons.prems b by auto
    obtain b2 where "unpack_each upk (length xs) b1 = Some (b2, Some (map seen xs))" "buf_ok b2" "unread b2 = ys"
      using unpacksE [OF Cons.IH b1(2,3)] Cons.prems by auto
    then show "\<exists>b'. unpack_each upk (length (x # xs)) b = Some (b', Some (map seen (x # xs))) \<and> buf_ok b' \<and> unread b' = ys"
      using b1 by simp
  qed
qed

lemma unpack_each_safe: "reads_safely (unpack_each upk n)"
proof (induction n)
  case 0
  then show ?case by (simp add: reads_safely_def)
next
  case (Suc n)
  have "unpack_each upk (Suc n) = (\<lambda>b. upk b \<bind> (\<lambda>(b, r). case r of None \<Rightarrow> Some (b, None)
      | Some x \<Rightarrow> map_option (map_prod (\<lambda>b. b) (map_option (Cons x))) (unpack_each upk n b)))" by (rule ext) simp
  moreover have "reads_safely (\<lambda>b. upk b \<bind> (\<lambda>(b, r). case r of None \<Rightarrow> Some (b, None)
      | Some x \<Rightarrow> map_option (map_prod (\<lambda>b. b) (map_option (Cons x))) (unpack_each upk n b)))"
    by (rule reads_safely_bind [OF safe_law]) (simp_all add: reads_safely_map [OF Suc])
  ultimately show ?case by simp
qed

end

lemma unpack32_unpacks: "unpacks unpack32 (be_bytes 4 (unat v)) v"
  using unpacks_map [OF unpack_fixed_unpacks, of "be_bytes 4 (unat v)" 4 "\<lambda>bs. of_nat (be_val bs) :: u32"] be_val_inverse [of 4 v]
  by (simp add: unpack32_def [abs_def])

lemma unpack32_safe: "reads_safely unpack32"
  unfolding unpack32_def [abs_def] by (rule reads_safely_map [OF unpack_fixed_safe])

interpretation c64: codec pack64 unpack64 "\<lambda>v. be_bytes 8 (unat v)" "\<lambda>v. v" "\<lambda>_. True"
proof
  fix v :: u64
  show "packs (pack64 v) (be_bytes 8 (unat v))" unfolding pack64_def [abs_def] by (rule pack_fixed_packs) simp
  show "unpacks unpack64 (be_bytes 8 (unat v)) v"
    using unpacks_map [OF unpack_fixed_unpacks, of "be_bytes 8 (unat v)" 8 "\<lambda>bs. of_nat (be_val bs) :: u64"] be_val_inverse [of 8 v]
    by (simp add: unpack64_def [abs_def])
  show "reads_safely unpack64" unfolding unpack64_def [abs_def] by (rule reads_safely_map [OF unpack_fixed_safe])
qed

interpretation c32: codec pack32 unpack32 "\<lambda>v. be_bytes 4 (unat v)" "\<lambda>v. v" "\<lambda>_. True"
proof
  show "packs (pack32 v) (be_bytes 4 (unat v))" for v unfolding pack32_def [abs_def] by (rule pack_fixed_packs) simp
  show "unpacks unpack32 (be_bytes 4 (unat v)) v" for v by (rule unpack32_unpacks)
  show "reads_safely unpack32" by (rule unpack32_safe)
qed

interpretation c16: codec pack16 unpack16 "\<lambda>v. be_bytes 2 (unat v)" "\<lambda>v. v" "\<lambda>_. True"
proof
  fix v :: u16
  show "packs (pack16 v) (be_bytes 2 (unat v))" unfolding pack16_def [abs_def] by (rule pack_fixed_packs) simp
  show "unpacks unpack16 (be_bytes 2 (unat v)) v"
    using unpacks_map [OF unpack_fixed_unpacks, of "be_bytes 2 (unat v)" 2 "\<lambda>bs. of_nat (be_val bs) :: u16"] be_val_inverse [of 2 v]
    by (simp add: unpack16_def [abs_def])
  show "reads_safely unpack16" unfolding unpack16_def [abs_def] by (rule reads_safely_map [OF unpack_fixed_safe])
qed

interpretation c8: codec pack8 unpack8 "\<lambda>v. [v]" "\<lambda>v. v" "\<lambda>_. True"
proof
  show "packs (pack8 v) [v]" for v unfolding pack8_def [abs_def] by (rule pack_fixed_packs) simp
  show "unpacks unpack8 [v] v" for v
    using unpacks_map [OF unpack_fixed_unpacks, of "[v]" 1 hd] by (simp add: unpack8_def [abs_def])
  show "reads_safely unpack8" unfolding unpack8_def [abs_def] by (rule reads_safely_map [OF unpack_fixed_safe])
qed

lemma sint_of_int: "- (2 ^ 63) \<le> t \<Longrightarrow> t < 2 ^ 63 \<Longrightarrow> sint (of_int t :: u64) = t"
  by (simp add: sint_sbintrunc' signed_take_bit_int_eq_self)

interpretation ctime: codec pack_time unpack_time "\<lambda>t. be_bytes 8 (unat (of_int t :: u64))" "\<lambda>t. t" "\<lambda>t. - (2 ^ 63) \<le> t \<and> t < 2 ^ 63"
proof
  fix t :: int
  assume t: "- (2 ^ 63) \<le> t \<and> t < 2 ^ 63"
  show "packs (pack_time t) (be_bytes 8 (unat (of_int t :: u64)))" unfolding pack_time_def [abs_def] by (rule pack_fixed_packs) simp
  show "unpacks unpack_time (be_bytes 8 (unat (of_int t :: u64))) t"
    using unpacks_map [OF unpack_fixed_unpacks, of "be_bytes 8 (unat (of_int t :: u64))" 8 "\<lambda>bs. sint (of_nat (be_val bs) :: u64)"]
      be_val_inverse [of 8 "of_int t :: u64"] sint_of_int t
    by (simp add: unpack_time_def [abs_def])
next
  show "reads_safely unpack_time" unfolding unpack_time_def [abs_def] by (rule reads_safely_map [OF unpack_fixed_safe])
qed

lemma unpack_sized_unpacks:
  assumes "length bs \<le> 0x40000000"
  shows "unpacks unpack_sized (be_bytes 4 (length bs) @ bs) bs"
  unfolding unpacks_def
proof (intro allI impI)
  fix b ys
  let ?n = "of_nat (length bs) :: u32"
  assume b: "buf_ok b \<and> unread b = (be_bytes 4 (length bs) @ bs) @ ys"
  have n: "unat ?n = length bs" using assms by (intro unat_of_nat32) simp
  obtain b1 where b1: "unpack32 b = Some (b1, Some ?n)" "buf_ok b1" "unread b1 = bs @ ys"
    using unpacksE [OF unpack32_unpacks [of ?n], of b "bs @ ys"] b n by auto
  have lim: "\<not> ?n > MAX_PACK_MEM_LEN" using assms n by (simp add: word_less_nat_alt)
  have rm: "\<not> remaining_buf b1 < ?n" using buf_okD(4,6) [OF b1(2)] b1(3) n by (simp add: word_less_nat_alt)
  obtain b2 where "buf_get (length bs) b1 = Some (b2, take (length bs) (unread b1))" "buf_ok b2" "unread b2 = drop (length bs) (unread b1)"
    using buf_get_ok [OF b1(2), of "length bs"] b1(3) by auto
  moreover have "?n > 0 \<longleftrightarrow> bs \<noteq> []" using n by (auto simp: word_less_nat_alt)
  ultimately show "\<exists>b'. unpack_sized b = Some (b', Some bs) \<and> buf_ok b' \<and> unread b' = ys"
    using b1 lim rm n by (cases "bs = []") (auto simp: unpack_sized_def)
qed

lemma unpack_sized_safe: "reads_safely unpack_sized"
proof -
  let ?k = "\<lambda>b n. case n of None \<Rightarrow> Some (b, None) | Some n \<Rightarrow>
      if n > MAX_PACK_MEM_LEN then Some (b, None)
      else if n > 0 then (if remaining_buf b < n then Some (b, None) else map_option (\<lambda>(b, bs). (b, Some bs)) (buf_get (unat n) b))
      else Some (b, Some [])"
  have "unpack_sized = (\<lambda>b. unpack32 b \<bind> (\<lambda>(b, n). ?k b n))" by (rule ext) (simp add: unpack_sized_def)
  moreover have "reads_safely (\<lambda>b. ?k b (Some n))" for n
    unfolding reads_safely_def
  proof (intro allI impI)
    fix b
    assume b: "buf_ok b"
    show "\<exists>b' r. ?k b (Some n) = Some (b', r) \<and> buf_ok b' \<and> buf_processed b \<le> buf_processed b' \<and> buf_size b' = buf_size b"
    proof (cases "n > MAX_PACK_MEM_LEN \<or> \<not> n > 0 \<or> remaining_buf b < n")
      case False
      then have "unat n \<le> length (unread b)" using buf_okD(4,6) [OF b] by (simp add: word_less_nat_alt)
      then obtain b' where "buf_get (unat n) b = Some (b', take (unat n) (unread b))" "buf_ok b'"
          "unat (buf_processed b') = unat (buf_processed b) + unat n" "buf_size b' = buf_size b"
        by (rule buf_get_ok [OF b])
      then show ?thesis using False by (auto simp: word_le_nat_alt)
    qed (use b in auto)
  qed
  ultimately show ?thesis using reads_safely_bind [OF unpack32_safe, of ?k] by simp
qed

text \<open>Memory, and strings as the bytes that travel.\<close>

definition mem_enc :: "byte list \<Rightarrow> byte list" where
  "mem_enc bs = be_bytes 4 (length bs) @ bs"

definition str_bytes :: "string option \<Rightarrow> byte list" where
  "str_bytes s = (case s of None \<Rightarrow> [] | Some s \<Rightarrow> c_bytes s)"

lemma packmem_enc: "length bs \<le> 0x40000000 \<Longrightarrow> packs (packmem bs (of_nat (length bs))) (mem_enc bs)"
  using packmem_packs [of bs "of_nat (length bs)"] unat_of_nat32 [of "length bs"] by (simp add: mem_enc_def)

lemma unpackmem_unpacks: "length bs \<le> 0x40000000 \<Longrightarrow> unpacks unpackmem_xmalloc (mem_enc bs) (null_if_empty bs)"
  using unpacks_map [OF unpack_sized_unpacks, of bs null_if_empty] by (simp add: unpackmem_xmalloc_def [abs_def] mem_enc_def)

lemma unpackmem_safe: "reads_safely unpackmem_xmalloc"
  unfolding unpackmem_xmalloc_def [abs_def] by (rule reads_safely_map [OF unpack_sized_safe])

interpretation cmem: codec "\<lambda>bs. packmem bs (of_nat (length bs))" unpackmem_xmalloc mem_enc null_if_empty "\<lambda>bs. length bs \<le> 0x40000000"
  by unfold_locales (rule packmem_enc unpackmem_unpacks unpackmem_safe; assumption?)+

lemma packstr_enc:
  assumes "length (str_bytes s) \<le> 0x40000000"
  shows "packs (packstr s) (mem_enc (str_bytes s))"
proof (rule packsI)
  fix b
  assume b: "buf_ok b" "length (written b) + 2 * length (mem_enc (str_bytes s)) + 0x4000 \<le> 0xffff0000"
  have "packstr s b = packmem (str_bytes s) (of_nat (length (str_bytes s))) b"
    using buf_okD(7) [OF b(1)] by (simp add: packstr_def str_bytes_def c_bytes_def add.commute split: option.splits)
  then show "\<exists>b'. packstr s b = Some b' \<and> buf_ok b' \<and> written b' = written b @ mem_enc (str_bytes s)"
    using packmem_enc [OF assms] b unfolding packs_def by auto
qed

interpretation cstr: codec packstr unpackmem_xmalloc "\<lambda>s. mem_enc (str_bytes s)" "\<lambda>s. null_if_empty (str_bytes s)"
    "\<lambda>s. length (str_bytes s) \<le> 0x40000000"
  by unfold_locales (rule packstr_enc unpackmem_unpacks unpackmem_safe; assumption?)+

text \<open>A string is read back from its bytes.\<close>

lemma c_string_bytes: "CHR 0x00 \<notin> set s \<Longrightarrow> c_string (c_bytes s) = Some s"
proof -
  assume s: "CHR 0x00 \<notin> set s"
  have z: "(of_nat (of_char c) :: byte) = 0 \<longleftrightarrow> c = CHR 0x00" for c
  proof
    assume "(of_nat (of_char c) :: byte) = 0"
    then have "unat (of_nat (of_char c) :: byte) = 0" by simp
    then have "(of_char c :: nat) = 0" by (simp add: unat_of_nat)
    then have "(of_char c :: nat) = of_char (CHR 0x00)" by simp
    then show "c = CHR 0x00" by (simp only: of_char_eq_iff)
  qed simp
  have "takeWhile (\<lambda>x. x \<noteq> 0) (c_bytes s) = map (\<lambda>c. of_nat (of_char c)) s"
    using s by (induction s) (auto simp: c_bytes_def z)
  moreover have "char_of (unat (of_nat (of_char c) :: byte)) = c" for c by (simp add: unat_of_nat)
  ultimately show ?thesis by (simp add: c_string_def c_bytes_def comp_def)
qed

subsection \<open>Arrays of coded elements\<close>

locale array_codec = codec pk upk enc seen valid
  for pk :: "'a \<Rightarrow> slurm_buf \<Rightarrow> slurm_buf option" and upk :: "slurm_buf \<Rightarrow> (slurm_buf \<times> 'b option) option"
    and enc :: "'a \<Rightarrow> byte list" and seen :: "'a \<Rightarrow> 'b" and valid :: "'a \<Rightarrow> bool" +
  fixes limit :: u32
begin

definition pack_counted :: "'a list \<Rightarrow> slurm_buf \<Rightarrow> slurm_buf option" where
  "pack_counted xs b = pack32 (of_nat (length xs)) b \<bind> pack_each pk xs"

definition enc_counted :: "'a list \<Rightarrow> byte list" where
  "enc_counted xs = be_bytes 4 (length xs) @ concat (map enc xs)"

definition valid_all :: "'a list \<Rightarrow> bool" where
  "valid_all xs \<longleftrightarrow> length xs \<le> unat limit \<and> (\<forall>x \<in> set xs. valid x)"

lemma count_word: "valid_all xs \<Longrightarrow> unat (of_nat (length xs) :: u32) = length xs"
  using unsigned_less [of limit, where ?'a = nat] by (intro unat_of_nat32) (simp add: valid_all_def)

lemma pack_counted_packs:
  assumes "valid_all xs"
  shows "packs (pack_counted xs) (enc_counted xs)"
proof -
  have "packs (pack32 (of_nat (length xs))) (be_bytes 4 (length xs))"
    using c32.pack_law [of "of_nat (length xs)"] count_word [OF assms] by simp
  then show ?thesis
    unfolding pack_counted_def [abs_def] enc_counted_def using assms by (intro packs_bind pack_each_packs) (auto simp: valid_all_def)
qed

lemma unpack_array_unpacks:
  assumes "valid_all xs"
  shows "unpacks (unpack_array limit upk) (enc_counted xs) (map seen xs)"
  unfolding unpacks_def
proof (intro allI impI)
  fix b ys
  let ?n = "of_nat (length xs) :: u32"
  assume b: "buf_ok b \<and> unread b = enc_counted xs @ ys"
  note n = count_word [OF assms]
  obtain b1 where b1: "unpack32 b = Some (b1, Some ?n)" "buf_ok b1" "unread b1 = concat (map enc xs) @ ys"
    using unpacksE [OF unpack32_unpacks [of ?n], of b "concat (map enc xs) @ ys"] b n by (auto simp: enc_counted_def)
  obtain b2 where "unpack_each upk (length xs) b1 = Some (b2, Some (map seen xs))" "buf_ok b2" "unread b2 = ys"
    using unpacksE [OF unpack_each_unpacks b1(2,3)] assms by (auto simp: valid_all_def)
  moreover have "\<not> ?n > limit" using assms n by (simp add: word_less_nat_alt valid_all_def)
  ultimately show "\<exists>b'. unpack_array limit upk b = Some (b', Some (map seen xs)) \<and> buf_ok b' \<and> unread b' = ys"
    using b1 n by (simp add: unpack_array_def)
qed

lemma unpack_array_safe: "reads_safely (unpack_array limit upk)"
proof -
  let ?k = "\<lambda>b n. case n of None \<Rightarrow> Some (b, None) | Some n \<Rightarrow> if n > limit then Some (b, None) else unpack_each upk (unat n) b"
  have "unpack_array limit upk = (\<lambda>b. unpack32 b \<bind> (\<lambda>(b, n). ?k b n))" by (rule ext) (simp add: unpack_array_def)
  moreover have "reads_safely (\<lambda>b. ?k b (Some n))" for n
    using unpack_each_safe [of "unat n"] by (cases "n > limit") (simp_all add: reads_safely_def)
  ultimately show ?thesis using reads_safely_bind [OF unpack32_safe, of ?k] by simp
qed

end

sublocale array_codec \<subseteq> arr: codec pack_counted "unpack_array limit upk" enc_counted "map seen" valid_all
  by unfold_locales (fact pack_counted_packs unpack_array_unpacks unpack_array_safe)+

interpretation a16: array_codec pack16 unpack16 "\<lambda>v. be_bytes 2 (unat v)" "\<lambda>v. v" "\<lambda>_. True" NO_VAL32
  by unfold_locales

interpretation a32: array_codec pack32 unpack32 "\<lambda>v. be_bytes 4 (unat v)" "\<lambda>v. v" "\<lambda>_. True" NO_VAL32
  by unfold_locales

interpretation a64: array_codec pack64 unpack64 "\<lambda>v. be_bytes 8 (unat v)" "\<lambda>v. v" "\<lambda>_. True" NO_VAL32
  by unfold_locales

interpretation c6432: codec "\<lambda>v. pack32 (ucast v)" "\<lambda>b. map_option (map_prod (\<lambda>b. b) (map_option ucast)) (unpack32 b)"
    "\<lambda>v :: u64. be_bytes 4 (unat (ucast v :: u32))" "\<lambda>v. take_bit 32 v" "\<lambda>_. True"
proof
  fix v :: u64
  have v: "take_bit 32 v = ucast (ucast v :: u32)" by (rule bit_word_eqI) (auto simp: bit_simps)
  show "packs (pack32 (ucast v)) (be_bytes 4 (unat (ucast v :: u32)))" using c32.pack_law by simp
  show "unpacks (\<lambda>b. map_option (map_prod (\<lambda>b. b) (map_option ucast)) (unpack32 b)) (be_bytes 4 (unat (ucast v :: u32))) (take_bit 32 v)"
    unfolding v by (rule unpacks_map [OF unpack32_unpacks])
next
  show "reads_safely (\<lambda>b. map_option (map_prod (\<lambda>b. b) (map_option (ucast :: u32 \<Rightarrow> u64))) (unpack32 b))" by (rule reads_safely_map [OF unpack32_safe])
qed

interpretation a6432: array_codec "\<lambda>v. pack32 (ucast v)" "\<lambda>b. map_option (map_prod (\<lambda>b. b) (map_option ucast)) (unpack32 b)"
    "\<lambda>v :: u64. be_bytes 4 (unat (ucast v :: u32))" "\<lambda>v. take_bit 32 v" "\<lambda>_. True" NO_VAL32
  by unfold_locales

interpretation astr: array_codec packstr unpackmem_xmalloc "\<lambda>s. mem_enc (str_bytes s)" "\<lambda>s. null_if_empty (str_bytes s)"
    "\<lambda>s. length (str_bytes s) \<le> 0x40000000" MAX_PACK_ARRAY_LEN
  by unfold_locales

lemma arrays_eq:
  "pack16_array = a16.pack_counted" "pack32_array = a32.pack_counted" "pack64_array = a64.pack_counted"
  "pack64_array_as_32 = a6432.pack_counted"
  "unpack64_array_from_32 = unpack_array NO_VAL32 (\<lambda>b. map_option (map_prod (\<lambda>b. b) (map_option ucast)) (unpack32 b))"
  "unpack16_array = unpack_array NO_VAL32 unpack16" "unpack32_array = unpack_array NO_VAL32 unpack32"
  "unpack64_array = unpack_array NO_VAL32 unpack64" "unpackstr_array = unpack_array MAX_PACK_ARRAY_LEN unpackmem_xmalloc"
  by (simp_all add: fun_eq_iff pack16_array_def pack32_array_def pack64_array_def pack64_array_as_32_def unpack64_array_from_32_def a6432.pack_counted_def
      a16.pack_counted_def a32.pack_counted_def
      a64.pack_counted_def unpack16_array_def unpack32_array_def unpack64_array_def unpackstr_array_def)

lemma packstr_array_enc:
  assumes "astr.valid_all xs"
  shows "packs (packstr_array xs) (astr.enc_counted xs)"
proof (rule packsI)
  fix b
  assume b: "buf_ok b" "length (written b) + 2 * length (astr.enc_counted xs) + 0x4000 \<le> 0xffff0000"
  have "unat (buf_size b) + 0x4000 \<le> 0xffff0000" if "unat (remaining_buf b) < 4"
    using that b(2) buf_okD(4,5) [OF b(1)] by (simp add: astr.enc_counted_def)
  then have "\<not> (unat (remaining_buf b) < 4 \<and> buf_size b + BUF_SIZE > MAX_BUF_SIZE)"
    using unat_plus [of "buf_size b" BUF_SIZE] by (auto simp: word_less_nat_alt)
  then have "packstr_array xs b = astr.pack_counted xs b"
    by (simp only: packstr_array_def astr.pack_counted_def pack32_def if_False)
  then show "\<exists>b'. packstr_array xs b = Some b' \<and> buf_ok b' \<and> written b' = written b @ astr.enc_counted xs"
    using astr.pack_counted_packs [OF assms] b unfolding packs_def by simp
qed

end
