(* ===== verification/Pack_Message.thy ===== *)
theory Pack_Message
  imports Pack_Codec
begin

section \<open>Messages\<close>

text \<open>Sequences of packed values, their round trip, the safety of reading arbitrary bytes, and bit strings in messages.\<close>

subsection \<open>Messages\<close>

text \<open>A message is a sequence of values, packed by one call each; its reader knows their kinds. \<open>item_field\<close> is what
  the reader gets: a null pointer for empty memory, the low halves of integers sent as 32 bits, the bytes with the final null for a string.\<close>

datatype item =
  P64 u64 | P32 u32 | P16 u16 | P8 byte | PTime int | PMem "byte list" | PStr "string option"
| P16s "u16 list" | P32s "u32 list" | P64s "u64 list" | P64s32 "u64 list" | PStrs "string option list"

datatype kind = K64 | K32 | K16 | K8 | KTime | KMem | K16s | K32s | K64s | K64s32 | KStrs

datatype field =
  F64 u64 | F32 u32 | F16 u16 | F8 byte | FTime int | FMem "byte list option"
| F16s "u16 list" | F32s "u32 list" | F64s "u64 list" | FStrs "byte list option list"

fun pack_item :: "item \<Rightarrow> slurm_buf \<Rightarrow> slurm_buf option" where
  "pack_item (P64 v) = pack64 v"
| "pack_item (P32 v) = pack32 v"
| "pack_item (P16 v) = pack16 v"
| "pack_item (P8 v) = pack8 v"
| "pack_item (PTime t) = pack_time t"
| "pack_item (PMem bs) = packmem bs (of_nat (length bs))"
| "pack_item (PStr s) = packstr s"
| "pack_item (P16s vs) = pack16_array vs"
| "pack_item (P32s vs) = pack32_array vs"
| "pack_item (P64s vs) = pack64_array vs"
| "pack_item (P64s32 vs) = pack64_array_as_32 vs"
| "pack_item (PStrs ss) = packstr_array ss"

definition read_as :: "('a \<Rightarrow> field) \<Rightarrow> (slurm_buf \<Rightarrow> (slurm_buf \<times> 'a option) option) \<Rightarrow> slurm_buf \<Rightarrow> (slurm_buf \<times> field option) option" where
  "read_as F u b = map_option (map_prod (\<lambda>b. b) (map_option F)) (u b)"

fun unpack_item :: "kind \<Rightarrow> slurm_buf \<Rightarrow> (slurm_buf \<times> field option) option" where
  "unpack_item K64 = read_as F64 unpack64"
| "unpack_item K32 = read_as F32 unpack32"
| "unpack_item K16 = read_as F16 unpack16"
| "unpack_item K8 = read_as F8 unpack8"
| "unpack_item KTime = read_as FTime unpack_time"
| "unpack_item KMem = read_as FMem unpackmem_xmalloc"
| "unpack_item K16s = read_as F16s unpack16_array"
| "unpack_item K32s = read_as F32s unpack32_array"
| "unpack_item K64s = read_as F64s unpack64_array"
| "unpack_item K64s32 = read_as F64s unpack64_array_from_32"
| "unpack_item KStrs = read_as FStrs unpackstr_array"

fun item_kind :: "item \<Rightarrow> kind" where
  "item_kind (P64 v) = K64"
| "item_kind (P32 v) = K32"
| "item_kind (P16 v) = K16"
| "item_kind (P8 v) = K8"
| "item_kind (PTime t) = KTime"
| "item_kind (PMem bs) = KMem"
| "item_kind (PStr s) = KMem"
| "item_kind (P16s vs) = K16s"
| "item_kind (P32s vs) = K32s"
| "item_kind (P64s vs) = K64s"
| "item_kind (P64s32 vs) = K64s32"
| "item_kind (PStrs ss) = KStrs"

fun item_field :: "item \<Rightarrow> field" where
  "item_field (P64 v) = F64 v"
| "item_field (P32 v) = F32 v"
| "item_field (P16 v) = F16 v"
| "item_field (P8 v) = F8 v"
| "item_field (PTime t) = FTime t"
| "item_field (PMem bs) = FMem (null_if_empty bs)"
| "item_field (PStr s) = FMem (map_option c_bytes s)"
| "item_field (P16s vs) = F16s vs"
| "item_field (P32s vs) = F32s vs"
| "item_field (P64s vs) = F64s vs"
| "item_field (P64s32 vs) = F64s (map (take_bit 32) vs)"
| "item_field (PStrs ss) = FStrs (map (map_option c_bytes) ss)"

fun item_bytes :: "item \<Rightarrow> byte list" where
  "item_bytes (P64 v) = be_bytes 8 (unat v)"
| "item_bytes (P32 v) = be_bytes 4 (unat v)"
| "item_bytes (P16 v) = be_bytes 2 (unat v)"
| "item_bytes (P8 v) = [v]"
| "item_bytes (PTime t) = be_bytes 8 (unat (of_int t :: u64))"
| "item_bytes (PMem bs) = mem_enc bs"
| "item_bytes (PStr s) = mem_enc (str_bytes s)"
| "item_bytes (P16s vs) = be_bytes 4 (length vs) @ concat (map (\<lambda>v. be_bytes 2 (unat v)) vs)"
| "item_bytes (P32s vs) = be_bytes 4 (length vs) @ concat (map (\<lambda>v. be_bytes 4 (unat v)) vs)"
| "item_bytes (P64s vs) = be_bytes 4 (length vs) @ concat (map (\<lambda>v. be_bytes 8 (unat v)) vs)"
| "item_bytes (P64s32 vs) = be_bytes 4 (length vs) @ concat (map (\<lambda>v. be_bytes 4 (unat (ucast v :: u32))) vs)"
| "item_bytes (PStrs ss) = be_bytes 4 (length ss) @ concat (map (\<lambda>s. mem_enc (str_bytes s)) ss)"

text \<open>The limits of the code: a gigabyte per string or block, 128 K strings per array.\<close>

fun item_valid :: "item \<Rightarrow> bool" where
  "item_valid (PTime t) \<longleftrightarrow> - (2 ^ 63) \<le> t \<and> t < 2 ^ 63"
| "item_valid (PMem bs) \<longleftrightarrow> length bs \<le> 0x40000000"
| "item_valid (PStr s) \<longleftrightarrow> length (str_bytes s) \<le> 0x40000000"
| "item_valid (P16s vs) \<longleftrightarrow> length vs \<le> 0xfffffffe"
| "item_valid (P32s vs) \<longleftrightarrow> length vs \<le> 0xfffffffe"
| "item_valid (P64s vs) \<longleftrightarrow> length vs \<le> 0xfffffffe"
| "item_valid (P64s32 vs) \<longleftrightarrow> length vs \<le> 0xfffffffe"
| "item_valid (PStrs ss) \<longleftrightarrow> length ss \<le> 0x20000 \<and> (\<forall>s \<in> set ss. length (str_bytes s) \<le> 0x40000000)"
| "item_valid _ \<longleftrightarrow> True"

definition pack_items :: "item list \<Rightarrow> slurm_buf \<Rightarrow> slurm_buf option" where
  "pack_items = pack_each pack_item"

fun unpack_items :: "kind list \<Rightarrow> slurm_buf \<Rightarrow> (slurm_buf \<times> field list option) option" where
  "unpack_items [] b = Some (b, Some [])"
| "unpack_items (k # ks) b = do {
     (b, x) \<leftarrow> unpack_item k b;
     (case x of
        None \<Rightarrow> Some (b, None)
      | Some x \<Rightarrow> map_option (map_prod (\<lambda>b. b) (map_option (Cons x))) (unpack_items ks b))
   }"

lemma null_str_bytes: "null_if_empty (str_bytes s) = map_option c_bytes s"
  by (cases s) (simp_all add: null_if_empty_def str_bytes_def c_bytes_def)

lemma item_packs: "item_valid i \<Longrightarrow> packs (pack_item i) (item_bytes i)"
  using c64.pack_law c32.pack_law c16.pack_law c8.pack_law ctime.pack_law cmem.pack_law cstr.pack_law packstr_array_enc
    a16.pack_counted_packs a32.pack_counted_packs a64.pack_counted_packs a6432.pack_counted_packs
  by (cases i) (simp_all add: arrays_eq a16.enc_counted_def a32.enc_counted_def a64.enc_counted_def a6432.enc_counted_def astr.enc_counted_def
      a16.valid_all_def a32.valid_all_def a64.valid_all_def a6432.valid_all_def astr.valid_all_def)

lemma read_as_unpacks: "unpacks u bs x \<Longrightarrow> F x = f \<Longrightarrow> unpacks (read_as F u) bs f"
  using unpacks_map [of u bs x F] by (simp add: read_as_def [abs_def])

lemma read_as_safe: "reads_safely u \<Longrightarrow> reads_safely (read_as F u)"
  unfolding read_as_def [abs_def] by (rule reads_safely_map)

lemma item_unpacks: "item_valid i \<Longrightarrow> unpacks (unpack_item (item_kind i)) (item_bytes i) (item_field i)"
proof (cases i)
  case (P16s vs)
  assume "item_valid i"
  then show ?thesis using P16s a16.unpack_array_unpacks [of vs]
    by (auto simp: arrays_eq a16.enc_counted_def a16.valid_all_def intro!: read_as_unpacks)
next
  case (P32s vs)
  assume "item_valid i"
  then show ?thesis using P32s a32.unpack_array_unpacks [of vs]
    by (auto simp: arrays_eq a32.enc_counted_def a32.valid_all_def intro!: read_as_unpacks)
next
  case (P64s vs)
  assume "item_valid i"
  then show ?thesis using P64s a64.unpack_array_unpacks [of vs]
    by (auto simp: arrays_eq a64.enc_counted_def a64.valid_all_def intro!: read_as_unpacks)
next
  case (P64s32 vs)
  assume "item_valid i"
  then show ?thesis using P64s32 a6432.unpack_array_unpacks [of vs]
    by (auto simp: arrays_eq a6432.enc_counted_def a6432.valid_all_def intro!: read_as_unpacks)
next
  case (PStrs ss)
  assume "item_valid i"
  then show ?thesis using PStrs astr.unpack_array_unpacks [of ss]
    by (auto simp: arrays_eq astr.enc_counted_def astr.valid_all_def null_str_bytes intro!: read_as_unpacks)
qed (auto simp: null_str_bytes intro!: read_as_unpacks
    intro: c64.unpack_law c32.unpack_law c16.unpack_law c8.unpack_law ctime.unpack_law cmem.unpack_law cstr.unpack_law)

lemma item_safe: "reads_safely (unpack_item k)"
  using c64.safe_law c32.safe_law c16.safe_law c8.safe_law ctime.safe_law cmem.safe_law
    a16.arr.safe_law a32.arr.safe_law a64.arr.safe_law a6432.arr.safe_law astr.arr.safe_law
  by (cases k) (simp_all add: read_as_safe arrays_eq)

lemma items_pack: "\<forall>i \<in> set items. item_valid i \<Longrightarrow> packs (pack_items items) (concat (map item_bytes items))"
proof (induction items)
  case Nil
  have "pack_items [] = Some" by (rule ext) (simp add: pack_items_def)
  then show ?case by (simp add: packs_Some)
next
  case (Cons i items)
  have "pack_items (i # items) = (\<lambda>b. pack_item i b \<bind> pack_items items)" by (rule ext) (simp add: pack_items_def)
  then show ?case using packs_bind [OF item_packs Cons.IH] Cons.prems by simp
qed

lemma items_unpack:
  "\<forall>i \<in> set items. item_valid i \<Longrightarrow> unpacks (unpack_items (map item_kind items)) (concat (map item_bytes items)) (map item_field items)"
proof (induction items)
  case Nil
  then show ?case by (simp add: unpacks_def)
next
  case (Cons i items)
  show ?case
    unfolding unpacks_def
  proof (intro allI impI)
    fix b ys
    assume b: "buf_ok b \<and> unread b = concat (map item_bytes (i # items)) @ ys"
    obtain b1 where b1: "unpack_item (item_kind i) b = Some (b1, Some (item_field i))" "buf_ok b1" "unread b1 = concat (map item_bytes items) @ ys"
      using unpacksE [OF item_unpacks, of i b] Cons.prems b by auto
    obtain b2 where "unpack_items (map item_kind items) b1 = Some (b2, Some (map item_field items))" "buf_ok b2" "unread b2 = ys"
      using unpacksE [OF Cons.IH b1(2,3)] Cons.prems by auto
    then show "\<exists>b'. unpack_items (map item_kind (i # items)) b = Some (b', Some (map item_field (i # items))) \<and> buf_ok b' \<and> unread b' = ys"
      using b1 by simp
  qed
qed

lemma items_safe: "reads_safely (unpack_items ks)"
proof (induction ks)
  case Nil
  then show ?case by (simp add: reads_safely_def)
next
  case (Cons k ks)
  let ?k = "\<lambda>b r. case r of None \<Rightarrow> Some (b, None)
      | Some x \<Rightarrow> map_option (map_prod (\<lambda>b. b) (map_option (Cons x))) (unpack_items ks b)"
  have "unpack_items (k # ks) = (\<lambda>b. unpack_item k b \<bind> (\<lambda>(b, r). ?k b r))" by (rule ext) simp
  moreover have "reads_safely (\<lambda>b. unpack_item k b \<bind> (\<lambda>(b, r). ?k b r))"
    by (rule reads_safely_bind [OF item_safe]) (simp_all add: reads_safely_map [OF Cons])
  ultimately show ?case by simp
qed

text \<open>New buffers: an empty one to write to, and one that holds received bytes.\<close>

lemma init_buf_ok:
  assumes "unat n \<le> 0xffff0000"
  obtains b where "init_buf n = Some b" "buf_ok b" "written b = []"
proof -
  let ?n = "if n = 0 then BUF_SIZE else n"
  let ?b = "\<lparr>buf_magic = BUF_MAGIC, buf_head = replicate (unat ?n) 0, buf_size = ?n, buf_processed = 0\<rparr>"
  have "init_buf n = Some ?b" using assms by (simp add: init_buf_def word_less_nat_alt)
  moreover have "buf_ok ?b" using assms by (intro buf_okI) auto
  ultimately show thesis using that by (simp add: written_def)
qed

lemma create_buf_ok:
  assumes "length data \<le> 0xffff0000"
  obtains b where "create_buf data (of_nat (length data)) = Some b" "buf_ok b" "unread b = data"
proof -
  let ?b = "\<lparr>buf_magic = BUF_MAGIC, buf_head = data, buf_size = of_nat (length data), buf_processed = 0\<rparr>"
  have n: "unat (of_nat (length data) :: u32) = length data" using assms by (intro unat_of_nat32) simp
  have "create_buf data (of_nat (length data)) = Some ?b" using assms n by (simp add: create_buf_def word_less_nat_alt)
  moreover have "buf_ok ?b" using assms n by (intro buf_okI) auto
  ultimately show thesis using that by (simp add: unread_def)
qed

lemma remaining_zero: "buf_ok b \<Longrightarrow> remaining_buf b = 0 \<longleftrightarrow> unread b = []"
  using buf_okD(4,6) [of b] by (metis length_0_conv unat_0 unat_eq_zero)

text \<open>What is written is received: a writer and a reader that agree on the bytes and the value.\<close>

lemma transfer:
  assumes p: "packs f bs" and u: "unpacks g bs x" and n: "unat n \<le> 0xffff0000" and l: "2 * length bs + 0x4000 \<le> 0xffff0000"
  shows "\<exists>b0 b c d. init_buf n = Some b0 \<and> f b0 = Some b \<and> create_buf (written b) (buf_processed b) = Some c \<and>
    g c = Some (d, Some x) \<and> remaining_buf d = 0"
proof -
  obtain b0 where b0: "init_buf n = Some b0" "buf_ok b0" "written b0 = []" using init_buf_ok [OF n] .
  obtain b where b: "f b0 = Some b" "buf_ok b" "written b = bs" using packsE [OF p b0(2)] b0(3) l by auto
  have "of_nat (length (written b)) = buf_processed b" using buf_okD(5) [OF b(2)] by simp
  moreover obtain c where c: "create_buf bs (of_nat (length bs)) = Some c" "buf_ok c" "unread c = bs"
    using create_buf_ok [of bs] l by auto
  moreover obtain d where "g c = Some (d, Some x)" "buf_ok d" "unread d = []" using unpacksE [OF u c(2), of "[]"] c(3) by auto
  ultimately show ?thesis using b0 b remaining_zero by auto
qed

text \<open>C22 (roundtrip): a message of integers, times, memory, strings and arrays within the limits, packed one call after the other
  into a new buffer of any initial size, is read back from its bytes value for value, and nothing remains.\<close>

theorem message_roundtrip:
  assumes "\<forall>i \<in> set items. item_valid i" "2 * length (concat (map item_bytes items)) + 0x4000 \<le> 0xffff0000" "unat n \<le> 0xffff0000"
  shows "\<exists>b0 b c d. init_buf n = Some b0 \<and> pack_items items b0 = Some b \<and> create_buf (written b) (buf_processed b) = Some c \<and>
    unpack_items (map item_kind items) c = Some (d, Some (map item_field items)) \<and> remaining_buf d = 0"
  by (rule transfer [OF items_pack [OF assms(1)] items_unpack [OF assms(1)] assms(3,2)])

theorem message_roundtrip_witness:
  "\<exists>b0 b c d. init_buf 4 = Some b0 \<and> pack_items [P32 7, PStr (Some ''ab''), PStrs [None, Some ''''], PTime (- 1)] b0 = Some b \<and>
    create_buf (written b) (buf_processed b) = Some c \<and>
    unpack_items [K32, KMem, KStrs, KTime] c = Some (d, Some [F32 7, FMem (Some [97, 98, 0]), FStrs [None, Some [0]], FTime (- 1)]) \<and> remaining_buf d = 0"
  using message_roundtrip [of "[P32 7, PStr (Some ''ab''), PStrs [None, Some ''''], PTime (- 1)]" 4]
  by (simp add: c_bytes_def str_bytes_def mem_enc_def)

text \<open>C23 (safety): whatever bytes arrive and whatever sequence of values is read from them, no read leaves the buffer: the
  reader ends with the values or with an error, at a position inside the buffer.\<close>

theorem unpack_stays_inside:
  assumes "length data \<le> 0xffff0000"
  shows "\<exists>c d r. create_buf data (of_nat (length data)) = Some c \<and> unpack_items ks c = Some (d, r) \<and> buf_ok d \<and>
    unat (buf_processed d) \<le> length data"
proof -
  obtain c where c: "create_buf data (of_nat (length data)) = Some c" "buf_ok c" "unread c = data" using create_buf_ok [OF assms] .
  obtain d r where d: "unpack_items ks c = Some (d, r)" "buf_ok d" "buf_size d = buf_size c" by (rule reads_safelyE [OF items_safe c(2)])
  have "unat (buf_size c) = length data" using c(1) assms unat_of_nat32 [of "length data"] by (auto simp: create_buf_def split: if_splits)
  then show ?thesis using c d buf_okD(2) [OF d(2)] by auto
qed

theorem unpack_stays_inside_witness:
  "\<exists>c d r. create_buf [0, 0, 0, 9, 65] 5 = Some c \<and> unpack_items [KMem, K64] c = Some (d, r) \<and> buf_ok d \<and>
    unat (buf_processed d) \<le> length [0 :: byte, 0, 0, 9, 65]"
  using unpack_stays_inside [of "[0, 0, 0, 9, 65]" "[KMem, K64]"] by simp

lemma packmem_wraps:
  assumes ok: "buf_ok b" and n: "unat n \<le> 0x40000000" and full: "unat (remaining_buf b) < 4 + unat n"
    and over: "0x100000000 \<le> unat (buf_size b) + unat n + 0x4000"
  shows "packmem valp n b = None"
proof -
  note d = buf_okD [OF ok]
  have nb: "unat (n + BUF_SIZE) = unat n + 0x4000" using n unat_plus [of n BUF_SIZE] by simp
  have s: "unat (buf_size b + (n + BUF_SIZE)) = unat (buf_size b) + unat n + 0x4000 - 0x100000000"
    using over nb d(3) n by (simp add: unat_word_ariths(1) [of "buf_size b"] le_mod_geq)
  have "\<not> n > MAX_PACK_MEM_LEN" "\<not> buf_size b + n + BUF_SIZE > MAX_BUF_SIZE"
    using n s d(3) by (simp_all add: word_less_nat_alt add.assoc)
  moreover have "\<not> unat (buf_processed b) + 4 \<le> unat (buf_size b + (n + BUF_SIZE))" using s full d(2,4) n by simp
  moreover have "length (buf_head (buf_realloc (b\<lparr>buf_size := buf_size b + (n + BUF_SIZE)\<rparr>))) = unat (buf_size b + (n + BUF_SIZE))"
    using d(1) by (simp add: buf_realloc_def)
  ultimately show ?thesis using full by (simp add: packmem_def Let_def buf_put_def buf_realloc_def)
qed

text \<open>\<open>packmem\<close> computes the new size of the buffer in 32 bits. If that overflows, the check against the limit
  passes, the buffer shrinks, and the copy leaves it.\<close>

theorem packmem_overflow:
  assumes ok: "buf_ok b" and n: "unat n \<le> 0x40000000" and full: "unat (remaining_buf b) < 4 + unat n"
    and over: "0x100000000 \<le> unat (buf_size b) + unat n + 0x4000"
  shows "packmem valp n b = None"
  by (rule packmem_wraps [OF assms])

theorem packmem_overflow_witness:
  "packmem (replicate 0x40000000 0) 0x40000000 \<lparr>buf_magic = BUF_MAGIC, buf_head = replicate 0xc0000000 0, buf_size = 0xc0000000, buf_processed = 0xc0000000\<rparr> = None"
  using packmem_overflow [of "\<lparr>buf_magic = BUF_MAGIC, buf_head = replicate 0xc0000000 0, buf_size = 0xc0000000, buf_processed = 0xc0000000\<rparr>" "0x40000000"]
  by (simp add: buf_ok_def MAX_BUF_SIZE_def remaining_buf_def)

subsection \<open>Bit strings in messages\<close>

lemma hex_char_nonzero: "n < 16 \<Longrightarrow> hex_char n \<noteq> CHR 0x00"
  using hex_val_char [of n] by (auto simp: hex_val_def)

lemma nibs_text: "0 \<le> i \<Longrightarrow> CHR 0x00 \<notin> set (nibs b i) \<and> length (nibs b i) \<le> nat (bs_bits b - i)"
proof (induction b i rule: nibs.induct)
  case (1 b i)
  show ?case
  proof (cases "i < bs_bits b")
    case True
    then show ?thesis using 1 hex_char_nonzero [OF nib_less [of b i]] by (subst (1 2) nibs.simps) auto
  qed (simp add: nibs.simps)
qed

lemma hexmask_restores:
  assumes b: "wf_bitstr b" and d: "wf_bitstr d" "bs_bits d = bs_bits b" "0 < bs_bits b"
  obtains h c where "bit_fmt_hexmask b = Some h" "CHR 0x00 \<notin> set h" "length h \<le> nat (bs_bits b) + 2"
    "bit_unfmt_hexmask d h = Some (c, 0)" "wf_bitstr c" "bs_bits c = bs_bits b" "bitset c = bitset b"
proof -
  let ?h = "''0x'' @ rev (nibs b 0)"
  define d0 where "d0 = with_bits d (\<lambda>j. \<not> (0 \<le> j \<and> j \<le> bs_bits d - 1) \<and> bit_at d j)"
  have n: "bit_nclear d 0 (bs_bits d - 1) = Some d0" using bit_nclear_eq [OF d(1), of 0 "bs_bits d - 1"] d(2,3) by (simp add: d0_def)
  have "wf_bitstr d0" "bs_bits d0 = bs_bits b" using d by (simp_all add: d0_def)
  then obtain c where c: "unhex_loop (nibs b 0) d0 0 0 = Some (c, 0)" "wf_bitstr c" "bs_bits c = bs_bits b"
      "bitset c = bitset d0 \<union> {j \<in> bitset b. 0 \<le> j}" using unhex_nibs [of d0 b 0 0] by auto
  have "bitset d0 = {}" unfolding d0_def bitset_with_bits [OF d(1)] by auto
  then have e: "bitset c = bitset b" using c(4) by (auto simp: bitset_def)
  have sz: "bit_size b = Some (bs_bits b)" "bit_size d = Some (bs_bits d)" using b d(1) by (simp_all add: bit_size_def wf_bitstr_def)
  have "bit_fmt_hexmask b = Some ?h" using hexmask_nibs [OF b, of 0] sz by (simp add: bit_fmt_hexmask_def)
  moreover have "bit_unfmt_hexmask d ?h = Some (c, 0)" using sz n c(1) by (simp add: bit_unfmt_hexmask_def)
  moreover have "CHR 0x00 \<notin> set ?h" "length ?h \<le> nat (bs_bits b) + 2" using nibs_text [of 0 b] by auto
  ultimately show thesis using that c e by blast
qed

definition hex_enc :: "bitstr \<Rightarrow> byte list" where
  "hex_enc m = be_bytes 4 (nat (bs_bits m)) @ (case bit_fmt_hexmask m of None \<Rightarrow> [] | Some h \<Rightarrow> mem_enc (c_bytes h))"

lemma bits_word:
  assumes "wf_bitstr m"
  shows "uint (of_int (bs_bits m) :: u32) = bs_bits m" "unat (of_int (bs_bits m) :: u32) = nat (bs_bits m)" "(of_int (bs_bits m) :: u32) \<noteq> NO_VAL32"
proof -
  have b: "0 \<le> bs_bits m" "bs_bits m \<le> 0x40000000" using assms by (simp_all add: wf_bitstr_def valid_size_def)
  show u: "uint (of_int (bs_bits m) :: u32) = bs_bits m" using b by (simp add: unsigned_of_int take_bit_int_eq_self)
  show "unat (of_int (bs_bits m) :: u32) = nat (bs_bits m)" using u by (simp add: unat_eq_nat_uint)
  then show "(of_int (bs_bits m) :: u32) \<noteq> NO_VAL32" using b by (auto simp: NO_VAL32_def)
qed

lemma hex_packs:
  assumes m: "wf_bitstr m" "0 < bs_bits m" "bs_bits m < 0x3ffffff0"
  shows "packs (pack_bit_str_hex (Some m)) (hex_enc m)" "length (hex_enc m) \<le> nat (bs_bits m) + 11"
proof -
  obtain h c where h: "bit_fmt_hexmask m = Some h" "length h \<le> nat (bs_bits m) + 2"
    using hexmask_restores [OF m(1) m(1) refl m(2)] by metis
  have l: "length (c_bytes h) = length h + 1" by (simp add: c_bytes_def)
  have hl: "length h + 1 \<le> 0x40000000" using h(2) m(3) by linarith
  have p: "packs (packmem (c_bytes h) (of_nat (length h) + 1)) (mem_enc (c_bytes h))"
    using packmem_enc [of "c_bytes h"] hl unfolding l by (simp add: add.commute)
  have q: "packs (pack32 (of_int (bs_bits m))) (be_bytes 4 (nat (bs_bits m)))"
    using c32.pack_law [of "of_int (bs_bits m)"] bits_word(2) [OF m(1)] by simp
  have e: "hex_enc m = be_bytes 4 (nat (bs_bits m)) @ mem_enc (c_bytes h)" using h(1) by (simp add: hex_enc_def)
  show "length (hex_enc m) \<le> nat (bs_bits m) + 11" using h(2) by (simp add: e mem_enc_def l)
  show "packs (pack_bit_str_hex (Some m)) (hex_enc m)"
    unfolding e
  proof (rule packsI)
    fix b
    assume b: "buf_ok b" "length (written b) + 2 * length (be_bytes 4 (nat (bs_bits m)) @ mem_enc (c_bytes h)) + 0x4000 \<le> 0xffff0000"
    have "pack_bit_str_hex (Some m) b = pack32 (of_int (bs_bits m)) b \<bind> packmem (c_bytes h) (of_nat (length h) + 1)"
      using buf_okD(7) [OF b(1)] h(1) m(1) by (simp add: pack_bit_str_hex_def bit_size_def wf_bitstr_def)
    then show "\<exists>b'. pack_bit_str_hex (Some m) b = Some b' \<and> buf_ok b' \<and> written b' = written b @ be_bytes 4 (nat (bs_bits m)) @ mem_enc (c_bytes h)"
      using packs_bind [OF q p] b unfolding packs_def by simp
  qed
qed

lemma hex_unpacks:
  assumes m: "wf_bitstr m" "0 < bs_bits m" "bs_bits m < 0x3ffffff0"
  obtains c where "unpacks unpack_bit_str_hex (hex_enc m) (Some c)" "wf_bitstr c" "bs_bits c = bs_bits m" "bitset c = bitset m"
proof -
  have vs: "valid_size (bs_bits m)" using m(1) by (simp add: wf_bitstr_def)
  obtain z where z: "bit_alloc (bs_bits m) = Some z" "wf_bitstr z" "bs_bits z = bs_bits m" by (rule bit_allocE [OF vs])
  obtain h c where h: "bit_fmt_hexmask m = Some h" "CHR 0x00 \<notin> set h" "length h \<le> nat (bs_bits m) + 2"
    "bit_unfmt_hexmask z h = Some (c, 0)" "wf_bitstr c" "bs_bits c = bs_bits m" "bitset c = bitset m"
    by (rule hexmask_restores [OF m(1) z(2,3) m(2)])
  have ne: "null_if_empty (c_bytes h) = Some (c_bytes h)" by (simp add: null_if_empty_def c_bytes_def)
  have hl: "length (c_bytes h) \<le> 0x40000000" using h(3) m(3) by (simp add: c_bytes_def)
  have "unpacks unpack_bit_str_hex (hex_enc m) (Some c)"
    unfolding unpacks_def
  proof (intro allI impI)
    fix b ys
    let ?n = "of_int (bs_bits m) :: u32"
    assume b: "buf_ok b \<and> unread b = hex_enc m @ ys"
    obtain b1 where b1: "unpack32 b = Some (b1, Some ?n)" "buf_ok b1" "unread b1 = mem_enc (c_bytes h) @ ys"
      using unpacksE [OF unpack32_unpacks [of ?n], of b "mem_enc (c_bytes h) @ ys"] b bits_word(2) [OF m(1)] h(1) by (auto simp: hex_enc_def)
    obtain b2 where "unpackmem_xmalloc b1 = Some (b2, Some (Some (c_bytes h)))" "buf_ok b2" "unread b2 = ys"
      using unpacksE [OF unpackmem_unpacks [OF hl] b1(2,3)] ne by auto
    then show "\<exists>b'. unpack_bit_str_hex b = Some (b', Some (Some c)) \<and> buf_ok b' \<and> unread b' = ys"
      using b b1(1) bits_word(1,3) [OF m(1)] z(1) h(4) c_string_bytes [OF h(2)] buf_okD(7) [of b] by (simp add: unpack_bit_str_hex_def)
  qed
  then show thesis using that h by blast
qed

text \<open>A bit string that travels as its size and hexadecimal mask arrives as the same set of the same size.\<close>

theorem bitmap_message_roundtrip:
  assumes "wf_bitstr m" "0 < bs_bits m" "bs_bits m < 0x3ffffff0"
  shows "\<exists>b0 b c d r. init_buf 0 = Some b0 \<and> pack_bit_str_hex (Some m) b0 = Some b \<and> create_buf (written b) (buf_processed b) = Some c \<and>
    unpack_bit_str_hex c = Some (d, Some (Some r)) \<and> remaining_buf d = 0 \<and> wf_bitstr r \<and> bs_bits r = bs_bits m \<and> bitset r = bitset m"
proof -
  obtain r where r: "unpacks unpack_bit_str_hex (hex_enc m) (Some r)" "wf_bitstr r" "bs_bits r = bs_bits m" "bitset r = bitset m"
    by (rule hex_unpacks [OF assms])
  have "2 * length (hex_enc m) + 0x4000 \<le> 0xffff0000" using hex_packs(2) [OF assms] assms(3) by linarith
  then show ?thesis using transfer [OF hex_packs(1) [OF assms] r(1), of 0] r by fastforce
qed

theorem bitmap_message_roundtrip_witness:
  "\<exists>b0 b c d r. init_buf 0 = Some b0 \<and> pack_bit_str_hex (Some ten_bits) b0 = Some b \<and> create_buf (written b) (buf_processed b) = Some c \<and>
    unpack_bit_str_hex c = Some (d, Some (Some r)) \<and> remaining_buf d = 0 \<and> wf_bitstr r \<and> bs_bits r = 10 \<and> bitset r = {0, 2, 3, 9}"
  using bitmap_message_roundtrip [of ten_bits] by simp

text \<open>The receiver of a bit string trusts the mask: an empty one is a null pointer that is dereferenced.\<close>

lemma unpack_bit_str_hex_crash:
  "unpack_bit_str_hex \<lparr>buf_magic = BUF_MAGIC, buf_head = [0, 0, 0, 1, 0, 0, 0, 0], buf_size = 8, buf_processed = 0\<rparr> = None"
  by (simp add: unpack_bit_str_hex_def unpack32_def unpack_fixed_def unpackmem_xmalloc_def unpack_sized_def remaining_buf_def buf_get_def
      be_val_def NO_VAL32_def null_if_empty_def bit_alloc_def MAX_PACK_MEM_LEN_def)

subsection \<open>Buffers stay well-formed\<close>

definition keeps_buffer :: "(slurm_buf \<Rightarrow> slurm_buf option) \<Rightarrow> bool" where
  "keeps_buffer f \<longleftrightarrow> (\<forall>b b'. buf_ok b \<and> f b = Some b' \<longrightarrow> buf_ok b' \<and> (\<exists>bs. written b' = written b @ bs))"

lemma keeps_bufferI: "(\<And>b b'. buf_ok b \<Longrightarrow> f b = Some b' \<Longrightarrow> buf_ok b' \<and> (\<exists>bs. written b' = written b @ bs)) \<Longrightarrow> keeps_buffer f"
  unfolding keeps_buffer_def by blast

lemma keeps_bufferD: "keeps_buffer f \<Longrightarrow> buf_ok b \<Longrightarrow> f b = Some b' \<Longrightarrow> buf_ok b' \<and> (\<exists>bs. written b' = written b @ bs)"
  by (simp add: keeps_buffer_def)

lemma keeps_bind:
  assumes "keeps_buffer f" "keeps_buffer g"
  shows "keeps_buffer (\<lambda>b. f b \<bind> g)"
proof (rule keeps_bufferI)
  fix b b'
  assume "buf_ok b" "f b \<bind> g = Some b'"
  moreover from this obtain b1 where "f b = Some b1" "g b1 = Some b'" by (auto simp: bind_eq_Some_conv)
  ultimately show "buf_ok b' \<and> (\<exists>bs. written b' = written b @ bs)"
    using keeps_bufferD [OF assms(1), of b b1] keeps_bufferD [OF assms(2), of b1 b'] by auto
qed

lemma buf_put_keeps: "keeps_buffer (buf_put bs)"
proof (rule keeps_bufferI)
  fix b b'
  assume b: "buf_ok b" "buf_put bs b = Some b'"
  then have "unat (buf_processed b) + length bs \<le> unat (buf_size b)"
    using buf_okD(1) [OF b(1)] by (auto simp: buf_put_def Let_def split: if_splits)
  then obtain c where "buf_put bs b = Some c" "buf_ok c" "written c = written b @ bs" by (rule buf_put_ok [OF b(1)])
  then show "buf_ok b' \<and> (\<exists>bs. written b' = written b @ bs)" using b(2) by auto
qed

lemma pack_fixed_keeps: "keeps_buffer (pack_fixed bs)"
proof (rule keeps_bufferI)
  fix b b'
  assume b: "buf_ok b" "pack_fixed bs b = Some b'"
  let ?c = "buf_realloc (b\<lparr>buf_size := buf_size b + BUF_SIZE\<rparr>)"
  have s: "unat (buf_size b) + unat BUF_SIZE \<le> 0xffff0000" if "\<not> buf_size b + BUF_SIZE > MAX_BUF_SIZE"
    using that buf_okD(3) [OF b(1)] unat_plus [of "buf_size b" BUF_SIZE] by (simp add: word_less_nat_alt)
  consider "b' = b" | "buf_put bs b = Some b'" | "buf_put bs ?c = Some b'" "\<not> buf_size b + BUF_SIZE > MAX_BUF_SIZE"
    using b(2) unfolding pack_fixed_def by (cases "unat (remaining_buf b) < length bs"; cases "buf_size b + BUF_SIZE > MAX_BUF_SIZE") simp_all
  then show "buf_ok b' \<and> (\<exists>bs. written b' = written b @ bs)"
  proof cases
    case 3
    then show ?thesis using keeps_bufferD [OF buf_put_keeps buf_grow_ok(1) [OF b(1) s] 3(1)] buf_grow_ok(2) [OF b(1) s] by simp
  qed (use b keeps_bufferD [OF buf_put_keeps] in auto)
qed

text \<open>Values of fixed size are dropped when a buffer at its limit cannot grow, so packing them always returns.\<close>

definition always_packs :: "(slurm_buf \<Rightarrow> slurm_buf option) \<Rightarrow> bool" where
  "always_packs f \<longleftrightarrow> keeps_buffer f \<and> (\<forall>b. buf_ok b \<longrightarrow> f b \<noteq> None)"

lemma always_bind:
  assumes "always_packs f" "always_packs g"
  shows "always_packs (\<lambda>b. f b \<bind> g)"
  unfolding always_packs_def
proof (intro conjI allI impI)
  show "keeps_buffer (\<lambda>b. f b \<bind> g)" using assms keeps_bind by (auto simp: always_packs_def)
  fix b
  assume b: "buf_ok b"
  then obtain b1 where b1: "f b = Some b1" using assms(1) by (auto simp: always_packs_def)
  then have "buf_ok b1" using keeps_bufferD [of f b b1] assms(1) b by (simp add: always_packs_def)
  then show "f b \<bind> g \<noteq> None" using assms(2) b1 by (simp add: always_packs_def)
qed

lemma pack_fixed_always:
  assumes "length bs \<le> 0x4000"
  shows "always_packs (pack_fixed bs)"
  unfolding always_packs_def
proof (intro conjI allI impI)
  show "keeps_buffer (pack_fixed bs)" by (rule pack_fixed_keeps)
  fix b
  assume b: "buf_ok b"
  note d = buf_okD [OF b]
  have rem: "unat (remaining_buf b) = unat (buf_size b) - unat (buf_processed b)"
    using d by (simp add: remaining_buf_def unat_sub word_le_nat_alt)
  show "pack_fixed bs b \<noteq> None"
  proof (cases "unat (remaining_buf b) < length bs")
    case False
    then have "unat (buf_processed b) + length bs \<le> unat (buf_size b)" using rem d(2) by linarith
    then obtain b' where "buf_put bs b = Some b'" by (rule buf_put_ok [OF b])
    then show ?thesis using False by (simp add: pack_fixed_def)
  next
    case full: True
    show ?thesis
    proof (cases "buf_size b + BUF_SIZE > MAX_BUF_SIZE")
      case False
      have s: "unat (buf_size b) + unat BUF_SIZE \<le> 0xffff0000"
        using False d(3) unat_plus [of "buf_size b" BUF_SIZE] by (simp add: word_less_nat_alt)
      note g = buf_grow_ok [OF b s]
      obtain b' where "buf_put bs (buf_realloc (b\<lparr>buf_size := buf_size b + BUF_SIZE\<rparr>)) = Some b'"
        using buf_put_ok [OF g(1), of bs] g(3,4) d assms by (auto simp: BUF_SIZE_def)
      then show ?thesis using full False by (simp add: pack_fixed_def)
    qed (use full in \<open>simp add: pack_fixed_def\<close>)
  qed
qed

lemma pack_int_always: "always_packs (pack64 v)" "always_packs (pack32 w)" "always_packs (pack16 x)" "always_packs (pack8 y)" "always_packs (pack_time t)"
  unfolding pack64_def [abs_def] pack32_def [abs_def] pack16_def [abs_def] pack8_def [abs_def] pack_time_def [abs_def]
  by (rule pack_fixed_always, simp)+

lemma pack_each_always: "(\<And>x. always_packs (f x)) \<Longrightarrow> always_packs (pack_each f xs)"
proof (induction xs)
  case Nil
  then show ?case by (simp add: always_packs_def keeps_buffer_def)
next
  case (Cons x xs)
  have "pack_each f (x # xs) = (\<lambda>b. f x b \<bind> pack_each f xs)" by (rule ext) simp
  then show ?case using always_bind [OF Cons.prems Cons.IH] Cons.prems by simp
qed

fun has_bytes :: "item \<Rightarrow> bool" where
  "has_bytes (PMem bs) \<longleftrightarrow> True"
| "has_bytes (PStr s) \<longleftrightarrow> True"
| "has_bytes (PStrs ss) \<longleftrightarrow> True"
| "has_bytes _ \<longleftrightarrow> False"

lemma pack_item_always: "\<not> has_bytes i \<Longrightarrow> always_packs (pack_item i)"
  by (cases i) (auto simp: pack16_array_def [abs_def] pack32_array_def [abs_def] pack64_array_def [abs_def] pack64_array_as_32_def [abs_def]
      intro: pack_int_always always_bind pack_each_always)

lemma pack_items_always: "\<forall>i \<in> set items. \<not> has_bytes i \<Longrightarrow> always_packs (pack_items items)"
proof (induction items)
  case Nil
  then show ?case by (simp add: pack_items_def always_packs_def keeps_buffer_def)
next
  case (Cons i items)
  have "pack_items (i # items) = (\<lambda>b. pack_item i b \<bind> pack_items items)" by (rule ext) (simp add: pack_items_def)
  then show ?case using always_bind [OF pack_item_always [of i] Cons.IH] Cons.prems by simp
qed

text \<open>C24 (functional): packing stays inside the buffer and never disturbs what is there. Behind whatever a well-formed buffer holds, valid values
  whose encodings leave room in the limit of the buffer are packed without a failure, the buffer growing as needed: their encodings are appended, byte by byte, to
  what was written, and the buffer stays well-formed. Beyond that limit too, packing integers, times and arrays of integers always returns
  with a well-formed buffer and the earlier contents; what does not fit is dropped. For texts and memory blocks that is false
  (\<open>packmem_overflow\<close>).\<close>

theorem pack_appends:
  assumes "buf_ok b"
  shows "((\<forall>i \<in> set items. item_valid i) \<and> length (written b) + 2 * length (concat (map item_bytes items)) + 0x4000 \<le> 0xffff0000 \<longrightarrow>
      (\<exists>b'. pack_items items b = Some b' \<and> buf_ok b' \<and> written b' = written b @ concat (map item_bytes items)))
    \<and> ((\<forall>i \<in> set items. \<not> has_bytes i) \<longrightarrow> (\<exists>b' bs. pack_items items b = Some b' \<and> buf_ok b' \<and> written b' = written b @ bs))"
proof (intro conjI impI)
  assume "(\<forall>i \<in> set items. item_valid i) \<and> length (written b) + 2 * length (concat (map item_bytes items)) + 0x4000 \<le> 0xffff0000"
  then show "\<exists>b'. pack_items items b = Some b' \<and> buf_ok b' \<and> written b' = written b @ concat (map item_bytes items)"
    using packsE [OF items_pack assms, of items] by blast
next
  assume "\<forall>i \<in> set items. \<not> has_bytes i"
  then have a: "always_packs (pack_items items)" by (rule pack_items_always)
  then obtain b' where b': "pack_items items b = Some b'" using assms by (auto simp: always_packs_def)
  then show "\<exists>b' bs. pack_items items b = Some b' \<and> buf_ok b' \<and> written b' = written b @ bs"
    using keeps_bufferD [of "pack_items items" b b'] a assms by (auto simp: always_packs_def)
qed

theorem pack_appends_witness:
  "\<exists>b b'. init_buf 4 = Some b \<and> pack_items [P64 1, P8 7] b = Some b' \<and> buf_ok b' \<and> written b' = [0, 0, 0, 0, 0, 0, 0, 1, 7]"
proof -
  obtain b where b: "init_buf 4 = Some b" "buf_ok b" "written b = []" by (rule init_buf_ok [of 4]) simp
  have e: "concat (map item_bytes [P64 1, P8 7]) = [0, 0, 0, 0, 0, 0, 0, 1, 7]" by code_simp
  show ?thesis using b pack_appends [OF b(2), of "[P64 1, P8 7]"] unfolding e by auto
qed

end
