(* ===== verification/C_Double.thy ===== *)
theory C_Double
  imports Slurm_Prelude Complex_Main
begin

section \<open>Doubles\<close>

text \<open>
  C doubles without rounding: the finite values are rationals, with one zero and no largest value,
  next to the infinities and the result of invalid operations, so that divisions by zero, comparisons that involve
  \<open>NaN\<close>, and conversions to integers behave as in C. A conversion that C leaves undefined has no value.
\<close>

datatype dbl = Fin rat | PInf | MInf | NaN

definition dbl_inf :: "rat \<Rightarrow> dbl" where
  "dbl_inf s = (if s > 0 then PInf else if s < 0 then MInf else NaN)"

fun dbl_sign :: "dbl \<Rightarrow> rat" where
  "dbl_sign (Fin a) = sgn a"
| "dbl_sign PInf = 1"
| "dbl_sign MInf = - 1"
| "dbl_sign NaN = 0"

instantiation dbl :: "{zero, one, plus, uminus, minus, times, inverse, ord}"
begin

definition zero_dbl :: dbl where
  "0 = Fin 0"

definition one_dbl :: dbl where
  "1 = Fin 1"

fun plus_dbl :: "dbl \<Rightarrow> dbl \<Rightarrow> dbl" where
  "Fin a + Fin b = Fin (a + b)"
| "NaN + _ = NaN"
| "_ + NaN = NaN"
| "Fin _ + y = y"
| "x + Fin _ = x"
| "x + y = (if x = y then x else NaN)"

fun uminus_dbl :: "dbl \<Rightarrow> dbl" where
  "- Fin a = Fin (- a)"
| "- PInf = MInf"
| "- MInf = PInf"
| "- NaN = NaN"

definition minus_dbl :: "dbl \<Rightarrow> dbl \<Rightarrow> dbl" where
  "x - y = x + (- y :: dbl)"

fun times_dbl :: "dbl \<Rightarrow> dbl \<Rightarrow> dbl" where
  "Fin a * Fin b = Fin (a * b)"
| "NaN * _ = NaN"
| "_ * NaN = NaN"
| "x * y = dbl_inf (dbl_sign x * dbl_sign y)"

fun divide_dbl :: "dbl \<Rightarrow> dbl \<Rightarrow> dbl" where
  "divide_dbl (Fin a) (Fin b) = (if b = 0 then dbl_inf a else Fin (a / b))"
| "divide_dbl NaN _ = NaN"
| "divide_dbl _ NaN = NaN"
| "divide_dbl (Fin a) _ = Fin 0"
| "divide_dbl x (Fin b) = dbl_inf (dbl_sign x * (if b < 0 then - 1 else 1))"
| "divide_dbl _ _ = NaN"

definition inverse_dbl :: "dbl \<Rightarrow> dbl" where
  "inverse x = (1 :: dbl) div x"

fun less_dbl :: "dbl \<Rightarrow> dbl \<Rightarrow> bool" where
  "Fin a < Fin b \<longleftrightarrow> a < b"
| "NaN < _ \<longleftrightarrow> False"
| "_ < NaN \<longleftrightarrow> False"
| "MInf < y \<longleftrightarrow> y \<noteq> MInf"
| "x < PInf \<longleftrightarrow> x \<noteq> PInf"
| "(_ :: dbl) < _ \<longleftrightarrow> False"

definition less_eq_dbl :: "dbl \<Rightarrow> dbl \<Rightarrow> bool" where
  "x \<le> y \<longleftrightarrow> x < y \<or> x = y \<and> x \<noteq> NaN" for x y :: dbl

instance ..

end

lemma dbl_simps [simp]:
  "(0 :: dbl) = Fin 0" "(1 :: dbl) = Fin 1" "Fin a - Fin b = Fin (a - b)" "Fin a \<le> Fin b \<longleftrightarrow> a \<le> b"
  by (auto simp: zero_dbl_def one_dbl_def minus_dbl_def less_eq_dbl_def)

definition dbl_min :: "dbl \<Rightarrow> dbl \<Rightarrow> dbl" where
  "dbl_min a b = (if a < b then a else b)"

definition of_u32 :: "u32 \<Rightarrow> dbl" where
  "of_u32 w = Fin (of_nat (unat w))"

definition of_u64 :: "u64 \<Rightarrow> dbl" where
  "of_u64 w = Fin (of_nat (unat w))"

fun dbl_ceil :: "dbl \<Rightarrow> dbl" where
  "dbl_ceil (Fin a) = Fin (of_int \<lceil>a\<rceil>)"
| "dbl_ceil x = x"

text \<open>Conversions truncate towards zero; the whole part has to be in the range of the type.\<close>

definition rat_trunc :: "rat \<Rightarrow> int" where
  "rat_trunc a = (if a < 0 then \<lceil>a\<rceil> else \<lfloor>a\<rfloor>)"

fun to_u32 :: "dbl \<Rightarrow> u32 option" where
  "to_u32 (Fin a) = (if - 1 < a \<and> a < 4294967296 then Some (of_int (rat_trunc a)) else None)"
| "to_u32 _ = None"

fun to_u64 :: "dbl \<Rightarrow> u64 option" where
  "to_u64 (Fin a) = (if - 1 < a \<and> a < 18446744073709551616 then Some (of_int (rat_trunc a)) else None)"
| "to_u64 _ = None"

end
