(* ===== verification/C_Stdlib.thy ===== *)
theory C_Stdlib
  imports Slurm_Prelude "HOL-Library.Multiset"
begin

section \<open>Sorting and searching of the C library\<close>

text \<open>
  \<open>qsort\<close> and \<open>bsearch\<close> as the GNU C library has them: a merge sort that asks only whether the
  comparison is positive, and a binary search. The standard leaves their result open for comparisons
  that are no total preorder; some comparisons of the code are none, and what happens then
  is part of the model.
\<close>

type_synonym 'a c_compare = "'a \<Rightarrow> 'a \<Rightarrow> int"

fun c_merge :: "'a c_compare \<Rightarrow> 'a list \<Rightarrow> 'a list \<Rightarrow> 'a list" where
  "c_merge cmp [] ys = ys"
| "c_merge cmp xs [] = xs"
| "c_merge cmp (x # xs) (y # ys) =
     (if cmp x y \<le> 0 then x # c_merge cmp xs (y # ys) else y # c_merge cmp (x # xs) ys)"

function c_qsort :: "'a c_compare \<Rightarrow> 'a list \<Rightarrow> 'a list" where
  "c_qsort cmp xs =
     (if length xs \<le> 1 then xs
      else let n1 = length xs div 2 in c_merge cmp (c_qsort cmp (take n1 xs)) (c_qsort cmp (drop n1 xs)))"
  by pat_completeness auto
termination
  by (relation "measure (\<lambda>(cmp, xs). length xs)") auto

declare c_qsort.simps [simp del]

function bsearch_loop :: "('b \<Rightarrow> 'a \<Rightarrow> int) \<Rightarrow> 'b \<Rightarrow> 'a list \<Rightarrow> nat \<Rightarrow> nat \<Rightarrow> nat option" where
  "bsearch_loop cmp key xs l u =
     (if l < u then
        let idx = (l + u) div 2; c = cmp key (xs ! idx) in
        if c < 0 then bsearch_loop cmp key xs l idx
        else if c > 0 then bsearch_loop cmp key xs (idx + 1) u
        else Some idx
      else None)"
  by pat_completeness auto
termination
  by (relation "measure (\<lambda>(cmp, key, xs, l, u). u - l)") auto

declare bsearch_loop.simps [simp del]

definition c_bsearch :: "('b \<Rightarrow> 'a \<Rightarrow> int) \<Rightarrow> 'b \<Rightarrow> 'a list \<Rightarrow> nat option" where
  "c_bsearch cmp key xs = bsearch_loop cmp key xs 0 (length xs)"

subsection \<open>What the sort guarantees\<close>

lemma mset_c_merge [simp]: "mset (c_merge cmp xs ys) = mset xs + mset ys"
  by (induction cmp xs ys rule: c_merge.induct) auto

lemma mset_c_qsort [simp]: "mset (c_qsort cmp xs) = mset xs"
proof (induction cmp xs rule: c_qsort.induct)
  case (1 cmp xs)
  have "mset (take n xs) + mset (drop n xs) = mset xs" for n
    by (metis append_take_drop_id mset_append)
  then show ?case using 1 by (subst c_qsort.simps) (auto simp: Let_def)
qed

lemma set_c_qsort [simp]: "set (c_qsort cmp xs) = set xs"
  using mset_c_qsort by (metis set_mset_mset)

lemma length_c_qsort [simp]: "length (c_qsort cmp xs) = length xs"
  using mset_c_qsort by (metis size_mset)

text \<open>A comparison that never holds both ways orders neighbours, even if it is not transitive.\<close>

definition asym_cmp :: "'a c_compare \<Rightarrow> bool" where
  "asym_cmp cmp \<longleftrightarrow> (\<forall>x y. cmp x y > 0 \<longrightarrow> cmp y x \<le> 0)"

lemma c_merge_hd: "c_merge cmp xs ys \<noteq> [] \<Longrightarrow> hd (c_merge cmp xs ys) \<in> {hd xs | _ :: unit. xs \<noteq> []} \<union> {hd ys | _ :: unit. ys \<noteq> []}"
  by (induction cmp xs ys rule: c_merge.induct) auto

lemma c_merge_neighbours:
  assumes "asym_cmp cmp" "successively (\<lambda>x y. cmp x y \<le> 0) xs" "successively (\<lambda>x y. cmp x y \<le> 0) ys"
  shows "successively (\<lambda>x y. cmp x y \<le> 0) (c_merge cmp xs ys)"
  using assms
proof (induction cmp xs ys rule: c_merge.induct)
  case (3 cmp x xs y ys)
  show ?case
  proof (cases "cmp x y \<le> 0")
    case True
    then have "successively (\<lambda>x y. cmp x y \<le> 0) (c_merge cmp xs (y # ys))" using 3 by (auto simp: successively_Cons)
    moreover have "hd (c_merge cmp xs (y # ys)) \<in> {hd xs | _ :: unit. xs \<noteq> []} \<union> {y}"
      using c_merge_hd [of cmp xs "y # ys"] by (cases "c_merge cmp xs (y # ys) = []") (auto dest: arg_cong [of _ _ mset])
    ultimately show ?thesis using True "3.prems"(2) by (auto simp: successively_Cons)
  next
    case False
    then have "successively (\<lambda>x y. cmp x y \<le> 0) (c_merge cmp (x # xs) ys)" using 3 by (auto simp: successively_Cons)
    moreover have "hd (c_merge cmp (x # xs) ys) \<in> {hd ys | _ :: unit. ys \<noteq> []} \<union> {x}"
      using c_merge_hd [of cmp "x # xs" ys] by (cases "c_merge cmp (x # xs) ys = []") (auto dest: arg_cong [of _ _ mset])
    moreover have "cmp y x \<le> 0" using False "3.prems"(1) by (auto simp: asym_cmp_def)
    ultimately show ?thesis using False "3.prems"(3) by (auto simp: successively_Cons)
  qed
qed auto

lemma c_qsort_neighbours: "asym_cmp cmp \<Longrightarrow> successively (\<lambda>x y. cmp x y \<le> 0) (c_qsort cmp xs)"
proof (induction cmp xs rule: c_qsort.induct)
  case (1 cmp xs)
  show ?case
  proof (cases "length xs \<le> 1")
    case True
    then show ?thesis by (subst c_qsort.simps) (cases xs; simp)
  next
    case False
    then show ?thesis using 1 by (subst c_qsort.simps) (simp add: Let_def c_merge_neighbours)
  qed
qed

text \<open>A comparison that is never positive leaves the array as it is.\<close>

lemma c_merge_append: "\<forall>x \<in> set xs. \<forall>y \<in> set ys. cmp x y \<le> 0 \<Longrightarrow> c_merge cmp xs ys = xs @ ys"
  by (induction cmp xs ys rule: c_merge.induct) auto

lemma c_qsort_idle: "\<forall>x \<in> set xs. \<forall>y \<in> set xs. cmp x y \<le> 0 \<Longrightarrow> c_qsort cmp xs = xs"
proof (induction cmp xs rule: c_qsort.induct)
  case (1 cmp xs)
  let ?n = "length xs div 2"
  have s: "x \<in> set xs" if "x \<in> set (take n xs) \<or> x \<in> set (drop n xs)" for x n using that by (meson in_set_takeD in_set_dropD)
  have "c_merge cmp (take ?n xs) (drop ?n xs) = xs" using 1(3) s by (subst c_merge_append) auto
  moreover have "c_qsort cmp (take ?n xs) = take ?n xs" "c_qsort cmp (drop ?n xs) = drop ?n xs" if "\<not> length xs \<le> 1"
    using that 1 s by blast+
  ultimately show ?case by (subst c_qsort.simps) (auto simp: Let_def)
qed

text \<open>If the sign of the comparison is that of a difference of keys, the result is sorted by the keys.\<close>

lemma c_qsort_keys:
  assumes "\<And>x y. x \<in> set xs \<Longrightarrow> y \<in> set xs \<Longrightarrow> cmp x y \<le> 0 \<longleftrightarrow> f x \<le> (f y :: int)"
  shows "sorted (map f (c_qsort cmp xs))"
proof -
  let ?c = "\<lambda>x y. f x - f y"
  have "c_merge cmp ys zs = c_merge ?c ys zs" if "set ys \<subseteq> set xs" "set zs \<subseteq> set xs" for ys zs
    using that assms by (induction cmp ys zs rule: c_merge.induct) auto
  then have "set ys \<subseteq> set xs \<Longrightarrow> c_qsort cmp ys = c_qsort ?c ys" for ys
  proof (induction cmp ys rule: c_qsort.induct)
    case (1 cmp ys)
    then show ?case
      using set_take_subset [of "length ys div 2" ys] set_drop_subset [of "length ys div 2" ys]
      by (subst (1 2) c_qsort.simps) (auto simp: Let_def)
  qed
  moreover have "successively (\<lambda>x y. ?c x y \<le> 0) (c_qsort ?c xs)" by (rule c_qsort_neighbours) (auto simp: asym_cmp_def)
  ultimately show ?thesis by (subst successively_conv_sorted_wrt [symmetric]) (auto simp: successively_map transp_def)
qed

text \<open>Short arrays.\<close>

lemma c_qsort_short:
  "c_qsort cmp [a] = [a]" "c_qsort cmp [a, b] = c_merge cmp [a] [b]" "c_qsort cmp [a, b, c] = c_merge cmp [a] (c_merge cmp [b] [c])"
proof -
  show one: "c_qsort cmp [a] = [a]" for a by (subst c_qsort.simps) simp
  show two: "c_qsort cmp [a, b] = c_merge cmp [a] [b]" for a b by (subst c_qsort.simps) (simp add: Let_def one del: c_merge.simps)
  show "c_qsort cmp [a, b, c] = c_merge cmp [a] (c_merge cmp [b] [c])" by (subst c_qsort.simps) (simp add: Let_def one two del: c_merge.simps)
qed

subsection \<open>What the search finds\<close>

lemma bsearch_loop_spec:
  assumes s: "sorted (map f xs)" "u \<le> length xs" and c: "\<And>x. x \<in> set xs \<Longrightarrow> sgn (cmp key x) = sgn (k - (f x :: int))"
    and out: "\<forall>i < length xs. f (xs ! i) = k \<longrightarrow> l \<le> i \<and> i < u"
  shows "case bsearch_loop cmp key xs l u of None \<Rightarrow> k \<notin> f ` set xs | Some i \<Rightarrow> i < length xs \<and> f (xs ! i) = k"
  using s(2) out
proof (induction "u - l" arbitrary: l u rule: less_induct)
  case less
  show ?case
  proof (cases "l < u")
    case False
    then have "k \<notin> f ` set xs" using less.prems by (auto simp: in_set_conv_nth) (metis leD le_less_trans)
    then show ?thesis using False by (subst bsearch_loop.simps) simp
  next
    case True
    define idx where "idx = (l + u) div 2"
    have i: "l \<le> idx" "idx < u" "idx < length xs" using True less.prems(1) by (auto simp: idx_def)
    have mono: "f (xs ! a) \<le> f (xs ! b)" if "a \<le> b" "b < length xs" for a b
      using sorted_nth_mono [OF s(1) that(1)] that by simp
    have e: "sgn (cmp key (xs ! idx)) = sgn (k - f (xs ! idx))" using c i(3) by simp
    consider (lt) "k < f (xs ! idx)" "cmp key (xs ! idx) < 0" | (gt) "k > f (xs ! idx)" "cmp key (xs ! idx) > 0"
      | (eq) "k = f (xs ! idx)" "cmp key (xs ! idx) = 0"
      using e by (cases "k < f (xs ! idx)"; cases "k = f (xs ! idx)") (auto simp: sgn_if split: if_splits)
    then show ?thesis
    proof cases
      case lt
      have "\<forall>j < length xs. f (xs ! j) = k \<longrightarrow> l \<le> j \<and> j < idx" using less.prems(2) lt(1) mono i(3) by (metis leD not_le_imp_less)
      then show ?thesis using less.hyps [of idx l] i lt True by (subst bsearch_loop.simps) (simp add: idx_def Let_def)
    next
      case gt
      have "\<forall>j < length xs. f (xs ! j) = k \<longrightarrow> idx + 1 \<le> j \<and> j < u" using less.prems(2) gt(1) mono i(3) by (metis Suc_eq_plus1 leD not_less_eq_eq)
      then show ?thesis using less.hyps [of u "idx + 1"] less.prems(1) i gt True by (subst bsearch_loop.simps) (simp add: idx_def Let_def)
    next
      case eq
      then show ?thesis using i True by (subst bsearch_loop.simps) (simp add: idx_def Let_def)
    qed
  qed
qed

lemma c_bsearch_spec:
  assumes "sorted (map f xs)" "\<And>x. x \<in> set xs \<Longrightarrow> sgn (cmp key x) = sgn (k - (f x :: int))"
  shows "case c_bsearch cmp key xs of None \<Rightarrow> k \<notin> f ` set xs | Some i \<Rightarrow> i < length xs \<and> f (xs ! i) = k"
  unfolding c_bsearch_def using assms by (intro bsearch_loop_spec) auto

end
