(* ===== verification/Energy_Model.thy ===== *)
theory Energy_Model
  imports C_Double C_Stdlib
begin

section \<open>Energy models (\<open>plugins/priority/multifactor_energy/priority_multifactor_energy.c\<close>)\<close>

text \<open>
  For each application the plugin reads a model per hardware module. From the model, a library outside
  the repository projects energy and run time for each frequency of the module's machine; the plugin
  picks a frequency. The library is the parameter \<open>energy_lib\<close>: the name of each machine, its
  frequencies, and the projections from a trace. Power is projected, too, but only printed.
  \<open>SLURM_SIMULATOR\<close> is defined. An access outside an array or through a null pointer and an
  undefined conversion give \<open>None\<close>.
\<close>

text \<open>Counts are converted by way of \<open>nat\<close>; that form is kept.\<close>

declare of_nat_unat [simp del]

record energy_lib =
  lib_name :: "nat \<Rightarrow> string option"
  lib_freqs :: "nat \<Rightarrow> dbl list"
  lib_energy :: "nat \<Rightarrow> dbl list \<Rightarrow> dbl list"
  lib_time :: "nat \<Rightarrow> dbl list \<Rightarrow> dbl list"

text \<open>The arrays \<open>module_id\<close>, \<open>nfields\<close> and \<open>model\<close> of an application are one list.\<close>

record app_info =
  app_id :: u32
  app_models :: "(u16 \<times> dbl list) list"

record energy_info =
  ei_part :: nat
  ei_job :: nat
  ei_best_freq :: dbl
  ei_best_value :: dbl
  ei_best_energy :: dbl
  ei_def_energy :: dbl
  ei_time_proportion :: dbl
  ei_best_time :: u32
  ei_best_duration :: u32
  ei_real_best_energy :: dbl
  ei_real_def_energy :: dbl

text \<open>\<open>xmalloc\<close> fills a record with zeros.\<close>

definition new_energy_info :: energy_info where
  "new_energy_info = \<lparr>ei_part = 0, ei_job = 0, ei_best_freq = 0, ei_best_value = 0, ei_best_energy = 0, ei_def_energy = 0,
     ei_time_proportion = 0, ei_best_time = 0, ei_best_duration = 0, ei_real_best_energy = 0, ei_real_def_energy = 0\<rparr>"

definition DBL_MAX :: dbl where
  "DBL_MAX = Fin ((2 - 1 / 2 ^ 52) * 2 ^ 1023)"

function search_min_loop :: "dbl list \<Rightarrow> int \<Rightarrow> int \<Rightarrow> int \<Rightarrow> int option" where
  "search_min_loop v n i min_i =
     (if i < n then do {
        x \<leftarrow> c_rd v i;
        m \<leftarrow> c_rd v min_i;
        search_min_loop v n (i + 1) (if x < m \<and> x \<noteq> 0 then i else min_i)
      } else Some min_i)"
  by pat_completeness auto
termination
  by (relation "measure (\<lambda>(v, n, i, min_i). nat (n - i))") auto

declare search_min_loop.simps [simp del]

definition search_min :: "dbl list \<Rightarrow> int \<Rightarrow> int option" where
  "search_min v n = search_min_loop v n 0 0"

text \<open>The comparison of two partitions: energies and times relative to the smaller one, times weigh one and a half.\<close>

definition fcmp_energy_values :: "energy_info \<Rightarrow> energy_info \<Rightarrow> dbl" where
  "fcmp_energy_values A B =
     (let min_e = dbl_min (ei_best_energy B) (ei_best_energy A);
          min_r = dbl_min (of_u32 (ei_best_time B)) (of_u32 (ei_best_time A));
          A_e = ei_best_energy A / min_e;
          B_e = ei_best_energy B / min_e;
          A_r = of_u32 (ei_best_time A) / min_r * Fin (3 / 2);
          B_r = of_u32 (ei_best_time B) / min_r * Fin (3 / 2)
      in B_e + B_r - A_e - A_r)"

definition cmp_energy_values :: "energy_info c_compare" where
  "cmp_energy_values A B =
     (let min_e = dbl_min (ei_best_energy B) (ei_best_energy A);
          min_r = dbl_min (of_u32 (ei_best_time B)) (of_u32 (ei_best_time A));
          A_e = ei_best_energy A / min_e;
          B_e = ei_best_energy B / min_e;
          A_r = of_u32 (ei_best_time A) / min_r * Fin (3 / 2);
          B_r = of_u32 (ei_best_time B) / min_r * Fin (3 / 2)
      in if B_e + B_r - A_e - A_r > 0 then 1 else 0)"

text \<open>The difference is computed in \<open>unsigned int\<close> and returned as \<open>int\<close>.\<close>

definition cmp_app_info :: "app_info c_compare" where
  "cmp_app_info A B = sint (app_id A - app_id B)"

fun find_app_loop :: "(u16 \<times> dbl list) list \<Rightarrow> int \<Rightarrow> int \<Rightarrow> int" where
  "find_app_loop [] model_id i = - 1"
| "find_app_loop (m # ms) model_id i = (if model_id = uint (fst m) then i else find_app_loop ms model_id (i + 1))"

definition find_app_model :: "app_info \<Rightarrow> int \<Rightarrow> int" where
  "find_app_model app model_id = find_app_loop (app_models app) model_id 0"

text \<open>\<open>init_apps\<close> on the lines of the file, each parsed into application, module and parameters. The array
  \<open>apps_info\<close> has \<open>num_apps\<close> entries, \<open>apps\<close> are the filled ones; \<open>qsort\<close> dereferences all.\<close>

fun init_apps_loop :: "nat \<Rightarrow> nat \<Rightarrow> (u32 \<times> u16 \<times> dbl list) list \<Rightarrow> u32 \<Rightarrow> app_info list \<Rightarrow> app_info list option" where
  "init_apps_loop n_modules num_apps [] prec apps = Some apps"
| "init_apps_loop n_modules num_apps ((aid, mid, params) # lines) prec apps = do {
     apps \<leftarrow> (if aid \<noteq> prec
       then do { c_assert (length apps < num_apps); Some (apps @ [\<lparr>app_id = aid, app_models = []\<rparr>]) }
       else Some apps);
     let i = int (length apps) - 1;
     app \<leftarrow> c_rd apps i;
     c_assert (length (app_models app) < n_modules);
     apps \<leftarrow> c_wr apps i (app\<lparr>app_models := app_models app @ [(mid, params)]\<rparr>);
     init_apps_loop n_modules num_apps lines aid apps
   }"

definition init_apps :: "nat \<Rightarrow> nat \<Rightarrow> (u32 \<times> u16 \<times> dbl list) list \<Rightarrow> app_info list option" where
  "init_apps n_modules num_apps lines = do {
     apps \<leftarrow> init_apps_loop n_modules num_apps lines (- 1) [];
     c_assert (length apps = num_apps \<or> num_apps \<le> 1);
     Some (c_qsort cmp_app_info apps)
   }"

text \<open>The lookup of an application: a null pointer from \<open>bsearch\<close> is dereferenced before the test.\<close>

definition find_app :: "app_info list \<Rightarrow> u32 \<Rightarrow> app_info option" where
  "find_app apps_info aid = do {
     i \<leftarrow> c_bsearch cmp_app_info \<lparr>app_id = aid, app_models = []\<rparr> apps_info;
     c_rd apps_info (int i)
   }"

fun get_i_module_loop :: "energy_lib \<Rightarrow> string option \<Rightarrow> nat \<Rightarrow> nat \<Rightarrow> nat" where
  "get_i_module_loop lib part_name 0 i = i"
| "get_i_module_loop lib part_name (Suc k) i =
     (if part_name \<noteq> None \<and> lib_name lib i \<noteq> None \<and> part_name = lib_name lib i then i
      else get_i_module_loop lib part_name k (i + 1))"

definition get_i_module :: "energy_lib \<Rightarrow> nat \<Rightarrow> string option \<Rightarrow> nat" where
  "get_i_module lib n_modules part_name = get_i_module_loop lib part_name n_modules 0"

definition job_projection :: "dbl \<Rightarrow> dbl \<Rightarrow> dbl \<Rightarrow> dbl \<Rightarrow> dbl" where
  "job_projection e_min r_min e r =
     (if e = 0 then DBL_MAX
      else let x = e / e_min; y = Fin (3 / 2) * r / r_min in x * x + y * y)"

fun job_projections :: "dbl \<Rightarrow> dbl \<Rightarrow> dbl list \<Rightarrow> dbl list \<Rightarrow> nat \<Rightarrow> dbl list option" where
  "job_projections e_min r_min e r 0 = Some []"
| "job_projections e_min r_min e r (Suc k) = do {
     ps \<leftarrow> job_projections e_min r_min e r k;
     x \<leftarrow> c_rd e (int k);
     y \<leftarrow> c_rd r (int k);
     Some (ps @ [job_projection e_min r_min x y])
   }"

text \<open>The projections of a trace and the index of the best frequency.\<close>

record projections =
  pr_freqs :: "dbl list"
  pr_energy :: "dbl list"
  pr_time :: "dbl list"
  pr_value :: "dbl list"
  pr_best :: int

definition project :: "energy_lib \<Rightarrow> nat \<Rightarrow> dbl list \<Rightarrow> projections option" where
  "project lib i_module trace = do {
     let f_range = lib_freqs lib i_module;
     let n_freqs = int (length f_range);
     let e_projections = lib_energy lib i_module trace;
     let r_projections = lib_time lib i_module trace;
     min_e \<leftarrow> search_min e_projections n_freqs;
     min_r \<leftarrow> search_min r_projections n_freqs;
     e_min \<leftarrow> c_rd e_projections min_e;
     r_min \<leftarrow> c_rd r_projections min_r;
     values \<leftarrow> job_projections e_min r_min e_projections r_projections (nat n_freqs);
     f_i \<leftarrow> search_min values n_freqs;
     Some \<lparr>pr_freqs = f_range, pr_energy = e_projections, pr_time = r_projections, pr_value = values, pr_best = f_i\<rparr>
   }"

text \<open>The assignments to the entry of the partition; without prediction the last frequency is used.\<close>

definition fill_info :: "bool \<Rightarrow> u32 \<Rightarrow> u32 \<Rightarrow> projections \<Rightarrow> energy_info \<Rightarrow> energy_info option" where
  "fill_info use_energy_prediction time_limit duration pr info = do {
     let f_i = pr_best pr;
     let n_freqs = int (length (pr_freqs pr));
     f \<leftarrow> c_rd (pr_freqs pr) f_i;
     p \<leftarrow> c_rd (pr_value pr) f_i;
     e \<leftarrow> c_rd (pr_energy pr) f_i;
     r \<leftarrow> c_rd (pr_time pr) f_i;
     e_last \<leftarrow> c_rd (pr_energy pr) (n_freqs - 1);
     let time_diff = of_u32 duration / (of_u32 time_limit * Fin 60);
     best_time \<leftarrow> to_u32 (dbl_ceil (r / Fin 60));
     best_duration \<leftarrow> to_u32 (dbl_ceil (r * time_diff));
     let info = info\<lparr>ei_best_freq := f, ei_best_value := p, ei_best_energy := e, ei_def_energy := e_last,
       ei_best_time := best_time, ei_best_duration := best_duration,
       ei_real_best_energy := e * time_diff, ei_real_def_energy := e_last * time_diff\<rparr>;
     if use_energy_prediction then Some info
     else do {
       f_last \<leftarrow> c_rd (pr_freqs pr) (n_freqs - 1);
       r_last \<leftarrow> c_rd (pr_time pr) (n_freqs - 1);
       best_time \<leftarrow> to_u32 (dbl_ceil (r_last / Fin 60));
       best_duration \<leftarrow> to_u32 (dbl_ceil (r_last * time_diff));
       Some (info\<lparr>ei_best_freq := f_last, ei_best_time := best_time, ei_best_duration := best_duration\<rparr>)
     }
   }"

text \<open>\<open>job_energy_info\<close> are the allocated entries of the array; the time limit is in minutes. The second component of the result
  is whether \<open>SLURM_SUCCESS\<close> is returned.\<close>

definition get_best_projection ::
  "energy_lib \<Rightarrow> bool \<Rightarrow> app_info \<Rightarrow> nat \<Rightarrow> energy_info list \<Rightarrow> int \<Rightarrow> u32 \<Rightarrow> u32 \<Rightarrow> (energy_info list \<times> bool) option" where
  "get_best_projection lib use_energy_prediction app i_module job_energy_info idx time_limit duration = (
     let app_i_module = find_app_model app (int i_module) in
     if app_i_module = - 1 then Some (job_energy_info, False)
     else do {
       let trace = snd (app_models app ! nat app_i_module);
       time_parameter \<leftarrow> c_rd trace 0;
       i0 \<leftarrow> c_rd job_energy_info 0;
       let i0 = (if idx = 0 then i0\<lparr>ei_time_proportion := time_parameter\<rparr> else i0);
       job_energy_info \<leftarrow> c_wr job_energy_info 0 i0;
       trace \<leftarrow> c_wr trace 0 (of_u32 time_limit * Fin 60 * time_parameter / ei_time_proportion i0);
       pr \<leftarrow> project lib i_module trace;
       info \<leftarrow> c_rd job_energy_info idx;
       info \<leftarrow> fill_info use_energy_prediction time_limit duration pr info;
       job_energy_info \<leftarrow> c_wr job_energy_info idx info;
       Some (job_energy_info, True)
     })"

end
