(* ===== verification/Energy_Priority.thy ===== *)
theory Energy_Priority
  imports Energy_Model
begin

section \<open>Energy-aware priorities\<close>

text \<open>
  \<open>set_priority_factors\<close> and \<open>_get_priority_internal\<close> of the priority plugin: the weighted factors, the order of
  the partitions of a job by energy and time, and the bonus of jobs chained by the \<open>plussingleton\<close> dependency.
  The configuration and the globals the code reads are the record \<open>prio_conf\<close>. The fields of jobs and partitions
  are those the code uses; pointers are indices, into the list of jobs and into the table of partitions. The
  application identifier is the comment of the job as \<open>strtoul\<close> reads it, and the fair-share factor is an input. \<open>pj_details\<close> says whether
  the job has a details record; \<open>pj_tres\<close> are the allocated resources or, without them, the requested ones.
\<close>

definition NICE_OFFSET :: u32 where
  "NICE_OFFSET = 0x80000000"

definition NO_VAL :: u32 where
  "NO_VAL = 0xfffffffe"

definition SLURM_DEPEND_PLUSSINGLETON :: nat where
  "SLURM_DEPEND_PLUSSINGLETON = 8"

record part_record =
  pt_name :: "string option"
  pt_priority_job_factor :: u16
  pt_norm_priority :: dbl
  pt_max_time :: u32
  pt_tres_cnt :: "u64 list option"

record prio_factors =
  pf_age :: dbl
  pf_fs :: dbl
  pf_js :: dbl
  pf_part :: dbl
  pf_qos :: dbl
  pf_tres :: "dbl list option"
  pf_nice :: u32

record job_record =
  pj_user_id :: u32
  pj_name :: "string option"
  pj_priority :: u32
  pj_direct_set_prio :: bool
  pj_details :: bool
  pj_app_id :: u32
  pj_partition :: "string option"
  pj_part_ptr :: "nat option"
  pj_part_ptr_list :: "nat list option"
  pj_time_limit :: u32
  pj_duration :: u32
  pj_submit_time :: int
  pj_begin_time :: int
  pj_total_cpus :: u32
  pj_max_cpus :: u32
  pj_min_cpus :: u32
  pj_min_nodes :: u32
  pj_nice :: u32
  pj_qos :: "(u32 \<times> dbl) option"
  pj_tres :: "u64 list option"
  pj_depend_list :: "nat list option"
  pj_prio_factors :: prio_factors
  pj_priority_array :: "u32 list option"
  pj_best_freq :: "dbl list"
  pj_best_energy :: "dbl list"
  pj_def_energy :: "dbl list"
  pj_best_value :: "dbl list"
  pj_best_time_limit :: "u32 list"
  pj_best_duration :: "u32 list"
  pj_real_best_energy :: "dbl list"
  pj_real_def_energy :: "dbl list"

record prio_conf =
  weight_age :: u32
  weight_fs :: u32
  weight_js :: u32
  weight_part :: u32
  weight_qos :: u32
  weight_tres :: "dbl list option"
  max_age :: u32
  favor_small :: bool
  flag_accrue_always :: bool
  flag_size_relative :: bool
  flag_incr_only :: bool
  cluster_cpus :: u32
  node_record_count :: u32
  part_max_priority :: u16
  use_energy_prediction :: bool
  n_modules :: nat
  apps_info :: "app_info list"
  the_lib :: energy_lib
  parts :: "nat \<Rightarrow> part_record"

definition zero_factors :: prio_factors where
  "zero_factors = \<lparr>pf_age = 0, pf_fs = 0, pf_js = 0, pf_part = 0, pf_qos = 0, pf_tres = None, pf_nice = 0\<rparr>"

subsection \<open>The factors\<close>

text \<open>The age: \<open>diff\<close> is the difference of times as \<open>uint32_t\<close>.\<close>

definition age_factor :: "prio_conf \<Rightarrow> int \<Rightarrow> job_record \<Rightarrow> dbl" where
  "age_factor c start_time job = (
     let use_time = (if flag_accrue_always c then pj_submit_time job else pj_begin_time job);
         diff = (if start_time > use_time then of_int (start_time - use_time) else 0 :: u32)
     in if weight_age c \<noteq> 0 \<and> (pj_begin_time job \<noteq> 0 \<or> flag_accrue_always c)
        then if diff < max_age c then of_u32 diff / of_u32 (max_age c) else 1
        else 0)"

definition job_cpus :: "job_record \<Rightarrow> u32" where
  "job_cpus job =
     (if pj_total_cpus job \<noteq> 0 then pj_total_cpus job
      else if pj_max_cpus job \<noteq> NO_VAL then pj_max_cpus job
      else if pj_min_cpus job \<noteq> 0 then pj_min_cpus job else 0)"

text \<open>The size: the differences of counts are taken in \<open>unsigned int\<close>.\<close>

definition size_factor :: "prio_conf \<Rightarrow> job_record \<Rightarrow> dbl" where
  "size_factor c job = (
     let cpu_cnt = job_cpus job; min_nodes = pj_min_nodes job in
     if weight_js c = 0 then 0
     else let js =
       (if flag_size_relative c then
          let js = of_u32 min_nodes * of_u32 (cluster_cpus c) / of_u32 (node_record_count c);
              js = (if of_u32 cpu_cnt > js then of_u32 cpu_cnt else js);
              time_limit = (if pj_time_limit job \<noteq> NO_VAL then pj_time_limit job
                            else case pj_part_ptr job of Some p \<Rightarrow> pt_max_time (parts c p) | None \<Rightarrow> 1);
              js = js / of_u32 time_limit / of_u32 (cluster_cpus c)
          in if favor_small c then 1 - js else js
        else if favor_small c then
          let js = of_u32 (node_record_count c - min_nodes) / of_u32 (node_record_count c)
          in if cpu_cnt \<noteq> 0 then (js + of_u32 (cluster_cpus c - cpu_cnt) / of_u32 (cluster_cpus c)) / Fin 2 else js
        else
          let js = of_u32 min_nodes / of_u32 (node_record_count c)
          in if cpu_cnt \<noteq> 0 then (js + of_u32 cpu_cnt / of_u32 (cluster_cpus c)) / Fin 2 else js)
     in if js < 0 then 0 else if js > 1 then 1 else js)"

definition tres_factor :: "prio_conf \<Rightarrow> job_record \<Rightarrow> nat \<Rightarrow> dbl option" where
  "tres_factor c job i = do {
     val \<leftarrow> (case pj_tres job of None \<Rightarrow> Some 0 | Some vs \<Rightarrow> c_rd vs (int i));
     (case pj_part_ptr job of
        None \<Rightarrow> Some 0
      | Some p \<Rightarrow> (case pt_tres_cnt (parts c p) of
          None \<Rightarrow> Some 0
        | Some cnt \<Rightarrow> if val = 0 then Some 0
            else do { n \<leftarrow> c_rd cnt (int i); Some (if n \<noteq> 0 then of_u64 val / of_u64 n else 0) }))
   }"

fun tres_factors :: "prio_conf \<Rightarrow> job_record \<Rightarrow> nat \<Rightarrow> dbl list option" where
  "tres_factors c job 0 = Some []"
| "tres_factors c job (Suc k) = do {
     fs \<leftarrow> tres_factors c job k;
     f \<leftarrow> tres_factor c job k;
     Some (fs @ [f])
   }"

text \<open>\<open>fs\<close> is the fair-share factor, zero without an association; the number of trackable resources is the length of their weights.\<close>

definition set_priority_factors :: "prio_conf \<Rightarrow> dbl \<Rightarrow> int \<Rightarrow> job_record \<Rightarrow> job_record option" where
  "set_priority_factors c fs start_time job = do {
     let f = zero_factors\<lparr>pf_age := age_factor c start_time job, pf_js := size_factor c job, pf_nice := pj_nice job\<rparr>;
     let f = (if weight_fs c \<noteq> 0 then f\<lparr>pf_fs := fs\<rparr> else f);
     let f = (case pj_part_ptr job of
         None \<Rightarrow> f
       | Some p \<Rightarrow> if pt_priority_job_factor (parts c p) \<noteq> 0 \<and> weight_part c \<noteq> 0
                  then f\<lparr>pf_part := pt_norm_priority (parts c p)\<rparr> else f);
     let f = (case pj_qos job of
         None \<Rightarrow> f
       | Some (prio, nrm) \<Rightarrow> if prio \<noteq> 0 \<and> weight_qos c \<noteq> 0 then f\<lparr>pf_qos := nrm\<rparr> else f);
     f \<leftarrow> (case weight_tres c of
         None \<Rightarrow> Some f
       | Some w \<Rightarrow> do { ts \<leftarrow> tres_factors c job (length w); Some (f\<lparr>pf_tres := Some ts\<rparr>) });
     Some (job\<lparr>pj_prio_factors := f\<rparr>)
   }"

definition weigh_factors :: "prio_conf \<Rightarrow> prio_factors \<Rightarrow> prio_factors" where
  "weigh_factors c f = f\<lparr>pf_age := pf_age f * of_u32 (weight_age c), pf_fs := pf_fs f * of_u32 (weight_fs c),
     pf_js := pf_js f * of_u32 (weight_js c), pf_part := pf_part f * of_u32 (weight_part c),
     pf_qos := pf_qos f * of_u32 (weight_qos c),
     pf_tres := (case (weight_tres c, pf_tres f) of (Some w, Some ts) \<Rightarrow> Some (map2 (*) ts w) | _ \<Rightarrow> pf_tres f)\<rparr>"

definition tmp_tres :: "prio_conf \<Rightarrow> prio_factors \<Rightarrow> dbl" where
  "tmp_tres c f = (case (weight_tres c, pf_tres f) of (Some _, Some ts) \<Rightarrow> foldl (+) 0 ts | _ \<Rightarrow> 0)"

text \<open>Zero is reserved for held jobs; the conversion to 64 bits comes before the test against 32 bits.\<close>

definition clamp_priority :: "dbl \<Rightarrow> dbl option" where
  "clamp_priority priority = do {
     let priority = (if priority < 1 then 1 else priority);
     tmp_64 \<leftarrow> to_u64 priority;
     Some (if tmp_64 > 0xffffffff then Fin 0xffffffff else priority)
   }"

definition base_priority :: "prio_conf \<Rightarrow> prio_factors \<Rightarrow> dbl" where
  "base_priority c f = pf_age f + pf_fs f + pf_js f + pf_part f + pf_qos f + tmp_tres c f
     - Fin (of_int (uint (pf_nice f) - uint NICE_OFFSET))"

subsection \<open>One partition\<close>

definition energy_single :: "prio_conf \<Rightarrow> job_record \<Rightarrow> job_record option" where
  "energy_single c job = do {
     let job = job\<lparr>pj_best_freq := [0], pj_def_energy := [0], pj_best_energy := [0], pj_best_time_limit := [0], pj_best_value := [0],
       pj_best_duration := [0], pj_real_best_energy := [0], pj_real_def_energy := [0]\<rparr>;
     app \<leftarrow> find_app (apps_info c) (pj_app_id job);
     let i_module = get_i_module (the_lib c) (n_modules c) (pj_partition job);
     if i_module \<ge> n_modules c then Some job
     else do {
       c_assert (use_energy_prediction c);
       let info = new_energy_info\<lparr>ei_part := (case pj_part_ptr job of None \<Rightarrow> 0 | Some p \<Rightarrow> p)\<rparr>;
       (infos, _) \<leftarrow> get_best_projection (the_lib c) (use_energy_prediction c) app i_module [info] 0 (pj_time_limit job) (pj_duration job);
       info \<leftarrow> c_rd infos 0;
       Some (job\<lparr>pj_best_energy := [ei_best_energy info * of_u32 (pj_min_nodes job)], pj_best_freq := [ei_best_freq info],
         pj_best_time_limit := [ei_best_time info], pj_best_value := [ei_best_value info], pj_best_duration := [ei_best_duration info],
         pj_real_best_energy := [ei_real_best_energy info], pj_real_def_energy := [ei_real_def_energy info],
         pj_def_energy := [ei_def_energy info * of_u32 (pj_min_nodes job)]\<rparr>)
     }
   }"

subsection \<open>Several partitions\<close>

fun project_parts :: "prio_conf \<Rightarrow> app_info \<Rightarrow> job_record \<Rightarrow> nat list \<Rightarrow> energy_info list \<Rightarrow> energy_info list option" where
  "project_parts c app job [] infos = Some infos"
| "project_parts c app job (p # ps) infos = (
     let i_module = get_i_module (the_lib c) (n_modules c) (pt_name (parts c p)) in
     if i_module \<ge> n_modules c then project_parts c app job ps infos
     else do {
       (infos, _) \<leftarrow> get_best_projection (the_lib c) (use_energy_prediction c) app i_module
          (infos @ [new_energy_info\<lparr>ei_part := p\<rparr>]) (int (length infos)) (pj_time_limit job) (pj_duration job);
       project_parts c app job ps infos
     })"

fun find_part :: "energy_info list \<Rightarrow> nat \<Rightarrow> nat \<Rightarrow> nat" where
  "find_part [] p j = j"
| "find_part (i # is') p j = (if ei_part i = p then j else find_part is' p (j + 1))"

text \<open>The rank of a partition is its bonus; the last one loses another point if it is much worse than the next.
  The entry behind the last one of the array is a null pointer.\<close>

definition priority_energy :: "energy_info list \<Rightarrow> nat \<Rightarrow> int option" where
  "priority_energy infos j =
     (if j = 0 then do {
        a \<leftarrow> c_rd infos 0;
        b \<leftarrow> c_rd infos 1;
        Some (if fcmp_energy_values a b \<le> Fin (- (11744051 / 33554432)) then - 1 else 0)
      } else Some (int j))"

definition store_projection :: "prio_conf \<Rightarrow> energy_info \<Rightarrow> int \<Rightarrow> job_record \<Rightarrow> job_record option" where
  "store_projection c info i job = do {
     let nodes = of_u32 (pj_min_nodes job);
     job \<leftarrow> (if use_energy_prediction c then do {
         a \<leftarrow> c_wr (pj_best_energy job) i (ei_best_energy info * nodes);
         b \<leftarrow> c_wr (pj_best_value job) i (ei_best_value info);
         d \<leftarrow> c_wr (pj_real_best_energy job) i (ei_real_best_energy info);
         Some (job\<lparr>pj_best_energy := a, pj_best_value := b, pj_real_best_energy := d\<rparr>)
       } else Some job);
     a \<leftarrow> c_wr (pj_best_time_limit job) i (ei_best_time info);
     b \<leftarrow> c_wr (pj_best_duration job) i (ei_best_duration info);
     d \<leftarrow> c_wr (pj_best_freq job) i (ei_best_freq info);
     e \<leftarrow> c_wr (pj_def_energy job) i (ei_def_energy info * nodes);
     g \<leftarrow> c_wr (pj_real_def_energy job) i (ei_real_def_energy info);
     Some (job\<lparr>pj_best_time_limit := a, pj_best_duration := b, pj_best_freq := d, pj_def_energy := e, pj_real_def_energy := g\<rparr>)
   }"

text \<open>The common part of the priorities of all partitions. The nice value is subtracted in \<open>uint64_t\<close>.\<close>

definition common_priority :: "prio_conf \<Rightarrow> prio_factors \<Rightarrow> u32 option" where
  "common_priority c f = to_u32 (pf_age f + pf_fs f + pf_js f + pf_qos f + tmp_tres c f - of_u64 (ucast (pf_nice f) - ucast NICE_OFFSET))"

fun rate_parts :: "prio_conf \<Rightarrow> energy_info list \<Rightarrow> nat list \<Rightarrow> int \<Rightarrow> job_record \<Rightarrow> job_record option" where
  "rate_parts c infos [] i job = Some job"
| "rate_parts c infos (p # ps) i job = do {
     let prio = Fin (of_nat (unat (pt_priority_job_factor (parts c p)))) / Fin (of_nat (unat (part_max_priority c))) * of_u32 (weight_part c);
     let j = find_part infos p 0;
     (prio, job) \<leftarrow> (if j = length infos then Some (prio, job) else do {
       e \<leftarrow> priority_energy infos j;
       job \<leftarrow> store_projection c (infos ! j) i job;
       Some (if use_energy_prediction c then prio + Fin (of_int e) else prio, job)
     });
     common \<leftarrow> common_priority c (pj_prio_factors job);
     prio \<leftarrow> clamp_priority (prio + of_u32 common);
     val \<leftarrow> to_u32 prio;
     arr \<leftarrow> pj_priority_array job;
     old \<leftarrow> c_rd arr i;
     arr \<leftarrow> (if \<not> flag_incr_only c \<or> old < val then c_wr arr i val else Some arr);
     rate_parts c infos ps (i + 1) (job\<lparr>pj_priority_array := Some arr\<rparr>)
   }"

definition order_parts :: "energy_info list \<Rightarrow> energy_info list" where
  "order_parts infos = c_qsort cmp_energy_values infos"

definition energy_multi :: "prio_conf \<Rightarrow> nat list \<Rightarrow> job_record \<Rightarrow> job_record option" where
  "energy_multi c part_list job = do {
     let i = length part_list + 1;
     let arr = (case pj_priority_array job of None \<Rightarrow> replicate i 0 | Some arr \<Rightarrow> arr);
     let job = job\<lparr>pj_priority_array := Some arr, pj_best_freq := replicate i 0, pj_def_energy := replicate i 0, pj_best_energy := replicate i 0,
       pj_best_time_limit := replicate i 0, pj_best_value := replicate i 0, pj_best_duration := replicate i 0,
       pj_real_best_energy := replicate i 0, pj_real_def_energy := replicate i 0\<rparr>;
     app \<leftarrow> find_app (apps_info c) (pj_app_id job);
     infos \<leftarrow> project_parts c app job part_list [];
     let infos = order_parts infos;
     let part_list = (if use_energy_prediction c then rev (map ei_part infos) else part_list);
     rate_parts c infos part_list 0 (job\<lparr>pj_part_ptr_list := Some part_list\<rparr>)
   }"

subsection \<open>Chains of jobs\<close>

definition same_chain :: "job_record \<Rightarrow> job_record \<Rightarrow> bool" where
  "same_chain job j \<longleftrightarrow> pj_user_id j = pj_user_id job \<and>
     \<not> (pj_name job \<noteq> None \<and> pj_name j \<noteq> None \<and> pj_name job \<noteq> pj_name j)"

definition chain_jobs :: "job_record list \<Rightarrow> job_record \<Rightarrow> nat list \<Rightarrow> nat list" where
  "chain_jobs jobs job deps = concat (map (\<lambda>d. if d = SLURM_DEPEND_PLUSSINGLETON
     then filter (\<lambda>k. same_chain job (jobs ! k)) [0..<length jobs] else []) deps)"

fun chain_infos :: "job_record list \<Rightarrow> nat list \<Rightarrow> energy_info list option" where
  "chain_infos jobs [] = Some []"
| "chain_infos jobs (k # ks) = do {
     v \<leftarrow> c_rd (pj_best_value (jobs ! k)) 0;
     is' \<leftarrow> chain_infos jobs ks;
     Some (new_energy_info\<lparr>ei_best_value := v, ei_job := k\<rparr> # is')
   }"

fun add_bonus :: "nat \<Rightarrow> energy_info list \<Rightarrow> nat \<Rightarrow> job_record list \<Rightarrow> dbl \<Rightarrow> job_record list \<times> dbl" where
  "add_bonus self [] i jobs priority = (jobs, priority)"
| "add_bonus self (e # es) i jobs priority =
     (if ei_job e = self then add_bonus self es (i + 1) jobs (priority + Fin (of_nat i))
      else add_bonus self es (i + 1)
        (jobs[ei_job e := (jobs ! ei_job e)\<lparr>pj_priority := pj_priority (jobs ! ei_job e) + of_nat i\<rparr>]) priority)"

definition energy_chain :: "job_record list \<Rightarrow> nat \<Rightarrow> nat list \<Rightarrow> dbl \<Rightarrow> (job_record list \<times> dbl) option" where
  "energy_chain jobs self deps priority = (
     let j_list = chain_jobs jobs (jobs ! self) deps in
     if length j_list \<le> 1 \<or> self \<noteq> last j_list then Some (jobs, priority)
     else do {
       energy_dep \<leftarrow> chain_infos jobs j_list;
       Some (add_bonus self (c_qsort cmp_energy_values energy_dep) 0 jobs priority)
     })"

subsection \<open>The priority\<close>

text \<open>The energy policy: one partition, several partitions, or a chain.\<close>

definition apply_energy :: "prio_conf \<Rightarrow> job_record list \<Rightarrow> nat \<Rightarrow> job_record \<Rightarrow> dbl \<Rightarrow> (job_record list \<times> dbl) option" where
  "apply_energy c jobs self job priority = do {
     job \<leftarrow> (if pj_part_ptr_list job = None \<and> n_modules c \<noteq> 0 then energy_single c job else Some job);
     (case pj_part_ptr_list job of
        Some part_list \<Rightarrow> do { job \<leftarrow> energy_multi c part_list job; Some (jobs[self := job], priority) }
      | None \<Rightarrow> (case pj_depend_list job of
          Some deps \<Rightarrow> energy_chain (jobs[self := job]) self deps priority
        | None \<Rightarrow> Some (jobs[self := job], priority)))
   }"

definition get_priority_internal :: "prio_conf \<Rightarrow> dbl \<Rightarrow> int \<Rightarrow> job_record list \<Rightarrow> nat \<Rightarrow> (job_record list \<times> u32) option" where
  "get_priority_internal c fs start_time jobs self = do {
     job \<leftarrow> c_rd jobs (int self);
     if pj_direct_set_prio job \<and> pj_priority job > 0
     then Some (jobs[self := job\<lparr>pj_prio_factors := zero_factors\<rparr>], pj_priority job)
     else if \<not> pj_details job then Some (jobs[self := job\<lparr>pj_prio_factors := zero_factors\<rparr>], 0)
     else do {
       job \<leftarrow> set_priority_factors c fs start_time job;
       let job = job\<lparr>pj_prio_factors := weigh_factors c (pj_prio_factors job)\<rparr>;
       priority \<leftarrow> clamp_priority (base_priority c (pj_prio_factors job));
       (jobs, priority) \<leftarrow> apply_energy c jobs self job priority;
       priority \<leftarrow> to_u32 priority;
       Some (jobs, priority)
     }
   }"

end
