(* ===== verification/Energy_Ranking.thy ===== *)
theory Energy_Ranking
  imports Energy_Priority
begin

section \<open>The ranking of partitions and jobs\<close>

text \<open>
  The comparison of two partitions on rational costs, the order and the priorities it gives to the partitions of a job, and what
  it does to chains of jobs.
\<close>

subsection \<open>The search for a minimum\<close>

text \<open>Over rationals: the result is no larger than any entry with data; it has data itself if the first entry has.\<close>

lemma search_min_loop_spec:
  assumes "0 \<le> i" "i \<le> int (length v)" "0 \<le> m" "m < int (length v)" "\<forall>k < nat i. v ! k \<noteq> 0 \<longrightarrow> v ! nat m \<le> v ! k" "v ! 0 \<noteq> 0 \<longrightarrow> v ! nat m \<noteq> 0"
  shows "\<exists>j. search_min_loop (map Fin v) (int (length v)) i m = Some (int j) \<and> j < length v \<and>
    (\<forall>k < length v. v ! k \<noteq> 0 \<longrightarrow> v ! j \<le> v ! k) \<and> (v ! 0 \<noteq> 0 \<longrightarrow> v ! j \<noteq> 0) \<and> v ! j \<le> v ! nat m"
  using assms
proof (induction "nat (int (length v) - i)" arbitrary: i m rule: less_induct)
  case less
  show ?case
  proof (cases "i < int (length v)")
    case False
    then show ?thesis using less.prems by (subst search_min_loop.simps) (auto intro!: exI [of _ "nat m"])
  next
    case True
    define m' where "m' = (if v ! nat i < v ! nat m \<and> v ! nat i \<noteq> 0 then i else m)"
    have n: "nat i < length v" "nat m < length v" "nat (i + 1) = Suc (nat i)" using True less.prems by auto
    have st: "search_min_loop (map Fin v) (int (length v)) i m = search_min_loop (map Fin v) (int (length v)) (i + 1) m'"
      using True less.prems n by (subst search_min_loop.simps) (simp add: m'_def)
    have p1: "\<forall>k < nat (i + 1). v ! k \<noteq> 0 \<longrightarrow> v ! nat m' \<le> v ! k"
      using less.prems(5) unfolding n(3) by (auto simp: m'_def less_Suc_eq)
    have p2: "v ! 0 \<noteq> 0 \<longrightarrow> v ! nat m' \<noteq> 0" "0 \<le> m'" "m' < int (length v)" "v ! nat m' \<le> v ! nat m"
      using less.prems True by (auto simp: m'_def)
    obtain j where "search_min_loop (map Fin v) (int (length v)) (i + 1) m' = Some (int j)" "j < length v"
        "\<forall>k < length v. v ! k \<noteq> 0 \<longrightarrow> v ! j \<le> v ! k" "v ! 0 \<noteq> 0 \<longrightarrow> v ! j \<noteq> 0" "v ! j \<le> v ! nat m'"
      using less.hyps [of "i + 1" m'] True less.prems(1) p1 p2 by auto
    then show ?thesis using st p2(4) by (intro exI [of _ j]) auto
  qed
qed

lemma search_min_spec:
  assumes "v \<noteq> []"
  obtains j where "search_min (map Fin v) (int (length v)) = Some (int j)" "j < length v"
    "\<forall>k < length v. v ! k \<noteq> 0 \<longrightarrow> v ! j \<le> v ! k" "v ! 0 \<noteq> 0 \<longrightarrow> v ! j \<noteq> 0" "v ! j \<le> v ! 0"
proof -
  have "\<exists>j. search_min_loop (map Fin v) (int (length v)) 0 0 = Some (int j) \<and> j < length v \<and>
      (\<forall>k < length v. v ! k \<noteq> 0 \<longrightarrow> v ! j \<le> v ! k) \<and> (v ! 0 \<noteq> 0 \<longrightarrow> v ! j \<noteq> 0) \<and> v ! j \<le> v ! 0"
    using search_min_loop_spec [of 0 v 0] assms by simp
  then show thesis unfolding search_min_def [symmetric] by (elim exE conjE) (rule that; assumption)
qed

subsection \<open>The comparison of partitions\<close>

lemma dbl_asym: "Fin 0 < p + q - r - s \<Longrightarrow> \<not> Fin 0 < r + s - p - q"
  by (cases p; cases q; cases r; cases s) (auto simp: minus_dbl_def)

lemma dbl_min_comm: "a \<noteq> NaN \<Longrightarrow> b \<noteq> NaN \<Longrightarrow> dbl_min a b = dbl_min b a"
  by (cases a; cases b) (auto simp: dbl_min_def)

lemma dbl_NaN [simp]: "NaN / x = NaN" "x / NaN = NaN" "NaN + x = NaN" "x + NaN = NaN" "NaN - x = NaN" "x - NaN = NaN" "\<not> x < NaN" "\<not> NaN < x"
  by (cases x; simp add: minus_dbl_def)+

lemma cmp_energy_pos: "cmp_energy_values A B > 0 \<longleftrightarrow> fcmp_energy_values A B > 0"
  by (simp add: cmp_energy_values_def fcmp_energy_values_def Let_def)

lemma cmp_energy_asym: "asym_cmp cmp_energy_values"
  unfolding asym_cmp_def
proof (intro allI impI)
  fix A B
  assume p: "cmp_energy_values A B > 0"
  have n: "ei_best_energy A \<noteq> NaN" "ei_best_energy B \<noteq> NaN"
    using p by (auto simp: cmp_energy_pos fcmp_energy_values_def Let_def)
  have m: "dbl_min (ei_best_energy B) (ei_best_energy A) = dbl_min (ei_best_energy A) (ei_best_energy B)"
    "dbl_min (of_u32 (ei_best_time B)) (of_u32 (ei_best_time A)) = dbl_min (of_u32 (ei_best_time A)) (of_u32 (ei_best_time B))"
    using n by (auto intro!: dbl_min_comm simp: of_u32_def)
  have "\<not> fcmp_energy_values B A > 0"
    using p m unfolding cmp_energy_pos by (auto simp: fcmp_energy_values_def Let_def dest: dbl_asym)
  then show "cmp_energy_values B A \<le> 0" unfolding cmp_energy_pos [symmetric] by simp
qed

text \<open>The cost of one partition relative to another, for positive energies and times.\<close>

definition rel_cost :: "rat \<times> rat \<Rightarrow> rat \<times> rat \<Rightarrow> rat" where
  "rel_cost a b = fst a / min (fst a) (fst b) + 3 / 2 * (snd a / min (snd a) (snd b))"

definition has_cost :: "energy_info \<Rightarrow> rat \<times> rat \<Rightarrow> bool" where
  "has_cost i a \<longleftrightarrow> ei_best_energy i = Fin (fst a) \<and> of_nat (unat (ei_best_time i)) = snd a \<and> 0 < fst a \<and> 0 < snd a"

lemma fcmp_cost:
  assumes "has_cost A a" "has_cost B b"
  shows "fcmp_energy_values A B = Fin (rel_cost b a - rel_cost a b)"
proof -
  have m: "dbl_min (Fin x) (Fin y) = Fin (min x y)" for x y by (simp add: dbl_min_def min_def)
  have "min (fst b) (fst a) \<noteq> 0" "min (snd b) (snd a) \<noteq> 0" using assms by (auto simp: has_cost_def min_def)
  then show ?thesis using assms by (simp add: fcmp_energy_values_def has_cost_def of_u32_def Let_def m rel_cost_def min.commute algebra_simps)
qed

lemma cmp_cost: "has_cost A a \<Longrightarrow> has_cost B b \<Longrightarrow> cmp_energy_values A B > 0 \<longleftrightarrow> rel_cost a b < rel_cost b a"
  by (simp add: cmp_energy_pos fcmp_cost)

subsection \<open>Priorities of partitions\<close>

definition stored_priority :: "rat \<Rightarrow> u32" where
  "stored_priority x = of_int (min 0xffffffff (max 1 \<lfloor>x\<rfloor>))"

lemma stored_priority_pos: "1 \<le> stored_priority x"
proof -
  define y where "y = min 0xffffffff (max 1 \<lfloor>x\<rfloor>)"
  have "1 \<le> y" "y < 2 ^ 32" by (auto simp: y_def)
  then have "uint (of_int y :: u32) = y" by (simp add: unsigned_of_int take_bit_int_eq_self)
  then show ?thesis using \<open>1 \<le> y\<close> by (simp add: stored_priority_def y_def [symmetric] word_le_def)
qed

lemma clamp_stored:
  assumes "x < 18446744073709551616"
  obtains p where "clamp_priority (Fin x) = Some p" "to_u32 p = Some (stored_priority x)"
proof (cases "x < 1")
  case True
  then have "\<lfloor>x\<rfloor> \<le> 0" by (simp add: floor_le_iff)
  then show thesis using True that [of "Fin 1"] by (simp add: clamp_priority_def stored_priority_def rat_trunc_def)
next
  case False
  have f: "1 \<le> \<lfloor>x\<rfloor>" "\<lfloor>x\<rfloor> < 18446744073709551616" using False assms by (simp_all add: le_floor_iff floor_less_iff)
  have "uint (of_int \<lfloor>x\<rfloor> :: u64) = \<lfloor>x\<rfloor>" using f by (simp add: unsigned_of_int take_bit_int_eq_self)
  then have c: "clamp_priority (Fin x) = Some (if \<lfloor>x\<rfloor> > 0xffffffff then Fin 0xffffffff else Fin x)"
    using False assms by (simp add: clamp_priority_def rat_trunc_def word_less_def)
  show thesis
  proof (cases "\<lfloor>x\<rfloor> > 0xffffffff")
    case True
    then show ?thesis using c that [of "Fin 0xffffffff"] by (simp add: stored_priority_def rat_trunc_def)
  next
    case le: False
    then have "x < 4294967296" by (simp add: floor_le_iff not_less)
    moreover have "min 0xffffffff (max 1 \<lfloor>x\<rfloor>) = \<lfloor>x\<rfloor>" using le f(1) by linarith
    ultimately show ?thesis using c le False that [of "Fin x"] by (simp only: stored_priority_def) (simp add: rat_trunc_def)
  qed
qed

lemma find_part_nth: "distinct (map ei_part es) \<Longrightarrow> j < length es \<Longrightarrow> find_part es (ei_part (es ! j)) k = k + j"
proof (induction es arbitrary: j k)
  case (Cons e es)
  then show ?case by (cases j) (force simp: in_set_conv_nth)+
qed simp

text \<open>The bonus of the partition of rank \<open>j\<close> and its priority before it is cut to the range.\<close>

definition energy_rank :: "energy_info list \<Rightarrow> nat \<Rightarrow> int" where
  "energy_rank infos j =
     (if j = 0 then (if fcmp_energy_values (infos ! 0) (infos ! 1) \<le> Fin (- (11744051 / 33554432)) then - 1 else 0) else int j)"

definition part_rating :: "prio_conf \<Rightarrow> energy_info list \<Rightarrow> u32 \<Rightarrow> nat \<Rightarrow> rat" where
  "part_rating c infos common j =
     of_nat (unat (pt_priority_job_factor (parts c (ei_part (infos ! j))))) / of_nat (unat (part_max_priority c)) * of_nat (unat (weight_part c))
     + of_int (energy_rank infos j) + of_nat (unat common)"

lemma div_nat_le: "1 \<le> m \<Longrightarrow> (of_nat f :: rat) / of_nat m \<le> of_nat f"
  using of_nat_mono [of 1 m, where ?'a = rat] by (simp add: divide_le_eq mult_le_cancel_left1)

lemma part_factor_le:
  assumes "f < 65536" "w < 4294967296" "1 \<le> m"
  shows "(of_nat f :: rat) / of_nat m * of_nat w \<le> 281474976710656"
proof -
  have "(of_nat f :: rat) / of_nat m * of_nat w \<le> of_nat f * of_nat w" by (rule mult_right_mono [OF div_nat_le [OF assms(3)]]) simp
  also have "f * w \<le> 65536 * 4294967296" using assms by (intro mult_mono) auto
  then have "(of_nat f :: rat) * of_nat w \<le> 281474976710656" using of_nat_mono [of "f * w" 281474976710656, where ?'a = rat] by simp
  finally show ?thesis .
qed

lemma part_rating_less:
  assumes "part_max_priority c \<noteq> 0" "length infos < 4294967296" "j < length infos"
  shows "part_rating c infos common j < 18446744073709551616"
proof -
  let ?f = "unat (pt_priority_job_factor (parts c (ei_part (infos ! j))))" and ?m = "unat (part_max_priority c)" and ?w = "unat (weight_part c)"
  have m: "1 \<le> ?m" using assms(1) by (simp add: unat_gt_0 Suc_leI)
  have b: "?f < 65536" "?w < 4294967296" "unat common < 4294967296"
    using unsigned_less [of "pt_priority_job_factor (parts c (ei_part (infos ! j)))", where ?'a = nat]
      unsigned_less [of "weight_part c", where ?'a = nat] unsigned_less [of common, where ?'a = nat] by simp_all
  have "(of_nat ?f :: rat) / of_nat ?m * of_nat ?w \<le> 281474976710656" by (rule part_factor_le [OF b(1,2) m])
  moreover have "of_int (energy_rank infos j) < (4294967296 :: rat)"
  proof -
    have "energy_rank infos j < 4294967296" using assms(2,3) by (simp add: energy_rank_def)
    then show ?thesis using of_int_less_iff [of "energy_rank infos j" 4294967296, where ?'a = rat] by simp
  qed
  moreover have "(of_nat (unat common) :: rat) < 4294967296" using of_nat_less_iff [of "unat common" 4294967296, where ?'a = rat] b(3) by simp
  ultimately show ?thesis unfolding part_rating_def by linarith
qed

definition stored :: "energy_info \<Rightarrow> nat \<Rightarrow> job_record \<Rightarrow> job_record" where
  "stored info i job = (let nodes = of_u32 (pj_min_nodes job) in job\<lparr>
     pj_best_energy := (pj_best_energy job)[i := ei_best_energy info * nodes],
     pj_best_value := (pj_best_value job)[i := ei_best_value info],
     pj_real_best_energy := (pj_real_best_energy job)[i := ei_real_best_energy info],
     pj_best_time_limit := (pj_best_time_limit job)[i := ei_best_time info],
     pj_best_duration := (pj_best_duration job)[i := ei_best_duration info],
     pj_best_freq := (pj_best_freq job)[i := ei_best_freq info],
     pj_def_energy := (pj_def_energy job)[i := ei_def_energy info * nodes],
     pj_real_def_energy := (pj_real_def_energy job)[i := ei_real_def_energy info]\<rparr>)"

definition arrays_length :: "nat \<Rightarrow> job_record \<Rightarrow> bool" where
  "arrays_length n job \<longleftrightarrow> length (pj_best_energy job) = n \<and> length (pj_best_value job) = n \<and> length (pj_real_best_energy job) = n \<and>
     length (pj_best_time_limit job) = n \<and> length (pj_best_duration job) = n \<and> length (pj_best_freq job) = n \<and>
     length (pj_def_energy job) = n \<and> length (pj_real_def_energy job) = n"

lemma store_projection_eq:
  assumes "use_energy_prediction c" "arrays_length n job" "i < n"
  shows "store_projection c info (int i) job = Some (stored info i job)" "arrays_length n (stored info i job)"
proof -
  have w: "c_wr xs (int i) v = Some (xs[i := v])" if "length xs = n" for xs :: "'x list" and v using that assms(3) by simp
  show "store_projection c info (int i) job = Some (stored info i job)"
    using assms by (simp add: store_projection_def stored_def arrays_length_def w Let_def)
  show "arrays_length n (stored info i job)" using assms(2) by (simp add: arrays_length_def stored_def Let_def)
qed

lemma stored_fields [simp]:
  "pj_prio_factors (stored info i job) = pj_prio_factors job" "pj_priority_array (stored info i job) = pj_priority_array job"
  "pj_part_ptr_list (stored info i job) = pj_part_ptr_list job"
  "pj_best_freq (stored info i job) = (pj_best_freq job)[i := ei_best_freq info]"
  "pj_best_time_limit (stored info i job) = (pj_best_time_limit job)[i := ei_best_time info]"
  "pj_best_duration (stored info i job) = (pj_best_duration job)[i := ei_best_duration info]"
  by (simp_all add: stored_def Let_def)

text \<open>What the loop has to know to rate every partition.\<close>

definition rateable :: "prio_conf \<Rightarrow> energy_info list \<Rightarrow> bool" where
  "rateable c infos \<longleftrightarrow> use_energy_prediction c \<and> \<not> flag_incr_only c \<and> part_max_priority c \<noteq> 0 \<and> distinct (map ei_part infos) \<and>
     2 \<le> length infos \<and> length infos < 4294967296"

lemma rate_parts_step:
  assumes r: "rateable c infos" and j: "j < length infos" and common: "common_priority c (pj_prio_factors job) = Some common"
    and arr: "pj_priority_array job = Some arr" "i < length arr" and n: "arrays_length n job" "i < n"
  shows "rate_parts c infos (ei_part (infos ! j) # ps) (int i) job =
    rate_parts c infos ps (int i + 1) (stored (infos ! j) i job\<lparr>pj_priority_array := Some (arr[i := stored_priority (part_rating c infos common j)])\<rparr>)"
proof -
  let ?x = "of_nat (unat (pt_priority_job_factor (parts c (ei_part (infos ! j))))) / of_nat (unat (part_max_priority c)) * of_nat (unat (weight_part c)) :: rat"
  have c: "use_energy_prediction c" "\<not> flag_incr_only c" "part_max_priority c \<noteq> 0" "distinct (map ei_part infos)" "2 \<le> length infos" "length infos < 4294967296"
    using r by (simp_all add: rateable_def)
  have e: "priority_energy infos j = Some (energy_rank infos j)" 
  proof -
    have "c_rd infos 0 = Some (infos ! 0)" "c_rd infos 1 = Some (infos ! 1)" using c(5) by (auto simp: c_rd_def)
    then show ?thesis by (simp add: priority_energy_def energy_rank_def)
  qed
  have f: "find_part infos (ei_part (infos ! j)) 0 = j" using find_part_nth [OF c(4) j, of 0] by simp
  have u: "(of_nat (unat (part_max_priority c)) :: rat) \<noteq> 0" using c(3) by (simp only: of_nat_eq_0_iff unat_eq_zero) simp
  obtain p where p: "clamp_priority (Fin (part_rating c infos common j)) = Some p" "to_u32 p = Some (stored_priority (part_rating c infos common j))"
    by (rule clamp_stored [OF part_rating_less [OF c(3,6) j]])
  have q: "Fin ?x + Fin (of_int (energy_rank infos j)) + of_u32 common = Fin (part_rating c infos common j)"
    by (simp add: part_rating_def of_u32_def)
  show ?thesis
    using f j e c(1,2) u common arr q p store_projection_eq [OF c(1) n]
    by (simp add: of_u32_def [of "weight_part c"])
qed

text \<open>The loop over the partitions of ranks \<open>js\<close>, from position \<open>i\<close> of the arrays on.\<close>

lemma rate_parts_all:
  assumes "rateable c infos" "\<forall>j \<in> set js. j < length infos" "common_priority c (pj_prio_factors job) = Some common"
    "pj_priority_array job = Some arr" "i + length js \<le> length arr" "arrays_length n job" "i + length js \<le> n"
  shows "\<exists>job' arr'. rate_parts c infos (map (\<lambda>j. ei_part (infos ! j)) js) (int i) job = Some job' \<and>
    pj_part_ptr_list job' = pj_part_ptr_list job \<and> pj_priority_array job' = Some arr' \<and>
    (\<forall>k < i. arr' ! k = arr ! k \<and> pj_best_freq job' ! k = pj_best_freq job ! k \<and> pj_best_time_limit job' ! k = pj_best_time_limit job ! k) \<and>
    (\<forall>k < length js. arr' ! (i + k) = stored_priority (part_rating c infos common (js ! k)) \<and>
       pj_best_freq job' ! (i + k) = ei_best_freq (infos ! (js ! k)) \<and> pj_best_time_limit job' ! (i + k) = ei_best_time (infos ! (js ! k)))"
  using assms
proof (induction js arbitrary: i job arr)
  case Nil
  then show ?case by simp
next
  case (Cons j js)
  define arr1 where "arr1 = arr[i := stored_priority (part_rating c infos common j)]"
  define job1 where "job1 = stored (infos ! j) i job\<lparr>pj_priority_array := Some arr1\<rparr>"
  have i: "i < length arr" "i < n" "j < length infos" using Cons.prems by auto
  have al: "arrays_length n job1" using store_projection_eq(2) [OF _ Cons.prems(6) i(2), of c "infos ! j"] Cons.prems(1)
    by (simp add: job1_def arrays_length_def rateable_def)
  have l: "length (pj_best_freq job) = n" "length (pj_best_time_limit job) = n" using Cons.prems(6) by (simp_all add: arrays_length_def)
  have "rate_parts c infos (map (\<lambda>j. ei_part (infos ! j)) (j # js)) (int i) job = rate_parts c infos (map (\<lambda>j. ei_part (infos ! j)) js) (int (Suc i)) job1"
    using rate_parts_step [OF Cons.prems(1) i(3) Cons.prems(3,4) i(1) Cons.prems(6) i(2)]
    by (simp add: job1_def arr1_def add.commute del: rate_parts.simps)
  moreover obtain job' arr' where job': "rate_parts c infos (map (\<lambda>j. ei_part (infos ! j)) js) (int (Suc i)) job1 = Some job'"
      "pj_part_ptr_list job' = pj_part_ptr_list job1" "pj_priority_array job' = Some arr'"
      "\<forall>k < Suc i. arr' ! k = arr1 ! k \<and> pj_best_freq job' ! k = pj_best_freq job1 ! k \<and> pj_best_time_limit job' ! k = pj_best_time_limit job1 ! k"
      "\<forall>k < length js. arr' ! (Suc i + k) = stored_priority (part_rating c infos common (js ! k)) \<and>
         pj_best_freq job' ! (Suc i + k) = ei_best_freq (infos ! (js ! k)) \<and> pj_best_time_limit job' ! (Suc i + k) = ei_best_time (infos ! (js ! k))"
    using Cons.IH [of job1 arr1 "Suc i"] Cons.prems al by (auto simp: job1_def arr1_def)
  moreover have "arr' ! (i + k) = stored_priority (part_rating c infos common ((j # js) ! k)) \<and>
      pj_best_freq job' ! (i + k) = ei_best_freq (infos ! ((j # js) ! k)) \<and> pj_best_time_limit job' ! (i + k) = ei_best_time (infos ! ((j # js) ! k))"
    if "k < length (j # js)" for k
    using that job'(4,5) i l by (cases k) (auto simp: job1_def arr1_def)
  moreover have "\<forall>k < i. arr' ! k = arr ! k \<and> pj_best_freq job' ! k = pj_best_freq job ! k \<and> pj_best_time_limit job' ! k = pj_best_time_limit job ! k"
    using job'(4) by (simp add: job1_def arr1_def)
  ultimately show ?case by (auto simp: job1_def)
qed

subsection \<open>Projections of the partitions\<close>

lemma fill_info_part: "fill_info u l d pr info = Some info' \<Longrightarrow> ei_part info' = ei_part info"
  unfolding fill_info_def Let_def by (auto split: if_splits simp: bind_eq_Some_conv)

lemma c_wr_parts: "c_rd xs i = Some x \<Longrightarrow> c_wr xs i y = Some ys \<Longrightarrow> ei_part y = ei_part x \<Longrightarrow> map ei_part ys = map ei_part xs"
  by (auto simp: c_rd_def c_wr_def map_update list_update_same_conv split: if_splits)

lemma get_best_projection_parts:
  assumes "get_best_projection lib u app m infos idx limit d = Some (infos', rc)"
  shows "map ei_part infos' = map ei_part infos"
proof (cases "find_app_model app (int m) = - 1")
  case False
  let ?u = "\<lambda>i t. if idx = 0 then i\<lparr>ei_time_proportion := t\<rparr> else i"
  obtain t i0 infos1 tr pr info info' where a: "c_rd infos 0 = Some i0" "c_wr infos 0 (?u i0 t) = Some infos1"
      "c_rd infos1 idx = Some info" "fill_info u limit d pr info = Some info'" "c_wr infos1 idx info' = Some infos'"
    using assms False unfolding get_best_projection_def Let_def by (auto simp: bind_eq_Some_conv)
  have "ei_part (?u i0 t) = ei_part i0" by simp
  then show ?thesis using c_wr_parts [OF a(1,2)] c_wr_parts [OF a(3,5) fill_info_part [OF a(4)]] by simp
qed (use assms in \<open>simp add: get_best_projection_def\<close>)

definition has_module :: "prio_conf \<Rightarrow> nat \<Rightarrow> bool" where
  "has_module c p \<longleftrightarrow> get_i_module (the_lib c) (n_modules c) (pt_name (parts c p)) < n_modules c"

lemma project_parts_parts:
  "project_parts c app job ps infos = Some infos' \<Longrightarrow> map ei_part infos' = map ei_part infos @ filter (has_module c) ps"
proof (induction ps arbitrary: infos)
  case (Cons p ps)
  then show ?case
    by (auto simp: Let_def has_module_def bind_eq_Some_conv split: if_splits dest!: get_best_projection_parts)
qed simp

lemma project_parts_cong:
  "pj_time_limit job' = pj_time_limit job \<Longrightarrow> pj_duration job' = pj_duration job \<Longrightarrow> project_parts c app job' ps infos = project_parts c app job ps infos"
  by (induction ps arbitrary: infos) (simp_all add: Let_def split: if_splits)

lemma order_parts_distinct: "distinct (map ei_part infos) \<Longrightarrow> distinct (map ei_part (order_parts infos))"
  unfolding order_parts_def by (metis mset_c_qsort mset_eq_imp_distinct_iff mset_map)

lemma rev_map_nth: "rev (map f xs) = map (\<lambda>j. f (xs ! j)) (rev [0..<length xs])"
proof -
  have "map f xs = map (\<lambda>j. f (xs ! j)) [0..<length xs]" by (rule nth_equalityI) auto
  then show ?thesis by (simp add: rev_map)
qed

definition example_info :: "nat \<Rightarrow> rat \<Rightarrow> u32 \<Rightarrow> energy_info" where
  "example_info p e t = new_energy_info\<lparr>ei_part := p, ei_best_energy := Fin e, ei_best_time := t\<rparr>"

lemma example_cost: "0 < e \<Longrightarrow> t \<noteq> 0 \<Longrightarrow> has_cost (example_info p e t) (e, of_nat (unat t))"
  using unat_gt_0 [of t] of_nat_0_less_iff [of "unat t", where ?'a = rat] by (simp add: has_cost_def example_info_def del: of_nat_0_less_iff)

text \<open>C39 (error): the comparison is not transitive. Of three partitions each can be better than the next in a circle, and which one
  is ranked best depends on the order in which the job names them.\<close>

theorem energy_cycle:
  defines "A \<equiv> example_info 0 1 4" and "B \<equiv> example_info 1 (12 / 5) 2" and "C \<equiv> example_info 2 (144 / 25) 1"
  shows "cmp_energy_values C B > 0 \<and> cmp_energy_values B A > 0 \<and> cmp_energy_values A C > 0 \<and>
    last (order_parts [A, B, C]) = C \<and> last (order_parts [B, C, A]) = A"
proof -
  have c: "has_cost A (1, 4)" "has_cost B (12 / 5, 2)" "has_cost C (144 / 25, 1)"
    by (simp_all add: A_def B_def C_def has_cost_def example_info_def)
  have p: "cmp_energy_values C B > 0" "cmp_energy_values B A > 0" "cmp_energy_values A C > 0"
    using cmp_cost [OF c(3,2)] cmp_cost [OF c(2,1)] cmp_cost [OF c(1,3)] by (simp_all add: rel_cost_def min_def)
  then have n: "cmp_energy_values B C \<le> 0" "cmp_energy_values A B \<le> 0" "cmp_energy_values C A \<le> 0"
    using cmp_energy_asym by (auto simp: asym_cmp_def)
  have "c_qsort cmp_energy_values [A, B, C] = [A, B, C]" "c_qsort cmp_energy_values [B, C, A] = [B, C, A]"
    using n by (simp_all add: c_qsort_short)
  then show ?thesis using p by (simp add: order_parts_def)
qed


text \<open>If only one partition of a job has an energy model, the controller dereferences the null pointer
  behind the only entry when it compares it with the next one.\<close>

theorem single_model_crash:
  assumes "find_app (apps_info c) (pj_app_id job) = Some app" "project_parts c app job part_list [] = Some [info]" "use_energy_prediction c"
  shows "energy_multi c part_list job = None"
proof -
  have o: "order_parts [info] = [info]" by (simp add: order_parts_def c_qsort_short)
  have e: "priority_energy [info] 0 = None" by (simp add: priority_energy_def c_rd_def)
  have r: "rate_parts c [info] [ei_part info] 0 j = None" for j by (simp add: e)
  show ?thesis
    using assms unfolding energy_multi_def Let_def
    by (subst project_parts_cong [of _ job]) (simp_all add: o r del: rate_parts.simps)
qed

text \<open>Chains of jobs: without energies and times the comparison is never positive.\<close>

lemma chain_infos_jobs: "chain_infos jobs ks = Some es \<Longrightarrow> map ei_job es = ks \<and> (\<forall>e \<in> set es. ei_best_energy e = Fin 0)"
  by (induction ks arbitrary: es) (auto simp: bind_eq_Some_conv new_energy_info_def)

lemma chain_infos_exists: "\<forall>k \<in> set ks. pj_best_value (jobs ! k) \<noteq> [] \<Longrightarrow> \<exists>es. chain_infos jobs ks = Some es"
  by (induction ks) (auto simp: c_rd_def)

lemma cmp_no_energy: "ei_best_energy A = Fin 0 \<Longrightarrow> ei_best_energy B = Fin 0 \<Longrightarrow> cmp_energy_values A B \<le> 0"
  by (simp add: cmp_energy_values_def Let_def dbl_min_def dbl_inf_def)

lemma add_bonus_spec:
  assumes "distinct (map ei_job es)" "\<forall>e \<in> set es. ei_job e < length jobs"
  shows "\<exists>jobs'. add_bonus self es i jobs (Fin x) =
      (jobs', Fin (x + (\<Sum>k < length es. if ei_job (es ! k) = self then of_nat (i + k) else 0))) \<and>
    length jobs' = length jobs \<and> (\<forall>j. j \<notin> ei_job ` set es \<longrightarrow> jobs' ! j = jobs ! j) \<and>
    (\<forall>k < length es. ei_job (es ! k) \<noteq> self \<longrightarrow> pj_priority (jobs' ! ei_job (es ! k)) = pj_priority (jobs ! ei_job (es ! k)) + of_nat (i + k))"
  using assms
proof (induction es arbitrary: i jobs x)
  case (Cons e es)
  define jobs1 where "jobs1 = (if ei_job e = self then jobs else jobs[ei_job e := (jobs ! ei_job e)\<lparr>pj_priority := pj_priority (jobs ! ei_job e) + of_nat i\<rparr>])"
  define x1 where "x1 = (if ei_job e = self then x + of_nat i else x)"
  have st: "add_bonus self (e # es) i jobs (Fin x) = add_bonus self es (Suc i) jobs1 (Fin x1)" by (simp add: jobs1_def x1_def)
  have l1: "length jobs1 = length jobs" by (simp add: jobs1_def)
  have pre: "distinct (map ei_job es)" "\<forall>e \<in> set es. ei_job e < length jobs1" using Cons.prems l1 by auto
  have nin: "ei_job e \<notin> ei_job ` set es" using Cons.prems by simp
  obtain jobs' where j': "add_bonus self es (Suc i) jobs1 (Fin x1) =
      (jobs', Fin (x1 + (\<Sum>k < length es. if ei_job (es ! k) = self then of_nat (Suc i + k) else 0)))" "length jobs' = length jobs1"
      "\<forall>j. j \<notin> ei_job ` set es \<longrightarrow> jobs' ! j = jobs1 ! j"
      "\<forall>k < length es. ei_job (es ! k) \<noteq> self \<longrightarrow> pj_priority (jobs' ! ei_job (es ! k)) = pj_priority (jobs1 ! ei_job (es ! k)) + of_nat (Suc i + k)"
    using Cons.IH [OF pre, of "Suc i" x1] by (elim exE conjE)
  have s: "x1 + (\<Sum>k < length es. if ei_job (es ! k) = self then of_nat (Suc i + k) else 0)
      = x + (\<Sum>k < length (e # es). if ei_job ((e # es) ! k) = self then of_nat (i + k) else (0 :: rat))"
    unfolding add_Suc_shift list.size(4) add_0_right by (simp only: x1_def sum.lessThan_Suc_shift add_Suc_right add_0_right nth_Cons_0 nth_Cons_Suc) simp
  have eq: "jobs1 ! ei_job (es ! k) = jobs ! ei_job (es ! k)" if "k < length es" for k
    using that nin nth_mem [OF that] by (cases "ei_job e = ei_job (es ! k)") (auto simp: jobs1_def)
  have "pj_priority (jobs' ! ei_job ((e # es) ! k)) = pj_priority (jobs ! ei_job ((e # es) ! k)) + of_nat (i + k)"
    if "k < length (e # es)" "ei_job ((e # es) ! k) \<noteq> self" for k
    using that j'(3,4) nin eq Cons.prems(2) by (cases k) (auto simp: jobs1_def)
  moreover have "length jobs' = length jobs" "\<forall>j. j \<notin> ei_job ` set (e # es) \<longrightarrow> jobs' ! j = jobs ! j"
    using j'(2,3) by (auto simp: jobs1_def)
  ultimately show ?case using st j'(1) s by (intro exI [of _ jobs']) simp
qed simp

text \<open>The jobs of a \<open>plussingleton\<close> chain get their position in the job list as bonus, whatever the projections say, because the
  comparison reads energies and times that are never set.\<close>

theorem chain_ignores_energy:
  assumes "filter ((=) SLURM_DEPEND_PLUSSINGLETON) deps = [SLURM_DEPEND_PLUSSINGLETON]"
    "ks = filter (\<lambda>k. same_chain (jobs ! self) (jobs ! k)) [0..<length jobs]" "1 < length ks" "self = last ks"
    "\<forall>k \<in> set ks. pj_best_value (jobs ! k) \<noteq> []"
  shows "\<exists>jobs'. energy_chain jobs self deps (Fin x) = Some (jobs', Fin (x + of_nat (length ks - 1))) \<and>
    (\<forall>i < length ks - 1. pj_priority (jobs' ! (ks ! i)) = pj_priority (jobs ! (ks ! i)) + of_nat i)"
proof -
  have "concat (map (\<lambda>d. if d = SLURM_DEPEND_PLUSSINGLETON then ys else []) ds) = concat (map (\<lambda>_. ys) (filter ((=) SLURM_DEPEND_PLUSSINGLETON) ds))"
    for ds and ys :: "nat list" by (induction ds) auto
  then have cj: "chain_jobs jobs (jobs ! self) deps = ks" using assms(1,2) by (simp add: chain_jobs_def)
  obtain es where es: "chain_infos jobs ks = Some es" using chain_infos_exists [OF assms(5)] by blast
  note m = chain_infos_jobs [OF es]
  then have me: "map ei_job es = ks" by blast
  have idle: "c_qsort cmp_energy_values es = es" using m by (intro c_qsort_idle) (auto intro: cmp_no_energy)
  have d: "distinct ks" "\<forall>k \<in> set ks. k < length jobs" using assms(2) by auto
  have l: "length es = length ks" using me by (metis length_map)
  have n: "ei_job (es ! k) = ks ! k" if "k < length ks" for k using me l that by (metis nth_map)
  have lst: "self = ks ! (length ks - 1)" using assms(3,4) last_conv_nth [of ks] by (cases "ks = []") auto
  have inj: "ks ! k = self \<longleftrightarrow> k = length ks - 1" if "k < length ks" for k
    using d(1) that assms(3) lst by (simp add: nth_eq_iff_index_eq)
  have "\<forall>e \<in> set es. ei_job e < length jobs" using d(2) me by (metis image_eqI list.set_map)
  then obtain jobs' where j': "add_bonus self es 0 jobs (Fin x) =
      (jobs', Fin (x + (\<Sum>k < length es. if ei_job (es ! k) = self then of_nat (0 + k) else 0)))"
      "\<forall>k < length es. ei_job (es ! k) \<noteq> self \<longrightarrow> pj_priority (jobs' ! ei_job (es ! k)) = pj_priority (jobs ! ei_job (es ! k)) + of_nat (0 + k)"
    using add_bonus_spec [of es jobs self 0 x] d(1) me by auto
  have "(\<Sum>k < length es. if ei_job (es ! k) = self then of_nat (0 + k) else (0 :: rat)) = (\<Sum>k < length es. if k = length ks - 1 then of_nat k else 0)"
    using n inj l by (intro sum.cong) auto
  also have "\<dots> = of_nat (length ks - 1)" using assms(3) l by (subst sum.delta) auto
  finally show ?thesis
    using j' cj es idle assms(3,4) n inj l by (auto simp: energy_chain_def)
qed

end
