(* ===== verification/Energy_Policy.thy ===== *)
theory Energy_Policy
  imports Energy_Ranking
begin

section \<open>Factors, frequencies and applications\<close>

text \<open>
  The range of the priority factors, the choice of a frequency from the projections, the table of applications, the final
  priority, and an example on which the hypotheses of all these theorems hold.
\<close>

subsection \<open>The factors\<close>

lemma of_u32_pos: "w \<noteq> 0 \<Longrightarrow> 0 < (of_nat (unat w) :: rat)" for w :: u32
  by (simp add: unat_gt_0)

text \<open>C40 (bounds): the factors of age and size are from 0 to 1 in a cluster that has nodes and processors, if the time limit of the job and
  the maximum time of its partition are not zero where the size is taken relative to the time.\<close>

theorem factor_bounds:
  assumes "node_record_count c \<noteq> 0" "cluster_cpus c \<noteq> 0"
    "flag_size_relative c \<longrightarrow> pj_time_limit job \<noteq> 0 \<and> (case pj_part_ptr job of Some p \<Rightarrow> pt_max_time (parts c p) \<noteq> 0 | None \<Rightarrow> True)"
  shows "\<exists>a q. age_factor c start_time job = Fin a \<and> 0 \<le> a \<and> a \<le> 1 \<and> size_factor c job = Fin q \<and> 0 \<le> q \<and> q \<le> 1"
proof -
  have d: "of_u32 x / of_u32 y = Fin (of_nat (unat x) / of_nat (unat y))" if "y \<noteq> 0" for x y
    using that by (simp add: of_u32_def unat_eq_zero)
  have "\<exists>a. age_factor c start_time job = Fin a \<and> 0 \<le> a \<and> a \<le> 1"
  proof -
    have "\<exists>a. of_u32 x / of_u32 y = Fin a \<and> 0 \<le> a \<and> a \<le> 1" if "x < y" for x y
    proof -
      have "y \<noteq> 0" using that by auto
      moreover have "unat x \<le> unat y" using that by (simp add: word_less_nat_alt)
      ultimately show ?thesis using d [of y x] of_u32_pos [of y] by (auto simp: divide_le_eq)
    qed
    then show ?thesis by (auto simp: age_factor_def Let_def)
  qed
  moreover have "\<exists>q. size_factor c job = Fin q \<and> 0 \<le> q \<and> q \<le> 1"
  proof -
    define js where "js = (if flag_size_relative c then
          let js = of_u32 (pj_min_nodes job) * of_u32 (cluster_cpus c) / of_u32 (node_record_count c);
              js = (if of_u32 (job_cpus job) > js then of_u32 (job_cpus job) else js);
              time_limit = (if pj_time_limit job \<noteq> NO_VAL then pj_time_limit job
                            else case pj_part_ptr job of Some p \<Rightarrow> pt_max_time (parts c p) | None \<Rightarrow> 1);
              js = js / of_u32 time_limit / of_u32 (cluster_cpus c)
          in if favor_small c then 1 - js else js
        else if favor_small c then
          let js = of_u32 (node_record_count c - pj_min_nodes job) / of_u32 (node_record_count c)
          in if job_cpus job \<noteq> 0 then (js + of_u32 (cluster_cpus c - job_cpus job) / of_u32 (cluster_cpus c)) / Fin 2 else js
        else
          let js = of_u32 (pj_min_nodes job) / of_u32 (node_record_count c)
          in if job_cpus job \<noteq> 0 then (js + of_u32 (job_cpus job) / of_u32 (cluster_cpus c)) / Fin 2 else js)"
    have e: "size_factor c job = (if weight_js c = 0 then 0 else if js < 0 then 0 else if js > 1 then 1 else js)"
      unfolding size_factor_def js_def Let_def by simp
    have "\<exists>x. js = Fin x"
    proof (cases "flag_size_relative c")
      case True
      define t where "t = (if pj_time_limit job \<noteq> NO_VAL then pj_time_limit job
                            else case pj_part_ptr job of Some p \<Rightarrow> pt_max_time (parts c p) | None \<Rightarrow> 1)"
      have t: "t \<noteq> 0" using assms(3) True by (auto simp: t_def split: option.splits)
      define x where "x = of_u32 (pj_min_nodes job) * of_u32 (cluster_cpus c) / of_u32 (node_record_count c)"
      define y where "y = (if of_u32 (job_cpus job) > x then of_u32 (job_cpus job) else x)"
      obtain x' where "x = Fin x'" using assms(1) by (auto simp: x_def of_u32_def unat_eq_zero)
      then obtain y' where y: "y = Fin y'" by (cases "of_u32 (job_cpus job) > x") (auto simp: y_def of_u32_def)
      obtain z where "y / of_u32 t / of_u32 (cluster_cpus c) = Fin z" using y t assms(2) by (auto simp: of_u32_def unat_eq_zero)
      then show ?thesis using True unfolding js_def Let_def x_def [symmetric] y_def [symmetric] t_def [symmetric] by auto
    next
      case False
      have "\<exists>x. (Fin a + Fin b) / Fin 2 = Fin x" for a b by (rule exI [of _ "(a + b) / 2"]) simp
      then show ?thesis using assms(1,2) False by (simp add: js_def Let_def d del: dbl_simps plus_dbl.simps divide_dbl.simps)
    qed
    then show ?thesis using e by auto
  qed
  ultimately show ?thesis by blast
qed

text \<open>If small jobs are favoured, the number of missing nodes wraps around for a job larger than the cluster, which so
  gets the factor of the smallest job.\<close>

theorem oversized_job_preferred:
  assumes "weight_js c \<noteq> 0" "favor_small c" "\<not> flag_size_relative c" "node_record_count c \<noteq> 0" "cluster_cpus c \<noteq> 0"
    "node_record_count c < pj_min_nodes job" "pj_min_nodes job \<le> 0x40000000"
  shows "size_factor c job = Fin 1"
proof -
  let ?n = "node_record_count c" and ?m = "pj_min_nodes job"
  have nm: "unat ?n < unat ?m" "unat ?m \<le> 0x40000000" using assms(6,7) by (simp_all add: word_less_nat_alt word_le_nat_alt)
  have "unat (?n - ?m) = 4294967296 + unat ?n - unat ?m" using nm by (subst unat_sub_if') (simp add: not_le)
  then have "2 * unat ?n < unat (?n - ?m)" using nm by linarith
  then have "(2 :: rat) * of_nat (unat ?n) < of_nat (unat (?n - ?m))"
    using of_nat_less_iff [of "2 * unat ?n" "unat (?n - ?m)", where ?'a = rat] by (simp only: of_nat_mult of_nat_numeral)
  then have x: "2 < (of_nat (unat (?n - ?m)) :: rat) / of_nat (unat ?n)" using of_u32_pos [OF assms(4)] by (simp add: less_divide_eq)
  have y: "0 \<le> (of_nat (unat (cluster_cpus c - job_cpus job)) :: rat) / of_nat (unat (cluster_cpus c))" by simp
  define a b :: rat where "a = of_nat (unat (?n - ?m)) / of_nat (unat ?n)" and "b = of_nat (unat (cluster_cpus c - job_cpus job)) / of_nat (unat (cluster_cpus c))"
  have "(of_nat (unat ?n) :: rat) \<noteq> 0" "(of_nat (unat (cluster_cpus c)) :: rat) \<noteq> 0"
    using of_u32_pos [OF assms(4)] of_u32_pos [OF assms(5)] by linarith+
  then have e: "of_u32 (?n - ?m) / of_u32 ?n = Fin a" "of_u32 (cluster_cpus c - job_cpus job) / of_u32 (cluster_cpus c) = Fin b"
    by (simp_all add: of_u32_def a_def b_def)
  have "2 < a" "0 \<le> b" using x y by (simp_all add: a_def b_def)
  then have "1 < (a + b) / 2" "1 < a" "0 < a + b" by simp_all
  then show ?thesis using assms(1-3) e by (simp add: size_factor_def Let_def)
qed

text \<open>For a job with several partitions and a negative nice value, the subtraction of the offset in unsigned
  arithmetic makes the priority so small that its conversion to 32 bits is undefined; with one partition the value raises the priority.\<close>

theorem negative_nice_undefined:
  assumes "pf_nice f < NICE_OFFSET" "pf_age f + pf_fs f + pf_js f + pf_qos f + tmp_tres c f = Fin s" "s < 9223372036854775808"
  shows "common_priority c f = None \<and>
    (pf_part f = Fin 0 \<longrightarrow> pf_age f + pf_fs f + pf_js f + pf_part f + pf_qos f + tmp_tres c f = Fin s \<longrightarrow>
     (\<exists>p. base_priority c f = Fin p \<and> s < p))"
proof -
  let ?d = "ucast (pf_nice f) - ucast NICE_OFFSET :: u64"
  have n: "unat (pf_nice f) < 0x80000000" using assms(1) by (simp add: word_less_nat_alt NICE_OFFSET_def)
  have u: "unat (ucast (pf_nice f) :: u64) = unat (pf_nice f)" "unat (ucast NICE_OFFSET :: u64) = 0x80000000"
    using n by (simp_all add: unsigned_ucast_eq take_bit_nat_eq_self NICE_OFFSET_def)
  have d: "unat ?d = 18446744073709551616 + unat (pf_nice f) - 0x80000000" using n u by (subst unat_sub_if') (simp add: not_le)
  then have "9223372036854775810 < unat ?d" by linarith
  then have "9223372036854775810 < (of_nat (unat ?d) :: rat)" using of_nat_less_iff [of 9223372036854775810 "unat ?d", where ?'a = rat] by simp
  then have "common_priority c f = None" using assms(2,3) by (simp add: common_priority_def of_u64_def)
  moreover have "uint (pf_nice f) - uint NICE_OFFSET < 0" using assms(1) by (simp add: word_less_def)
  then have "(of_int (uint (pf_nice f) - uint NICE_OFFSET) :: rat) < 0" by (simp only: of_int_less_0_iff)
  ultimately show ?thesis by (auto simp: base_priority_def)
qed

subsection \<open>The choice of a frequency\<close>

lemma search_min_stays:
  assumes "v \<noteq> []" "\<forall>x \<in> set v. \<not> x < v ! 0"
  shows "search_min v (int (length v)) = Some 0"
proof -
  have "search_min_loop v (int (length v)) i 0 = Some 0" if "0 \<le> i" for i
    using that
  proof (induction "nat (int (length v) - i)" arbitrary: i rule: less_induct)
    case less
    show ?case
    proof (cases "i < int (length v)")
      case True
      then have "v ! nat i \<in> set v" using less.prems by simp
      then show ?thesis using True less assms by (subst search_min_loop.simps) (simp add: c_rd_def)
    qed (subst search_min_loop.simps, simp)
  qed
  then show ?thesis by (simp add: search_min_def)
qed

lemma job_projections_eq:
  "length e = n \<Longrightarrow> length r = n \<Longrightarrow> k \<le> n \<Longrightarrow> job_projections e_min r_min e r k = Some (map (\<lambda>k. job_projection e_min r_min (e ! k) (r ! k)) [0..<k])"
  by (induction k) simp_all

text \<open>The weight of a frequency: squares of energy and one and a half times the run time, relative to the smallest of each.\<close>

definition freq_score :: "rat list \<Rightarrow> rat list \<Rightarrow> nat \<Rightarrow> rat" where
  "freq_score es rs k = (es ! k / Min {x \<in> set es. x \<noteq> 0})\<^sup>2 + (3 / 2 * (rs ! k) / Min (set rs))\<^sup>2"

lemma min_with_data:
  assumes "es \<noteq> []" "es ! 0 \<noteq> (0 :: rat)"
  obtains j where "search_min (map Fin es) (int (length es)) = Some (int j)" "j < length es" "es ! j = Min {x \<in> set es. x \<noteq> 0}" "es ! j \<noteq> 0"
proof -
  obtain j where j: "search_min (map Fin es) (int (length es)) = Some (int j)" "j < length es"
    "\<forall>k < length es. es ! k \<noteq> 0 \<longrightarrow> es ! j \<le> es ! k" "es ! 0 \<noteq> 0 \<longrightarrow> es ! j \<noteq> 0" by (rule search_min_spec [OF assms(1)])
  have "Min {x \<in> set es. x \<noteq> 0} = es ! j" using j assms(2) by (intro Min_eqI) (auto simp: in_set_conv_nth)
  then show thesis using that j assms(2) by simp
qed

text \<open>C18 (functional): if the first frequency has data, the chosen frequency has data, and no other frequency with data has a smaller weight.\<close>

theorem best_frequency:
  assumes lib: "lib_energy lib m trace = map Fin es" "lib_time lib m trace = map Fin rs" "length (lib_freqs lib m) = n" "length es = n" "length rs = n"
    and data: "0 < n" "\<forall>x \<in> set es. 0 \<le> x" "es ! 0 \<noteq> 0" "\<forall>x \<in> set rs. 0 < x" and fits: "Fin (freq_score es rs 0) < DBL_MAX"
  shows "\<exists>pr f. project lib m trace = Some pr \<and> pr_best pr = int f \<and> f < n \<and> es ! f \<noteq> 0 \<and>
    (\<forall>k < n. es ! k \<noteq> 0 \<longrightarrow> freq_score es rs f \<le> freq_score es rs k)"
proof -
  have ne: "es \<noteq> []" "rs \<noteq> []" using lib(4,5) data(1) by auto
  obtain a where a: "search_min (map Fin es) (int n) = Some (int a)" "a < n" "es ! a = Min {x \<in> set es. x \<noteq> 0}" "es ! a \<noteq> 0"
    using min_with_data [OF ne(1) data(3)] unfolding lib(4) .
  have r0: "rs ! 0 \<noteq> 0" using data(1,4) lib(5) nth_mem [of 0 rs] by force
  have rr: "{x \<in> set rs. x \<noteq> 0} = set rs" using data(4) by auto
  obtain b where b: "search_min (map Fin rs) (int n) = Some (int b)" "b < n" "rs ! b = Min (set rs)" "rs ! b \<noteq> 0"
    using min_with_data [OF ne(2) r0] unfolding lib(5) rr .
  obtain M where M: "DBL_MAX = Fin M" "0 < M" by (simp add: DBL_MAX_def)
  define vs where "vs = map (\<lambda>k. if es ! k = 0 then M else freq_score es rs k) [0..<n]"
  have lv: "length vs = n" "vs \<noteq> []" using data(1) by (simp_all add: vs_def)
  have pos: "0 < freq_score es rs k" if "es ! k \<noteq> 0" for k
    using that a(3,4) unfolding freq_score_def by (intro add_pos_nonneg) auto
  have jp: "job_projection (Fin (es ! a)) (Fin (rs ! b)) (Fin (es ! k)) (Fin (rs ! k)) = Fin (if es ! k = 0 then M else freq_score es rs k)" for k
    using a(3,4) b(3,4) M(1) by (simp add: job_projection_def Let_def freq_score_def power2_eq_square)
  have v: "job_projections (Fin (es ! a)) (Fin (rs ! b)) (map Fin es) (map Fin rs) n = Some (map Fin vs)"
    using job_projections_eq [of "map Fin es" n "map Fin rs" n] lib(4,5) by (simp add: vs_def jp cong: map_cong)
  obtain f where f: "search_min (map Fin vs) (int n) = Some (int f)" "f < n" "\<forall>k < n. vs ! k \<noteq> 0 \<longrightarrow> vs ! f \<le> vs ! k" "vs ! f \<le> vs ! 0"
    using search_min_spec [OF lv(2)] unfolding lv(1) by blast
  have nz: "vs ! k = (if es ! k = 0 then M else freq_score es rs k)" "vs ! k \<noteq> 0" if "k < n" for k
    using that pos M(2) by (auto simp: vs_def less_imp_neq [symmetric] dest: pos)
  have "freq_score es rs 0 < M" using fits unfolding M(1) by simp
  then have ef: "es ! f \<noteq> 0" using f(4) nz(1) [OF f(2)] nz(1) [OF data(1)] data(3) by auto
  have "freq_score es rs f \<le> freq_score es rs k" if "k < n" "es ! k \<noteq> 0" for k
  proof -
    have "vs ! f \<le> vs ! k" using f(3) nz(2) [OF that(1)] that(1) by blast
    then show ?thesis using nz(1) [OF that(1)] nz(1) [OF f(2)] that(2) ef by simp
  qed
  moreover have "project lib m trace = Some \<lparr>pr_freqs = lib_freqs lib m, pr_energy = map Fin es, pr_time = map Fin rs, pr_value = map Fin vs, pr_best = int f\<rparr>"
    using a b v f(1,2) lib by (simp add: project_def Let_def)
  ultimately show ?thesis using f(2) ef by auto
qed

text \<open>If the first frequency has no data, it is chosen although others have data, because zero is the smallest energy of all and the
  weights of the others become infinite.\<close>

theorem no_data_chosen:
  assumes lib: "lib_energy lib m trace = map Fin es" "lib_time lib m trace = map Fin rs" "length (lib_freqs lib m) = n" "length es = n" "length rs = n"
    and data: "0 < n" "\<forall>x \<in> set es. 0 \<le> x" "es ! 0 = 0" "\<forall>x \<in> set rs. 0 < x"
  shows "\<exists>pr. project lib m trace = Some pr \<and> pr_best pr = 0 \<and> pr_energy pr ! 0 = 0"
proof -
  have ne: "es \<noteq> []" "rs \<noteq> []" using lib(4,5) data(1) by auto
  have r0: "rs ! 0 \<noteq> 0" using data(1,4) lib(5) nth_mem [of 0 rs] by force
  obtain b where b: "search_min (map Fin rs) (int n) = Some (int b)" "b < n" "rs ! b \<noteq> 0"
    using min_with_data [OF ne(2) r0] unfolding lib(5) by blast
  have a: "search_min (map Fin es) (int n) = Some 0"
    using search_min_stays [of "map Fin es"] data ne lib(4) by (auto simp: not_less)
  define vs where "vs = map (\<lambda>k. job_projection (Fin 0) (Fin (rs ! b)) (Fin (es ! k)) (Fin (rs ! k))) [0..<n]"
  have v: "job_projections (Fin 0) (Fin (rs ! b)) (map Fin es) (map Fin rs) n = Some vs"
    using job_projections_eq [of "map Fin es" n "map Fin rs" n] lib(4,5) by (simp add: vs_def cong: map_cong)
  have lv: "length vs = n" "vs \<noteq> []" using data(1) by (simp_all add: vs_def)
  have "\<not> x < vs ! 0" if x: "x \<in> set vs" for x
  proof -
    obtain k where k: "k < n" "x = job_projection (Fin 0) (Fin (rs ! b)) (Fin (es ! k)) (Fin (rs ! k))" using x unfolding vs_def by auto
    have "0 \<le> es ! k" using data(2) k(1) lib(4) by simp
    moreover have "vs ! 0 = DBL_MAX" using data by (simp add: vs_def job_projection_def)
    ultimately show ?thesis using k(2) b(3) by (auto simp: job_projection_def Let_def DBL_MAX_def dbl_inf_def)
  qed
  then have f: "search_min vs (int n) = Some 0" using search_min_stays [OF lv(2)] lv(1) by simp
  have "project lib m trace = Some \<lparr>pr_freqs = lib_freqs lib m, pr_energy = map Fin es, pr_time = map Fin rs, pr_value = vs, pr_best = 0\<rparr>"
    using a b v f lib data by (simp add: project_def Let_def)
  then show ?thesis using data(3) ne(1) by simp
qed

subsection \<open>The table of applications\<close>

lemma cmp_app_small:
  assumes "app_id a < 0x80000000" "app_id b < 0x80000000"
  shows "cmp_app_info a b = int (unat (app_id a)) - int (unat (app_id b))"
proof -
  have l: "uint (app_id a) < 0x80000000" "uint (app_id b) < 0x80000000" using assms by (simp_all add: word_less_def)
  have "app_id a - app_id b = of_int (uint (app_id a) - uint (app_id b))" by simp
  then have "cmp_app_info a b = sint (of_int (uint (app_id a) - uint (app_id b)) :: u32)" by (simp only: cmp_app_info_def)
  also have "\<dots> = signed_take_bit 31 (uint (app_id a) - uint (app_id b))" by (simp only: sint_sbintrunc') simp
  also have "\<dots> = uint (app_id a) - uint (app_id b)"
  proof (rule signed_take_bit_int_eq_self)
    have p: "(2 :: int) ^ 31 = 0x80000000" by simp
    show "- (2 ^ 31) \<le> uint (app_id a) - uint (app_id b)" "uint (app_id a) - uint (app_id b) < 2 ^ 31"
      unfolding p using l uint_ge_0 [of "app_id a"] uint_ge_0 [of "app_id b"] by linarith+
  qed
  finally show ?thesis by (simp add: of_nat_unat)
qed

text \<open>The lines of an application follow each other in the file.\<close>

definition app_lines :: "app_info \<Rightarrow> (u32 \<times> u16 \<times> dbl list) list" where
  "app_lines a = map (\<lambda>m. (app_id a, m)) (app_models a)"

lemma init_apps_more:
  assumes "length (app_models a) + length ms \<le> n"
  shows "init_apps_loop n num (map (\<lambda>m. (app_id a, m)) ms @ lines) (app_id a) (apps @ [a]) =
    init_apps_loop n num lines (app_id a) (apps @ [a\<lparr>app_models := app_models a @ ms\<rparr>])"
  using assms
proof (induction ms arbitrary: a)
  case (Cons m ms)
  let ?a = "a\<lparr>app_models := app_models a @ [m]\<rparr>"
  have "length (app_models a) < n" using Cons.prems by simp
  then have "init_apps_loop n num (map (\<lambda>m. (app_id a, m)) (m # ms) @ lines) (app_id a) (apps @ [a]) =
      init_apps_loop n num (map (\<lambda>m. (app_id a, m)) ms @ lines) (app_id a) (apps @ [?a])"
    by (cases m) (simp add: c_rd_def c_wr_def nth_append list_update_append)
  then show ?case using Cons.IH [of ?a] Cons.prems by simp
qed simp

lemma init_apps_one:
  assumes "app_id a \<noteq> prec" "app_models a \<noteq> []" "length (app_models a) \<le> n" "length apps < num"
  shows "init_apps_loop n num (app_lines a @ lines) prec apps = init_apps_loop n num lines (app_id a) (apps @ [a])"
proof -
  obtain m ms where m: "app_models a = m # ms" using assms(2) by (cases "app_models a") auto
  let ?a = "\<lparr>app_id = app_id a, app_models = [m]\<rparr>"
  have "0 < n" using assms(3) m by simp
  then have "init_apps_loop n num (app_lines a @ lines) prec apps = init_apps_loop n num (map (\<lambda>m. (app_id a, m)) ms @ lines) (app_id a) (apps @ [?a])"
    using assms(1,4) m by (cases m) (simp add: app_lines_def c_rd_def c_wr_def nth_append list_update_append)
  also have "\<dots> = init_apps_loop n num lines (app_id a) (apps @ [?a\<lparr>app_models := app_models ?a @ ms\<rparr>])"
    using init_apps_more [of ?a ms n num lines apps] assms(3) m by simp
  also have "?a\<lparr>app_models := app_models ?a @ ms\<rparr> = a" using m by (cases a) simp
  finally show ?thesis .
qed

lemma init_apps_all:
  assumes "\<forall>a \<in> set as. app_models a \<noteq> [] \<and> length (app_models a) \<le> n" "length apps + length as \<le> num"
    "distinct (map app_id as)" "prec \<notin> app_id ` set as"
  shows "init_apps_loop n num (concat (map app_lines as)) prec apps = Some (apps @ as)"
  using assms
proof (induction as arbitrary: prec apps)
  case (Cons a as)
  then show ?case using init_apps_one [of a prec n apps num "concat (map app_lines as)"] Cons.IH [of "apps @ [a]" "app_id a"] by auto
qed simp

text \<open>If the file has the lines of each application together and its first line counts the applications, then after
  reading it the lookup of each application by its identifier gives all its models; the lookup of any other identifier fails, and dereferences the null pointer.\<close>

theorem app_lookup:
  assumes "\<forall>a \<in> set as. app_models a \<noteq> [] \<and> length (app_models a) \<le> n \<and> app_id a < 0x80000000" "distinct (map app_id as)" "i < 0x80000000"
  shows "\<exists>apps. init_apps n (length as) (concat (map app_lines as)) = Some apps \<and> mset apps = mset as \<and>
    (\<forall>a \<in> set as. find_app apps (app_id a) = Some a) \<and> (i \<notin> app_id ` set as \<longrightarrow> find_app apps i = None)"
proof -
  let ?f = "\<lambda>a :: app_info. int (unat (app_id a))"
  define apps where "apps = c_qsort cmp_app_info as"
  have neg: "- 1 \<notin> app_id ` set as" 
  proof -
    have "\<not> (- 1 :: u32) < 0x80000000" by simp
    then show ?thesis using assms(1) by (metis imageE)
  qed
  have i: "init_apps n (length as) (concat (map app_lines as)) = Some apps"
    using init_apps_all [of as n "[]" "length as" "- 1"] assms(1,2) neg by (simp add: init_apps_def apps_def)
  have s: "set apps = set as" "mset apps = mset as" by (simp_all add: apps_def)
  have inj: "?f a = ?f b \<longleftrightarrow> a = b" if "a \<in> set as" "b \<in> set as" for a b
    using that assms(2) by (auto simp: distinct_map inj_on_def word_unat_eq_iff)
  have srt: "sorted (map ?f apps)" unfolding apps_def using assms(1) by (intro c_qsort_keys) (simp add: cmp_app_small)
  have found: "case c_bsearch cmp_app_info \<lparr>app_id = k, app_models = []\<rparr> apps of None \<Rightarrow> int (unat k) \<notin> ?f ` set apps
      | Some j \<Rightarrow> j < length apps \<and> ?f (apps ! j) = int (unat k)" if "k < 0x80000000" for k
  proof (rule c_bsearch_spec [OF srt])
    fix x
    assume "x \<in> set apps"
    then show "sgn (cmp_app_info \<lparr>app_id = k, app_models = []\<rparr> x) = sgn (int (unat k) - ?f x)"
      using assms(1) s(1) that by (subst cmp_app_small) auto
  qed
  have "find_app apps (app_id a) = Some a" if a: "a \<in> set as" for a
  proof -
    have k: "app_id a < 0x80000000" using assms(1) a by blast
    from found [OF k] obtain j where j: "c_bsearch cmp_app_info \<lparr>app_id = app_id a, app_models = []\<rparr> apps = Some j" "j < length apps" "?f (apps ! j) = ?f a"
      using a s(1) by (auto split: option.splits)
    then have "apps ! j = a" using inj [of "apps ! j" a] a s(1) nth_mem [OF j(2)] by simp
    then show ?thesis using j by (simp add: find_app_def)
  qed
  moreover have "find_app apps i = None" if n: "i \<notin> app_id ` set as"
  proof -
    have "c_bsearch cmp_app_info \<lparr>app_id = i, app_models = []\<rparr> apps = None"
      using found [OF assms(3)] n s(1) by (auto split: option.splits simp: word_unat_eq_iff dest!: nth_mem) (metis image_eqI word_unat_eq_iff)
    then show ?thesis by (simp add: find_app_def)
  qed
  ultimately show ?thesis using i s(2) by blast
qed

subsection \<open>An example\<close>

text \<open>Two modules with two frequencies each, one application with a model for both, and a job for both partitions.\<close>

definition example_lib :: energy_lib where
  "example_lib = \<lparr>lib_name = (\<lambda>i. if i = 0 then Some ''cm'' else if i = 1 then Some ''bs'' else None), lib_freqs = (\<lambda>_. [Fin 1, Fin 2]),
     lib_energy = (\<lambda>i _. if i = 0 then map Fin [4, 3] else map Fin [6, 5]), lib_time = (\<lambda>i _. if i = 0 then map Fin [120, 100] else map Fin [60, 50])\<rparr>"

definition example_app :: app_info where
  "example_app = \<lparr>app_id = 7, app_models = [(0, [Fin 2]), (1, [Fin 1])]\<rparr>"

definition example_conf :: prio_conf where
  "example_conf = \<lparr>weight_age = 10, weight_fs = 0, weight_js = 5, weight_part = 8, weight_qos = 0, weight_tres = None, max_age = 100,
     favor_small = True, flag_accrue_always = False, flag_size_relative = False, flag_incr_only = False, cluster_cpus = 64, node_record_count = 4,
     part_max_priority = 2, use_energy_prediction = True, n_modules = 2, apps_info = [example_app], the_lib = example_lib,
     parts = (\<lambda>p. \<lparr>pt_name = (if p = 0 then Some ''cm'' else if p = 1 then Some ''bs'' else None), pt_priority_job_factor = 1,
       pt_norm_priority = Fin 1, pt_max_time = 60, pt_tres_cnt = None\<rparr>)\<rparr>"

definition example_job :: "nat list \<Rightarrow> u32 \<Rightarrow> job_record" where
  "example_job ps nodes = \<lparr>pj_user_id = 1, pj_name = None, pj_priority = 5, pj_direct_set_prio = False, pj_details = True, pj_app_id = 7, pj_partition = None,
     pj_part_ptr = None, pj_part_ptr_list = Some ps, pj_time_limit = 2, pj_duration = 60, pj_submit_time = 0, pj_begin_time = 0,
     pj_total_cpus = 0, pj_max_cpus = 8, pj_min_cpus = 0, pj_min_nodes = nodes, pj_nice = NICE_OFFSET, pj_qos = None, pj_tres = None,
     pj_depend_list = Some [SLURM_DEPEND_PLUSSINGLETON], pj_prio_factors = zero_factors\<lparr>pf_nice := NICE_OFFSET\<rparr>, pj_priority_array = None, pj_best_freq = [],
     pj_best_energy = [], pj_def_energy = [], pj_best_value = [Fin 1], pj_best_time_limit = [], pj_best_duration = [],
     pj_real_best_energy = [], pj_real_def_energy = []\<rparr>"

lemmas example_defs = example_lib_def example_app_def example_conf_def example_job_def

lemma example_find_app: "find_app (apps_info example_conf) (pj_app_id (example_job ps k)) = Some example_app"
  by (simp add: example_defs find_app_def c_bsearch_def bsearch_loop.simps cmp_app_info_def)

lemma example_common: "common_priority example_conf (pj_prio_factors (example_job ps k)) = Some 0"
  by (simp add: example_defs common_priority_def zero_factors_def tmp_tres_def of_u64_def NICE_OFFSET_def rat_trunc_def)

lemma example_project:
  "project example_lib 0 tr = Some \<lparr>pr_freqs = [Fin 1, Fin 2], pr_energy = [Fin 4, Fin 3], pr_time = [Fin 120, Fin 100], pr_value = [Fin (4516 / 900), Fin (13 / 4)], pr_best = 1\<rparr>"
  "project example_lib 1 tr = Some \<lparr>pr_freqs = [Fin 1, Fin 2], pr_energy = [Fin 6, Fin 5], pr_time = [Fin 60, Fin 50], pr_value = [Fin (117 / 25), Fin (13 / 4)], pr_best = 1\<rparr>"
  by (simp_all add: project_def example_lib_def search_min_def search_min_loop.simps c_rd_def numeral_2_eq_2 job_projection_def Let_def)

lemma example_modules: "get_i_module example_lib 2 (Some ''cm'') = 0" "get_i_module example_lib 2 (Some ''bs'') = 1"
  by (simp_all add: get_i_module_def example_lib_def numeral_2_eq_2)

definition example_first :: energy_info where
  "example_first = new_energy_info\<lparr>ei_part := 0, ei_time_proportion := Fin 2, ei_best_freq := Fin 2, ei_best_value := Fin (13 / 4), ei_best_energy := Fin 3,
     ei_def_energy := Fin 3, ei_best_time := 2, ei_best_duration := 50, ei_real_best_energy := Fin (3 / 2), ei_real_def_energy := Fin (3 / 2)\<rparr>"

definition example_second :: energy_info where
  "example_second = new_energy_info\<lparr>ei_part := 1, ei_best_freq := Fin 2, ei_best_value := Fin (13 / 4), ei_best_energy := Fin 5,
     ei_def_energy := Fin 5, ei_best_time := 1, ei_best_duration := 25, ei_real_best_energy := Fin (5 / 2), ei_real_def_energy := Fin (5 / 2)\<rparr>"

lemma example_ceiling: "\<lceil>5 / 3 :: rat\<rceil> = 2" "\<lceil>5 / 6 :: rat\<rceil> = 1"
  by (simp_all add: ceiling_eq_iff)

lemma example_fill:
  "get_best_projection example_lib True example_app 0 [new_energy_info\<lparr>ei_part := 0\<rparr>] 0 2 60 = Some ([example_first], True)"
  "get_best_projection example_lib True example_app 1 [example_first, new_energy_info\<lparr>ei_part := 1\<rparr>] 1 2 60 = Some ([example_first, example_second], True)"
  by (simp_all add: get_best_projection_def find_app_model_def example_app_def example_project fill_info_def c_rd_def c_wr_def of_u32_def
      rat_trunc_def example_ceiling example_first_def example_second_def new_energy_info_def Let_def
      del: One_nat_def)

lemma example_parts:
  "project_parts example_conf example_app (example_job ps k) [0] [] = Some [example_first]"
  "project_parts example_conf example_app (example_job ps k) [0, 1] [] = Some [example_first, example_second]"
  using example_fill example_modules by (simp_all add: example_conf_def example_job_def del: One_nat_def)


theorem single_model_crash_witness: "energy_multi example_conf [0] (example_job [0] 1) = None"
  using single_model_crash [OF example_find_app example_parts(1)] by (simp add: example_conf_def)

theorem chain_ignores_energy_witness:
  "\<exists>jobs'. energy_chain [example_job [] 1, example_job [] 1] 1 [SLURM_DEPEND_PLUSSINGLETON] (Fin 7) = Some (jobs', Fin 8) \<and>
    pj_priority (jobs' ! 0) = 5"
  using chain_ignores_energy [of "[SLURM_DEPEND_PLUSSINGLETON]" "[0, 1]" "[example_job [] 1, example_job [] 1]" 1 7]
  by (auto simp: same_chain_def example_job_def)

theorem factor_bounds_witness:
  "\<exists>a q. age_factor example_conf 50 (example_job [] 1) = Fin a \<and> 0 \<le> a \<and> a \<le> 1 \<and> size_factor example_conf (example_job [] 1) = Fin q \<and> 0 \<le> q \<and> q \<le> 1"
  using factor_bounds [of example_conf "example_job [] 1" 50] by (simp add: example_conf_def)

theorem oversized_job_preferred_witness: "size_factor example_conf (example_job [] 5) = Fin 1"
  using oversized_job_preferred [of example_conf "example_job [] 5"] by (simp add: example_conf_def example_job_def)

theorem negative_nice_undefined_witness:
  "common_priority example_conf (zero_factors\<lparr>pf_nice := NICE_OFFSET - 10\<rparr>) = None"
  using negative_nice_undefined [of "zero_factors\<lparr>pf_nice := NICE_OFFSET - 10\<rparr>" example_conf 0]
  by (simp add: zero_factors_def NICE_OFFSET_def tmp_tres_def example_conf_def)

theorem best_frequency_witness:
  "\<exists>pr f. project example_lib 0 [Fin 120] = Some pr \<and> pr_best pr = int f \<and> f < 2"
proof -
  have "{x \<in> set [4, 3 :: rat]. x \<noteq> 0} = {3, 4}" by auto
  then have "Fin (freq_score [4, 3] [120, 100] 0) < DBL_MAX" by (simp add: freq_score_def DBL_MAX_def power2_eq_square)
  then show ?thesis using best_frequency [of example_lib 0 "[Fin 120]" "[4, 3]" "[120, 100]" 2] by (fastforce simp: example_lib_def)
qed

theorem no_data_chosen_witness:
  "\<exists>pr. project (example_lib\<lparr>lib_energy := (\<lambda>_ _. map Fin [0, 3])\<rparr>) 0 [Fin 120] = Some pr \<and> pr_best pr = 0 \<and> pr_energy pr ! 0 = 0"
  using no_data_chosen [of "example_lib\<lparr>lib_energy := (\<lambda>_ _. map Fin [0, 3])\<rparr>" 0 "[Fin 120]" "[0, 3]" "[120, 100]" 2]
  by (simp add: example_lib_def)

theorem app_lookup_witness:
  "\<exists>apps. init_apps 2 1 [(7, 0, [Fin 2]), (7, 1, [Fin 1])] = Some apps \<and> find_app apps 7 = Some example_app \<and> find_app apps 3 = None"
  using app_lookup [of "[example_app]" 2 3] by (auto simp: example_app_def app_lines_def)

subsection \<open>The result\<close>

lemma clamp_range: "clamp_priority x = Some y \<Longrightarrow> \<exists>q. y = Fin q \<and> 1 \<le> q"
  by (cases x) (auto simp: clamp_priority_def bind_eq_Some_conv not_less split: if_splits)

lemma to_u32_pos: "1 \<le> q \<Longrightarrow> to_u32 (Fin q) = Some p \<Longrightarrow> p \<noteq> 0"
proof -
  assume q: "1 \<le> q" "to_u32 (Fin q) = Some p"
  then have "p = of_int \<lfloor>q\<rfloor>" "q < 4294967296" by (auto simp: rat_trunc_def split: if_splits)
  moreover have "1 \<le> \<lfloor>q\<rfloor>" "\<lfloor>q\<rfloor> < 4294967296" using q(1) calculation(2) by (simp_all add: le_floor_iff floor_less_iff)
  ultimately have "uint p = \<lfloor>q\<rfloor>" by (simp add: unsigned_of_int take_bit_int_eq_self)
  then show "p \<noteq> 0" using \<open>1 \<le> \<lfloor>q\<rfloor>\<close> by (metis uint_0_eq zero_less_one not_le)
qed

lemma add_bonus_mono: "add_bonus self es i jobs (Fin x) = (jobs', y) \<Longrightarrow> \<exists>q. y = Fin q \<and> x \<le> q"
proof (induction es arbitrary: i jobs x)
  case (Cons e es)
  show ?case
  proof (cases "ei_job e = self")
    case True
    then obtain q where "y = Fin q" "x + of_nat i \<le> q" using Cons.IH [of "i + 1" jobs "x + of_nat i"] Cons.prems by auto
    moreover have "(0 :: rat) \<le> of_nat i" by simp
    ultimately show ?thesis by (intro exI [of _ q]) linarith
  next
    case False
    then show ?thesis using Cons.IH Cons.prems by simp
  qed
qed auto

lemma energy_chain_mono: "energy_chain jobs self deps (Fin x) = Some (jobs', y) \<Longrightarrow> \<exists>q. y = Fin q \<and> x \<le> q"
  by (auto simp: energy_chain_def Let_def bind_eq_Some_conv split: if_splits dest: add_bonus_mono)

lemma apply_energy_mono: "apply_energy c jobs self job (Fin x) = Some (jobs', y) \<Longrightarrow> \<exists>q. y = Fin q \<and> x \<le> q"
  unfolding apply_energy_def by (auto simp: bind_eq_Some_conv split: option.splits dest: energy_chain_mono)



end
