(* ===== verification/Node_Space.thy ===== *)
theory Node_Space
  imports Bitstring
begin

section \<open>The backfill reservation table (\<open>src/plugins/sched/backfill/backfill.c\<close>)\<close>

text \<open>
  The backfill scheduler keeps the nodes that are free over time in the array
  \<open>node_space\<close>: each record covers the half-open interval from \<open>begin_time\<close> to \<open>end_time\<close> and
  holds the bitmap of the nodes available in it. The records form a list by time, linked
  through the index \<open>next\<close>, with record 0 first and 0 as the terminator. Modelled are the
  creation of the table, \<open>_add_reservation\<close>, \<open>_test_resv_overlap\<close>, the loop of
  \<open>_attempt_backfill\<close> that intersects the nodes usable by a job with the table, and
  \<open>_get_job_max_tl\<close>.

  A null \<open>avail_bitmap\<close> is \<open>None\<close>. Times are integers; the parameters of type \<open>uint32_t\<close> are
  reduced where the code converts to that type. A walk along \<open>next\<close> need not end on an
  arbitrary array; the loops therefore take fuel and the result \<open>None\<close> also stands for a walk
  longer than the fuel. The callers pass the length of the array, and the theorems show
  that this is enough on every well-formed table: they conclude \<open>Some\<close>.
\<close>

record node_space_map =
  ns_begin :: int
  ns_end :: int
  ns_avail :: "bitstr option"
  ns_next :: int

definition u32 :: "int \<Rightarrow> int" where
  "u32 x = x mod 2 ^ 32"

text \<open>\<open>xmalloc\<close> returns zeroed memory.\<close>

definition ns_zero :: node_space_map where
  "ns_zero = \<lparr>ns_begin = 0, ns_end = 0, ns_avail = None, ns_next = 0\<rparr>"

definition node_space_init :: "int \<Rightarrow> int \<Rightarrow> bitstr \<Rightarrow> nat \<Rightarrow> (node_space_map list \<times> int) option" where
  "node_space_init sched_start backfill_window avail_node_bitmap max_backfill_job_cnt = do {
     let ns = replicate (max_backfill_job_cnt * 2 + 1) ns_zero;
     let window_end = sched_start + backfill_window;
     b \<leftarrow> bit_copy avail_node_bitmap;
     ns \<leftarrow> c_wr ns 0 \<lparr>ns_begin = sched_start, ns_end = window_end, ns_avail = Some b, ns_next = 0\<rparr>;
     Some (ns, 1)
   }"

text \<open>Both insertions of \<open>_add_reservation\<close>: record \<open>j\<close> is cut at time \<open>t\<close> and the rest of its
  interval becomes the next free record, with a copy of the bitmap.\<close>

definition insert_record :: "node_space_map list \<Rightarrow> int \<Rightarrow> int \<Rightarrow> int \<Rightarrow> (node_space_map list \<times> int) option" where
  "insert_record ns recs j t = do {
     r \<leftarrow> c_rd ns j;
     av \<leftarrow> ns_avail r;
     cp \<leftarrow> bit_copy av;
     ns \<leftarrow> c_wr ns recs \<lparr>ns_begin = t, ns_end = ns_end r, ns_avail = Some cp, ns_next = ns_next r\<rparr>;
     ns \<leftarrow> c_wr ns j (r\<lparr>ns_end := t, ns_next := recs\<rparr>);
     Some (ns, recs + 1)
   }"

text \<open>\<open>while ((j = node_space[j].next))\<close>: find the record in which the reservation ends.\<close>

fun add_end_loop :: "nat \<Rightarrow> node_space_map list \<Rightarrow> int \<Rightarrow> int \<Rightarrow> int \<Rightarrow> (node_space_map list \<times> int) option" where
  "add_end_loop 0 ns recs end_reserve j = None"
| "add_end_loop (Suc fuel) ns recs end_reserve j = do {
     r \<leftarrow> c_rd ns j;
     let j = ns_next r;
     if j = 0 then Some (ns, recs)
     else do {
       r \<leftarrow> c_rd ns j;
       if end_reserve < ns_end r then insert_record ns recs j end_reserve
       else if end_reserve = ns_end r then Some (ns, recs)
       else add_end_loop fuel ns recs end_reserve j
     }
   }"

fun add_start_loop :: "nat \<Rightarrow> node_space_map list \<Rightarrow> int \<Rightarrow> int \<Rightarrow> int \<Rightarrow> int \<Rightarrow> (node_space_map list \<times> int) option" where
  "add_start_loop 0 ns recs start_time end_reserve j = None"
| "add_start_loop (Suc fuel) ns recs start_time end_reserve j = do {
     r \<leftarrow> c_rd ns j;
     (ns, recs, placed) \<leftarrow>
       (if ns_end r > start_time
        then do { (ns, recs) \<leftarrow> insert_record ns recs j start_time; Some (ns, recs, True) }
        else Some (ns, recs, False));
     r \<leftarrow> c_rd ns j;
     if placed \<or> ns_end r = start_time then add_end_loop (length ns) ns recs end_reserve j
     else if ns_next r = 0 then Some (ns, recs)
     else add_start_loop fuel ns recs start_time end_reserve (ns_next r)
   }"

fun add_mask_loop :: "nat \<Rightarrow> node_space_map list \<Rightarrow> int \<Rightarrow> int \<Rightarrow> bitstr \<Rightarrow> int \<Rightarrow> node_space_map list option" where
  "add_mask_loop 0 ns start_time end_reserve res_bitmap j = None"
| "add_mask_loop (Suc fuel) ns start_time end_reserve res_bitmap j = do {
     r \<leftarrow> c_rd ns j;
     ns \<leftarrow> (if ns_begin r \<ge> start_time \<and> ns_end r \<le> end_reserve
            then do {
              av \<leftarrow> ns_avail r;
              av \<leftarrow> bit_and av res_bitmap;
              c_wr ns j (r\<lparr>ns_avail := Some av\<rparr>)
            } else Some ns);
     if ns_begin r \<ge> end_reserve \<or> ns_next r = 0 then Some ns
     else add_mask_loop fuel ns start_time end_reserve res_bitmap (ns_next r)
   }"

text \<open>The last loop merges the first pair of neighbours with equal bitmaps;
  \<open>FREE_NULL_BITMAP\<close> releases the second bitmap and clears the pointer.\<close>

fun add_merge_loop :: "nat \<Rightarrow> node_space_map list \<Rightarrow> int \<Rightarrow> node_space_map list option" where
  "add_merge_loop 0 ns i = None"
| "add_merge_loop (Suc fuel) ns i = do {
     ri \<leftarrow> c_rd ns i;
     let j = ns_next ri;
     if j = 0 then Some ns
     else do {
       rj \<leftarrow> c_rd ns j;
       avi \<leftarrow> ns_avail ri;
       avj \<leftarrow> ns_avail rj;
       e \<leftarrow> bit_equal avi avj;
       if \<not> e then add_merge_loop fuel ns j
       else do {
         ns \<leftarrow> c_wr ns i (ri\<lparr>ns_end := ns_end rj, ns_next := ns_next rj\<rparr>);
         _ \<leftarrow> bit_free avj;
         c_wr ns j (rj\<lparr>ns_avail := None\<rparr>)
       }
     }
   }"

definition add_reservation ::
    "int \<Rightarrow> int \<Rightarrow> bitstr \<Rightarrow> node_space_map list \<Rightarrow> int \<Rightarrow> (node_space_map list \<times> int) option" where
  "add_reservation start_time end_reserve res_bitmap ns recs = do {
     r \<leftarrow> c_rd ns 0;
     let start_time = u32 (max start_time (ns_begin r));
     (ns, recs) \<leftarrow> add_start_loop (length ns) ns recs start_time end_reserve 0;
     ns \<leftarrow> add_mask_loop (length ns) ns start_time end_reserve res_bitmap 0;
     ns \<leftarrow> add_merge_loop (length ns) ns 0;
     Some (ns, recs)
   }"

fun overlap_loop :: "nat \<Rightarrow> node_space_map list \<Rightarrow> bitstr \<Rightarrow> int \<Rightarrow> int \<Rightarrow> int \<Rightarrow> bool option" where
  "overlap_loop 0 ns use_bitmap start_time end_reserve j = None"
| "overlap_loop (Suc fuel) ns use_bitmap start_time end_reserve j = do {
     r \<leftarrow> c_rd ns j;
     overlap \<leftarrow> (if ns_end r > start_time \<and> ns_begin r < end_reserve
                 then do { av \<leftarrow> ns_avail r; s \<leftarrow> bit_super_set use_bitmap av; Some (\<not> s) }
                 else Some False);
     if overlap then Some True
     else if ns_next r = 0 then Some False
     else overlap_loop fuel ns use_bitmap start_time end_reserve (ns_next r)
   }"

definition test_resv_overlap :: "node_space_map list \<Rightarrow> bitstr \<Rightarrow> int \<Rightarrow> int \<Rightarrow> bool option" where
  "test_resv_overlap ns use_bitmap start_time end_reserve =
     overlap_loop (length ns) ns use_bitmap start_time end_reserve 0"

text \<open>The loop of \<open>_attempt_backfill\<close> that removes from the nodes usable by a job those the
  table promises to others between \<open>start_res\<close> and \<open>end_time\<close>, and notes in \<open>later_start\<close> the end
  of the first record that ends after \<open>start_res\<close> (unless it is the last one).\<close>

fun usable_loop :: "nat \<Rightarrow> node_space_map list \<Rightarrow> bitstr \<Rightarrow> int \<Rightarrow> int \<Rightarrow> int \<Rightarrow> int \<Rightarrow> (bitstr \<times> int) option" where
  "usable_loop 0 ns avail start_res end_time later_start j = None"
| "usable_loop (Suc fuel) ns avail start_res end_time later_start j = do {
     r \<leftarrow> c_rd ns j;
     let later_start = (if ns_end r > start_res \<and> ns_next r \<noteq> 0 \<and> later_start = 0
                        then ns_end r else later_start);
     if ns_end r > start_res \<and> \<not> ns_begin r \<le> end_time then Some (avail, later_start)
     else do {
       avail \<leftarrow> (if ns_end r \<le> start_res then Some avail
                 else do { av \<leftarrow> ns_avail r; bit_and avail av });
       if ns_next r = 0 then Some (avail, later_start)
       else usable_loop fuel ns avail start_res end_time later_start (ns_next r)
     }
   }"

definition usable_nodes :: "node_space_map list \<Rightarrow> bitstr \<Rightarrow> int \<Rightarrow> int \<Rightarrow> int \<Rightarrow> (bitstr \<times> int) option" where
  "usable_nodes ns avail start_res end_time later_start =
     usable_loop (length ns) ns avail start_res end_time later_start 0"

text \<open>The statements of \<open>_attempt_backfill\<close> that take a job's nodes out of the table: the complement
  of its nodes masks the table from \<open>start_time\<close> to \<open>end_reserve\<close>.\<close>

definition reserve_nodes :: "bitstr \<Rightarrow> int \<Rightarrow> int \<Rightarrow> node_space_map list \<times> int \<Rightarrow> (node_space_map list \<times> int) option" where
  "reserve_nodes avail_bitmap start_time end_reserve tab = do {
     res_bitmap \<leftarrow> bit_not avail_bitmap;
     add_reservation start_time end_reserve res_bitmap (fst tab) (snd tab)
   }"

text \<open>\<open>_get_job_max_tl\<close>: the fields of the job record it reads are its arguments; \<open>NO_VAL\<close> is
  the \<open>uint32_t\<close> value \<open>0xfffffffe\<close>.\<close>

definition NO_VAL :: int where
  "NO_VAL = 0xfffffffe"

fun max_tl_loop :: "nat \<Rightarrow> node_space_map list \<Rightarrow> bitstr \<Rightarrow> int \<Rightarrow> int \<Rightarrow> int \<Rightarrow> int \<Rightarrow> int option" where
  "max_tl_loop 0 ns node_bitmap end_time now comp_time j = None"
| "max_tl_loop (Suc fuel) ns node_bitmap end_time now comp_time j = do {
     r \<leftarrow> c_rd ns j;
     conflict \<leftarrow> (if ns_begin r \<noteq> now \<and> ns_begin r < end_time
                  then do { av \<leftarrow> ns_avail r; s \<leftarrow> bit_super_set node_bitmap av; Some (\<not> s) }
                  else Some False);
     let comp_time = (if conflict \<and> (comp_time = 0 \<or> comp_time > ns_begin r) then ns_begin r else comp_time);
     if ns_next r = 0 then Some comp_time
     else max_tl_loop fuel ns node_bitmap end_time now comp_time (ns_next r)
   }"

definition get_job_max_tl :: "int \<Rightarrow> bitstr \<Rightarrow> int \<Rightarrow> int \<Rightarrow> node_space_map list \<Rightarrow> int option" where
  "get_job_max_tl time_min node_bitmap end_time now ns =
     (if time_min = 0 then Some NO_VAL
      else do {
        comp_time \<leftarrow> max_tl_loop (length ns) ns node_bitmap end_time now 0 0;
        Some (if comp_time \<noteq> 0 then u32 ((comp_time - now + 59) div 60) else NO_VAL)
      })"

subsection \<open>The linked records as a list of segments\<close>

text \<open>\<open>chain ns js\<close>: the records with the indices \<open>js\<close> are linked in this order and end with the
  terminator. \<open>evolves\<close> relates a table before and after an operation on a suffix of the
  chain: the records outside of it are untouched.\<close>

fun chain :: "node_space_map list \<Rightarrow> nat list \<Rightarrow> bool" where
  "chain ns [] \<longleftrightarrow> False"
| "chain ns [j] \<longleftrightarrow> j < length ns \<and> ns_next (ns ! j) = 0 \<and> ns_avail (ns ! j) \<noteq> None"
| "chain ns (j # k # ks) \<longleftrightarrow> j < length ns \<and> ns_next (ns ! j) = int k \<and> k \<noteq> 0 \<and>
     ns_avail (ns ! j) \<noteq> None \<and> chain ns (k # ks)"

type_synonym segment = "int \<times> int \<times> bitstr"

definition seg :: "node_space_map list \<Rightarrow> nat \<Rightarrow> segment" where
  "seg ns j = (ns_begin (ns ! j), ns_end (ns ! j), the (ns_avail (ns ! j)))"

definition evolves :: "node_space_map list \<Rightarrow> nat \<Rightarrow> nat list \<Rightarrow> node_space_map list \<Rightarrow> nat \<Rightarrow> nat list \<Rightarrow> bool" where
  "evolves ns recs js ns' recs' js' \<longleftrightarrow> length ns' = length ns \<and> recs \<le> recs' \<and>
     js' \<noteq> [] \<and> hd js' = hd js \<and> set js' \<subseteq> set js \<union> {recs..<recs'} \<and> distinct js' \<and> chain ns' js' \<and>
     (\<forall>k < recs. k \<notin> set js \<longrightarrow> ns' ! k = ns ! k)"

lemma chain_cong:
  "length ns' = length ns \<Longrightarrow> (\<forall>k \<in> set js. ns' ! k = ns ! k) \<Longrightarrow> chain ns js \<Longrightarrow> chain ns' js"
  by (induction ns js rule: chain.induct) auto

lemma seg_cong: "(\<forall>k \<in> set js. ns' ! k = ns ! k) \<Longrightarrow> map (seg ns') js = map (seg ns) js"
  by (simp add: seg_def)

lemma chain_index: "chain ns js \<Longrightarrow> j \<in> set js \<Longrightarrow> j < length ns"
  by (induction ns js rule: chain.induct) auto

lemma chain_avail: "chain ns js \<Longrightarrow> j \<in> set js \<Longrightarrow> ns_avail (ns ! j) \<noteq> None"
  by (induction ns js rule: chain.induct) auto

lemma chain_tl: "chain ns (j # js) \<Longrightarrow> js \<noteq> [] \<Longrightarrow> chain ns js"
  by (cases js) auto

lemma chain_next: "chain ns (j # js) \<Longrightarrow> ns_next (ns ! j) = (case js of [] \<Rightarrow> 0 | k # _ \<Rightarrow> int k)"
  by (cases js) auto

lemma chain_link:
  assumes "chain ns (k # ks)" "j < length ns" "ns_next (ns ! j) = int k" "k \<noteq> 0" "ns_avail (ns ! j) \<noteq> None"
  shows "chain ns (j # k # ks)"
  using assms by simp

lemma evolves_Cons:
  assumes "chain ns (j # k # ks)" "distinct (j # k # ks)" "j < recs" "evolves ns recs (k # ks) ns' recs' (k # ks')"
  shows "evolves ns recs (j # k # ks) ns' recs' (j # k # ks')" "seg ns' j = seg ns j"
proof -
  have j: "ns' ! j = ns ! j" using assms(2-4) by (simp add: evolves_def)
  have "j \<notin> set (k # ks')" using assms(2-4) by (auto simp: evolves_def)
  then show "evolves ns recs (j # k # ks) ns' recs' (j # k # ks')"
    using assms j by (auto simp: evolves_def)
  show "seg ns' j = seg ns j" by (simp add: seg_def j)
qed

lemma evolves_seg:
  assumes "evolves ns recs js ns' recs' js'" "js = j # ks"
  obtains ks' where "js' = j # ks'"
  using assms by (cases js') (auto simp: evolves_def)

definition good_map :: "int \<Rightarrow> bitstr \<Rightarrow> bool" where
  "good_map w b \<longleftrightarrow> wf_bitstr b \<and> clean b \<and> bs_magic b = BITSTR_MAGIC \<and> bs_bits b = w"

definition segs_ok :: "int \<Rightarrow> segment list \<Rightarrow> bool" where
  "segs_ok w ss \<longleftrightarrow> (\<forall>(b, e, av) \<in> set ss. good_map w av)"

lemma good_map_copy: "good_map w b \<Longrightarrow> bit_copy b = Some b"
  by (simp add: good_map_def bit_copy_eq)

fun seg_end_split :: "int \<Rightarrow> segment list \<Rightarrow> segment list" where
  "seg_end_split e [] = []"
| "seg_end_split e ((b, f, av) # ss) =
     (if e < f then (b, e, av) # (e, f, av) # ss
      else if e = f then (b, f, av) # ss else (b, f, av) # seg_end_split e ss)"

fun seg_split :: "int \<Rightarrow> int \<Rightarrow> segment list \<Rightarrow> segment list" where
  "seg_split s e [] = []"
| "seg_split s e ((b, f, av) # ss) =
     (if f > s then (b, s, av) # seg_end_split e ((s, f, av) # ss)
      else if f = s then (b, f, av) # seg_end_split e ss
      else (b, f, av) # seg_split s e ss)"

fun seg_mask :: "int \<Rightarrow> int \<Rightarrow> bitstr \<Rightarrow> segment list \<Rightarrow> segment list" where
  "seg_mask s e res [] = []"
| "seg_mask s e res ((b, f, av) # ss) =
     (b, f, if b \<ge> s \<and> f \<le> e then the (bit_and av res) else av) #
     (if b \<ge> e then ss else seg_mask s e res ss)"

fun seg_merge :: "segment list \<Rightarrow> segment list" where
  "seg_merge ((b, f, av) # (b2, f2, av2) # ss) =
     (if the (bit_equal av av2) then (b, f2, av) # ss
      else (b, f, av) # seg_merge ((b2, f2, av2) # ss))"
| "seg_merge ss = ss"

lemma insert_record_sim:
  assumes ch: "chain ns (j # js)" and d: "distinct (j # js)" "\<forall>k \<in> set (j # js). k < recs"
    and recs: "0 < recs" "recs < length ns" and ok: "segs_ok w (map (seg ns) (j # js))"
  shows "\<exists>ns'. insert_record ns (int recs) (int j) t = Some (ns', int (recs + 1)) \<and>
    evolves ns recs (j # js) ns' (recs + 1) (j # recs # js) \<and>
    map (seg ns') (j # recs # js) =
      (case seg ns j of (b, e, av) \<Rightarrow> (b, t, av) # (t, e, av) # map (seg ns) js)"
proof -
  have j: "j < length ns" "j \<noteq> recs" using chain_index [OF ch] d by auto
  obtain av where av: "ns_avail (ns ! j) = Some av" using chain_avail [OF ch] by force
  then have "good_map w av" using ok by (auto simp: segs_ok_def seg_def)
  then have cp: "bit_copy av = Some av" by (rule good_map_copy)
  let ?r = "ns ! j"
  define ns' where "ns' = ns[recs := \<lparr>ns_begin = t, ns_end = ns_end ?r, ns_avail = Some av, ns_next = ns_next ?r\<rparr>,
                             j := ?r\<lparr>ns_end := t, ns_next := int recs\<rparr>]"
  have eq: "insert_record ns (int recs) (int j) t = Some (ns', int (recs + 1))"
    using j recs av cp by (simp add: insert_record_def ns'_def)
  have same: "ns' ! k = ns ! k" if "k \<noteq> j" "k \<noteq> recs" for k using that by (simp add: ns'_def)
  have nth: "ns' ! j = ?r\<lparr>ns_end := t, ns_next := int recs\<rparr>"
      "ns' ! recs = \<lparr>ns_begin = t, ns_end = ns_end ?r, ns_avail = Some av, ns_next = ns_next ?r\<rparr>"
    using j recs by (simp_all add: ns'_def)
  have len: "length ns' = length ns" by (simp add: ns'_def)
  have js: "\<forall>k \<in> set js. ns' ! k = ns ! k"
    using d same by (metis distinct.simps(2) list.set_intros(2) order_less_irrefl)
  have "chain ns' (recs # js)"
  proof (cases js)
    case Nil
    then show ?thesis using ch recs len nth by simp
  next
    case (Cons k ks)
    then show ?thesis using ch recs len nth chain_cong [OF len js] by simp
  qed
  then have "chain ns' (j # recs # js)" using j recs len nth av by (intro chain_link) auto
  then have "evolves ns recs (j # js) ns' (recs + 1) (j # recs # js)"
    using d same len by (auto simp: evolves_def)
  moreover have "map (seg ns') js = map (seg ns) js" using js by (rule seg_cong)
  ultimately show ?thesis using eq nth av by (auto simp: seg_def)
qed

lemma add_end_loop_sim:
  assumes "chain ns (j # js)" "distinct (j # js)" "\<forall>k \<in> set (j # js). k < recs" "0 < recs" "recs < length ns"
    and "segs_ok w (map (seg ns) (j # js))" "length js < fuel"
  shows "\<exists>ns' recs' js'. add_end_loop fuel ns (int recs) e (int j) = Some (ns', int recs') \<and> recs' \<le> recs + 1 \<and>
    evolves ns recs (j # js) ns' recs' (j # js') \<and>
    map (seg ns') (j # js') = seg ns j # seg_end_split e (map (seg ns) js)"
  using assms
proof (induction js arbitrary: j fuel)
  case Nil
  then obtain f where f: "fuel = Suc f" by (cases fuel) auto
  have "j < length ns" "ns_next (ns ! j) = 0" using Nil.prems(1) by auto
  then show ?case using Nil f by (auto simp: evolves_def)
next
  case (Cons k ks)
  then obtain f where f: "fuel = Suc f" by (cases fuel) auto
  have j: "j < length ns" "ns_next (ns ! j) = int k" "k \<noteq> 0" "k < length ns" "chain ns (k # ks)"
    using Cons.prems(1) chain_index [OF Cons.prems(1), of k] by auto
  obtain b g av where sk: "seg ns k = (b, g, av)" by (cases "seg ns k") auto
  then have fin: "ns_end (ns ! k) = g" by (simp add: seg_def)
  have ok: "segs_ok w (map (seg ns) (k # ks))" using Cons.prems(6) by (simp add: segs_ok_def)
  consider "e < g" | "e = g" | "e > g" by linarith
  then show ?case
  proof cases
    case 1
    obtain ns' where ns': "insert_record ns (int recs) (int k) e = Some (ns', int (recs + 1))"
        "evolves ns recs (k # ks) ns' (recs + 1) (k # recs # ks)"
        "map (seg ns') (k # recs # ks) = (b, e, av) # (e, g, av) # map (seg ns) ks"
      using insert_record_sim [OF j(5) _ _ Cons.prems(4,5) ok, of e] Cons.prems sk by auto
    note ev = evolves_Cons [OF Cons.prems(1,2) _ ns'(2)]
    show ?thesis
      using 1 f j fin ns' ev Cons.prems(3) sk
      by (intro exI [of _ ns'] exI [of _ "recs + 1"] exI [of _ "k # recs # ks"]) auto
  next
    case 2
    then show ?thesis
      using f j fin Cons.prems sk
      by (intro exI [of _ ns] exI [of _ recs] exI [of _ "k # ks"]) (auto simp: evolves_def)
  next
    case 3
    obtain ns' recs' js' where ns': "add_end_loop f ns (int recs) e (int k) = Some (ns', int recs')" "recs' \<le> recs + 1"
        "evolves ns recs (k # ks) ns' recs' (k # js')"
        "map (seg ns') (k # js') = seg ns k # seg_end_split e (map (seg ns) ks)"
      using Cons.IH [OF j(5) _ _ Cons.prems(4,5) ok, of f] Cons.prems f by auto
    note ev = evolves_Cons [OF Cons.prems(1,2) _ ns'(3)]
    show ?thesis
      using 3 f j fin ns' ev Cons.prems(3) sk
      by (intro exI [of _ ns'] exI [of _ recs'] exI [of _ "k # js'"]) auto
  qed
qed

lemma evolves_trans:
  assumes "evolves ns recs js ns1 recs1 js1" "evolves ns1 recs1 js1 ns2 recs2 js2" "js \<noteq> []"
  shows "evolves ns recs js ns2 recs2 js2"
proof -
  have "set js2 \<subseteq> set js \<union> {recs..<recs2}" using assms by (fastforce simp: evolves_def)
  moreover have "ns2 ! k = ns ! k" if "k < recs" "k \<notin> set js" for k
  proof -
    have "k \<notin> set js1" using that assms(1) by (auto simp: evolves_def)
    then show ?thesis using that assms by (simp add: evolves_def)
  qed
  ultimately show ?thesis using assms by (simp add: evolves_def)
qed

lemma segs_ok_Cons: "segs_ok w ((b, e, av) # ss) \<longleftrightarrow> good_map w av \<and> segs_ok w ss"
  by (simp add: segs_ok_def)

lemma add_start_placed:
  assumes "chain ns (j # js)" "distinct (j # js)" "\<forall>k \<in> set (j # js). k < recs" "0 < recs" "recs + 1 < length ns"
    and "segs_ok w (map (seg ns) (j # js))" "length js + 1 < length ns" and s: "s \<le> ns_end (ns ! j)"
  shows "\<exists>ns' recs' js'. add_start_loop (Suc fuel) ns (int recs) s e (int j) = Some (ns', int recs') \<and> recs' \<le> recs + 2 \<and>
    evolves ns recs (j # js) ns' recs' (j # js') \<and>
    map (seg ns') (j # js') = seg_split s e (map (seg ns) (j # js))"
proof -
  obtain b f av where sj: "seg ns j = (b, f, av)" by (cases "seg ns j") auto
  then have f: "ns_end (ns ! j) = f" by (simp add: seg_def)
  have j: "j < length ns" using assms(1) chain_index by auto
  show ?thesis
  proof (cases "f = s")
    case True
    obtain ns' recs' js' where "add_end_loop (length ns) ns (int recs) e (int j) = Some (ns', int recs')" "recs' \<le> recs + 1"
      "evolves ns recs (j # js) ns' recs' (j # js')"
      "map (seg ns') (j # js') = seg ns j # seg_end_split e (map (seg ns) js)"
      using add_end_loop_sim [OF assms(1-4) _ assms(6), of "length ns" e] assms(5,7) by auto
    then show ?thesis
      using True f j sj by (intro exI [of _ ns'] exI [of _ recs'] exI [of _ js']) auto
  next
    case False
    then have less: "s < f" using s f by simp
    obtain ns1 where i: "insert_record ns (int recs) (int j) s = Some (ns1, int (recs + 1))"
        "evolves ns recs (j # js) ns1 (recs + 1) (j # recs # js)"
        "map (seg ns1) (j # recs # js) = (b, s, av) # (s, f, av) # map (seg ns) js"
      using insert_record_sim [OF assms(1-4) _ assms(6), of s] assms(5) sj by auto
    have s1: "seg ns1 j = (b, s, av)" and len: "length ns1 = length ns" using i by (auto simp: evolves_def)
    then have f1: "ns_end (ns1 ! j) = s" by (simp add: seg_def)
    have ok1: "segs_ok w (map (seg ns1) (j # recs # js))"
      unfolding i(3) using assms(6) sj by (simp add: segs_ok_def)
    have ev1: "chain ns1 (j # recs # js)" "distinct (j # recs # js)" using i(2) by (auto simp: evolves_def)
    have lt1: "\<forall>k \<in> set (j # recs # js). k < recs + 1" using assms(3) by auto
    obtain ns' recs' js' where e: "add_end_loop (length ns1) ns1 (int (recs + 1)) e (int j) = Some (ns', int recs')"
      "recs' \<le> recs + 1 + 1" "evolves ns1 (recs + 1) (j # recs # js) ns' recs' (j # js')"
      "map (seg ns') (j # js') = seg ns1 j # seg_end_split e (map (seg ns1) (recs # js))"
      using add_end_loop_sim [OF ev1 lt1 _ _ ok1, of "length ns1" e] assms(5,7) len by auto
    have "evolves ns recs (j # js) ns' recs' (j # js')" using evolves_trans [OF i(2) e(3)] by simp
    moreover have m: "map (seg ns1) (recs # js) = (s, f, av) # map (seg ns) js" using i(3) by simp
    have "map (seg ns') (j # js') = seg_split s e (map (seg ns) (j # js))"
      unfolding e(4) m using s1 sj less by simp
    moreover have "add_start_loop (Suc fuel) ns (int recs) s e (int j) = Some (ns', int recs')"
      using i(1) e(1) less f j len f1 by simp
    ultimately show ?thesis using e(2) by (intro exI [of _ ns'] exI [of _ recs'] exI [of _ js']) simp
  qed
qed

lemma add_start_loop_sim:
  assumes "chain ns (j # js)" "distinct (j # js)" "\<forall>k \<in> set (j # js). k < recs" "0 < recs" "recs + 1 < length ns"
    and "segs_ok w (map (seg ns) (j # js))" "length js < fuel" "length js + 1 < length ns"
  shows "\<exists>ns' recs' js'. add_start_loop fuel ns (int recs) s e (int j) = Some (ns', int recs') \<and> recs' \<le> recs + 2 \<and>
    evolves ns recs (j # js) ns' recs' (j # js') \<and>
    map (seg ns') (j # js') = seg_split s e (map (seg ns) (j # js))"
  using assms
proof (induction js arbitrary: j fuel)
  case Nil
  obtain f where f: "fuel = Suc f" using Nil.prems(7) by (cases fuel) auto
  show ?case
  proof (cases "s \<le> ns_end (ns ! j)")
    case True
    then show ?thesis unfolding f using Nil.prems by (intro add_start_placed) auto
  next
    case False
    then show ?thesis using Nil.prems f
      by (intro exI [of _ ns] exI [of _ recs] exI [of _ "[]"]) (auto simp: evolves_def seg_def)
  qed
next
  case (Cons k ks)
  obtain f where f: "fuel = Suc f" using Cons.prems(7) by (cases fuel) auto
  show ?case
  proof (cases "s \<le> ns_end (ns ! j)")
    case True
    then show ?thesis unfolding f using Cons.prems by (intro add_start_placed) auto
  next
    case False
    have j: "j < length ns" "ns_next (ns ! j) = int k" "k \<noteq> 0" "chain ns (k # ks)" using Cons.prems(1) by auto
    have ok: "segs_ok w (map (seg ns) (k # ks))" using Cons.prems(6) by (simp add: segs_ok_def)
    obtain ns' recs' js' where ns': "add_start_loop f ns (int recs) s e (int k) = Some (ns', int recs')" "recs' \<le> recs + 2"
        "evolves ns recs (k # ks) ns' recs' (k # js')"
        "map (seg ns') (k # js') = seg_split s e (map (seg ns) (k # ks))"
      using Cons.IH [OF j(4) _ _ Cons.prems(4,5) ok, of f] Cons.prems f by auto
    note ev = evolves_Cons [OF Cons.prems(1,2) _ ns'(3)]
    have "seg_split s e (map (seg ns) (j # k # ks)) = seg ns j # seg_split s e (map (seg ns) (k # ks))"
      using False by (simp add: seg_def)
    then show ?thesis
      using False f j ns' ev Cons.prems(3)
      by (intro exI [of _ ns'] exI [of _ recs'] exI [of _ "k # js'"]) auto
  qed
qed

text \<open>Replacing one record of a chain without touching its link.\<close>

lemma evolves_update:
  assumes "chain ns (j # js)" "distinct (j # js)" "ns_next r = ns_next (ns ! j)" "ns_avail r \<noteq> None"
  shows "evolves ns recs (j # js) (ns[j := r]) recs (j # js)" "map (seg (ns[j := r])) js = map (seg ns) js"
    "seg (ns[j := r]) j = (ns_begin r, ns_end r, the (ns_avail r))"
proof -
  have j: "j < length ns" using assms(1) chain_index by auto
  have same: "\<forall>k \<in> set js. ns[j := r] ! k = ns ! k" using assms(2) by (metis distinct.simps(2) nth_list_update_neq)
  have "chain (ns[j := r]) (j # js)"
  proof (cases js)
    case (Cons k ks)
    then show ?thesis using assms j chain_cong [OF length_list_update same] by auto
  qed (use assms j in auto)
  then show "evolves ns recs (j # js) (ns[j := r]) recs (j # js)"
    using assms(2) by (auto simp: evolves_def)
  show "map (seg (ns[j := r])) js = map (seg ns) js" using same by (rule seg_cong)
  show "seg (ns[j := r]) j = (ns_begin r, ns_end r, the (ns_avail r))" using j by (simp add: seg_def)
qed

lemma evolves_refl: "chain ns js \<Longrightarrow> distinct js \<Longrightarrow> evolves ns recs js ns recs js"
  by (cases js) (auto simp: evolves_def)

lemma good_map_and:
  assumes "good_map w av" "wf_bitstr res" "bs_bits res = w"
  shows "\<exists>c. bit_and av res = Some c \<and> good_map w c \<and> bitset c = bitset av \<inter> bitset res"
proof -
  have "bs_bits av = bs_bits res" using assms by (simp add: good_map_def)
  then show ?thesis
    using assms bit_and_set [of av res] bit_and_eq [of av res] by (auto simp: good_map_def)
qed

lemma add_mask_step:
  assumes "chain ns (j # js)" "distinct (j # js)" "segs_ok w (map (seg ns) (j # js))" "wf_bitstr res" "bs_bits res = w"
    and sj: "seg ns j = (b, f, av)"
  shows "\<exists>ns'. (if ns_begin (ns ! j) \<ge> s \<and> ns_end (ns ! j) \<le> e
            then do { av \<leftarrow> ns_avail (ns ! j); av \<leftarrow> bit_and av res; c_wr ns (int j) ((ns ! j)\<lparr>ns_avail := Some av\<rparr>) }
            else Some ns) = Some ns' \<and> evolves ns recs (j # js) ns' recs (j # js) \<and>
       seg ns' j = (b, f, if b \<ge> s \<and> f \<le> e then the (bit_and av res) else av) \<and>
       map (seg ns') js = map (seg ns) js"
proof (cases "b \<ge> s \<and> f \<le> e")
  case True
  have j: "j < length ns" using assms(1) chain_index by auto
  have r: "ns_begin (ns ! j) = b" "ns_end (ns ! j) = f" "ns_avail (ns ! j) = Some av"
    using sj chain_avail [OF assms(1), of j] by (auto simp: seg_def)
  have "good_map w av" using assms(3) sj by (simp add: segs_ok_def)
  then obtain c where c: "bit_and av res = Some c" using good_map_and assms(4,5) by blast
  show ?thesis
    using True r c j evolves_update [OF assms(1,2), of "(ns ! j)\<lparr>ns_avail := Some c\<rparr>"] by auto
next
  case False
  then have "\<not> (ns_begin (ns ! j) \<ge> s \<and> ns_end (ns ! j) \<le> e)" using sj by (simp add: seg_def)
  then show ?thesis using False sj evolves_refl [OF assms(1,2)] by (intro exI [of _ ns]) (simp only: if_False simp_thms)
qed

lemma add_mask_loop_sim:
  assumes "chain ns (j # js)" "distinct (j # js)" "\<forall>k \<in> set (j # js). k < recs"
    and "segs_ok w (map (seg ns) (j # js))" "length js < fuel" "wf_bitstr res" "bs_bits res = w"
  shows "\<exists>ns'. add_mask_loop fuel ns s e res (int j) = Some ns' \<and> evolves ns recs (j # js) ns' recs (j # js) \<and>
    map (seg ns') (j # js) = seg_mask s e res (map (seg ns) (j # js))"
  using assms
proof (induction js arbitrary: j fuel ns)
  case Nil
  obtain f where f: "fuel = Suc f" using Nil.prems(5) by (cases fuel) auto
  obtain b g av where sj: "seg ns j = (b, g, av)" by (cases "seg ns j") auto
  have j: "j < length ns" "ns_next (ns ! j) = 0" using Nil.prems(1) by auto
  show ?case
    using add_mask_step [OF Nil.prems(1,2,4,6,7) sj, of s e recs] j f sj by auto
next
  case (Cons k ks)
  obtain f where f: "fuel = Suc f" using Cons.prems(5) by (cases fuel) auto
  obtain b g av where sj: "seg ns j = (b, g, av)" by (cases "seg ns j") auto
  have b: "ns_begin (ns ! j) = b" using sj by (simp add: seg_def)
  have j: "j < length ns" "ns_next (ns ! j) = int k" "k \<noteq> 0" using Cons.prems(1) by auto
  obtain ns1 where ns1: "(if ns_begin (ns ! j) \<ge> s \<and> ns_end (ns ! j) \<le> e
            then do { av \<leftarrow> ns_avail (ns ! j); av \<leftarrow> bit_and av res; c_wr ns (int j) ((ns ! j)\<lparr>ns_avail := Some av\<rparr>) }
            else Some ns) = Some ns1" "evolves ns recs (j # k # ks) ns1 recs (j # k # ks)"
       "seg ns1 j = (b, g, if b \<ge> s \<and> g \<le> e then the (bit_and av res) else av)"
       "map (seg ns1) (k # ks) = map (seg ns) (k # ks)"
    using add_mask_step [OF Cons.prems(1,2,4,6,7) sj, of s e recs] by (elim exE conjE) (rule that; assumption)
  have loop: "add_mask_loop (Suc f) ns s e res (int j) =
      (if b \<ge> e then Some ns1 else add_mask_loop f ns1 s e res (int k))"
    using ns1(1) j b by (cases "b \<ge> e") (simp_all split del: if_split)
  show ?case
  proof (cases "b \<ge> e")
    case True
    then show ?thesis using f loop ns1 sj by auto
  next
    case False
    have ch: "chain ns1 (j # k # ks)" using ns1(2) by (simp add: evolves_def)
    have ok: "segs_ok w (map (seg ns1) (k # ks))" unfolding ns1(4) using Cons.prems(4) by (simp add: segs_ok_def)
    obtain ns' where ns': "add_mask_loop f ns1 s e res (int k) = Some ns'" "evolves ns1 recs (k # ks) ns' recs (k # ks)"
        "map (seg ns') (k # ks) = seg_mask s e res (map (seg ns1) (k # ks))"
      using Cons.IH [of ns1 k f] ch ok Cons.prems f by auto
    have "j < recs" using Cons.prems(3) by simp
    note ev = evolves_Cons [OF ch Cons.prems(2) this ns'(2)]
    have "map (seg ns') (j # k # ks) = seg_mask s e res (map (seg ns) (j # k # ks))"
      using False ev(2) ns'(3) [unfolded ns1(4)] ns1(3) sj by simp
    then show ?thesis
      using False f loop ns'(1) evolves_trans [OF ns1(2) ev(1)] by auto
  qed
qed

lemma good_map_equal:
  assumes "good_map w a" "good_map w b"
  shows "bit_equal a b = Some (bitset a = bitset b)"
  using assms by (simp add: good_map_def bit_equal_set)

lemma add_merge_loop_sim:
  assumes "chain ns (j # js)" "distinct (j # js)" "\<forall>k \<in> set (j # js). k < recs"
    and "segs_ok w (map (seg ns) (j # js))" "length js < fuel"
  shows "\<exists>ns' js'. add_merge_loop fuel ns (int j) = Some ns' \<and> evolves ns recs (j # js) ns' recs (j # js') \<and>
    map (seg ns') (j # js') = seg_merge (map (seg ns) (j # js))"
  using assms
proof (induction js arbitrary: j fuel)
  case Nil
  obtain f where f: "fuel = Suc f" using Nil.prems(5) by (cases fuel) auto
  have j: "j < length ns" "ns_next (ns ! j) = 0" using Nil.prems(1) by auto
  show ?case
    using evolves_refl [OF Nil.prems(1,2)] j f
    by (intro exI [of _ ns] exI [of _ "[]"]) (cases "seg ns j", auto)
next
  case (Cons k ks)
  obtain f where f: "fuel = Suc f" using Cons.prems(5) by (cases fuel) auto
  obtain b g av where sj: "seg ns j = (b, g, av)" by (cases "seg ns j") auto
  obtain b2 g2 av2 where sk: "seg ns k = (b2, g2, av2)" by (cases "seg ns k") auto
  have j: "j < length ns" "ns_next (ns ! j) = int k" "k \<noteq> 0" "k < length ns" "j \<noteq> k" "chain ns (k # ks)"
    using Cons.prems(1,2) chain_index [OF Cons.prems(1), of k] by auto
  have av: "ns_avail (ns ! j) = Some av" "ns_avail (ns ! k) = Some av2" "ns_end (ns ! k) = g2" "ns_begin (ns ! j) = b"
    using sj sk chain_avail [OF Cons.prems(1)] by (auto simp: seg_def)
  have g: "good_map w av" "good_map w av2" using Cons.prems(4) sj sk by (auto simp: segs_ok_def)
  note eq = good_map_equal [OF g]
  show ?case
  proof (cases "bitset av = bitset av2")
    case False
    have ok: "segs_ok w (map (seg ns) (k # ks))" using Cons.prems(4) by (simp add: segs_ok_def)
    obtain ns' js' where ns': "add_merge_loop f ns (int k) = Some ns'" "evolves ns recs (k # ks) ns' recs (k # js')"
        "map (seg ns') (k # js') = seg_merge (map (seg ns) (k # ks))"
      using Cons.IH [OF j(6) _ _ ok, of f] Cons.prems f by auto
    have "j < recs" using Cons.prems(3) by simp
    note ev = evolves_Cons [OF Cons.prems(1,2) this ns'(2)]
    show ?thesis
      using False f j av eq ns' ev sj sk
      by (intro exI [of _ ns'] exI [of _ "k # js'"]) auto
  next
    case True
    have "bit_free av2 = Some (av2\<lparr>bs_magic := 0\<rparr>)" using g(2) by (simp add: good_map_def bit_free_def)
    define ns' where "ns' = ns[j := (ns ! j)\<lparr>ns_end := g2, ns_next := ns_next (ns ! k)\<rparr>, k := (ns ! k)\<lparr>ns_avail := None\<rparr>]"
    have res: "add_merge_loop fuel ns (int j) = Some ns'"
      using True f j av eq \<open>bit_free av2 = _\<close> by (simp add: ns'_def)
    have same: "\<forall>i \<in> set ks. ns' ! i = ns ! i"
      using Cons.prems(2) by (simp add: ns'_def) (metis nth_list_update_neq)
    have nj: "ns' ! j = (ns ! j)\<lparr>ns_end := g2, ns_next := ns_next (ns ! k)\<rparr>" "length ns' = length ns"
      using j by (simp_all add: ns'_def)
    have "chain ns' (j # ks)"
    proof (cases ks)
      case Nil
      then show ?thesis using j nj av by simp
    next
      case (Cons i is')
      then show ?thesis using j nj av chain_cong [OF nj(2) same] by simp
    qed
    then have "evolves ns recs (j # k # ks) ns' recs (j # ks)"
      using Cons.prems(2) by (auto simp: evolves_def ns'_def)
    moreover have "map (seg ns') ks = map (seg ns) ks" using same by (rule seg_cong)
    moreover have "seg ns' j = (b, g2, av)" using nj av by (simp add: seg_def)
    ultimately show ?thesis using res True eq sj sk by (intro exI [of _ ns'] exI [of _ ks]) simp
  qed
qed

subsection \<open>What the segments promise\<close>

text \<open>\<open>avail_at ss t\<close> are the nodes available at time \<open>t\<close>; \<open>contig lo hi ss\<close> says that the segments
  cover the window from \<open>lo\<close> to \<open>hi\<close> without gap or overlap.\<close>

fun avail_at :: "segment list \<Rightarrow> int \<Rightarrow> int set" where
  "avail_at [] t = {}"
| "avail_at ((b, e, av) # ss) t = (if b \<le> t \<and> t < e then bitset av else avail_at ss t)"

fun contig :: "int \<Rightarrow> int \<Rightarrow> segment list \<Rightarrow> bool" where
  "contig lo hi [] \<longleftrightarrow> lo = hi"
| "contig lo hi ((b, e, av) # ss) \<longleftrightarrow> b = lo \<and> b \<le> e \<and> contig e hi ss"

definition strict :: "segment list \<Rightarrow> bool" where
  "strict ss \<longleftrightarrow> (\<forall>(b, e, av) \<in> set ss. b < e)"

definition aligned :: "int \<Rightarrow> segment list \<Rightarrow> bool" where
  "aligned x ss \<longleftrightarrow> (\<forall>(b, e, av) \<in> set ss. e \<le> x \<or> x \<le> b)"

lemma contig_le: "contig lo hi ss \<Longrightarrow> lo \<le> hi"
  by (induction lo hi ss rule: contig.induct) auto

lemma avail_at_before: "contig lo hi ss \<Longrightarrow> t < lo \<Longrightarrow> avail_at ss t = {}"
  by (induction lo hi ss rule: contig.induct) auto

lemma avail_at_after: "contig lo hi ss \<Longrightarrow> hi \<le> t \<Longrightarrow> avail_at ss t = {}"
  by (induction lo hi ss rule: contig.induct) (auto dest: contig_le)

lemma contig_ge: "contig lo hi ss \<Longrightarrow> (b, e, av) \<in> set ss \<Longrightarrow> lo \<le> b \<and> b \<le> e \<and> e \<le> hi"
  by (induction lo hi ss rule: contig.induct) (auto dest: contig_le)

lemma seg_simps [simp]:
  "aligned x []" "aligned x ((b, e, av) # ss) \<longleftrightarrow> (e \<le> x \<or> x \<le> b) \<and> aligned x ss"
  "strict []" "strict ((b, e, av) # ss) \<longleftrightarrow> b < e \<and> strict ss"
  "segs_ok w []" "segs_ok w ((b, e, av) # ss) \<longleftrightarrow> good_map w av \<and> segs_ok w ss"
  by (simp_all add: aligned_def strict_def segs_ok_def)

lemma aligned_low: "contig lo hi ss \<Longrightarrow> x \<le> lo \<Longrightarrow> aligned x ss"
  by (induction lo hi ss rule: contig.induct) auto

lemma end_split_contig: "contig lo hi ss \<Longrightarrow> lo \<le> e \<Longrightarrow> contig lo hi (seg_end_split e ss)"
  by (induction lo hi ss rule: contig.induct) auto

lemma end_split_aligned: "contig lo hi ss \<Longrightarrow> lo \<le> e \<Longrightarrow> aligned e (seg_end_split e ss)"
  by (induction lo hi ss rule: contig.induct) (auto intro: aligned_low)

lemma end_split_strict: "contig lo hi ss \<Longrightarrow> lo < e \<Longrightarrow> strict ss \<Longrightarrow> strict (seg_end_split e ss)"
  by (induction lo hi ss rule: contig.induct) auto

lemma end_split_ok: "segs_ok w ss \<Longrightarrow> segs_ok w (seg_end_split e ss)"
  by (induction e ss rule: seg_end_split.induct) auto

lemma end_split_avail: "contig lo hi ss \<Longrightarrow> lo \<le> e \<Longrightarrow> avail_at (seg_end_split e ss) t = avail_at ss t"
  by (induction lo hi ss rule: contig.induct) auto

lemma split_contig: "contig lo hi ss \<Longrightarrow> lo \<le> s \<Longrightarrow> s < e \<Longrightarrow> contig lo hi (seg_split s e ss)"
  by (induction lo hi ss rule: contig.induct) (auto intro!: end_split_contig)

lemma split_aligned_start: "contig lo hi ss \<Longrightarrow> lo \<le> s \<Longrightarrow> s < e \<Longrightarrow> aligned s (seg_split s e ss)"
proof (induction lo hi ss rule: contig.induct)
  case (2 lo hi b f av ss)
  have "aligned s (seg_end_split e ((s, f, av) # ss))" if "s < f"
    using 2 that by (intro aligned_low [OF end_split_contig [of s hi]]) auto
  moreover have "aligned s (seg_end_split e ss)" if "s = f"
    using 2 that by (intro aligned_low [OF end_split_contig [of s hi]]) auto
  ultimately show ?case using 2 by auto
qed simp

lemma split_aligned_end: "contig lo hi ss \<Longrightarrow> lo \<le> s \<Longrightarrow> s < e \<Longrightarrow> aligned e (seg_split s e ss)"
proof (induction lo hi ss rule: contig.induct)
  case (2 lo hi b f av ss)
  have "aligned e (seg_end_split e ((s, f, av) # ss))" if "s < f"
    using 2 that by (intro end_split_aligned [of s hi]) auto
  moreover have "aligned e (seg_end_split e ss)" if "s = f"
    using 2 that by (intro end_split_aligned [of s hi]) auto
  ultimately show ?case using 2 by auto
qed simp

lemma split_ok: "segs_ok w ss \<Longrightarrow> segs_ok w (seg_split s e ss)"
  by (induction s e ss rule: seg_split.induct) (auto intro: end_split_ok)

lemma split_avail: "contig lo hi ss \<Longrightarrow> lo \<le> s \<Longrightarrow> s < e \<Longrightarrow> avail_at (seg_split s e ss) t = avail_at ss t"
proof (induction lo hi ss rule: contig.induct)
  case (2 lo hi b f av ss)
  have "avail_at (seg_end_split e ((s, f, av) # ss)) t = avail_at ((s, f, av) # ss) t" if "s < f"
    using 2 that by (intro end_split_avail [of s hi]) auto
  moreover have "avail_at (seg_end_split e ss) t = avail_at ss t" if "s = f"
    using 2 that by (intro end_split_avail [of s hi]) auto
  ultimately show ?case using 2 by auto
qed simp

lemma split_strict: "contig lo hi ss \<Longrightarrow> strict ss \<Longrightarrow> lo < s \<Longrightarrow> s < e \<Longrightarrow> strict (seg_split s e ss)"
proof (induction lo hi ss rule: contig.induct)
  case (2 lo hi b f av ss)
  have "strict (seg_end_split e ((s, f, av) # ss))" if "s < f"
    using 2 that by (intro end_split_strict [of s hi]) auto
  moreover have "strict (seg_end_split e ss)" if "s = f"
    using 2 that by (intro end_split_strict [of s hi]) auto
  ultimately show ?case using 2 by auto
qed simp

text \<open>A reservation from the beginning of the window leaves an empty first segment, with a
  copy of its bitmap in the second: the merge loop removes it again.\<close>

lemma split_at_lo:
  assumes "contig lo hi ((b, f, av) # ss)" "strict ((b, f, av) # ss)" "lo < e"
  shows "\<exists>g rest. seg_split lo e ((b, f, av) # ss) = (lo, lo, av) # (lo, g, av) # rest \<and> lo < g \<and> g \<le> e \<and> strict rest"
  using assms by (auto intro!: end_split_strict [of f hi])

lemma mask_contig: "contig lo hi ss \<Longrightarrow> contig lo hi (seg_mask s e res ss)"
  by (induction lo hi ss rule: contig.induct) auto

lemma mask_strict: "strict ss \<Longrightarrow> strict (seg_mask s e res ss)"
  by (induction s e res ss rule: seg_mask.induct) auto

lemma mask_ok: "segs_ok w ss \<Longrightarrow> wf_bitstr res \<Longrightarrow> bs_bits res = w \<Longrightarrow> segs_ok w (seg_mask s e res ss)"
proof (induction s e res ss rule: seg_mask.induct)
  case (2 s e res b f av ss)
  then show ?case using good_map_and [of w av res] by auto
qed simp

lemma mask_avail:
  "contig lo hi ss \<Longrightarrow> segs_ok w ss \<Longrightarrow> wf_bitstr res \<Longrightarrow> bs_bits res = w \<Longrightarrow> aligned s ss \<Longrightarrow> aligned e ss \<Longrightarrow>
   avail_at (seg_mask s e res ss) t = (if s \<le> t \<and> t < e then avail_at ss t \<inter> bitset res else avail_at ss t)"
proof (induction lo hi ss rule: contig.induct)
  case (2 lo hi b f av ss)
  obtain c where c: "bit_and av res = Some c" "bitset c = bitset av \<inter> bitset res"
    using good_map_and [of w av res] 2 by auto
  have "avail_at ss t = {}" if "t < f" using "2.prems"(1) that by (intro avail_at_before [of f hi]) auto
  then show ?case using 2 c by (auto split: if_splits)
qed simp

lemma merge_contig: "contig lo hi ss \<Longrightarrow> contig lo hi (seg_merge ss)"
  by (induction ss arbitrary: lo rule: seg_merge.induct) auto

lemma merge_strict: "contig lo hi ss \<Longrightarrow> strict ss \<Longrightarrow> strict (seg_merge ss)"
  by (induction ss arbitrary: lo rule: seg_merge.induct) auto

lemma merge_ok: "segs_ok w ss \<Longrightarrow> segs_ok w (seg_merge ss)"
  by (induction ss rule: seg_merge.induct) auto

lemma merge_avail: "contig lo hi ss \<Longrightarrow> segs_ok w ss \<Longrightarrow> avail_at (seg_merge ss) t = avail_at ss t"
proof (induction ss arbitrary: lo rule: seg_merge.induct)
  case (1 b f av b2 f2 av2 ss)
  have "bit_equal av av2 = Some (bitset av = bitset av2)" using 1 by (intro good_map_equal) auto
  then show ?case using 1 by (auto simp del: seg_merge.simps(2,3) split: if_splits)
qed simp_all

lemma reserve_segments:
  assumes c: "contig lo hi ss" and st: "strict ss" and ok: "segs_ok w ss" and ne: "ss \<noteq> []"
    and res: "wf_bitstr res" "bs_bits res = w" and s: "lo \<le> s" "s < e"
  defines "ss' \<equiv> seg_merge (seg_mask s e res (seg_split s e ss))"
  shows "contig lo hi ss'" "strict ss'" "segs_ok w ss'"
    "avail_at ss' t = (if s \<le> t \<and> t < e then avail_at ss t \<inter> bitset res else avail_at ss t)"
proof -
  let ?sp = "seg_split s e ss" and ?mk = "seg_mask s e res (seg_split s e ss)"
  have sp: "contig lo hi ?sp" "segs_ok w ?sp" using split_contig [OF c s] split_ok [OF ok] by auto
  have mk: "contig lo hi ?mk" "segs_ok w ?mk" using mask_contig [OF sp(1)] mask_ok [OF sp(2) res] by auto
  show "contig lo hi ss'" "segs_ok w ss'" unfolding ss'_def using mk by (simp_all add: merge_contig merge_ok)
  show "avail_at ss' t = (if s \<le> t \<and> t < e then avail_at ss t \<inter> bitset res else avail_at ss t)"
    unfolding ss'_def merge_avail [OF mk]
    using mask_avail [OF sp res split_aligned_start [OF c s] split_aligned_end [OF c s]] split_avail [OF c s] by simp
  show "strict ss'"
  proof (cases "lo < s")
    case True
    then show ?thesis unfolding ss'_def using split_strict [OF c st True s(2)] mk by (intro merge_strict mask_strict)
  next
    case False
    then have "s = lo" using s by simp
    obtain b f av tl where ss: "ss = (b, f, av) # tl" using ne by (cases ss) auto
    obtain g rest where g: "?sp = (lo, lo, av) # (lo, g, av) # rest" "lo < g" "g \<le> e" "strict rest"
      using split_at_lo [of lo hi b f av tl e] c st s \<open>s = lo\<close> ss by auto
    have "good_map w av" using ok ss by simp
    then obtain d where d: "bit_and av res = Some d" "good_map w d" using good_map_and res by blast
    have "?mk = (lo, lo, d) # (lo, g, d) # seg_mask s e res rest"
      using g s d \<open>s = lo\<close> by simp
    moreover have "bit_equal d d = Some True" using good_map_equal [OF d(2) d(2)] by simp
    ultimately show ?thesis using g by (simp add: ss'_def mask_strict)
  qed
qed

subsection \<open>Well-formed tables\<close>

text \<open>\<open>space_ok w lo hi ns recs\<close>: the first \<open>recs\<close> records of the array are in use, those reachable
  from record 0 cover the window from \<open>lo\<close> to \<open>hi\<close> with non-empty intervals and hold clean
  bitmaps of \<open>w\<close> bits. \<open>nodes_at ns t\<close> are the nodes the table shows as available at \<open>t\<close>.\<close>

fun walk :: "nat \<Rightarrow> node_space_map list \<Rightarrow> nat \<Rightarrow> segment list" where
  "walk 0 ns j = []"
| "walk (Suc fuel) ns j = seg ns j # (if ns_next (ns ! j) = 0 then [] else walk fuel ns (nat (ns_next (ns ! j))))"

definition nodes_at :: "node_space_map list \<Rightarrow> int \<Rightarrow> int set" where
  "nodes_at ns t = avail_at (walk (length ns) ns 0) t"

definition space_ok :: "int \<Rightarrow> int \<Rightarrow> int \<Rightarrow> node_space_map list \<Rightarrow> int \<Rightarrow> bool" where
  "space_ok w lo hi ns recs \<longleftrightarrow> 0 \<le> lo \<and> lo < 2 ^ 32 \<and> 0 < recs \<and> recs \<le> int (length ns) \<and>
     (\<exists>js. chain ns (0 # js) \<and> distinct (0 # js) \<and> (\<forall>k \<in> set (0 # js). int k < recs) \<and>
       contig lo hi (map (seg ns) (0 # js)) \<and> strict (map (seg ns) (0 # js)) \<and> segs_ok w (map (seg ns) (0 # js)))"

lemma walk_chain: "chain ns (j # js) \<Longrightarrow> length js < fuel \<Longrightarrow> walk fuel ns j = map (seg ns) (j # js)"
proof (induction js arbitrary: j fuel)
  case Nil
  then show ?case by (cases fuel) auto
next
  case (Cons k ks)
  then show ?case by (cases fuel) auto
qed

lemma space_okE:
  assumes "space_ok w lo hi ns recs"
  obtains n js where "recs = int n" "0 < n" "n \<le> length ns" "length (0 # js) \<le> n" "chain ns (0 # js)" "distinct (0 # js)"
    "\<forall>k \<in> set (0 # js). k < n" "contig lo hi (map (seg ns) (0 # js))" "strict (map (seg ns) (0 # js))"
    "segs_ok w (map (seg ns) (0 # js))" "nodes_at ns = avail_at (map (seg ns) (0 # js))"
    "0 \<le> lo" "lo < 2 ^ 32" "ns_begin (ns ! 0) = lo"
proof -
  obtain js where js: "chain ns (0 # js)" "distinct (0 # js)" "\<forall>k \<in> set (0 # js). int k < recs"
       "contig lo hi (map (seg ns) (0 # js))" "strict (map (seg ns) (0 # js))" "segs_ok w (map (seg ns) (0 # js))"
    using assms by (auto simp: space_ok_def)
  have recs: "0 < recs" "recs \<le> int (length ns)" "0 \<le> lo" "lo < 2 ^ 32" using assms by (auto simp: space_ok_def)
  have lt: "\<forall>k \<in> set (0 # js). k < nat recs" using js(3) by auto
  have "card (set (0 # js)) \<le> card {..<nat recs}" using lt by (intro card_mono) auto
  then have len: "length (0 # js) \<le> nat recs" using js(2) by (simp only: distinct_card card_lessThan)
  have "walk (length ns) ns 0 = map (seg ns) (0 # js)" using len recs by (intro walk_chain js(1)) auto
  then have "nodes_at ns = avail_at (map (seg ns) (0 # js))" by (auto simp: nodes_at_def)
  moreover have "ns_begin (ns ! 0) = lo" using js(4) by (simp add: seg_def)
  ultimately show ?thesis using recs len lt js by (intro that [of "nat recs" js]) auto
qed

lemma evolves_bound:
  assumes "evolves ns recs js ns' recs' js'" "\<forall>k \<in> set js. k < recs"
  shows "\<forall>k \<in> set js'. k < recs'"
proof
  fix k assume "k \<in> set js'"
  then have "k \<in> set js \<or> k < recs'" "recs \<le> recs'" using assms(1) by (auto simp: evolves_def)
  then show "k < recs'" using assms(2) by auto
qed

lemma space_okI:
  assumes "evolves ns recs (0 # js) ns' recs' (0 # js')" "\<forall>k \<in> set (0 # js). k < recs" "recs' \<le> length ns"
    "contig lo hi (map (seg ns') (0 # js'))" "strict (map (seg ns') (0 # js'))" "segs_ok w (map (seg ns') (0 # js'))"
    "0 \<le> lo" "lo < 2 ^ 32"
  shows "space_ok w lo hi ns' (int recs')" "nodes_at ns' = avail_at (map (seg ns') (0 # js'))"
proof -
  have e: "chain ns' (0 # js')" "distinct (0 # js')" "length ns' = length ns" using assms(1) by (auto simp: evolves_def)
  have lt: "\<forall>k \<in> set (0 # js'). k < recs'" by (rule evolves_bound [OF assms(1,2)])
  show "space_ok w lo hi ns' (int recs')"
    unfolding space_ok_def using assms e lt by (auto intro!: exI [of _ js'])
  have "card (set (0 # js')) \<le> card {..<recs'}" using lt by (intro card_mono) auto
  then have "length (0 # js') \<le> recs'" using e(2) by (simp only: distinct_card card_lessThan)
  then have "walk (length ns') ns' 0 = map (seg ns') (0 # js')" using assms(3) e by (intro walk_chain) auto
  then show "nodes_at ns' = avail_at (map (seg ns') (0 # js'))" by (auto simp: nodes_at_def)
qed

lemma add_reservation_sim:
  assumes ok: "space_ok w lo hi ns recs" and cap: "recs + 2 \<le> int (length ns)"
    and res: "wf_bitstr res" "bs_bits res = w" and s: "max start lo < 2 ^ 32" "max start lo < e"
  shows "\<exists>ns' recs'. add_reservation start e res ns recs = Some (ns', recs') \<and>
    length ns' = length ns \<and> recs \<le> recs' \<and> recs' \<le> recs + 2 \<and> space_ok w lo hi ns' recs' \<and>
    (\<forall>t. nodes_at ns' t = (if start \<le> t \<and> t < e then nodes_at ns t \<inter> bitset res else nodes_at ns t))"
proof -
  obtain n js where n: "recs = int n" "0 < n" "n \<le> length ns" "length (0 # js) \<le> n" and ch: "chain ns (0 # js)" "distinct (0 # js)"
    "\<forall>k \<in> set (0 # js). k < n" and sg: "contig lo hi (map (seg ns) (0 # js))" "strict (map (seg ns) (0 # js))"
    "segs_ok w (map (seg ns) (0 # js))" "nodes_at ns = avail_at (map (seg ns) (0 # js))"
    and lo: "0 \<le> lo" "lo < 2 ^ 32" "ns_begin (ns ! 0) = lo"
    using ok by (rule space_okE)
  define s where "s = max start lo"
  have s: "u32 s = s" "lo \<le> s" "s < e" using assms lo by (auto simp: u32_def s_def)
  have cap': "n + 1 < length ns" "length js < length ns" "length js + 1 < length ns" using cap n by auto
  obtain ns1 r1 js1 where a: "add_start_loop (length ns) ns (int n) s e (int 0) = Some (ns1, int r1)" "r1 \<le> n + 2"
      "evolves ns n (0 # js) ns1 r1 (0 # js1)" "map (seg ns1) (0 # js1) = seg_split s e (map (seg ns) (0 # js))"
    using add_start_loop_sim [OF ch n(2) cap'(1) sg(3) cap'(2,3), of s e] by blast
  have ev1: "chain ns1 (0 # js1)" "distinct (0 # js1)" "length ns1 = length ns" "n \<le> r1" using a(3) by (auto simp: evolves_def)
  have lt1: "\<forall>k \<in> set (0 # js1). k < r1" by (rule evolves_bound [OF a(3) ch(3)])
  have "card (set (0 # js1)) \<le> card {..<r1}" using lt1 by (intro card_mono) auto
  then have len1: "length (0 # js1) \<le> r1" using ev1(2) by (simp only: distinct_card card_lessThan)
  have r1: "r1 \<le> length ns" using a(2) cap n by auto
  have ok1: "segs_ok w (map (seg ns1) (0 # js1))" unfolding a(4) by (rule split_ok [OF sg(3)])
  obtain ns2 where b: "add_mask_loop (length ns1) ns1 s e res (int 0) = Some ns2" "evolves ns1 r1 (0 # js1) ns2 r1 (0 # js1)"
      "map (seg ns2) (0 # js1) = seg_mask s e res (map (seg ns1) (0 # js1))"
    using add_mask_loop_sim [OF ev1(1,2) lt1 ok1 _ res, of "length ns1" s e] len1 r1 ev1(3) by auto
  have ev2: "chain ns2 (0 # js1)" "distinct (0 # js1)" "length ns2 = length ns" using b(2) ev1(3) by (auto simp: evolves_def)
  have ok2: "segs_ok w (map (seg ns2) (0 # js1))" unfolding b(3) by (rule mask_ok [OF ok1 res])
  obtain ns3 js3 where c: "add_merge_loop (length ns2) ns2 (int 0) = Some ns3" "evolves ns2 r1 (0 # js1) ns3 r1 (0 # js3)"
      "map (seg ns3) (0 # js3) = seg_merge (map (seg ns2) (0 # js1))"
    using add_merge_loop_sim [OF ev2(1,2) lt1 ok2, of "length ns2"] len1 r1 ev2(3) by auto
  have res_eq: "add_reservation start e res ns recs = Some (ns3, int r1)"
  proof -
    have "c_rd ns 0 = Some (ns ! 0)" using n(2,3) by (subst c_rd_in) auto
    then show ?thesis
      using a(1) b(1) c(1) lo(3) s(1) n(1) by (simp add: add_reservation_def Let_def s_def [symmetric])
  qed
  have ss3: "map (seg ns3) (0 # js3) = seg_merge (seg_mask s e res (seg_split s e (map (seg ns) (0 # js))))"
    unfolding c(3) b(3) a(4) ..
  note rs = reserve_segments [OF sg(1-3) _ res s(2,3), folded ss3]
  have ev: "evolves ns n (0 # js) ns3 r1 (0 # js3)"
    using evolves_trans [OF evolves_trans [OF a(3) b(2)] c(2)] by simp
  have ok3: "space_ok w lo hi ns3 (int r1)" "nodes_at ns3 = avail_at (map (seg ns3) (0 # js3))"
    using space_okI [OF ev ch(3) r1 rs(1-3) lo(1,2)] by auto
  have "nodes_at ns3 t = (if start \<le> t \<and> t < e then nodes_at ns t \<inter> bitset res else nodes_at ns t)" for t
    unfolding ok3(2) sg(4) using rs(4) [of t] avail_at_before [OF sg(1), of t] by (auto simp: s_def max_def split: if_splits)
  then show ?thesis using res_eq ok3(1) ev a(2) ev1(4) n by (auto simp: evolves_def)
qed

subsection \<open>Reading the table\<close>

lemma strict_avail:
  "contig lo hi ss \<Longrightarrow> strict ss \<Longrightarrow> s < e \<Longrightarrow>
   (\<exists>(b, f, av) \<in> set ss. s < f \<and> b < e \<and> \<not> U \<subseteq> bitset av) \<longleftrightarrow>
   (\<exists>t. s \<le> t \<and> t < e \<and> lo \<le> t \<and> t < hi \<and> \<not> U \<subseteq> avail_at ss t)"
proof (induction lo hi ss rule: contig.induct)
  case (2 lo hi b f av ss)
  have IH: "(\<exists>(b, f, av) \<in> set ss. s < f \<and> b < e \<and> \<not> U \<subseteq> bitset av) \<longleftrightarrow>
      (\<exists>t. s \<le> t \<and> t < e \<and> f \<le> t \<and> t < hi \<and> \<not> U \<subseteq> avail_at ss t)"
    using 2 by simp
  have hi: "f \<le> hi" using 2 by (auto dest: contig_le)
  have "(\<exists>t. s \<le> t \<and> t < e \<and> lo \<le> t \<and> t < hi \<and> \<not> U \<subseteq> avail_at ((b, f, av) # ss) t) \<longleftrightarrow>
     (\<exists>t. s \<le> t \<and> t < e \<and> lo \<le> t \<and> t < f \<and> \<not> U \<subseteq> bitset av) \<or>
     (\<exists>t. s \<le> t \<and> t < e \<and> f \<le> t \<and> t < hi \<and> \<not> U \<subseteq> avail_at ss t)" (is "?L \<longleftrightarrow> ?R1 \<or> ?R2")
  proof
    assume ?L
    then obtain t where t: "s \<le> t" "t < e" "lo \<le> t" "t < hi" "\<not> U \<subseteq> avail_at ((b, f, av) # ss) t" by blast
    then show "?R1 \<or> ?R2" using "2.prems"(1) by (cases "t < f") (auto split: if_splits)
  next
    assume "?R1 \<or> ?R2"
    then show ?L
    proof
      assume ?R1
      then show ?L using "2.prems"(1) hi by fastforce
    next
      assume ?R2
      then show ?L using "2.prems"(1) by fastforce
    qed
  qed
  moreover have "(\<exists>t. s \<le> t \<and> t < e \<and> lo \<le> t \<and> t < f \<and> \<not> U \<subseteq> bitset av) \<longleftrightarrow> s < f \<and> b < e \<and> \<not> U \<subseteq> bitset av"
  proof
    assume "s < f \<and> b < e \<and> \<not> U \<subseteq> bitset av"
    then show "\<exists>t. s \<le> t \<and> t < e \<and> lo \<le> t \<and> t < f \<and> \<not> U \<subseteq> bitset av"
      using 2 by (intro exI [of _ "max s lo"]) auto
  qed (use 2 in auto)
  ultimately show ?case using IH by simp
qed simp

lemma good_map_super:
  assumes "wf_bitstr u" "clean u" "bs_bits u = w" "good_map w av"
  shows "bit_super_set u av = Some (bitset u \<subseteq> bitset av)"
  using assms by (auto simp: good_map_def bit_super_set_set)

lemma overlap_loop_sim:
  assumes "chain ns (j # js)" "segs_ok w (map (seg ns) (j # js))" "length js < fuel"
    and "wf_bitstr u" "clean u" "bs_bits u = w"
  shows "overlap_loop fuel ns u s e (int j) =
    Some (\<exists>(b, f, av) \<in> set (map (seg ns) (j # js)). s < f \<and> b < e \<and> \<not> bitset u \<subseteq> bitset av)"
  using assms
proof (induction js arbitrary: j fuel)
  case Nil
  obtain f where f: "fuel = Suc f" using Nil.prems(3) by (cases fuel) auto
  obtain b g av where sj: "seg ns j = (b, g, av)" by (cases "seg ns j") auto
  have r: "j < length ns" "ns_next (ns ! j) = 0" "ns_begin (ns ! j) = b" "ns_end (ns ! j) = g" "ns_avail (ns ! j) = Some av"
    using Nil.prems(1) sj by (auto simp: seg_def)
  have "bit_super_set u av = Some (bitset u \<subseteq> bitset av)" using Nil.prems sj by (intro good_map_super) auto
  then show ?case using f r sj by auto
next
  case (Cons k ks)
  obtain f where f: "fuel = Suc f" using Cons.prems(3) by (cases fuel) auto
  obtain b g av where sj: "seg ns j = (b, g, av)" by (cases "seg ns j") auto
  have r: "j < length ns" "ns_next (ns ! j) = int k" "k \<noteq> 0" "ns_begin (ns ! j) = b" "ns_end (ns ! j) = g" "ns_avail (ns ! j) = Some av"
    using Cons.prems(1) sj by (auto simp: seg_def)
  have "bit_super_set u av = Some (bitset u \<subseteq> bitset av)" using Cons.prems sj by (intro good_map_super) auto
  moreover have "overlap_loop f ns u s e (int k) =
    Some (\<exists>(b, f, av) \<in> set (map (seg ns) (k # ks)). s < f \<and> b < e \<and> \<not> bitset u \<subseteq> bitset av)"
    using Cons.prems f by (intro Cons.IH) (auto simp: segs_ok_def)
  ultimately show ?case using f r sj by auto
qed

lemma test_resv_overlap_eq:
  assumes ok: "space_ok w lo hi ns recs" and u: "wf_bitstr u" "clean u" "bs_bits u = w" and "s < e"
  shows "test_resv_overlap ns u s e = Some (\<exists>t. s \<le> t \<and> t < e \<and> lo \<le> t \<and> t < hi \<and> \<not> bitset u \<subseteq> nodes_at ns t)"
proof -
  obtain n js where n: "n \<le> length ns" "length (0 # js) \<le> n" and ch: "chain ns (0 # js)"
    and sg: "contig lo hi (map (seg ns) (0 # js))" "strict (map (seg ns) (0 # js))"
    "segs_ok w (map (seg ns) (0 # js))" "nodes_at ns = avail_at (map (seg ns) (0 # js))"
    using ok by (rule space_okE) blast
  have "test_resv_overlap ns u s e =
      Some (\<exists>(b, f, av) \<in> set (map (seg ns) (0 # js)). s < f \<and> b < e \<and> \<not> bitset u \<subseteq> bitset av)"
    unfolding test_resv_overlap_def using overlap_loop_sim [OF ch sg(3) _ u, of "length ns" s e] n by simp
  then show ?thesis unfolding strict_avail [OF sg(1,2) \<open>s < e\<close>, of "bitset u"] sg(4) .
qed

lemma usable_loop_sim:
  assumes "chain ns (j # js)" "segs_ok w (map (seg ns) (j # js))" "contig lo hi (map (seg ns) (j # js))" "strict (map (seg ns) (j # js))"
    and "length js < fuel" "wf_bitstr u" "bs_bits u = w"
  shows "\<exists>a l. usable_loop fuel ns u s e l0 (int j) = Some (a, l) \<and> wf_bitstr a \<and> bs_bits a = w \<and> (clean u \<longrightarrow> clean a) \<and>
    bitset a = {x \<in> bitset u. \<forall>(b, f, av) \<in> set (map (seg ns) (j # js)). s < f \<and> b \<le> e \<longrightarrow> x \<in> bitset av} \<and>
    (l = l0 \<or> s < l \<and> l < hi)"
  using assms
proof (induction js arbitrary: j fuel u lo l0)
  case Nil
  obtain f where f: "fuel = Suc f" using Nil.prems(5) by (cases fuel) auto
  obtain b g av where sj: "seg ns j = (b, g, av)" by (cases "seg ns j") auto
  have r: "j < length ns" "ns_next (ns ! j) = 0" "ns_begin (ns ! j) = b" "ns_end (ns ! j) = g" "ns_avail (ns ! j) = Some av"
    using Nil.prems(1) sj by (auto simp: seg_def)
  have "good_map w av" using Nil.prems(2) sj by simp
  then obtain c where c: "bit_and u av = Some c" "wf_bitstr c" "bs_bits c = w" "bitset c = bitset u \<inter> bitset av" "clean u \<longrightarrow> clean c"
    using bit_and_set [of u av] Nil.prems(6,7) by (auto simp: good_map_def)
  show ?case
  proof (cases "s < g \<and> b \<le> e")
    case True
    then show ?thesis using c f r sj by (intro exI [of _ c] exI [of _ l0]) auto
  next
    case False
    then show ?thesis using Nil.prems f r sj by (intro exI [of _ u] exI [of _ l0]) auto
  qed
next
  case (Cons k ks)
  obtain f where f: "fuel = Suc f" using Cons.prems(5) by (cases fuel) auto
  obtain b g av where sj: "seg ns j = (b, g, av)" by (cases "seg ns j") auto
  have r: "j < length ns" "ns_next (ns ! j) = int k" "k \<noteq> 0" "ns_begin (ns ! j) = b" "ns_end (ns ! j) = g" "ns_avail (ns ! j) = Some av"
    using Cons.prems(1) sj by (auto simp: seg_def)
  have ghi: "g < hi"
  proof -
    obtain b2 g2 av2 where "seg ns k = (b2, g2, av2)" by (cases "seg ns k") auto
    then show ?thesis using Cons.prems(3,4) sj by (auto dest: contig_le)
  qed
  have tl: "chain ns (k # ks)" "segs_ok w (map (seg ns) (k # ks))" "contig g hi (map (seg ns) (k # ks))" "strict (map (seg ns) (k # ks))" "length ks < f"
    using Cons.prems f sj by auto
  have "good_map w av" using Cons.prems(2) sj by simp
  then obtain c where c: "bit_and u av = Some c" "wf_bitstr c" "bs_bits c = w" "bitset c = bitset u \<inter> bitset av" "clean u \<longrightarrow> clean c"
    using bit_and_set [of u av] Cons.prems(6,7) by (auto simp: good_map_def)
  define l1 where "l1 = (if g > s \<and> l0 = 0 then g else l0)"
  have l1: "l1 = l0 \<or> s < l1 \<and> l1 < hi" using ghi by (auto simp: l1_def)
  show ?case
  proof (cases "s < g \<and> e < b")
    case True
    have "\<not> (s < f' \<and> b' \<le> e)" if "(b', f', av') \<in> set (map (seg ns) (j # k # ks))" for b' f' av'
      using that contig_ge [OF Cons.prems(3) that] Cons.prems(3) sj True by auto
    then have "{x \<in> bitset u. \<forall>(b, f, av) \<in> set (map (seg ns) (j # k # ks)). s < f \<and> b \<le> e \<longrightarrow> x \<in> bitset av} = bitset u"
      by blast
    then show ?thesis using True Cons.prems(6,7) f r l1 by (intro exI [of _ u] exI [of _ l1]) (auto simp: l1_def)
  next
    case False
    define u' where "u' = (if g \<le> s then u else c)"
    have u': "wf_bitstr u'" "bs_bits u' = w" "clean u \<longrightarrow> clean u'"
      unfolding u'_def using c(2,3,5) Cons.prems(6,7) by (cases "g \<le> s"; simp)+
    have "bitset u' = (if g \<le> s then bitset u else bitset u \<inter> bitset av)" unfolding u'_def using c(4) by simp
    also have "\<dots> = {x \<in> bitset u. s < g \<and> b \<le> e \<longrightarrow> x \<in> bitset av}" using False by auto
    finally have u'4: "bitset u' = {x \<in> bitset u. s < g \<and> b \<le> e \<longrightarrow> x \<in> bitset av}" .
    obtain a l where al: "usable_loop f ns u' s e l1 (int k) = Some (a, l)" "wf_bitstr a" "bs_bits a = w" "clean u' \<longrightarrow> clean a"
        "bitset a = {x \<in> bitset u'. \<forall>(b, f, av) \<in> set (map (seg ns) (k # ks)). s < f \<and> b \<le> e \<longrightarrow> x \<in> bitset av}"
        "l = l1 \<or> s < l \<and> l < hi"
      using Cons.IH [OF tl u'(1,2), of l1] by blast
    have "usable_loop fuel ns u s e l0 (int j) = Some (a, l)"
    proof -
      have "(if ns_end (ns ! j) \<le> s then Some u else do { av \<leftarrow> ns_avail (ns ! j); bit_and u av }) = Some u'"
        using r c(1) by (simp add: u'_def)
      moreover have "(if ns_end (ns ! j) > s \<and> ns_next (ns ! j) \<noteq> 0 \<and> l0 = 0 then ns_end (ns ! j) else l0) = l1"
        using r by (simp add: l1_def)
      moreover have go: "\<not> (ns_end (ns ! j) > s \<and> \<not> ns_begin (ns ! j) \<le> e)" using False r by auto
      moreover have "c_rd ns (int j) = Some (ns ! j)" "ns_next (ns ! j) \<noteq> 0" using r(1-3) by auto
      ultimately show ?thesis
        using al(1) f r(2) by (simp only: usable_loop.simps Let_def bind.bind_lunit if_not_P [OF go] if_False)
    qed
    moreover have "bitset a = {x \<in> bitset u. \<forall>(b, f, av) \<in> set (map (seg ns) (j # k # ks)). s < f \<and> b \<le> e \<longrightarrow> x \<in> bitset av}"
      unfolding al(5) u'4 using sj by auto
    ultimately show ?thesis using al u' l1 by (intro exI [of _ a] exI [of _ l]) auto
  qed
qed

lemma usable_nodes_eq:
  assumes ok: "space_ok w lo hi ns recs" and u: "wf_bitstr u" "bs_bits u = w" and "s \<le> e"
  shows "\<exists>a l. usable_nodes ns u s e l0 = Some (a, l) \<and> wf_bitstr a \<and> bs_bits a = w \<and> (clean u \<longrightarrow> clean a) \<and>
    bitset a = {x \<in> bitset u. \<forall>t. s \<le> t \<and> t \<le> e \<and> lo \<le> t \<and> t < hi \<longrightarrow> x \<in> nodes_at ns t} \<and>
    (l = l0 \<or> s < l \<and> l < hi)"
proof -
  obtain n js where n: "n \<le> length ns" "length (0 # js) \<le> n" and ch: "chain ns (0 # js)"
    and sg: "contig lo hi (map (seg ns) (0 # js))" "strict (map (seg ns) (0 # js))"
    "segs_ok w (map (seg ns) (0 # js))" "nodes_at ns = avail_at (map (seg ns) (0 # js))"
    using ok by (rule space_okE) blast
  have len: "length js < length ns" using n by simp
  have "(\<forall>(b, f, av) \<in> set ss. s < f \<and> b \<le> e \<longrightarrow> x \<in> bitset av) \<longleftrightarrow>
      (\<forall>t. s \<le> t \<and> t \<le> e \<and> lo \<le> t \<and> t < hi \<longrightarrow> x \<in> avail_at ss t)" if "contig lo hi ss" "strict ss" for x ss
  proof -
    have "(\<exists>(b, f, av) \<in> set ss. s < f \<and> b < e + 1 \<and> \<not> {x} \<subseteq> bitset av) \<longleftrightarrow>
        \<not> (\<forall>(b, f, av) \<in> set ss. s < f \<and> b \<le> e \<longrightarrow> x \<in> bitset av)" by force
    then show ?thesis using strict_avail [OF that, of s "e + 1" "{x}"] \<open>s \<le> e\<close> by auto
  qed
  from this [OF sg(1,2), folded sg(4)] show ?thesis
    using usable_loop_sim [OF ch sg(3,1,2) len u, of s e l0] unfolding usable_nodes_def by simp
qed

subsection \<open>The reservation interface\<close>

text \<open>What the scheduling loop relies on: a request is refused exactly when some moment of its
  interval inside the window lacks one of its nodes, and a granted request removes its nodes
  from its interval and nothing else. From these two laws alone it follows that granted
  requests never share a node at the same time.\<close>

locale reservation_table =
  fixes ok :: "'t \<Rightarrow> bool" and room :: "'t \<Rightarrow> bool" and nodes :: "'t \<Rightarrow> int \<Rightarrow> int set" and lo :: int and hi :: int
    and req :: "'u \<Rightarrow> int \<Rightarrow> int \<Rightarrow> bool" and elems :: "'u \<Rightarrow> int set"
    and conflict :: "'t \<Rightarrow> 'u \<Rightarrow> int \<Rightarrow> int \<Rightarrow> bool option"
    and reserve :: "'u \<Rightarrow> int \<Rightarrow> int \<Rightarrow> 't \<Rightarrow> 't option"
  assumes conflict_law: "ok t \<Longrightarrow> req u s e \<Longrightarrow>
      conflict t u s e = Some (\<exists>x. s \<le> x \<and> x < e \<and> lo \<le> x \<and> x < hi \<and> \<not> elems u \<subseteq> nodes t x)"
    and reserve_law: "ok t \<Longrightarrow> room t \<Longrightarrow> req u s e \<Longrightarrow> \<exists>t'. reserve u s e t = Some t' \<and> ok t' \<and>
      (\<forall>x. nodes t' x = (if s \<le> x \<and> x < e then nodes t x - elems u else nodes t x))"
begin

lemma granted_available:
  assumes "ok t" "req u s e" "conflict t u s e = Some False" "s \<le> x" "x < e" "lo \<le> x" "x < hi"
  shows "elems u \<subseteq> nodes t x"
  using conflict_law [OF assms(1,2)] assms(3-7) by auto

lemma granted_exclusive:
  assumes "ok t" "room t" "req u s e" "reserve u s e t = Some t'"
    and "s \<le> x" "x < e" "V \<subseteq> nodes t' x"
  shows "V \<inter> elems u = {}"
  using reserve_law [OF assms(1-3)] assms(4-7) by auto

lemma reserve_shrinks:
  assumes "ok t" "room t" "req u s e" "reserve u s e t = Some t'"
  shows "ok t'" "nodes t' x \<subseteq> nodes t x"
  using reserve_law [OF assms(1-3)] assms(4) by auto

end

definition request_ok :: "int \<Rightarrow> int \<Rightarrow> bitstr \<Rightarrow> int \<Rightarrow> int \<Rightarrow> bool" where
  "request_ok w lo u s e \<longleftrightarrow> wf_bitstr u \<and> clean u \<and> bs_bits u = w \<and> max s lo < 2 ^ 32 \<and> max s lo < e"

definition tab_ok :: "int \<Rightarrow> int \<Rightarrow> int \<Rightarrow> nat \<Rightarrow> node_space_map list \<times> int \<Rightarrow> bool" where
  "tab_ok w lo hi m tab \<longleftrightarrow> space_ok w lo hi (fst tab) (snd tab) \<and> length (fst tab) = m * 2 + 1"

lemma reserve_nodes_eq:
  assumes "space_ok w lo hi ns recs" "recs + 2 \<le> int (length ns)" "request_ok w lo u s e"
  shows "\<exists>ns' recs'. reserve_nodes u s e (ns, recs) = Some (ns', recs') \<and> length ns' = length ns \<and> recs' \<le> recs + 2 \<and>
    space_ok w lo hi ns' recs' \<and>
    (\<forall>t. nodes_at ns' t = (if s \<le> t \<and> t < e then nodes_at ns t - bitset u else nodes_at ns t))"
proof -
  obtain n where n: "bit_not u = Some n" "wf_bitstr n" "bs_bits n = w" "bitset n = {0..<w} - bitset u"
    using bit_not_set [of u] assms(3) by (auto simp: request_ok_def)
  obtain ns' recs' where r: "add_reservation s e n ns recs = Some (ns', recs')" "length ns' = length ns" "recs' \<le> recs + 2"
      "space_ok w lo hi ns' recs'"
      "\<forall>t. nodes_at ns' t = (if s \<le> t \<and> t < e then nodes_at ns t \<inter> bitset n else nodes_at ns t)"
    using add_reservation_sim [OF assms(1,2) n(2,3), of s e] assms(3) by (auto simp: request_ok_def)
  have "nodes_at ns t \<subseteq> {0..<w}" for t
  proof -
    obtain js where js: "segs_ok w (map (seg ns) (0 # js))" "nodes_at ns = avail_at (map (seg ns) (0 # js))"
      using assms(1) by (rule space_okE)
    have "segs_ok w ss \<Longrightarrow> avail_at ss t \<subseteq> {0..<w}" for ss
      by (induction ss t rule: avail_at.induct) (auto simp: good_map_def bitset_def)
    then show ?thesis unfolding js(2) using js(1) .
  qed
  then have "nodes_at ns t \<inter> bitset n = nodes_at ns t - bitset u" for t unfolding n(4) by blast
  then show ?thesis using r n(1) by (auto simp: reserve_nodes_def)
qed

interpretation rt: reservation_table "tab_ok w lo hi m" "\<lambda>tab. snd tab < int m" "\<lambda>tab. nodes_at (fst tab)" lo hi
    "request_ok w lo" bitset "\<lambda>tab. test_resv_overlap (fst tab)" reserve_nodes
  for w lo hi m
proof
  fix t u s e
  assume t: "tab_ok w lo hi m t" and u: "request_ok w lo u s e"
  show "test_resv_overlap (fst t) u s e =
      Some (\<exists>x. s \<le> x \<and> x < e \<and> lo \<le> x \<and> x < hi \<and> \<not> bitset u \<subseteq> nodes_at (fst t) x)"
    using t u by (intro test_resv_overlap_eq [of w]) (auto simp: tab_ok_def request_ok_def)
  assume room: "snd t < int m"
  have "\<exists>ns' recs'. reserve_nodes u s e (fst t, snd t) = Some (ns', recs') \<and> length ns' = length (fst t) \<and> recs' \<le> snd t + 2 \<and>
    space_ok w lo hi ns' recs' \<and>
    (\<forall>x. nodes_at ns' x = (if s \<le> x \<and> x < e then nodes_at (fst t) x - bitset u else nodes_at (fst t) x))"
    using t u room by (intro reserve_nodes_eq) (auto simp: tab_ok_def)
  then show "\<exists>t'. reserve_nodes u s e t = Some t' \<and> tab_ok w lo hi m t' \<and>
      (\<forall>x. nodes_at (fst t') x = (if s \<le> x \<and> x < e then nodes_at (fst t) x - bitset u else nodes_at (fst t) x))"
    using t by (auto simp: tab_ok_def)
qed

lemma node_space_init_ok:
  assumes "wf_bitstr b" "clean b" "0 \<le> start" "start < 2 ^ 32" "0 < win"
  shows "\<exists>ns. node_space_init start win b m = Some (ns, 1) \<and> tab_ok (bs_bits b) start (start + win) m (ns, 1) \<and>
    (\<forall>t. nodes_at ns t = (if start \<le> t \<and> t < start + win then bitset b else {}))"
proof -
  let ?b = "b\<lparr>bs_magic := BITSTR_MAGIC\<rparr>"
  let ?r = "\<lparr>ns_begin = start, ns_end = start + win, ns_avail = Some ?b, ns_next = 0\<rparr>"
  define ns where "ns = (replicate (m * 2 + 1) ns_zero)[0 := ?r]"
  have n0: "ns ! 0 = ?r" "length ns = m * 2 + 1" by (simp_all add: ns_def)
  have "node_space_init start win b m = Some (ns, 1)"
    using assms(1) by (simp add: node_space_init_def bit_copy_eq c_wr_def ns_def)
  moreover have "good_map (bs_bits b) ?b" "bitset ?b = bitset b"
    using assms(1,2) by (auto simp: good_map_def wf_bitstr_def bitstr_valid_def clean_def bit_cap_def bit_at_def bitset_def)
  then have "tab_ok (bs_bits b) start (start + win) m (ns, 1)"
    using assms n0 by (auto simp: tab_ok_def space_ok_def seg_def intro!: exI [of _ "[]"])
  moreover have "nodes_at ns t = (if start \<le> t \<and> t < start + win then bitset b else {})" for t
    using n0 \<open>bitset ?b = bitset b\<close> by (simp add: nodes_at_def seg_def)
  ultimately show ?thesis by blast
qed

text \<open>\<open>max_tl_loop\<close> on the records behind the current one: it keeps a time found earlier and
  otherwise returns the first moment before \<open>e\<close> at which a node of the job is promised away.\<close>

lemma max_tl_loop_sim:
  assumes "chain ns (j # js)" "segs_ok w (map (seg ns) (j # js))" "contig lo hi (map (seg ns) (j # js))" "strict (map (seg ns) (j # js))"
    and "length js < fuel" "wf_bitstr u" "clean u" "bs_bits u = w" "0 < lo" "now < lo" "ct = 0 \<or> ct < lo"
  shows "\<exists>c. max_tl_loop fuel ns u e now ct (int j) = Some c \<and> (ct \<noteq> 0 \<longrightarrow> c = ct) \<and>
    (ct = 0 \<longrightarrow> (if c = 0 then \<forall>t. lo \<le> t \<and> t < e \<and> t < hi \<longrightarrow> bitset u \<subseteq> avail_at (map (seg ns) (j # js)) t
      else lo \<le> c \<and> c < e \<and> c < hi \<and> \<not> bitset u \<subseteq> avail_at (map (seg ns) (j # js)) c \<and>
        (\<forall>t. lo \<le> t \<and> t < c \<longrightarrow> bitset u \<subseteq> avail_at (map (seg ns) (j # js)) t)))"
  using assms
proof (induction js arbitrary: j fuel lo ct)
  case Nil
  obtain f where f: "fuel = Suc f" using Nil.prems(5) by (cases fuel) auto
  obtain b g av where sj: "seg ns j = (b, g, av)" by (cases "seg ns j") auto
  have r: "j < length ns" "ns_next (ns ! j) = 0" "ns_begin (ns ! j) = b" "ns_end (ns ! j) = g" "ns_avail (ns ! j) = Some av"
    using Nil.prems(1) sj by (auto simp: seg_def)
  have bg: "b = lo" "b < g" "g = hi" using Nil.prems(3,4) sj by auto
  have sup: "bit_super_set u av = Some (bitset u \<subseteq> bitset av)" using Nil.prems sj by (intro good_map_super) auto
  show ?case
    using f r sj bg sup Nil.prems(9-11) by (cases "b < e"; cases "bitset u \<subseteq> bitset av"; cases "ct = 0") (simp_all add: Let_def)
next
  case (Cons k ks)
  obtain f where f: "fuel = Suc f" using Cons.prems(5) by (cases fuel) auto
  obtain b g av where sj: "seg ns j = (b, g, av)" by (cases "seg ns j") auto
  have r: "j < length ns" "ns_next (ns ! j) = int k" "k \<noteq> 0" "ns_begin (ns ! j) = b" "ns_end (ns ! j) = g" "ns_avail (ns ! j) = Some av"
    using Cons.prems(1) sj by (auto simp: seg_def)
  let ?tl = "map (seg ns) (k # ks)"
  have tl: "chain ns (k # ks)" "segs_ok w ?tl" "contig g hi ?tl" "strict ?tl" "length ks < f"
    using Cons.prems f sj by auto
  have bg: "b = lo" "b < g" "g \<le> hi" using Cons.prems(3,4) sj contig_le [OF tl(3)] by auto
  have sup: "bit_super_set u av = Some (bitset u \<subseteq> bitset av)" using Cons.prems sj by (intro good_map_super) auto
  define c1 where "c1 = (if b < e \<and> \<not> bitset u \<subseteq> bitset av \<and> ct = 0 then b else ct)"
  have loop: "max_tl_loop fuel ns u e now ct (int j) = max_tl_loop f ns u e now c1 (int k)"
    using f r sup bg Cons.prems(10,11) by (cases "b < e"; cases "bitset u \<subseteq> bitset av"; cases "ct = 0") (simp_all add: Let_def c1_def)
  have pos: "0 < g" "now < g" "c1 = 0 \<or> c1 < g" using bg Cons.prems(9-11) by (auto simp: c1_def)
  obtain c where c: "max_tl_loop f ns u e now c1 (int k) = Some c" "c1 \<noteq> 0 \<longrightarrow> c = c1"
      "c1 = 0 \<longrightarrow> (if c = 0 then \<forall>t. g \<le> t \<and> t < e \<and> t < hi \<longrightarrow> bitset u \<subseteq> avail_at ?tl t
      else g \<le> c \<and> c < e \<and> c < hi \<and> \<not> bitset u \<subseteq> avail_at ?tl c \<and> (\<forall>t. g \<le> t \<and> t < c \<longrightarrow> bitset u \<subseteq> avail_at ?tl t))"
    using Cons.IH [OF tl Cons.prems(6-8) pos] by (elim exE conjE) (rule that; assumption)
  have at: "avail_at (map (seg ns) (j # k # ks)) t = (if b \<le> t \<and> t < g then bitset av else avail_at ?tl t)" for t using sj by simp
  show ?case
  proof (intro exI conjI impI)
    show "max_tl_loop fuel ns u e now ct (int j) = Some c" using loop c(1) by simp
    show "c = ct" if "ct \<noteq> 0" using that c(2) by (simp add: c1_def)
    assume ct: "ct = 0"
    show "if c = 0 then \<forall>t. lo \<le> t \<and> t < e \<and> t < hi \<longrightarrow> bitset u \<subseteq> avail_at (map (seg ns) (j # k # ks)) t
      else lo \<le> c \<and> c < e \<and> c < hi \<and> \<not> bitset u \<subseteq> avail_at (map (seg ns) (j # k # ks)) c \<and>
        (\<forall>t. lo \<le> t \<and> t < c \<longrightarrow> bitset u \<subseteq> avail_at (map (seg ns) (j # k # ks)) t)"
    proof (cases "c1 = 0")
      case True
      then have av: "b < e \<longrightarrow> bitset u \<subseteq> bitset av" using ct bg Cons.prems(9) by (auto simp: c1_def split: if_splits)
      show ?thesis using c(3) True av bg unfolding at by (auto split: if_splits)
    next
      case False
      then have "c = b" "b < e" "\<not> bitset u \<subseteq> bitset av" using c(2) ct by (auto simp: c1_def split: if_splits)
      then show ?thesis using bg Cons.prems(9) unfolding at by auto
    qed
  qed
qed

lemma get_job_max_tl_eq:
  assumes ok: "space_ok w now hi ns recs" and u: "wf_bitstr u" "clean u" "bs_bits u = w" and now: "0 < now" and tm: "tm \<noteq> 0"
  shows "\<exists>c. get_job_max_tl tm u e now ns = Some (if c \<noteq> 0 then u32 ((c - now + 59) div 60) else NO_VAL) \<and>
    (if c = 0 then \<forall>t. ns_end (ns ! 0) \<le> t \<and> t < e \<and> t < hi \<longrightarrow> bitset u \<subseteq> nodes_at ns t
     else ns_end (ns ! 0) \<le> c \<and> c < e \<and> c < hi \<and> \<not> bitset u \<subseteq> nodes_at ns c \<and>
       (\<forall>t. ns_end (ns ! 0) \<le> t \<and> t < c \<longrightarrow> bitset u \<subseteq> nodes_at ns t))"
proof -
  obtain n js where n: "n \<le> length ns" "length (0 # js) \<le> n" and ch: "chain ns (0 # js)"
    and sg: "contig now hi (map (seg ns) (0 # js))" "strict (map (seg ns) (0 # js))"
    "segs_ok w (map (seg ns) (0 # js))" "nodes_at ns = avail_at (map (seg ns) (0 # js))"
    using ok by (rule space_okE) blast
  obtain g av where s0: "seg ns 0 = (now, g, av)" "now < g" using sg(1,2) by (cases "seg ns 0") auto
  have r: "0 < length ns" "ns_begin (ns ! 0) = now" "ns_end (ns ! 0) = g" using s0 n by (auto simp: seg_def)
  obtain f where f: "length ns = Suc f" using r(1) by (cases "length ns") auto
  show ?thesis
  proof (cases js)
    case Nil
    then have "max_tl_loop (length ns) ns u e now 0 0 = Some 0" using f r ch by (simp add: Let_def)
    moreover have "g = hi" using sg(1) s0 Nil by simp
    ultimately show ?thesis using r tm by (intro exI [of _ 0]) (auto simp: get_job_max_tl_def)
  next
    case (Cons k ks)
    let ?tl = "map (seg ns) (k # ks)"
    have tl: "chain ns (k # ks)" "segs_ok w ?tl" "contig g hi ?tl" "strict ?tl" "length ks < f"
      using ch sg s0 n f Cons by auto
    have at: "nodes_at ns t = (if now \<le> t \<and> t < g then bitset av else avail_at ?tl t)" for t
      unfolding sg(4) using Cons s0 by simp
    have nx: "ns_next (ns ! 0) = int k" "k \<noteq> 0" using ch Cons by auto
    obtain c where c: "max_tl_loop f ns u e now 0 (int k) = Some c"
      "if c = 0 then \<forall>t. g \<le> t \<and> t < e \<and> t < hi \<longrightarrow> bitset u \<subseteq> avail_at ?tl t
      else g \<le> c \<and> c < e \<and> c < hi \<and> \<not> bitset u \<subseteq> avail_at ?tl c \<and> (\<forall>t. g \<le> t \<and> t < c \<longrightarrow> bitset u \<subseteq> avail_at ?tl t)"
      using max_tl_loop_sim [OF tl u, of now 0 e] now s0(2) by auto
    have "max_tl_loop (length ns) ns u e now 0 0 = Some c" using c(1) f r nx by (simp add: Let_def)
    then show ?thesis
      using c(2) r tm unfolding at by (intro exI [of _ c]) (auto simp: get_job_max_tl_def split: if_splits)
  qed
qed

subsection \<open>Properties\<close>

text \<open>The table of an idle system with the nodes of \<open>ten_bits\<close> and a window of 1000 seconds.\<close>

lemma idle_table:
  obtains ns where "node_space_init 100 1000 ten_bits 5 = Some (ns, 1)" "space_ok 10 100 1100 ns 1" "length ns = 11"
    "\<forall>t. nodes_at ns t = (if 100 \<le> t \<and> t < 1100 then {0, 2, 3, 9} else {})"
  using node_space_init_ok [of ten_bits 100 1000 5] by (auto simp: tab_ok_def)

text \<open>C7 (refinement): \<open>_add_reservation\<close>, which splits, masks and merges linked records in the
  array, implements the mathematical update of the function from time to available nodes: it
  returns, uses at most two more records, keeps the table well-formed and the window, and the nodes
  available at \<open>t\<close> become \<open>nodes_at ns t \<inter> res\<close> exactly for \<open>start \<le> t < end_reserve\<close>.\<close>

theorem add_reservation_refines:
  assumes "space_ok w lo hi ns recs" "recs + 2 \<le> int (length ns)" "wf_bitstr res" "bs_bits res = w"
    and "max start lo < 2 ^ 32" "max start lo < e"
  shows "\<exists>ns' recs'. add_reservation start e res ns recs = Some (ns', recs') \<and>
    length ns' = length ns \<and> recs \<le> recs' \<and> recs' \<le> recs + 2 \<and> space_ok w lo hi ns' recs' \<and>
    (\<forall>t. nodes_at ns' t = (if start \<le> t \<and> t < e then nodes_at ns t \<inter> bitset res else nodes_at ns t))"
  by (rule add_reservation_sim [OF assms])

theorem add_reservation_refines_witness:
  "\<exists>ns ns' recs'. node_space_init 100 1000 ten_bits 5 = Some (ns, 1) \<and>
    add_reservation 200 300 ten_bits ns 1 = Some (ns', recs') \<and> recs' \<le> 3 \<and> nodes_at ns' 250 = {0, 2, 3, 9}"
proof -
  obtain ns where ns: "node_space_init 100 1000 ten_bits 5 = Some (ns, 1)" "space_ok 10 100 1100 ns 1" "length ns = 11"
    "\<forall>t. nodes_at ns t = (if 100 \<le> t \<and> t < 1100 then {0, 2, 3, 9} else {})"
    by (rule idle_table)
  show ?thesis using add_reservation_refines [OF ns(2), of ten_bits 200 300] ns by auto
qed

text \<open>C14 (functional): \<open>_test_resv_overlap\<close> reports an overlap exactly when some node of the request
  is not available at some time of the request inside the window.\<close>

theorem resv_overlap_exact:
  assumes "space_ok w lo hi ns recs" "wf_bitstr u" "clean u" "bs_bits u = w" "s < e"
  shows "test_resv_overlap ns u s e = Some (\<exists>t. s \<le> t \<and> t < e \<and> lo \<le> t \<and> t < hi \<and> \<not> bitset u \<subseteq> nodes_at ns t)"
  by (rule test_resv_overlap_eq [OF assms])

theorem resv_overlap_exact_witness:
  "\<exists>ns. node_space_init 100 1000 ten_bits 5 = Some (ns, 1) \<and> test_resv_overlap ns ten_bits 200 300 = Some False"
proof -
  obtain ns where ns: "node_space_init 100 1000 ten_bits 5 = Some (ns, 1)" "space_ok 10 100 1100 ns 1" "length ns = 11"
    "\<forall>t. nodes_at ns t = (if 100 \<le> t \<and> t < 1100 then {0, 2, 3, 9} else {})"
    by (rule idle_table)
  show ?thesis using resv_overlap_exact [OF ns(2), of ten_bits 200 300] ns by auto
qed

text \<open>The nodes \<open>_attempt_backfill\<close> keeps for a job are those available at every
  moment from \<open>start_res\<close> to \<open>end_time\<close>; a job placed on some of them within that time is never refused
  by \<open>_test_resv_overlap\<close>. The time noted for a retry lies after \<open>start_res\<close> and inside the window.\<close>

theorem usable_nodes_pass_test:
  assumes "space_ok w lo hi ns recs" "wf_bitstr u" "bs_bits u = w" "s \<le> e"
  shows "\<exists>a l. usable_nodes ns u s e 0 = Some (a, l) \<and>
    bitset a = {x \<in> bitset u. \<forall>t. s \<le> t \<and> t \<le> e \<and> lo \<le> t \<and> t < hi \<longrightarrow> x \<in> nodes_at ns t} \<and>
    (l = 0 \<or> s < l \<and> l < hi) \<and>
    (\<forall>v e'. wf_bitstr v \<and> clean v \<and> bs_bits v = w \<and> bitset v \<subseteq> bitset a \<and> s < e' \<and> e' \<le> e + 1 \<longrightarrow>
      test_resv_overlap ns v s e' = Some False)"
proof -
  obtain a l where a: "usable_nodes ns u s e 0 = Some (a, l)" "l = 0 \<or> s < l \<and> l < hi"
    "bitset a = {x \<in> bitset u. \<forall>t. s \<le> t \<and> t \<le> e \<and> lo \<le> t \<and> t < hi \<longrightarrow> x \<in> nodes_at ns t}"
    using usable_nodes_eq [OF assms, of 0] by blast
  have "test_resv_overlap ns v s e' = Some False"
    if v: "wf_bitstr v" "clean v" "bs_bits v = w" "bitset v \<subseteq> bitset a" "s < e'" "e' \<le> e + 1" for v e'
  proof -
    have "bitset v \<subseteq> nodes_at ns t" if "s \<le> t" "t < e'" "lo \<le> t" "t < hi" for t
      using that v(4,6) unfolding a(3) by auto
    then show ?thesis using test_resv_overlap_eq [OF assms(1) v(1-3,5)] by auto
  qed
  then show ?thesis using a by blast
qed

theorem usable_nodes_pass_test_witness:
  "\<exists>ns a l. node_space_init 100 1000 ten_bits 5 = Some (ns, 1) \<and> usable_nodes ns ten_bits 200 300 0 = Some (a, l)"
proof -
  obtain ns where ns: "node_space_init 100 1000 ten_bits 5 = Some (ns, 1)" "space_ok 10 100 1100 ns 1" "length ns = 11"
    "\<forall>t. nodes_at ns t = (if 100 \<le> t \<and> t < 1100 then {0, 2, 3, 9} else {})"
    by (rule idle_table)
  show ?thesis using usable_nodes_pass_test [OF ns(2), of ten_bits 200 300] ns(1) by auto
qed

text \<open>\<open>_get_job_max_tl\<close> finds the first moment \<open>c\<close> behind the current record at which a
  node of the running job is promised to another one. The limit it returns is rounded up to
  minutes, so a job with that limit may outlast \<open>c\<close>, by less than a minute.\<close>

theorem job_max_tl_rounds_up:
  assumes "space_ok w now hi ns recs" "wf_bitstr u" "clean u" "bs_bits u = w" "0 < now" "tm \<noteq> 0" "hi - now < 2 ^ 32"
  shows "get_job_max_tl tm u e now ns = Some NO_VAL \<and>
       (\<forall>t. ns_end (ns ! 0) \<le> t \<and> t < e \<and> t < hi \<longrightarrow> bitset u \<subseteq> nodes_at ns t) \<or>
    (\<exists>c l. get_job_max_tl tm u e now ns = Some l \<and> c \<le> now + 60 * l \<and> now + 60 * l < c + 60 \<and>
       ns_end (ns ! 0) \<le> c \<and> c < e \<and> \<not> bitset u \<subseteq> nodes_at ns c \<and>
       (\<forall>t. ns_end (ns ! 0) \<le> t \<and> t < c \<longrightarrow> bitset u \<subseteq> nodes_at ns t))"
proof -
  obtain c where c: "get_job_max_tl tm u e now ns = Some (if c \<noteq> 0 then u32 ((c - now + 59) div 60) else NO_VAL)"
    "if c = 0 then \<forall>t. ns_end (ns ! 0) \<le> t \<and> t < e \<and> t < hi \<longrightarrow> bitset u \<subseteq> nodes_at ns t
     else ns_end (ns ! 0) \<le> c \<and> c < e \<and> c < hi \<and> \<not> bitset u \<subseteq> nodes_at ns c \<and>
       (\<forall>t. ns_end (ns ! 0) \<le> t \<and> t < c \<longrightarrow> bitset u \<subseteq> nodes_at ns t)"
    using get_job_max_tl_eq [OF assms(1-6), of e] by blast
  show ?thesis
  proof (cases "c = 0")
    case False
    have "now < ns_end (ns ! 0)"
    proof -
      obtain js where "contig now hi (map (seg ns) (0 # js))" "strict (map (seg ns) (0 # js))"
        using assms(1) by (rule space_okE)
      then show ?thesis by (simp add: seg_def)
    qed
    then have d: "0 < c - now" "c - now < 2 ^ 32" using c(2) False assms(7) by auto
    define l where "l = (c - now + 59) div 60"
    have l: "c - now \<le> 60 * l" "60 * l < c - now + 60" unfolding l_def by linarith+
    have "u32 l = l" using d l by (simp add: u32_def)
    then show ?thesis using c False l unfolding l_def [symmetric] by (intro disjI2 exI [of _ c] exI [of _ l]) auto
  qed (use c in auto)
qed

theorem job_max_tl_rounds_up_witness:
  "\<exists>ns. node_space_init 100 1000 ten_bits 5 = Some (ns, 1) \<and> (\<exists>l. get_job_max_tl 1 ten_bits 500 100 ns = Some l)"
proof -
  obtain ns where ns: "node_space_init 100 1000 ten_bits 5 = Some (ns, 1)" "space_ok 10 100 1100 ns 1" "length ns = 11"
    "\<forall>t. nodes_at ns t = (if 100 \<le> t \<and> t < 1100 then {0, 2, 3, 9} else {})"
    by (rule idle_table)
  show ?thesis using job_max_tl_rounds_up [OF ns(2), of ten_bits 1 500] ns(1) by auto
qed

end
