(* ===== verification/Backfill_Plan.thy ===== *)
theory Backfill_Plan
  imports Node_Space
begin

section \<open>The reservations of a backfill cycle (\<open>src/plugins/sched/backfill/backfill.c\<close>)\<close>

text \<open>
  The second half of the loop of \<open>_attempt_backfill\<close>: what happens with a job that was not started,
  from the test of \<open>job_no_reserve\<close> to the reservation in the table. An attempt holds what the loop
  knows of the job at that point: the values of \<open>now\<close>, \<open>sched_start\<close> and \<open>later_start\<close>, the start time
  and the nodes that the select plugin chose, and the answers of the other modules
  (\<open>_job_pack_deadlock_test\<close>, the accounting policy, the flags of the QOS). A job that tries later,
  and the next task of a job array, are further attempts, so that a cycle is a list of attempts.
  Logging and the counters for job arrays are left out.
\<close>

subsection \<open>Model\<close>

record bf_conf =
  bc_resolution :: int
  bc_window :: int
  bc_max_job_cnt :: int
  bc_part_reserve :: int
  bc_part_ptr :: "nat list"

record bf_attempt =
  ba_now :: int
  ba_sched_start :: int
  ba_orig_start_time :: int
  ba_start_time :: int
  ba_later_start :: int
  ba_no_reserve :: bool
  ba_boot_time :: int
  ba_time_limit :: int
  ba_wait_bb :: bool
  ba_avail_bitmap :: bitstr
  ba_pack_deadlock :: bool
  ba_runnable :: bool
  ba_qos_no_reserve :: bool
  ba_part_ptr :: nat

record bf_state =
  bf_table :: "node_space_map list \<times> int"
  bf_part_resv :: "int list"

datatype bf_next = Next_job | Try_later int | End_cycle | Reserved

definition resv_start :: "bf_conf \<Rightarrow> bf_attempt \<Rightarrow> int" where
  "resv_start c a = u32 (ba_start_time a) div bc_resolution c * bc_resolution c"

definition resv_end :: "bf_conf \<Rightarrow> bf_attempt \<Rightarrow> int" where
  "resv_end c a = u32 (ba_start_time a + ba_boot_time a + u32 (ba_time_limit a * 60)) div bc_resolution c * bc_resolution c"

text \<open>\<open>bf_part_resv[j]++ >= bf_job_part_count_reserve\<close> at the first \<open>j\<close> with the job's partition.\<close>

fun count_part_resv :: "nat list \<Rightarrow> int list \<Rightarrow> nat \<Rightarrow> int \<Rightarrow> int list \<times> bool" where
  "count_part_resv (p # ps) (n # ns) part limit =
     (if p \<noteq> part then (let (ns, do_reserve) = count_part_resv ps ns part limit in (n # ns, do_reserve))
      else (u32 (n + 1) # ns, \<not> n \<ge> limit))"
| "count_part_resv ps ns part limit = (ns, True)"

definition tested :: "bf_attempt \<Rightarrow> bool" where
  "tested a \<longleftrightarrow> ba_start_time a > ba_now a \<and> \<not> ba_wait_bb a"

definition earlier_start :: "bf_attempt \<Rightarrow> int" where
  "earlier_start a = (if ba_orig_start_time a \<noteq> 0 \<and> ba_orig_start_time a < ba_start_time a
     then ba_orig_start_time a else ba_start_time a)"

text \<open>The result holds the state, the value of \<open>job_ptr->start_time\<close> and how the loop goes on;
  \<open>Try_later t\<close> goes to \<open>TRY_LATER\<close> with \<open>later_start = t\<close>.\<close>

definition reserve_job :: "bf_conf \<Rightarrow> bf_attempt \<Rightarrow> bf_state \<Rightarrow> (bf_state \<times> int \<times> bf_next) option" where
  "reserve_job c a st = (
     if ba_start_time a > ba_now a \<and> ba_no_reserve a then Some (st, earlier_start a, Next_job)
     else if ba_later_start a \<noteq> 0 \<and> ba_start_time a > ba_later_start a then Some (st, 0, Try_later (ba_later_start a))
     else if ba_start_time a > ba_sched_start a + bc_window c then Some (st, earlier_start a, Next_job)
     else if snd (bf_table st) \<ge> bc_max_job_cnt c then Some (st, ba_start_time a, End_cycle)
     else do {
       overlap \<leftarrow> (if tested a then test_resv_overlap (fst (bf_table st)) (ba_avail_bitmap a) (resv_start c a) (resv_end c a)
                   else Some False);
       if overlap then Some (st, 0, Try_later (ba_start_time a))
       else if ba_pack_deadlock a then Some (st, ba_start_time a, Next_job)
       else if \<not> ba_runnable a then Some (st, ba_start_time a, Next_job)
       else if ba_qos_no_reserve a then Some (st, ba_start_time a, Next_job)
       else let (resv, do_reserve) = (if bc_part_reserve c \<noteq> 0
                  then count_part_resv (bc_part_ptr c) (bf_part_resv st) (ba_part_ptr a) (bc_part_reserve c)
                  else (bf_part_resv st, True)) in
         if \<not> do_reserve then Some (st\<lparr>bf_part_resv := resv\<rparr>, ba_start_time a, Next_job)
         else do {
           tab \<leftarrow> reserve_nodes (ba_avail_bitmap a) (resv_start c a) (resv_end c a) (bf_table st);
           Some (\<lparr>bf_table = tab, bf_part_resv = resv\<rparr>, earlier_start a, Reserved)
         }
     })"

text \<open>A cycle over a list of attempts; those that got a reservation are collected.\<close>

fun plan_cycle :: "bf_conf \<Rightarrow> bf_attempt list \<Rightarrow> bf_state \<Rightarrow> (bf_state \<times> bf_attempt list) option" where
  "plan_cycle c [] st = Some (st, [])"
| "plan_cycle c (a # as) st = do {
     (st, start_time, nx) \<leftarrow> reserve_job c a st;
     (case nx of
        End_cycle \<Rightarrow> Some (st, [])
      | Reserved \<Rightarrow> do { (st, acc) \<leftarrow> plan_cycle c as st; Some (st, a # acc) }
      | _ \<Rightarrow> plan_cycle c as st)
   }"

subsection \<open>The reservations stay exclusive\<close>

text \<open>What the rest of \<open>_attempt_backfill\<close> provides: a clean bitmap of all nodes, a start time not
  before the cycle began, times that fit into \<open>uint32_t\<close> and a reservation no shorter than the
  resolution of the table.\<close>

definition attempt_ok :: "bf_conf \<Rightarrow> int \<Rightarrow> int \<Rightarrow> bf_attempt \<Rightarrow> bool" where
  "attempt_ok c w lo a \<longleftrightarrow> wf_bitstr (ba_avail_bitmap a) \<and> clean (ba_avail_bitmap a) \<and> bs_bits (ba_avail_bitmap a) = w \<and>
     0 < bc_resolution c \<and> lo \<le> ba_start_time a \<and> 0 \<le> ba_time_limit a \<and> 0 \<le> ba_boot_time a \<and>
     ba_start_time a + ba_boot_time a + ba_time_limit a * 60 < 2 ^ 32 \<and>
     bc_resolution c \<le> ba_boot_time a + ba_time_limit a * 60"

lemma attempt_request:
  assumes "attempt_ok c w lo a" "0 \<le> lo"
  shows "request_ok w lo (ba_avail_bitmap a) (resv_start c a) (resv_end c a)"
proof -
  let ?r = "bc_resolution c" and ?s = "ba_start_time a" and ?e = "ba_start_time a + ba_boot_time a + ba_time_limit a * 60"
  have r: "0 < ?r" using assms(1) by (simp add: attempt_ok_def)
  have le: "x div ?r * ?r \<le> x" "x - ?r < x div ?r * ?r" if "0 \<le> x" for x
    using pos_mod_bound [of ?r x] pos_mod_sign [of ?r x] minus_mod_eq_div_mult [of x ?r] r by linarith+
  have u: "u32 ?s = ?s" "u32 (ba_time_limit a * 60) = ba_time_limit a * 60" "u32 ?e = ?e"
    using assms unfolding attempt_ok_def u32_def by (auto intro!: mod_pos_pos_trivial)
  have s: "resv_start c a \<le> ?s" using le(1) [of ?s] u assms by (simp add: resv_start_def attempt_ok_def)
  have e: "?e - ?r < resv_end c a" using le(2) [of ?e] u assms by (simp add: resv_end_def attempt_ok_def)
  show ?thesis using assms s e by (simp add: request_ok_def attempt_ok_def)
qed

definition booked :: "bf_conf \<Rightarrow> bf_attempt \<Rightarrow> int \<Rightarrow> int set" where
  "booked c a x = (if resv_start c a \<le> x \<and> x < resv_end c a then bitset (ba_avail_bitmap a) else {})"

definition exclusive :: "bf_conf \<Rightarrow> int \<Rightarrow> int \<Rightarrow> bf_attempt list \<Rightarrow> bool" where
  "exclusive c lo hi = sorted_wrt (\<lambda>a a'. tested a' \<longrightarrow> (\<forall>x. lo \<le> x \<and> x < hi \<longrightarrow> booked c a x \<inter> booked c a' x = {}))"

lemma reserve_job_cases:
  assumes t: "tab_ok w lo hi m (bf_table st)" and a: "attempt_ok c w lo a" "0 \<le> lo" and m: "bc_max_job_cnt c = int m"
  obtains st' start nx where "reserve_job c a st = Some (st', start, nx)" "nx \<noteq> Reserved" "bf_table st' = bf_table st"
  | st' start where "reserve_job c a st = Some (st', start, Reserved)" "tab_ok w lo hi m (bf_table st')"
      "\<forall>x. nodes_at (fst (bf_table st')) x = nodes_at (fst (bf_table st)) x - booked c a x"
      "\<forall>x. tested a \<and> lo \<le> x \<and> x < hi \<longrightarrow> booked c a x \<subseteq> nodes_at (fst (bf_table st)) x"
proof -
  let ?u = "ba_avail_bitmap a" and ?s = "resv_start c a" and ?e = "resv_end c a"
  note req = attempt_request [OF a]
  obtain ov where o: "(if tested a then test_resv_overlap (fst (bf_table st)) ?u ?s ?e else Some False) = Some ov"
      "tested a \<and> \<not> ov \<longrightarrow> (\<forall>x. lo \<le> x \<and> x < hi \<longrightarrow> booked c a x \<subseteq> nodes_at (fst (bf_table st)) x)"
    using rt.conflict_law [OF t req] by (cases "tested a") (auto simp: booked_def)
  obtain resv d where cp: "(if bc_part_reserve c \<noteq> 0 then count_part_resv (bc_part_ptr c) (bf_part_resv st) (ba_part_ptr a) (bc_part_reserve c)
      else (bf_part_resv st, True)) = (resv, d)" by fastforce
  show thesis
  proof (cases "(ba_start_time a > ba_now a \<and> ba_no_reserve a) \<or> (ba_later_start a \<noteq> 0 \<and> ba_start_time a > ba_later_start a) \<or>
      ba_start_time a > ba_sched_start a + bc_window c \<or> snd (bf_table st) \<ge> bc_max_job_cnt c \<or> ov \<or> ba_pack_deadlock a \<or> \<not> ba_runnable a \<or>
      ba_qos_no_reserve a \<or> \<not> d")
    case True
    then have "\<exists>st' start nx. reserve_job c a st = Some (st', start, nx) \<and> nx \<noteq> Reserved \<and> bf_table st' = bf_table st"
      unfolding reserve_job_def o(1) cp by (auto split: if_split)
    then show thesis using that(1) by blast
  next
    case False
    then have room: "snd (bf_table st) < int m" using m by simp
    obtain t' where r: "reserve_nodes ?u ?s ?e (bf_table st) = Some t'" "tab_ok w lo hi m t'"
        "\<forall>x. nodes_at (fst t') x = (if ?s \<le> x \<and> x < ?e then nodes_at (fst (bf_table st)) x - bitset ?u else nodes_at (fst (bf_table st)) x)"
      using rt.reserve_law [OF t room req] by blast
    have e: "reserve_job c a st = Some (\<lparr>bf_table = t', bf_part_resv = resv\<rparr>, earlier_start a, Reserved)"
      unfolding reserve_job_def o(1) cp using False r(1) by auto
    show thesis using that(2) [OF e] r(2,3) o(2) False by (simp add: booked_def)
  qed
qed

lemma plan_cycle_sim:
  assumes "tab_ok w lo hi m (bf_table st)" "\<forall>a \<in> set q. attempt_ok c w lo a" "0 \<le> lo" "bc_max_job_cnt c = int m"
  shows "\<exists>st' acc. plan_cycle c q st = Some (st', acc) \<and> tab_ok w lo hi m (bf_table st') \<and> set acc \<subseteq> set q \<and>
    (\<forall>x. nodes_at (fst (bf_table st')) x = nodes_at (fst (bf_table st)) x - (\<Union>a \<in> set acc. booked c a x)) \<and>
    (\<forall>a \<in> set acc. \<forall>x. tested a \<and> lo \<le> x \<and> x < hi \<longrightarrow> booked c a x \<subseteq> nodes_at (fst (bf_table st)) x) \<and>
    exclusive c lo hi acc"
  using assms(1,2)
proof (induction q arbitrary: st)
  case Nil
  then show ?case by (simp add: exclusive_def)
next
  case (Cons a q)
  have a: "attempt_ok c w lo a" and q: "\<forall>a \<in> set q. attempt_ok c w lo a" using Cons.prems(2) by auto
  from reserve_job_cases [OF Cons.prems(1) a assms(3,4)] show ?case
  proof cases
    case (1 st' start nx)
    show ?thesis
    proof (cases "nx = End_cycle")
      case True
      then show ?thesis using 1 Cons.prems(1) by (intro exI [of _ st'] exI [of _ "[]"]) (auto simp: exclusive_def)
    next
      case False
      have "plan_cycle c (a # q) st = plan_cycle c q st'" using 1 False by (cases nx) auto
      moreover have "tab_ok w lo hi m (bf_table st')" using Cons.prems(1) 1 by simp
      ultimately show ?thesis using Cons.IH [OF _ q, of st'] 1(3) by auto
    qed
  next
    case (2 st1 start)
    obtain st' acc where IH: "plan_cycle c q st1 = Some (st', acc)" "tab_ok w lo hi m (bf_table st')" "set acc \<subseteq> set q"
        "\<forall>x. nodes_at (fst (bf_table st')) x = nodes_at (fst (bf_table st1)) x - (\<Union>a \<in> set acc. booked c a x)"
        "\<forall>a \<in> set acc. \<forall>x. tested a \<and> lo \<le> x \<and> x < hi \<longrightarrow> booked c a x \<subseteq> nodes_at (fst (bf_table st1)) x"
        "exclusive c lo hi acc"
      using Cons.IH [OF 2(2) q] by blast
    have p: "plan_cycle c (a # q) st = Some (st', a # acc)" using 2(1) IH(1) by simp
    have n: "nodes_at (fst (bf_table st')) x = nodes_at (fst (bf_table st)) x - (\<Union>a \<in> set (a # acc). booked c a x)" for x
      using IH(4) 2(3) by auto
    have av: "\<forall>b \<in> set (a # acc). \<forall>x. tested b \<and> lo \<le> x \<and> x < hi \<longrightarrow> booked c b x \<subseteq> nodes_at (fst (bf_table st)) x"
      using 2(3,4) IH(5) by fastforce
    have ex: "exclusive c lo hi (a # acc)"
      using IH(5,6) 2(3) unfolding exclusive_def by (auto simp: subset_iff)
    show ?thesis using p n av ex IH(2,3) by (intro exI [of _ st'] exI [of _ "a # acc"]) auto
  qed
qed

subsection \<open>Properties\<close>

text \<open>C1 (safety): a backfill cycle that starts from the table of the available nodes returns and
  never writes outside the array of \<open>2 * max_backfill_job_cnt + 1\<close> records; the table then holds, at each time
  of the window, the available nodes without the reserved ones. A job that is planned for the future
  gets only available nodes, and none that an earlier reservation of the cycle has at the same time.\<close>

theorem backfill_no_double_booking:
  assumes "wf_bitstr b" "clean b" "0 \<le> start" "start < 2 ^ 32" "0 < bc_window c" "bc_max_job_cnt c = int m"
    and "\<forall>a \<in> set q. attempt_ok c (bs_bits b) start a"
  shows "\<exists>tab st' acc. node_space_init start (bc_window c) b m = Some tab \<and>
    plan_cycle c q \<lparr>bf_table = tab, bf_part_resv = resv\<rparr> = Some (st', acc) \<and> set acc \<subseteq> set q \<and>
    (\<forall>x. start \<le> x \<and> x < start + bc_window c \<longrightarrow>
      nodes_at (fst (bf_table st')) x = bitset b - (\<Union>a \<in> set acc. booked c a x) \<and>
      (\<forall>a \<in> set acc. tested a \<longrightarrow> booked c a x \<subseteq> bitset b)) \<and>
    exclusive c start (start + bc_window c) acc"
proof -
  obtain ns where ns: "node_space_init start (bc_window c) b m = Some (ns, 1)" "tab_ok (bs_bits b) start (start + bc_window c) m (ns, 1)"
    "\<forall>t. nodes_at ns t = (if start \<le> t \<and> t < start + bc_window c then bitset b else {})"
    using node_space_init_ok [OF assms(1-5)] by blast
  have t: "tab_ok (bs_bits b) start (start + bc_window c) m (bf_table \<lparr>bf_table = (ns, 1), bf_part_resv = resv\<rparr>)" using ns(2) by simp
  show ?thesis using plan_cycle_sim [OF t assms(7,3,6)] ns by auto
qed

definition demo_conf :: bf_conf where
  "demo_conf = \<lparr>bc_resolution = 60, bc_window = 6000, bc_max_job_cnt = 5, bc_part_reserve = 0, bc_part_ptr = []\<rparr>"

definition demo_attempt :: "int \<Rightarrow> bf_attempt" where
  "demo_attempt t = \<lparr>ba_now = 600, ba_sched_start = 600, ba_orig_start_time = 0, ba_start_time = t, ba_later_start = 0,
     ba_no_reserve = False, ba_boot_time = 0, ba_time_limit = 10, ba_wait_bb = False, ba_avail_bitmap = ten_bits,
     ba_pack_deadlock = False, ba_runnable = True, ba_qos_no_reserve = False, ba_part_ptr = 0\<rparr>"

theorem backfill_no_double_booking_witness:
  "\<exists>tab st' acc. node_space_init 600 6000 ten_bits 5 = Some tab \<and>
    plan_cycle demo_conf [demo_attempt 700, demo_attempt 1000] \<lparr>bf_table = tab, bf_part_resv = []\<rparr> = Some (st', acc) \<and>
    exclusive demo_conf 600 6600 acc"
proof -
  have "\<forall>a \<in> set [demo_attempt 700, demo_attempt 1000]. attempt_ok demo_conf (bs_bits ten_bits) 600 a"
    by (simp add: attempt_ok_def demo_conf_def demo_attempt_def)
  moreover have "bc_window demo_conf = 6000" "bc_max_job_cnt demo_conf = int 5" by (simp_all add: demo_conf_def)
  ultimately show ?thesis
    using backfill_no_double_booking [of ten_bits 600 demo_conf 5 "[demo_attempt 700, demo_attempt 1000]" "[]"] by auto
qed

end
