(* ===== verification/Slurm_List.thy ===== *)
theory Slurm_List
  imports Slurm_Prelude
begin

section \<open>Linked lists with iterators (\<open>src/common/list.c\<close>)\<close>

text \<open>
  The list module is modelled with an explicit store: a node is reached through its address, and
  a pointer to a \<open>next\<close> field (\<open>ListNode *pp\<close>) is a \<open>slot\<close>, either the list's \<open>head\<close> field or the
  \<open>next\<close> field of a node. The aliasing between the list, its nodes and the iterators on it is
  what the operations have to keep right: every insertion and removal repairs the position of all
  iterators. Nodes come from the free list of \<open>list_alloc_aux\<close>, which grows by \<open>LIST_ALLOC\<close>
  objects; a freed node is no longer in the store, so that a use after free is \<open>None\<close>, like a failed
  assertion. Each function runs under the list's mutex and is one step here. Calls of the deletion
  function \<open>fDel\<close> appear as the list of the data it is applied to.
\<close>

subsection \<open>Data\<close>

record 'a list_node =
  ln_data :: 'a
  ln_next :: "nat option"

datatype slot = HeadSlot | NextSlot nat

record list_iter =
  li_pos :: "nat option"
  li_prev :: slot

record xlist =
  xl_head :: "nat option"
  xl_tail :: slot
  xl_iters :: "(nat \<times> list_iter) list"
  xl_fdel :: "nat option"
  xl_count :: int

record 'a list_heap =
  lh_nodes :: "nat \<Rightarrow> 'a list_node option"
  lh_free :: "nat list"
  lh_brk :: nat
  lh_iter_id :: nat

definition LIST_ALLOC :: nat where
  "LIST_ALLOC = 128"

definition list_heap_init :: "'a list_heap" where
  "list_heap_init = \<lparr>lh_nodes = (\<lambda>_. None), lh_free = [], lh_brk = 0, lh_iter_id = 0\<rparr>"

subsection \<open>Pointers to \<open>next\<close> fields and node allocation\<close>

fun slot_rd :: "'a list_heap \<Rightarrow> xlist \<Rightarrow> slot \<Rightarrow> nat option option" where
  "slot_rd h l HeadSlot = Some (xl_head l)"
| "slot_rd h l (NextSlot a) = map_option ln_next (lh_nodes h a)"

fun slot_wr :: "'a list_heap \<Rightarrow> xlist \<Rightarrow> slot \<Rightarrow> nat option \<Rightarrow> ('a list_heap \<times> xlist) option" where
  "slot_wr h l HeadSlot v = Some (h, l\<lparr>xl_head := v\<rparr>)"
| "slot_wr h l (NextSlot a) v = (case lh_nodes h a of
     None \<Rightarrow> None
   | Some n \<Rightarrow> Some (h\<lparr>lh_nodes := (lh_nodes h)(a \<mapsto> n\<lparr>ln_next := v\<rparr>)\<rparr>, l))"

text \<open>\<open>list_alloc_aux\<close> on the free list of nodes: an empty free list is refilled with a chunk of
  \<open>LIST_ALLOC\<close> new objects, linked in the order of their addresses.\<close>

definition list_node_alloc :: "'a list_heap \<Rightarrow> 'a list_heap \<times> nat" where
  "list_node_alloc h =
     (let h = (if lh_free h = []
               then h\<lparr>lh_free := [lh_brk h..<lh_brk h + LIST_ALLOC], lh_brk := lh_brk h + LIST_ALLOC\<rparr>
               else h)
      in (h\<lparr>lh_free := tl (lh_free h)\<rparr>, hd (lh_free h)))"

definition list_node_free :: "nat \<Rightarrow> 'a list_heap \<Rightarrow> 'a list_heap" where
  "list_node_free p h = h\<lparr>lh_nodes := (lh_nodes h)(p := None), lh_free := p # lh_free h\<rparr>"

subsection \<open>Inserting and removing a node\<close>

text \<open>The assertion at the end of both loops over the iterators: the iterator stands at the node
  its \<open>prev\<close> slot points to or at the one behind it.\<close>

definition iter_check :: "'a list_heap \<Rightarrow> xlist \<Rightarrow> list_iter \<Rightarrow> list_iter option" where
  "iter_check h l i = do {
     v \<leftarrow> slot_rd h l (li_prev i);
     (case v of
        None \<Rightarrow> if li_pos i = None then Some i else None
      | Some q \<Rightarrow> if li_pos i = Some q then Some i
          else do { n \<leftarrow> slot_rd h l (NextSlot q); if li_pos i = n then Some i else None })
   }"

definition iters_update ::
    "'a list_heap \<Rightarrow> (list_iter \<Rightarrow> list_iter) \<Rightarrow> xlist \<Rightarrow> xlist option" where
  "iters_update h f l = do {
     its \<leftarrow> those (map (\<lambda>(k, i). map_option (Pair k) (iter_check h l (f i))) (xl_iters l));
     Some (l\<lparr>xl_iters := its\<rparr>)
   }"

definition list_node_create :: "'a list_heap \<Rightarrow> xlist \<Rightarrow> slot \<Rightarrow> 'a \<Rightarrow> ('a list_heap \<times> xlist) option" where
  "list_node_create h l pp x = do {
     let (h, p) = list_node_alloc h;
     nx \<leftarrow> slot_rd h l pp;
     let h = h\<lparr>lh_nodes := (lh_nodes h)(p \<mapsto> \<lparr>ln_data = x, ln_next = nx\<rparr>)\<rparr>;
     let l = (if nx = None then l\<lparr>xl_tail := NextSlot p\<rparr> else l);
     (h, l) \<leftarrow> slot_wr h l pp (Some p);
     let l = l\<lparr>xl_count := xl_count l + 1\<rparr>;
     l \<leftarrow> iters_update h (\<lambda>i. if li_prev i = pp then i\<lparr>li_prev := NextSlot p\<rparr>
                              else if li_pos i = nx then i\<lparr>li_pos := Some p\<rparr> else i) l;
     Some (h, l)
   }"

text \<open>The result carries the removed data, \<open>None\<close> where the C function returns the null pointer.\<close>

definition list_node_destroy :: "'a list_heap \<Rightarrow> xlist \<Rightarrow> slot \<Rightarrow> ('a list_heap \<times> xlist \<times> 'a option) option" where
  "list_node_destroy h l pp = do {
     p \<leftarrow> slot_rd h l pp;
     (case p of
        None \<Rightarrow> Some (h, l, None)
      | Some p \<Rightarrow> do {
          n \<leftarrow> lh_nodes h p;
          (h, l) \<leftarrow> slot_wr h l pp (ln_next n);
          let l = (if ln_next n = None then l\<lparr>xl_tail := pp\<rparr> else l);
          let l = l\<lparr>xl_count := xl_count l - 1\<rparr>;
          l \<leftarrow> iters_update h (\<lambda>i. if li_pos i = Some p then i\<lparr>li_pos := ln_next n, li_prev := pp\<rparr>
                                   else if li_prev i = NextSlot p then i\<lparr>li_prev := pp\<rparr> else i) l;
          Some (list_node_free p h, l, Some (ln_data n))
        })
   }"

subsection \<open>Operations on a list\<close>

definition list_create :: "nat option \<Rightarrow> xlist" where
  "list_create f = \<lparr>xl_head = None, xl_tail = HeadSlot, xl_iters = [], xl_fdel = f, xl_count = 0\<rparr>"

text \<open>The loop of \<open>list_destroy\<close> over the nodes; the second result lists the data passed to \<open>fDel\<close>.\<close>

partial_function (option) destroy_loop ::
    "bool \<Rightarrow> 'a list_heap \<Rightarrow> nat option \<Rightarrow> ('a list_heap \<times> 'a list) option" where
  "destroy_loop fd h p = (case p of
     None \<Rightarrow> Some (h, [])
   | Some a \<Rightarrow> do {
       n \<leftarrow> lh_nodes h a;
       (h, ds) \<leftarrow> destroy_loop fd (list_node_free a h) (ln_next n);
       Some (h, if fd then ln_data n # ds else ds)
     })"

definition list_destroy :: "'a list_heap \<Rightarrow> xlist \<Rightarrow> ('a list_heap \<times> 'a list) option" where
  "list_destroy h l = destroy_loop (xl_fdel l \<noteq> None) h (xl_head l)"

definition list_is_empty :: "xlist \<Rightarrow> bool" where
  "list_is_empty l \<longleftrightarrow> xl_count l = 0"

definition list_count :: "xlist \<Rightarrow> int" where
  "list_count l = xl_count l"

definition list_append_locked :: "'a list_heap \<Rightarrow> xlist \<Rightarrow> 'a \<Rightarrow> ('a list_heap \<times> xlist) option" where
  "list_append_locked h l x = list_node_create h l (xl_tail l) x"

definition list_append :: "'a list_heap \<Rightarrow> xlist \<Rightarrow> 'a \<Rightarrow> ('a list_heap \<times> xlist) option" where
  "list_append h l x = list_append_locked h l x"

definition list_prepend :: "'a list_heap \<Rightarrow> xlist \<Rightarrow> 'a \<Rightarrow> ('a list_heap \<times> xlist) option" where
  "list_prepend h l x = list_node_create h l HeadSlot x"

definition list_push :: "'a list_heap \<Rightarrow> xlist \<Rightarrow> 'a \<Rightarrow> ('a list_heap \<times> xlist) option" where
  "list_push h l x = list_node_create h l HeadSlot x"

definition list_enqueue :: "'a list_heap \<Rightarrow> xlist \<Rightarrow> 'a \<Rightarrow> ('a list_heap \<times> xlist) option" where
  "list_enqueue h l x = list_node_create h l (xl_tail l) x"

definition list_pop_locked :: "'a list_heap \<Rightarrow> xlist \<Rightarrow> ('a list_heap \<times> xlist \<times> 'a option) option" where
  "list_pop_locked h l = list_node_destroy h l HeadSlot"

definition list_pop :: "'a list_heap \<Rightarrow> xlist \<Rightarrow> ('a list_heap \<times> xlist \<times> 'a option) option" where
  "list_pop h l = list_pop_locked h l"

definition list_dequeue :: "'a list_heap \<Rightarrow> xlist \<Rightarrow> ('a list_heap \<times> xlist \<times> 'a option) option" where
  "list_dequeue h l = list_node_destroy h l HeadSlot"

definition list_peek :: "'a list_heap \<Rightarrow> xlist \<Rightarrow> 'a option option" where
  "list_peek h l = (case xl_head l of None \<Rightarrow> Some None | Some a \<Rightarrow> map_option (Some \<circ> ln_data) (lh_nodes h a))"

partial_function (option) find_first_loop :: "('a \<Rightarrow> bool) \<Rightarrow> 'a list_heap \<Rightarrow> nat option \<Rightarrow> 'a option option" where
  "find_first_loop f h p = (case p of
     None \<Rightarrow> Some None
   | Some a \<Rightarrow> do {
       n \<leftarrow> lh_nodes h a;
       if f (ln_data n) then Some (Some (ln_data n)) else find_first_loop f h (ln_next n)
     })"

definition list_find_first :: "'a list_heap \<Rightarrow> xlist \<Rightarrow> ('a \<Rightarrow> bool) \<Rightarrow> 'a option option" where
  "list_find_first h l f = find_first_loop f h (xl_head l)"

text \<open>The callback of \<open>list_for_each\<close> works on its argument \<open>arg\<close> and returns an \<open>int\<close>.\<close>

partial_function (option) for_each_loop ::
    "('a \<Rightarrow> 's \<Rightarrow> int \<times> 's) \<Rightarrow> 'a list_heap \<Rightarrow> nat option \<Rightarrow> int \<Rightarrow> 's \<Rightarrow> (int \<times> 's) option" where
  "for_each_loop f h p n st = (case p of
     None \<Rightarrow> Some (n, st)
   | Some a \<Rightarrow> do {
       nd \<leftarrow> lh_nodes h a;
       (case f (ln_data nd) st of (rc, st) \<Rightarrow>
          if rc < 0 then Some (- (n + 1), st) else for_each_loop f h (ln_next nd) (n + 1) st)
     })"

definition list_for_each :: "'a list_heap \<Rightarrow> xlist \<Rightarrow> ('a \<Rightarrow> 's \<Rightarrow> int \<times> 's) \<Rightarrow> 's \<Rightarrow> (int \<times> 's) option" where
  "list_for_each h l f st = for_each_loop f h (xl_head l) 0 st"

text \<open>The loops of \<open>list_delete_all\<close> and \<open>list_flush\<close> keep a pointer to the \<open>next\<close> field before the
  node under test; the third result lists the data passed to \<open>fDel\<close>, the last one is \<open>n\<close>.\<close>

partial_function (option) delete_all_loop ::
    "('a \<Rightarrow> bool) \<Rightarrow> 'a list_heap \<Rightarrow> xlist \<Rightarrow> slot \<Rightarrow> 'a list \<Rightarrow> int \<Rightarrow> ('a list_heap \<times> xlist \<times> 'a list \<times> int) option" where
  "delete_all_loop f h l pp ds n = do {
     v \<leftarrow> slot_rd h l pp;
     (case v of
        None \<Rightarrow> Some (h, l, ds, n)
      | Some a \<Rightarrow> do {
          nd \<leftarrow> lh_nodes h a;
          if f (ln_data nd) then do {
            (h, l, v) \<leftarrow> list_node_destroy h l pp;
            (case v of
               None \<Rightarrow> delete_all_loop f h l pp ds n
             | Some v \<Rightarrow> delete_all_loop f h l pp (if xl_fdel l \<noteq> None then ds @ [v] else ds) (n + 1))
          } else delete_all_loop f h l (NextSlot a) ds n
        })
   }"

definition list_delete_all :: "'a list_heap \<Rightarrow> xlist \<Rightarrow> ('a \<Rightarrow> bool) \<Rightarrow> ('a list_heap \<times> xlist \<times> 'a list \<times> int) option" where
  "list_delete_all h l f = delete_all_loop f h l HeadSlot [] 0"

partial_function (option) flush_loop ::
    "'a list_heap \<Rightarrow> xlist \<Rightarrow> 'a list \<Rightarrow> int \<Rightarrow> ('a list_heap \<times> xlist \<times> 'a list \<times> int) option" where
  "flush_loop h l ds n = (case xl_head l of
     None \<Rightarrow> Some (h, l, ds, n)
   | Some a \<Rightarrow> do {
       (h, l, v) \<leftarrow> list_node_destroy h l HeadSlot;
       (case v of
          None \<Rightarrow> flush_loop h l ds n
        | Some v \<Rightarrow> flush_loop h l (if xl_fdel l \<noteq> None then ds @ [v] else ds) (n + 1))
     })"

definition list_flush :: "'a list_heap \<Rightarrow> xlist \<Rightarrow> ('a list_heap \<times> xlist \<times> 'a list \<times> int) option" where
  "list_flush h l = flush_loop h l [] 0"

text \<open>\<open>list_sort\<close> moves the data into an array, sorts it with the C library's \<open>qsort\<close>, the parameter
  \<open>qsort\<close> here, and appends it again; the iterators are set to the head.\<close>

partial_function (option) pop_all_loop ::
    "'a list_heap \<Rightarrow> xlist \<Rightarrow> 'a list \<Rightarrow> ('a list_heap \<times> xlist \<times> 'a list) option" where
  "pop_all_loop h l v = do {
     (h, l, e) \<leftarrow> list_pop_locked h l;
     (case e of None \<Rightarrow> Some (h, l, v) | Some e \<Rightarrow> pop_all_loop h l (v @ [e]))
   }"

fun append_array :: "'a list_heap \<Rightarrow> xlist \<Rightarrow> 'a list \<Rightarrow> ('a list_heap \<times> xlist) option" where
  "append_array h l [] = Some (h, l)"
| "append_array h l (x # v) = do { (h, l) \<leftarrow> list_append_locked h l x; append_array h l v }"

definition list_sort :: "('a list \<Rightarrow> 'a list) \<Rightarrow> 'a list_heap \<Rightarrow> xlist \<Rightarrow> ('a list_heap \<times> xlist) option" where
  "list_sort qsort h l =
     (if xl_count l \<le> 1 then Some (h, l)
      else do {
        let lsize = xl_count l;
        (h, l, v) \<leftarrow> pop_all_loop h l [];
        let v = qsort v;
        c_assert (lsize \<le> int (length v));
        (h, l) \<leftarrow> append_array h l (take (nat lsize) v);
        Some (h, l\<lparr>xl_iters := map (\<lambda>(k, i). (k, i\<lparr>li_pos := xl_head l, li_prev := HeadSlot\<rparr>)) (xl_iters l)\<rparr>)
      })"

subsection \<open>Iterators\<close>

text \<open>An iterator is named by a number; a number that is not on the list's chain is a destroyed
  iterator, whose magic no longer matches.\<close>

definition list_iterator_create :: "'a list_heap \<Rightarrow> xlist \<Rightarrow> 'a list_heap \<times> xlist \<times> nat" where
  "list_iterator_create h l =
     (h\<lparr>lh_iter_id := lh_iter_id h + 1\<rparr>,
      l\<lparr>xl_iters := (lh_iter_id h, \<lparr>li_pos = xl_head l, li_prev = HeadSlot\<rparr>) # xl_iters l\<rparr>,
      lh_iter_id h)"

definition iter_set :: "nat \<Rightarrow> list_iter \<Rightarrow> xlist \<Rightarrow> xlist" where
  "iter_set it i l = l\<lparr>xl_iters := map (\<lambda>(k, j). (k, if k = it then i else j)) (xl_iters l)\<rparr>"

definition list_iterator_reset :: "'a list_heap \<Rightarrow> xlist \<Rightarrow> nat \<Rightarrow> xlist option" where
  "list_iterator_reset h l it = do {
     i \<leftarrow> map_of (xl_iters l) it;
     Some (iter_set it (i\<lparr>li_pos := xl_head l, li_prev := HeadSlot\<rparr>) l)
   }"

fun iter_unlink :: "nat \<Rightarrow> (nat \<times> 'b) list \<Rightarrow> (nat \<times> 'b) list" where
  "iter_unlink it [] = []"
| "iter_unlink it ((k, i) # its) = (if k = it then its else (k, i) # iter_unlink it its)"

definition list_iterator_destroy :: "xlist \<Rightarrow> nat \<Rightarrow> xlist option" where
  "list_iterator_destroy l it = do {
     i \<leftarrow> map_of (xl_iters l) it;
     Some (l\<lparr>xl_iters := iter_unlink it (xl_iters l)\<rparr>)
   }"

definition list_next :: "'a list_heap \<Rightarrow> xlist \<Rightarrow> nat \<Rightarrow> (xlist \<times> 'a option) option" where
  "list_next h l it = do {
     i \<leftarrow> map_of (xl_iters l) it;
     let p = li_pos i;
     (i, v) \<leftarrow> (case p of
        None \<Rightarrow> Some (i, None)
      | Some a \<Rightarrow> do { n \<leftarrow> lh_nodes h a; Some (i\<lparr>li_pos := ln_next n\<rparr>, Some (ln_data n)) });
     q \<leftarrow> slot_rd h l (li_prev i);
     i \<leftarrow> (if q \<noteq> p then (case q of None \<Rightarrow> None | Some b \<Rightarrow> Some (i\<lparr>li_prev := NextSlot b\<rparr>)) else Some i);
     Some (iter_set it i l, v)
   }"

definition list_peek_next :: "'a list_heap \<Rightarrow> xlist \<Rightarrow> nat \<Rightarrow> 'a option option" where
  "list_peek_next h l it = do {
     i \<leftarrow> map_of (xl_iters l) it;
     (case li_pos i of None \<Rightarrow> Some None | Some a \<Rightarrow> map_option (Some \<circ> ln_data) (lh_nodes h a))
   }"

definition list_insert :: "'a list_heap \<Rightarrow> xlist \<Rightarrow> nat \<Rightarrow> 'a \<Rightarrow> ('a list_heap \<times> xlist) option" where
  "list_insert h l it x = do {
     i \<leftarrow> map_of (xl_iters l) it;
     list_node_create h l (li_prev i) x
   }"

partial_function (option) list_find :: "('a \<Rightarrow> bool) \<Rightarrow> 'a list_heap \<Rightarrow> xlist \<Rightarrow> nat \<Rightarrow> (xlist \<times> 'a option) option" where
  "list_find f h l it = do {
     (l, v) \<leftarrow> list_next h l it;
     (case v of None \<Rightarrow> Some (l, None) | Some x \<Rightarrow> if f x then Some (l, v) else list_find f h l it)
   }"

definition list_remove :: "'a list_heap \<Rightarrow> xlist \<Rightarrow> nat \<Rightarrow> ('a list_heap \<times> xlist \<times> 'a option) option" where
  "list_remove h l it = do {
     i \<leftarrow> map_of (xl_iters l) it;
     q \<leftarrow> slot_rd h l (li_prev i);
     if q \<noteq> li_pos i then list_node_destroy h l (li_prev i) else Some (h, l, None)
   }"

text \<open>The last two results are the data passed to \<open>fDel\<close> and the returned count.\<close>

definition list_delete_item :: "'a list_heap \<Rightarrow> xlist \<Rightarrow> nat \<Rightarrow> ('a list_heap \<times> xlist \<times> 'a list \<times> int) option" where
  "list_delete_item h l it = do {
     (h, l, v) \<leftarrow> list_remove h l it;
     Some (case v of
        None \<Rightarrow> (h, l, [], 0)
      | Some x \<Rightarrow> (h, l, if xl_fdel l \<noteq> None then [x] else [], 1))
   }"

subsection \<open>Operations on two lists\<close>

partial_function (option) append_list_loop ::
    "'a list_heap \<Rightarrow> xlist \<Rightarrow> xlist \<Rightarrow> nat \<Rightarrow> int \<Rightarrow> ('a list_heap \<times> xlist \<times> xlist \<times> int) option" where
  "append_list_loop h l sub it n = do {
     (sub, v) \<leftarrow> list_next h sub it;
     (case v of
        None \<Rightarrow> Some (h, l, sub, n)
      | Some x \<Rightarrow> do { (h, l) \<leftarrow> list_append h l x; append_list_loop h l sub it (n + 1) })
   }"

definition list_append_list :: "'a list_heap \<Rightarrow> xlist \<Rightarrow> xlist \<Rightarrow> ('a list_heap \<times> xlist \<times> xlist \<times> int) option" where
  "list_append_list h l sub = do {
     c_assert (xl_fdel l = None);
     let (h, sub, it) = list_iterator_create h sub;
     (h, l, sub, n) \<leftarrow> append_list_loop h l sub it 0;
     sub \<leftarrow> list_iterator_destroy sub it;
     Some (h, l, sub, n)
   }"

partial_function (option) transfer_loop ::
    "'a list_heap \<Rightarrow> xlist \<Rightarrow> xlist \<Rightarrow> int \<Rightarrow> ('a list_heap \<times> xlist \<times> xlist \<times> int) option" where
  "transfer_loop h l sub n = do {
     (h, sub, v) \<leftarrow> list_pop h sub;
     (case v of
        None \<Rightarrow> Some (h, l, sub, n)
      | Some x \<Rightarrow> do { (h, l) \<leftarrow> list_append h l x; transfer_loop h l sub (n + 1) })
   }"

definition list_transfer :: "'a list_heap \<Rightarrow> xlist \<Rightarrow> xlist \<Rightarrow> ('a list_heap \<times> xlist \<times> xlist \<times> int) option" where
  "list_transfer h l sub = do {
     c_assert (xl_fdel l = xl_fdel sub);
     transfer_loop h l sub 0
   }"

end
