(* ===== verification/List_Refine.thy ===== *)
theory List_Refine
  imports Slurm_List "HOL-Library.Multiset"
begin

section \<open>The list module implements an abstract list with iterator positions\<close>

text \<open>
  The representation of a HOL list by linked nodes, the lemmas that \<open>list_node_create\<close> and
  \<open>list_node_destroy\<close> keep it together with the positions of all iterators, the refinement of the
  specification by every sequence of operations, and the loops of the module. \<open>lview\<close> is the
  invariant; \<open>frames\<close> says which other lists an operation leaves alone.
\<close>

subsection \<open>Representation\<close>

text \<open>\<open>lrep h l as xs\<close>: the list \<open>l\<close> consists of the nodes at the distinct addresses \<open>as\<close>, which hold
  the data \<open>xs\<close>. \<open>slot_of as k\<close> is the slot that points to position \<open>k\<close>, \<open>addr_at as k\<close> the
  address there, null at the end. An iterator in the state \<open>(k, p)\<close> has its \<open>prev\<close> slot at position
  \<open>k\<close> and will return position \<open>p\<close>, which is \<open>k\<close> or \<open>k + 1\<close>.\<close>

definition addr_at :: "nat list \<Rightarrow> nat \<Rightarrow> nat option" where
  "addr_at as k = (if k < length as then Some (as ! k) else None)"

definition slot_of :: "nat list \<Rightarrow> nat \<Rightarrow> slot" where
  "slot_of as k = (if k = 0 then HeadSlot else NextSlot (as ! (k - 1)))"

definition heap_ok :: "'a list_heap \<Rightarrow> bool" where
  "heap_ok h \<longleftrightarrow> distinct (lh_free h) \<and> (\<forall>a \<in> set (lh_free h). a < lh_brk h \<and> lh_nodes h a = None) \<and>
     (\<forall>a \<ge> lh_brk h. lh_nodes h a = None)"

definition nodes_ok :: "'a list_heap \<Rightarrow> nat list \<Rightarrow> 'a list \<Rightarrow> bool" where
  "nodes_ok h as xs \<longleftrightarrow> length xs = length as \<and>
     (\<forall>k < length as. lh_nodes h (as ! k) = Some \<lparr>ln_data = xs ! k, ln_next = addr_at as (Suc k)\<rparr>)"

definition iter_ok :: "nat list \<Rightarrow> list_iter \<Rightarrow> nat \<times> nat \<Rightarrow> bool" where
  "iter_ok as i kp \<longleftrightarrow> li_prev i = slot_of as (fst kp) \<and> li_pos i = addr_at as (snd kp) \<and>
     fst kp \<le> length as \<and> snd kp \<le> length as \<and> (snd kp = fst kp \<or> snd kp = Suc (fst kp))"

definition lrep :: "'a list_heap \<Rightarrow> xlist \<Rightarrow> nat list \<Rightarrow> 'a list \<Rightarrow> (nat \<times> nat) list \<Rightarrow> bool" where
  "lrep h l as xs ks \<longleftrightarrow> heap_ok h \<and> distinct as \<and> nodes_ok h as xs \<and> xl_head l = addr_at as 0 \<and>
     xl_tail l = slot_of as (length as) \<and> xl_count l = int (length as) \<and>
     list_all2 (\<lambda>(_, i) kp. iter_ok as i kp) (xl_iters l) ks"

lemma addr_at_inj: "distinct as \<Longrightarrow> k \<le> length as \<Longrightarrow> m \<le> length as \<Longrightarrow> (addr_at as k = addr_at as m) = (k = m)"
  by (auto simp: addr_at_def nth_eq_iff_index_eq)

lemma slot_of_inj: "distinct as \<Longrightarrow> k \<le> length as \<Longrightarrow> m \<le> length as \<Longrightarrow> (slot_of as k = slot_of as m) = (k = m)"
  by (cases k; cases m) (auto simp: slot_of_def nth_eq_iff_index_eq)

lemma addr_at_None: "k \<le> length as \<Longrightarrow> (addr_at as k = None) = (k = length as)"
  by (auto simp: addr_at_def)

lemma slot_rd_at:
  assumes "nodes_ok h as xs" "xl_head l = addr_at as 0" "k \<le> length as"
  shows "slot_rd h l (slot_of as k) = Some (addr_at as k)"
  using assms by (cases k) (auto simp: slot_of_def nodes_ok_def)

lemma iter_check_ok:
  assumes "nodes_ok h as xs" "xl_head l = addr_at as 0" "iter_ok as i kp"
  shows "iter_check h l i = Some i"
proof -
  obtain k p where kp: "kp = (k, p)" by (cases kp) auto
  have i: "li_prev i = slot_of as k" "li_pos i = addr_at as p" "k \<le> length as" "p \<le> length as" "p = k \<or> p = Suc k"
    using assms(3) kp by (auto simp: iter_ok_def)
  have rd: "slot_rd h l (li_prev i) = Some (addr_at as k)" using slot_rd_at [OF assms(1,2) i(3)] i(1) by simp
  show ?thesis
  proof (cases "k < length as")
    case True
    have "slot_rd h l (NextSlot (as ! k)) = Some (addr_at as (Suc k))"
      using slot_rd_at [OF assms(1,2), of "Suc k"] True by (simp add: slot_of_def)
    then show ?thesis using rd i True by (auto simp: iter_check_def addr_at_def)
  next
    case False
    then show ?thesis using rd i by (auto simp: iter_check_def addr_at_def)
  qed
qed

lemma iters_update_ok:
  assumes "nodes_ok h as xs" "xl_head l = addr_at as 0"
    and "list_all2 (\<lambda>(_, i) kp. iter_ok as (f i) (g kp)) (xl_iters l) ks"
  shows "iters_update h f l = Some (l\<lparr>xl_iters := map (\<lambda>(k, i). (k, f i)) (xl_iters l)\<rparr>)"
    "list_all2 (\<lambda>(_, i) kp. iter_ok as i kp) (map (\<lambda>(k, i). (k, f i)) (xl_iters l)) (map g ks)"
proof -
  have "those (map (\<lambda>(k, i). map_option (Pair k) (iter_check h l (f i))) its) = Some (map (\<lambda>(k, i). (k, f i)) its)"
    if "list_all2 (\<lambda>(_, i) kp. iter_ok as (f i) (g kp)) its ks'" for its ks'
    using that
  proof (induction its ks' rule: list_all2_induct)
    case (Cons a its b ks')
    then show ?case using iter_check_ok [OF assms(1,2)] by (cases a) auto
  qed simp
  from this [OF assms(3)] show "iters_update h f l = Some (l\<lparr>xl_iters := map (\<lambda>(k, i). (k, f i)) (xl_iters l)\<rparr>)"
    by (simp add: iters_update_def)
  show "list_all2 (\<lambda>(_, i) kp. iter_ok as i kp) (map (\<lambda>(k, i). (k, f i)) (xl_iters l)) (map g ks)"
    using assms(3) by (simp add: list_all2_map1 list_all2_map2 split_def)
qed

lemma list_node_alloc_ok:
  assumes "heap_ok h" "list_node_alloc h = (h', p)"
  shows "heap_ok h'" "lh_nodes h' = lh_nodes h" "lh_nodes h p = None" "p < lh_brk h'" "p \<notin> set (lh_free h')" "lh_brk h \<le> lh_brk h'"
proof -
  define h1 where "h1 = (if lh_free h = []
      then h\<lparr>lh_free := [lh_brk h..<lh_brk h + LIST_ALLOC], lh_brk := lh_brk h + LIST_ALLOC\<rparr> else h)"
  have h1: "heap_ok h1" "lh_nodes h1 = lh_nodes h" "lh_free h1 \<noteq> []" "lh_brk h \<le> lh_brk h1"
    using assms(1) by (auto simp: h1_def heap_ok_def LIST_ALLOC_def)
  have e: "h' = h1\<lparr>lh_free := tl (lh_free h1)\<rparr>" "p = hd (lh_free h1)"
    using assms(2) by (auto simp: list_node_alloc_def h1_def Let_def)
  obtain q qs where q: "lh_free h1 = q # qs" using h1(3) by (cases "lh_free h1") auto
  show "heap_ok h'" "lh_nodes h' = lh_nodes h" "lh_nodes h p = None" "p < lh_brk h'" "p \<notin> set (lh_free h')" "lh_brk h \<le> lh_brk h'"
    using h1 q by (auto simp: e heap_ok_def)
qed

subsection \<open>Inserting and removing at a position\<close>

definition ins :: "nat \<Rightarrow> 'b \<Rightarrow> 'b list \<Rightarrow> 'b list" where
  "ins s x xs = take s xs @ x # drop s xs"

definition del :: "nat \<Rightarrow> 'b list \<Rightarrow> 'b list" where
  "del s xs = take s xs @ drop (Suc s) xs"

lemma ins_length [simp]: "s \<le> length xs \<Longrightarrow> length (ins s x xs) = Suc (length xs)"
  by (simp add: ins_def)

lemma del_length [simp]: "s < length xs \<Longrightarrow> length (del s xs) = length xs - 1"
  by (simp add: del_def)

lemma ins_nth: "s \<le> length xs \<Longrightarrow> k \<le> length xs \<Longrightarrow>
   ins s x xs ! k = (if k < s then xs ! k else if k = s then x else xs ! (k - 1))"
  by (auto simp: ins_def nth_append nth_Cons min_def split: nat.splits) (intro arg_cong [where f = "nth xs"], simp)

lemma del_nth: "s < length xs \<Longrightarrow> k < length xs - 1 \<Longrightarrow> del s xs ! k = (if k < s then xs ! k else xs ! Suc k)"
  by (auto simp: del_def nth_append min_def)

lemma ins_set: "s \<le> length xs \<Longrightarrow> set (ins s x xs) = insert x (set xs)"
  unfolding ins_def by (metis append_take_drop_id set_append list.simps(15) Un_insert_right)

lemma ins_distinct: "distinct xs \<Longrightarrow> x \<notin> set xs \<Longrightarrow> distinct (ins s x xs)"
  unfolding ins_def by (metis append_take_drop_id distinct_append distinct.simps(2) in_set_takeD in_set_dropD
      disjoint_insert(1) list.simps(15))

lemma del_distinct: "distinct xs \<Longrightarrow> distinct (del s xs)"
proof (cases "s < length xs")
  case True
  assume "distinct xs"
  moreover have "xs = take s xs @ xs ! s # drop (Suc s) xs" using True by (simp add: id_take_nth_drop)
  ultimately have "distinct (take s xs @ xs ! s # drop (Suc s) xs)" by simp
  then show ?thesis by (simp add: del_def)
qed (simp add: del_def)

lemma del_set: "distinct xs \<Longrightarrow> s < length xs \<Longrightarrow> set (del s xs) = set xs - {xs ! s}"
proof -
  assume d: "distinct xs" and s: "s < length xs"
  have x: "xs = take s xs @ xs ! s # drop (Suc s) xs" using s by (simp add: id_take_nth_drop)
  then have "distinct (take s xs @ xs ! s # drop (Suc s) xs)" using d by simp
  then have "xs ! s \<notin> set (take s xs @ drop (Suc s) xs)" by auto
  moreover have "set xs = insert (xs ! s) (set (take s xs @ drop (Suc s) xs))"
    by (subst x) auto
  ultimately show ?thesis by (auto simp: del_def)
qed

lemma addr_at_ins: "s \<le> length as \<Longrightarrow>
   addr_at (ins s p as) k = (if k < s then addr_at as k else if k = s then Some p else addr_at as (k - 1))"
  by (auto simp: addr_at_def ins_nth)

lemma slot_of_ins: "s \<le> length as \<Longrightarrow> k \<le> Suc (length as) \<Longrightarrow>
   slot_of (ins s p as) k = (if k \<le> s then slot_of as k else if k = Suc s then NextSlot p else slot_of as (k - 1))"
  by (auto simp: slot_of_def ins_nth)

lemma addr_at_del: "s < length as \<Longrightarrow> addr_at (del s as) k = (if k < s then addr_at as k else addr_at as (Suc k))"
  by (auto simp: addr_at_def del_nth)

lemma slot_of_del: "s < length as \<Longrightarrow> k < length as \<Longrightarrow>
   slot_of (del s as) k = (if k \<le> s then slot_of as k else slot_of as (Suc k))"
  by (auto simp: slot_of_def del_nth)

fun ins_iter :: "nat \<Rightarrow> nat \<times> nat \<Rightarrow> nat \<times> nat" where
  "ins_iter s (k, p) = (if s \<le> k then Suc k else k, if s < p \<or> (p = s \<and> k = s) then Suc p else p)"

fun del_iter :: "nat \<Rightarrow> nat \<times> nat \<Rightarrow> nat \<times> nat" where
  "del_iter s (k, p) = (if s < k then k - 1 else if p = s then s else k, if s < p then p - 1 else p)"

lemma list_node_create_sim:
  assumes rep: "lrep h l as xs ks" and s: "s \<le> length as"
  shows "\<exists>h' l' p. list_node_create h l (slot_of as s) x = Some (h', l') \<and>
    lrep h' l' (ins s p as) (ins s x xs) (map (ins_iter s) ks) \<and> lh_nodes h p = None \<and>
    (\<forall>a. a \<notin> set as \<and> a \<noteq> p \<longrightarrow> lh_nodes h' a = lh_nodes h a) \<and>
    xl_fdel l' = xl_fdel l \<and> map fst (xl_iters l') = map fst (xl_iters l) \<and> lh_iter_id h' = lh_iter_id h"
proof -
  have r: "heap_ok h" "distinct as" "nodes_ok h as xs" "xl_head l = addr_at as 0" "xl_tail l = slot_of as (length as)"
      "xl_count l = int (length as)" "list_all2 (\<lambda>(_, i) kp. iter_ok as i kp) (xl_iters l) ks"
    using rep by (auto simp: lrep_def)
  obtain h1 p where a: "list_node_alloc h = (h1, p)" by (cases "list_node_alloc h") auto
  note al = list_node_alloc_ok [OF r(1) a]
  have iid: "lh_iter_id h1 = lh_iter_id h" using a by (auto simp: list_node_alloc_def Let_def)
  have len: "length xs = length as" and nd: "\<And>k. k < length as \<Longrightarrow> lh_nodes h (as ! k) = Some \<lparr>ln_data = xs ! k, ln_next = addr_at as (Suc k)\<rparr>"
    using r(3) by (auto simp: nodes_ok_def)
  have pas: "p \<notin> set as" using al(3) nd by (metis in_set_conv_nth option.distinct(1))
  have rd: "slot_rd h1 l (slot_of as s) = Some (addr_at as s)"
    using slot_rd_at [of h1 as xs l s] r(3,4) s al(2) by (simp add: nodes_ok_def)
  define h2 where "h2 = h1\<lparr>lh_nodes := (lh_nodes h1)(p \<mapsto> \<lparr>ln_data = x, ln_next = addr_at as s\<rparr>)\<rparr>"
  define l2 where "l2 = (if addr_at as s = None then l\<lparr>xl_tail := NextSlot p\<rparr> else l)"
  define h3 where "h3 = (if s = 0 then h2 else h2\<lparr>lh_nodes := (lh_nodes h2)(as ! (s - 1) \<mapsto> \<lparr>ln_data = xs ! (s - 1), ln_next = Some p\<rparr>)\<rparr>)"
  define l3 where "l3 = (if s = 0 then l2\<lparr>xl_head := Some p\<rparr> else l2)"
  define l4 where "l4 = l3\<lparr>xl_count := xl_count l3 + 1\<rparr>"
  have prev: "as ! (s - 1) \<in> set as" if "s \<noteq> 0" using that s by simp
  have wr: "slot_wr h2 l2 (slot_of as s) (Some p) = Some (h3, l3)"
  proof (cases "s = 0")
    case True
    then show ?thesis by (simp add: slot_of_def h3_def l3_def)
  next
    case False
    have "as ! (s - 1) \<noteq> p" using prev [OF False] pas by auto
    then show ?thesis using False nd [of "s - 1"] s al(2) by (simp add: slot_of_def h3_def l3_def h2_def)
  qed
  have nodes3: "lh_nodes h3 b = (if b = p then Some \<lparr>ln_data = x, ln_next = addr_at as s\<rparr>
      else if s \<noteq> 0 \<and> b = as ! (s - 1) then Some \<lparr>ln_data = xs ! (s - 1), ln_next = Some p\<rparr> else lh_nodes h b)" for b
    using prev pas al(2) by (auto simp: h3_def h2_def)
  have heap3: "heap_ok h3"
  proof -
    have f3: "lh_free h3 = lh_free h1" "lh_brk h3 = lh_brk h1" by (simp_all add: h3_def h2_def)
    have "lh_nodes h3 b = None" if "lh_nodes h1 b = None" "b \<noteq> p" for b
      using that nodes3 [of b] nd [of "s - 1"] s al(2) by (cases "s = 0") auto
    moreover have "b \<noteq> p" if "b \<in> set (lh_free h1) \<or> b \<ge> lh_brk h1" for b using that al(4,5) by auto
    ultimately show ?thesis using al(1) unfolding heap_ok_def f3 by blast
  qed
  have ok3: "nodes_ok h3 (ins s p as) (ins s x xs)"
    unfolding nodes_ok_def
  proof (intro conjI allI impI)
    show "length (ins s x xs) = length (ins s p as)" using s len by simp
    fix k assume "k < length (ins s p as)"
    then have k: "k \<le> length as" using s by simp
    consider "k < s" "Suc k \<noteq> s" | "Suc k = s" | "k = s" | "s < k" by linarith
    then show "lh_nodes h3 (ins s p as ! k) = Some \<lparr>ln_data = ins s x xs ! k, ln_next = addr_at (ins s p as) (Suc k)\<rparr>"
    proof cases
      case 1
      then have "as ! k \<noteq> as ! (s - 1)" "as ! k \<noteq> p" using r(2) s pas by (auto simp: nth_eq_iff_index_eq)
      then show ?thesis using 1 s k len nd [of k] by (auto simp: ins_nth addr_at_ins nodes3)
    next
      case 2
      have b: "as ! k \<noteq> p" using 2 s pas by (metis Suc_le_eq nth_mem)
      have i: "ins s p as ! k = as ! k" "ins s x xs ! k = xs ! k" "addr_at (ins s p as) (Suc k) = Some p"
        using 2 s k len by (simp_all add: ins_nth addr_at_ins)
      have "s - 1 = k" "s \<noteq> 0" using 2 by simp_all
      then show ?thesis using b unfolding i by (simp add: nodes3 del: One_nat_def)
    next
      case 3
      then show ?thesis using s k len by (auto simp: ins_nth addr_at_ins nodes3)
    next
      case 4
      then have "k - 1 < length as" using k by simp
      then have "as ! (k - 1) \<noteq> p" using pas by (metis nth_mem)
      moreover have "s \<noteq> 0 \<longrightarrow> as ! (k - 1) \<noteq> as ! (s - 1)" using 4 s k r(2) by (auto simp: nth_eq_iff_index_eq)
      ultimately show ?thesis using 4 s k len nd [of "k - 1"] by (auto simp: ins_nth addr_at_ins nodes3)
    qed
  qed
  have head4: "xl_head l4 = addr_at (ins s p as) 0"
    using r(4) s by (auto simp: l4_def l3_def l2_def addr_at_ins)
  define f where "f = (\<lambda>i :: list_iter. if li_prev i = slot_of as s then i\<lparr>li_prev := NextSlot p\<rparr>
                              else if li_pos i = addr_at as s then i\<lparr>li_pos := Some p\<rparr> else i)"
  have its: "list_all2 (\<lambda>(_, i) kp. iter_ok (ins s p as) (f i) (ins_iter s kp)) (xl_iters l4) ks"
  proof -
    have "iter_ok (ins s p as) (f i) (ins_iter s kp)" if "iter_ok as i kp" for i kp
    proof -
      obtain k q where kq: "kp = (k, q)" by (cases kp) auto
      have i: "li_prev i = slot_of as k" "li_pos i = addr_at as q" "k \<le> length as" "q \<le> length as" "q = k \<or> q = Suc k"
        using that kq by (auto simp: iter_ok_def)
      have e: "(li_prev i = slot_of as s) = (k = s)" "(li_pos i = addr_at as s) = (q = s)"
        using i s r(2) by (auto simp: slot_of_inj addr_at_inj)
      show ?thesis
        using i s unfolding f_def e kq
        by (cases "k = s"; cases "q = s") (auto simp: iter_ok_def addr_at_ins slot_of_ins)
    qed
    moreover have "xl_iters l4 = xl_iters l" by (simp add: l4_def l3_def l2_def)
    ultimately show ?thesis using r(7) by (auto elim!: list_all2_mono)
  qed
  note upd = iters_update_ok [OF ok3 head4 its]
  have res: "list_node_create h l (slot_of as s) x = Some (h3, l4\<lparr>xl_iters := map (\<lambda>(k, i). (k, f i)) (xl_iters l4)\<rparr>)"
    unfolding list_node_create_def a using rd wr upd(1)
    by (simp add: Let_def h2_def [symmetric] l2_def [symmetric] l4_def [symmetric] f_def [symmetric])
  have tail: "xl_tail l4 = slot_of (ins s p as) (length (ins s p as))"
  proof (cases "s = length as")
    case True
    then show ?thesis using s by (simp add: l4_def l3_def l2_def addr_at_def slot_of_ins)
  next
    case False
    then show ?thesis using s r(5) by (auto simp: l4_def l3_def l2_def addr_at_def slot_of_ins)
  qed
  have "lrep h3 (l4\<lparr>xl_iters := map (\<lambda>(k, i). (k, f i)) (xl_iters l4)\<rparr>) (ins s p as) (ins s x xs) (map (ins_iter s) ks)"
    using heap3 ok3 head4 upd(2) tail ins_distinct [OF r(2) pas] r(6) s
    by (simp add: lrep_def l4_def l3_def l2_def)
  moreover have "\<forall>b. b \<notin> set as \<and> b \<noteq> p \<longrightarrow> lh_nodes h3 b = lh_nodes h b" using nodes3 prev by auto
  ultimately show ?thesis
    using res al(3) iid by (intro exI [of _ h3] exI [of _ "l4\<lparr>xl_iters := map (\<lambda>(k, i). (k, f i)) (xl_iters l4)\<rparr>"] exI [of _ p])
      (auto simp: l4_def l3_def l2_def h3_def h2_def split_def)
qed


lemma list_node_destroy_end:
  assumes "lrep h l as xs ks"
  shows "list_node_destroy h l (slot_of as (length as)) = Some (h, l, None)"
  using assms slot_rd_at [of h as xs l "length as"] by (simp add: lrep_def list_node_destroy_def addr_at_def)

lemma list_node_destroy_sim:
  assumes rep: "lrep h l as xs ks" and s: "s < length as"
  shows "\<exists>h' l'. list_node_destroy h l (slot_of as s) = Some (h', l', Some (xs ! s)) \<and>
    lrep h' l' (del s as) (del s xs) (map (del_iter s) ks) \<and>
    (\<forall>a. a \<notin> set as \<longrightarrow> lh_nodes h' a = lh_nodes h a) \<and>
    xl_fdel l' = xl_fdel l \<and> map fst (xl_iters l') = map fst (xl_iters l) \<and> lh_iter_id h' = lh_iter_id h"
proof -
  have r: "heap_ok h" "distinct as" "nodes_ok h as xs" "xl_head l = addr_at as 0" "xl_tail l = slot_of as (length as)"
      "xl_count l = int (length as)" "list_all2 (\<lambda>(_, i) kp. iter_ok as i kp) (xl_iters l) ks"
    using rep by (auto simp: lrep_def)
  define p where "p = as ! s"
  have len: "length xs = length as" and nd: "\<And>k. k < length as \<Longrightarrow> lh_nodes h (as ! k) = Some \<lparr>ln_data = xs ! k, ln_next = addr_at as (Suc k)\<rparr>"
    using r(3) by (auto simp: nodes_ok_def)
  have rd: "slot_rd h l (slot_of as s) = Some (Some p)"
    using slot_rd_at [OF r(3,4), of s] s by (simp add: addr_at_def p_def)
  have np: "lh_nodes h p = Some \<lparr>ln_data = xs ! s, ln_next = addr_at as (Suc s)\<rparr>" using nd [OF s] by (simp add: p_def)
  have neq: "as ! k \<noteq> p" if "k < length as" "k \<noteq> s" for k using that r(2) s by (simp add: p_def nth_eq_iff_index_eq)
  define h2 where "h2 = (if s = 0 then h else h\<lparr>lh_nodes := (lh_nodes h)(as ! (s - 1) \<mapsto> \<lparr>ln_data = xs ! (s - 1), ln_next = addr_at as (Suc s)\<rparr>)\<rparr>)"
  define l2 where "l2 = (if s = 0 then l\<lparr>xl_head := addr_at as (Suc s)\<rparr> else l)"
  have wr: "slot_wr h l (slot_of as s) (addr_at as (Suc s)) = Some (h2, l2)"
  proof (cases "s = 0")
    case True
    then show ?thesis by (simp add: slot_of_def h2_def l2_def)
  next
    case False
    then show ?thesis using nd [of "s - 1"] s by (simp add: slot_of_def h2_def l2_def)
  qed
  define l3 where "l3 = (if addr_at as (Suc s) = None then l2\<lparr>xl_tail := slot_of as s\<rparr> else l2)"
  define l4 where "l4 = l3\<lparr>xl_count := xl_count l3 - 1\<rparr>"
  have nodes2: "lh_nodes h2 b = (if s \<noteq> 0 \<and> b = as ! (s - 1) then Some \<lparr>ln_data = xs ! (s - 1), ln_next = addr_at as (Suc s)\<rparr> else lh_nodes h b)" for b
    by (simp add: h2_def)
  have ok2: "nodes_ok h2 (del s as) (del s xs)"
    unfolding nodes_ok_def
  proof (intro conjI allI impI)
    show "length (del s xs) = length (del s as)" using s len by simp
    fix k assume "k < length (del s as)"
    then have k: "k < length as - 1" using s by simp
    consider "k < s" "Suc k \<noteq> s" | "Suc k = s" | "s \<le> k" by linarith
    then show "lh_nodes h2 (del s as ! k) = Some \<lparr>ln_data = del s xs ! k, ln_next = addr_at (del s as) (Suc k)\<rparr>"
    proof cases
      case 1
      then have "as ! k \<noteq> as ! (s - 1)" using r(2) s by (auto simp: nth_eq_iff_index_eq)
      then show ?thesis using 1 s k len nd [of k] by (simp add: del_nth addr_at_del nodes2)
    next
      case 2
      have i: "del s as ! k = as ! k" "del s xs ! k = xs ! k" "addr_at (del s as) (Suc k) = addr_at as (Suc s)"
        using 2 s k len by (simp_all add: del_nth addr_at_del)
      have "s - 1 = k" "s \<noteq> 0" using 2 by simp_all
      then show ?thesis unfolding i by (simp add: nodes2 del: One_nat_def)
    next
      case 3
      have "s \<noteq> 0 \<longrightarrow> as ! Suc k \<noteq> as ! (s - 1)" using 3 s k r(2) by (auto simp: nth_eq_iff_index_eq)
      then show ?thesis using 3 s k len nd [of "Suc k"] by (auto simp: del_nth addr_at_del nodes2)
    qed
  qed
  have head4: "xl_head l4 = addr_at (del s as) 0" "xl_iters l4 = xl_iters l"
    using r(4) s by (auto simp: l4_def l3_def l2_def addr_at_del)
  define f where "f = (\<lambda>i :: list_iter. if li_pos i = Some p then i\<lparr>li_pos := addr_at as (Suc s), li_prev := slot_of as s\<rparr>
                                   else if li_prev i = NextSlot p then i\<lparr>li_prev := slot_of as s\<rparr> else i)"
  have its: "list_all2 (\<lambda>(_, i) kp. iter_ok (del s as) (f i) (del_iter s kp)) (xl_iters l4) ks"
  proof -
    have "iter_ok (del s as) (f i) (del_iter s kp)" if "iter_ok as i kp" for i kp
    proof -
      obtain k q where kq: "kp = (k, q)" by (cases kp) auto
      have i: "li_prev i = slot_of as k" "li_pos i = addr_at as q" "k \<le> length as" "q \<le> length as" "q = k \<or> q = Suc k"
        using that kq by (auto simp: iter_ok_def)
      have sp: "Some p = addr_at as s" "NextSlot p = slot_of as (Suc s)" using s by (simp_all add: addr_at_def slot_of_def p_def)
      have e: "(li_pos i = Some p) = (q = s)" "(li_prev i = NextSlot p) = (k = Suc s)"
        using i s r(2) unfolding sp by (auto simp: slot_of_inj addr_at_inj)
      show ?thesis
        using i s unfolding f_def e kq
        by (cases "q = s"; cases "k = Suc s") (auto simp: iter_ok_def addr_at_del slot_of_del)
    qed
    then show ?thesis using r(7) unfolding head4 by (auto elim!: list_all2_mono)
  qed
  note upd = iters_update_ok [OF ok2 head4(1) its]
  define h3 where "h3 = list_node_free p h2"
  define l5 where "l5 = l4\<lparr>xl_iters := map (\<lambda>(k, i). (k, f i)) (xl_iters l4)\<rparr>"
  have res: "list_node_destroy h l (slot_of as s) = Some (h3, l5, Some (xs ! s))"
    unfolding list_node_destroy_def rd using np wr upd(1)
    by (simp add: Let_def l3_def [symmetric] l4_def [symmetric] f_def [symmetric] h3_def l5_def cong: if_cong)
  have pd: "p \<notin> set (del s as)" using del_set [OF r(2) s] by (simp add: p_def)
  have ok3: "nodes_ok h3 (del s as) (del s xs)"
    using ok2 pd by (auto simp: nodes_ok_def h3_def list_node_free_def)
  have nodes3: "lh_nodes h3 b = None" if "lh_nodes h b = None" for b
    using that nodes2 [of b] nd [of "s - 1"] s by (auto simp: h3_def list_node_free_def)
  have heap3: "heap_ok h3"
  proof -
    have f3: "lh_free h3 = p # lh_free h" "lh_brk h3 = lh_brk h" "lh_nodes h3 p = None"
      by (simp_all add: h3_def h2_def list_node_free_def)
    have "p \<notin> set (lh_free h)" "p < lh_brk h" using r(1) np unfolding heap_ok_def by (metis option.distinct(1), metis not_le option.distinct(1))
    then show ?thesis using r(1) nodes3 f3(3) unfolding heap_ok_def f3(1,2) by simp
  qed
  have tail: "xl_tail l5 = slot_of (del s as) (length (del s as))"
  proof (cases "Suc s = length as")
    case True
    then have "length as - 1 = s" by simp
    then show ?thesis using True s by (simp add: l5_def l4_def l3_def l2_def addr_at_def slot_of_del)
  next
    case False
    then have "\<not> length as - 1 \<le> s" "Suc (length as - 1) = length as" using s by simp_all
    then show ?thesis using False s r(5) by (simp add: l5_def l4_def l3_def l2_def addr_at_def slot_of_del)
  qed
  have "lrep h3 l5 (del s as) (del s xs) (map (del_iter s) ks)"
    using heap3 ok3 head4(1) upd(2) tail del_distinct [OF r(2)] r(6) s
    by (simp add: lrep_def l5_def l4_def l3_def l2_def)
  moreover have "\<forall>b. b \<notin> set as \<longrightarrow> lh_nodes h3 b = lh_nodes h b"
  proof (intro allI impI)
    fix b assume b: "b \<notin> set as"
    then have "b \<noteq> p" "s \<noteq> 0 \<Longrightarrow> b \<noteq> as ! (s - 1)" using s by (auto simp: p_def)
    then show "lh_nodes h3 b = lh_nodes h b" using nodes2 [of b] by (auto simp: h3_def list_node_free_def)
  qed
  ultimately show ?thesis
    using res by (intro exI [of _ h3] exI [of _ l5]) (auto simp: l5_def l4_def l3_def l2_def h3_def h2_def list_node_free_def split_def)
qed

subsection \<open>The abstract list\<close>

text \<open>The specification: the data as a HOL list, and each iterator as its name and the position
  \<open>(k, p)\<close>. \<open>lview h l as A\<close>: the list \<open>l\<close> in the store \<open>h\<close>, with the nodes \<open>as\<close>, represents \<open>A\<close>.\<close>

record 'a alist =
  al_data :: "'a list"
  al_iters :: "(nat \<times> nat \<times> nat) list"

definition lview :: "'a list_heap \<Rightarrow> xlist \<Rightarrow> nat list \<Rightarrow> 'a alist \<Rightarrow> bool" where
  "lview h l as A \<longleftrightarrow> lrep h l as (al_data A) (map snd (al_iters A)) \<and> map fst (xl_iters l) = map fst (al_iters A) \<and>
     distinct (map fst (al_iters A)) \<and> (\<forall>k \<in> fst ` set (al_iters A). k < lh_iter_id h)"

definition a_ins :: "nat \<Rightarrow> 'a \<Rightarrow> 'a alist \<Rightarrow> 'a alist" where
  "a_ins s x A = \<lparr>al_data = ins s x (al_data A), al_iters = map (\<lambda>(k, kp). (k, ins_iter s kp)) (al_iters A)\<rparr>"

definition a_del :: "nat \<Rightarrow> 'a alist \<Rightarrow> 'a alist" where
  "a_del s A = \<lparr>al_data = del s (al_data A), al_iters = map (\<lambda>(k, kp). (k, del_iter s kp)) (al_iters A)\<rparr>"

definition a_iter :: "nat \<Rightarrow> nat \<times> nat \<Rightarrow> 'a alist \<Rightarrow> 'a alist" where
  "a_iter it kp A = A\<lparr>al_iters := map (\<lambda>(k, j). (k, if k = it then kp else j)) (al_iters A)\<rparr>"

definition frames :: "'a list_heap \<Rightarrow> nat list \<Rightarrow> 'a list_heap \<Rightarrow> nat list \<Rightarrow> bool" where
  "frames h as h' as' \<longleftrightarrow> heap_ok h' \<and> (\<forall>a. a \<notin> set as \<and> lh_nodes h a \<noteq> None \<longrightarrow> lh_nodes h' a = lh_nodes h a) \<and>
     (\<forall>a \<in> set as'. a \<in> set as \<or> lh_nodes h a = None) \<and> lh_iter_id h' = lh_iter_id h"

lemma lview_lrep: "lview h l as A \<Longrightarrow> lrep h l as (al_data A) (map snd (al_iters A))"
  by (simp add: lview_def)

lemma lview_length: "lview h l as A \<Longrightarrow> length as = length (al_data A)"
  by (simp add: lview_def lrep_def nodes_ok_def)

lemma lview_frame:
  assumes "frames h as h' as'" "lview h l2 as2 B" "set as \<inter> set as2 = {}"
  shows "lview h' l2 as2 B" "set as' \<inter> set as2 = {}"
proof -
  have r: "nodes_ok h as2 (al_data B)" using assms(2) by (simp add: lview_def lrep_def)
  have n: "lh_nodes h a \<noteq> None" if "a \<in> set as2" for a
    using r that unfolding nodes_ok_def in_set_conv_nth by auto
  then have "nodes_ok h' as2 (al_data B)"
    using r assms(1,3) unfolding nodes_ok_def frames_def by (metis disjoint_iff nth_mem)
  then show "lview h' l2 as2 B"
    using assms by (simp add: lview_def lrep_def frames_def)
  show "set as' \<inter> set as2 = {}" using assms(1,3) n unfolding frames_def by blast
qed

lemma create_view:
  assumes "lview h l as A" "s \<le> length (al_data A)"
  obtains h' l' p where "list_node_create h l (slot_of as s) x = Some (h', l')" "lview h' l' (ins s p as) (a_ins s x A)"
    "frames h as h' (ins s p as)" "xl_fdel l' = xl_fdel l"
proof -
  have s: "s \<le> length as" using assms lview_length by metis
  from list_node_create_sim [OF lview_lrep [OF assms(1)] s, of x]
  obtain h' l' p where c: "list_node_create h l (slot_of as s) x = Some (h', l')"
      "lrep h' l' (ins s p as) (ins s x (al_data A)) (map (ins_iter s) (map snd (al_iters A)))" "lh_nodes h p = None"
      "\<forall>a. a \<notin> set as \<and> a \<noteq> p \<longrightarrow> lh_nodes h' a = lh_nodes h a" "xl_fdel l' = xl_fdel l"
      "map fst (xl_iters l') = map fst (xl_iters l)" "lh_iter_id h' = lh_iter_id h"
    by (elim exE conjE) (rule that; assumption)
  have "lview h' l' (ins s p as) (a_ins s x A)"
    using assms(1) c(2,6,7) by (auto simp: lview_def a_ins_def split_def comp_def image_iff)
  moreover have "frames h as h' (ins s p as)"
    using c(2,3,4,7) s by (auto simp: frames_def lrep_def ins_set)
  ultimately show thesis using c that by blast
qed

lemma destroy_view:
  assumes "lview h l as A" "s < length (al_data A)"
  obtains h' l' where "list_node_destroy h l (slot_of as s) = Some (h', l', Some (al_data A ! s))"
    "lview h' l' (del s as) (a_del s A)" "frames h as h' (del s as)" "xl_fdel l' = xl_fdel l"
proof -
  have s: "s < length as" using assms lview_length by metis
  from list_node_destroy_sim [OF lview_lrep [OF assms(1)] s]
  obtain h' l' where c: "list_node_destroy h l (slot_of as s) = Some (h', l', Some (al_data A ! s))"
      "lrep h' l' (del s as) (del s (al_data A)) (map (del_iter s) (map snd (al_iters A)))"
      "\<forall>a. a \<notin> set as \<longrightarrow> lh_nodes h' a = lh_nodes h a" "xl_fdel l' = xl_fdel l"
      "map fst (xl_iters l') = map fst (xl_iters l)" "lh_iter_id h' = lh_iter_id h"
    by (elim exE conjE) (rule that; assumption)
  have "lview h' l' (del s as) (a_del s A)"
    using assms(1) c(2,5,6) by (auto simp: lview_def a_del_def split_def comp_def image_iff)
  moreover have "frames h as h' (del s as)"
    using c(2,3,6) by (auto simp: frames_def lrep_def del_def dest: in_set_takeD in_set_dropD)
  ultimately show thesis using c that by blast
qed

lemma slot_of_0 [simp]: "slot_of as 0 = HeadSlot"
  by (simp add: slot_of_def)

lemma destroy_view_end: "lview h l as A \<Longrightarrow> s = length (al_data A) \<Longrightarrow> list_node_destroy h l (slot_of as s) = Some (h, l, None)"
  using list_node_destroy_end [of h l as "al_data A" "map snd (al_iters A)"] lview_length [of h l as A] by (simp add: lview_def)

lemma view_nodes:
  assumes "lview h l as A"
  shows "k < length (al_data A) \<Longrightarrow> lh_nodes h (as ! k) = Some \<lparr>ln_data = al_data A ! k, ln_next = addr_at as (Suc k)\<rparr>"
    "xl_head l = addr_at as 0" "xl_tail l = slot_of as (length (al_data A))" "xl_count l = int (length (al_data A))"
    "k \<le> length (al_data A) \<Longrightarrow> slot_rd h l (slot_of as k) = Some (addr_at as k)"
    "heap_ok h" "distinct as"
  using assms slot_rd_at [of h as "al_data A" l k] lview_length [OF assms] by (auto simp: lview_def lrep_def nodes_ok_def)

lemma view_addr: "lview h l as A \<Longrightarrow> addr_at as k = (if k < length (al_data A) then Some (as ! k) else None)"
  by (simp add: addr_at_def lview_length)

lemma view_iter:
  assumes "lview h l as A"
  shows "map_of (al_iters A) it = Some kp \<Longrightarrow> \<exists>i. map_of (xl_iters l) it = Some i \<and> iter_ok as i kp"
    "map_of (al_iters A) it = None \<Longrightarrow> map_of (xl_iters l) it = None"
proof -
  have "list_all2 (\<lambda>(_, i) kp. iter_ok as i kp) xi (map snd ai) \<Longrightarrow> map fst xi = map fst ai \<Longrightarrow>
    (map_of ai it = Some kp \<longrightarrow> (\<exists>i. map_of xi it = Some i \<and> iter_ok as i kp)) \<and> (map_of ai it = None \<longrightarrow> map_of xi it = None)"
    for xi :: "(nat \<times> list_iter) list" and ai
    by (induction xi ai rule: list_induct2') auto
  from this [of "xl_iters l" "al_iters A"] assms
  show "map_of (al_iters A) it = Some kp \<Longrightarrow> \<exists>i. map_of (xl_iters l) it = Some i \<and> iter_ok as i kp"
    "map_of (al_iters A) it = None \<Longrightarrow> map_of (xl_iters l) it = None"
    by (auto simp: lview_def lrep_def)
qed

lemma view_iter_pos:
  assumes "lview h l as A" "map_of (al_iters A) it = Some (k, p)"
  obtains i where "map_of (xl_iters l) it = Some i" "li_prev i = slot_of as k" "li_pos i = addr_at as p"
    "k \<le> length (al_data A)" "p \<le> length (al_data A)" "p = k \<or> p = Suc k"
  using view_iter(1) [OF assms] lview_length [OF assms(1)] that by (auto simp: iter_ok_def)

lemma view_iter_set:
  assumes "lview h l as A" "iter_ok as i kp"
  shows "lview h (iter_set it i l) as (a_iter it kp A)"
proof -
  have "list_all2 (\<lambda>(_, i) kp. iter_ok as i kp) xi (map snd ai) \<Longrightarrow> map fst xi = map fst ai \<Longrightarrow>
    list_all2 (\<lambda>(_, i) kp. iter_ok as i kp) (map (\<lambda>(k, j). (k, if k = it then i else j)) xi)
      (map (\<lambda>x. snd (case x of (k, j) \<Rightarrow> (k, if k = it then kp else j))) ai)" for xi :: "(nat \<times> list_iter) list" and ai
    using assms(2) by (induction xi ai rule: list_induct2') auto
  from this [of "xl_iters l" "al_iters A"] assms(1)
  show ?thesis by (auto simp: lview_def lrep_def iter_set_def a_iter_def split_def comp_def)
qed

lemma list_next_view:
  assumes "lview h l as A" "map_of (al_iters A) it = Some (k, p)"
  shows "\<exists>l'. list_next h l it = Some (l', if p < length (al_data A) then Some (al_data A ! p) else None) \<and>
    lview h l' as (a_iter it (p, min (Suc p) (length (al_data A))) A) \<and> xl_fdel l' = xl_fdel l"
proof -
  obtain i where i: "map_of (xl_iters l) it = Some i" "li_prev i = slot_of as k" "li_pos i = addr_at as p"
    "k \<le> length (al_data A)" "p \<le> length (al_data A)" "p = k \<or> p = Suc k"
    by (rule view_iter_pos [OF assms])
  note v = view_nodes [OF assms(1)]
  note len = lview_length [OF assms(1)]
  have e: "(addr_at as k \<noteq> addr_at as p) = (p = Suc k)"
    using i(4-6) v(7) by (auto simp: addr_at_inj len)
  have sl: "NextSlot (as ! k) = slot_of as (Suc k)" by (simp add: slot_of_def)
  define i' where "i' = i\<lparr>li_pos := addr_at as (min (Suc p) (length (al_data A))), li_prev := slot_of as p\<rparr>"
  have ok: "iter_ok as i' (p, min (Suc p) (length (al_data A)))"
    using i(5) by (auto simp: iter_ok_def i'_def len)
  have "list_next h l it = Some (iter_set it i' l, if p < length (al_data A) then Some (al_data A ! p) else None)"
  proof (cases "p < length (al_data A)")
    case True
    then have p: "addr_at as p = Some (as ! p)" by (simp add: addr_at_def len)
    have nx: "lh_nodes h (as ! p) = Some \<lparr>ln_data = al_data A ! p, ln_next = addr_at as (Suc p)\<rparr>" using v(1) True by simp
    have ak: "k < length (al_data A)" "addr_at as k = Some (as ! k)" using True i(6) by (auto simp: addr_at_def len)
    have upd: "i\<lparr>li_pos := q, li_prev := slot_of as k\<rparr> = i\<lparr>li_pos := q\<rparr>" for q using i(2) by (cases i) simp
    show ?thesis
      using i(1-3,6) p nx ak e v(5) [of k] True sl
      by (cases "p = k") (auto simp: list_next_def Let_def i'_def upd)
  next
    case False
    then have p: "addr_at as p = None" "p = length (al_data A)" using i(5) by (auto simp: addr_at_def len)
    have "i' = (if p = k then i else i\<lparr>li_prev := slot_of as p\<rparr>)" using p i(2,3) by (cases i) (auto simp: i'_def)
    moreover have "addr_at as k = Some (as ! k)" if "p = Suc k" using that p by (simp add: addr_at_def len)
    ultimately show ?thesis
      using i(1-3,6) p e v(5) [of k] i(4) sl by (cases "p = k") (auto simp: list_next_def Let_def)
  qed
  then show ?thesis using view_iter_set [OF assms(1) ok] by (simp add: iter_set_def)
qed

subsection \<open>Sequences of operations\<close>

datatype 'a list_op = LAppend 'a | LPrepend 'a | LPush 'a | LEnqueue 'a | LPop | LDequeue | LPeek | LCount | LIterNew | LReset nat
  | LDestroy nat | LNext nat | LPeekNext nat | LInsert nat 'a | LRemove nat

datatype 'a list_res = RUnit | RData "'a option" | RNum int

fun run_op :: "'a list_op \<Rightarrow> 'a list_heap \<Rightarrow> xlist \<Rightarrow> ('a list_heap \<times> xlist \<times> 'a list_res) option" where
  "run_op (LAppend x) h l = do { (h, l) \<leftarrow> list_append h l x; Some (h, l, RData (Some x)) }"
| "run_op (LPrepend x) h l = do { (h, l) \<leftarrow> list_prepend h l x; Some (h, l, RData (Some x)) }"
| "run_op (LPush x) h l = do { (h, l) \<leftarrow> list_push h l x; Some (h, l, RData (Some x)) }"
| "run_op (LEnqueue x) h l = do { (h, l) \<leftarrow> list_enqueue h l x; Some (h, l, RData (Some x)) }"
| "run_op LPop h l = do { (h, l, v) \<leftarrow> list_pop h l; Some (h, l, RData v) }"
| "run_op LDequeue h l = do { (h, l, v) \<leftarrow> list_dequeue h l; Some (h, l, RData v) }"
| "run_op LPeek h l = do { v \<leftarrow> list_peek h l; Some (h, l, RData v) }"
| "run_op LCount h l = Some (h, l, RNum (list_count l))"
| "run_op LIterNew h l = (case list_iterator_create h l of (h, l, it) \<Rightarrow> Some (h, l, RNum (int it)))"
| "run_op (LReset it) h l = do { l \<leftarrow> list_iterator_reset h l it; Some (h, l, RUnit) }"
| "run_op (LDestroy it) h l = do { l \<leftarrow> list_iterator_destroy l it; Some (h, l, RUnit) }"
| "run_op (LNext it) h l = do { (l, v) \<leftarrow> list_next h l it; Some (h, l, RData v) }"
| "run_op (LPeekNext it) h l = do { v \<leftarrow> list_peek_next h l it; Some (h, l, RData v) }"
| "run_op (LInsert it x) h l = do { (h, l) \<leftarrow> list_insert h l it x; Some (h, l, RData (Some x)) }"
| "run_op (LRemove it) h l = do { (h, l, v) \<leftarrow> list_remove h l it; Some (h, l, RData v) }"

fun run_ops :: "'a list_op list \<Rightarrow> 'a list_heap \<Rightarrow> xlist \<Rightarrow> 'a list_res list option" where
  "run_ops [] h l = Some []"
| "run_ops (c # cs) h l = do { (h, l, r) \<leftarrow> run_op c h l; rs \<leftarrow> run_ops cs h l; Some (r # rs) }"

text \<open>The specification of the same operations on the abstract list; \<open>n\<close> is the next iterator name.
  An iterator at \<open>(k, p)\<close> returns position \<open>p\<close> next; what it returned last is position \<open>k\<close> if
  \<open>k < p\<close>, and gone (or there was none) if \<open>k = p\<close>.\<close>

fun spec_op :: "'a list_op \<Rightarrow> 'a alist \<Rightarrow> nat \<Rightarrow> ('a alist \<times> nat \<times> 'a list_res) option" where
  "spec_op (LAppend x) A n = Some (a_ins (length (al_data A)) x A, n, RData (Some x))"
| "spec_op (LPrepend x) A n = Some (a_ins 0 x A, n, RData (Some x))"
| "spec_op (LPush x) A n = Some (a_ins 0 x A, n, RData (Some x))"
| "spec_op (LEnqueue x) A n = Some (a_ins (length (al_data A)) x A, n, RData (Some x))"
| "spec_op LPop A n = Some (if al_data A = [] then (A, n, RData None) else (a_del 0 A, n, RData (Some (hd (al_data A)))))"
| "spec_op LDequeue A n = Some (if al_data A = [] then (A, n, RData None) else (a_del 0 A, n, RData (Some (hd (al_data A)))))"
| "spec_op LPeek A n = Some (A, n, RData (if al_data A = [] then None else Some (hd (al_data A))))"
| "spec_op LCount A n = Some (A, n, RNum (int (length (al_data A))))"
| "spec_op LIterNew A n = Some (A\<lparr>al_iters := (n, 0, 0) # al_iters A\<rparr>, Suc n, RNum (int n))"
| "spec_op (LReset it) A n = do { _ \<leftarrow> map_of (al_iters A) it; Some (a_iter it (0, 0) A, n, RUnit) }"
| "spec_op (LDestroy it) A n = do { _ \<leftarrow> map_of (al_iters A) it; Some (A\<lparr>al_iters := filter (\<lambda>(k, _). k \<noteq> it) (al_iters A)\<rparr>, n, RUnit) }"
| "spec_op (LNext it) A n = do { (k, p) \<leftarrow> map_of (al_iters A) it;
     Some (a_iter it (p, min (Suc p) (length (al_data A))) A, n, RData (if p < length (al_data A) then Some (al_data A ! p) else None)) }"
| "spec_op (LPeekNext it) A n = do { (k, p) \<leftarrow> map_of (al_iters A) it;
     Some (A, n, RData (if p < length (al_data A) then Some (al_data A ! p) else None)) }"
| "spec_op (LInsert it x) A n = do { (k, p) \<leftarrow> map_of (al_iters A) it; Some (a_ins k x A, n, RData (Some x)) }"
| "spec_op (LRemove it) A n = do { (k, p) \<leftarrow> map_of (al_iters A) it;
     Some (if k < p then (a_del k A, n, RData (Some (al_data A ! k))) else (A, n, RData None)) }"

fun spec_ops :: "'a list_op list \<Rightarrow> 'a alist \<Rightarrow> nat \<Rightarrow> 'a list_res list option" where
  "spec_ops [] A n = Some []"
| "spec_ops (c # cs) A n = do { (A, n, r) \<leftarrow> spec_op c A n; rs \<leftarrow> spec_ops cs A n; Some (r # rs) }"

lemma iter_unlink_filter: "distinct (map fst xs) \<Longrightarrow> iter_unlink it xs = filter (\<lambda>(k, _). k \<noteq> it) xs"
proof (induction xs)
  case (Cons a xs)
  have "filter (\<lambda>(k, _). k \<noteq> it) xs = xs" if "it \<notin> fst ` set xs" using that by (force simp: filter_id_conv)
  with Cons show ?case by (cases a) auto
qed simp

lemma view_unlink:
  assumes "lview h l as A"
  shows "lview h (l\<lparr>xl_iters := iter_unlink it (xl_iters l)\<rparr>) as (A\<lparr>al_iters := filter (\<lambda>(k, _). k \<noteq> it) (al_iters A)\<rparr>)"
proof -
  have "list_all2 (\<lambda>(_, i) kp. iter_ok as i kp) xi (map snd ai) \<Longrightarrow> map fst xi = map fst ai \<Longrightarrow>
    list_all2 (\<lambda>(_, i) kp. iter_ok as i kp) (filter (\<lambda>(k, _). k \<noteq> it) xi) (map snd (filter (\<lambda>(k, _). k \<noteq> it) ai)) \<and>
    map fst (filter (\<lambda>(k, _). k \<noteq> it) xi) = map fst (filter (\<lambda>(k, _). k \<noteq> it) ai)" for xi :: "(nat \<times> list_iter) list" and ai
    by (induction xi ai rule: list_induct2') auto
  from this [of "xl_iters l" "al_iters A"] assms
  show ?thesis by (auto simp: lview_def lrep_def iter_unlink_filter distinct_map_filter)
qed

lemma create_iter_view:
  assumes "lview h l as A" "list_iterator_create h l = (h', l', it)"
  shows "lview h' l' as (A\<lparr>al_iters := (it, 0, 0) # al_iters A\<rparr>)" "it = lh_iter_id h" "lh_iter_id h' = Suc it"
    "frames (h\<lparr>lh_iter_id := Suc it\<rparr>) as h' as" "xl_fdel l' = xl_fdel l" "lh_nodes h' = lh_nodes h" "heap_ok h'"
  using assms by (auto simp: list_iterator_create_def lview_def lrep_def frames_def heap_ok_def nodes_ok_def iter_ok_def less_Suc_eq)

text \<open>One operation: the code does what the specification does, and fails an assertion only where
  the specification has no such iterator.\<close>

lemma run_op_sim:
  assumes v: "lview h l as A"
  shows "case spec_op c A (lh_iter_id h) of
      None \<Rightarrow> run_op c h l = None
    | Some (A', n, r) \<Rightarrow> \<exists>h' l' as'. run_op c h l = Some (h', l', r) \<and> lview h' l' as' A' \<and> lh_iter_id h' = n"
proof -
  let ?n = "length (al_data A)"
  note vn = view_nodes [OF v]
  have app: "\<exists>h' l' as'. list_node_create h l (slot_of as s) x = Some (h', l') \<and> lview h' l' as' (a_ins s x A) \<and> lh_iter_id h' = lh_iter_id h"
    if "s \<le> ?n" for s x using create_view [OF v that, of x] unfolding frames_def by metis
  have rem: "\<exists>h' l' as'. list_node_destroy h l (slot_of as s) = Some (h', l', Some (al_data A ! s)) \<and> lview h' l' as' (a_del s A) \<and> lh_iter_id h' = lh_iter_id h"
    if "s < ?n" for s using destroy_view [OF v that] unfolding frames_def by metis
  have rem0: "list_node_destroy h l HeadSlot = Some (h, l, None)" if "al_data A = []"
    using destroy_view_end [OF v, of 0] that by simp
  have it: "map_of (al_iters A) it = None \<or> (\<exists>k p i. map_of (al_iters A) it = Some (k, p) \<and> map_of (xl_iters l) it = Some i \<and>
      li_prev i = slot_of as k \<and> li_pos i = addr_at as p \<and> k \<le> ?n \<and> p \<le> ?n \<and> (p = k \<or> p = Suc k))" for it
  proof (cases "map_of (al_iters A) it")
    case (Some kp)
    then show ?thesis using view_iter_pos [OF v, of it "fst kp" "snd kp"] by (cases kp) auto
  qed simp
  note none = view_iter(2) [OF v]
  show ?thesis
  proof (cases c)
    case (LAppend x)
    then show ?thesis using app [of ?n x] vn(3) by (auto simp: list_append_def list_append_locked_def)
  next
    case (LPrepend x)
    then show ?thesis using app [of 0 x] by (auto simp: list_prepend_def)
  next
    case (LPush x)
    then show ?thesis using app [of 0 x] by (auto simp: list_push_def)
  next
    case (LEnqueue x)
    then show ?thesis using app [of ?n x] vn(3) by (auto simp: list_enqueue_def)
  next
    case LPop
    then show ?thesis using rem [of 0] rem0 v
      by (cases "al_data A = []") (auto simp: list_pop_def list_pop_locked_def hd_conv_nth)
  next
    case LDequeue
    then show ?thesis using rem [of 0] rem0 v
      by (cases "al_data A = []") (auto simp: list_dequeue_def hd_conv_nth)
  next
    case LPeek
    then show ?thesis using vn(1) [of 0] vn(2) v by (auto simp: list_peek_def view_addr [OF v] hd_conv_nth)
  next
    case LCount
    then show ?thesis using vn(4) v by (auto simp: list_count_def)
  next
    case LIterNew
    obtain h' l' m where m: "list_iterator_create h l = (h', l', m)" by (cases "list_iterator_create h l") auto
    note cv = create_iter_view [OF v m]
    show ?thesis using cv(1,3) cv(2) [symmetric] LIterNew m by auto
  next
    case (LReset t)
    have "iter_ok as (i\<lparr>li_pos := xl_head l, li_prev := HeadSlot\<rparr>) (0, 0)" for i :: list_iter using vn(2) by (simp add: iter_ok_def)
    note rs = view_iter_set [OF v this]
    show ?thesis using it [of t] none [of t] LReset by (auto simp: list_iterator_reset_def intro!: exI [of _ as] rs)
  next
    case (LDestroy t)
    then show ?thesis using it [of t] none [of t] view_unlink [OF v, of t] by (auto simp: list_iterator_destroy_def)
  next
    case (LNext t)
    have "list_next h l t = None" if "map_of (al_iters A) t = None" using none [OF that] by (simp add: list_next_def)
    then show ?thesis using it [of t] list_next_view [OF v, of t] LNext
      by (auto intro!: exI [of _ as])
  next
    case (LPeekNext t)
    then show ?thesis using it [of t] none [of t] vn(1) v
      by (auto simp: list_peek_next_def view_addr [OF v])
  next
    case (LInsert t x)
    from it [of t] show ?thesis
    proof
      assume "map_of (al_iters A) t = None"
      then show ?thesis using none [of t] LInsert by (simp add: list_insert_def)
    next
      assume "\<exists>k p i. map_of (al_iters A) t = Some (k, p) \<and> map_of (xl_iters l) t = Some i \<and>
        li_prev i = slot_of as k \<and> li_pos i = addr_at as p \<and> k \<le> ?n \<and> p \<le> ?n \<and> (p = k \<or> p = Suc k)"
      then obtain k p i where i: "map_of (al_iters A) t = Some (k, p)" "map_of (xl_iters l) t = Some i" "li_prev i = slot_of as k" "k \<le> ?n" by blast
      show ?thesis using app [OF i(4), of x] i LInsert by (auto simp: list_insert_def)
    qed
  next
    case (LRemove t)
    have "(addr_at as k \<noteq> addr_at as p) = (k < p)" if "k \<le> ?n" "p \<le> ?n" "p = k \<or> p = Suc k" for k p
      using that vn(7) lview_length [OF v] by (auto simp: addr_at_inj)
    then have rm: "list_remove h l t = (if k < p then list_node_destroy h l (slot_of as k) else Some (h, l, None))"
      if "map_of (xl_iters l) t = Some i" "li_prev i = slot_of as k" "li_pos i = addr_at as p" "k \<le> ?n" "p \<le> ?n" "p = k \<or> p = Suc k" for i k p
      using that vn(5) [of k] by (auto simp: list_remove_def)
    from it [of t] show ?thesis
    proof
      assume "map_of (al_iters A) t = None"
      then show ?thesis using none [of t] LRemove by (simp add: list_remove_def)
    next
      assume "\<exists>k p i. map_of (al_iters A) t = Some (k, p) \<and> map_of (xl_iters l) t = Some i \<and>
        li_prev i = slot_of as k \<and> li_pos i = addr_at as p \<and> k \<le> ?n \<and> p \<le> ?n \<and> (p = k \<or> p = Suc k)"
      then obtain k p i where i: "map_of (al_iters A) t = Some (k, p)" "map_of (xl_iters l) t = Some i"
        "li_prev i = slot_of as k" "li_pos i = addr_at as p" "k \<le> ?n" "p \<le> ?n" "p = k \<or> p = Suc k" by blast
      show ?thesis using rm [OF i(2-7)] rem [of k] i(1,6,7) v LRemove by (cases "k < p") auto
    qed
  qed
qed


lemma run_ops_sim:
  assumes "lview h l as A"
  shows "run_ops cs h l = spec_ops cs A (lh_iter_id h)"
  using assms
proof (induction cs arbitrary: h l as A)
  case (Cons c cs)
  show ?case
  proof (cases "spec_op c A (lh_iter_id h)")
    case None
    then show ?thesis using run_op_sim [OF Cons.prems, of c] by simp
  next
    case (Some r)
    obtain A' n x where r: "r = (A', n, x)" by (cases r) auto
    obtain h' l' as' where s: "run_op c h l = Some (h', l', x)" "lview h' l' as' A'" "lh_iter_id h' = n"
      using run_op_sim [OF Cons.prems, of c] Some r by auto
    then show ?thesis using Cons.IH [OF s(2)] Some r by simp
  qed
qed simp

lemma list_create_view: "heap_ok h \<Longrightarrow> lview h (list_create f) [] \<lparr>al_data = [], al_iters = []\<rparr>"
  by (simp add: lview_def lrep_def list_create_def nodes_ok_def addr_at_def)

lemma heap_init_ok: "heap_ok list_heap_init"
  by (simp add: heap_ok_def list_heap_init_def)

text \<open>C5 (refinement): every sequence of operations on a fresh list, with any number of iterators on
  it at the same time, gives exactly the results the specification gives; no assertion of the module
  fails and no freed node is used, unless the sequence uses an iterator that is not on the list.\<close>

theorem list_refines_spec:
  "run_ops cs list_heap_init (list_create f) = spec_ops cs \<lparr>al_data = [], al_iters = []\<rparr> 0"
proof -
  have "lh_iter_id list_heap_init = 0" by (simp add: list_heap_init_def)
  then show ?thesis using run_ops_sim [OF list_create_view [OF heap_init_ok], of cs f] by metis
qed

subsection \<open>Loops over a list\<close>

lemma find_first_walk:
  assumes "lview h l as A"
  shows "find_first_loop f h (addr_at as k) = Some (find f (drop k (al_data A)))"
proof (induction "length (al_data A) - k" arbitrary: k)
  case 0
  then show ?case by (subst find_first_loop.simps) (simp add: view_addr [OF assms])
next
  case (Suc m)
  then have k: "k < length (al_data A)" "m = length (al_data A) - Suc k" by simp_all
  have "drop k (al_data A) = al_data A ! k # drop (Suc k) (al_data A)" using k by (simp add: Cons_nth_drop_Suc)
  moreover have "addr_at as k = Some (as ! k)" using k by (simp add: view_addr [OF assms])
  ultimately show ?case using Suc.hyps(1) [OF k(2)] view_nodes(1) [OF assms k(1)]
    by (subst find_first_loop.simps) simp
qed

lemma list_find_first_eq: "lview h l as A \<Longrightarrow> list_find_first h l f = Some (find f (al_data A))"
  using find_first_walk [of h l as A f 0] by (simp add: list_find_first_def view_nodes(2))

fun for_each_spec :: "('a \<Rightarrow> 's \<Rightarrow> int \<times> 's) \<Rightarrow> 'a list \<Rightarrow> int \<Rightarrow> 's \<Rightarrow> int \<times> 's" where
  "for_each_spec f [] n st = (n, st)"
| "for_each_spec f (x # xs) n st = (case f x st of (rc, st) \<Rightarrow> if rc < 0 then (- (n + 1), st) else for_each_spec f xs (n + 1) st)"

lemma for_each_walk:
  assumes "lview h l as A"
  shows "for_each_loop f h (addr_at as k) n st = Some (for_each_spec f (drop k (al_data A)) n st)"
proof (induction "length (al_data A) - k" arbitrary: k n st)
  case 0
  then show ?case by (subst for_each_loop.simps) (simp add: view_addr [OF assms])
next
  case (Suc m)
  then have k: "k < length (al_data A)" "m = length (al_data A) - Suc k" by simp_all
  have "drop k (al_data A) = al_data A ! k # drop (Suc k) (al_data A)" using k by (simp add: Cons_nth_drop_Suc)
  moreover have "addr_at as k = Some (as ! k)" using k by (simp add: view_addr [OF assms])
  ultimately show ?case using Suc.hyps(1) [OF k(2)] view_nodes(1) [OF assms k(1)]
    by (subst for_each_loop.simps) (simp split: prod.split)
qed

lemma list_for_each_eq: "lview h l as A \<Longrightarrow> list_for_each h l f st = Some (for_each_spec f (al_data A) 0 st)"
  using for_each_walk [of h l as A f 0 0 st] by (simp add: list_for_each_def view_nodes(2))

lemma destroy_walk:
  assumes "heap_ok h" "distinct as" "nodes_ok h as xs"
  shows "\<exists>h'. destroy_loop fd h (addr_at as 0) = Some (h', if fd then xs else []) \<and> heap_ok h' \<and>
    lh_nodes h' = (\<lambda>a. if a \<in> set as then None else lh_nodes h a) \<and> lh_iter_id h' = lh_iter_id h \<and> lh_brk h' = lh_brk h"
  using assms
proof (induction as arbitrary: h xs)
  case Nil
  then show ?case by (subst destroy_loop.simps) (simp add: addr_at_def nodes_ok_def)
next
  case (Cons a as)
  obtain x ys where xs: "xs = x # ys" "length ys = length as" using Cons.prems(3) by (cases xs) (auto simp: nodes_ok_def)
  have n0: "lh_nodes h a = Some \<lparr>ln_data = x, ln_next = addr_at as 0\<rparr>"
    using Cons.prems(3) xs unfolding nodes_ok_def by (metis addr_at_def length_Cons nth_Cons_0 nth_Cons_Suc zero_less_Suc Suc_less_eq)
  let ?h = "list_node_free a h"
  have f: "a \<notin> set (lh_free h)" "a < lh_brk h" using Cons.prems(1) n0 unfolding heap_ok_def by (metis option.distinct(1), metis not_le option.distinct(1))
  have h1: "heap_ok ?h" using Cons.prems(1) f by (auto simp: heap_ok_def list_node_free_def)
  have "nodes_ok ?h as ys"
    unfolding nodes_ok_def
  proof (intro conjI allI impI)
    fix k assume k: "k < length as"
    then have "as ! k \<noteq> a" using Cons.prems(2) nth_mem by force
    then show "lh_nodes ?h (as ! k) = Some \<lparr>ln_data = ys ! k, ln_next = addr_at as (Suc k)\<rparr>"
      using Cons.prems(3) k xs by (auto simp: nodes_ok_def list_node_free_def addr_at_def)
  qed (use xs in simp)
  from Cons.IH [OF h1 _ this] Cons.prems(2)
  obtain h' where h': "destroy_loop fd ?h (addr_at as 0) = Some (h', if fd then ys else [])" "heap_ok h'"
      "lh_nodes h' = (\<lambda>b. if b \<in> set as then None else lh_nodes ?h b)" "lh_iter_id h' = lh_iter_id ?h" "lh_brk h' = lh_brk ?h"
    by auto
  then show ?case using n0 xs by (subst destroy_loop.simps) (auto simp: addr_at_def list_node_free_def)
qed

lemma list_destroy_eq:
  assumes "lview h l as A"
  shows "\<exists>h'. list_destroy h l = Some (h', if xl_fdel l \<noteq> None then al_data A else []) \<and> heap_ok h' \<and>
    lh_nodes h' = (\<lambda>a. if a \<in> set as then None else lh_nodes h a) \<and> frames h as h' []"
  using assms destroy_walk [of h as "al_data A" "xl_fdel l \<noteq> None"] view_nodes(2) [OF assms]
  by (auto simp: list_destroy_def lview_def lrep_def frames_def)

lemma frames_trans: "frames h as h1 as1 \<Longrightarrow> frames h1 as1 h2 as2 \<Longrightarrow> frames h as h2 as2"
  unfolding frames_def by metis

lemma frames_refl: "heap_ok h \<Longrightarrow> frames h as h as"
  by (simp add: frames_def)

lemma delete_all_walk:
  assumes "lview h l as A" "k \<le> length (al_data A)"
  shows "\<exists>h' l' as' A'. delete_all_loop f h l (slot_of as k) ds n =
      Some (h', l', ds @ (if xl_fdel l \<noteq> None then filter f (drop k (al_data A)) else []), n + int (length (filter f (drop k (al_data A))))) \<and>
    lview h' l' as' A' \<and> al_data A' = take k (al_data A) @ filter (\<lambda>x. \<not> f x) (drop k (al_data A)) \<and>
    map fst (al_iters A') = map fst (al_iters A) \<and> frames h as h' as' \<and> xl_fdel l' = xl_fdel l"
  using assms
proof (induction "length (al_data A) - k" arbitrary: h l as A k ds n)
  case 0
  then have k: "k = length (al_data A)" by simp
  then have "slot_rd h l (slot_of as k) = Some None" using view_nodes(5) [OF "0.prems"(1), of k] by (simp add: view_addr [OF "0.prems"(1)])
  then have "delete_all_loop f h l (slot_of as k) ds n = Some (h, l, ds, n)" by (subst delete_all_loop.simps) simp
  then show ?case using k "0.prems"(1) frames_refl [OF view_nodes(6) [OF "0.prems"(1)]]
    by (intro exI [of _ h] exI [of _ l] exI [of _ as] exI [of _ A]) simp
next
  case (Suc m)
  note v = Suc.prems(1)
  have k: "k < length (al_data A)" using Suc.hyps(2) by simp
  have d: "drop k (al_data A) = al_data A ! k # drop (Suc k) (al_data A)" using k by (simp add: Cons_nth_drop_Suc)
  have rd: "slot_rd h l (slot_of as k) = Some (Some (as ! k))"
    using view_nodes(5) [OF v, of k] k by (simp add: view_addr [OF v])
  note nd = view_nodes(1) [OF v k]
  show ?case
  proof (cases "f (al_data A ! k)")
    case False
    have m: "m = length (al_data A) - Suc k" "Suc k \<le> length (al_data A)" using Suc.hyps(2) by simp_all
    have e: "delete_all_loop f h l (slot_of as k) ds n = delete_all_loop f h l (slot_of as (Suc k)) ds n"
      using rd nd False by (subst delete_all_loop.simps) (simp add: slot_of_def)
    show ?thesis using Suc.hyps(1) [OF m(1) v m(2), of ds n] False k
      unfolding e d by (simp add: take_Suc_conv_app_nth split del: if_split cong: if_cong)
  next
    case True
    obtain h1 l1 where r: "list_node_destroy h l (slot_of as k) = Some (h1, l1, Some (al_data A ! k))"
        "lview h1 l1 (del k as) (a_del k A)" "frames h as h1 (del k as)" "xl_fdel l1 = xl_fdel l"
      by (rule destroy_view [OF v k])
    have da: "al_data (a_del k A) = del k (al_data A)" "drop k (del k (al_data A)) = drop (Suc k) (al_data A)"
        "take k (del k (al_data A)) = take k (al_data A)" "map fst (al_iters (a_del k A)) = map fst (al_iters A)"
      using k by (simp_all add: a_del_def del_def split_def comp_def)
    have m: "m = length (al_data (a_del k A)) - k" "k \<le> length (al_data (a_del k A))" using Suc.hyps(2) k by (simp_all add: da)
    have sl: "slot_of (del k as) k = slot_of as k" using k lview_length [OF v] by (simp add: slot_of_del)
    have e: "delete_all_loop f h l (slot_of as k) ds n =
       delete_all_loop f h1 l1 (slot_of (del k as) k) (if xl_fdel l1 \<noteq> None then ds @ [al_data A ! k] else ds) (n + 1)"
      unfolding sl using rd nd True r by (subst delete_all_loop.simps) simp
    obtain h' l' as' A' where i: "delete_all_loop f h1 l1 (slot_of (del k as) k) (if xl_fdel l1 \<noteq> None then ds @ [al_data A ! k] else ds) (n + 1) =
        Some (h', l', (if xl_fdel l1 \<noteq> None then ds @ [al_data A ! k] else ds) @ (if xl_fdel l1 \<noteq> None then filter f (drop (Suc k) (al_data A)) else []),
          n + 1 + int (length (filter f (drop (Suc k) (al_data A)))))"
      "lview h' l' as' A'" "al_data A' = take k (al_data A) @ filter (\<lambda>x. \<not> f x) (drop (Suc k) (al_data A))"
      "map fst (al_iters A') = map fst (al_iters A)" "frames h1 (del k as) h' as'" "xl_fdel l' = xl_fdel l1"
      using Suc.hyps(1) [OF m(1) r(2) m(2), of "if xl_fdel l1 \<noteq> None then ds @ [al_data A ! k] else ds" "n + 1"]
      unfolding da by (elim exE conjE) (rule that; assumption)
    show ?thesis using i frames_trans [OF r(3) i(5)] r(4) True unfolding e d
      by (intro exI [of _ h'] exI [of _ l'] exI [of _ as'] exI [of _ A']) auto
  qed
qed

lemma list_delete_all_eq:
  assumes "lview h l as A"
  obtains h' l' as' A' where "list_delete_all h l f = Some (h', l', if xl_fdel l \<noteq> None then filter f (al_data A) else [], int (length (filter f (al_data A))))"
    "lview h' l' as' A'" "al_data A' = filter (\<lambda>x. \<not> f x) (al_data A)" "map fst (al_iters A') = map fst (al_iters A)"
    "frames h as h' as'" "xl_fdel l' = xl_fdel l"
  using delete_all_walk [OF assms, of 0 f "[]" 0] that by (auto simp: list_delete_all_def)

lemma flush_walk:
  assumes "lview h l as A"
  shows "\<exists>h' l' A'. flush_loop h l ds n = Some (h', l', ds @ (if xl_fdel l \<noteq> None then al_data A else []), n + int (length (al_data A))) \<and>
    lview h' l' [] A' \<and> al_data A' = [] \<and> map fst (al_iters A') = map fst (al_iters A) \<and> frames h as h' [] \<and> xl_fdel l' = xl_fdel l"
  using assms
proof (induction "length (al_data A)" arbitrary: h l as A ds n)
  case 0
  then have "as = []" using lview_length by fastforce
  moreover have "flush_loop h l ds n = Some (h, l, ds, n)"
    using view_nodes(2) [OF "0.prems"] 0 by (subst flush_loop.simps) (simp add: view_addr [OF "0.prems"])
  ultimately show ?case using 0 frames_refl [OF view_nodes(6) [OF "0.prems"(1)]]
    by (intro exI [of _ h] exI [of _ l] exI [of _ A]) auto
next
  case (Suc m)
  note v = Suc.prems(1)
  have k: "0 < length (al_data A)" using Suc.hyps(2) by linarith
  then obtain x xs where x: "al_data A = x # xs" by (cases "al_data A") auto
  obtain h1 l1 where r: "list_node_destroy h l HeadSlot = Some (h1, l1, Some x)"
      "lview h1 l1 (del 0 as) (a_del 0 A)" "frames h as h1 (del 0 as)" "xl_fdel l1 = xl_fdel l"
    using destroy_view [OF v k] x by auto
  have da: "al_data (a_del 0 A) = xs" "map fst (al_iters (a_del 0 A)) = map fst (al_iters A)"
    using x by (simp_all add: a_del_def del_def split_def comp_def)
  have m: "m = length (al_data (a_del 0 A))" using Suc.hyps(2) x by (simp add: da)
  have e: "flush_loop h l ds n = flush_loop h1 l1 (if xl_fdel l1 \<noteq> None then ds @ [x] else ds) (n + 1)"
    using view_nodes(2) [OF v] k r by (subst flush_loop.simps) (simp add: view_addr [OF v])
  obtain h' l' A' where i: "flush_loop h1 l1 (if xl_fdel l1 \<noteq> None then ds @ [x] else ds) (n + 1) =
      Some (h', l', (if xl_fdel l1 \<noteq> None then ds @ [x] else ds) @ (if xl_fdel l1 \<noteq> None then xs else []), n + 1 + int (length xs))"
    "lview h' l' [] A'" "al_data A' = []" "map fst (al_iters A') = map fst (al_iters A)" "frames h1 (del 0 as) h' []" "xl_fdel l' = xl_fdel l1"
    using Suc.hyps(1) [OF m r(2), of "if xl_fdel l1 \<noteq> None then ds @ [x] else ds" "n + 1"]
    unfolding da by (elim exE conjE) (rule that; assumption)
  show ?case using i frames_trans [OF r(3) i(5)] r(4) x unfolding e
    by (intro exI [of _ h'] exI [of _ l'] exI [of _ A']) auto
qed

lemma pop_view:
  assumes "lview h l as A" "al_data A = x # xs"
  obtains h' l' where "list_node_destroy h l HeadSlot = Some (h', l', Some x)" "lview h' l' (del 0 as) (a_del 0 A)"
    "al_data (a_del 0 A) = xs" "frames h as h' (del 0 as)" "xl_fdel l' = xl_fdel l"
    "map fst (al_iters (a_del 0 A)) = map fst (al_iters A)"
proof -
  have k: "0 < length (al_data A)" using assms(2) by simp
  obtain h1 l1 where r: "list_node_destroy h l (slot_of as 0) = Some (h1, l1, Some (al_data A ! 0))"
      "lview h1 l1 (del 0 as) (a_del 0 A)" "frames h as h1 (del 0 as)" "xl_fdel l1 = xl_fdel l"
    by (rule destroy_view [OF assms(1) k])
  show thesis
    by (rule that [of h1 l1]) (use r assms(2) in \<open>simp_all add: a_del_def del_def split_def comp_def\<close>)
qed

lemma append_view:
  assumes "lview h l as A"
  obtains h' l' p where "list_append h l x = Some (h', l')" "lview h' l' (ins (length (al_data A)) p as) (a_ins (length (al_data A)) x A)"
    "al_data (a_ins (length (al_data A)) x A) = al_data A @ [x]" "frames h as h' (ins (length (al_data A)) p as)" "xl_fdel l' = xl_fdel l"
    "map fst (al_iters (a_ins (length (al_data A)) x A)) = map fst (al_iters A)"
proof -
  obtain h1 l1 p where r: "list_node_create h l (slot_of as (length (al_data A))) x = Some (h1, l1)"
      "lview h1 l1 (ins (length (al_data A)) p as) (a_ins (length (al_data A)) x A)"
      "frames h as h1 (ins (length (al_data A)) p as)" "xl_fdel l1 = xl_fdel l"
    by (rule create_view [OF assms order_refl])
  show thesis
    by (rule that [of h1 l1 p]) (use r view_nodes(3) [OF assms] in
      \<open>simp_all add: list_append_def list_append_locked_def a_ins_def ins_def split_def comp_def\<close>)
qed

lemma pop_all_walk:
  assumes "lview h l as A"
  shows "\<exists>h' l' A'. pop_all_loop h l v = Some (h', l', v @ al_data A) \<and>
    lview h' l' [] A' \<and> al_data A' = [] \<and> map fst (al_iters A') = map fst (al_iters A) \<and> frames h as h' [] \<and> xl_fdel l' = xl_fdel l"
  using assms
proof (induction "al_data A" arbitrary: h l as A v)
  case Nil
  then have "as = []" using lview_length [OF Nil.prems] by simp
  moreover have "pop_all_loop h l v = Some (h, l, v)"
    using destroy_view_end [OF Nil.prems, of 0] Nil.hyps by (subst pop_all_loop.simps) (simp add: list_pop_locked_def)
  ultimately show ?case using Nil frames_refl [OF view_nodes(6) [OF Nil.prems]]
    by (intro exI [of _ h] exI [of _ l] exI [of _ A]) auto
next
  case (Cons x xs)
  obtain h1 l1 where r: "list_node_destroy h l HeadSlot = Some (h1, l1, Some x)" "lview h1 l1 (del 0 as) (a_del 0 A)"
      "al_data (a_del 0 A) = xs" "frames h as h1 (del 0 as)" "xl_fdel l1 = xl_fdel l" "map fst (al_iters (a_del 0 A)) = map fst (al_iters A)"
    by (rule pop_view [OF Cons.prems Cons.hyps(2) [symmetric]])
  have e: "pop_all_loop h l v = pop_all_loop h1 l1 (v @ [x])"
    using r(1) by (subst pop_all_loop.simps) (simp add: list_pop_locked_def)
  obtain h' l' A' where i: "pop_all_loop h1 l1 (v @ [x]) = Some (h', l', (v @ [x]) @ xs)" "lview h' l' [] A'" "al_data A' = []"
      "map fst (al_iters A') = map fst (al_iters A)" "frames h1 (del 0 as) h' []" "xl_fdel l' = xl_fdel l1"
    using Cons.hyps(1) [OF r(3) [symmetric] r(2), of "v @ [x]"] unfolding r(3,6) by (elim exE conjE) (rule that; assumption)
  show ?case using i frames_trans [OF r(4) i(5)] r(5) Cons.hyps(2) [symmetric] unfolding e
    by (intro exI [of _ h'] exI [of _ l'] exI [of _ A']) simp
qed

lemma append_array_walk:
  assumes "lview h l as A"
  shows "\<exists>h' l' as' A'. append_array h l v = Some (h', l') \<and> lview h' l' as' A' \<and> al_data A' = al_data A @ v \<and>
    map fst (al_iters A') = map fst (al_iters A) \<and> frames h as h' as' \<and> xl_fdel l' = xl_fdel l"
  using assms
proof (induction v arbitrary: h l as A)
  case Nil
  then show ?case using frames_refl [OF view_nodes(6) [OF Nil.prems]] by auto
next
  case (Cons x v)
  let ?A = "a_ins (length (al_data A)) x A"
  obtain h1 l1 p where r: "list_append h l x = Some (h1, l1)" "lview h1 l1 (ins (length (al_data A)) p as) ?A"
      "al_data ?A = al_data A @ [x]" "frames h as h1 (ins (length (al_data A)) p as)" "xl_fdel l1 = xl_fdel l"
      "map fst (al_iters ?A) = map fst (al_iters A)"
    by (rule append_view [OF Cons.prems])
  obtain h' l' as' A' where i: "append_array h1 l1 v = Some (h', l')" "lview h' l' as' A'" "al_data A' = (al_data A @ [x]) @ v"
      "map fst (al_iters A') = map fst (al_iters A)" "frames h1 (ins (length (al_data A)) p as) h' as'" "xl_fdel l' = xl_fdel l1"
    using Cons.IH [OF r(2)] unfolding r(3,6) by (elim exE conjE) (rule that; assumption)
  show ?case using i frames_trans [OF r(4) i(5)] r(1,5)
    by (intro exI [of _ h'] exI [of _ l'] exI [of _ as'] exI [of _ A']) (simp add: list_append_def)
qed

lemma view_reset_all:
  assumes "lview h l as A"
  shows "lview h (l\<lparr>xl_iters := map (\<lambda>(k, i). (k, i\<lparr>li_pos := xl_head l, li_prev := HeadSlot\<rparr>)) (xl_iters l)\<rparr>) as
     (A\<lparr>al_iters := map (\<lambda>(k, _). (k, 0, 0)) (al_iters A)\<rparr>)"
proof -
  have "iter_ok as (i\<lparr>li_pos := xl_head l, li_prev := HeadSlot\<rparr>) (0, 0)" for i :: list_iter
    using view_nodes(2) [OF assms] by (simp add: iter_ok_def)
  moreover have "length (xl_iters l) = length (al_iters A)" using assms by (metis lview_def length_map)
  ultimately have "list_all2 (\<lambda>(_, i) kp. iter_ok as i kp)
      (map (\<lambda>(k, i). (k, i\<lparr>li_pos := xl_head l, li_prev := HeadSlot\<rparr>)) (xl_iters l))
      (map (\<lambda>_. (0, 0)) (al_iters A))"
    by (auto simp: list_all2_conv_all_nth split_def)
  then show ?thesis using assms by (auto simp: lview_def lrep_def split_def comp_def)
qed

lemma list_sort_eq:
  assumes "lview h l as A" "length (qsort (al_data A)) = length (al_data A)"
  shows "\<exists>h' l' as' A'. list_sort qsort h l = Some (h', l') \<and> lview h' l' as' A' \<and>
    al_data A' = (if length (al_data A) \<le> 1 then al_data A else qsort (al_data A)) \<and>
    (1 < length (al_data A) \<longrightarrow> (\<forall>(k, kp) \<in> set (al_iters A'). kp = (0, 0))) \<and>
    map fst (al_iters A') = map fst (al_iters A) \<and> frames h as h' as'"
proof (cases "length (al_data A) \<le> 1")
  case True
  then show ?thesis using assms(1) view_nodes(4) [OF assms(1)] frames_refl [OF view_nodes(6) [OF assms(1)]]
    by (intro exI [of _ h] exI [of _ l] exI [of _ as] exI [of _ A]) (simp add: list_sort_def)
next
  case False
  obtain h1 l1 A1 where p: "pop_all_loop h l [] = Some (h1, l1, al_data A)" "lview h1 l1 [] A1" "al_data A1 = []"
      "map fst (al_iters A1) = map fst (al_iters A)" "frames h as h1 []"
    using pop_all_walk [OF assms(1), of "[]"] by auto
  obtain h2 l2 as2 A2 where a: "append_array h1 l1 (qsort (al_data A)) = Some (h2, l2)" "lview h2 l2 as2 A2"
      "al_data A2 = qsort (al_data A)" "map fst (al_iters A2) = map fst (al_iters A)" "frames h1 [] h2 as2"
    using append_array_walk [OF p(2), of "qsort (al_data A)"] p(3,4) by auto
  let ?l = "l2\<lparr>xl_iters := map (\<lambda>(k, i). (k, i\<lparr>li_pos := xl_head l2, li_prev := HeadSlot\<rparr>)) (xl_iters l2)\<rparr>"
  have "list_sort qsort h l = Some (h2, ?l)"
    using False p(1) a(1) view_nodes(4) [OF assms(1)] assms(2) by (simp add: list_sort_def Let_def)
  then show ?thesis using False view_reset_all [OF a(2)] a(3,4) frames_trans [OF p(5) a(5)]
    by (intro exI [of _ h2] exI [of _ ?l] exI [of _ as2] exI [of _ "A2\<lparr>al_iters := map (\<lambda>(k, _). (k, 0, 0)) (al_iters A2)\<rparr>"])
       (auto simp: split_def comp_def)
qed

lemma a_iter_simps [simp]: "al_data (a_iter t kp A) = al_data A"
  "map_of (al_iters (a_iter t kp A)) u = (if u = t then map_option (\<lambda>_. kp) (map_of (al_iters A) t) else map_of (al_iters A) u)"
  "map fst (al_iters (a_iter t kp A)) = map fst (al_iters A)"
proof -
  have "map_of (map (\<lambda>(k, j). (k, if k = t then kp else j)) xs) u = (if u = t then map_option (\<lambda>_. kp) (map_of xs t) else map_of xs u)" for xs
    by (induction xs) auto
  then show "map_of (al_iters (a_iter t kp A)) u = (if u = t then map_option (\<lambda>_. kp) (map_of (al_iters A) t) else map_of (al_iters A) u)"
    by (simp add: a_iter_def)
qed (simp_all add: a_iter_def split_def comp_def)

lemma list_find_walk:
  assumes "lview h l as A" "map_of (al_iters A) t = Some (k, p)" "p \<le> length (al_data A)"
  shows "\<exists>l' k' p'. list_find f h l t = Some (l', find f (drop p (al_data A))) \<and>
    lview h l' as (a_iter t (k', p') A) \<and> xl_fdel l' = xl_fdel l"
  using assms
proof (induction "length (al_data A) - p" arbitrary: l A k p)
  case 0
  then have p: "p = length (al_data A)" by simp
  obtain l' where n: "list_next h l t = Some (l', None)" "lview h l' as (a_iter t (p, p) A)" "xl_fdel l' = xl_fdel l"
    using list_next_view [OF "0.prems"(1,2)] p by auto
  then show ?case using p by (subst list_find.simps) auto
next
  case (Suc m)
  then have p: "p < length (al_data A)" "Suc p \<le> length (al_data A)" by simp_all
  have d: "drop p (al_data A) = al_data A ! p # drop (Suc p) (al_data A)" using p by (simp add: Cons_nth_drop_Suc)
  obtain l1 where n: "list_next h l t = Some (l1, Some (al_data A ! p))" "lview h l1 as (a_iter t (p, Suc p) A)" "xl_fdel l1 = xl_fdel l"
    using list_next_view [OF Suc.prems(1,2)] p by (auto simp: min_def)
  show ?case
  proof (cases "f (al_data A ! p)")
    case True
    then show ?thesis using n d by (subst list_find.simps) auto
  next
    case False
    have aa: "a_iter t kp (a_iter t kq A) = a_iter t kp A" for kp kq by (simp add: a_iter_def split_def comp_def)
    have "\<exists>l' k' p'. list_find f h l1 t = Some (l', find f (drop (Suc p) (al_data A))) \<and>
        lview h l' as (a_iter t (k', p') A) \<and> xl_fdel l' = xl_fdel l1"
      using Suc.hyps(1) [OF _ n(2), of "Suc p" p] Suc.hyps(2) Suc.prems(2) p by (simp add: aa)
    then show ?thesis using n d False by (subst list_find.simps) simp
  qed
qed

lemma append_list_walk:
  assumes "lview h l as A" "lview h sub bs B" "set as \<inter> set bs = {}" "map_of (al_iters B) t = Some (k, p)" "p \<le> length (al_data B)"
  shows "\<exists>h' l' sub' as' A' kp. append_list_loop h l sub t n = Some (h', l', sub', n + int (length (al_data B) - p)) \<and>
    lview h' l' as' A' \<and> al_data A' = al_data A @ drop p (al_data B) \<and> map fst (al_iters A') = map fst (al_iters A) \<and>
    lview h' sub' bs (a_iter t kp B) \<and> set as' \<inter> set bs = {}"
  using assms
proof (induction "length (al_data B) - p" arbitrary: h l sub as A B k p n)
  case 0
  then have p: "p = length (al_data B)" by simp
  obtain sub' where s: "list_next h sub t = Some (sub', None)" "lview h sub' bs (a_iter t (p, p) B)"
    using list_next_view [OF "0.prems"(2,4)] p by auto
  then have "append_list_loop h l sub t n = Some (h, l, sub', n)" by (subst append_list_loop.simps) simp
  then show ?case using "0.prems"(1,3) s p
    by (intro exI [of _ h] exI [of _ l] exI [of _ sub'] exI [of _ as] exI [of _ A] exI [of _ "(p, p)"]) simp
next
  case (Suc m)
  let ?x = "al_data B ! p"
  let ?A = "a_ins (length (al_data A)) ?x A"
  have p: "p < length (al_data B)" "Suc p \<le> length (al_data B)" using Suc.hyps(2) by simp_all
  have d: "drop p (al_data B) = ?x # drop (Suc p) (al_data B)" using p by (simp add: Cons_nth_drop_Suc)
  obtain s1 where s: "list_next h sub t = Some (s1, Some ?x)" "lview h s1 bs (a_iter t (p, Suc p) B)"
    using list_next_view [OF Suc.prems(2,4)] p by (auto simp: min_def)
  obtain h1 l1 q where r: "list_append h l ?x = Some (h1, l1)" "lview h1 l1 (ins (length (al_data A)) q as) ?A"
      "al_data ?A = al_data A @ [?x]" "frames h as h1 (ins (length (al_data A)) q as)" "xl_fdel l1 = xl_fdel l"
      "map fst (al_iters ?A) = map fst (al_iters A)"
    by (rule append_view [OF Suc.prems(1)])
  note fr = lview_frame [OF r(4) s(2) Suc.prems(3)]
  have e: "append_list_loop h l sub t n = append_list_loop h1 l1 s1 t (n + 1)"
    using s(1) r(1) by (subst append_list_loop.simps) simp
  have aa: "a_iter t kp (a_iter t kq B) = a_iter t kp B" for kp kq by (simp add: a_iter_def split_def comp_def)
  have m: "m = length (al_data (a_iter t (p, Suc p) B)) - Suc p" "map_of (al_iters (a_iter t (p, Suc p) B)) t = Some (p, Suc p)"
      "Suc p \<le> length (al_data (a_iter t (p, Suc p) B))" using Suc.hyps(2) Suc.prems(4) p by simp_all
  obtain h' l' sub' as' A' kp where i: "append_list_loop h1 l1 s1 t (n + 1) = Some (h', l', sub', n + 1 + int (length (al_data B) - Suc p))"
      "lview h' l' as' A'" "al_data A' = (al_data A @ [?x]) @ drop (Suc p) (al_data B)" "map fst (al_iters A') = map fst (al_iters A)"
      "lview h' sub' bs (a_iter t kp B)" "set as' \<inter> set bs = {}"
    using Suc.hyps(1) [OF m(1) r(2) fr m(2,3), of "n + 1"] unfolding r(3,6) a_iter_simps(1) aa
    by (elim exE conjE) (rule that; assumption)
  show ?case using i d p unfolding e
    by (intro exI [of _ h'] exI [of _ l'] exI [of _ sub'] exI [of _ as'] exI [of _ A'] exI [of _ kp]) simp
qed

lemma list_append_list_eq:
  assumes v: "lview h l as A" "lview h sub bs B" "set as \<inter> set bs = {}" and f: "xl_fdel l = None"
  shows "\<exists>h' l' sub' as' A'. list_append_list h l sub = Some (h', l', sub', int (length (al_data B))) \<and>
    lview h' l' as' A' \<and> al_data A' = al_data A @ al_data B \<and> map fst (al_iters A') = map fst (al_iters A) \<and>
    lview h' sub' bs B \<and> set as' \<inter> set bs = {}"
proof -
  obtain h1 s1 t where c: "list_iterator_create h sub = (h1, s1, t)" by (cases "list_iterator_create h sub") auto
  note cv = create_iter_view [OF v(2) c]
  let ?B = "B\<lparr>al_iters := (t, 0, 0) # al_iters B\<rparr>"
  have l1: "lview h1 l as A" using v(1) cv(2,3,6,7) by (auto simp: lview_def lrep_def nodes_ok_def)
  obtain h' l' s2 as' A' kp where i: "append_list_loop h1 l s1 t 0 = Some (h', l', s2, int (length (al_data B)))"
      "lview h' l' as' A'" "al_data A' = al_data A @ al_data B" "map fst (al_iters A') = map fst (al_iters A)"
      "lview h' s2 bs (a_iter t kp ?B)" "set as' \<inter> set bs = {}"
    using append_list_walk [OF l1 cv(1) v(3), of t 0 0 0] by auto
  have nin: "t \<notin> fst ` set (al_iters B)" using cv(2) v(2) by (auto simp: lview_def)
  have list_id: "filter (\<lambda>(k, _). k \<noteq> t) (map (\<lambda>(k, j). (k, if k = t then kp else j)) xs) = xs"
    if "t \<notin> fst ` set xs" for xs using that by (induction xs) auto
  have "filter (\<lambda>(k, _). k \<noteq> t) (al_iters (a_iter t kp ?B)) = al_iters B"
    using list_id [OF nin] by (simp add: a_iter_def)
  then have "(a_iter t kp ?B)\<lparr>al_iters := filter (\<lambda>(k, _). k \<noteq> t) (al_iters (a_iter t kp ?B))\<rparr> = B"
    by (simp add: a_iter_def)
  then have d: "lview h' (s2\<lparr>xl_iters := iter_unlink t (xl_iters s2)\<rparr>) bs B"
    using view_unlink [OF i(5), of t] by simp
  have "\<exists>j. map_of (xl_iters s2) t = Some j"
    using view_iter(1) [OF i(5), of t kp] by (auto simp: a_iter_def)
  then obtain j where "map_of (xl_iters s2) t = Some j" by blast
  then have "list_append_list h l sub = Some (h', l', s2\<lparr>xl_iters := iter_unlink t (xl_iters s2)\<rparr>, int (length (al_data B)))"
    using f c i(1) by (simp add: list_append_list_def list_iterator_destroy_def)
  then show ?thesis using i d by blast
qed

lemma transfer_walk:
  assumes "lview h l as A" "lview h sub bs B" "set as \<inter> set bs = {}"
  shows "\<exists>h' l' sub' as' A' B'. transfer_loop h l sub n = Some (h', l', sub', n + int (length (al_data B))) \<and>
    lview h' l' as' A' \<and> al_data A' = al_data A @ al_data B \<and> map fst (al_iters A') = map fst (al_iters A) \<and>
    lview h' sub' [] B' \<and> al_data B' = [] \<and> map fst (al_iters B') = map fst (al_iters B)"
  using assms
proof (induction "al_data B" arbitrary: h l sub as bs A B n)
  case Nil
  then have "bs = []" using lview_length [OF Nil.prems(2)] by simp
  moreover have "transfer_loop h l sub n = Some (h, l, sub, n)"
    using destroy_view_end [OF Nil.prems(2), of 0] Nil.hyps by (subst transfer_loop.simps) (simp add: list_pop_def list_pop_locked_def)
  ultimately show ?case using Nil
    by (intro exI [of _ h] exI [of _ l] exI [of _ sub] exI [of _ as] exI [of _ A] exI [of _ B]) simp
next
  case (Cons x xs)
  let ?A = "a_ins (length (al_data A)) x A"
  obtain h1 s1 where r: "list_node_destroy h sub HeadSlot = Some (h1, s1, Some x)" "lview h1 s1 (del 0 bs) (a_del 0 B)"
      "al_data (a_del 0 B) = xs" "frames h bs h1 (del 0 bs)" "xl_fdel s1 = xl_fdel sub" "map fst (al_iters (a_del 0 B)) = map fst (al_iters B)"
    by (rule pop_view [OF Cons.prems(2) Cons.hyps(2) [symmetric]])
  have dj: "set bs \<inter> set as = {}" using Cons.prems(3) by blast
  note f1 = lview_frame [OF r(4) Cons.prems(1) dj]
  obtain h2 l2 q where a: "list_append h1 l x = Some (h2, l2)" "lview h2 l2 (ins (length (al_data A)) q as) ?A"
      "al_data ?A = al_data A @ [x]" "frames h1 as h2 (ins (length (al_data A)) q as)" "xl_fdel l2 = xl_fdel l"
      "map fst (al_iters ?A) = map fst (al_iters A)"
    by (rule append_view [OF f1(1)])
  have dj2: "set as \<inter> set (del 0 bs) = {}" using f1(2) by blast
  note f2 = lview_frame [OF a(4) r(2) dj2]
  have e: "transfer_loop h l sub n = transfer_loop h2 l2 s1 (n + 1)"
    using r(1) a(1) by (subst transfer_loop.simps) (simp add: list_pop_def list_pop_locked_def)
  obtain h' l' sub' as' A' B' where i: "transfer_loop h2 l2 s1 (n + 1) = Some (h', l', sub', n + 1 + int (length xs))"
      "lview h' l' as' A'" "al_data A' = (al_data A @ [x]) @ xs" "map fst (al_iters A') = map fst (al_iters A)"
      "lview h' sub' [] B'" "al_data B' = []" "map fst (al_iters B') = map fst (al_iters B)"
    using Cons.hyps(1) [OF r(3) [symmetric] a(2) f2, of "n + 1"] unfolding a(3,6) r(3,6)
    by (elim exE conjE) (rule that; assumption)
  show ?case using i Cons.hyps(2) [symmetric] unfolding e
    by (intro exI [of _ h'] exI [of _ l'] exI [of _ sub'] exI [of _ as'] exI [of _ A'] exI [of _ B']) simp
qed

subsection \<open>The queue interface\<close>

fun enq_all :: "('a \<Rightarrow> 's \<Rightarrow> 's option) \<Rightarrow> 'a list \<Rightarrow> 's \<Rightarrow> 's option" where
  "enq_all enq [] s = Some s"
| "enq_all enq (x # xs) s = do { s \<leftarrow> enq x s; enq_all enq xs s }"

fun deq_n :: "('s \<Rightarrow> ('s \<times> 'a option) option) \<Rightarrow> nat \<Rightarrow> 's \<Rightarrow> 'a option list option" where
  "deq_n deq 0 s = Some []"
| "deq_n deq (Suc n) s = do { (s, x) \<leftarrow> deq s; xs \<leftarrow> deq_n deq n s; Some (x # xs) }"

locale fifo_queue =
  fixes rep :: "'s \<Rightarrow> 'a list \<Rightarrow> bool"
    and enq :: "'a \<Rightarrow> 's \<Rightarrow> 's option"
    and deq :: "'s \<Rightarrow> ('s \<times> 'a option) option"
  assumes enq_ok: "rep s q \<Longrightarrow> \<exists>s'. enq x s = Some s' \<and> rep s' (q @ [x])"
    and deq_Nil: "rep s [] \<Longrightarrow> \<exists>s'. deq s = Some (s', None) \<and> rep s' []"
    and deq_Cons: "rep s (x # q) \<Longrightarrow> \<exists>s'. deq s = Some (s', Some x) \<and> rep s' q"
begin

lemma enq_all_ok: "rep s q \<Longrightarrow> \<exists>s'. enq_all enq xs s = Some s' \<and> rep s' (q @ xs)"
proof (induction xs arbitrary: s q)
  case (Cons x xs)
  obtain s' where "enq x s = Some s'" "rep s' (q @ [x])" using enq_ok [OF Cons.prems] by blast
  then show ?case using Cons.IH [of s' "q @ [x]"] by simp
qed simp

lemma deq_n_ok: "rep s q \<Longrightarrow> deq_n deq n s = Some (map Some (take n q) @ replicate (n - length q) None)"
proof (induction n arbitrary: s q)
  case (Suc n)
  show ?case
  proof (cases q)
    case Nil
    then show ?thesis using deq_Nil Suc by fastforce
  next
    case (Cons x xs)
    then show ?thesis using deq_Cons Suc by fastforce
  qed
qed simp

lemma first_in_first_out:
  assumes "rep s []"
  shows "\<exists>s'. enq_all enq xs s = Some s' \<and> deq_n deq n s' = Some (map Some (take n xs) @ replicate (n - length xs) None)"
  using enq_all_ok [OF assms, of xs] deq_n_ok by fastforce

end

interpretation lq: fifo_queue "\<lambda>(h, l) q. \<exists>as A. lview h l as A \<and> al_data A = q"
  "\<lambda>x (h, l). list_enqueue h l x" "\<lambda>(h, l). map_option (\<lambda>(h, l, v). ((h, l), v)) (list_dequeue h l)"
proof (unfold_locales, goal_cases)
  case (1 s q x)
  then obtain as A where v: "lview (fst s) (snd s) as A" "al_data A = q" by (auto simp: split_def)
  obtain h' l' p where "list_append (fst s) (snd s) x = Some (h', l')" "al_data (a_ins (length q) x A) = q @ [x]"
      "lview h' l' (ins (length q) p as) (a_ins (length q) x A)"
    by (rule append_view [OF v(1), of x, unfolded v(2)])
  then show ?case by (cases s) (auto simp: list_append_def list_append_locked_def list_enqueue_def)
next
  case (2 s)
  then obtain as A where v: "lview (fst s) (snd s) as A" "al_data A = []" by (auto simp: split_def)
  show ?case using destroy_view_end [OF v(1), of 0] v by (cases s) (auto simp: list_dequeue_def)
next
  case (3 s x q)
  then obtain as A where v: "lview (fst s) (snd s) as A" "al_data A = x # q" by (auto simp: split_def)
  obtain h' l' where "list_node_destroy (fst s) (snd s) HeadSlot = Some (h', l', Some x)" "lview h' l' (del 0 as) (a_del 0 A)"
      "al_data (a_del 0 A) = q"
    by (rule pop_view [OF v])
  then show ?case by (cases s) (auto simp: list_dequeue_def)
qed

subsection \<open>Properties\<close>

text \<open>A list filled with given data, for the examples.\<close>

lemma filled_list:
  assumes "heap_ok h0"
  obtains h l as A where "append_array h0 (list_create f) xs = Some (h, l)" "lview h l as A" "al_data A = xs" "al_iters A = []"
    "xl_fdel l = f" "frames h0 [] h as"
proof -
  obtain h l as A where "append_array h0 (list_create f) xs = Some (h, l)" "lview h l as A" "al_data A = xs"
      "map fst (al_iters A) = []" "frames h0 [] h as" "xl_fdel l = xl_fdel (list_create f)"
    using append_array_walk [OF list_create_view [OF assms], of f xs] by auto
  then show thesis using that by (simp add: list_create_def)
qed

text \<open>The queue operations are first in, first out: what was enqueued on a fresh list
  is dequeued in the same order, and an empty list gives null.\<close>

theorem list_fifo:
  "\<exists>s. enq_all (\<lambda>x (h, l). list_enqueue h l x) xs (list_heap_init, list_create f) = Some s \<and>
    deq_n (\<lambda>(h, l). map_option (\<lambda>(h, l, v). ((h, l), v)) (list_dequeue h l)) n s =
      Some (map Some (take n xs) @ replicate (n - length xs) None)"
  by (rule lq.first_in_first_out) (use list_create_view [OF heap_init_ok, of f] in \<open>auto intro!: exI [of _ "[]"] exI [of _ "\<lparr>al_data = [], al_iters = []\<rparr>"]\<close>)

text \<open>\<open>list_delete_all\<close> removes exactly the matching data, passes it in order to the
  deletion function, returns its number and leaves every iterator valid; \<open>list_flush\<close> does so for all
  data. Both end although they move on only past data they keep.\<close>

theorem list_delete_all_exact:
  assumes "lview h l as A"
  shows "(\<exists>h' l' as' A'. list_delete_all h l f = Some (h', l', if xl_fdel l \<noteq> None then filter f (al_data A) else [], int (length (filter f (al_data A)))) \<and>
      lview h' l' as' A' \<and> al_data A' = filter (\<lambda>x. \<not> f x) (al_data A) \<and> map fst (al_iters A') = map fst (al_iters A)) \<and>
    (\<exists>h' l' A'. list_flush h l = Some (h', l', if xl_fdel l \<noteq> None then al_data A else [], int (length (al_data A))) \<and>
      lview h' l' [] A' \<and> al_data A' = [] \<and> map fst (al_iters A') = map fst (al_iters A))"
proof
  show "\<exists>h' l' as' A'. list_delete_all h l f = Some (h', l', if xl_fdel l \<noteq> None then filter f (al_data A) else [], int (length (filter f (al_data A)))) \<and>
      lview h' l' as' A' \<and> al_data A' = filter (\<lambda>x. \<not> f x) (al_data A) \<and> map fst (al_iters A') = map fst (al_iters A)"
    by (rule list_delete_all_eq [OF assms, of f]) blast
  show "\<exists>h' l' A'. list_flush h l = Some (h', l', if xl_fdel l \<noteq> None then al_data A else [], int (length (al_data A))) \<and>
      lview h' l' [] A' \<and> al_data A' = [] \<and> map fst (al_iters A') = map fst (al_iters A)"
    using flush_walk [OF assms, of "[]" 0] unfolding list_flush_def append_Nil add_0 by blast
qed

theorem list_delete_all_exact_witness:
  "\<exists>h l h' l'. append_array list_heap_init (list_create (Some 7)) [1, 2, 3, 4 :: int] = Some (h, l) \<and>
    list_delete_all h l even = Some (h', l', [2, 4], 2)"
proof -
  obtain h l as A where "append_array list_heap_init (list_create (Some 7)) [1, 2, 3, 4 :: int] = Some (h, l)" "lview h l as A"
      "al_data A = [1, 2, 3, 4]" "xl_fdel l = Some 7"
    by (rule filled_list [OF heap_init_ok, of "Some 7" "[1, 2, 3, 4 :: int]"])
  then show ?thesis using list_delete_all_exact [of h l as A even] by auto
qed

text \<open>\<open>list_append_list\<close> copies the data of the second list behind the first and leaves
  the second list with its iterators as it was; \<open>list_transfer\<close> moves the data. The lists share no
  nodes before and after.\<close>

theorem list_concat_exact:
  assumes "lview h l as A" "lview h sub bs B" "set as \<inter> set bs = {}"
  shows "(xl_fdel l = None \<longrightarrow> (\<exists>h' l' sub' as' A'. list_append_list h l sub = Some (h', l', sub', int (length (al_data B))) \<and>
      lview h' l' as' A' \<and> al_data A' = al_data A @ al_data B \<and> lview h' sub' bs B \<and> set as' \<inter> set bs = {})) \<and>
    (xl_fdel l = xl_fdel sub \<longrightarrow> (\<exists>h' l' sub' as' A' B'. list_transfer h l sub = Some (h', l', sub', int (length (al_data B))) \<and>
      lview h' l' as' A' \<and> al_data A' = al_data A @ al_data B \<and> lview h' sub' [] B' \<and> al_data B' = []))"
  using list_append_list_eq [OF assms] transfer_walk [OF assms, of 0] by (auto simp: list_transfer_def) blast+

theorem list_concat_exact_witness:
  "\<exists>h l1 l2 h' l1' l2'. append_array list_heap_init (list_create None) [1, 2 :: int] = Some (h, l1) \<and>
    append_array h (list_create None) [3 :: int, 4, 5] = Some (h', l2) \<and>
    (\<exists>h'' l1' l2'. list_transfer h' l1 l2 = Some (h'', l1', l2', 3))"
proof -
  obtain h l1 as A where a: "append_array list_heap_init (list_create None) [1, 2 :: int] = Some (h, l1)" "lview h l1 as A"
      "al_data A = [1, 2]" "xl_fdel l1 = None"
    by (rule filled_list [OF heap_init_ok, of None "[1, 2 :: int]"])
  obtain h' l2 bs B where b: "append_array h (list_create None) [3 :: int, 4, 5] = Some (h', l2)" "lview h' l2 bs B"
      "al_data B = [3, 4, 5]" "xl_fdel l2 = None" "frames h [] h' bs"
    by (rule filled_list [OF view_nodes(6) [OF a(2)], of None "[3 :: int, 4, 5]"])
  have f: "lview h' l1 as A" "set as \<inter> set bs = {}"
    using lview_frame [OF b(5) a(2)] by auto
  have "\<exists>h'' l1' l2'. list_transfer h' l1 l2 = Some (h'', l1', l2', 3)"
    using list_concat_exact [OF f(1) b(2) f(2)] a(4) b(3,4) by auto
  then show ?thesis using a(1) b(1) by blast
qed

text \<open>\<open>list_sort\<close> leaves the same data, in the order of the comparison, and all iterators
  at the head; \<open>qsort\<close> of the C library is assumed to sort an array of two or more elements.\<close>

theorem list_sort_sorts:
  assumes "lview h l as A" "\<And>v. 1 < length v \<Longrightarrow> mset (qsort v) = mset v \<and> sorted_wrt (\<lambda>x y. cmp x y \<le> (0 :: int)) (qsort v)"
  shows "\<exists>h' l' as' A'. list_sort qsort h l = Some (h', l') \<and> lview h' l' as' A' \<and> mset (al_data A') = mset (al_data A) \<and>
    sorted_wrt (\<lambda>x y. cmp x y \<le> 0) (al_data A') \<and> map fst (al_iters A') = map fst (al_iters A) \<and>
    (1 < length (al_data A) \<longrightarrow> (\<forall>(k, kp) \<in> set (al_iters A'). kp = (0, 0)))"
proof (cases "1 < length (al_data A)")
  case True
  have q: "mset (qsort (al_data A)) = mset (al_data A)" "sorted_wrt (\<lambda>x y. cmp x y \<le> 0) (qsort (al_data A))"
    using assms(2) [OF True] by simp_all
  have "length (qsort (al_data A)) = length (al_data A)" using mset_eq_length [OF q(1)] .
  from list_sort_eq [of h l as A qsort, OF assms(1) this] show ?thesis using q True by fastforce
next
  case False
  have "sorted_wrt (\<lambda>x y. cmp x y \<le> 0) (al_data A)" using False by (cases "al_data A") auto
  then show ?thesis using assms(1) False view_nodes(4) [OF assms(1)]
    by (intro exI [of _ h] exI [of _ l] exI [of _ as] exI [of _ A]) (simp add: list_sort_def)
qed

theorem list_sort_sorts_witness:
  "\<exists>h l h' l' as' A'. append_array list_heap_init (list_create None) [3, 1, 2 :: int] = Some (h, l) \<and>
    list_sort sort h l = Some (h', l') \<and> lview h' l' as' A' \<and> sorted_wrt (\<lambda>x y. x - y \<le> 0) (al_data A')"
proof -
  obtain h l as A where a: "append_array list_heap_init (list_create None) [3, 1, 2 :: int] = Some (h, l)" "lview h l as A"
      "al_data A = [3, 1, 2]"
    by (rule filled_list [OF heap_init_ok, of None "[3, 1, 2 :: int]"])
  have "mset (sort v) = mset v \<and> sorted_wrt (\<lambda>x y. x - y \<le> 0) (sort v)" for v :: "int list" by simp
  then show ?thesis using list_sort_sorts [OF a(2), of sort "(-)"] a(1) by blast
qed

text \<open>The functions that walk over the nodes: \<open>list_find_first\<close> returns the first match,
  \<open>list_for_each\<close> applies its callback in order up to the first negative result and then returns the
  negated number of calls, and \<open>list_destroy\<close> frees exactly the nodes of the list and hands all data
  to the deletion function.\<close>

theorem list_walks_exact:
  assumes "lview h l as A"
  shows "list_find_first h l f = Some (find f (al_data A)) \<and>
    list_for_each h l g st = Some (for_each_spec g (al_data A) 0 st) \<and>
    (\<exists>h'. list_destroy h l = Some (h', if xl_fdel l \<noteq> None then al_data A else []) \<and> heap_ok h' \<and>
       lh_nodes h' = (\<lambda>a. if a \<in> set as then None else lh_nodes h a))"
proof (intro conjI)
  show "\<exists>h'. list_destroy h l = Some (h', if xl_fdel l \<noteq> None then al_data A else []) \<and> heap_ok h' \<and>
       lh_nodes h' = (\<lambda>a. if a \<in> set as then None else lh_nodes h a)"
    using list_destroy_eq [OF assms] by blast
qed (rule list_find_first_eq [OF assms], rule list_for_each_eq [OF assms])

theorem list_walks_exact_witness:
  "\<exists>h l. append_array list_heap_init (list_create None) [3, 1, 2 :: int] = Some (h, l) \<and>
    list_find_first h l (\<lambda>x. x < 3) = Some (Some 1) \<and>
    list_for_each h l (\<lambda>x s. (if x = 1 then - 1 else 0, s + x)) 0 = Some (- 2, 4)"
proof -
  obtain h l as A where a: "append_array list_heap_init (list_create None) [3, 1, 2 :: int] = Some (h, l)" "lview h l as A"
      "al_data A = [3, 1, 2]"
    by (rule filled_list [OF heap_init_ok, of None "[3, 1, 2 :: int]"])
  then show ?thesis
    using list_walks_exact [OF a(2), of "\<lambda>x. x < 3" "\<lambda>x s. (if x = 1 then - 1 else 0, s + x)" 0] by auto
qed

text \<open>\<open>list_remove\<close> removes the last item its iterator returned, unless another iterator has
  removed the item behind it in the meantime: then it removes nothing and returns null, and a
  \<open>list_next\<close> is needed first.\<close>

theorem list_remove_after_neighbour:
  fixes a b :: 'a
  shows "run_ops [LAppend a, LAppend b, LIterNew, LIterNew, LNext 0, LNext 1, LNext 1, LRemove 1, LRemove 0, LCount]
     list_heap_init (list_create f) =
   Some [RData (Some a), RData (Some b), RNum 0, RNum 1, RData (Some a), RData (Some a), RData (Some b),
     RData (Some b), RData None, RNum 1]"
proof -
  have "lh_iter_id list_heap_init = 0" by (simp add: list_heap_init_def)
  then have "run_ops cs list_heap_init (list_create f) = spec_ops cs \<lparr>al_data = [], al_iters = []\<rparr> 0" for cs :: "'a list_op list"
    using run_ops_sim [OF list_create_view [OF heap_init_ok], of cs f] by metis
  then show ?thesis by (simp add: a_ins_def a_del_def a_iter_def ins_def del_def)
qed

end
