(* ===== verification/Cbuf.thy ===== *)
theory Cbuf
  imports Slurm_Prelude
begin

section \<open>Circular buffers (\<open>src/common/cbuf.c\<close>)\<close>

text \<open>
  The buffer holds replay data, already read but not yet overwritten, and behind it unread data, in
  an array of \<open>size + 1\<close> bytes that is used modulo its length. The record has the fields of
  \<open>struct cbuf\<close>; each function runs under the buffer's mutex and is one step. \<open>assert\<close> is
  \<open>c_assert\<close>, and \<open>memcpy\<close> and \<open>memmove\<close> are checked for the bounds of the array, which is why the
  magic cookies around the array need no model. \<open>None\<close> is a failed assertion, an access out of
  bounds or a loop that does not end. Results are the C return values, \<open>- 1\<close> for errors.

  The functions that the code gets from elsewhere are parameters: \<open>re m\<close> tells whether \<open>realloc\<close> to
  \<open>m\<close> bytes succeeds; \<open>wr\<close> and \<open>rd\<close> are \<open>write\<close> and \<open>read\<close> on a file descriptor, with their state,
  the return value and whether \<open>errno\<close> is \<open>EINTR\<close>. Bytes of new memory, which C leaves
  indeterminate, are zero. C's \<open>int\<close> is HOL's \<open>int\<close>. The two agree as long as
  no sum overflows: \<open>Cbuf_Safety\<close> shows that none does for buffers of up to \<open>2 ^ 30 - 1018\<close> bytes and counts of up to \<open>2 ^ 30\<close>;
  with a \<open>maxsize\<close> near \<open>INT_MAX\<close>, which \<open>cbuf_create\<close> accepts, the sum \<open>maxsize + size_meta\<close> in \<open>cbuf_grow\<close>
  overflows, and the theorems do not speak about that.
\<close>

subsection \<open>Data\<close>

definition NL :: byte where
  "NL = 10"

definition CBUF_CHUNK :: int where
  "CBUF_CHUNK = 1000"

definition CBUF_MAGIC_LEN :: int where
  "CBUF_MAGIC_LEN = 8"

datatype cbuf_overwrite = CBUF_NO_DROP | CBUF_WRAP_ONCE | CBUF_WRAP_MANY

fun overwrite_num :: "cbuf_overwrite \<Rightarrow> int" where
  "overwrite_num CBUF_NO_DROP = 0"
| "overwrite_num CBUF_WRAP_ONCE = 1"
| "overwrite_num CBUF_WRAP_MANY = 2"

definition CBUF_OPT_OVERWRITE :: int where
  "CBUF_OPT_OVERWRITE = 0"

record cbuf =
  cb_alloc :: int
  cb_minsize :: int
  cb_maxsize :: int
  cb_size :: int
  cb_used :: int
  cb_overwrite :: cbuf_overwrite
  cb_got_wrap :: bool
  cb_i_in :: int
  cb_i_out :: int
  cb_i_rep :: int
  cb_data :: "byte list"

definition c_slice :: "'a list \<Rightarrow> int \<Rightarrow> int \<Rightarrow> 'a list option" where
  "c_slice xs i n = (if 0 \<le> i \<and> 0 \<le> n \<and> i + n \<le> int (length xs) then Some (take (nat n) (drop (nat i) xs)) else None)"

definition c_splice :: "'a list \<Rightarrow> int \<Rightarrow> 'a list \<Rightarrow> 'a list option" where
  "c_splice xs i ys = (if 0 \<le> i \<and> i + int (length ys) \<le> int (length xs)
     then Some (take (nat i) xs @ ys @ drop (nat i + length ys) xs) else None)"

text \<open>All assertions of \<open>_cbuf_is_valid\<close> on the fields.\<close>

definition cbuf_is_valid :: "cbuf \<Rightarrow> bool" where
  "cbuf_is_valid cb \<longleftrightarrow>
     0 < cb_alloc cb \<and> cb_size cb < cb_alloc cb \<and> 0 < cb_size cb \<and> cb_minsize cb \<le> cb_size cb \<and> cb_size cb \<le> cb_maxsize cb \<and>
     0 < cb_minsize cb \<and> 0 < cb_maxsize cb \<and> 0 \<le> cb_used cb \<and> cb_used cb \<le> cb_size cb \<and>
     (cb_got_wrap cb \<or> cb_i_rep cb = 0) \<and>
     0 \<le> cb_i_in cb \<and> cb_i_in cb \<le> cb_size cb \<and> 0 \<le> cb_i_out cb \<and> cb_i_out cb \<le> cb_size cb \<and>
     0 \<le> cb_i_rep cb \<and> cb_i_rep cb \<le> cb_size cb \<and>
     (if cb_i_out cb \<le> cb_i_in cb
      then cb_i_in cb < cb_i_rep cb \<or> cb_i_rep cb \<le> cb_i_out cb
      else cb_i_in cb < cb_i_rep cb \<and> cb_i_rep cb \<le> cb_i_out cb) \<and>
     cb_size cb - cb_used cb = (cb_i_out cb - cb_i_in cb - 1 + (cb_size cb + 1)) mod (cb_size cb + 1)"

subsection \<open>Creation and observers\<close>

definition cbuf_create :: "int \<Rightarrow> int \<Rightarrow> cbuf option option" where
  "cbuf_create minsize maxsize =
     (if minsize \<le> 0 then Some None
      else do {
        let cb = \<lparr>cb_alloc = minsize + 1 + 2 * CBUF_MAGIC_LEN, cb_minsize = minsize,
          cb_maxsize = (if minsize < maxsize then maxsize else minsize), cb_size = minsize, cb_used = 0,
          cb_overwrite = CBUF_WRAP_MANY, cb_got_wrap = False, cb_i_in = 0, cb_i_out = 0, cb_i_rep = 0,
          cb_data = replicate (nat minsize + 1) 0\<rparr>;
        c_assert (cbuf_is_valid cb);
        Some (Some cb)
      })"

text \<open>\<open>cbuf_destroy\<close> checks the buffer before it releases it; nothing of it is left.\<close>

definition cbuf_destroy :: "cbuf \<Rightarrow> unit option" where
  "cbuf_destroy cb = c_assert (cbuf_is_valid cb)"

definition cbuf_flush :: "cbuf \<Rightarrow> cbuf option" where
  "cbuf_flush cb = do {
     c_assert (cbuf_is_valid cb);
     let cb = cb\<lparr>cb_used := 0, cb_got_wrap := False, cb_i_in := 0, cb_i_out := 0, cb_i_rep := 0\<rparr>;
     c_assert (cbuf_is_valid cb);
     Some cb
   }"

definition cbuf_size_of :: "cbuf \<Rightarrow> int option" where
  "cbuf_size_of cb = do { c_assert (cbuf_is_valid cb); Some (cb_maxsize cb) }"

definition cbuf_free :: "cbuf \<Rightarrow> int option" where
  "cbuf_free cb = do { c_assert (cbuf_is_valid cb); Some (cb_maxsize cb - cb_used cb) }"

definition cbuf_used_of :: "cbuf \<Rightarrow> int option" where
  "cbuf_used_of cb = do { c_assert (cbuf_is_valid cb); Some (cb_used cb) }"

definition reused_of :: "cbuf \<Rightarrow> int" where
  "reused_of cb = (cb_i_out cb - cb_i_rep cb + (cb_size cb + 1)) mod (cb_size cb + 1)"

definition cbuf_reused :: "cbuf \<Rightarrow> int option" where
  "cbuf_reused cb = do { c_assert (cbuf_is_valid cb); Some (reused_of cb) }"

definition cbuf_is_empty :: "cbuf \<Rightarrow> bool option" where
  "cbuf_is_empty cb = do { c_assert (cbuf_is_valid cb); Some (cb_used cb = 0) }"

definition cbuf_opt_get :: "cbuf \<Rightarrow> int \<Rightarrow> (int \<times> int option) option" where
  "cbuf_opt_get cb name = do {
     c_assert (cbuf_is_valid cb);
     Some (if name = CBUF_OPT_OVERWRITE then (0, Some (overwrite_num (cb_overwrite cb))) else (- 1, None))
   }"

definition cbuf_opt_set :: "cbuf \<Rightarrow> int \<Rightarrow> int \<Rightarrow> (cbuf \<times> int) option" where
  "cbuf_opt_set cb name v = do {
     c_assert (cbuf_is_valid cb);
     let (cb, rc) = (if name = CBUF_OPT_OVERWRITE then
         (if v = overwrite_num CBUF_NO_DROP then (cb\<lparr>cb_overwrite := CBUF_NO_DROP\<rparr>, 0)
          else if v = overwrite_num CBUF_WRAP_ONCE then (cb\<lparr>cb_overwrite := CBUF_WRAP_ONCE\<rparr>, 0)
          else if v = overwrite_num CBUF_WRAP_MANY then (cb\<lparr>cb_overwrite := CBUF_WRAP_MANY\<rparr>, 0)
          else (cb, - 1))
       else (cb, - 1));
     c_assert (cbuf_is_valid cb);
     Some (cb, rc)
   }"

subsection \<open>Growing and dropping\<close>

definition cbuf_grow :: "(int \<Rightarrow> bool) \<Rightarrow> cbuf \<Rightarrow> int \<Rightarrow> (cbuf \<times> int) option" where
  "cbuf_grow re cb n = do {
     c_assert (0 < n);
     if cb_size cb = cb_maxsize cb then Some (cb, 0)
     else do {
       let size_old = cb_size cb;
       let size_meta = cb_alloc cb - cb_size cb;
       c_assert (0 < size_meta);
       let m = cb_alloc cb + n;
       let m = m + (CBUF_CHUNK - m mod CBUF_CHUNK);
       let m = min m (cb_maxsize cb + size_meta);
       c_assert (cb_alloc cb < m);
       if \<not> re m then Some (cb, 0)
       else do {
         let cb = cb\<lparr>cb_alloc := m, cb_size := m - size_meta,
           cb_data := take (nat (m - size_meta + 1)) (cb_data cb @ replicate (nat (m - size_meta - size_old)) 0)\<rparr>;
         cb \<leftarrow> (if cb_i_in cb < cb_i_rep cb then do {
             let n = (size_old + 1) - cb_i_rep cb;
             let m = (cb_size cb + 1) - n;
             bs \<leftarrow> c_slice (cb_data cb) (cb_i_rep cb) n;
             data \<leftarrow> c_splice (cb_data cb) m bs;
             Some (cb\<lparr>cb_data := data,
               cb_i_out := (if cb_i_rep cb \<le> cb_i_out cb then cb_i_out cb + (m - cb_i_rep cb) else cb_i_out cb),
               cb_i_rep := m\<rparr>)
           } else Some cb);
         c_assert (cbuf_is_valid cb);
         Some (cb, cb_size cb - size_old)
       }
     }
   }"

definition cbuf_shrink :: "cbuf \<Rightarrow> (cbuf \<times> int) option" where
  "cbuf_shrink cb = do {
     c_assert (cbuf_is_valid cb);
     if cb_size cb = cb_minsize cb then Some (cb, 0)
     else if cb_size cb - cb_used cb \<le> CBUF_CHUNK then Some (cb, 0)
     else do { c_assert (cbuf_is_valid cb); Some (cb, 0) }
   }"

definition cbuf_dropper :: "cbuf \<Rightarrow> int \<Rightarrow> (cbuf \<times> int) option" where
  "cbuf_dropper cb len = do {
     c_assert (0 < len);
     c_assert (len \<le> cb_used cb);
     let cb = cb\<lparr>cb_used := cb_used cb - len, cb_i_out := (cb_i_out cb + len) mod (cb_size cb + 1)\<rparr>;
     cb \<leftarrow> (if CBUF_CHUNK < cb_size cb - cb_used cb \<and> cb_minsize cb < cb_size cb
            then map_option fst (cbuf_shrink cb) else Some cb);
     Some (cb, len)
   }"

subsection \<open>Moving bytes\<close>

text \<open>\<open>putf\<close> takes the bytes at the buffer's pointer and moves its argument forward; \<open>getf\<close> is asked
  for a number of bytes and returns the ones it stores in the array.\<close>

definition cbuf_put_mem :: "byte list \<Rightarrow> byte list \<Rightarrow> (byte list \<times> int) option" where
  "cbuf_put_mem d bs = do { c_assert (bs \<noteq> []); Some (d @ bs, int (length bs)) }"

partial_function (option) cbuf_put_fd ::
    "('f \<Rightarrow> byte list \<Rightarrow> 'f \<times> int \<times> bool) \<Rightarrow> 'f \<Rightarrow> byte list \<Rightarrow> ('f \<times> int) option" where
  "cbuf_put_fd wr fd bs = do {
     c_assert (bs \<noteq> []);
     (case wr fd bs of (fd, n, eintr) \<Rightarrow>
        if n < 0 \<and> eintr then cbuf_put_fd wr fd bs else Some (fd, n))
   }"

definition cbuf_get_mem :: "byte list \<Rightarrow> int \<Rightarrow> (byte list \<times> byte list \<times> int) option" where
  "cbuf_get_mem s n = do {
     c_assert (0 < n);
     bs \<leftarrow> c_slice s 0 n;
     Some (drop (nat n) s, bs, n)
   }"

partial_function (option) cbuf_get_fd ::
    "('f \<Rightarrow> int \<Rightarrow> 'f \<times> byte list \<times> int \<times> bool) \<Rightarrow> 'f \<Rightarrow> int \<Rightarrow> ('f \<times> byte list \<times> int) option" where
  "cbuf_get_fd rd fd len = do {
     c_assert (0 < len);
     (case rd fd len of (fd, bs, n, eintr) \<Rightarrow>
        if n < 0 \<and> eintr then cbuf_get_fd rd fd len else Some (fd, bs, n))
   }"

text \<open>The loop \<open>cbuf_reader\<close> and \<open>cbuf_replayer\<close> share; the results are the argument of \<open>putf\<close>, \<open>nleft\<close>
  and \<open>m\<close>.\<close>

partial_function (option) reader_loop ::
    "('d \<Rightarrow> byte list \<Rightarrow> ('d \<times> int) option) \<Rightarrow> byte list \<Rightarrow> int \<Rightarrow> int \<Rightarrow> int \<Rightarrow> int \<Rightarrow> 'd \<Rightarrow> ('d \<times> int \<times> int) option" where
  "reader_loop putf data sz i_src nleft m d =
     (if 0 < nleft then do {
        let n = min nleft ((sz + 1) - i_src);
        bs \<leftarrow> c_slice data i_src n;
        (d, m) \<leftarrow> putf d bs;
        let nleft' = (if 0 < m then nleft - m else nleft);
        let i_src' = (if 0 < m then (i_src + m) mod (sz + 1) else i_src);
        if n \<noteq> m then Some (d, nleft', m) else reader_loop putf data sz i_src' nleft' m d
      } else Some (d, nleft, m))"

definition cbuf_reader :: "cbuf \<Rightarrow> int \<Rightarrow> ('d \<Rightarrow> byte list \<Rightarrow> ('d \<times> int) option) \<Rightarrow> 'd \<Rightarrow> ('d \<times> int) option" where
  "cbuf_reader src len putf d = do {
     c_assert (0 < len);
     let len = min len (cb_used src);
     if len = 0 then Some (d, 0)
     else do {
       (d, nleft, m) \<leftarrow> reader_loop putf (cb_data src) (cb_size src) (cb_i_out src) len 0 d;
       let n = len - nleft;
       c_assert (0 \<le> n \<and> n \<le> len);
       Some (d, if n = 0 then m else n)
     }
   }"

definition cbuf_replayer :: "cbuf \<Rightarrow> int \<Rightarrow> ('d \<Rightarrow> byte list \<Rightarrow> ('d \<times> int) option) \<Rightarrow> 'd \<Rightarrow> ('d \<times> int) option" where
  "cbuf_replayer src len putf d = do {
     c_assert (0 < len);
     let len = min len (reused_of src);
     if len = 0 then Some (d, 0)
     else do {
       let i_src = (cb_i_out src - len + (cb_size src + 1)) mod (cb_size src + 1);
       (d, nleft, m) \<leftarrow> reader_loop putf (cb_data src) (cb_size src) i_src len 0 d;
       let n = len - nleft;
       c_assert (0 \<le> n \<and> n \<le> len);
       Some (d, if n = 0 then m else n)
     }
   }"

partial_function (option) writer_loop ::
    "('s \<Rightarrow> int \<Rightarrow> ('s \<times> byte list \<times> int) option) \<Rightarrow> int \<Rightarrow> byte list \<Rightarrow> int \<Rightarrow> int \<Rightarrow> int \<Rightarrow> 's \<Rightarrow>
     (byte list \<times> int \<times> int \<times> int \<times> 's) option" where
  "writer_loop getf sz data i_dst nleft m s =
     (if 0 < nleft then do {
        let n = min nleft ((sz + 1) - i_dst);
        (s, bs, m) \<leftarrow> getf s n;
        data \<leftarrow> c_splice data i_dst bs;
        let nleft' = (if 0 < m then nleft - m else nleft);
        let i_dst' = (if 0 < m then (i_dst + m) mod (sz + 1) else i_dst);
        if n \<noteq> m then Some (data, i_dst', nleft', m, s) else writer_loop getf sz data i_dst' nleft' m s
      } else Some (data, i_dst, nleft, m, s))"

text \<open>The update of the indices after \<open>n\<close> bytes were stored, shared by \<open>cbuf_writer\<close> and
  \<open>cbuf_copier\<close>; \<open>nfree\<close> is the space that was free before.\<close>

definition cbuf_advance :: "cbuf \<Rightarrow> int \<Rightarrow> int \<Rightarrow> int \<Rightarrow> cbuf option" where
  "cbuf_advance dst n nfree i_dst = do {
     let nrepl = reused_of dst;
     let dst = dst\<lparr>cb_used := min (cb_used dst + n) (cb_size dst)\<rparr>;
     c_assert (i_dst = (cb_i_in dst + n) mod (cb_size dst + 1));
     let dst = dst\<lparr>cb_i_in := i_dst\<rparr>;
     let dst = (if nfree - nrepl < n
                then dst\<lparr>cb_got_wrap := True, cb_i_rep := (cb_i_in dst + 1) mod (cb_size dst + 1)\<rparr> else dst);
     Some (if nfree < n then dst\<lparr>cb_i_out := cb_i_rep dst\<rparr> else dst)
   }"

text \<open>The last result is what the function stores in \<open>*ndropped\<close>, \<open>None\<close> if it returns before.\<close>

definition cbuf_writer :: "(int \<Rightarrow> bool) \<Rightarrow> cbuf \<Rightarrow> int \<Rightarrow> ('s \<Rightarrow> int \<Rightarrow> ('s \<times> byte list \<times> int) option) \<Rightarrow> 's \<Rightarrow>
    (cbuf \<times> 's \<times> int \<times> int option) option" where
  "cbuf_writer re dst len getf s = do {
     c_assert (0 < len);
     let nfree = cb_size dst - cb_used dst;
     (dst, g) \<leftarrow> (if nfree < len \<and> cb_size dst < cb_maxsize dst then cbuf_grow re dst (len - nfree) else Some (dst, 0));
     let nfree = nfree + g;
     let len = (case cb_overwrite dst of
        CBUF_NO_DROP \<Rightarrow> min len (cb_size dst - cb_used dst)
      | CBUF_WRAP_ONCE \<Rightarrow> min len (cb_size dst)
      | CBUF_WRAP_MANY \<Rightarrow> len);
     if cb_overwrite dst = CBUF_NO_DROP \<and> len = 0 then Some (dst, s, - 1, None)
     else do {
       (data, i_dst, nleft, m, s) \<leftarrow> writer_loop getf (cb_size dst) (cb_data dst) (cb_i_in dst) len 0 s;
       let dst = dst\<lparr>cb_data := data\<rparr>;
       let n = len - nleft;
       c_assert (0 \<le> n \<and> n \<le> len);
       if n = 0 then Some (dst, s, m, None)
       else do {
         dst \<leftarrow> cbuf_advance dst n nfree i_dst;
         Some (dst, s, n, Some (max 0 (n - nfree)))
       }
     }
   }"

partial_function (option) copier_loop ::
    "int \<Rightarrow> byte list \<Rightarrow> int \<Rightarrow> byte list \<Rightarrow> int \<Rightarrow> int \<Rightarrow> int \<Rightarrow> (byte list \<times> int) option" where
  "copier_loop ssize sdata dsize ddata i_src i_dst nleft =
     (if 0 < nleft then do {
        let n = min ((ssize + 1) - i_src) ((dsize + 1) - i_dst);
        let n = min n nleft;
        bs \<leftarrow> c_slice sdata i_src n;
        ddata \<leftarrow> c_splice ddata i_dst bs;
        copier_loop ssize sdata dsize ddata ((i_src + n) mod (ssize + 1)) ((i_dst + n) mod (dsize + 1)) (nleft - n)
      } else Some (ddata, i_dst))"

definition cbuf_copier :: "(int \<Rightarrow> bool) \<Rightarrow> cbuf \<Rightarrow> cbuf \<Rightarrow> int \<Rightarrow> (cbuf \<times> int \<times> int option) option" where
  "cbuf_copier re src dst len = do {
     c_assert (0 < len);
     let len = min len (cb_used src);
     if len = 0 then Some (dst, 0, None)
     else do {
       let nfree = cb_size dst - cb_used dst;
       (dst, g) \<leftarrow> (if nfree < len \<and> cb_size dst < cb_maxsize dst then cbuf_grow re dst (len - nfree) else Some (dst, 0));
       let nfree = nfree + g;
       let len = (case cb_overwrite dst of
          CBUF_NO_DROP \<Rightarrow> min len (cb_size dst - cb_used dst)
        | CBUF_WRAP_ONCE \<Rightarrow> min len (cb_size dst)
        | CBUF_WRAP_MANY \<Rightarrow> len);
       if cb_overwrite dst = CBUF_NO_DROP \<and> len = 0 then Some (dst, - 1, None)
       else do {
         let ndropped = max 0 (len - cb_size dst + cb_used dst);
         let n = (if cb_size dst < len then len - cb_size dst else 0);
         let i_src = (if cb_size dst < len then (cb_i_out src + n) mod (cb_size src + 1) else cb_i_out src);
         let ncopy = len - n;
         (data, i_dst) \<leftarrow> copier_loop (cb_size src) (cb_data src) (cb_size dst) (cb_data dst) i_src (cb_i_in dst) ncopy;
         let dst = dst\<lparr>cb_data := data\<rparr>;
         dst \<leftarrow> (if 0 < ncopy then cbuf_advance dst ncopy nfree i_dst else Some dst);
         Some (dst, len, Some ndropped)
       }
     }
   }"

subsection \<open>Finding lines\<close>

text \<open>The loop over the unread data; the results are \<open>m\<close>, \<open>l\<close> and \<open>lines\<close>.\<close>

partial_function (option) unread_line_loop ::
    "byte list \<Rightarrow> int \<Rightarrow> int \<Rightarrow> int \<Rightarrow> int \<Rightarrow> int \<Rightarrow> int \<Rightarrow> int \<Rightarrow> int \<Rightarrow> (int \<times> int \<times> int) option" where
  "unread_line_loop data sz i_in i n m l chars lines =
     (if i \<noteq> i_in then do {
        let n = n + 1;
        let chars = (if 0 < chars then chars - 1 else chars);
        c \<leftarrow> c_rd data i;
        let (lines, m, l) = (if c = NL then (if 0 < lines then lines - 1 else lines, n, l + 1) else (lines, m, l));
        if chars = 0 \<or> lines = 0 then Some (m, l, lines)
        else unread_line_loop data sz i_in ((i + 1) mod (sz + 1)) n m l chars lines
      } else Some (m, l, lines))"

text \<open>The results are the return value and the new \<open>*nlines\<close>.\<close>

definition cbuf_find_unread_line :: "cbuf \<Rightarrow> int \<Rightarrow> int \<Rightarrow> (int \<times> int) option" where
  "cbuf_find_unread_line cb chars nlines = do {
     c_assert (- 1 \<le> nlines);
     let lines = nlines;
     if lines = 0 \<or> lines \<le> - 1 \<and> chars \<le> 0 then Some (0, 0)
     else if cb_used cb = 0 then Some (0, 0)
     else do {
       let chars = (if 0 < lines then - 1 else chars);
       (m, l, lines) \<leftarrow> unread_line_loop (cb_data cb) (cb_size cb) (cb_i_in cb) (cb_i_out cb) 0 0 0 chars lines;
       Some (if 0 < lines then (0, 0) else (m, l))
     }
   }"

partial_function (option) replay_line_loop ::
    "byte list \<Rightarrow> int \<Rightarrow> int \<Rightarrow> int \<Rightarrow> int \<Rightarrow> int \<Rightarrow> int \<Rightarrow> int \<Rightarrow> int \<Rightarrow> (int \<times> int \<times> int \<times> int \<times> int) option" where
  "replay_line_loop data sz i_rep i n m l chars lines =
     (if i \<noteq> i_rep then do {
        let i = (i + sz) mod (sz + 1);
        let n = n + 1;
        let chars = (if 0 < chars then chars - 1 else chars);
        c \<leftarrow> c_rd data i;
        let (lines, m, l) = (if c = NL then (if 0 < lines then lines - 1 else lines, n - 1, l + 1) else (lines, m, l));
        if chars = 0 \<or> lines = 0 then Some (n, m, l, chars, lines)
        else replay_line_loop data sz i_rep i n m l chars lines
      } else Some (n, m, l, chars, lines))"

text \<open>The results are the return value, the new \<open>*nlines\<close> and \<open>*nl\<close>.\<close>

definition cbuf_find_replay_line :: "cbuf \<Rightarrow> int \<Rightarrow> int \<Rightarrow> (int \<times> int \<times> int) option" where
  "cbuf_find_replay_line cb chars nlines = do {
     c_assert (- 1 \<le> nlines);
     let lines = nlines;
     if lines = 0 \<or> lines \<le> - 1 \<and> chars \<le> 0 then Some (0, 0, 0)
     else if cb_i_out cb = cb_i_rep cb then Some (0, 0, 0)
     else do {
       let chars = (if 0 < lines then - 1 else chars + 1);
       c \<leftarrow> c_rd (cb_data cb) ((cb_i_out cb + cb_size cb) mod (cb_size cb + 1));
       let (nl, chars, lines, l) =
         (if c \<noteq> NL then (1, chars - 1, lines, 0) else (0, chars, if 0 < lines then lines + 1 else lines, - 1));
       (n, m, l, chars, lines) \<leftarrow> replay_line_loop (cb_data cb) (cb_size cb) (cb_i_rep cb) (cb_i_out cb) 0 0 l chars lines;
       let (lines, m, l) =
         (if \<not> cb_got_wrap cb \<and> (0 < chars \<or> 0 < lines) then (if 0 < lines then lines - 1 else lines, n, l + 1) else (lines, m, l));
       Some (if 0 < lines then (0, 0, nl) else (m, l, nl))
     }
   }"

definition cbuf_lines_used :: "cbuf \<Rightarrow> int option" where
  "cbuf_lines_used cb = do {
     c_assert (cbuf_is_valid cb);
     (_, lines) \<leftarrow> cbuf_find_unread_line cb (cb_size cb) (- 1);
     Some lines
   }"

definition cbuf_lines_reused :: "cbuf \<Rightarrow> int option" where
  "cbuf_lines_reused cb = do {
     c_assert (cbuf_is_valid cb);
     (_, lines, _) \<leftarrow> cbuf_find_replay_line cb (cb_size cb) (- 1);
     Some lines
   }"

subsection \<open>Operations on bytes\<close>

text \<open>\<open>null\<close> is true if the caller passes a null pointer for the memory. The results are the buffer, what
  is written to the caller's memory, and the return value.\<close>

definition cbuf_drop :: "cbuf \<Rightarrow> int \<Rightarrow> (cbuf \<times> int) option" where
  "cbuf_drop src len =
     (if len < - 1 then Some (src, - 1)
      else if len = 0 then Some (src, 0)
      else do {
        c_assert (cbuf_is_valid src);
        let len = (if len = - 1 then cb_used src else min len (cb_used src));
        src \<leftarrow> (if 0 < len then map_option fst (cbuf_dropper src len) else Some src);
        c_assert (cbuf_is_valid src);
        Some (src, len)
      })"

definition cbuf_peek :: "cbuf \<Rightarrow> bool \<Rightarrow> int \<Rightarrow> (byte list \<times> int) option" where
  "cbuf_peek src null len =
     (if null \<or> len < 0 then Some ([], - 1)
      else if len = 0 then Some ([], 0)
      else do {
        c_assert (cbuf_is_valid src);
        (d, n) \<leftarrow> cbuf_reader src len cbuf_put_mem [];
        Some (d, n)
      })"

definition cbuf_read :: "cbuf \<Rightarrow> bool \<Rightarrow> int \<Rightarrow> (cbuf \<times> byte list \<times> int) option" where
  "cbuf_read src null len =
     (if null \<or> len < 0 then Some (src, [], - 1)
      else if len = 0 then Some (src, [], 0)
      else do {
        c_assert (cbuf_is_valid src);
        (d, n) \<leftarrow> cbuf_reader src len cbuf_put_mem [];
        src \<leftarrow> (if 0 < n then map_option fst (cbuf_dropper src n) else Some src);
        c_assert (cbuf_is_valid src);
        Some (src, d, n)
      })"

definition cbuf_replay :: "cbuf \<Rightarrow> bool \<Rightarrow> int \<Rightarrow> (byte list \<times> int) option" where
  "cbuf_replay src null len =
     (if null \<or> len < 0 then Some ([], - 1)
      else if len = 0 then Some ([], 0)
      else do {
        c_assert (cbuf_is_valid src);
        (d, n) \<leftarrow> cbuf_replayer src len cbuf_put_mem [];
        Some (d, n)
      })"

definition cbuf_rewind :: "cbuf \<Rightarrow> int \<Rightarrow> (cbuf \<times> int) option" where
  "cbuf_rewind src len =
     (if len < - 1 then Some (src, - 1)
      else if len = 0 then Some (src, 0)
      else do {
        c_assert (cbuf_is_valid src);
        let reused = reused_of src;
        let len = (if len = - 1 then reused else min len reused);
        let src = (if 0 < len then src\<lparr>cb_used := cb_used src + len,
                     cb_i_out := (cb_i_out src - len + (cb_size src + 1)) mod (cb_size src + 1)\<rparr> else src);
        c_assert (cbuf_is_valid src);
        Some (src, len)
      })"

text \<open>The last result is \<open>*ndropped\<close>, which the function sets to zero first.\<close>

definition cbuf_write :: "(int \<Rightarrow> bool) \<Rightarrow> cbuf \<Rightarrow> byte list option \<Rightarrow> int \<Rightarrow> (cbuf \<times> int \<times> int) option" where
  "cbuf_write re dst srcbuf len = (case srcbuf of
     None \<Rightarrow> Some (dst, - 1, 0)
   | Some s \<Rightarrow>
       if len < 0 then Some (dst, - 1, 0)
       else if len = 0 then Some (dst, 0, 0)
       else do {
         c_assert (cbuf_is_valid dst);
         (dst, s, n, d) \<leftarrow> cbuf_writer re dst len cbuf_get_mem s;
         c_assert (cbuf_is_valid dst);
         Some (dst, n, case d of None \<Rightarrow> 0 | Some d \<Rightarrow> d)
       })"

subsection \<open>Operations on lines\<close>

definition cbuf_drop_line :: "cbuf \<Rightarrow> int \<Rightarrow> int \<Rightarrow> (cbuf \<times> int) option" where
  "cbuf_drop_line src len lines =
     (if len < 0 \<or> lines < - 1 then Some (src, - 1)
      else if lines = 0 then Some (src, 0)
      else do {
        c_assert (cbuf_is_valid src);
        (n, _) \<leftarrow> cbuf_find_unread_line src len lines;
        src \<leftarrow> (if 0 < n then map_option fst (cbuf_dropper src n) else Some src);
        c_assert (cbuf_is_valid src);
        Some (src, n)
      })"

text \<open>What \<open>cbuf_peek_line\<close> and \<open>cbuf_read_line\<close> write to the caller's memory, the terminating null
  byte included.\<close>

definition line_out :: "cbuf \<Rightarrow> int \<Rightarrow> int \<Rightarrow> byte list option" where
  "line_out src n len =
     (if 0 < len then do {
        let m = min n (len - 1);
        (d, l) \<leftarrow> (if 0 < m then cbuf_reader src m cbuf_put_mem [] else Some ([], 0));
        c_assert (0 < m \<and> l \<noteq> 0 \<longrightarrow> l = m);
        c_assert (m < len);
        Some (d @ [0])
      } else Some [])"

definition cbuf_peek_line :: "cbuf \<Rightarrow> bool \<Rightarrow> int \<Rightarrow> int \<Rightarrow> (byte list \<times> int) option" where
  "cbuf_peek_line src null len lines =
     (if null \<or> len < 0 \<or> lines < - 1 then Some ([], - 1)
      else if lines = 0 then Some ([], 0)
      else do {
        c_assert (cbuf_is_valid src);
        (n, _) \<leftarrow> cbuf_find_unread_line src (len - 1) lines;
        d \<leftarrow> (if 0 < n then line_out src n len else Some []);
        Some (d, n)
      })"

definition cbuf_read_line :: "cbuf \<Rightarrow> bool \<Rightarrow> int \<Rightarrow> int \<Rightarrow> (cbuf \<times> byte list \<times> int) option" where
  "cbuf_read_line src null len lines =
     (if null \<or> len < 0 \<or> lines < - 1 then Some (src, [], - 1)
      else if lines = 0 then Some (src, [], 0)
      else do {
        c_assert (cbuf_is_valid src);
        (n, _) \<leftarrow> cbuf_find_unread_line src (len - 1) lines;
        (src, d) \<leftarrow> (if 0 < n then do {
            d \<leftarrow> line_out src n len;
            (src, _) \<leftarrow> cbuf_dropper src n;
            Some (src, d)
          } else Some (src, []));
        c_assert (cbuf_is_valid src);
        Some (src, d, n)
      })"

definition cbuf_replay_line :: "cbuf \<Rightarrow> bool \<Rightarrow> int \<Rightarrow> int \<Rightarrow> (byte list \<times> int) option" where
  "cbuf_replay_line src null len lines =
     (if null \<or> len < 0 \<or> lines < - 1 then Some ([], - 1)
      else if lines = 0 then Some ([], 0)
      else do {
        c_assert (cbuf_is_valid src);
        (n, _, nl) \<leftarrow> cbuf_find_replay_line src (len - 1) lines;
        if 0 < n \<and> 0 < len then do {
          c_assert (nl = 0 \<or> nl = 1);
          let m = max (min n (len - 1 - nl)) 0;
          (d, l) \<leftarrow> (if 0 < m then cbuf_replayer src m cbuf_put_mem [] else Some ([], 0));
          c_assert (0 < m \<and> l \<noteq> 0 \<longrightarrow> l = m);
          let (d, m) = (if nl \<noteq> 0 \<and> 1 < len then (d @ [NL], m + 1) else (d, m));
          c_assert (m < len);
          Some (d @ [0], n + nl)
        } else Some ([], n)
      })"

definition cbuf_rewind_line :: "cbuf \<Rightarrow> int \<Rightarrow> int \<Rightarrow> (cbuf \<times> int) option" where
  "cbuf_rewind_line src len lines =
     (if len < 0 \<or> lines < - 1 then Some (src, - 1)
      else if lines = 0 then Some (src, 0)
      else do {
        c_assert (cbuf_is_valid src);
        (n, _, _) \<leftarrow> cbuf_find_replay_line src len lines;
        let src = (if 0 < n then src\<lparr>cb_used := cb_used src + n,
                     cb_i_out := (cb_i_out src - n + (cb_size src + 1)) mod (cb_size src + 1)\<rparr> else src);
        c_assert (cbuf_is_valid src);
        Some (src, n)
      })"

text \<open>\<open>srcbuf\<close> is the string without its terminating null byte, so that \<open>srcbuf[len - 1]\<close> is that null
  byte if \<open>len\<close> was incremented. A read of \<open>d\<close> before \<open>cbuf_writer\<close> has set it is \<open>None\<close>.\<close>

definition cbuf_write_line :: "(int \<Rightarrow> bool) \<Rightarrow> cbuf \<Rightarrow> byte list option \<Rightarrow> (cbuf \<times> int \<times> int) option" where
  "cbuf_write_line re dst srcbuf = (case srcbuf of
     None \<Rightarrow> Some (dst, - 1, 0)
   | Some s \<Rightarrow> do {
       let ncopy = int (length s);
       let len = (if s = [] \<or> last s \<noteq> NL then ncopy + 1 else ncopy);
       c_assert (cbuf_is_valid dst);
       let nfree = cb_size dst - cb_used dst;
       dst \<leftarrow> (if nfree < len \<and> cb_size dst < cb_maxsize dst then map_option fst (cbuf_grow re dst (len - nfree)) else Some dst);
       let len = (case cb_overwrite dst of
          CBUF_NO_DROP \<Rightarrow> if cb_size dst - cb_used dst < len then - 1 else len
        | CBUF_WRAP_ONCE \<Rightarrow> if cb_size dst < len then - 1 else len
        | CBUF_WRAP_MANY \<Rightarrow> len);
       (dst, ndrop) \<leftarrow> (if 0 < len then do {
           let ndrop = (if cb_size dst < len then len - cb_size dst else 0);
           let ncopy = ncopy - ndrop;
           let psrc = drop (nat ndrop) s;
           (dst, ndrop) \<leftarrow> (if 0 < ncopy then do {
               (dst, _, n, d) \<leftarrow> cbuf_writer re dst ncopy cbuf_get_mem psrc;
               c_assert (n \<noteq> 0 \<longrightarrow> n = ncopy);
               d \<leftarrow> d;
               Some (dst, ndrop + d)
             } else Some (dst, ndrop));
           last_c \<leftarrow> c_rd (s @ [0]) (len - 1);
           if last_c \<noteq> NL then do {
             (dst, _, n, d) \<leftarrow> cbuf_writer re dst 1 cbuf_get_mem [NL];
             c_assert (n = 1);
             d \<leftarrow> d;
             Some (dst, ndrop + d)
           } else Some (dst, ndrop)
         } else Some (dst, 0));
       c_assert (cbuf_is_valid dst);
       Some (dst, len, ndrop)
     })"

subsection \<open>Operations on file descriptors\<close>

text \<open>\<open>neg\<close> is true if the file descriptor is negative.\<close>

definition cbuf_peek_to_fd :: "('f \<Rightarrow> byte list \<Rightarrow> 'f \<times> int \<times> bool) \<Rightarrow> cbuf \<Rightarrow> bool \<Rightarrow> 'f \<Rightarrow> int \<Rightarrow> ('f \<times> int) option" where
  "cbuf_peek_to_fd wr src neg fd len =
     (if neg \<or> len < - 1 then Some (fd, - 1)
      else do {
        c_assert (cbuf_is_valid src);
        let len = (if len = - 1 then cb_used src else len);
        if 0 < len then cbuf_reader src len (cbuf_put_fd wr) fd else Some (fd, 0)
      })"

definition cbuf_read_to_fd :: "('f \<Rightarrow> byte list \<Rightarrow> 'f \<times> int \<times> bool) \<Rightarrow> cbuf \<Rightarrow> bool \<Rightarrow> 'f \<Rightarrow> int \<Rightarrow> (cbuf \<times> 'f \<times> int) option" where
  "cbuf_read_to_fd wr src neg fd len =
     (if neg \<or> len < - 1 then Some (src, fd, - 1)
      else do {
        c_assert (cbuf_is_valid src);
        let len = (if len = - 1 then cb_used src else len);
        (src, fd, n) \<leftarrow> (if 0 < len then do {
            (fd, n) \<leftarrow> cbuf_reader src len (cbuf_put_fd wr) fd;
            src \<leftarrow> (if 0 < n then map_option fst (cbuf_dropper src n) else Some src);
            Some (src, fd, n)
          } else Some (src, fd, 0));
        c_assert (cbuf_is_valid src);
        Some (src, fd, n)
      })"

definition cbuf_replay_to_fd :: "('f \<Rightarrow> byte list \<Rightarrow> 'f \<times> int \<times> bool) \<Rightarrow> cbuf \<Rightarrow> bool \<Rightarrow> 'f \<Rightarrow> int \<Rightarrow> ('f \<times> int) option" where
  "cbuf_replay_to_fd wr src neg fd len =
     (if neg \<or> len < - 1 then Some (fd, - 1)
      else do {
        c_assert (cbuf_is_valid src);
        let len = (if len = - 1 then cb_size src - cb_used src else len);
        if 0 < len then cbuf_replayer src len (cbuf_put_fd wr) fd else Some (fd, 0)
      })"

definition cbuf_write_from_fd :: "(int \<Rightarrow> bool) \<Rightarrow> ('f \<Rightarrow> int \<Rightarrow> 'f \<times> byte list \<times> int \<times> bool) \<Rightarrow> cbuf \<Rightarrow> bool \<Rightarrow> 'f \<Rightarrow> int \<Rightarrow>
    (cbuf \<times> 'f \<times> int \<times> int) option" where
  "cbuf_write_from_fd re rd dst neg fd len =
     (if neg \<or> len < - 1 then Some (dst, fd, - 1, 0)
      else do {
        c_assert (cbuf_is_valid dst);
        let len = (if len = - 1 then (if cb_size dst - cb_used dst = 0 then CBUF_CHUNK else cb_size dst - cb_used dst) else len);
        (dst, fd, n, d) \<leftarrow> (if 0 < len then cbuf_writer re dst len (cbuf_get_fd rd) fd else Some (dst, fd, 0, None));
        c_assert (cbuf_is_valid dst);
        Some (dst, fd, n, case d of None \<Rightarrow> 0 | Some d \<Rightarrow> d)
      })"

subsection \<open>Operations on two buffers\<close>

text \<open>\<open>same\<close> is true if both pointers are equal. The mutexes are taken in the order of the addresses; with
  both held the body is one step.\<close>

definition cbuf_copy :: "(int \<Rightarrow> bool) \<Rightarrow> bool \<Rightarrow> cbuf \<Rightarrow> cbuf \<Rightarrow> int \<Rightarrow> (cbuf \<times> int \<times> int) option" where
  "cbuf_copy re same src dst len =
     (if same then Some (dst, - 1, 0)
      else if len < - 1 then Some (dst, - 1, 0)
      else if len = 0 then Some (dst, 0, 0)
      else do {
        c_assert (cbuf_is_valid src);
        c_assert (cbuf_is_valid dst);
        let len = (if len = - 1 then cb_used src else len);
        (dst, n, d) \<leftarrow> (if 0 < len then cbuf_copier re src dst len else Some (dst, 0, None));
        c_assert (cbuf_is_valid src);
        c_assert (cbuf_is_valid dst);
        Some (dst, n, case d of None \<Rightarrow> 0 | Some d \<Rightarrow> d)
      })"

definition cbuf_move :: "(int \<Rightarrow> bool) \<Rightarrow> bool \<Rightarrow> cbuf \<Rightarrow> cbuf \<Rightarrow> int \<Rightarrow> (cbuf \<times> cbuf \<times> int \<times> int) option" where
  "cbuf_move re same src dst len =
     (if same then Some (src, dst, - 1, 0)
      else if len < - 1 then Some (src, dst, - 1, 0)
      else if len = 0 then Some (src, dst, 0, 0)
      else do {
        c_assert (cbuf_is_valid src);
        c_assert (cbuf_is_valid dst);
        let len = (if len = - 1 then cb_used src else len);
        (src, dst, n, d) \<leftarrow> (if 0 < len then do {
            (dst, n, d) \<leftarrow> cbuf_copier re src dst len;
            src \<leftarrow> (if 0 < n then map_option fst (cbuf_dropper src n) else Some src);
            Some (src, dst, n, d)
          } else Some (src, dst, 0, None));
        c_assert (cbuf_is_valid src);
        c_assert (cbuf_is_valid dst);
        Some (src, dst, n, case d of None \<Rightarrow> 0 | Some d \<Rightarrow> d)
      })"

end
