(* ===== verification/Cbuf_Contents.thy ===== *)
theory Cbuf_Contents
  imports Cbuf
begin

section \<open>What a circular buffer holds\<close>

text \<open>
  The abstraction of a buffer to two byte lists, \<open>cview cb rs us\<close>: the replay data \<open>rs\<close> and the unread
  data \<open>us\<close>, oldest first. The index updates of \<open>cbuf.c\<close>, growing included, are lemmas on these lists.
  The loops of \<open>cbuf_reader\<close> and \<open>cbuf_writer\<close> are treated once, in the locales \<open>byte_sink\<close> and
  \<open>byte_source\<close>, for whatever \<open>putf\<close> and \<open>getf\<close> they call; memory is the first interpretation, file
  descriptors follow in \<open>Cbuf_Refine\<close>. The last part describes the operations that move a number of bytes.
\<close>

subsection \<open>Windows of a circular array\<close>

text \<open>\<open>win d e m\<close>: the \<open>m\<close> bytes before index \<open>e\<close>, oldest first; \<open>ring_put d e bs\<close> stores bytes from
  index \<open>e\<close> on. Indices count modulo the length of the array.\<close>

definition win :: "'a list \<Rightarrow> int \<Rightarrow> nat \<Rightarrow> 'a list" where
  "win d e m = map (\<lambda>k. d ! nat ((e - int m + int k) mod int (length d))) [0..<m]"

fun ring_put :: "'a list \<Rightarrow> int \<Rightarrow> 'a list \<Rightarrow> 'a list" where
  "ring_put d e [] = d"
| "ring_put d e (b # bs) = ring_put (d[nat (e mod int (length d)) := b]) (e + 1) bs"

definition lastn :: "nat \<Rightarrow> 'a list \<Rightarrow> 'a list" where
  "lastn m xs = drop (length xs - m) xs"

lemma win_length [simp]: "length (win d e m) = m"
  by (simp add: win_def)

lemma win_0 [simp]: "win d e 0 = []"
  by (simp add: win_def)

lemma win_nth: "k < m \<Longrightarrow> win d e m ! k = d ! nat ((e - int m + int k) mod int (length d))"
  by (simp add: win_def)

lemma ring_put_length [simp]: "length (ring_put d e bs) = length d"
  by (induction bs arbitrary: d e) simp_all

lemma ring_put_append: "ring_put d e (xs @ ys) = ring_put (ring_put d e xs) (e + int (length xs)) ys"
  by (induction xs arbitrary: d e) (simp_all add: algebra_simps)

lemma ring_put_mod: "ring_put d (e mod int (length d)) bs = ring_put d e bs"
proof (induction bs arbitrary: d e)
  case (Cons b bs)
  let ?d = "d[nat (e mod int (length d)) := b]"
  have "ring_put ?d (e mod int (length d) + 1) bs = ring_put ?d ((e mod int (length d) + 1) mod int (length ?d)) bs"
    by (simp only: Cons.IH)
  also have "(e mod int (length d) + 1) mod int (length ?d) = (e + 1) mod int (length ?d)"
    by (simp add: mod_add_left_eq)
  also have "ring_put ?d \<dots> bs = ring_put ?d (e + 1) bs" by (rule Cons.IH)
  finally show ?case by simp
qed simp

lemma win_mod: "win d (e mod int (length d)) m = win d e m"
proof -
  have "(e mod int (length d) - int m + int k) mod int (length d) = (e - int m + int k) mod int (length d)" for k
    by (metis (no_types, lifting) add.commute add_diff_eq mod_add_right_eq)
  then show ?thesis by (simp add: win_def)
qed

lemma lastn_length [simp]: "length (lastn m xs) = min m (length xs)"
  by (simp add: lastn_def)

lemma lastn_all [simp]: "length xs \<le> m \<Longrightarrow> lastn m xs = xs"
  by (simp add: lastn_def)

lemma lastn_lastn: "lastn m (lastn n xs) = lastn (min m n) xs"
proof (cases "n \<le> length xs")
  case True
  then have "min m n \<le> length xs" "length xs - n + (n - m) = length xs - min m n" by (auto simp: min_def)
  then show ?thesis using True by (simp add: lastn_def add.commute)
qed (simp add: lastn_def min_def)

lemma lastn_app: "length ys = m \<Longrightarrow> lastn m (xs @ ys) = ys"
  by (simp add: lastn_def)

lemma win_lastn: "m \<le> t \<Longrightarrow> lastn m (win d e t) = win d e m"
  by (rule nth_equalityI) (auto simp: lastn_def win_nth algebra_simps of_nat_diff)

lemma win_put1:
  assumes "0 < m" "m \<le> length d"
  shows "win (d[nat (e mod int (length d)) := b]) (e + 1) m = win d e (m - 1) @ [b]"
proof (rule nth_equalityI)
  fix k assume "k < length (win (d[nat (e mod int (length d)) := b]) (e + 1) m)"
  then have k: "k < m" by simp
  let ?N = "int (length d)"
  have N: "0 < ?N" using assms by linarith
  have p: "e + 1 - int m + int k = e - int (m - 1) + int k" using assms(1) by (simp add: of_nat_diff)
  show "win (d[nat (e mod ?N) := b]) (e + 1) m ! k = (win d e (m - 1) @ [b]) ! k"
  proof (cases "k < m - 1")
    case True
    have "(e - int (m - 1) + int k) mod ?N \<noteq> e mod ?N"
    proof
      assume "(e - int (m - 1) + int k) mod ?N = e mod ?N"
      then have "?N dvd ((e - int (m - 1) + int k) - e)" by (simp only: mod_eq_dvd_iff)
      moreover have "(e - int (m - 1) + int k) - e = - (int (m - 1) - int k)" by simp
      ultimately have "?N dvd (int (m - 1) - int k)" by (metis dvd_minus_iff)
      moreover have "0 < int (m - 1) - int k" "int (m - 1) - int k < ?N" using True assms by auto
      ultimately show False using zdvd_not_zless by blast
    qed
    moreover have "0 \<le> (e - int (m - 1) + int k) mod ?N" "0 \<le> e mod ?N" using N by simp_all
    ultimately have "nat (e mod ?N) \<noteq> nat ((e - int (m - 1) + int k) mod ?N)" by linarith
    then show ?thesis using True k unfolding win_nth [OF k] p by (simp add: nth_append win_nth)
  next
    case False
    then have k: "k = m - 1" using k by simp
    have "nat (e mod ?N) < length d" using N by (simp add: nat_less_iff)
    then show ?thesis using k assms(1) by (simp add: win_nth nth_append of_nat_diff)
  qed
qed (use assms in simp)

lemma win_put:
  assumes "m \<le> length d"
  shows "win (ring_put d e bs) (e + int (length bs)) m = lastn m (win d e (m - length bs) @ bs)"
  using assms
proof (induction bs arbitrary: d e m rule: rev_induct)
  case Nil
  then show ?case by (simp add: lastn_def)
next
  case (snoc b bs)
  let ?r = "ring_put d e bs"
  have e: "ring_put d e (bs @ [b]) = ?r[nat ((e + int (length bs)) mod int (length ?r)) := b]"
    by (simp add: ring_put_append)
  show ?case
  proof (cases "m = 0")
    case True
    then show ?thesis by (simp add: lastn_def win_def)
  next
    case False
    have "win (ring_put d e (bs @ [b])) (e + int (length (bs @ [b]))) m = win ?r (e + int (length bs)) (m - 1) @ [b]"
      unfolding e using win_put1 [of m ?r "e + int (length bs)" b] False snoc.prems by (simp add: algebra_simps)
    also have "win ?r (e + int (length bs)) (m - 1) = lastn (m - 1) (win d e (m - 1 - length bs) @ bs)"
      using snoc.prems by (intro snoc.IH) simp
    finally show ?thesis using False by (simp add: lastn_def Suc_diff_le)
  qed
qed

lemma win_split: "win d e (a + b) = win d (e - int b) a @ win d e b"
proof (rule nth_equalityI)
  fix k assume "k < length (win d e (a + b))"
  then have k: "k < a + b" by simp
  show "win d e (a + b) ! k = (win d (e - int b) a @ win d e b) ! k"
  proof (cases "k < a")
    case True
    then show ?thesis using k by (simp add: win_nth nth_append algebra_simps)
  next
    case False
    then have "int (k - a) = int k - int a" by simp
    then show ?thesis using False k by (simp add: win_nth nth_append algebra_simps)
  qed
qed simp

lemma win_take: "m \<le> t \<Longrightarrow> take m (win d e t) = win d (e - int (t - m)) m"
  using win_split [of d e m "t - m"] by simp

lemma win_drop: "m \<le> t \<Longrightarrow> drop m (win d e t) = win d e (t - m)"
  using win_split [of d e m "t - m"] by simp

lemma slice_win:
  assumes "0 \<le> i" "i + int n \<le> int (length d)"
  shows "take n (drop (nat i) d) = win d (i + int n) n"
proof (rule nth_equalityI)
  fix k assume "k < length (take n (drop (nat i) d))"
  then have k: "k < n" by simp
  have "(i + int k) mod int (length d) = i + int k" using assms k by (intro mod_pos_pos_trivial) simp_all
  then show "take n (drop (nat i) d) ! k = win d (i + int n) n ! k"
    using assms k by (simp add: win_nth nat_add_distrib)
qed (use assms in simp)

lemma c_slice_win: "0 \<le> i \<Longrightarrow> 0 \<le> n \<Longrightarrow> i + n \<le> int (length d) \<Longrightarrow> c_slice d i n = Some (win d (i + n) (nat n))"
  using slice_win [of i "nat n" d] by (simp add: c_slice_def)

lemma splice_put:
  assumes "0 \<le> i" "i + int (length bs) \<le> int (length d)"
  shows "take (nat i) d @ bs @ drop (nat i + length bs) d = ring_put d i bs"
  using assms
proof (induction bs arbitrary: d i)
  case (Cons b bs)
  have i: "nat i < length d" "nat (i mod int (length d)) = nat i" "nat (i + 1) = Suc (nat i)" using Cons.prems by simp_all
  have "ring_put (d[nat i := b]) (i + 1) bs = take (Suc (nat i)) (d[nat i := b]) @ bs @ drop (Suc (nat i) + length bs) (d[nat i := b])"
    using Cons.IH [of "i + 1" "d[nat i := b]"] Cons.prems i(3) by simp
  also have "take (Suc (nat i)) (d[nat i := b]) = take (nat i) d @ [b]" using i(1) by (simp add: take_Suc_conv_app_nth)
  finally show ?case using i by simp
qed simp

lemma c_splice_put: "0 \<le> i \<Longrightarrow> i + int (length bs) \<le> int (length d) \<Longrightarrow> c_splice d i bs = Some (ring_put d i bs)"
  using splice_put [of i bs d] by (simp add: c_splice_def)

subsection \<open>Index arithmetic\<close>

lemma mod_near:
  "- n \<le> x \<Longrightarrow> x < n \<Longrightarrow> x mod n = (if x < 0 then x + n else x)"
  "0 \<le> x \<Longrightarrow> x < 2 * n \<Longrightarrow> x mod n = (if x < n then x else x - n)" for x n :: int
proof -
  show "x mod n = (if x < 0 then x + n else x)" if "- n \<le> x" "x < n"
  proof (cases "x < 0")
    case True
    have "x mod n = (x + n) mod n" by simp
    also have "\<dots> = x + n" using that True by (intro mod_pos_pos_trivial) simp_all
    finally show ?thesis using True by simp
  qed (use that in simp)
  show "x mod n = (if x < n then x else x - n)" if "0 \<le> x" "x < 2 * n"
  proof (cases "x < n")
    case False
    have "x mod n = (x - n) mod n" by (metis minus_mod_self2)
    also have "\<dots> = x - n" using that False by (intro mod_pos_pos_trivial) simp_all
    finally show ?thesis using False by simp
  qed (use that in simp)
qed

text \<open>The part of the invariant that does not concern the indices.\<close>

definition sizes_ok :: "cbuf \<Rightarrow> bool" where
  "sizes_ok cb \<longleftrightarrow> cb_size cb < cb_alloc cb \<and> 0 < cb_minsize cb \<and> cb_minsize cb \<le> cb_size cb \<and> cb_size cb \<le> cb_maxsize cb \<and>
     int (length (cb_data cb)) = cb_size cb + 1"

text \<open>The indices as distances from \<open>i_in\<close>.\<close>

definition idx_ok :: "cbuf \<Rightarrow> int \<Rightarrow> bool" where
  "idx_ok cb r \<longleftrightarrow> 0 \<le> cb_i_in cb \<and> cb_i_in cb \<le> cb_size cb \<and> 0 \<le> cb_used cb \<and> 0 \<le> r \<and> cb_used cb + r \<le> cb_size cb \<and>
     cb_i_out cb = (cb_i_in cb - cb_used cb) mod (cb_size cb + 1) \<and>
     cb_i_rep cb = (cb_i_in cb - cb_used cb - r) mod (cb_size cb + 1) \<and> (cb_got_wrap cb \<or> cb_i_rep cb = 0)"

lemma valid_idx:
  assumes "cbuf_is_valid cb"
  shows "idx_ok cb (reused_of cb)"
proof -
  have v: "0 < cb_size cb" "0 \<le> cb_used cb" "cb_used cb \<le> cb_size cb" "cb_got_wrap cb \<or> cb_i_rep cb = 0"
     "0 \<le> cb_i_in cb" "cb_i_in cb \<le> cb_size cb" "0 \<le> cb_i_out cb" "cb_i_out cb \<le> cb_size cb"
     "0 \<le> cb_i_rep cb" "cb_i_rep cb \<le> cb_size cb"
    and o: "if cb_i_out cb \<le> cb_i_in cb then cb_i_in cb < cb_i_rep cb \<or> cb_i_rep cb \<le> cb_i_out cb
      else cb_i_in cb < cb_i_rep cb \<and> cb_i_rep cb \<le> cb_i_out cb"
    and f: "cb_size cb - cb_used cb = (cb_i_out cb - cb_i_in cb - 1 + (cb_size cb + 1)) mod (cb_size cb + 1)"
    using assms by (simp_all add: cbuf_is_valid_def)
  have f': "cb_size cb - cb_used cb = (if cb_i_out cb \<le> cb_i_in cb then cb_i_out cb - cb_i_in cb + cb_size cb else cb_i_out cb - cb_i_in cb - 1)"
    using f mod_near(2) [of "cb_i_out cb - cb_i_in cb - 1 + (cb_size cb + 1)" "cb_size cb + 1"] v by (simp split: if_splits)
  have r: "reused_of cb = (if cb_i_rep cb \<le> cb_i_out cb then cb_i_out cb - cb_i_rep cb else cb_i_out cb - cb_i_rep cb + (cb_size cb + 1))"
    using mod_near(2) [of "cb_i_out cb - cb_i_rep cb + (cb_size cb + 1)" "cb_size cb + 1"] v by (simp add: reused_of_def split: if_splits)
  have b: "0 \<le> reused_of cb" "cb_used cb + reused_of cb \<le> cb_size cb" using f' r o v by (auto split: if_splits)
  have "cb_i_out cb = (cb_i_in cb - cb_used cb) mod (cb_size cb + 1)"
    using mod_near(1) [of "cb_size cb + 1" "cb_i_in cb - cb_used cb"] f' v by (auto split: if_splits)
  moreover have "cb_i_rep cb = (cb_i_in cb - cb_used cb - reused_of cb) mod (cb_size cb + 1)"
    using mod_near(1) [of "cb_size cb + 1" "cb_i_in cb - cb_used cb - reused_of cb"] f' r o v b by (auto split: if_splits)
  ultimately show ?thesis using v b by (simp add: idx_ok_def)
qed

lemma idx_valid:
  assumes "sizes_ok cb" "idx_ok cb r"
  shows "cbuf_is_valid cb" "reused_of cb = r"
proof -
  let ?S = "cb_size cb"
  have v: "0 \<le> cb_i_in cb" "cb_i_in cb \<le> ?S" "0 \<le> cb_used cb" "0 \<le> r" "cb_used cb + r \<le> ?S" "cb_got_wrap cb \<or> cb_i_rep cb = 0"
    and s: "0 < ?S" "?S < cb_alloc cb" "0 < cb_minsize cb" "cb_minsize cb \<le> ?S" "?S \<le> cb_maxsize cb"
    using assms by (auto simp: idx_ok_def sizes_ok_def)
  have o: "cb_i_out cb = (if cb_i_in cb < cb_used cb then cb_i_in cb - cb_used cb + (?S + 1) else cb_i_in cb - cb_used cb)"
    using assms(2) v mod_near(1) [of "?S + 1" "cb_i_in cb - cb_used cb"] by (simp add: idx_ok_def)
  have p: "cb_i_rep cb = (if cb_i_in cb < cb_used cb + r then cb_i_in cb - cb_used cb - r + (?S + 1) else cb_i_in cb - cb_used cb - r)"
    using assms(2) v mod_near(1) [of "?S + 1" "cb_i_in cb - cb_used cb - r"] by (simp add: idx_ok_def)
  have "(cb_i_out cb - cb_i_in cb - 1 + (?S + 1)) mod (?S + 1) = ?S - cb_used cb"
    using o v mod_near(2) [of "cb_i_out cb - cb_i_in cb - 1 + (?S + 1)" "?S + 1"] by (auto split: if_splits)
  then show "cbuf_is_valid cb" using v s o p by (simp add: cbuf_is_valid_def)
  show "reused_of cb = r"
    using o p v mod_near(2) [of "cb_i_out cb - cb_i_rep cb + (?S + 1)" "?S + 1"] by (auto simp: reused_of_def split: if_splits)
qed

subsection \<open>The contents of a buffer\<close>

text \<open>\<open>cview cb rs us\<close>: the buffer is valid, with the replay data \<open>rs\<close> and the unread data \<open>us\<close>.\<close>

definition cview :: "cbuf \<Rightarrow> byte list \<Rightarrow> byte list \<Rightarrow> bool" where
  "cview cb rs us \<longleftrightarrow> sizes_ok cb \<and> idx_ok cb (int (length rs)) \<and> int (length us) = cb_used cb \<and>
     rs @ us = win (cb_data cb) (cb_i_in cb) (length rs + length us)"

lemma cviewD:
  assumes "cview cb rs us"
  shows "cbuf_is_valid cb" "reused_of cb = int (length rs)" "cb_used cb = int (length us)"
    "int (length rs) + int (length us) \<le> cb_size cb" "int (length (cb_data cb)) = cb_size cb + 1" "0 < cb_size cb"
    "cb_i_out cb = (cb_i_in cb - int (length us)) mod (cb_size cb + 1)" "0 \<le> cb_i_in cb" "cb_i_in cb \<le> cb_size cb"
    "us = win (cb_data cb) (cb_i_in cb) (length us)" "rs = win (cb_data cb) (cb_i_in cb - int (length us)) (length rs)"
proof -
  note c = assms [unfolded cview_def]
  show "cbuf_is_valid cb" "reused_of cb = int (length rs)" using idx_valid [of cb "int (length rs)"] c by auto
  show "cb_used cb = int (length us)" "int (length rs) + int (length us) \<le> cb_size cb" "int (length (cb_data cb)) = cb_size cb + 1" "0 < cb_size cb"
    "cb_i_out cb = (cb_i_in cb - int (length us)) mod (cb_size cb + 1)" "0 \<le> cb_i_in cb" "cb_i_in cb \<le> cb_size cb"
    using c by (auto simp: idx_ok_def sizes_ok_def)
  show "us = win (cb_data cb) (cb_i_in cb) (length us)" "rs = win (cb_data cb) (cb_i_in cb - int (length us)) (length rs)"
    using c win_split [of "cb_data cb" "cb_i_in cb" "length rs" "length us"] by (auto simp: append_eq_append_conv)
qed

text \<open>Every valid buffer has contents.\<close>

lemma valid_cview:
  assumes "cbuf_is_valid cb" "int (length (cb_data cb)) = cb_size cb + 1"
  obtains rs us where "cview cb rs us"
proof -
  have i: "idx_ok cb (reused_of cb)" by (rule valid_idx [OF assms(1)])
  then have n: "0 \<le> cb_used cb" "0 \<le> reused_of cb" by (simp_all add: idx_ok_def)
  have "sizes_ok cb" using assms by (auto simp: cbuf_is_valid_def sizes_ok_def)
  then have "cview cb (win (cb_data cb) (cb_i_in cb - cb_used cb) (nat (reused_of cb))) (win (cb_data cb) (cb_i_in cb) (nat (cb_used cb)))"
    using i n win_split [of "cb_data cb" "cb_i_in cb" "nat (reused_of cb)" "nat (cb_used cb)"] by (simp add: cview_def)
  then show thesis using that by blast
qed

subsection \<open>The index updates\<close>

lemma mod_shift: "((a mod n) + b) mod n = (a + b) mod n" "((a mod n) - b) mod n = (a - b) mod n"
   "(a mod n - b + n) mod n = (a - b) mod n" for a b n :: int
  by (simp_all add: mod_simps)

lemma mod_wrap: "(x - n) mod (n + 1) = (x + 1) mod (n + 1)" for x n :: int
proof -
  have "x - n = (x + 1) - (n + 1)" by simp
  then show ?thesis by (simp only: minus_mod_self2)
qed

lemma drop_view:
  assumes v: "cview cb rs us" and k: "k \<le> length us"
  shows "cview (cb\<lparr>cb_used := cb_used cb - int k, cb_i_out := (cb_i_out cb + int k) mod (cb_size cb + 1)\<rparr>)
    (rs @ take k us) (drop k us)"
proof -
  note d = cviewD [OF v]
  have u: "int (length us - k) = int (length us) - int k" using k by simp
  have o: "(cb_i_out cb + int k) mod (cb_size cb + 1) = (cb_i_in cb - int (length us - k)) mod (cb_size cb + 1)"
    unfolding d(7) mod_shift u by (simp add: algebra_simps)
  have "length (take k us) = k" using k by simp
  then show ?thesis using v k d(3,4) o unfolding cview_def
    by (auto simp: idx_ok_def sizes_ok_def algebra_simps of_nat_diff)
qed

lemma rewind_view:
  assumes v: "cview cb rs us" and k: "k \<le> length rs"
  shows "cview (cb\<lparr>cb_used := cb_used cb + int k, cb_i_out := (cb_i_out cb - int k + (cb_size cb + 1)) mod (cb_size cb + 1)\<rparr>)
    (take (length rs - k) rs) (drop (length rs - k) rs @ us)"
proof -
  note d = cviewD [OF v]
  have o: "(cb_i_out cb - int k + (cb_size cb + 1)) mod (cb_size cb + 1) = (cb_i_in cb - (int (length us) + int k)) mod (cb_size cb + 1)"
    unfolding d(7) mod_shift by (simp add: algebra_simps)
  have "take (length rs - k) rs @ drop (length rs - k) rs @ us = rs @ us" by (simp flip: append_assoc)
  then show ?thesis using v k d(3,4) o unfolding cview_def
    by (auto simp: idx_ok_def sizes_ok_def algebra_simps of_nat_diff)
qed

lemma cbuf_dropper_view:
  assumes "cview cb rs us" "0 < len" "len \<le> int (length us)"
  shows "\<exists>cb'. cbuf_dropper cb len = Some (cb', len) \<and> cview cb' (rs @ take (nat len) us) (drop (nat len) us) \<and>
    cb_overwrite cb' = cb_overwrite cb \<and> cb_size cb' = cb_size cb"
proof -
  let ?c = "cb\<lparr>cb_used := cb_used cb - len, cb_i_out := (cb_i_out cb + len) mod (cb_size cb + 1)\<rparr>"
  have v: "cview ?c (rs @ take (nat len) us) (drop (nat len) us)"
    using drop_view [OF assms(1), of "nat len"] assms(2,3) by simp
  have "cbuf_shrink ?c = Some (?c, 0)" using cviewD(1) [OF v] by (simp add: cbuf_shrink_def)
  then show ?thesis using assms v cviewD(3) [OF assms(1)] by (intro exI [of _ ?c]) (simp add: cbuf_dropper_def Let_def)
qed

lemma cbuf_flush_view:
  assumes "cview cb rs us"
  shows "\<exists>cb'. cbuf_flush cb = Some cb' \<and> cview cb' [] [] \<and> cb_overwrite cb' = cb_overwrite cb \<and> cb_size cb' = cb_size cb"
proof -
  let ?c = "cb\<lparr>cb_used := 0, cb_got_wrap := False, cb_i_in := 0, cb_i_out := 0, cb_i_rep := 0\<rparr>"
  have v: "cview ?c [] []" using assms by (simp add: cview_def idx_ok_def sizes_ok_def win_def)
  show ?thesis using cviewD(1) [OF assms] cviewD(1) [OF v] v by (simp add: cbuf_flush_def Let_def)
qed

lemma cbuf_create_view:
  assumes "0 < minsize"
  shows "\<exists>cb. cbuf_create minsize maxsize = Some (Some cb) \<and> cview cb [] [] \<and> cb_overwrite cb = CBUF_WRAP_MANY \<and>
    cb_size cb = minsize \<and> cb_minsize cb = minsize \<and> cb_maxsize cb = max minsize maxsize"
proof -
  let ?c = "\<lparr>cb_alloc = minsize + 1 + 2 * CBUF_MAGIC_LEN, cb_minsize = minsize,
          cb_maxsize = (if minsize < maxsize then maxsize else minsize), cb_size = minsize, cb_used = 0,
          cb_overwrite = CBUF_WRAP_MANY, cb_got_wrap = False, cb_i_in = 0, cb_i_out = 0, cb_i_rep = 0,
          cb_data = replicate (nat minsize + 1) 0\<rparr>"
  have v: "cview ?c [] []" using assms by (simp add: cview_def idx_ok_def sizes_ok_def CBUF_MAGIC_LEN_def win_def)
  show ?thesis using assms cviewD(1) [OF v] v by (simp add: cbuf_create_def Let_def max_def)
qed

text \<open>Storing \<open>bs\<close>: with \<open>S\<close> the size, the last \<open>S\<close> bytes of everything stay, and of these the last bytes
  up to the old and new unread ones are unread.\<close>

definition put_us :: "nat \<Rightarrow> byte list \<Rightarrow> byte list \<Rightarrow> byte list" where
  "put_us S us bs = lastn S (us @ bs)"

definition put_rs :: "nat \<Rightarrow> byte list \<Rightarrow> byte list \<Rightarrow> byte list \<Rightarrow> byte list" where
  "put_rs S rs us bs = (let all = lastn S (rs @ us @ bs) in take (length all - length (put_us S us bs)) all)"

lemma lastn_suffix: "m \<le> length ys \<Longrightarrow> lastn m (xs @ ys) = lastn m ys"
  by (simp add: lastn_def)

lemma lastn_append: "length ys \<le> m \<Longrightarrow> lastn m (xs @ ys) = lastn (m - length ys) xs @ ys"
  by (auto simp: lastn_def)

lemma lastn_keep: "lastn m (lastn (m - length ys) xs @ ys) = lastn m (xs @ ys)"
proof (cases "length ys \<le> m")
  case True
  then show ?thesis using lastn_append [of ys m xs] lastn_append [of ys m "lastn (m - length ys) xs"] by (simp add: lastn_lastn)
qed (simp add: lastn_suffix)

lemma lastn_again: "lastn (length (lastn m ys)) ys = lastn m ys"
  by (simp add: lastn_def min_def)

lemma put_split: "put_rs S rs us bs @ put_us S us bs = lastn S (rs @ us @ bs)"
proof -
  let ?all = "lastn S (rs @ us @ bs)"
  have "drop (length ?all - length (put_us S us bs)) ?all = lastn (length (put_us S us bs)) ?all" by (simp add: lastn_def)
  also have "\<dots> = lastn (length (put_us S us bs)) (rs @ us @ bs)" by (simp add: lastn_lastn put_us_def min.absorb1)
  also have "\<dots> = put_us S us bs" unfolding put_us_def
    using lastn_suffix [of "length (lastn S (us @ bs))" "us @ bs" rs] lastn_again [of S "us @ bs"] by simp
  finally show ?thesis unfolding put_rs_def Let_def by (metis append_take_drop_id)
qed

lemma put_lengths:
  "length (put_us S us bs) = min S (length us + length bs)"
  "length (put_rs S rs us bs) = min S (length rs + length us + length bs) - min S (length us + length bs)"
  by (simp_all add: put_us_def put_rs_def Let_def add.assoc)

lemma advance_view:
  assumes v: "cview cb rs us" and b: "bs \<noteq> []" and nf: "nfree = cb_size cb - cb_used cb"
    and i: "i_dst = (cb_i_in cb + int (length bs)) mod (cb_size cb + 1)"
  shows "\<exists>cb'. cbuf_advance (cb\<lparr>cb_data := ring_put (cb_data cb) (cb_i_in cb) bs\<rparr>) (int (length bs)) nfree i_dst = Some cb' \<and>
    cview cb' (put_rs (nat (cb_size cb)) rs us bs) (put_us (nat (cb_size cb)) us bs) \<and>
    cb_overwrite cb' = cb_overwrite cb \<and> cb_size cb' = cb_size cb \<and> cb_maxsize cb' = cb_maxsize cb"
proof -
  note d = cviewD [OF v]
  let ?S = "cb_size cb"
  let ?n = "length bs"
  let ?all = "length rs + length us + ?n"
  let ?us = "put_us (nat ?S) us bs"
  let ?rs = "put_rs (nat ?S) rs us bs"
  have S: "int (nat ?S) = ?S" using d(6) by simp
  have lu: "int (length ?us) = min (cb_used cb + int ?n) ?S" unfolding put_lengths using d(3) S by (simp add: min_def) linarith
  have lt: "length ?rs + length ?us = min (nat ?S) ?all" unfolding put_lengths by simp
  define c1 where "c1 = cb\<lparr>cb_data := ring_put (cb_data cb) (cb_i_in cb) bs, cb_used := min (cb_used cb + int ?n) ?S, cb_i_in := i_dst\<rparr>"
  define c2 where "c2 = (if nfree - int (length rs) < int ?n then c1\<lparr>cb_got_wrap := True, cb_i_rep := (i_dst + 1) mod (?S + 1)\<rparr> else c1)"
  define c3 where "c3 = (if nfree < int ?n then c2\<lparr>cb_i_out := cb_i_rep c2\<rparr> else c2)"
  have r0: "reused_of (cb\<lparr>cb_data := x\<rparr>) = int (length rs)" for x using d(2) by (simp add: reused_of_def)
  have e: "cbuf_advance (cb\<lparr>cb_data := ring_put (cb_data cb) (cb_i_in cb) bs\<rparr>) (int ?n) nfree i_dst = Some c3"
    unfolding cbuf_advance_def r0 by (simp add: Let_def i c3_def c2_def c1_def)
  have w: "(nfree - int (length rs) < int ?n) = (nat ?S < ?all)" "(nfree < int ?n) = (nat ?S < length us + ?n)"
    unfolding nf d(3) using S by linarith+
  have io: "cb_i_out c3 = (i_dst - int (length ?us)) mod (?S + 1)"
  proof (cases "nfree < int ?n")
    case True
    then have "int (length ?us) = ?S" using lu d(3) nf by linarith
    moreover have "nfree - int (length rs) < int ?n" using True by linarith
    ultimately show ?thesis using True by (simp add: c3_def c2_def mod_wrap)
  next
    case False
    then have "int (length ?us) = int (length us) + int ?n" using lu d(3) nf by linarith
    then show ?thesis using False d(7) by (simp add: c3_def c2_def c1_def i mod_shift algebra_simps)
  qed
  have ir: "cb_i_rep c3 = (i_dst - int (length ?us) - int (length ?rs)) mod (?S + 1) \<and> (cb_got_wrap c3 \<or> cb_i_rep c3 = 0)"
  proof (cases "nfree - int (length rs) < int ?n")
    case True
    then have "int (length ?us) + int (length ?rs) = ?S" using lt w(1) S by linarith
    then have "(i_dst - int (length ?us) - int (length ?rs)) mod (?S + 1) = (i_dst + 1) mod (?S + 1)"
      by (simp add: diff_diff_eq mod_wrap)
    then show ?thesis using True by (simp add: c3_def c2_def)
  next
    case False
    then have nw: "\<not> nfree < int ?n" by linarith
    have "int (length ?us) + int (length ?rs) = int (length rs) + int (length us) + int ?n" using False lt w(1) by linarith
    then have "(i_dst - int (length ?us) - int (length ?rs)) mod (?S + 1) = (cb_i_in cb - int (length us) - int (length rs)) mod (?S + 1)"
      unfolding i by (simp add: diff_diff_eq mod_shift algebra_simps)
    moreover have "cb_i_rep cb = (cb_i_in cb - int (length us) - int (length rs)) mod (?S + 1)" "cb_got_wrap cb \<or> cb_i_rep cb = 0"
      using v d(3) by (auto simp: cview_def idx_ok_def)
    ultimately show ?thesis using False nw by (simp add: c3_def c2_def c1_def)
  qed
  have fields: "cb_i_in c3 = i_dst" "cb_used c3 = int (length ?us)" "cb_size c3 = ?S" "cb_data c3 = ring_put (cb_data cb) (cb_i_in cb) bs"
      "cb_overwrite c3 = cb_overwrite cb" "sizes_ok c3" "cb_maxsize c3 = cb_maxsize cb"
    using v lu by (simp_all add: c3_def c2_def c1_def cview_def sizes_ok_def)
  have ib: "0 \<le> i_dst" "i_dst \<le> ?S" using d(6) i pos_mod_bound [of "?S + 1" "cb_i_in cb + int ?n"] by simp_all
  have "idx_ok c3 (int (length ?rs))"
    unfolding idx_ok_def fields using ib io ir lt S by linarith
  moreover have "?rs @ ?us = win (cb_data c3) (cb_i_in c3) (length ?rs + length ?us)"
  proof -
    let ?t = "min (nat ?S) ?all"
    have N: "nat ?S < length (cb_data cb)" using d(5) S by linarith
    have "win (cb_data c3) (cb_i_in c3) ?t = win (ring_put (cb_data cb) (cb_i_in cb) bs) (cb_i_in cb + int ?n) ?t"
      unfolding fields i using win_mod [of "ring_put (cb_data cb) (cb_i_in cb) bs" "cb_i_in cb + int ?n"] d(5) by simp
    also have "\<dots> = lastn ?t (win (cb_data cb) (cb_i_in cb) (?t - ?n) @ bs)" using N by (intro win_put) simp
    also have "win (cb_data cb) (cb_i_in cb) (?t - ?n) = lastn (?t - ?n) (rs @ us)"
      using v by (simp add: cview_def win_lastn)
    also have "lastn ?t (lastn (?t - ?n) (rs @ us) @ bs) = lastn ?t (rs @ us @ bs)"
      using lastn_keep [of ?t bs "rs @ us"] by simp
    also have "\<dots> = lastn (nat ?S) (rs @ us @ bs)"
      using lastn_again [of "nat ?S" "rs @ us @ bs"] by (simp only: lastn_length length_append add.assoc)
    finally show ?thesis unfolding put_split lt by simp
  qed
  ultimately have "cview c3 ?rs ?us" using fields by (simp add: cview_def)
  then show ?thesis using e fields by blast
qed

subsection \<open>Growing\<close>

text \<open>The array after a growth from \<open>s\<close> to \<open>t\<close>: where the contents wrap around the end, the part before
  the end has been moved to the new end.\<close>

lemma grow_window:
  assumes "length d = nat s + 1" "0 < s" "s < t" "0 \<le> e" "e \<le> s" "int m \<le> s" "t + 1 = int (length d')"
    and lo: "\<And>j. 0 \<le> j \<Longrightarrow> j < e \<Longrightarrow> d' ! nat j = d ! nat j"
    and hi: "\<And>j. e - int m + (s + 1) \<le> j \<Longrightarrow> j \<le> s \<Longrightarrow> e < int m \<Longrightarrow> d' ! nat (j + (t - s)) = d ! nat j"
  shows "win d' e m = win d e m"
proof (rule nth_equalityI)
  fix k assume "k < length (win d' e m)"
  then have k: "k < m" by simp
  let ?x = "e - int m + int k"
  have N: "int (length d) = s + 1" using assms by simp
  have m1: "?x mod (s + 1) = (if ?x < 0 then ?x + (s + 1) else ?x)" using assms k by (intro mod_near(1)) linarith+
  have m2: "?x mod (t + 1) = (if ?x < 0 then ?x + (t + 1) else ?x)" using assms k by (intro mod_near(1)) linarith+
  show "win d' e m ! k = win d e m ! k"
  proof (cases "?x < 0")
    case True
    have "d' ! nat (?x + (s + 1) + (t - s)) = d ! nat (?x + (s + 1))" using True k assms by (intro hi) linarith+
    moreover have "?x + (s + 1) + (t - s) = ?x + (t + 1)" by simp
    ultimately show ?thesis using True k N assms(7) m1 m2 by (simp add: win_nth)
  next
    case False
    then show ?thesis using k N assms(7) m1 m2 lo [of ?x] by (simp add: win_nth)
  qed
qed simp

lemma cbuf_grow_view:
  assumes v: "cview cb rs us" and n: "0 < n"
  shows "\<exists>cb' g. cbuf_grow re cb n = Some (cb', g) \<and> cview cb' rs us \<and> cb_size cb' = cb_size cb + g \<and> 0 \<le> g \<and>
    cb_overwrite cb' = cb_overwrite cb \<and> cb_maxsize cb' = cb_maxsize cb \<and> cb_minsize cb' = cb_minsize cb \<and>
    ((\<forall>m. re m) \<longrightarrow> cb_size cb' = cb_maxsize cb \<or> n \<le> g)"
proof (cases "cb_size cb = cb_maxsize cb")
  case True
  then show ?thesis using v n by (simp add: cbuf_grow_def)
next
  case False
  note d = cviewD [OF v]
  let ?s = "cb_size cb"
  define meta where "meta = cb_alloc cb - ?s"
  define m where "m = min (cb_alloc cb + n + (CBUF_CHUNK - (cb_alloc cb + n) mod CBUF_CHUNK)) (cb_maxsize cb + meta)"
  have sz: "?s < cb_maxsize cb" "0 < meta" "0 < cb_minsize cb" "cb_minsize cb \<le> ?s"
    using v False by (auto simp: cview_def sizes_ok_def meta_def)
  have "0 < CBUF_CHUNK - (cb_alloc cb + n) mod CBUF_CHUNK" by (simp add: CBUF_CHUNK_def)
  then have m: "cb_alloc cb < m" "m \<le> cb_maxsize cb + meta" "m = cb_maxsize cb + meta \<or> cb_alloc cb + n \<le> m"
    using sz n by (auto simp: m_def meta_def min_def)
  define t where "t = m - meta"
  have t: "?s < t" "t \<le> cb_maxsize cb" "t = cb_maxsize cb \<or> ?s + n \<le> t" using m by (auto simp: t_def meta_def)
  show ?thesis
  proof (cases "re m")
    case nre: False
    have "cbuf_grow re cb n = Some (cb, 0)"
      using False n sz m(1) nre unfolding cbuf_grow_def Let_def meta_def [symmetric] m_def [symmetric] by simp
    then show ?thesis using v nre by auto
  next
    case re: True
    define ext where "ext = take (nat (t + 1)) (cb_data cb @ replicate (nat (t - ?s)) 0)"
    have le: "length (cb_data cb) = nat ?s + 1" using d(5,6) by linarith
    have lext: "int (length ext) = t + 1" "length ext = nat t + 1" using t d(6) le by (auto simp: ext_def nat_add_distrib)
    have ext_nth: "ext ! j = cb_data cb ! j" if "j < nat ?s + 1" for j
      using that t d(6) le by (simp add: ext_def nth_append)
    define c1 where "c1 = cb\<lparr>cb_alloc := m, cb_size := t, cb_data := ext\<rparr>"
    have s1: "sizes_ok (c1\<lparr>cb_data := x, cb_i_out := y, cb_i_rep := z\<rparr>)" if "length x = length ext" for x y z
      using that t sz lext m by (simp add: sizes_ok_def c1_def t_def)
    have s0: "sizes_ok c1" using t sz lext m by (simp add: sizes_ok_def c1_def t_def)
    have idx: "cb_i_out cb = (cb_i_in cb - int (length us)) mod (?s + 1)" "cb_i_rep cb = (cb_i_in cb - int (length us) - int (length rs)) mod (?s + 1)"
        "cb_got_wrap cb \<or> cb_i_rep cb = 0"
      using v d(3) by (auto simp: cview_def idx_ok_def)
    have io: "cb_i_out cb = (if cb_i_in cb < int (length us) then cb_i_in cb - int (length us) + (?s + 1) else cb_i_in cb - int (length us))"
      unfolding idx(1) using d(4,8,9) mod_near(1) [of "?s + 1" "cb_i_in cb - int (length us)"] by simp
    have ir: "cb_i_rep cb = (if cb_i_in cb < int (length us) + int (length rs) then cb_i_in cb - int (length us) - int (length rs) + (?s + 1)
        else cb_i_in cb - int (length us) - int (length rs))"
      unfolding idx(2) using d(4,8,9) mod_near(1) [of "?s + 1" "cb_i_in cb - int (length us) - int (length rs)"] by simp
    have tm: "(cb_i_in cb - int (length us)) mod (t + 1) = (if cb_i_in cb < int (length us) then cb_i_in cb - int (length us) + (t + 1) else cb_i_in cb - int (length us))"
       "(cb_i_in cb - int (length us) - int (length rs)) mod (t + 1) = (if cb_i_in cb < int (length us) + int (length rs) then cb_i_in cb - int (length us) - int (length rs) + (t + 1)
        else cb_i_in cb - int (length us) - int (length rs))"
      using d(4,8,9) t mod_near(1) [of "t + 1" "cb_i_in cb - int (length us)"] mod_near(1) [of "t + 1" "cb_i_in cb - int (length us) - int (length rs)"] by simp_all
    have w: "rs @ us = win (cb_data cb) (cb_i_in cb) (length rs + length us)" using v by (simp add: cview_def)
    have g: "cbuf_grow re cb n = do {
         cb \<leftarrow> (if cb_i_in c1 < cb_i_rep c1 then do {
             let n = (?s + 1) - cb_i_rep c1;
             let m = (cb_size c1 + 1) - n;
             bs \<leftarrow> c_slice (cb_data c1) (cb_i_rep c1) n;
             data \<leftarrow> c_splice (cb_data c1) m bs;
             Some (c1\<lparr>cb_data := data,
               cb_i_out := (if cb_i_rep c1 \<le> cb_i_out c1 then cb_i_out c1 + (m - cb_i_rep c1) else cb_i_out c1),
               cb_i_rep := m\<rparr>)
           } else Some c1);
         c_assert (cbuf_is_valid cb);
         Some (cb, cb_size cb - ?s)
       }"
      using False n sz m(1) re unfolding cbuf_grow_def Let_def meta_def [symmetric] m_def [symmetric] t_def [symmetric] ext_def [symmetric]
      by (simp add: c1_def)
    have fin: ?thesis if "cbuf_grow re cb n = do { c_assert (cbuf_is_valid c); Some (c, cb_size c - ?s) }" "cview c rs us"
        "cb_size c = t" "cb_overwrite c = cb_overwrite cb" "cb_maxsize c = cb_maxsize cb" "cb_minsize c = cb_minsize cb" for c
      using that cviewD(1) [OF that(2)] t by (intro exI [of _ c] exI [of _ "t - ?s"]) auto
    show ?thesis
    proof (cases "cb_i_in cb < cb_i_rep cb")
      case False
      have nw: "\<not> cb_i_in cb < int (length us) + int (length rs)" using False ir d(4) by (auto split: if_splits)
      have "win ext (cb_i_in cb) (length rs + length us) = win (cb_data cb) (cb_i_in cb) (length rs + length us)"
        using le d(4,6,8,9) t(1) lext(1) nw by (intro grow_window [of _ ?s t]) (auto intro!: ext_nth)
      then have "cview c1 rs us" using s0 w nw io ir tm d(3,4,8,9) idx(3) t
        unfolding cview_def by (simp add: idx_ok_def c1_def)
      moreover have "cbuf_grow re cb n = do { c_assert (cbuf_is_valid c1); Some (c1, cb_size c1 - ?s) }"
        using False unfolding g by (simp add: c1_def)
      ultimately show ?thesis by (intro fin [of c1]) (simp_all add: c1_def)
    next
      case True
      have wr: "cb_i_in cb < int (length us) + int (length rs)" using True ir by (auto split: if_splits)
      define n' where "n' = (?s + 1) - cb_i_rep cb"
      define m' where "m' = (t + 1) - n'"
      have b: "0 \<le> cb_i_rep cb" "0 < n'" "cb_i_rep cb + n' \<le> int (length ext)" "cb_i_in cb < m'" "m' + n' = t + 1" "cb_i_rep cb \<le> ?s"
        using ir wr d(4,8,9) True t lext by (auto simp: n'_def m'_def)
      define bs where "bs = take (nat n') (drop (nat (cb_i_rep cb)) ext)"
      define data where "data = take (nat m') ext @ bs @ drop (nat m' + length bs) ext"
      have lb: "length bs = nat n'" using b lext by (simp add: bs_def)
      have ld: "length data = length ext" using b lext lb by (simp add: data_def)
      have bs: "c_slice ext (cb_i_rep cb) n' = Some bs" "c_splice ext m' bs = Some data"
        using b lext lb d(8) by (simp_all add: c_slice_def c_splice_def bs_def [symmetric] data_def)
      define c where "c = c1\<lparr>cb_data := data, cb_i_out := (if cb_i_rep cb \<le> cb_i_out cb then cb_i_out cb + (m' - cb_i_rep cb) else cb_i_out cb), cb_i_rep := m'\<rparr>"
      have lo: "data ! nat j = cb_data cb ! nat j" if "0 \<le> j" "j < cb_i_in cb" for j
      proof -
        have "nat j < nat m'" "nat j < length ext" using that b(4,5) b(2) lext d(8) by linarith+
        then show ?thesis using ext_nth [of "nat j"] that d(9) by (simp add: data_def nth_append)
      qed
      have hi: "data ! nat (j + (t - ?s)) = cb_data cb ! nat j" if "cb_i_rep cb \<le> j" "j \<le> ?s" for j
      proof -
        have x: "nat (j + (t - ?s)) = nat m' + nat (j - cb_i_rep cb)" using that b t by (simp add: m'_def n'_def nat_add_distrib [symmetric])
        have y: "nat (j - cb_i_rep cb) < length bs" using that b lb by (simp add: n'_def)
        have "data ! nat (j + (t - ?s)) = bs ! nat (j - cb_i_rep cb)"
          unfolding x data_def using b lext y by (simp add: nth_append)
        also have "\<dots> = ext ! (nat (cb_i_rep cb) + nat (j - cb_i_rep cb))" using y b lext unfolding bs_def by (subst nth_take) auto
        also have "nat (cb_i_rep cb) + nat (j - cb_i_rep cb) = nat j" using that b by simp
        finally show ?thesis using ext_nth [of "nat j"] that b(1) by simp
      qed
      have irj: "cb_i_rep cb \<le> j" if "cb_i_in cb - int (length rs + length us) + (?s + 1) \<le> j" for j using ir wr that by simp
      have "win data (cb_i_in cb) (length rs + length us) = win (cb_data cb) (cb_i_in cb) (length rs + length us)"
        using le d(4,6,8,9) t(1) lext(1) ld by (intro grow_window [of _ ?s t]) (auto intro!: lo hi irj)
      moreover have "cb_i_out c = (cb_i_in cb - int (length us)) mod (t + 1)"
        using tm io ir wr d(4) by (auto simp: c_def m'_def n'_def c1_def)
      moreover have "m' = (cb_i_in cb - int (length us) - int (length rs)) mod (t + 1)"
        using tm ir wr by (simp add: m'_def n'_def)
      moreover have "cb_got_wrap cb" using idx(3) True d(8) by auto
      ultimately have "cview c rs us"
        using s1 [OF ld] w d(3,4,8,9) t by (simp add: cview_def idx_ok_def c_def c1_def)
      moreover have "cbuf_grow re cb n = do { c_assert (cbuf_is_valid c); Some (c, cb_size c - ?s) }"
        using True bs unfolding g by (simp add: c1_def Let_def n'_def [symmetric] m'_def [symmetric] c_def)
      ultimately show ?thesis by (intro fin [of c]) (simp_all add: c_def c1_def)
    qed
  qed
qed

subsection \<open>Where the bytes go to and come from\<close>

text \<open>A byte sink is what \<open>cbuf_reader\<close> asks of its I/O function: it takes a prefix of the bytes offered,
  or reports an error or nothing taken; \<open>sent d bs d'\<close> says that its argument moved from \<open>d\<close> to \<open>d'\<close>
  with the bytes \<open>bs\<close>. A full sink takes everything.\<close>

locale byte_sink =
  fixes putf :: "'d \<Rightarrow> byte list \<Rightarrow> ('d \<times> int) option"
    and sent :: "'d \<Rightarrow> byte list \<Rightarrow> 'd \<Rightarrow> bool"
  assumes put: "bs \<noteq> [] \<Longrightarrow> \<exists>d' m. putf d bs = Some (d', m) \<and> m \<le> int (length bs) \<and> sent d (take (nat m) bs) d'"
    and sent_refl: "sent d [] d"
    and sent_trans: "sent d xs d' \<Longrightarrow> sent d' ys d'' \<Longrightarrow> sent d (xs @ ys) d''"
begin

lemma reader_loop_sends:
  assumes "int (length data) = S + 1" "0 \<le> i" "i \<le> S" "0 \<le> nleft"
  shows "\<exists>d' r m'. reader_loop putf data S i nleft m d = Some (d', r, m') \<and> 0 \<le> r \<and> r \<le> nleft \<and>
    sent d (take (nat (nleft - r)) (win data (i + nleft) (nat nleft))) d' \<and> (r = nleft \<longrightarrow> m' \<le> 0 \<or> nleft = 0)"
  using assms(2-)
proof (induction "nat nleft" arbitrary: nleft i m d rule: less_induct)
  case less
  show ?case
  proof (cases "nleft = 0")
    case True
    then show ?thesis by (subst reader_loop.simps) (simp add: sent_refl)
  next
    case False
    define n where "n = min nleft ((S + 1) - i)"
    have n: "0 < n" "n \<le> nleft" "i + n \<le> S + 1" using False less.prems by (auto simp: n_def)
    define bs where "bs = win data (i + n) (nat n)"
    have sl: "c_slice data i n = Some bs" using n less.prems assms(1) by (simp add: c_slice_win bs_def)
    have lb: "int (length bs) = n" "bs \<noteq> []" using n by (auto simp: bs_def simp flip: length_greater_0_conv)
    obtain d1 k where k: "putf d bs = Some (d1, k)" "k \<le> n" "sent d (take (nat k) bs) d1" using put [OF lb(2), of d] lb(1) by auto
    have sp: "win data (i + nleft) (nat nleft) = bs @ win data (i + nleft) (nat (nleft - n))"
      using win_split [of data "i + nleft" "nat n" "nat (nleft - n)"] n by (simp add: bs_def algebra_simps nat_add_distrib [symmetric])
    show ?thesis
    proof (cases "n = k")
      case False
      have e: "reader_loop putf data S i nleft m d = Some (d1, if 0 < k then nleft - k else nleft, k)"
        using \<open>nleft \<noteq> 0\<close> less.prems sl k False by (subst reader_loop.simps) (simp add: Let_def n_def [symmetric])
      have "take (nat k) (win data (i + nleft) (nat nleft)) = take (nat k) bs" using k(2) lb(1) unfolding sp by simp
      then show ?thesis unfolding e using k n by (cases "0 < k") auto
    next
      case True
      define i' where "i' = (i + n) mod (S + 1)"
      have i': "0 \<le> i'" "i' \<le> S" using n less.prems pos_mod_bound [of "S + 1" "i + n"] by (simp_all add: i'_def)
      have e: "reader_loop putf data S i nleft m d = reader_loop putf data S i' (nleft - n) n d1"
        using \<open>nleft \<noteq> 0\<close> less.prems sl k True n(1) by (subst reader_loop.simps) (simp add: Let_def n_def [symmetric] i'_def)
      obtain d' r m' where h: "reader_loop putf data S i' (nleft - n) n d1 = Some (d', r, m')" "0 \<le> r" "r \<le> nleft - n"
          "sent d1 (take (nat (nleft - n - r)) (win data (i' + (nleft - n)) (nat (nleft - n)))) d'"
        using less.hyps [of "nleft - n" i' n d1] i' n by auto
      have wi: "win data (i' + (nleft - n)) (nat (nleft - n)) = win data (i + nleft) (nat (nleft - n))"
        using win_mod [of data "i' + (nleft - n)" "nat (nleft - n)"] win_mod [of data "i + nleft" "nat (nleft - n)"]
        by (simp add: assms(1) i'_def mod_shift)
      have "sent d (bs @ take (nat (nleft - n - r)) (win data (i + nleft) (nat (nleft - n)))) d'"
        using sent_trans [OF _ h(4)] k(3) True lb(1) wi by auto
      moreover have "nat (nleft - n - r) = nat (nleft - r) - length bs" using lb(1) n h(3) by linarith
      then have "bs @ take (nat (nleft - n - r)) xs = take (nat (nleft - r)) (bs @ xs)" for xs using n h(3) lb(1) by simp
      ultimately have "sent d (take (nat (nleft - r)) (win data (i + nleft) (nat nleft))) d'" unfolding sp by simp
      then show ?thesis unfolding e using h n by auto
    qed
  qed
qed

lemma reader_sends:
  assumes v: "cview cb rs us" and l: "0 < len"
  shows "\<exists>d' n. cbuf_reader cb len putf d = Some (d', n) \<and> n \<le> min len (int (length us)) \<and> sent d (take (nat n) us) d'"
proof (cases "us = []")
  case True
  then show ?thesis using l cviewD(3) [OF v] sent_refl by (simp add: cbuf_reader_def Let_def)
next
  case False
  note c = cviewD [OF v]
  define q where "q = min len (int (length us))"
  have q: "0 < q" "q \<le> int (length us)" using False l by (auto simp: q_def)
  have o: "0 \<le> cb_i_out cb" "cb_i_out cb \<le> cb_size cb" using c(1) by (simp_all add: cbuf_is_valid_def)
  obtain d' r m' where h: "reader_loop putf (cb_data cb) (cb_size cb) (cb_i_out cb) q 0 d = Some (d', r, m')" "0 \<le> r" "r \<le> q"
      "sent d (take (nat (q - r)) (win (cb_data cb) (cb_i_out cb + q) (nat q))) d'" "r = q \<longrightarrow> m' \<le> 0"
    using reader_loop_sends [OF c(5) o, of q 0 d] q by auto
  have "win (cb_data cb) (cb_i_out cb + q) (nat q) = win (cb_data cb) (cb_i_in cb - int (length us) + q) (nat q)"
    using win_mod [of "cb_data cb" "cb_i_out cb + q" "nat q"] win_mod [of "cb_data cb" "cb_i_in cb - int (length us) + q" "nat q"]
    by (simp add: c(5,7) mod_shift)
  also have "\<dots> = take (nat q) us"
    using win_take [of "nat q" "length us" "cb_data cb" "cb_i_in cb"] c(10) q by (simp add: algebra_simps of_nat_diff)
  finally have "take (nat (q - r)) (win (cb_data cb) (cb_i_out cb + q) (nat q)) = take (nat (q - r)) us" using h(2) by (simp add: min_def)
  moreover have "cbuf_reader cb len putf d = Some (d', if r = q then m' else q - r)"
    using l h q c(3) by (simp add: cbuf_reader_def Let_def q_def [symmetric])
  ultimately show ?thesis using h(2-5) q sent_refl unfolding q_def [symmetric] by auto
qed

lemma replayer_sends:
  assumes v: "cview cb rs us" and l: "0 < len"
  shows "\<exists>d' n. cbuf_replayer cb len putf d = Some (d', n) \<and> n \<le> min len (int (length rs)) \<and>
    sent d (take (nat n) (lastn (nat len) rs)) d'"
proof (cases "rs = []")
  case True
  then show ?thesis using l cviewD(2) [OF v] sent_refl by (simp add: cbuf_replayer_def Let_def lastn_def)
next
  case False
  note c = cviewD [OF v]
  define q where "q = min len (int (length rs))"
  have q: "0 < q" "q \<le> int (length rs)" using False l by (auto simp: q_def)
  define i where "i = (cb_i_out cb - q + (cb_size cb + 1)) mod (cb_size cb + 1)"
  have o: "0 \<le> i" "i \<le> cb_size cb" using c(6) pos_mod_bound [of "cb_size cb + 1" "cb_i_out cb - q + (cb_size cb + 1)"] by (simp_all add: i_def)
  obtain d' r m' where h: "reader_loop putf (cb_data cb) (cb_size cb) i q 0 d = Some (d', r, m')" "0 \<le> r" "r \<le> q"
      "sent d (take (nat (q - r)) (win (cb_data cb) (i + q) (nat q))) d'" "r = q \<longrightarrow> m' \<le> 0"
    using reader_loop_sends [OF c(5) o, of q 0 d] q by auto
  have "win (cb_data cb) (i + q) (nat q) = win (cb_data cb) (cb_i_in cb - int (length us)) (nat q)"
    using win_mod [of "cb_data cb" "i + q" "nat q"] win_mod [of "cb_data cb" "cb_i_in cb - int (length us)" "nat q"]
    by (simp add: c(5,7) i_def mod_simps)
  also have "\<dots> = lastn (nat q) rs" using win_lastn [of "nat q" "length rs" "cb_data cb" "cb_i_in cb - int (length us)"] c(11) q by simp
  also have "\<dots> = lastn (nat len) rs" using lastn_again [of "nat len" rs] l by (auto simp: q_def min_def)
  finally have w: "win (cb_data cb) (i + q) (nat q) = lastn (nat len) rs" .
  have i2: "(cb_i_out cb - q) mod (cb_size cb + 1) = i" by (simp add: i_def)
  have "cbuf_replayer cb len putf d = Some (d', if r = q then m' else q - r)"
    using l h q c(2) by (simp add: cbuf_replayer_def Let_def q_def [symmetric] i2)
  then show ?thesis using h(2-5) q sent_refl unfolding q_def [symmetric] w by auto
qed

end

locale full_sink = byte_sink +
  assumes full: "putf d bs = Some (d', m) \<Longrightarrow> m = int (length bs)"
begin

lemma reader_loop_full:
  assumes "int (length data) = S + 1" "0 \<le> i" "i \<le> S" "0 \<le> nleft" "reader_loop putf data S i nleft m d = Some (d', r, m')"
  shows "r = 0"
  using assms(2-)
proof (induction "nat nleft" arbitrary: nleft i m d rule: less_induct)
  case less
  show ?case
  proof (cases "nleft = 0")
    case True
    then show ?thesis using less.prems(4) by (subst (asm) reader_loop.simps) simp
  next
    case False
    define n where "n = min nleft ((S + 1) - i)"
    have n: "0 < n" "n \<le> nleft" "i + n \<le> S + 1" using False less.prems by (auto simp: n_def)
    define bs where "bs = win data (i + n) (nat n)"
    have sl: "c_slice data i n = Some bs" using n less.prems assms(1) by (simp add: c_slice_win bs_def)
    have lb: "int (length bs) = n" "bs \<noteq> []" using n by (auto simp: bs_def simp flip: length_greater_0_conv)
    obtain d1 k where k: "putf d bs = Some (d1, k)" using put [OF lb(2), of d] by auto
    have kn: "k = n" using full [OF k] lb(1) by simp
    have "reader_loop putf data S i nleft m d = reader_loop putf data S ((i + n) mod (S + 1)) (nleft - n) n d1"
      using False less.prems sl k kn n(1) by (subst reader_loop.simps) (simp add: Let_def n_def [symmetric])
    then show ?thesis
      using less.hyps [of "nleft - n" "(i + n) mod (S + 1)" n d1] less.prems n pos_mod_bound [of "S + 1" "i + n"] by simp
  qed
qed

lemma reader_full:
  assumes v: "cview cb rs us" and l: "0 < len"
  shows "\<exists>d'. cbuf_reader cb len putf d = Some (d', min len (int (length us))) \<and> sent d (take (nat len) us) d'"
proof -
  obtain d' n where r: "cbuf_reader cb len putf d = Some (d', n)" "n \<le> min len (int (length us))" "sent d (take (nat n) us) d'"
    using reader_sends [OF assms] by blast
  note c = cviewD [OF v]
  define q where "q = min len (int (length us))"
  have o: "0 \<le> cb_i_out cb" "cb_i_out cb \<le> cb_size cb" "0 \<le> q" using c(1) l by (simp_all add: cbuf_is_valid_def q_def)
  obtain d1 m1 where h: "reader_loop putf (cb_data cb) (cb_size cb) (cb_i_out cb) q 0 d = Some (d1, 0, m1)"
    using reader_loop_sends [OF c(5) o, of 0 d] reader_loop_full [OF c(5) o, of 0 d] by blast
  have "n = q" using r(1) h l c(3) o(3) by (simp add: cbuf_reader_def Let_def q_def [symmetric] split: if_splits)
  moreover have "take (nat q) us = take (nat len) us" by (simp add: q_def min_def)
  ultimately show ?thesis using r unfolding q_def by simp
qed

lemma replayer_full:
  assumes v: "cview cb rs us" and l: "0 < len"
  shows "\<exists>d'. cbuf_replayer cb len putf d = Some (d', min len (int (length rs))) \<and> sent d (lastn (nat len) rs) d'"
proof -
  obtain d' n where r: "cbuf_replayer cb len putf d = Some (d', n)" "sent d (take (nat n) (lastn (nat len) rs)) d'"
    using replayer_sends [OF assms] by blast
  note c = cviewD [OF v]
  define q where "q = min len (int (length rs))"
  define i where "i = (cb_i_out cb - q) mod (cb_size cb + 1)"
  have o: "0 \<le> i" "i \<le> cb_size cb" "0 \<le> q" using c(6) l pos_mod_bound [of "cb_size cb + 1" "cb_i_out cb - q"] by (simp_all add: i_def q_def)
  obtain d1 m1 where h: "reader_loop putf (cb_data cb) (cb_size cb) i q 0 d = Some (d1, 0, m1)"
    using reader_loop_sends [OF c(5) o, of 0 d] reader_loop_full [OF c(5) o, of 0 d] by blast
  have "n = q" using r(1) h l c(2) o(3) by (simp add: cbuf_replayer_def Let_def q_def [symmetric] i_def [symmetric] split: if_splits)
  moreover have "take (nat q) (lastn (nat len) rs) = lastn (nat len) rs" using l by (simp add: q_def)
  ultimately show ?thesis using r unfolding q_def by simp
qed

end

interpretation mem_sink: full_sink cbuf_put_mem "\<lambda>d bs d'. d' = d @ bs"
  by unfold_locales (auto simp: cbuf_put_mem_def c_assert_bind_Some)

text \<open>A byte source is what \<open>cbuf_writer\<close> asks of its I/O function: asked for \<open>n\<close> bytes it has, it stores
  at most \<open>n\<close> and returns their number, or stores nothing and returns zero or an error. \<open>moved s bs s'\<close> says
  that its argument moved from \<open>s\<close> to \<open>s'\<close> by the bytes \<open>bs\<close>. If \<open>full\<close> is set it
  always stores what it is asked for.\<close>

text \<open>How a write of \<open>len\<close> bytes may enlarge the buffer: up to \<open>maxsize\<close>, only if the bytes do not fit, and
  enough unless \<open>maxsize\<close> is reached or memory is short.\<close>

definition grew :: "(int \<Rightarrow> bool) \<Rightarrow> cbuf \<Rightarrow> int \<Rightarrow> nat \<Rightarrow> cbuf \<Rightarrow> bool" where
  "grew re cb len used cb' \<longleftrightarrow> cb_size cb \<le> cb_size cb' \<and> cb_maxsize cb' = cb_maxsize cb \<and> cb_overwrite cb' = cb_overwrite cb \<and>
     ((\<forall>m. re m) \<and> cb_size cb' - int used < len \<longrightarrow> cb_size cb' = cb_maxsize cb) \<and>
     (len \<le> cb_size cb - int used \<or> cb_size cb = cb_maxsize cb \<longrightarrow> cb_size cb' = cb_size cb)"

locale byte_source =
  fixes getf :: "'s \<Rightarrow> int \<Rightarrow> ('s \<times> byte list \<times> int) option"
    and has :: "'s \<Rightarrow> int \<Rightarrow> bool"
    and moved :: "'s \<Rightarrow> byte list \<Rightarrow> 's \<Rightarrow> bool"
    and full :: bool
  assumes get: "0 < n \<Longrightarrow> has s n \<Longrightarrow> \<exists>s' bs m. getf s n = Some (s', bs, m) \<and> m \<le> n \<and> length bs = nat m \<and> moved s bs s'"
    and has_less: "has s n \<Longrightarrow> k \<le> n \<Longrightarrow> has s k"
    and has_rest: "has s n \<Longrightarrow> moved s bs s' \<Longrightarrow> has s' (n - int (length bs))"
    and moved_refl: "moved s [] s"
    and moved_trans: "moved s xs s' \<Longrightarrow> moved s' ys s'' \<Longrightarrow> moved s (xs @ ys) s''"
    and full_get: "full \<Longrightarrow> getf s n = Some (s', bs, m) \<Longrightarrow> m = n"
begin

lemma writer_loop_stores:
  assumes "int (length data) = S + 1" "0 \<le> i" "i \<le> S" "0 \<le> nleft" "has s nleft"
  shows "\<exists>bs r m' s'. writer_loop getf S data i nleft m s = Some (ring_put data i bs, (i + int (length bs)) mod (S + 1), r, m', s') \<and>
    0 \<le> r \<and> int (length bs) = nleft - r \<and> moved s bs s' \<and> (r = nleft \<longrightarrow> m' \<le> 0 \<or> nleft = 0) \<and> (full \<longrightarrow> r = 0)"
  using assms
proof (induction "nat nleft" arbitrary: data nleft i m s rule: less_induct)
  case less
  show ?case
  proof (cases "nleft = 0")
    case True
    have "(i + int (length [])) mod (S + 1) = i" using less.prems by simp
    then show ?thesis using True moved_refl by (subst writer_loop.simps) (intro exI [of _ "[]"], simp)
  next
    case False
    define n where "n = min nleft ((S + 1) - i)"
    have n: "0 < n" "n \<le> nleft" "i + n \<le> S + 1" using False less.prems by (auto simp: n_def)
    obtain s1 bs k where g: "getf s n = Some (s1, bs, k)" "k \<le> n" "length bs = nat k" "moved s bs s1"
      using get [OF n(1) has_less [OF less.prems(5) n(2)]] by blast
    have sp: "c_splice data i bs = Some (ring_put data i bs)" using g n less.prems by (intro c_splice_put) auto
    show ?thesis
    proof (cases "n = k")
      case False
      have nfull: "\<not> full" using full_get [OF _ g(1)] False by blast
      have "(i + int (length bs)) mod (S + 1) = (if 0 < k then (i + k) mod (S + 1) else i)"
        using g(3) less.prems by auto
      then have "writer_loop getf S data i nleft m s =
          Some (ring_put data i bs, (i + int (length bs)) mod (S + 1), if 0 < k then nleft - k else nleft, k, s1)"
        using \<open>nleft \<noteq> 0\<close> less.prems sp g False by (subst writer_loop.simps) (simp add: Let_def n_def [symmetric])
      then show ?thesis using g n nfull by (intro exI [of _ bs] exI [of _ "if 0 < k then nleft - k else nleft"] exI [of _ k] exI [of _ s1]) auto
    next
      case True
      have lb: "int (length bs) = n" using g(3) True n by simp
      define i' where "i' = (i + n) mod (S + 1)"
      have i': "0 \<le> i'" "i' \<le> S" using n less.prems pos_mod_bound [of "S + 1" "i + n"] by (simp_all add: i'_def)
      have e: "writer_loop getf S data i nleft m s = writer_loop getf S (ring_put data i bs) i' (nleft - n) n s1"
        using \<open>nleft \<noteq> 0\<close> less.prems sp g True n(1) by (subst writer_loop.simps) (simp add: Let_def n_def [symmetric] i'_def)
      have pre: "nat (nleft - n) < nat nleft" "int (length (ring_put data i bs)) = S + 1" "0 \<le> nleft - n" "has s1 (nleft - n)"
        using n less.prems has_rest [OF less.prems(5) g(4)] lb by auto
      obtain cs r m' s' where h: "writer_loop getf S (ring_put data i bs) i' (nleft - n) n s1 =
            Some (ring_put (ring_put data i bs) i' cs, (i' + int (length cs)) mod (S + 1), r, m', s')"
          "0 \<le> r" "int (length cs) = nleft - n - r" "moved s1 cs s'" "full \<longrightarrow> r = 0"
        using less.hyps [OF pre(1) pre(2) i' pre(3,4), of n] by (elim exE conjE) (rule that; assumption)
      have p: "ring_put (ring_put data i bs) i' cs = ring_put data i (bs @ cs)"
        using ring_put_mod [of "ring_put data i bs" "i + n" cs] less.prems(1) lb by (simp add: ring_put_append i'_def)
      have q: "(i' + int (length cs)) mod (S + 1) = (i + int (length (bs @ cs))) mod (S + 1)"
        using lb by (simp add: i'_def mod_shift add.assoc)
      show ?thesis unfolding e h(1) p q using h(2-) lb moved_trans [OF g(4) h(4)] n
        by (intro exI [of _ "bs @ cs"] exI [of _ r] exI [of _ m'] exI [of _ s']) auto
    qed
  qed
qed

text \<open>What \<open>cbuf_writer\<close> does to the contents: it stores the bytes it got, at most \<open>len\<close>, and under
  \<open>CBUF_NO_DROP\<close> no more than fit.\<close>

lemma writer_stores:
  assumes v: "cview cb rs us" and l: "0 < len" and a: "has s len"
  shows "\<exists>cb' s' n dr bs. cbuf_writer re cb len getf s = Some (cb', s', n, dr) \<and>
    cview cb' (put_rs (nat (cb_size cb')) rs us bs) (put_us (nat (cb_size cb')) us bs) \<and> moved s bs s' \<and>
    (bs = [] \<longrightarrow> n \<le> 0 \<and> dr = None \<and> (full \<longrightarrow> n = - 1)) \<and>
    (bs \<noteq> [] \<longrightarrow> n = int (length bs) \<and> dr = Some (max 0 (int (length us + length bs) - cb_size cb'))) \<and>
    grew re cb len (length us) cb' \<and>
    (let q = (case cb_overwrite cb of CBUF_NO_DROP \<Rightarrow> min len (cb_size cb' - int (length us)) | CBUF_WRAP_ONCE \<Rightarrow> min len (cb_size cb') | CBUF_WRAP_MANY \<Rightarrow> len)
     in int (length bs) \<le> q \<and> (full \<longrightarrow> int (length bs) = q))"
proof -
  define nf where "nf = cb_size cb - cb_used cb"
  obtain c1 g where g: "(if nf < len \<and> cb_size cb < cb_maxsize cb then cbuf_grow re cb (len - nf) else Some (cb, 0)) = Some (c1, g)"
      "cview c1 rs us" "cb_size c1 = cb_size cb + g" "0 \<le> g" "cb_overwrite c1 = cb_overwrite cb"
      "grew re cb len (length us) c1"
  proof (cases "nf < len \<and> cb_size cb < cb_maxsize cb")
    case True
    then have p: "0 < len - nf" by simp
    obtain c1 g where "cbuf_grow re cb (len - nf) = Some (c1, g)" "cview c1 rs us" "cb_size c1 = cb_size cb + g" "0 \<le> g"
        "cb_overwrite c1 = cb_overwrite cb" "(\<forall>m. re m) \<longrightarrow> cb_size c1 = cb_maxsize cb \<or> len - nf \<le> g" "cb_maxsize c1 = cb_maxsize cb"
      using cbuf_grow_view [OF v p, of re] by blast
    then show thesis using True cviewD(3) [OF v] by (intro that [of c1 g]) (auto simp: nf_def grew_def)
  next
    case False
    have "cb_size cb \<le> cb_maxsize cb" using v by (simp add: cview_def sizes_ok_def)
    then show thesis using False v cviewD(3) [OF v] by (intro that [of cb 0]) (auto simp: nf_def grew_def)
  qed
  note c = cviewD [OF g(2)]
  define len' where "len' = (case cb_overwrite cb of CBUF_NO_DROP \<Rightarrow> min len (cb_size c1 - int (length us)) | CBUF_WRAP_ONCE \<Rightarrow> min len (cb_size c1) | CBUF_WRAP_MANY \<Rightarrow> len)"
  have l': "0 \<le> len'" "len' \<le> len" "len' = 0 \<longrightarrow> cb_overwrite cb = CBUF_NO_DROP"
    using l c(4,6) by (auto simp: len'_def split: cbuf_overwrite.split)
  have u1: "cb_used c1 = int (length us)" "nf + g = cb_size c1 - cb_used c1" using c(3) g(3) cviewD(3) [OF v] by (simp_all add: nf_def)
  have lw: "(case cb_overwrite c1 of CBUF_NO_DROP \<Rightarrow> min len (cb_size c1 - cb_used c1) | CBUF_WRAP_ONCE \<Rightarrow> min len (cb_size c1) | CBUF_WRAP_MANY \<Rightarrow> len) = len'"
    unfolding g(5) u1(1) len'_def by (rule refl)
  show ?thesis
  proof (cases "len' = 0")
    case True
    then have "cb_overwrite c1 = CBUF_NO_DROP" using l'(3) g(5) by simp
    then have "cbuf_writer re cb len getf s = Some (c1, s, - 1, None)"
      using l g(1) lw True unfolding cbuf_writer_def Let_def nf_def [symmetric] by simp
    moreover have "put_us (nat (cb_size c1)) us [] = us" "put_rs (nat (cb_size c1)) rs us [] = rs"
      using c(4) by (simp_all add: put_us_def put_rs_def Let_def lastn_def nat_diff_distrib)
    ultimately show ?thesis using g(2,6) moved_refl [of s] l'(1) True unfolding len'_def Let_def
      by (intro exI [of _ c1] exI [of _ s] exI [of _ "- 1 :: int"] exI [of _ "None :: int option"] exI [of _ "[] :: byte list"] conjI) simp_all
  next
    case False
    obtain bs r m' s' where w: "writer_loop getf (cb_size c1) (cb_data c1) (cb_i_in c1) len' 0 s =
          Some (ring_put (cb_data c1) (cb_i_in c1) bs, (cb_i_in c1 + int (length bs)) mod (cb_size c1 + 1), r, m', s')"
        "0 \<le> r" "int (length bs) = len' - r" "moved s bs s'" "r = len' \<longrightarrow> m' \<le> 0" "full \<longrightarrow> r = 0"
      using writer_loop_stores [OF c(5,8,9) l'(1) has_less [OF a l'(2)], of 0] False by blast
    have br: "(len' = r) = (bs = [])" using w(3) by auto
    have e: "cbuf_writer re cb len getf s =
        (if bs = [] then Some (c1\<lparr>cb_data := ring_put (cb_data c1) (cb_i_in c1) bs\<rparr>, s', m', None)
         else do { dst \<leftarrow> cbuf_advance (c1\<lparr>cb_data := ring_put (cb_data c1) (cb_i_in c1) bs\<rparr>) (int (length bs)) (nf + g)
             ((cb_i_in c1 + int (length bs)) mod (cb_size c1 + 1));
           Some (dst, s', int (length bs), Some (max 0 (int (length bs) - (nf + g)))) })"
      using l g(1) w(1,2,3) False unfolding cbuf_writer_def Let_def nf_def [symmetric]
      by (simp add: lw br)
    have lb: "int (length bs) \<le> len'" "full \<longrightarrow> int (length bs) = len'" using w by auto
    show ?thesis
    proof (cases "bs = []")
      case True
      have "put_us (nat (cb_size c1)) us [] = us" "put_rs (nat (cb_size c1)) rs us [] = rs"
        using c(4) by (simp_all add: put_us_def put_rs_def Let_def lastn_def nat_diff_distrib)
      moreover have "m' \<le> 0" "\<not> full" using w(5,6) br True False by auto
      ultimately show ?thesis using e g(2,6) w(4) True lb unfolding len'_def Let_def
        by (intro exI [of _ c1] exI [of _ s'] exI [of _ m'] exI [of _ "None :: int option"] exI [of _ "[] :: byte list"] conjI) simp_all
    next
      case ne: False
      obtain c2 where c2: "cbuf_advance (c1\<lparr>cb_data := ring_put (cb_data c1) (cb_i_in c1) bs\<rparr>) (int (length bs)) (nf + g)
             ((cb_i_in c1 + int (length bs)) mod (cb_size c1 + 1)) = Some c2"
          "cview c2 (put_rs (nat (cb_size c1)) rs us bs) (put_us (nat (cb_size c1)) us bs)" "cb_overwrite c2 = cb_overwrite c1" "cb_size c2 = cb_size c1" "cb_maxsize c2 = cb_maxsize c1"
        using advance_view [OF g(2) ne u1(2) refl] by blast
      have gr2: "grew re cb len (length us) c2" using g(6) unfolding grew_def c2(3-5) .
      have "max 0 (int (length bs) - (nf + g)) = max 0 (int (length us + length bs) - cb_size c2)" using u1 c2(4) by simp
      then have e2: "cbuf_writer re cb len getf s = Some (c2, s', int (length bs), Some (max 0 (int (length us + length bs) - cb_size c2)))"
        using e ne c2(1) by simp
      show ?thesis unfolding Let_def
        using e2 ne c2(2,4) gr2 w(4) lb unfolding len'_def
        by (intro exI [of _ c2] exI [of _ s'] exI [of _ "int (length bs)"] exI [of _ "Some (max 0 (int (length us + length bs) - cb_size c2))"] exI [of _ bs] conjI)
           (simp_all cong: cbuf_overwrite.case_cong)
    qed
  qed
qed

end

interpretation mem_source: byte_source cbuf_get_mem "\<lambda>s n. n \<le> int (length s)" "\<lambda>s bs s'. s = bs @ s'" True
  by unfold_locales (auto simp: cbuf_get_mem_def c_slice_def c_assert_bind_Some split: if_splits)

subsection \<open>Operations on the contents\<close>

text \<open>The number of bytes a write stores: all, or what fits.\<close>

definition accepted :: "cbuf_overwrite \<Rightarrow> int \<Rightarrow> int \<Rightarrow> nat \<Rightarrow> int" where
  "accepted ow S len used = (case ow of
     CBUF_NO_DROP \<Rightarrow> min len (S - int used) | CBUF_WRAP_ONCE \<Rightarrow> min len S | CBUF_WRAP_MANY \<Rightarrow> len)"

lemma put_nil:
  assumes "cview cb rs us"
  shows "put_us (nat (cb_size cb)) us [] = us" "put_rs (nat (cb_size cb)) rs us [] = rs"
  using cviewD(4) [OF assms] by (simp_all add: put_us_def put_rs_def Let_def lastn_def nat_diff_distrib)

lemma cbuf_writer_mem:
  assumes v: "cview cb rs us" and l: "0 < len" "len \<le> int (length s)"
  obtains cb' q where "q = accepted (cb_overwrite cb) (cb_size cb') len (length us)"
    "cbuf_writer re cb len cbuf_get_mem s = Some (cb', drop (nat q) s, if q = 0 then - 1 else q,
       if q = 0 then None else Some (max 0 (int (length us) + q - cb_size cb')))"
    "cview cb' (put_rs (nat (cb_size cb')) rs us (take (nat q) s)) (put_us (nat (cb_size cb')) us (take (nat q) s))"
    "grew re cb len (length us) cb'" "0 \<le> q" "q \<le> len"
proof -
  obtain cb' s' n dr bs where w: "cbuf_writer re cb len cbuf_get_mem s = Some (cb', s', n, dr)"
    "cview cb' (put_rs (nat (cb_size cb')) rs us bs) (put_us (nat (cb_size cb')) us bs)" "s = bs @ s'"
    "bs = [] \<longrightarrow> n = - 1 \<and> dr = None"
    "bs \<noteq> [] \<longrightarrow> n = int (length bs) \<and> dr = Some (max 0 (int (length us + length bs) - cb_size cb'))"
    "grew re cb len (length us) cb'" "int (length bs) = accepted (cb_overwrite cb) (cb_size cb') len (length us)"
    using mem_source.writer_stores [OF v l, of re] unfolding Let_def accepted_def [symmetric] by (elim exE conjE) (rule that; blast)
  have sz: "int (length us) \<le> cb_size cb'" "0 < cb_size cb'"
    using w(6) cviewD(4,6) [OF v] unfolding grew_def by linarith+
  have q: "0 \<le> accepted (cb_overwrite cb) (cb_size cb') len (length us)" "accepted (cb_overwrite cb) (cb_size cb') len (length us) \<le> len"
    using l sz by (auto simp: accepted_def split: cbuf_overwrite.split)
  define q where "q = accepted (cb_overwrite cb) (cb_size cb') len (length us)"
  have nq: "nat q = length bs" using w(7) by (simp add: q_def)
  have bs: "take (nat q) s = bs" "drop (nat q) s = s'" unfolding nq w(3) by simp_all
  have qb: "(q = 0) = (bs = [])" "int (length bs) = q" using w(7) q unfolding q_def by auto
  have n: "n = (if q = 0 then - 1 else q)" "dr = (if q = 0 then None else Some (max 0 (int (length us) + q - cb_size cb')))"
    using w(4,5) qb by auto
  show thesis
    using w(1,2,6) q bs n unfolding q_def [symmetric] by (intro that [OF q_def]) simp_all
qed

lemma cbuf_write_view:
  assumes v: "cview cb rs us" and l: "0 < len" "len \<le> int (length s)"
  shows "\<exists>cb' q. q = accepted (cb_overwrite cb) (cb_size cb') len (length us) \<and>
    cbuf_write re cb (Some s) len = Some (cb', if q = 0 then - 1 else q, if q = 0 then 0 else max 0 (int (length us) + q - cb_size cb')) \<and>
    cview cb' (put_rs (nat (cb_size cb')) rs us (take (nat q) s)) (put_us (nat (cb_size cb')) us (take (nat q) s)) \<and>
    grew re cb len (length us) cb'"
proof -
  obtain cb' q where w: "q = accepted (cb_overwrite cb) (cb_size cb') len (length us)"
    "cbuf_writer re cb len cbuf_get_mem s = Some (cb', drop (nat q) s, if q = 0 then - 1 else q,
       if q = 0 then None else Some (max 0 (int (length us) + q - cb_size cb')))"
    "cview cb' (put_rs (nat (cb_size cb')) rs us (take (nat q) s)) (put_us (nat (cb_size cb')) us (take (nat q) s))"
    "grew re cb len (length us) cb'" "0 \<le> q" "q \<le> len"
    by (rule cbuf_writer_mem [OF assms])
  have "cbuf_write re cb (Some s) len = Some (cb', if q = 0 then - 1 else q, if q = 0 then 0 else max 0 (int (length us) + q - cb_size cb'))"
    using l w(2) cviewD(1) [OF v] cviewD(1) [OF w(3)] by (simp add: cbuf_write_def)
  then show ?thesis using w by blast
qed

lemma cbuf_read_view:
  assumes v: "cview cb rs us" and l: "0 < len"
  shows "\<exists>cb'. cbuf_read cb False len = Some (cb', take (nat len) us, min len (int (length us))) \<and>
    cview cb' (rs @ take (nat len) us) (drop (nat len) us) \<and> cb_overwrite cb' = cb_overwrite cb \<and> cb_size cb' = cb_size cb"
proof (cases "us = []")
  case True
  then show ?thesis using v l mem_sink.reader_full [OF v l, of "[]"] cviewD(1) [OF v] by (simp add: cbuf_read_def)
next
  case False
  let ?n = "min len (int (length us))"
  have n: "0 < ?n" "?n \<le> int (length us)" using False l by auto
  obtain cb' where d: "cbuf_dropper cb ?n = Some (cb', ?n)" "cview cb' (rs @ take (nat ?n) us) (drop (nat ?n) us)"
      "cb_overwrite cb' = cb_overwrite cb" "cb_size cb' = cb_size cb"
    using cbuf_dropper_view [OF v n] by blast
  have t: "take (nat ?n) us = take (nat len) us" "drop (nat ?n) us = drop (nat len) us" by (simp_all add: min_def)
  then show ?thesis using d mem_sink.reader_full [OF v l, of "[]"] cviewD(1) [OF v] cviewD(1) [OF d(2)] l n
    by (intro exI [of _ cb']) (simp add: cbuf_read_def)
qed

lemma cbuf_peek_view: "cview cb rs us \<Longrightarrow> 0 < len \<Longrightarrow> cbuf_peek cb False len = Some (take (nat len) us, min len (int (length us)))"
  using mem_sink.reader_full [of cb rs us len "[]"] by (auto simp: cbuf_peek_def cviewD(1))

lemma cbuf_replay_view: "cview cb rs us \<Longrightarrow> 0 < len \<Longrightarrow> cbuf_replay cb False len = Some (lastn (nat len) rs, min len (int (length rs)))"
  using mem_sink.replayer_full [of cb rs us len "[]"] by (auto simp: cbuf_replay_def cviewD(1))

lemma cbuf_drop_view:
  assumes v: "cview cb rs us" and l: "0 < len \<or> len = - 1" and k: "k = (if len = - 1 then length us else min (nat len) (length us))"
  shows "\<exists>cb'. cbuf_drop cb len = Some (cb', int k) \<and> cview cb' (rs @ take k us) (drop k us) \<and>
    cb_overwrite cb' = cb_overwrite cb \<and> cb_size cb' = cb_size cb"
proof (cases "k = 0")
  case True
  have z: "us = []" using True k l by (auto simp: min_def split: if_splits)
  show ?thesis using v True l z cviewD(1,3) [OF v] by (auto simp: cbuf_drop_def Let_def)
next
  case False
  have n: "0 < int k" "int k \<le> int (length us)" using False k by auto
  obtain cb' where d: "cbuf_dropper cb (int k) = Some (cb', int k)" "cview cb' (rs @ take k us) (drop k us)"
      "cb_overwrite cb' = cb_overwrite cb" "cb_size cb' = cb_size cb"
    using cbuf_dropper_view [OF v n] by auto
  have "(if len = - 1 then cb_used cb else min len (cb_used cb)) = int k" using k l cviewD(3) [OF v] by auto
  then show ?thesis using l d n cviewD(1) [OF v] cviewD(1) [OF d(2)] by (intro exI [of _ cb']) (auto simp: cbuf_drop_def Let_def)
qed

lemma cbuf_rewind_view:
  assumes v: "cview cb rs us" and l: "0 < len \<or> len = - 1" and k: "k = (if len = - 1 then length rs else min (nat len) (length rs))"
  shows "\<exists>cb'. cbuf_rewind cb len = Some (cb', int k) \<and> cview cb' (take (length rs - k) rs) (drop (length rs - k) rs @ us) \<and>
    cb_overwrite cb' = cb_overwrite cb \<and> cb_size cb' = cb_size cb"
proof -
  have kr: "k \<le> length rs" using k by auto
  define c where "c = (if 0 < int k then cb\<lparr>cb_used := cb_used cb + int k,
      cb_i_out := (cb_i_out cb - int k + (cb_size cb + 1)) mod (cb_size cb + 1)\<rparr> else cb)"
  have c: "cview c (take (length rs - k) rs) (drop (length rs - k) rs @ us)"
    using rewind_view [OF v kr] v by (cases "k = 0") (simp_all add: c_def)
  have "(if len = - 1 then reused_of cb else min len (reused_of cb)) = int k" using k l cviewD(2) [OF v] by auto
  then show ?thesis using l c cviewD(1) [OF v] cviewD(1) [OF c]
    by (intro exI [of _ c]) (auto simp: cbuf_rewind_def Let_def c_def)
qed

end
