(* ===== verification/Cbuf_Refine.thy ===== *)
theory Cbuf_Refine
  imports Cbuf_Contents
begin

section \<open>Lines, copies and file descriptors of circular buffers\<close>

text \<open>
  The operations on lines, on two buffers and on file descriptors in terms of the contents, and
  the properties of the module on contents.
\<close>

subsection \<open>Lines\<close>

text \<open>The scan of \<open>cbuf_find_unread_line\<close> over a list of bytes, and what it finds: the end of the
  \<open>k\<close>th line, or the end of the last complete line.\<close>

fun unread_scan :: "byte list \<Rightarrow> int \<Rightarrow> int \<Rightarrow> int \<Rightarrow> int \<Rightarrow> int \<Rightarrow> int \<times> int \<times> int" where
  "unread_scan [] n m l chars lines = (m, l, lines)"
| "unread_scan (c # cs) n m l chars lines =
     (let n = n + 1; chars = (if 0 < chars then chars - 1 else chars);
          (lines, m, l) = (if c = NL then (if 0 < lines then lines - 1 else lines, n, l + 1) else (lines, m, l))
      in if chars = 0 \<or> lines = 0 then (m, l, lines) else unread_scan cs n m l chars lines)"

fun nth_nl :: "nat \<Rightarrow> byte list \<Rightarrow> nat option" where
  "nth_nl 0 us = Some 0"
| "nth_nl (Suc k) [] = None"
| "nth_nl (Suc k) (c # cs) = map_option Suc (nth_nl (if c = NL then k else Suc k) cs)"

definition last_nl :: "byte list \<Rightarrow> nat" where
  "last_nl us = length us - length (takeWhile (\<lambda>c. c \<noteq> NL) (rev us))"

lemma unread_loop_scan:
  assumes "int (length data) = S + 1" "0 \<le> e" "e \<le> S" "int k \<le> S" "i = (e - int k) mod (S + 1)"
  shows "unread_line_loop data S e i n m l chars lines = Some (unread_scan (win data e k) n m l chars lines)"
  using assms(4,5)
proof (induction k arbitrary: i n m l chars lines)
  case 0
  then show ?case using assms by (subst unread_line_loop.simps) simp
next
  case (Suc k)
  have i: "i = (if e < int (Suc k) then e - int (Suc k) + (S + 1) else e - int (Suc k))"
    using Suc.prems mod_near(1) [of "S + 1" "e - int (Suc k)"] assms by simp
  have ne: "i \<noteq> e" "0 \<le> i" "i \<le> S" using i Suc.prems assms by (auto split: if_splits)
  have rd: "c_rd data i = Some (win data e (Suc k) ! 0)" using ne Suc.prems assms by (simp add: win_nth)
  have w: "win data e (Suc k) = win data e (Suc k) ! 0 # win data e k"
    using win_split [of data e 1 k] by (simp add: win_def)
  have i': "(i + 1) mod (S + 1) = (e - int k) mod (S + 1)" using Suc.prems(2) by (simp add: mod_shift)
  show ?case using Suc.IH [OF _ i'] Suc.prems ne rd
    by (subst unread_line_loop.simps, subst w) (auto simp: Let_def)
qed

lemma scan_lines:
  "0 < lines \<Longrightarrow> case nth_nl (nat lines) us of
     None \<Rightarrow> 0 < snd (snd (unread_scan us n m l (- 1) lines))
   | Some k \<Rightarrow> unread_scan us n m l (- 1) lines = (n + int k, l + lines, 0)"
proof (induction us arbitrary: n m l lines)
  case Nil
  then obtain k where "nat lines = Suc k" by (cases "nat lines") auto
  then show ?case using Nil by simp
next
  case (Cons c us)
  obtain k where k: "nat lines = Suc k" using Cons.prems by (cases "nat lines") auto
  consider "c = NL" "lines = 1" | "c = NL" "1 < lines" | "c \<noteq> NL" using Cons.prems by linarith
  then show ?case
  proof cases
    case 1
    then show ?thesis by simp
  next
    case 2
    have "nat (lines - 1) = k" using k by linarith
    then show ?thesis using Cons.IH [of "lines - 1" "n + 1" "n + 1" "l + 1"] 2 k by (auto simp: Let_def split: option.splits)
  next
    case 3
    then show ?thesis using Cons.IH [of lines "n + 1" m l] Cons.prems k by (auto simp: Let_def split: option.splits)
  qed
qed

lemma nth_nl_le: "nth_nl k us = Some j \<Longrightarrow> j \<le> length us"
  by (induction k us arbitrary: j rule: nth_nl.induct) (auto split: if_splits)

lemma last_nl_le: "last_nl us \<le> length us"
  by (simp add: last_nl_def)

lemma last_nl_Cons: "last_nl (c # cs) = (if NL \<in> set cs then Suc (last_nl cs) else if c = NL then 1 else 0)"
proof (cases "NL \<in> set cs")
  case True
  then have "takeWhile (\<lambda>c. c \<noteq> NL) (rev cs @ [c]) = takeWhile (\<lambda>c. c \<noteq> NL) (rev cs)" by (subst takeWhile_append1 [of NL]) auto
  moreover have "length (takeWhile (\<lambda>c. c \<noteq> NL) (rev cs)) \<le> length cs" using length_takeWhile_le [of _ "rev cs"] by simp
  ultimately show ?thesis using True by (simp add: last_nl_def Suc_diff_le)
next
  case False
  then have "takeWhile (\<lambda>c. c \<noteq> NL) (rev cs @ [c]) = rev cs @ takeWhile (\<lambda>c. c \<noteq> NL) [c]" by (subst takeWhile_append2) auto
  then show ?thesis using False by (simp add: last_nl_def)
qed

lemma scan_chars:
  "0 < chars \<Longrightarrow> unread_scan us n m l chars (- 1) =
     (let p = take (nat chars) us in (if NL \<in> set p then n + int (last_nl p) else m, l + int (count_list p NL), - 1))"
proof (induction us arbitrary: n m l chars)
  case Nil
  then show ?case by simp
next
  case (Cons c us)
  obtain k where k: "nat chars = Suc k" "nat (chars - 1) = k" using Cons.prems by (cases "nat chars") auto
  show ?case
  proof (cases "chars = 1")
    case True
    then show ?thesis by (simp add: Let_def last_nl_def)
  next
    case False
    then have "0 < chars - 1" using Cons.prems by simp
    from Cons.IH [OF this] show ?thesis using False Cons.prems k by (auto simp: Let_def last_nl_Cons)
  qed
qed

lemma cbuf_find_unread_view:
  assumes v: "cview cb rs us"
  shows "0 < lines \<Longrightarrow> cbuf_find_unread_line cb chars lines =
      Some (case nth_nl (nat lines) us of None \<Rightarrow> (0, 0) | Some k \<Rightarrow> (int k, lines))"
    "cbuf_find_unread_line cb chars (- 1) = Some (int (last_nl (take (nat chars) us)), int (count_list (take (nat chars) us) NL))"
proof -
  note c = cviewD [OF v]
  have us: "us = [] \<longleftrightarrow> cb_used cb = 0" using c(3) by simp
  have ul: "int (length us) \<le> cb_size cb" using c(4) by linarith
  have loop: "unread_line_loop (cb_data cb) (cb_size cb) (cb_i_in cb) (cb_i_out cb) 0 0 0 ch ln = Some (unread_scan us 0 0 0 ch ln)" for ch ln
    using unread_loop_scan [OF c(5,8,9) ul c(7), of 0 0 0 ch ln] c(10) by simp
  show "cbuf_find_unread_line cb chars lines = Some (case nth_nl (nat lines) us of None \<Rightarrow> (0, 0) | Some k \<Rightarrow> (int k, lines))" if pos: "0 < lines"
  proof (cases "us = []")
    case True
    obtain k where "nat lines = Suc k" using pos gr0_conv_Suc [of "nat lines"] by auto
    then show ?thesis using pos True us by (simp add: cbuf_find_unread_line_def Let_def)
  next
    case False
    then show ?thesis using pos us loop scan_lines [OF pos, of us 0 0 0]
      by (auto simp: cbuf_find_unread_line_def Let_def split: option.splits prod.splits)
  qed
  show "cbuf_find_unread_line cb chars (- 1) = Some (int (last_nl (take (nat chars) us)), int (count_list (take (nat chars) us) NL))"
  proof (cases "chars \<le> 0 \<or> us = []")
    case True
    then show ?thesis using us by (auto simp: cbuf_find_unread_line_def Let_def last_nl_def)
  next
    case False
    moreover have "last_nl p = 0" if "NL \<notin> set p" for p
    proof -
      have e: "takeWhile (\<lambda>c. c \<noteq> NL) (rev p) = rev p" using that unfolding takeWhile_eq_all_conv by auto
      show ?thesis unfolding last_nl_def e by simp
    qed
    ultimately show ?thesis using us loop scan_chars [of chars us 0 0 0]
      by (auto simp: cbuf_find_unread_line_def Let_def)
  qed
qed

text \<open>The number of bytes that \<open>cbuf_find_unread_line\<close> reports.\<close>

definition line_len :: "byte list \<Rightarrow> int \<Rightarrow> int \<Rightarrow> nat" where
  "line_len us chars lines =
     (if lines = - 1 then last_nl (take (nat chars) us) else case nth_nl (nat lines) us of None \<Rightarrow> 0 | Some k \<Rightarrow> k)"

lemma line_len_le: "line_len us chars lines \<le> length us"
  using last_nl_le [of "take (nat chars) us"] nth_nl_le by (auto simp: line_len_def split: option.split)

lemma find_unread_len:
  assumes "cview cb rs us" "0 < lines \<or> lines = - 1"
  obtains l where "cbuf_find_unread_line cb chars lines = Some (int (line_len us chars lines), l)"
  using cbuf_find_unread_view(1) [OF assms(1), of lines chars] cbuf_find_unread_view(2) [OF assms(1), of chars] assms(2) that
  by (cases "lines = - 1") (auto simp: line_len_def split: option.splits)

lemma line_out_view:
  assumes v: "cview cb rs us" and n: "0 < n" "n \<le> length us"
  shows "line_out cb (int n) len = Some (if 0 < len then take (min n (nat (len - 1))) us @ [0] else [])"
proof (cases "0 < len")
  case True
  let ?m = "min (int n) (len - 1)"
  have "nat ?m = min n (nat (len - 1))" by (auto simp: min_def)
  then have t: "take (nat ?m) us = take (min n (nat (len - 1))) us" by simp
  show ?thesis
  proof (cases "0 < ?m")
    case m: True
    have "cbuf_reader cb ?m cbuf_put_mem [] = Some (take (nat ?m) us, ?m)"
      using mem_sink.reader_full [OF v m, of "[]"] n by auto
    then show ?thesis using True m t by (simp add: line_out_def Let_def)
  next
    case False
    then have "len = 1" using True n by auto
    then show ?thesis by (simp add: line_out_def Let_def)
  qed
qed (simp add: line_out_def)

lemma cbuf_read_line_view:
  assumes v: "cview cb rs us" and l: "0 \<le> len" "0 < lines \<or> lines = - 1" and k: "k = line_len us (len - 1) lines"
  shows "\<exists>cb'. cbuf_read_line cb False len lines =
      Some (cb', if 0 < k \<and> 0 < len then take (min k (nat (len - 1))) us @ [0] else [], int k) \<and>
    cview cb' (rs @ take k us) (drop k us) \<and> cb_overwrite cb' = cb_overwrite cb \<and> cb_size cb' = cb_size cb"
proof -
  obtain j where f: "cbuf_find_unread_line cb (len - 1) lines = Some (int k, j)" unfolding k by (rule find_unread_len [OF v l(2)])
  have ku: "k \<le> length us" using k line_len_le by simp
  show ?thesis
  proof (cases "k = 0")
    case True
    then show ?thesis using v l f cviewD(1) [OF v] by (auto simp: cbuf_read_line_def)
  next
    case False
    then have n: "0 < k" "0 < int k" "int k \<le> int (length us)" using ku by auto
    obtain cb' where d: "cbuf_dropper cb (int k) = Some (cb', int k)" "cview cb' (rs @ take k us) (drop k us)"
        "cb_overwrite cb' = cb_overwrite cb" "cb_size cb' = cb_size cb"
      using cbuf_dropper_view [OF v n(2,3)] by auto
    then show ?thesis using l f n line_out_view [OF v n(1) ku, of len] cviewD(1) [OF v] cviewD(1) [OF d(2)]
      by (intro exI [of _ cb']) (auto simp: cbuf_read_line_def)
  qed
qed

lemma cbuf_peek_line_view:
  assumes v: "cview cb rs us" and l: "0 \<le> len" "0 < lines \<or> lines = - 1" and k: "k = line_len us (len - 1) lines"
  shows "cbuf_peek_line cb False len lines =
      Some (if 0 < k \<and> 0 < len then take (min k (nat (len - 1))) us @ [0] else [], int k)"
proof -
  obtain j where f: "cbuf_find_unread_line cb (len - 1) lines = Some (int k, j)" unfolding k by (rule find_unread_len [OF v l(2)])
  have ku: "k \<le> length us" using k line_len_le by simp
  show ?thesis using l f line_out_view [OF v _ ku, of len] cviewD(1) [OF v] by (cases "k = 0") (auto simp: cbuf_peek_line_def)
qed

lemma cbuf_drop_line_view:
  assumes v: "cview cb rs us" and l: "0 \<le> len" "0 < lines \<or> lines = - 1" and k: "k = line_len us len lines"
  shows "\<exists>cb'. cbuf_drop_line cb len lines = Some (cb', int k) \<and> cview cb' (rs @ take k us) (drop k us) \<and>
    cb_overwrite cb' = cb_overwrite cb \<and> cb_size cb' = cb_size cb"
proof -
  obtain j where f: "cbuf_find_unread_line cb len lines = Some (int k, j)" unfolding k by (rule find_unread_len [OF v l(2)])
  have ku: "k \<le> length us" using k line_len_le by simp
  show ?thesis
  proof (cases "k = 0")
    case True
    then show ?thesis using v l f cviewD(1) [OF v] by (auto simp: cbuf_drop_line_def)
  next
    case False
    then have n: "0 < int k" "int k \<le> int (length us)" using ku by auto
    obtain cb' where d: "cbuf_dropper cb (int k) = Some (cb', int k)" "cview cb' (rs @ take k us) (drop k us)"
        "cb_overwrite cb' = cb_overwrite cb" "cb_size cb' = cb_size cb"
      using cbuf_dropper_view [OF v n] by auto
    then show ?thesis using l f n cviewD(1) [OF v] cviewD(1) [OF d(2)]
      by (intro exI [of _ cb']) (auto simp: cbuf_drop_line_def)
  qed
qed

text \<open>The scan of \<open>cbuf_find_replay_line\<close> over the replay data, last byte first.\<close>

fun replay_scan :: "byte list \<Rightarrow> int \<Rightarrow> int \<Rightarrow> int \<Rightarrow> int \<Rightarrow> int \<Rightarrow> int \<times> int \<times> int \<times> int \<times> int" where
  "replay_scan [] n m l chars lines = (n, m, l, chars, lines)"
| "replay_scan (c # cs) n m l chars lines =
     (let n = n + 1; chars = (if 0 < chars then chars - 1 else chars);
          (lines, m, l) = (if c = NL then (if 0 < lines then lines - 1 else lines, n - 1, l + 1) else (lines, m, l))
      in if chars = 0 \<or> lines = 0 then (n, m, l, chars, lines) else replay_scan cs n m l chars lines)"

lemma replay_loop_scan:
  assumes "int (length data) = S + 1" "0 \<le> r" "r \<le> S" "int k \<le> S" "i = (r + int k) mod (S + 1)"
  shows "replay_line_loop data S r i n m l chars lines = Some (replay_scan (rev (win data i k)) n m l chars lines)"
  using assms(4,5)
proof (induction k arbitrary: i n m l chars lines)
  case 0
  then show ?case using assms by (subst replay_line_loop.simps) simp
next
  case (Suc k)
  have i: "i = (if r + int (Suc k) < S + 1 then r + int (Suc k) else r + int (Suc k) - (S + 1))"
    using Suc.prems mod_near(2) [of "r + int (Suc k)" "S + 1"] assms by simp
  have ne: "i \<noteq> r" "0 \<le> i" "i \<le> S" using i Suc.prems assms by (auto split: if_splits)
  define j where "j = (i + S) mod (S + 1)"
  have jm: "j = (i - 1) mod (S + 1)" unfolding j_def using mod_add_self2 [of "i - 1" "S + 1"] by (simp add: algebra_simps)
  have j: "j = (r + int k) mod (S + 1)" "0 \<le> j" "j \<le> S"
    using Suc.prems(2) ne pos_mod_bound [of "S + 1" "i - 1"] by (simp_all add: jm mod_shift)
  have w: "win data i (Suc k) = win data j k @ [data ! nat j]"
  proof -
    have "win data i (Suc k) = win data (i - 1) k @ win data i 1" using win_split [of data i k 1] by simp
    moreover have "win data (i - 1) k = win data j k" using win_mod [of data "i - 1" k] assms(1) jm by simp
    moreover have "win data i 1 = [data ! nat j]" using jm assms(1) by (simp add: win_def)
    ultimately show ?thesis by simp
  qed
  have IH: "replay_line_loop data S r j n m l chars lines = Some (replay_scan (rev (win data j k)) n m l chars lines)" for n m l chars lines
    using Suc.IH [OF _ j(1)] Suc.prems(1) by simp
  have rd: "c_rd data j = Some (data ! nat j)" using j(2,3) assms(1) by simp
  show ?case using ne(1) by (subst replay_line_loop.simps) (simp add: Let_def j_def [symmetric] rd IH w)
qed

lemma replay_scan_bounds:
  "0 \<le> m \<Longrightarrow> m \<le> n \<Longrightarrow> case replay_scan cs n m l chars lines of (n', m', _) \<Rightarrow> 0 \<le> m' \<and> m' \<le> n' \<and> n' \<le> n + int (length cs)"
proof (induction cs arbitrary: n m l chars lines)
  case (Cons c cs)
  define ch where "ch = (if 0 < chars then chars - 1 else chars)"
  define ln where "ln = (if c = NL \<and> 0 < lines then lines - 1 else lines)"
  define m1 where "m1 = (if c = NL then n else m)"
  define l1 where "l1 = (if c = NL then l + 1 else l)"
  have e: "replay_scan (c # cs) n m l chars lines =
      (if ch = 0 \<or> ln = 0 then (n + 1, m1, l1, ch, ln) else replay_scan cs (n + 1) m1 l1 ch ln)"
    by (simp add: Let_def ch_def ln_def m1_def l1_def)
  have "0 \<le> m1" "m1 \<le> n + 1" using Cons.prems by (auto simp: m1_def)
  then show ?case unfolding e using Cons.IH [of m1 "n + 1" l1 ch ln] by (auto split: prod.splits)
qed simp

lemma find_replay_scan:
  assumes v: "cview cb rs us" and r: "rs \<noteq> []" and l: "0 < lines \<or> lines = - 1 \<and> 0 < chars"
  shows "cbuf_find_replay_line cb chars lines =
    (let ch = (if 0 < lines then - 1 else chars + 1);
         (nl, ch, ln, l) = (if last rs \<noteq> NL then (1, ch - 1, lines, 0) else (0, ch, if 0 < lines then lines + 1 else lines, - 1));
         (n, m, l, ch, ln) = replay_scan (rev rs) 0 0 l ch ln;
         (ln, m, l) = (if \<not> cb_got_wrap cb \<and> (0 < ch \<or> 0 < ln) then (if 0 < ln then ln - 1 else ln, n, l + 1) else (ln, m, l))
     in Some (if 0 < ln then (0, 0, nl) else (m, l, nl)))"
proof -
  note c = cviewD [OF v]
  let ?S = "cb_size cb"
  have k: "int (length rs) \<le> ?S" "0 < length rs" using c(4) r by (linarith, simp)
  have ir: "0 \<le> cb_i_rep cb" "cb_i_rep cb \<le> ?S" "0 \<le> cb_i_out cb" "cb_i_out cb \<le> ?S" using c(1) by (simp_all add: cbuf_is_valid_def)
  have io: "cb_i_out cb = (cb_i_rep cb + int (length rs)) mod (?S + 1)"
    using v c(3,7) by (simp add: cview_def idx_ok_def mod_shift)
  have ne: "cb_i_out cb \<noteq> cb_i_rep cb"
    using io ir k mod_near(2) [of "cb_i_rep cb + int (length rs)" "?S + 1"] by auto
  have w: "win (cb_data cb) (cb_i_out cb) (length rs) = rs"
    using win_mod [of "cb_data cb" "cb_i_in cb - int (length us)" "length rs"] c(5,7,11) by simp
  have loop: "replay_line_loop (cb_data cb) ?S (cb_i_rep cb) (cb_i_out cb) 0 0 l' ch ln = Some (replay_scan (rev rs) 0 0 l' ch ln)" for l' ch ln
    using replay_loop_scan [OF c(5) ir(1,2) k(1) io, of 0 0 l' ch ln] w by simp
  have "(cb_i_out cb + ?S) mod (?S + 1) = (cb_i_out cb - 1) mod (?S + 1)"
    using mod_add_self2 [of "cb_i_out cb - 1" "?S + 1"] by (simp add: algebra_simps)
  moreover have "last rs = cb_data cb ! nat ((cb_i_out cb - 1) mod (?S + 1))"
  proof -
    have "last rs = win (cb_data cb) (cb_i_out cb) (length rs) ! (length rs - 1)" unfolding w using r by (simp add: last_conv_nth)
    also have "\<dots> = cb_data cb ! nat ((cb_i_out cb - 1) mod (?S + 1))"
    proof -
      have "cb_i_out cb - int (length rs) + int (length rs - 1) = cb_i_out cb - 1" "length rs - 1 < length rs" using k(2) by linarith+
      then show ?thesis using c(5) by (simp only: win_nth)
    qed
    finally show ?thesis .
  qed
  moreover have "0 \<le> (cb_i_out cb - 1) mod (?S + 1)" "(cb_i_out cb - 1) mod (?S + 1) < ?S + 1" using c(6) pos_mod_bound [of "?S + 1" "cb_i_out cb - 1"] by simp_all
  ultimately have rd: "c_rd (cb_data cb) ((cb_i_out cb + ?S) mod (?S + 1)) = Some (last rs)" using c(5) by simp
  have n1: "\<not> (lines = 0 \<or> lines \<le> - 1 \<and> chars \<le> 0)" "- 1 \<le> lines" using l by auto
  show ?thesis
    unfolding cbuf_find_replay_line_def Let_def if_not_P [OF n1(1)] if_not_P [OF ne] rd c_assert_bind [OF n1(2)] Option.bind.bind_lunit
    by (cases "last rs = NL") (simp_all only: simp_thms if_True if_False prod.case loop Option.bind.bind_lunit)
qed

lemma find_replay_bounds:
  assumes v: "cview cb rs us" and l: "0 < lines \<or> lines = - 1"
  shows "\<exists>k j nl. cbuf_find_replay_line cb chars lines = Some (int k, j, nl) \<and> k \<le> length rs \<and> (nl = 0 \<or> nl = 1)"
proof (cases "rs \<noteq> [] \<and> (0 < lines \<or> lines = - 1 \<and> 0 < chars)")
  case True
  have b: "case replay_scan (rev rs) 0 0 l' ch ln of (n', m', _) \<Rightarrow> 0 \<le> m' \<and> m' \<le> n' \<and> n' \<le> int (length rs)" for l' ch ln
    using replay_scan_bounds [of 0 0 "rev rs" l' ch ln] by simp
  have nk: "\<exists>k. x = int k \<and> k \<le> length rs" if "0 \<le> x" "x \<le> int (length rs)" for x using that by (intro exI [of _ "nat x"]) auto
  define t where "t = (if last rs \<noteq> NL then (1 :: int, (if 0 < lines then - 1 else chars + 1) - 1, lines, 0 :: int)
      else (0, if 0 < lines then - 1 else chars + 1, if 0 < lines then lines + 1 else lines, - 1))"
  obtain nl ch ln l0 where t: "t = (nl, ch, ln, l0)" by (cases t) auto
  obtain n m l1 ch1 ln1 where sc: "replay_scan (rev rs) 0 0 l0 ch ln = (n, m, l1, ch1, ln1)" by (cases "replay_scan (rev rs) 0 0 l0 ch ln") auto
  have bd: "0 \<le> m" "m \<le> n" "n \<le> int (length rs)" using b [of l0 ch ln] sc by simp_all
  have nl: "nl = 0 \<or> nl = 1" using t unfolding t_def by (auto split: if_splits)
  have e: "cbuf_find_replay_line cb chars lines =
      (case if \<not> cb_got_wrap cb \<and> (0 < ch1 \<or> 0 < ln1) then (if 0 < ln1 then ln1 - 1 else ln1, n, l1 + 1) else (ln1, m, l1) of
         (ln, m, l) \<Rightarrow> Some (if 0 < ln then (0, 0, nl) else (m, l, nl)))"
    using True find_replay_scan [OF v, of lines chars] unfolding Let_def t_def [symmetric] t by (simp only: sc prod.case simp_thms)
  have "\<exists>x j. cbuf_find_replay_line cb chars lines = Some (x, j, nl) \<and> 0 \<le> x \<and> x \<le> int (length rs)"
    unfolding e using bd by (simp split: prod.split)
  then have "\<exists>x j nl. cbuf_find_replay_line cb chars lines = Some (x, j, nl) \<and> 0 \<le> x \<and> x \<le> int (length rs) \<and> (nl = 0 \<or> nl = 1)"
    using nl by blast
  then show ?thesis using nk by metis
next
  case False
  have "cb_i_out cb = cb_i_rep cb" if "rs = []" using v that by (auto simp: cview_def idx_ok_def)
  then have "cbuf_find_replay_line cb chars lines = Some (0, 0, 0)"
    using l False by (cases "rs = []"; cases "lines = - 1") (simp_all add: cbuf_find_replay_line_def Let_def not_less)
  then show ?thesis by (intro exI [of _ "0 :: nat"]) auto
qed

lemma replay_scan_plain: "NL \<notin> set b \<Longrightarrow> 0 < lines \<Longrightarrow> replay_scan (b @ cs) n m l (- 1) lines = replay_scan cs (n + int (length b)) m l (- 1) lines"
  by (induction b arbitrary: n) (auto simp: Let_def algebra_simps)

text \<open>The last line of the replay data, when it is complete and what is before it ends with a newline or
  is the start of all data.\<close>

lemma find_replay_last_line:
  assumes v: "cview cb (rs @ b @ [NL]) us" and b: "NL \<notin> set b" and r: "rs = [] \<and> \<not> cb_got_wrap cb \<or> rs \<noteq> [] \<and> last rs = NL"
  shows "cbuf_find_replay_line cb chars 1 = Some (int (length b) + 1, 1, 0)"
proof -
  have "replay_scan (rev (rs @ b @ [NL])) 0 0 (- 1) (- 1) 2 = replay_scan (rev b @ rev rs) 1 0 0 (- 1) 1"
    by (simp add: Let_def)
  also have "\<dots> = replay_scan (rev rs) (1 + int (length b)) 0 0 (- 1) 1"
    using replay_scan_plain [of "rev b" 1 "rev rs" 1 0 0] b by simp
  also have "\<dots> = (if rs = [] then (1 + int (length b), 0, 0, - 1, 1) else (2 + int (length b), 1 + int (length b), 1, - 1, 0))"
  proof (cases "rs = []")
    case False
    then have e: "rev rs = NL # rev (butlast rs)" using r by (metis append_butlast_last_id rev_eq_Cons_iff rev_rev_ident)
    show ?thesis unfolding e using False by (simp add: Let_def)
  qed simp
  finally show ?thesis using find_replay_scan [OF v, of 1 chars] r by (auto simp: Let_def)
qed

lemma cbuf_rewind_line_view:
  assumes v: "cview cb rs us" and l: "0 \<le> len" "0 < lines \<or> lines = - 1" and f: "cbuf_find_replay_line cb len lines = Some (int k, j, nl)"
    and k: "k \<le> length rs"
  shows "\<exists>cb'. cbuf_rewind_line cb len lines = Some (cb', int k) \<and> cview cb' (take (length rs - k) rs) (drop (length rs - k) rs @ us) \<and>
    cb_overwrite cb' = cb_overwrite cb \<and> cb_size cb' = cb_size cb"
proof -
  define c where "c = (if 0 < int k then cb\<lparr>cb_used := cb_used cb + int k,
      cb_i_out := (cb_i_out cb - int k + (cb_size cb + 1)) mod (cb_size cb + 1)\<rparr> else cb)"
  have c: "cview c (take (length rs - k) rs) (drop (length rs - k) rs @ us)"
    using rewind_view [OF v k] v by (cases "k = 0") (simp_all add: c_def)
  then show ?thesis using l f cviewD(1) [OF v] cviewD(1) [OF c]
    by (intro exI [of _ c]) (auto simp: cbuf_rewind_line_def Let_def c_def)
qed

lemma cbuf_replay_line_view:
  assumes v: "cview cb rs us" and l: "0 \<le> len" "0 < lines \<or> lines = - 1"
  shows "\<exists>d n. cbuf_replay_line cb False len lines = Some (d, n) \<and> int (length d) \<le> len \<and> 0 \<le> n"
proof -
  obtain k j nl where f: "cbuf_find_replay_line cb (len - 1) lines = Some (int k, j, nl)" "k \<le> length rs" "nl = 0 \<or> nl = 1"
    using find_replay_bounds [OF v l(2)] by blast
  show ?thesis
  proof (cases "0 < k \<and> 0 < len")
    case False
    then show ?thesis using l f cviewD(1) [OF v] by (auto simp: cbuf_replay_line_def)
  next
    case True
    define m where "m = max (min (int k) (len - 1 - nl)) 0"
    have m: "0 \<le> m" "m \<le> int (length rs)" "m + nl < len \<or> m = 0" "m < len" using True f(2,3) by (auto simp: m_def)
    have r: "(if 0 < m then cbuf_replayer cb m cbuf_put_mem [] else Some ([], 0)) = Some (lastn (nat m) rs, m)"
      using mem_sink.replayer_full [OF v, of m "[]"] m by (auto simp: lastn_def)
    have ld: "int (length (lastn (nat m) rs)) = m" using m by simp
    show ?thesis using True l f r m ld cviewD(1) [OF v]
      by (auto simp: cbuf_replay_line_def Let_def m_def [symmetric])
  qed
qed

text \<open>What \<open>cbuf_write_line\<close> stores.\<close>

definition as_line :: "byte list \<Rightarrow> byte list" where
  "as_line s = (if s = [] \<or> last s \<noteq> NL then s @ [NL] else s)"

lemma grow_to_fit:
  assumes v: "cview cb rs us"
  obtains c where "(if cb_size cb - cb_used cb < len \<and> cb_size cb < cb_maxsize cb
      then map_option fst (cbuf_grow re cb (len - (cb_size cb - cb_used cb))) else Some cb) = Some c"
    "cview c rs us" "grew re cb len (length us) c"
proof (cases "cb_size cb - cb_used cb < len \<and> cb_size cb < cb_maxsize cb")
  case True
  then have p: "0 < len - (cb_size cb - cb_used cb)" by simp
  obtain c g where g: "cbuf_grow re cb (len - (cb_size cb - cb_used cb)) = Some (c, g)" "cview c rs us" "cb_size c = cb_size cb + g" "0 \<le> g"
      "cb_overwrite c = cb_overwrite cb" "cb_maxsize c = cb_maxsize cb"
      "(\<forall>m. re m) \<longrightarrow> cb_size c = cb_maxsize cb \<or> len - (cb_size cb - cb_used cb) \<le> g"
    using cbuf_grow_view [OF v p, of re] by blast
  then have "grew re cb len (length us) c" using True cviewD(3) [OF v] by (auto simp: grew_def)
  then show thesis using True g by (intro that [of c]) auto
next
  case False
  have "cb_size cb \<le> cb_maxsize cb" using v by (simp add: cview_def sizes_ok_def)
  then have "grew re cb len (length us) cb" using False cviewD(3) [OF v] by (auto simp: grew_def)
  then show thesis using False v by (intro that [of cb]) auto
qed

text \<open>A write that is accepted in full.\<close>

lemma cbuf_writer_fits:
  assumes v: "cview cb rs us" and l: "s \<noteq> []" and k: "int (length s) \<le> len" "len \<le> int (length (s @ t))"
    and ok: "(cb_overwrite cb = CBUF_NO_DROP \<longrightarrow> int (length us) + int (length s) \<le> cb_size cb) \<and>
      (cb_overwrite cb = CBUF_WRAP_ONCE \<longrightarrow> int (length s) \<le> cb_size cb)"
    and len: "len = int (length s)"
  obtains cb' where "cbuf_writer re cb len cbuf_get_mem (s @ t) = Some (cb', t, len, Some (max 0 (int (length us) + len - cb_size cb')))"
    "cview cb' (put_rs (nat (cb_size cb')) rs us s) (put_us (nat (cb_size cb')) us s)" "grew re cb len (length us) cb'"
proof -
  have p: "0 < len" using l len by simp
  obtain cb' q where w: "q = accepted (cb_overwrite cb) (cb_size cb') len (length us)"
    "cbuf_writer re cb len cbuf_get_mem (s @ t) = Some (cb', drop (nat q) (s @ t), if q = 0 then - 1 else q,
       if q = 0 then None else Some (max 0 (int (length us) + q - cb_size cb')))"
    "cview cb' (put_rs (nat (cb_size cb')) rs us (take (nat q) (s @ t))) (put_us (nat (cb_size cb')) us (take (nat q) (s @ t)))"
    "grew re cb len (length us) cb'" "0 \<le> q" "q \<le> len"
    by (rule cbuf_writer_mem [OF v p k(2)])
  have "q = len" using w(1,4) ok len by (auto simp: accepted_def grew_def split: cbuf_overwrite.splits)
  then show thesis using w p len by (intro that [of cb']) auto
qed

lemma put_us_put_us: "put_us S (put_us S us xs) ys = put_us S us (xs @ ys)"
proof -
  have "lastn S (lastn S zs @ ys) = lastn S (zs @ ys)" for zs :: "byte list"
    using lastn_keep [of S ys zs] lastn_keep [of S ys "lastn S zs"] by (simp add: lastn_lastn min_def)
  from this [of "us @ xs"] show ?thesis by (simp add: put_us_def)
qed

lemma put_us_tail: "put_us S us (drop (length xs - S) xs) = put_us S us xs"
proof (cases "length xs \<le> S")
  case False
  then have "lastn S (us @ lastn S xs) = lastn S xs" "lastn S (us @ xs) = lastn S xs"
    by (simp_all add: lastn_suffix lastn_lastn)
  then show ?thesis by (simp add: put_us_def lastn_def)
qed simp

text \<open>The two writes of \<open>cbuf_write_line\<close>: the end of the string, then the newline if it is missing.\<close>

lemma write_line_parts:
  assumes v: "cview c rs us" and nd: "nd = (if cb_size c < len then len - cb_size c else 0)" and len: "len = int (length (as_line s))"
    and ok: "(cb_overwrite c = CBUF_NO_DROP \<longrightarrow> int (length us) + len \<le> cb_size c) \<and> (cb_overwrite c = CBUF_WRAP_ONCE \<longrightarrow> len \<le> cb_size c)"
  obtains c1 d1 where "(if 0 < int (length s) - nd then do {
        (dst, _, n, d) \<leftarrow> cbuf_writer re c (int (length s) - nd) cbuf_get_mem (drop (nat nd) s);
        c_assert (n \<noteq> 0 \<longrightarrow> n = int (length s) - nd);
        d \<leftarrow> d;
        Some (dst, nd + d)
      } else Some (c, nd)) = Some (c1, d1)"
    "cview c1 (put_rs (nat (cb_size c1)) rs us (drop (nat nd) s)) (put_us (nat (cb_size c1)) us (drop (nat nd) s))"
    "cb_size c \<le> cb_size c1" "cb_maxsize c1 = cb_maxsize c" "cb_overwrite c1 = cb_overwrite c"
    "int (length us) + len \<le> cb_size c \<or> cb_size c = cb_maxsize c \<longrightarrow> cb_size c1 = cb_size c"
proof (cases "0 < int (length s) - nd")
  case True
  let ?p = "drop (nat nd) s"
  have nd0: "0 \<le> nd" "cb_overwrite c \<noteq> CBUF_WRAP_MANY \<Longrightarrow> nd = 0"
    using nd ok by (auto, cases "cb_overwrite c", auto)
  have lp: "int (length ?p) = int (length s) - nd" "?p \<noteq> []" using True nd0 by (auto simp: of_nat_diff)
  have ls: "int (length s) \<le> len" using len by (simp add: as_line_def)
  have okp: "(cb_overwrite c = CBUF_NO_DROP \<longrightarrow> int (length us) + int (length ?p) \<le> cb_size c) \<and> (cb_overwrite c = CBUF_WRAP_ONCE \<longrightarrow> int (length ?p) \<le> cb_size c)"
    using ok ls lp nd0 by auto
  have k: "int (length ?p) \<le> int (length s) - nd" "int (length s) - nd \<le> int (length (?p @ []))" using lp by simp_all
  obtain c1 where w: "cbuf_writer re c (int (length s) - nd) cbuf_get_mem (?p @ []) = Some (c1, [], int (length s) - nd, Some (max 0 (int (length us) + (int (length s) - nd) - cb_size c1)))"
      "cview c1 (put_rs (nat (cb_size c1)) rs us ?p) (put_us (nat (cb_size c1)) us ?p)" "grew re c (int (length s) - nd) (length us) c1"
    by (rule cbuf_writer_fits [OF v lp(2) k okp lp(1) [symmetric]])
  have g: "cb_size c \<le> cb_size c1" "cb_maxsize c1 = cb_maxsize c" "cb_overwrite c1 = cb_overwrite c"
    using w(3) unfolding grew_def by blast+
  have g4: "int (length us) + len \<le> cb_size c \<or> cb_size c = cb_maxsize c \<longrightarrow> cb_size c1 = cb_size c"
  proof
    assume "int (length us) + len \<le> cb_size c \<or> cb_size c = cb_maxsize c"
    then have "int (length s) - nd \<le> cb_size c - int (length us) \<or> cb_size c = cb_maxsize c" using ls nd0(1) by auto
    then show "cb_size c1 = cb_size c" using w(3) unfolding grew_def by blast
  qed
  show thesis using True w(1,2) g g4 by (intro that [of c1 "nd + max 0 (int (length us) + (int (length s) - nd) - cb_size c1)"]) simp_all
next
  case False
  then have "drop (nat nd) s = []" by simp
  then show thesis using False v put_nil [OF v] by (intro that [of c nd]) auto
qed

lemma cbuf_write_line_view:
  assumes v: "cview cb rs us" and len: "len = int (length (as_line s))"
  shows "\<exists>cb' n dr rs' us'. cbuf_write_line re cb (Some s) = Some (cb', n, dr) \<and> cview cb' rs' us' \<and>
    cb_overwrite cb' = cb_overwrite cb \<and> cb_maxsize cb' = cb_maxsize cb \<and> cb_size cb \<le> cb_size cb' \<and>
    (n = - 1 \<and> rs' = rs \<and> us' = us \<and> ((\<forall>m. re m) \<longrightarrow> cb_overwrite cb = CBUF_NO_DROP \<and> cb_maxsize cb < int (length us) + len \<or>
        cb_overwrite cb = CBUF_WRAP_ONCE \<and> cb_maxsize cb < len) \<or>
     n = len \<and> ((\<forall>m. re m) \<longrightarrow> us' = put_us (nat (cb_size cb')) us (as_line s) \<and>
       (cb_size cb' = cb_maxsize cb \<or> int (length us) + len \<le> cb_size cb')))"
proof -
  have l0: "0 < len" "len = (if s = [] \<or> last s \<noteq> NL then int (length s) + 1 else int (length s))" using len by (auto simp: as_line_def)
  obtain c where c: "(if cb_size cb - cb_used cb < len \<and> cb_size cb < cb_maxsize cb
      then map_option fst (cbuf_grow re cb (len - (cb_size cb - cb_used cb))) else Some cb) = Some c"
    "cview c rs us" "grew re cb len (length us) c"
    by (rule grow_to_fit [OF v])
  have g: "cb_size cb \<le> cb_size c" "cb_maxsize c = cb_maxsize cb" "cb_overwrite c = cb_overwrite cb"
      "(\<forall>m. re m) \<and> cb_size c - int (length us) < len \<longrightarrow> cb_size c = cb_maxsize cb" using c(3) unfolding grew_def by blast+
  define len' where "len' = (case cb_overwrite c of
          CBUF_NO_DROP \<Rightarrow> if cb_size c - cb_used c < len then - 1 else len
        | CBUF_WRAP_ONCE \<Rightarrow> if cb_size c < len then - 1 else len
        | CBUF_WRAP_MANY \<Rightarrow> len)"
  have uc: "cb_used c = int (length us)" using cviewD(3) [OF c(2)] .
  note valid = cviewD(1) [OF v] cviewD(1) [OF c(2)]
  show ?thesis
  proof (cases "len' = len")
    case False
    have m1: "len' = - 1" using False by (auto simp: len'_def split: cbuf_overwrite.splits if_splits)
    have "cbuf_write_line re cb (Some s) = Some (c, - 1, 0)"
      unfolding cbuf_write_line_def Let_def option.case l0(2) [symmetric] c(1) Option.bind.bind_lunit len'_def [symmetric] m1 using valid by simp
    moreover have "(\<forall>m. re m) \<longrightarrow> cb_overwrite cb = CBUF_NO_DROP \<and> cb_maxsize cb < int (length us) + len \<or> cb_overwrite cb = CBUF_WRAP_ONCE \<and> cb_maxsize cb < len"
      using False g uc unfolding len'_def by (auto split: cbuf_overwrite.splits if_splits)
    ultimately show ?thesis using c(2) g(1-3) by (intro exI [of _ c] exI [of _ "- 1 :: int"] exI [of _ "0 :: int"] exI [of _ rs] exI [of _ us]) blast
  next
    case True
    have ok: "(cb_overwrite c = CBUF_NO_DROP \<longrightarrow> int (length us) + len \<le> cb_size c) \<and> (cb_overwrite c = CBUF_WRAP_ONCE \<longrightarrow> len \<le> cb_size c)"
      using True uc l0(1) unfolding len'_def by (auto split: cbuf_overwrite.splits if_splits)
    define nd where "nd = (if cb_size c < len then len - cb_size c else 0)"
    obtain c1 d1 where p: "(if 0 < int (length s) - nd then do {
        (dst, _, n, d) \<leftarrow> cbuf_writer re c (int (length s) - nd) cbuf_get_mem (drop (nat nd) s);
        c_assert (n \<noteq> 0 \<longrightarrow> n = int (length s) - nd);
        d \<leftarrow> d;
        Some (dst, nd + d)
      } else Some (c, nd)) = Some (c1, d1)"
      "cview c1 (put_rs (nat (cb_size c1)) rs us (drop (nat nd) s)) (put_us (nat (cb_size c1)) us (drop (nat nd) s))"
      "cb_size c \<le> cb_size c1" "cb_maxsize c1 = cb_maxsize c" "cb_overwrite c1 = cb_overwrite c"
      "int (length us) + len \<le> cb_size c \<or> cb_size c = cb_maxsize c \<longrightarrow> cb_size c1 = cb_size c"
      by (rule write_line_parts [OF c(2) nd_def len ok])
    have nd: "0 \<le> nd" "nd \<le> int (length s)" using l0 cviewD(6) [OF c(2)] by (auto simp: nd_def split: if_splits)
    have tail: "drop (nat nd) (as_line s) = drop (length (as_line s) - nat (cb_size c)) (as_line s)"
      using len cviewD(6) [OF c(2)] by (auto simp: nd_def nat_diff_distrib)
    have stable: "(\<forall>m. re m) \<longrightarrow> cb_size c1 = cb_size c" using p(6) g(2,4) by auto
    have fin: ?thesis if "cbuf_write_line re cb (Some s) = Some (c', len, d)" "cview c' r' u'" "cb_overwrite c' = cb_overwrite cb"
        "cb_maxsize c' = cb_maxsize cb" "cb_size cb \<le> cb_size c'" "(\<forall>m. re m) \<longrightarrow> u' = put_us (nat (cb_size c')) us (as_line s) \<and> cb_size c' = cb_size c" for c' d r' u'
    proof -
      have "(\<forall>m. re m) \<longrightarrow> cb_size c' = cb_maxsize cb \<or> int (length us) + len \<le> cb_size c'" using that(6) g(4) by auto
      then show ?thesis using that by blast
    qed
    show ?thesis
    proof (cases "as_line s = s")
      case nl: True
      then have ls: "s \<noteq> []" "last s = NL" "len = int (length s)" using len by (auto simp: as_line_def split: if_splits)
      have rd: "c_rd (s @ [0]) (len - 1) = Some NL"
      proof -
        have "nat (len - 1) = length s - 1" "length s - 1 < length s" using ls(1,3) by auto
        then show ?thesis using ls by (simp add: nth_append last_conv_nth)
      qed
      have e: "cbuf_write_line re cb (Some s) = Some (c1, len, d1)"
        unfolding cbuf_write_line_def Let_def option.case l0(2) [symmetric] c(1) Option.bind.bind_lunit len'_def [symmetric] True nd_def [symmetric] p(1)
        using valid l0(1) rd cviewD(1) [OF p(2)] by simp
      have last: "(\<forall>m. re m) \<longrightarrow> put_us (nat (cb_size c1)) us (drop (nat nd) s) = put_us (nat (cb_size c1)) us (as_line s) \<and> cb_size c1 = cb_size c"
        using stable tail put_us_tail [of "nat (cb_size c)" us "as_line s"] nl by auto
      show ?thesis using p(3-5) g(1-3) by (intro fin [OF e p(2) _ _ _ last]) simp_all
    next
      case nonl: False
      then have ls: "as_line s = s @ [NL]" "len = int (length s) + 1" using len by (auto simp: as_line_def split: if_splits)
      have rd: "c_rd (s @ [0]) (len - 1) = Some 0" using ls by (simp add: nth_append)
      let ?u = "put_us (nat (cb_size c1)) us (drop (nat nd) s)"
      let ?r = "put_rs (nat (cb_size c1)) rs us (drop (nat nd) s)"
      have lu: "length ?u \<le> length us + length (drop (nat nd) s)" unfolding put_lengths by simp
      have lu2: "int (length ?u) + 1 \<le> int (length us) + len" using lu ls by simp
      have ok1: "(cb_overwrite c1 = CBUF_NO_DROP \<longrightarrow> int (length ?u) + int (length [NL]) \<le> cb_size c1) \<and> (cb_overwrite c1 = CBUF_WRAP_ONCE \<longrightarrow> int (length [NL]) \<le> cb_size c1)"
        using ok p(3,5) lu2 cviewD(6) [OF p(2)] by auto
      have kk: "int (length [NL]) \<le> 1" "1 \<le> int (length ([NL] @ []))" "(1 :: int) = int (length [NL])" "[NL] \<noteq> []" by simp_all
      obtain c2 where w: "cbuf_writer re c1 1 cbuf_get_mem ([NL] @ []) = Some (c2, [], 1, Some (max 0 (int (length ?u) + 1 - cb_size c2)))"
          "cview c2 (put_rs (nat (cb_size c2)) ?r ?u [NL]) (put_us (nat (cb_size c2)) ?u [NL])" "grew re c1 1 (length ?u) c2"
        by (rule cbuf_writer_fits [OF p(2) kk(4) kk(1,2) ok1 kk(3)])
      have g2: "cb_size c1 \<le> cb_size c2" "cb_maxsize c2 = cb_maxsize c1" "cb_overwrite c2 = cb_overwrite c1" using w(3) unfolding grew_def by blast+
      have e: "cbuf_write_line re cb (Some s) = Some (c2, len, d1 + max 0 (int (length ?u) + 1 - cb_size c2))"
        unfolding cbuf_write_line_def Let_def option.case l0(2) [symmetric] c(1) Option.bind.bind_lunit len'_def [symmetric] True nd_def [symmetric] p(1)
        using valid l0(1) rd cviewD(1) [OF w(2)] w(1) by (simp add: NL_def)
      have last: "(\<forall>m. re m) \<longrightarrow> put_us (nat (cb_size c2)) ?u [NL] = put_us (nat (cb_size c2)) us (as_line s) \<and> cb_size c2 = cb_size c"
      proof
        assume re: "\<forall>m. re m"
        then have s1: "cb_size c1 = cb_size c" using stable by blast
        have "1 \<le> cb_size c1 - int (length ?u) \<or> cb_size c1 = cb_maxsize c1"
          using re g(2,4) s1 p(4) lu2 by auto
        then have s2: "cb_size c2 = cb_size c" using w(3) s1 unfolding grew_def by force
        have "drop (nat nd) s @ [NL] = drop (nat nd) (as_line s)" using ls(1) nd by simp
        then show "put_us (nat (cb_size c2)) ?u [NL] = put_us (nat (cb_size c2)) us (as_line s) \<and> cb_size c2 = cb_size c"
          unfolding s1 s2 put_us_put_us using tail put_us_tail [of "nat (cb_size c)" us "as_line s"] by simp
      qed
      show ?thesis using g2 p(3-5) g(1-3) by (intro fin [OF e w(2) _ _ _ last]) simp_all
    qed
  qed
qed

subsection \<open>Two buffers\<close>

lemma copier_loop_eq:
  assumes "int (length sd) = SS + 1" "0 \<le> i" "i \<le> SS" "int (length dd) = DS + 1" "0 \<le> j" "j \<le> DS" "0 \<le> nleft"
  shows "copier_loop SS sd DS dd i j nleft =
    Some (ring_put dd j (win sd (i + nleft) (nat nleft)), (j + nleft) mod (DS + 1))"
  using assms
proof (induction "nat nleft" arbitrary: dd i j nleft rule: less_induct)
  case less
  show ?case
  proof (cases "nleft = 0")
    case True
    then show ?thesis using less.prems by (subst copier_loop.simps) simp
  next
    case False
    define n where "n = min (min ((SS + 1) - i) ((DS + 1) - j)) nleft"
    have n: "0 < n" "n \<le> nleft" "i + n \<le> SS + 1" "j + n \<le> DS + 1" using False less.prems by (auto simp: n_def)
    define bs where "bs = win sd (i + n) (nat n)"
    have lb: "int (length bs) = n" using n by (simp add: bs_def)
    have sl: "c_slice sd i n = Some bs" using n less.prems by (simp add: c_slice_win bs_def)
    have sp: "c_splice dd j bs = Some (ring_put dd j bs)" using n less.prems lb by (intro c_splice_put) auto
    define i' where "i' = (i + n) mod (SS + 1)"
    define j' where "j' = (j + n) mod (DS + 1)"
    have r: "0 \<le> i'" "i' \<le> SS" "0 \<le> j'" "j' \<le> DS"
      using less.prems n pos_mod_bound [of "SS + 1" "i + n"] pos_mod_bound [of "DS + 1" "j + n"] by (simp_all add: i'_def j'_def)
    have e: "copier_loop SS sd DS dd i j nleft = copier_loop SS sd DS (ring_put dd j bs) i' j' (nleft - n)"
      using False less.prems sl sp by (subst copier_loop.simps) (simp add: Let_def n_def [symmetric] i'_def j'_def)
    have h: "copier_loop SS sd DS (ring_put dd j bs) i' j' (nleft - n) =
        Some (ring_put (ring_put dd j bs) j' (win sd (i' + (nleft - n)) (nat (nleft - n))), (j' + (nleft - n)) mod (DS + 1))"
      using less.hyps [of "nleft - n" i' "ring_put dd j bs" j'] r n less.prems(1,4) by simp
    have w: "win sd (i' + (nleft - n)) (nat (nleft - n)) = win sd (i + nleft) (nat (nleft - n))"
      using win_mod [of sd "i' + (nleft - n)" "nat (nleft - n)"] win_mod [of sd "i + nleft" "nat (nleft - n)"]
      by (simp add: less.prems(1) i'_def mod_shift)
    have sw: "win sd (i + nleft) (nat nleft) = bs @ win sd (i + nleft) (nat (nleft - n))"
      using win_split [of sd "i + nleft" "nat n" "nat (nleft - n)"] n by (simp add: bs_def algebra_simps nat_add_distrib [symmetric])
    have p: "ring_put (ring_put dd j bs) j' xs = ring_put dd j (bs @ xs)" for xs
      using ring_put_mod [of "ring_put dd j bs" "j + n" xs] less.prems(4) lb by (simp add: ring_put_append j'_def)
    show ?thesis unfolding e h w sw p by (simp add: j'_def mod_shift)
  qed
qed

lemma put_rs_tail: "put_rs S rs us (drop (length xs - S) xs) = put_rs S rs us xs"
proof -
  have "lastn S (rs @ us @ drop (length xs - S) xs) = lastn S (rs @ us @ xs)"
    using put_us_tail [of S "rs @ us" xs] by (simp add: put_us_def)
  then show ?thesis by (simp add: put_rs_def put_us_tail)
qed

lemma cbuf_copier_view:
  assumes s: "cview src srs sus" and v: "cview dst rs us" and l: "0 < len" and ne: "sus \<noteq> []"
  shows "\<exists>dst' q. q = accepted (cb_overwrite dst) (cb_size dst') (min len (int (length sus))) (length us) \<and>
    cbuf_copier re src dst len = Some (dst', if q = 0 then - 1 else q, if q = 0 then None else Some (max 0 (int (length us) + q - cb_size dst'))) \<and>
    cview dst' (put_rs (nat (cb_size dst')) rs us (take (nat q) sus)) (put_us (nat (cb_size dst')) us (take (nat q) sus)) \<and>
    grew re dst (min len (int (length sus))) (length us) dst' \<and> 0 \<le> q \<and> q \<le> min len (int (length sus))"
proof -
  define len1 where "len1 = min len (int (length sus))"
  have l1: "0 < len1" "len1 \<le> int (length sus)" using l ne by (auto simp: len1_def)
  define nf where "nf = cb_size dst - cb_used dst"
  note sc = cviewD [OF s]
  obtain c g where g: "(if nf < len1 \<and> cb_size dst < cb_maxsize dst then cbuf_grow re dst (len1 - nf) else Some (dst, 0)) = Some (c, g)"
      "cview c rs us" "cb_size c = cb_size dst + g" "cb_overwrite c = cb_overwrite dst" "grew re dst len1 (length us) c"
  proof (cases "nf < len1 \<and> cb_size dst < cb_maxsize dst")
    case True
    then have p: "0 < len1 - nf" by simp
    obtain c g where "cbuf_grow re dst (len1 - nf) = Some (c, g)" "cview c rs us" "cb_size c = cb_size dst + g" "0 \<le> g"
        "cb_overwrite c = cb_overwrite dst" "(\<forall>m. re m) \<longrightarrow> cb_size c = cb_maxsize dst \<or> len1 - nf \<le> g" "cb_maxsize c = cb_maxsize dst"
      using cbuf_grow_view [OF v p, of re] by blast
    then show thesis using True cviewD(3) [OF v] by (intro that [of c g]) (auto simp: nf_def grew_def)
  next
    case False
    have "cb_size dst \<le> cb_maxsize dst" using v by (simp add: cview_def sizes_ok_def)
    then show thesis using False v cviewD(3) [OF v] by (intro that [of dst 0]) (auto simp: nf_def grew_def)
  qed
  note c = cviewD [OF g(2)]
  define q where "q = accepted (cb_overwrite dst) (cb_size c) len1 (length us)"
  have q: "0 \<le> q" "q \<le> len1" "q = 0 \<longrightarrow> cb_overwrite c = CBUF_NO_DROP"
    using l1 c(4,6) g(4) by (auto simp: q_def accepted_def split: cbuf_overwrite.splits)
  have lw: "(case cb_overwrite c of CBUF_NO_DROP \<Rightarrow> min len1 (cb_size c - cb_used c) | CBUF_WRAP_ONCE \<Rightarrow> min len1 (cb_size c) | CBUF_WRAP_MANY \<Rightarrow> len1) = q"
    unfolding q_def accepted_def g(4) c(3) by (rule refl)
  have nfree: "nf + g = cb_size c - cb_used c" using c(3) g(3) cviewD(3) [OF v] by (simp add: nf_def)
  have lu: "min len (cb_used src) = len1" "len1 \<noteq> 0" using sc(3) l1(1) by (simp add: len1_def, linarith)
  show ?thesis
  proof (cases "q = 0")
    case True
    then have "cbuf_copier re src dst len = Some (c, - 1, None)"
      unfolding cbuf_copier_def Let_def nf_def [symmetric] lu(1) if_not_P [OF lu(2)] g(1) Option.bind.bind_lunit prod.case lw
      using l q(3) by simp
    then show ?thesis using g(2,5) put_nil [OF g(2)] True q
      unfolding len1_def [symmetric] by (intro exI [of _ c] exI [of _ 0] conjI) (simp_all add: q_def)
  next
    case False
    define n where "n = (if cb_size c < q then q - cb_size c else 0)"
    define ncopy where "ncopy = q - n"
    define i where "i = (if cb_size c < q then (cb_i_out src + n) mod (cb_size src + 1) else cb_i_out src)"
    have nc: "0 < ncopy" "0 \<le> n" "n + ncopy = q" "ncopy = min q (cb_size c)" using False q c(6) by (auto simp: n_def ncopy_def)
    have so: "0 \<le> cb_i_out src" "cb_i_out src \<le> cb_size src" using sc(1) by (simp_all add: cbuf_is_valid_def)
    have im: "i = (cb_i_out src + n) mod (cb_size src + 1)" using so by (auto simp: i_def n_def)
    have ib: "0 \<le> i" "i \<le> cb_size src" using sc(6) pos_mod_bound [of "cb_size src + 1" "cb_i_out src + n"] by (simp_all add: im)
    define bs where "bs = win (cb_data src) (i + ncopy) (nat ncopy)"
    have lb: "int (length bs) = ncopy" "bs \<noteq> []" using nc by (auto simp: bs_def simp flip: length_greater_0_conv)
    have bs: "bs = drop (length (take (nat q) sus) - nat (cb_size c)) (take (nat q) sus)"
    proof -
      have "bs = win (cb_data src) (cb_i_in src - int (length sus) + q) (nat ncopy)"
      proof -
        have "(i + ncopy) mod (cb_size src + 1) = (cb_i_in src - int (length sus) + n + ncopy) mod (cb_size src + 1)"
          unfolding im sc(7) mod_shift ..
        also have "cb_i_in src - int (length sus) + n + ncopy = cb_i_in src - int (length sus) + q" using nc(3) by simp
        finally show ?thesis unfolding bs_def
          using win_mod [of "cb_data src" "i + ncopy" "nat ncopy"] win_mod [of "cb_data src" "cb_i_in src - int (length sus) + q" "nat ncopy"]
          unfolding sc(5) by simp
      qed
      moreover have "take (nat q) sus = win (cb_data src) (cb_i_in src - int (length sus) + q) (nat q)"
        using win_take [of "nat q" "length sus" "cb_data src" "cb_i_in src"] sc(10) q l1 by (simp add: algebra_simps of_nat_diff)
      moreover have "nat ncopy \<le> nat q" "length (take (nat q) sus) - nat (cb_size c) = nat q - nat ncopy" using nc q l1 c(6) by auto
      ultimately show ?thesis using win_drop [of "nat q - nat ncopy" "nat q" "cb_data src" "cb_i_in src - int (length sus) + q"] by simp
    qed
    have loop: "copier_loop (cb_size src) (cb_data src) (cb_size c) (cb_data c) i (cb_i_in c) ncopy =
        Some (ring_put (cb_data c) (cb_i_in c) bs, (cb_i_in c + ncopy) mod (cb_size c + 1))"
      unfolding bs_def using copier_loop_eq [OF sc(5) ib c(5,8,9)] nc(1) by simp
    obtain c2 where c2: "cbuf_advance (c\<lparr>cb_data := ring_put (cb_data c) (cb_i_in c) bs\<rparr>) (int (length bs)) (nf + g)
           ((cb_i_in c + int (length bs)) mod (cb_size c + 1)) = Some c2"
        "cview c2 (put_rs (nat (cb_size c)) rs us bs) (put_us (nat (cb_size c)) us bs)" "cb_overwrite c2 = cb_overwrite c" "cb_size c2 = cb_size c" "cb_maxsize c2 = cb_maxsize c"
      using advance_view [OF g(2) lb(2) nfree refl] by blast
    have gr: "grew re dst len1 (length us) c2" using g(5) unfolding grew_def c2(3-5) .
    have e: "cbuf_copier re src dst len = Some (c2, q, Some (max 0 (q - cb_size c + cb_used c)))"
      unfolding cbuf_copier_def Let_def nf_def [symmetric] lu(1) if_not_P [OF lu(2)] g(1) Option.bind.bind_lunit prod.case lw
        n_def [symmetric] i_def [symmetric] ncopy_def [symmetric]
      using l False loop c2(1) nc(1) lb(1) by simp
    have "cview c2 (put_rs (nat (cb_size c)) rs us (take (nat q) sus)) (put_us (nat (cb_size c)) us (take (nat q) sus))"
      using c2(2) unfolding bs put_rs_tail put_us_tail .
    moreover have "max 0 (q - cb_size c + cb_used c) = max 0 (int (length us) + q - cb_size c2)" using c2(4) c(3) by simp
    ultimately show ?thesis using e False q gr unfolding len1_def [symmetric]
      by (intro exI [of _ c2] exI [of _ q] conjI) (simp_all add: c2(4) q_def)
  qed
qed

lemma cbuf_move_view:
  assumes s: "cview src srs sus" and v: "cview dst rs us" and l: "0 < len \<or> len = - 1" and ne: "sus \<noteq> []"
  shows "\<exists>src' dst' q d. cbuf_move re False src dst len = Some (src', dst', if q = 0 then - 1 else q, d) \<and>
    q = accepted (cb_overwrite dst) (cb_size dst') (if len = - 1 then int (length sus) else min len (int (length sus))) (length us) \<and>
    cview src' (srs @ take (nat q) sus) (drop (nat q) sus) \<and>
    cview dst' (put_rs (nat (cb_size dst')) rs us (take (nat q) sus)) (put_us (nat (cb_size dst')) us (take (nat q) sus)) \<and> 0 \<le> q"
proof -
  define len1 where "len1 = (if len = - 1 then cb_used src else len)"
  have l1: "0 < len1" "min len1 (int (length sus)) = (if len = - 1 then int (length sus) else min len (int (length sus)))"
    using l ne cviewD(3) [OF s] by (auto simp: len1_def)
  obtain dst' q where c: "q = accepted (cb_overwrite dst) (cb_size dst') (min len1 (int (length sus))) (length us)"
      "cbuf_copier re src dst len1 = Some (dst', if q = 0 then - 1 else q, if q = 0 then None else Some (max 0 (int (length us) + q - cb_size dst')))"
      "cview dst' (put_rs (nat (cb_size dst')) rs us (take (nat q) sus)) (put_us (nat (cb_size dst')) us (take (nat q) sus))" "0 \<le> q" "q \<le> min len1 (int (length sus))"
    using cbuf_copier_view [OF s v l1(1) ne, of re] by blast
  note valid = cviewD(1) [OF s] cviewD(1) [OF v] cviewD(1) [OF c(3)]
  obtain src' where d: "(if 0 < (if q = 0 then - 1 else q) then map_option fst (cbuf_dropper src (if q = 0 then - 1 else q)) else Some src) = Some src'"
      "cview src' (srs @ take (nat q) sus) (drop (nat q) sus)"
  proof (cases "q = 0")
    case True
    then show thesis using s that [of src] by simp
  next
    case False
    then have "0 < q" "q \<le> int (length sus)" using c(4,5) by auto
    then show thesis using cbuf_dropper_view [OF s, of q] False that by auto
  qed
  have "cbuf_move re False src dst len = Some (src', dst', if q = 0 then - 1 else q, case (if q = 0 then None else Some (max 0 (int (length us) + q - cb_size dst'))) of None \<Rightarrow> 0 | Some d \<Rightarrow> d)"
  proof -
    have "\<not> len < - 1" "len \<noteq> 0" using l by auto
    then show ?thesis using valid l1(1) cviewD(1) [OF d(2)]
      unfolding cbuf_move_def Let_def len1_def [symmetric] by (simp add: c(2) d(1))
  qed
  then show ?thesis using c(1,3,4) d(2) unfolding l1(2) by blast
qed

subsection \<open>File descriptors\<close>

text \<open>What \<open>write\<close> promises: it takes a prefix of the bytes, or reports an error and takes nothing; an
  interruption (\<open>EINTR\<close>) takes nothing and does not repeat for ever (\<open>mu\<close> decreases).\<close>

definition write_ok :: "('f \<Rightarrow> byte list \<Rightarrow> 'f \<times> int \<times> bool) \<Rightarrow> ('f \<Rightarrow> byte list) \<Rightarrow> ('f \<Rightarrow> nat) \<Rightarrow> bool" where
  "write_ok wr out mu \<longleftrightarrow> (\<forall>fd bs fd' n e. wr fd bs = (fd', n, e) \<longrightarrow>
     n \<le> int (length bs) \<and> out fd' = out fd @ take (nat n) bs \<and> (n < 0 \<and> e \<longrightarrow> mu fd' < mu fd))"

lemma put_fd_sink:
  assumes "write_ok wr out mu"
  shows "byte_sink (cbuf_put_fd wr) (\<lambda>fd bs fd'. out fd' = out fd @ bs)"
proof
  fix bs :: "byte list" and fd
  assume ne: "bs \<noteq> []"
  show "\<exists>d' m. cbuf_put_fd wr fd bs = Some (d', m) \<and> m \<le> int (length bs) \<and> out d' = out fd @ take (nat m) bs"
  proof (induction "mu fd" arbitrary: fd rule: less_induct)
    case less
    obtain fd' n e where w: "wr fd bs = (fd', n, e)" by (cases "wr fd bs") auto
    have ok: "n \<le> int (length bs)" "out fd' = out fd @ take (nat n) bs" "n < 0 \<and> e \<longrightarrow> mu fd' < mu fd"
      using assms w unfolding write_ok_def by blast+
    show ?case
    proof (cases "n < 0 \<and> e")
      case True
      have "cbuf_put_fd wr fd bs = cbuf_put_fd wr fd' bs" using ne w True by (subst cbuf_put_fd.simps) simp
      moreover have "out fd' = out fd" using ok(2) True by simp
      ultimately show ?thesis using less.hyps [of fd'] ok(3) True by simp
    next
      case False
      then have "cbuf_put_fd wr fd bs = Some (fd', n)" using ne w by (subst cbuf_put_fd.simps) auto
      then show ?thesis using ok by simp
    qed
  qed
qed simp_all

lemma cbuf_read_to_fd_view:
  assumes v: "cview cb rs us" and w: "write_ok wr out mu" and l: "- 1 \<le> len"
  shows "\<exists>cb' fd' n k. cbuf_read_to_fd wr cb False fd len = Some (cb', fd', n) \<and> k = nat n \<and> k \<le> length us \<and>
    n \<le> (if len = - 1 then int (length us) else len) \<and>
    cview cb' (rs @ take k us) (drop k us) \<and> out fd' = out fd @ take k us"
proof -
  define len1 where "len1 = (if len = - 1 then cb_used cb else len)"
  have u: "cb_used cb = int (length us)" using cviewD(3) [OF v] .
  show ?thesis
  proof (cases "0 < len1")
    case True
    obtain fd' n where r: "cbuf_reader cb len1 (cbuf_put_fd wr) fd = Some (fd', n)" "n \<le> min len1 (int (length us))" "out fd' = out fd @ take (nat n) us"
      using byte_sink.reader_sends [OF put_fd_sink [OF w] v True, of fd] by blast
    obtain cb' where d: "(if 0 < n then map_option fst (cbuf_dropper cb n) else Some cb) = Some cb'" "cview cb' (rs @ take (nat n) us) (drop (nat n) us)"
    proof (cases "0 < n")
      case p: True
      then show thesis using cbuf_dropper_view [OF v p] r(2) that by auto
    next
      case False
      then show thesis using v that [of cb] by simp
    qed
    have "cbuf_read_to_fd wr cb False fd len = Some (cb', fd', n)"
      using l True r(1) d(1) cviewD(1) [OF v] cviewD(1) [OF d(2)] unfolding cbuf_read_to_fd_def Let_def len1_def [symmetric] by simp
    then show ?thesis using r d(2) u by (intro exI [of _ cb'] exI [of _ fd'] exI [of _ n] exI [of _ "nat n"]) (auto simp: len1_def)
  next
    case False
    then have "cbuf_read_to_fd wr cb False fd len = Some (cb, fd, 0)"
      using l cviewD(1) [OF v] unfolding cbuf_read_to_fd_def Let_def len1_def [symmetric] by simp
    then show ?thesis using v False l u by (intro exI [of _ cb] exI [of _ fd] exI [of _ "0 :: int"] exI [of _ "0 :: nat"]) (auto simp: len1_def split: if_splits)
  qed
qed

text \<open>What \<open>read\<close> promises: up to the number of bytes asked for, none at the end of the file or on an
  error.\<close>

definition read_ok :: "('f \<Rightarrow> int \<Rightarrow> 'f \<times> byte list \<times> int \<times> bool) \<Rightarrow> ('f \<Rightarrow> byte list) \<Rightarrow> ('f \<Rightarrow> nat) \<Rightarrow> bool" where
  "read_ok rd got mu \<longleftrightarrow> (\<forall>fd len fd' bs n e. 0 < len \<and> rd fd len = (fd', bs, n, e) \<longrightarrow>
     n \<le> len \<and> length bs = nat n \<and> got fd' = got fd @ bs \<and> (n < 0 \<and> e \<longrightarrow> mu fd' < mu fd))"

lemma get_fd_source:
  assumes "read_ok rd got mu"
  shows "byte_source (cbuf_get_fd rd) (\<lambda>_ _. True) (\<lambda>fd bs fd'. got fd' = got fd @ bs) False"
proof
  fix len :: int and fd
  assume ne: "0 < len"
  show "\<exists>s' bs m. cbuf_get_fd rd fd len = Some (s', bs, m) \<and> m \<le> len \<and> length bs = nat m \<and> got s' = got fd @ bs"
  proof (induction "mu fd" arbitrary: fd rule: less_induct)
    case less
    obtain fd' bs n e where w: "rd fd len = (fd', bs, n, e)" by (cases "rd fd len") auto
    have ok: "n \<le> len" "length bs = nat n" "got fd' = got fd @ bs" "n < 0 \<and> e \<longrightarrow> mu fd' < mu fd"
      using assms w ne unfolding read_ok_def by blast+
    show ?case
    proof (cases "n < 0 \<and> e")
      case True
      have "cbuf_get_fd rd fd len = cbuf_get_fd rd fd' len" using ne w True by (subst cbuf_get_fd.simps) simp
      moreover have "got fd' = got fd" using ok(2,3) True by simp
      ultimately show ?thesis using less.hyps [of fd'] ok(4) True by simp
    next
      case False
      then have "cbuf_get_fd rd fd len = Some (fd', bs, n)" using ne w by (subst cbuf_get_fd.simps) auto
      then show ?thesis using ok by simp
    qed
  qed
qed simp_all

lemma cbuf_write_from_fd_view:
  assumes v: "cview cb rs us" and r: "read_ok rd got mu" and l: "- 1 \<le> len"
  shows "\<exists>cb' fd' n dr bs. cbuf_write_from_fd re rd cb False fd len = Some (cb', fd', n, dr) \<and>
    cview cb' (put_rs (nat (cb_size cb')) rs us bs) (put_us (nat (cb_size cb')) us bs) \<and> got fd' = got fd @ bs \<and>
    (bs \<noteq> [] \<longrightarrow> n = int (length bs)) \<and> (bs = [] \<longrightarrow> n \<le> 0) \<and> cb_size cb \<le> cb_size cb' \<and> cb_maxsize cb' = cb_maxsize cb \<and> cb_overwrite cb' = cb_overwrite cb"
proof -
  define len1 where "len1 = (if len = - 1 then (if cb_size cb - cb_used cb = 0 then CBUF_CHUNK else cb_size cb - cb_used cb) else len)"
  have u: "cb_used cb = int (length us)" using cviewD(3) [OF v] .
  show ?thesis
  proof (cases "0 < len1")
    case True
    obtain cb' fd' n dr bs where w: "cbuf_writer re cb len1 (cbuf_get_fd rd) fd = Some (cb', fd', n, dr)"
        "cview cb' (put_rs (nat (cb_size cb')) rs us bs) (put_us (nat (cb_size cb')) us bs)" "got fd' = got fd @ bs"
        "bs = [] \<longrightarrow> n \<le> 0" "bs \<noteq> [] \<longrightarrow> n = int (length bs)" "grew re cb len1 (length us) cb'"
      using byte_source.writer_stores [OF get_fd_source [OF r] v True, where s = fd and re = re] by blast
    have "cbuf_write_from_fd re rd cb False fd len = Some (cb', fd', n, case dr of None \<Rightarrow> 0 | Some d \<Rightarrow> d)"
      using l True w(1) cviewD(1) [OF v] cviewD(1) [OF w(2)] unfolding cbuf_write_from_fd_def Let_def len1_def [symmetric] by simp
    then show ?thesis using w unfolding grew_def by blast
  next
    case False
    then have "cbuf_write_from_fd re rd cb False fd len = Some (cb, fd, 0, 0)"
      using l cviewD(1) [OF v] unfolding cbuf_write_from_fd_def Let_def len1_def [symmetric] by simp
    then show ?thesis using v put_nil [OF v] by (intro exI [of _ cb] exI [of _ fd] exI [of _ "0 :: int"] exI [of _ "[] :: byte list"]) simp
  qed
qed

text \<open>The assertions of \<open>_cbuf_is_valid\<close> and the length of the array, which the cookies check.\<close>

definition cbuf_ok :: "cbuf \<Rightarrow> bool" where
  "cbuf_ok cb \<longleftrightarrow> cbuf_is_valid cb \<and> int (length (cb_data cb)) = cb_size cb + 1"

lemma cview_ok [intro]: "cview cb rs us \<Longrightarrow> cbuf_ok cb"
  by (simp add: cbuf_ok_def cviewD)

subsection \<open>Properties\<close>

text \<open>C6 (refinement): on the contents, replay data \<open>rs\<close> and unread data \<open>us\<close>, \<open>cbuf_write\<close> stores the first
  \<open>q\<close> bytes (\<open>accepted\<close> says how many); afterwards the buffer holds the last \<open>size\<close> bytes of everything,
  the unread data being the last \<open>size\<close> bytes of \<open>us\<close> and the new ones. The size stays within \<open>maxsize\<close>,
  and as long as memory is available unread data is dropped only when \<open>maxsize\<close> is reached.\<close>

theorem cbuf_write_refines:
  assumes "cview cb rs us" "s \<noteq> []" "\<forall>m. re m"
  shows "\<exists>cb' q. cbuf_write re cb (Some s) (int (length s)) = Some (cb', if q = 0 then - 1 else q, max 0 (int (length us) + q - cb_size cb')) \<and>
    q = accepted (cb_overwrite cb) (cb_size cb') (int (length s)) (length us) \<and>
    cview cb' (put_rs (nat (cb_size cb')) rs us (take (nat q) s)) (put_us (nat (cb_size cb')) us (take (nat q) s)) \<and>
    cb_size cb \<le> cb_size cb' \<and> cb_size cb' \<le> cb_maxsize cb \<and>
    (cb_size cb' = cb_maxsize cb \<or> put_us (nat (cb_size cb')) us (take (nat q) s) = us @ s)"
proof -
  have l: "0 < int (length s)" using assms(2) by simp
  obtain cb' q where w: "q = accepted (cb_overwrite cb) (cb_size cb') (int (length s)) (length us)"
    "cbuf_write re cb (Some s) (int (length s)) = Some (cb', if q = 0 then - 1 else q, if q = 0 then 0 else max 0 (int (length us) + q - cb_size cb'))"
    "cview cb' (put_rs (nat (cb_size cb')) rs us (take (nat q) s)) (put_us (nat (cb_size cb')) us (take (nat q) s))"
    "grew re cb (int (length s)) (length us) cb'"
    using cbuf_write_view [OF assms(1) l order_refl, of re] by blast
  have g: "cb_size cb \<le> cb_size cb'" "cb_maxsize cb' = cb_maxsize cb" "cb_size cb' - int (length us) < int (length s) \<longrightarrow> cb_size cb' = cb_maxsize cb"
    using w(4) assms(3) unfolding grew_def by blast+
  have m: "cb_size cb' \<le> cb_maxsize cb" using w(3) g(2) by (simp add: cview_def sizes_ok_def)
  have z: "(if q = 0 then 0 else max 0 (int (length us) + q - cb_size cb')) = max 0 (int (length us) + q - cb_size cb')"
    using g(1) cviewD(4) [OF assms(1)] by auto
  have "put_us (nat (cb_size cb')) us (take (nat q) s) = us @ s" if "\<not> cb_size cb' - int (length us) < int (length s)"
  proof -
    have "q = int (length s)" using that w(1) by (auto simp: accepted_def split: cbuf_overwrite.splits)
    then show ?thesis using that by (simp add: put_us_def)
  qed
  then show ?thesis using w(1,2,3) g m unfolding z by blast
qed

theorem cbuf_write_refines_witness:
  "\<exists>cb cb' n d. cbuf_create 3 10 = Some (Some cb) \<and> cbuf_write (\<lambda>_. True) cb (Some [1, 2, 3, 4, 5]) 5 = Some (cb', n, d)"
proof -
  obtain cb where c: "cbuf_create 3 10 = Some (Some cb)" "cview cb [] []" using cbuf_create_view [of 3 10] by auto
  then show ?thesis using cbuf_write_refines [OF c(2), of "[1, 2, 3, 4, 5]" "\<lambda>_. True"] by auto
qed

lemma read_all:
  assumes "cview cb rs us" "us \<noteq> []" "int (length us) \<le> len"
  obtains cb' where "cbuf_read cb False len = Some (cb', us, int (length us))" "cview cb' (rs @ us) []"
proof -
  have l: "0 < len" using assms(2,3) by (cases us) auto
  have "take (nat len) us = us" "drop (nat len) us = []" "min len (int (length us)) = int (length us)" using assms(3) by auto
  then show thesis using cbuf_read_view [OF assms(1) l] that by auto
qed

lemma peek_all:
  assumes "cview cb rs us" "us \<noteq> []" "int (length us) \<le> len"
  shows "cbuf_peek cb False len = Some (us, int (length us))"
proof -
  have l: "0 < len" using assms(2,3) by (cases us) auto
  have "take (nat len) us = us" "min len (int (length us)) = int (length us)" using assms(3) by auto
  then show ?thesis using cbuf_peek_view [OF assms(1) l] by simp
qed

lemma replay_rewind:
  assumes "cview cb (rs @ xs) us" "xs \<noteq> []"
  obtains cb' where "cbuf_replay cb False (int (length xs)) = Some (xs, int (length xs))"
    "cbuf_rewind cb (int (length xs)) = Some (cb', int (length xs))" "cview cb' rs (xs @ us)"
proof -
  have l: "0 < int (length xs)" using assms(2) by simp
  have r: "cbuf_replay cb False (int (length xs)) = Some (xs, int (length xs))"
    using cbuf_replay_view [OF assms(1) l] by (simp add: lastn_app)
  show thesis using cbuf_rewind_view [OF assms(1) _ refl, of "int (length xs)"] l r that by (auto simp: min_def)
qed

text \<open>C16 (roundtrip): under \<open>CBUF_NO_DROP\<close> nothing is lost: a write accepts a prefix and a read of
  everything then returns the old unread data followed by that prefix; \<open>cbuf_rewind\<close> of as many bytes as
  were read makes them unread again, and \<open>cbuf_replay\<close> shows them.\<close>

theorem cbuf_write_read_roundtrip:
  assumes "cview cb rs us" "s \<noteq> []" "cb_overwrite cb = CBUF_NO_DROP"
  shows "\<exists>cb1 cb2 cb3 n d k. cbuf_write re cb (Some s) (int (length s)) = Some (cb1, n, d) \<and> d = 0 \<and> k = nat n \<and> k \<le> length s \<and>
    cbuf_read cb1 False (int (length us + length s)) = Some (cb2, us @ take k s, int (length us + k)) \<and>
    cbuf_replay cb2 False (int (length us + k)) = Some (us @ take k s, int (length us + k)) \<and>
    cbuf_rewind cb2 (int (length us + k)) = Some (cb3, int (length us + k)) \<and>
    cbuf_peek cb3 False (int (length us + length s)) = Some (us @ take k s, int (length us + k))"
proof -
  have l: "0 < int (length s)" using assms(2) by simp
  obtain cb1 q where w: "q = accepted (cb_overwrite cb) (cb_size cb1) (int (length s)) (length us)"
    "cbuf_write re cb (Some s) (int (length s)) = Some (cb1, if q = 0 then - 1 else q, if q = 0 then 0 else max 0 (int (length us) + q - cb_size cb1))"
    "cview cb1 (put_rs (nat (cb_size cb1)) rs us (take (nat q) s)) (put_us (nat (cb_size cb1)) us (take (nat q) s))"
    "grew re cb (int (length s)) (length us) cb1"
    using cbuf_write_view [OF assms(1) l order_refl, of re] by blast
  have sz: "cb_size cb \<le> cb_size cb1" using w(4) unfolding grew_def by blast
  have q: "q = min (int (length s)) (cb_size cb1 - int (length us))" using w(1) assms(3) by (simp add: accepted_def)
  have q0: "0 \<le> q" "q \<le> int (length s)" "int (length us) + q \<le> cb_size cb1" using q sz cviewD(4) [OF assms(1)] by auto
  let ?k = "nat q"
  have lk: "length (us @ take ?k s) = length us + ?k" using q0 by simp
  have pu: "put_us (nat (cb_size cb1)) us (take ?k s) = us @ take ?k s" unfolding put_us_def using q0 lk by (intro lastn_all) linarith
  have pos: "0 < length us + ?k"
  proof (cases "us = []")
    case True
    then show ?thesis using l q cviewD(6) [OF w(3)] by auto
  qed simp
  note v1 = w(3) [unfolded pu]
  let ?u = "us @ take ?k s"
  have ne: "?u \<noteq> []" "int (length ?u) \<le> int (length us + length s)" using pos lk q0 by (auto simp flip: length_greater_0_conv)
  obtain cb2 where r: "cbuf_read cb1 False (int (length us + length s)) = Some (cb2, ?u, int (length ?u))"
      "cview cb2 (put_rs (nat (cb_size cb1)) rs us (take ?k s) @ ?u) []"
    by (rule read_all [OF v1 ne])
  obtain cb3 where rw: "cbuf_replay cb2 False (int (length ?u)) = Some (?u, int (length ?u))"
      "cbuf_rewind cb2 (int (length ?u)) = Some (cb3, int (length ?u))" "cview cb3 (put_rs (nat (cb_size cb1)) rs us (take ?k s)) (?u @ [])"
    by (rule replay_rewind [OF r(2) ne(1)])
  have pk: "cbuf_peek cb3 False (int (length us + length s)) = Some (?u, int (length ?u))"
    using peek_all [OF rw(3)] ne by simp
  have n: "nat (if q = 0 then - 1 else q) = ?k" "(if q = 0 then 0 else max 0 (int (length us) + q - cb_size cb1)) = 0" using q0 by auto
  show ?thesis using w(2) n r(1) rw(1,2) pk q0 unfolding lk
    by (intro exI [of _ cb1] exI [of _ cb2] exI [of _ cb3] exI conjI) (assumption | simp)+
qed

theorem cbuf_write_read_roundtrip_witness:
  "\<exists>cb cb0 cb1 cb2 n. cbuf_create 3 5 = Some (Some cb) \<and> cbuf_opt_set cb 0 0 = Some (cb0, 0) \<and>
    cbuf_write (\<lambda>_. True) cb0 (Some [1, 2, 3, 4, 5, 6, 7]) 7 = Some (cb1, n, 0) \<and>
    cbuf_read cb1 False 7 = Some (cb2, take (nat n) [1, 2, 3, 4, 5, 6, 7], int (nat n))"
proof -
  obtain cb where c: "cbuf_create 3 5 = Some (Some cb)" "cview cb [] []" using cbuf_create_view [of 3 5] by auto
  define cb0 where "cb0 = cb\<lparr>cb_overwrite := CBUF_NO_DROP\<rparr>"
  have v0: "cview cb0 [] []" using c(2) by (auto simp: cb0_def cview_def sizes_ok_def idx_ok_def)
  have o: "cbuf_opt_set cb 0 0 = Some (cb0, 0)"
    using cviewD(1) [OF c(2)] cviewD(1) [OF v0] by (simp add: cbuf_opt_set_def CBUF_OPT_OVERWRITE_def cb0_def Let_def)
  let ?s = "[1, 2, 3, 4, 5, 6, 7] :: byte list"
  have ow: "cb_overwrite cb0 = CBUF_NO_DROP" and l: "?s \<noteq> []" and e: "int (length ?s) = 7" "int (length ([] :: byte list) + length ?s) = 7"
    by (simp_all add: cb0_def)
  obtain cb1 cb2 n k where "cbuf_write (\<lambda>_. True) cb0 (Some ?s) 7 = Some (cb1, n, 0)" "k = nat n"
      "cbuf_read cb1 False 7 = Some (cb2, [] @ take k ?s, int (length ([] :: byte list) + k))"
    using cbuf_write_read_roundtrip [OF v0 l ow, of "\<lambda>_. True"] unfolding e by blast
  then show ?thesis using c(1) o by (intro exI conjI) (assumption | simp)+
qed

lemma nth_nl_1: "NL \<notin> set b \<Longrightarrow> nth_nl 1 (b @ NL # cs) = Some (Suc (length b))"
  by (induction b) auto

text \<open>A line without newline that fits into the maximal size is written with a newline, and
  \<open>cbuf_read_line\<close> then returns it, newline and terminating null byte included, for each overwrite
  option.\<close>

theorem cbuf_line_roundtrip:
  assumes "cview cb rs []" "NL \<notin> set s" "int (length s) + 1 \<le> cb_maxsize cb" "\<forall>m. re m" "int (length s) + 2 \<le> len"
  shows "\<exists>cb1 cb2 dr. cbuf_write_line re cb (Some s) = Some (cb1, int (length s) + 1, dr) \<and>
    cbuf_read_line cb1 False len 1 = Some (cb2, s @ [NL, 0], int (length s) + 1) \<and> cbuf_is_empty cb2 = Some True"
proof -
  have "s = [] \<or> last s \<noteq> NL" using assms(2) last_in_set by metis
  then have al: "as_line s = s @ [NL]" "int (length (as_line s)) = int (length s) + 1" by (auto simp: as_line_def)
  obtain cb1 n dr rs1 us1 where w: "cbuf_write_line re cb (Some s) = Some (cb1, n, dr)" "cview cb1 rs1 us1"
      "n = - 1 \<and> rs1 = rs \<and> us1 = [] \<and> ((\<forall>m. re m) \<longrightarrow> cb_overwrite cb = CBUF_NO_DROP \<and> cb_maxsize cb < int (length ([] :: byte list)) + int (length (as_line s)) \<or>
          cb_overwrite cb = CBUF_WRAP_ONCE \<and> cb_maxsize cb < int (length (as_line s))) \<or>
       n = int (length (as_line s)) \<and> ((\<forall>m. re m) \<longrightarrow> us1 = put_us (nat (cb_size cb1)) [] (as_line s) \<and>
         (cb_size cb1 = cb_maxsize cb \<or> int (length ([] :: byte list)) + int (length (as_line s)) \<le> cb_size cb1))"
    using cbuf_write_line_view [OF assms(1) refl, of re s] by (elim exE conjE) (rule that; assumption)
  have n: "n = int (length s) + 1" "us1 = put_us (nat (cb_size cb1)) [] (s @ [NL])" "int (length s) + 1 \<le> cb_size cb1"
    using w(3) assms(3,4) al by auto
  have u: "us1 = s @ [NL]" using n(2,3) by (simp add: put_us_def)
  have ll: "line_len us1 (len - 1) 1 = length s + 1" using nth_nl_1 [OF assms(2), of "[]"] by (simp add: line_len_def u)
  obtain cb2 where r: "cbuf_read_line cb1 False len 1 =
      Some (cb2, if 0 < length s + 1 \<and> 0 < len then take (min (length s + 1) (nat (len - 1))) us1 @ [0] else [], int (length s + 1))"
      "cview cb2 (rs1 @ take (length s + 1) us1) (drop (length s + 1) us1)"
    using cbuf_read_line_view [OF w(2) _ _ ll [symmetric]] assms(5) by auto
  have "take (min (length s + 1) (nat (len - 1))) us1 = s @ [NL]" using assms(5) u by (subst min_absorb1) auto
  moreover have "cb_used cb2 = 0" using cviewD(3) [OF r(2)] by (simp add: u)
  ultimately show ?thesis using w(1) r(1) n(1) assms(5) cviewD(1) [OF r(2)]
    by (intro exI [of _ cb1] exI [of _ cb2] exI [of _ dr]) (simp add: cbuf_is_empty_def)
qed

theorem cbuf_line_roundtrip_witness:
  "\<exists>cb cb1 cb2 dr. cbuf_create 3 10 = Some (Some cb) \<and> cbuf_write_line (\<lambda>_. True) cb (Some [65, 66, 67, 68]) = Some (cb1, 5, dr) \<and>
    cbuf_read_line cb1 False 80 1 = Some (cb2, [65, 66, 67, 68, NL, 0], 5)"
proof -
  obtain cb where c: "cbuf_create 3 10 = Some (Some cb)" "cview cb [] []" "cb_maxsize cb = 10" using cbuf_create_view [of 3 10] by auto
  have "NL \<notin> set [65, 66, 67, 68 :: byte]" by (simp add: NL_def)
  then show ?thesis using cbuf_line_roundtrip [OF c(2), of "[65, 66, 67, 68]" "\<lambda>_. True" 80] c(1,3) by auto
qed

text \<open>Behind a complete line of replay data, \<open>cbuf_read_line\<close> returns the next line and
  \<open>cbuf_rewind_line\<close> undoes exactly that.\<close>

theorem cbuf_rewind_line_undoes:
  assumes "cview cb rs (b @ NL # us)" "NL \<notin> set b" "rs \<noteq> []" "last rs = NL" "int (length b) + 2 \<le> len"
  shows "\<exists>cb1 cb2. cbuf_read_line cb False len 1 = Some (cb1, b @ [NL, 0], int (length b) + 1) \<and>
    cview cb1 (rs @ b @ [NL]) us \<and>
    cbuf_rewind_line cb1 len 1 = Some (cb2, int (length b) + 1) \<and> cview cb2 rs (b @ NL # us)"
proof -
  let ?us = "b @ NL # us"
  have ll: "line_len ?us (len - 1) 1 = length b + 1" using nth_nl_1 [OF assms(2), of us] by (simp add: line_len_def)
  obtain cb1 where r: "cbuf_read_line cb False len 1 =
      Some (cb1, if 0 < length b + 1 \<and> 0 < len then take (min (length b + 1) (nat (len - 1))) ?us @ [0] else [], int (length b + 1))"
      "cview cb1 (rs @ take (length b + 1) ?us) (drop (length b + 1) ?us)"
    using cbuf_read_line_view [OF assms(1) _ _ ll [symmetric]] assms(5) by auto
  have v1: "cview cb1 (rs @ b @ [NL]) us" using r(2) by simp
  have f: "cbuf_find_replay_line cb1 len 1 = Some (int (length b + 1), 1, 0)"
    using find_replay_last_line [OF v1 assms(2)] assms(3,4) by simp
  have k: "length b + 1 \<le> length (rs @ b @ [NL])" by simp
  obtain cb2 where w: "cbuf_rewind_line cb1 len 1 = Some (cb2, int (length b + 1))"
      "cview cb2 (take (length (rs @ b @ [NL]) - (length b + 1)) (rs @ b @ [NL])) (drop (length (rs @ b @ [NL]) - (length b + 1)) (rs @ b @ [NL]) @ us)"
    using cbuf_rewind_line_view [OF v1 _ _ f k] assms(5) by auto
  have "take (min (length b + 1) (nat (len - 1))) ?us = b @ [NL]" using assms(5) by (subst min_absorb1) auto
  then show ?thesis using r(1) v1 w assms(5) by (intro exI [of _ cb1] exI [of _ cb2]) simp
qed

theorem cbuf_rewind_line_undoes_witness:
  "\<exists>cb rs us cb1 cb2. cview cb rs us \<and> cbuf_read_line cb False 80 1 = Some (cb1, [65, NL, 0], 2) \<and> cbuf_rewind_line cb1 80 1 = Some (cb2, 2)"
proof -
  obtain cb where c: "cview cb [] []" "cb_overwrite cb = CBUF_WRAP_MANY" "cb_size cb = 20" "cb_maxsize cb = 20" using cbuf_create_view [of 20 20] by auto
  let ?s = "[66, NL, 65, NL, 67] :: byte list"
  have l: "0 < int (length ?s)" by simp
  obtain cb' q where w: "q = accepted (cb_overwrite cb) (cb_size cb') (int (length ?s)) (length ([] :: byte list))"
    "cview cb' (put_rs (nat (cb_size cb')) [] [] (take (nat q) ?s)) (put_us (nat (cb_size cb')) [] (take (nat q) ?s))"
    "grew (\<lambda>_. True) cb (int (length ?s)) (length ([] :: byte list)) cb'"
    using cbuf_write_view [OF c(1) l order_refl, of "\<lambda>_. True"] by blast
  have "cb_size cb' = 20" using w(3) c(3) by (simp add: grew_def)
  moreover have "q = 5" using w(1) c(2) by (simp add: accepted_def)
  ultimately have v: "cview cb' [] ?s" using w(2) by (simp add: put_us_def put_rs_def lastn_def Let_def)
  have v2: "cview (cb'\<lparr>cb_used := cb_used cb' - int 2, cb_i_out := (cb_i_out cb' + int 2) mod (cb_size cb' + 1)\<rparr>) [66, NL] ([65] @ NL # [67])"
    using drop_view [OF v, of 2] by simp
  have "NL \<notin> set [65 :: byte]" by (simp add: NL_def)
  then show ?thesis using cbuf_rewind_line_undoes [OF v2, of 80] v2 by auto
qed

text \<open>\<open>cbuf_move\<close> with a non-empty source takes the bytes from the front of the source's unread data,
  stores them behind the destination's and makes them replay data of the source; what does not fit under
  \<open>CBUF_NO_DROP\<close> stays unread in the source.\<close>

theorem cbuf_move_exact:
  assumes "cview src srs sus" "cview dst rs us" "0 < len \<or> len = - 1" "sus \<noteq> []"
  shows "\<exists>src' dst' q d. cbuf_move re False src dst len = Some (src', dst', if q = 0 then - 1 else q, d) \<and>
    q = accepted (cb_overwrite dst) (cb_size dst') (if len = - 1 then int (length sus) else min len (int (length sus))) (length us) \<and>
    cview src' (srs @ take (nat q) sus) (drop (nat q) sus) \<and>
    cview dst' (put_rs (nat (cb_size dst')) rs us (take (nat q) sus)) (put_us (nat (cb_size dst')) us (take (nat q) sus))"
  using cbuf_move_view [OF assms] by blast

theorem cbuf_move_exact_witness:
  "\<exists>src dst src' dst' n d. cview src [] [1, 2] \<and> cview dst [] [] \<and> cbuf_move (\<lambda>_. True) False src dst (- 1) = Some (src', dst', n, d)"
proof -
  obtain cb where c: "cview cb [] []" "cb_overwrite cb = CBUF_WRAP_MANY" "cb_size cb = 20" using cbuf_create_view [of 20 20] by auto
  have l: "0 < int (length [1, 2 :: byte])" by simp
  obtain cb' q where w: "q = accepted (cb_overwrite cb) (cb_size cb') (int (length [1, 2 :: byte])) (length ([] :: byte list))"
    "cview cb' (put_rs (nat (cb_size cb')) [] [] (take (nat q) [1, 2])) (put_us (nat (cb_size cb')) [] (take (nat q) [1, 2]))"
    "grew (\<lambda>_. True) cb (int (length [1, 2 :: byte])) (length ([] :: byte list)) cb'"
    using cbuf_write_view [OF c(1) l order_refl, of "\<lambda>_. True"] by blast
  have "cb_size cb' = 20" using w(3) c(3) by (simp add: grew_def)
  moreover have "q = 2" using w(1) c(2) by (simp add: accepted_def)
  ultimately have v: "cview cb' [] [1, 2]" using w(2) by (simp add: put_us_def put_rs_def lastn_def Let_def)
  have "\<exists>src' dst' n d. cbuf_move (\<lambda>_. True) False cb' cb (- 1) = Some (src', dst', n, d)"
    using cbuf_move_exact [OF v c(1), of "- 1" "\<lambda>_. True"] by auto
  then show ?thesis using v c(1) by blast
qed

text \<open>Transfers between a buffer and a file descriptor lose and invent nothing, also with short writes,
  errors and interruptions: the bytes that \<open>write\<close> took are exactly the ones that leave the unread data,
  and the bytes that \<open>read\<close> returned are the ones stored.\<close>

theorem cbuf_fd_lossless:
  assumes "cview cb rs us" "- 1 \<le> len" "write_ok wr out mu" "read_ok rd got nu"
  shows "(\<exists>cb' fd' n. cbuf_read_to_fd wr cb False fd len = Some (cb', fd', n) \<and>
      out fd' = out fd @ take (nat n) us \<and> nat n \<le> length us \<and> cview cb' (rs @ take (nat n) us) (drop (nat n) us)) \<and>
    (\<exists>cb' fd' n d bs. cbuf_write_from_fd re rd cb False gd len = Some (cb', fd', n, d) \<and>
      got fd' = got gd @ bs \<and> nat n = length bs \<and> cview cb' (put_rs (nat (cb_size cb')) rs us bs) (put_us (nat (cb_size cb')) us bs))"
proof
  show "\<exists>cb' fd' n. cbuf_read_to_fd wr cb False fd len = Some (cb', fd', n) \<and>
      out fd' = out fd @ take (nat n) us \<and> nat n \<le> length us \<and> cview cb' (rs @ take (nat n) us) (drop (nat n) us)"
    using cbuf_read_to_fd_view [OF assms(1,3,2), of fd] by blast
  obtain cb' fd' n dr bs where w: "cbuf_write_from_fd re rd cb False gd len = Some (cb', fd', n, dr)"
    "cview cb' (put_rs (nat (cb_size cb')) rs us bs) (put_us (nat (cb_size cb')) us bs)" "got fd' = got gd @ bs"
    "bs \<noteq> [] \<longrightarrow> n = int (length bs)" "bs = [] \<longrightarrow> n \<le> 0"
    using cbuf_write_from_fd_view [OF assms(1,4,2), of re gd] by blast
  have "nat n = length bs" using w(4,5) by (cases "bs = []") auto
  then show "\<exists>cb' fd' n d bs. cbuf_write_from_fd re rd cb False gd len = Some (cb', fd', n, d) \<and>
      got fd' = got gd @ bs \<and> nat n = length bs \<and> cview cb' (put_rs (nat (cb_size cb')) rs us bs) (put_us (nat (cb_size cb')) us bs)"
    using w by blast
qed

theorem cbuf_fd_lossless_witness:
  "\<exists>cb cb' fd' n d bs. cview cb [] [] \<and>
     cbuf_write_from_fd (\<lambda>_. True)
       (\<lambda>(f, g) len. ((drop (nat (min len 3)) f, g @ take (nat (min len 3)) f), take (nat (min len 3)) f, int (length (take (nat (min len 3)) f)), False))
       cb False ([7, 8, 9, 10], []) (- 1) = Some (cb', fd', n, d) \<and> snd fd' = bs \<and> nat n = length bs"
proof -
  obtain cb where c: "cview cb [] []" using cbuf_create_view [of 20 20] by auto
  define rd :: "byte list \<times> byte list \<Rightarrow> int \<Rightarrow> (byte list \<times> byte list) \<times> byte list \<times> int \<times> bool" where
    "rd = (\<lambda>(f, g) len. ((drop (nat (min len 3)) f, g @ take (nat (min len 3)) f), take (nat (min len 3)) f, int (length (take (nat (min len 3)) f)), False))"
  have r: "read_ok rd snd (\<lambda>_. 0)" by (auto simp: read_ok_def rd_def)
  have w: "write_ok (\<lambda>fd bs. (fd @ bs, int (length bs), False)) (\<lambda>fd. fd) (\<lambda>_. 0)" by (simp add: write_ok_def)
  have "\<exists>cb' fd' n d bs. cbuf_write_from_fd (\<lambda>_. True) rd cb False ([7, 8, 9, 10], []) (- 1) = Some (cb', fd', n, d) \<and>
      snd fd' = snd ([7, 8, 9, 10] :: byte list, [] :: byte list) @ bs \<and> nat n = length bs"
    using cbuf_fd_lossless [OF c _ w r, of "- 1" "[]" "\<lambda>_. True" "([7, 8, 9, 10], [])"] by auto
  then show ?thesis using c unfolding rd_def [symmetric] by auto
qed

end
