(* ===== verification/Cbuf_Safety.thy ===== *)
theory Cbuf_Safety
  imports Cbuf_Refine
begin

section \<open>Sequences of operations on circular buffers\<close>

text \<open>
  Two buffers, the files behind the descriptors, and any sequence of operations on them. The sizes that an
  operation must not change, the range of C's \<open>int\<close>, and the property that no such sequence fails an
  assertion, leaves an array, loops or overflows.
\<close>

subsection \<open>What every operation keeps\<close>

text \<open>The limits of the buffer and the space that the allocation has beyond the data.\<close>

definition shape :: "cbuf \<Rightarrow> int \<times> int \<times> int" where
  "shape cb = (cb_minsize cb, cb_maxsize cb, cb_alloc cb - cb_size cb)"

text \<open>Partial correctness of computations that may fail, with a rule for each construct.\<close>

definition returns :: "'a option \<Rightarrow> ('a \<Rightarrow> bool) \<Rightarrow> bool" where
  "returns m P \<longleftrightarrow> (\<forall>x. m = Some x \<longrightarrow> P x)"

lemma returns_bind: "(\<And>x. m = Some x \<Longrightarrow> returns (f x) P) \<Longrightarrow> returns (m \<bind> f) P"
  by (cases m) (auto simp: returns_def)

lemma returns_seq: "returns m Q \<Longrightarrow> (\<And>x. Q x \<Longrightarrow> returns (f x) P) \<Longrightarrow> returns (m \<bind> f) P"
  by (cases m) (auto simp: returns_def)

lemma returns_if: "(p \<Longrightarrow> returns a P) \<Longrightarrow> (\<not> p \<Longrightarrow> returns b P) \<Longrightarrow> returns (if p then a else b) P"
  by simp

lemma returns_prod: "(\<And>a b. x = (a, b) \<Longrightarrow> returns (f a b) P) \<Longrightarrow> returns (case x of (a, b) \<Rightarrow> f a b) P"
  by (cases x) simp

lemma returns_Some: "P x \<Longrightarrow> returns (Some x) P"
  by (simp add: returns_def)

lemma returnsD: "returns m P \<Longrightarrow> m = Some x \<Longrightarrow> P x"
  by (simp add: returns_def)

lemmas returns_rules = returns_bind returns_if returns_prod returns_Some

lemma shape_simps [simp]:
  "shape (cb\<lparr>cb_data := d\<rparr>) = shape cb" "shape (cb\<lparr>cb_used := u\<rparr>) = shape cb" "shape (cb\<lparr>cb_i_out := i\<rparr>) = shape cb"
  "shape (cb\<lparr>cb_i_in := i\<rparr>) = shape cb" "shape (cb\<lparr>cb_i_rep := i\<rparr>) = shape cb" "shape (cb\<lparr>cb_got_wrap := w\<rparr>) = shape cb"
  "shape (cb\<lparr>cb_overwrite := ow\<rparr>) = shape cb"
  by (simp_all add: shape_def)

lemma grow_shape: "returns (cbuf_grow re cb n) (\<lambda>(c, k). shape c = shape cb)"
proof -
  have m: "returns (if p then do { bs \<leftarrow> x; data \<leftarrow> y bs; Some (c\<lparr>cb_data := data, cb_i_out := i, cb_i_rep := r\<rparr>) } else Some c) (\<lambda>c'. shape c' = shape c)"
    for p c i r and x :: "byte list option" and y :: "byte list \<Rightarrow> byte list option"
    by (intro returns_rules) simp_all
  have a: "shape (cb\<lparr>cb_alloc := t, cb_size := t - (cb_alloc cb - cb_size cb)\<rparr>) = shape cb" for t by (simp add: shape_def)
  show ?thesis unfolding cbuf_grow_def Let_def
    apply (rule returns_bind, rule returns_if)
     apply (rule returns_Some, simp)
    apply (rule returns_bind, rule returns_bind, rule returns_if)
     apply (rule returns_Some, simp)
    apply (rule returns_seq [OF m], rule returns_bind, rule returns_Some)
    apply (simp add: a)
    done
qed

lemma grow_step_shape: "(if p then cbuf_grow re cb n else Some (cb, 0)) = Some (c, g) \<Longrightarrow> shape c = shape cb"
  using grow_shape [of re cb n] by (auto simp: returns_def split: if_splits)

lemma advance_shape: "cbuf_advance cb n nfree i = Some cb' \<Longrightarrow> shape cb' = shape cb"
  by (auto simp: cbuf_advance_def Let_def c_assert_bind_Some)

lemma dropper_shape: "returns (cbuf_dropper cb n) (\<lambda>(c, k). shape c = shape cb)"
proof -
  have s: "cbuf_shrink c = Some (c', k) \<Longrightarrow> c' = c" for c c' k
    by (auto simp: cbuf_shrink_def c_assert_bind_Some split: if_splits)
  have h: "(if p then map_option fst (cbuf_shrink c) else Some c) = Some c' \<Longrightarrow> c' = c" for p c c'
    by (auto dest: s split: if_splits)
  show ?thesis unfolding cbuf_dropper_def Let_def by (intro returns_rules) (auto dest!: h)
qed

lemma dropper_step_shape: "(if p then map_option fst (cbuf_dropper cb n) else Some cb) = Some c \<Longrightarrow> shape c = shape cb"
  using dropper_shape [of cb n] by (auto simp: returns_def split: if_splits)

lemma writer_shape: "returns (cbuf_writer re cb len getf s) (\<lambda>(c, _). shape c = shape cb)"
  unfolding cbuf_writer_def Let_def
  by (intro returns_rules) (auto simp del: split_paired_All dest!: grow_step_shape advance_shape split del: if_split)

lemma copier_shape: "returns (cbuf_copier re src dst len) (\<lambda>(c, _). shape c = shape dst)"
proof -
  have a: "(if p then cbuf_advance cb n nfree i else Some cb) = Some c \<Longrightarrow> shape c = shape cb" for p cb n nfree i c
    by (auto dest: advance_shape split: if_splits)
  show ?thesis unfolding cbuf_copier_def Let_def
    by (intro returns_rules) (auto dest!: grow_step_shape a split del: if_split)
qed

lemma flush_shape: "cbuf_flush cb = Some c \<Longrightarrow> shape c = shape cb"
  by (auto simp: cbuf_flush_def Let_def c_assert_bind_Some)

lemma opt_set_shape: "returns (cbuf_opt_set cb name v) (\<lambda>(c, _). shape c = shape cb)"
  unfolding cbuf_opt_set_def Let_def by (intro returns_rules) (auto split: if_splits)

lemma drop_shape: "returns (cbuf_drop cb len) (\<lambda>(c, _). shape c = shape cb)"
  unfolding cbuf_drop_def Let_def by (intro returns_rules) (auto dest!: dropper_step_shape split del: if_split)

lemma read_shape: "returns (cbuf_read cb null len) (\<lambda>(c, _). shape c = shape cb)"
  unfolding cbuf_read_def Let_def by (intro returns_rules) (auto dest!: dropper_step_shape split del: if_split)

lemma rewind_shape: "returns (cbuf_rewind cb len) (\<lambda>(c, _). shape c = shape cb)"
  unfolding cbuf_rewind_def Let_def by (intro returns_rules) simp_all

lemma write_shape: "returns (cbuf_write re cb s len) (\<lambda>(c, _). shape c = shape cb)"
  unfolding cbuf_write_def
  by (cases s) (simp_all only: option.case, intro returns_rules, simp, (intro returns_rules; (auto dest!: returnsD [OF writer_shape])?))

lemma drop_line_shape: "returns (cbuf_drop_line cb len k) (\<lambda>(c, _). shape c = shape cb)"
  unfolding cbuf_drop_line_def Let_def by (intro returns_rules) (auto dest!: dropper_step_shape split del: if_split)

lemma line_step_shape:
  "(if p then do { d \<leftarrow> x; (src, _) \<leftarrow> cbuf_dropper cb n; Some (src, d) } else Some (cb, e)) = Some (c, d) \<Longrightarrow> shape c = shape cb"
  by (auto simp: bind_eq_Some_conv dest!: returnsD [OF dropper_shape] split: if_splits)

lemma read_line_shape: "returns (cbuf_read_line cb null len k) (\<lambda>(c, _). shape c = shape cb)"
  unfolding cbuf_read_line_def Let_def by (intro returns_rules) (auto dest!: line_step_shape split del: if_split)

lemma rewind_line_shape: "returns (cbuf_rewind_line cb len k) (\<lambda>(c, _). shape c = shape cb)"
  unfolding cbuf_rewind_line_def Let_def by (intro returns_rules) simp_all

lemma fd_step_shape:
  "(if p then do { (fd, n) \<leftarrow> x; src \<leftarrow> (if 0 < n then map_option fst (cbuf_dropper cb n) else Some cb); Some (src, fd, n) }
    else Some (cb, e)) = Some (c, d) \<Longrightarrow> shape c = shape cb"
  by (auto simp: bind_eq_Some_conv dest!: returnsD [OF dropper_shape] split: if_splits)

lemma read_to_fd_shape: "returns (cbuf_read_to_fd wr cb neg fd len) (\<lambda>(c, _). shape c = shape cb)"
  unfolding cbuf_read_to_fd_def Let_def by (intro returns_rules) (auto dest!: fd_step_shape split del: if_split)

lemma writer_opt_shape: "(if p then cbuf_writer re cb len getf s else Some (cb, e)) = Some (c, d) \<Longrightarrow> shape c = shape cb"
  by (auto dest!: returnsD [OF writer_shape] split: if_splits prod.splits)

lemma write_from_fd_shape: "returns (cbuf_write_from_fd re rd cb neg fd len) (\<lambda>(c, _). shape c = shape cb)"
  unfolding cbuf_write_from_fd_def Let_def by (intro returns_rules) (auto dest!: writer_opt_shape split del: if_split)

lemma copier_opt_shape: "(if p then cbuf_copier re src cb len else Some (cb, e)) = Some (c, d) \<Longrightarrow> shape c = shape cb"
  by (auto dest!: returnsD [OF copier_shape] split: if_splits prod.splits)

lemma copy_shape: "returns (cbuf_copy re same src dst len) (\<lambda>(c, _). shape c = shape dst)"
  unfolding cbuf_copy_def Let_def by (intro returns_rules) (auto dest!: copier_opt_shape split del: if_split)

lemma move_step_shape:
  "(if p then do { (dst, n, d) \<leftarrow> cbuf_copier re src dst len; src \<leftarrow> (if 0 < n then map_option fst (cbuf_dropper src n) else Some src); Some (src, dst, n, d) }
    else Some (src, dst, e)) = Some (c, c', d) \<Longrightarrow> shape c = shape src \<and> shape c' = shape dst"
  by (auto simp: bind_eq_Some_conv dest!: returnsD [OF dropper_shape] returnsD [OF copier_shape] split: if_splits)

lemma move_shape: "returns (cbuf_move re same src dst len) (\<lambda>(c, c', _). shape c = shape src \<and> shape c' = shape dst)"
  unfolding cbuf_move_def Let_def by (intro returns_rules) (auto dest!: move_step_shape split del: if_split)

lemma write_line_shape: "returns (cbuf_write_line re cb s) (\<lambda>(c, _). shape c = shape cb)"
proof (cases s)
  case None
  then show ?thesis by (simp add: cbuf_write_line_def returns_def)
next
  case (Some t)
  have g: "returns (if p then map_option fst (cbuf_grow re cb n) else Some cb) (\<lambda>c. shape c = shape cb)" for p n
    using grow_shape [of re cb n] by (auto simp: returns_def)
  have w: "returns (if p then do { (dst, _, n, d) \<leftarrow> cbuf_writer re c len cbuf_get_mem u; c_assert (n \<noteq> 0 \<longrightarrow> n = len); d \<leftarrow> d; Some (dst, e + d) } else Some (c, e))
      (\<lambda>(c', _). shape c' = shape c)" for p c len u and e :: int
    by (intro returns_rules) (auto dest!: returnsD [OF writer_shape])
  have w1: "returns (if p then do { (dst, _, n, d) \<leftarrow> cbuf_writer re c 1 cbuf_get_mem [NL]; c_assert (n = 1); d \<leftarrow> d; Some (dst, e + d) } else Some (c, e))
      (\<lambda>(c', _). shape c' = shape c)" for p c and e :: int
    by (intro returns_rules) (auto dest!: returnsD [OF writer_shape])
  have b: "returns (if p then do { (dst, e) \<leftarrow> x; l \<leftarrow> y; z dst e l } else Some (c, 0)) (\<lambda>(c', _). shape c' = shape cb)"
    if "returns x (\<lambda>(c', _). shape c' = shape c)" "\<And>c' e l. returns (z c' e l) (\<lambda>(c'', _). shape c'' = shape c')" "shape c = shape cb"
    for p x z c and y :: "byte option"
    using that by (intro returns_if returns_Some; fastforce simp: returns_def bind_eq_Some_conv)
  show ?thesis unfolding Some cbuf_write_line_def option.case Let_def
    apply (rule returns_bind, rule returns_seq [OF g])
    apply (rule returns_seq)
    apply (rule b [OF w w1], assumption)
    apply (intro returns_rules)
    apply auto
    done
qed

subsection \<open>The range of C's \<open>int\<close>\<close>

definition INT_MAX :: int where
  "INT_MAX = 2147483647"

text \<open>The largest sums that the integer arithmetic of an operation forms: the new allocation, rounded up to a
  chunk, and the limit for it in \<open>cbuf_grow\<close>; a count \<open>k\<close> added to \<open>used\<close>; sums of two indices before
  \<open>%\<close>. The index arithmetic of the model is that of the code as long as they fit.\<close>

definition ints_fit :: "int \<Rightarrow> cbuf \<Rightarrow> bool" where
  "ints_fit k cb \<longleftrightarrow> cb_alloc cb + k + CBUF_CHUNK \<le> INT_MAX \<and> cb_used cb + k \<le> INT_MAX \<and>
     cb_maxsize cb + (cb_alloc cb - cb_size cb) \<le> INT_MAX \<and> 2 * cb_size cb + 1 \<le> INT_MAX"

subsection \<open>Sequences of operations\<close>

text \<open>One of the two buffers is the current one; \<open>BSwap\<close> makes the other one current, \<open>BCopy\<close> and
  \<open>BMove\<close> transfer from the current one to the other. The boolean argument says whether the caller's
  pointer is null, the file descriptor negative, or both buffers the same.\<close>

datatype cbuf_op = BFlush | BOptSet int int | BLinesUsed | BLinesReused
  | BDrop int | BPeek bool int | BRead bool int | BReplay bool int | BRewind int | BWrite "byte list"
  | BDropLine int int | BPeekLine bool int int | BReadLine bool int int | BReplayLine bool int int | BRewindLine int int | BWriteLine "byte list"
  | BPeekFd bool int | BReadFd bool int | BReplayFd bool int | BWriteFd bool int
  | BCopy bool int | BMove bool int | BSwap

fun run_bop :: "(int \<Rightarrow> bool) \<Rightarrow> ('f \<Rightarrow> byte list \<Rightarrow> 'f \<times> int \<times> bool) \<Rightarrow> ('f \<Rightarrow> int \<Rightarrow> 'f \<times> byte list \<times> int \<times> bool) \<Rightarrow>
    cbuf_op \<Rightarrow> cbuf \<times> cbuf \<times> 'f \<Rightarrow> (cbuf \<times> cbuf \<times> 'f) option" where
  "run_bop re wr rd BFlush (cb, o2, fd) = do { cb \<leftarrow> cbuf_flush cb; Some (cb, o2, fd) }"
| "run_bop re wr rd (BOptSet name v) (cb, o2, fd) = do { (cb, n) \<leftarrow> cbuf_opt_set cb name v; Some (cb, o2, fd) }"
| "run_bop re wr rd BLinesUsed (cb, o2, fd) = do { n \<leftarrow> cbuf_lines_used cb; Some (cb, o2, fd) }"
| "run_bop re wr rd BLinesReused (cb, o2, fd) = do { n \<leftarrow> cbuf_lines_reused cb; Some (cb, o2, fd) }"
| "run_bop re wr rd (BDrop len) (cb, o2, fd) = do { (cb, n) \<leftarrow> cbuf_drop cb len; Some (cb, o2, fd) }"
| "run_bop re wr rd (BPeek null len) (cb, o2, fd) = do { (d, n) \<leftarrow> cbuf_peek cb null len; Some (cb, o2, fd) }"
| "run_bop re wr rd (BRead null len) (cb, o2, fd) = do { (cb, d, n) \<leftarrow> cbuf_read cb null len; Some (cb, o2, fd) }"
| "run_bop re wr rd (BReplay null len) (cb, o2, fd) = do { (d, n) \<leftarrow> cbuf_replay cb null len; Some (cb, o2, fd) }"
| "run_bop re wr rd (BRewind len) (cb, o2, fd) = do { (cb, n) \<leftarrow> cbuf_rewind cb len; Some (cb, o2, fd) }"
| "run_bop re wr rd (BWrite s) (cb, o2, fd) = do { (cb, n, d) \<leftarrow> cbuf_write re cb (Some s) (int (length s)); Some (cb, o2, fd) }"
| "run_bop re wr rd (BDropLine len k) (cb, o2, fd) = do { (cb, n) \<leftarrow> cbuf_drop_line cb len k; Some (cb, o2, fd) }"
| "run_bop re wr rd (BPeekLine null len k) (cb, o2, fd) = do { (d, n) \<leftarrow> cbuf_peek_line cb null len k; Some (cb, o2, fd) }"
| "run_bop re wr rd (BReadLine null len k) (cb, o2, fd) = do { (cb, d, n) \<leftarrow> cbuf_read_line cb null len k; Some (cb, o2, fd) }"
| "run_bop re wr rd (BReplayLine null len k) (cb, o2, fd) = do { (d, n) \<leftarrow> cbuf_replay_line cb null len k; Some (cb, o2, fd) }"
| "run_bop re wr rd (BRewindLine len k) (cb, o2, fd) = do { (cb, n) \<leftarrow> cbuf_rewind_line cb len k; Some (cb, o2, fd) }"
| "run_bop re wr rd (BWriteLine s) (cb, o2, fd) = do { (cb, n, d) \<leftarrow> cbuf_write_line re cb (Some s); Some (cb, o2, fd) }"
| "run_bop re wr rd (BPeekFd neg len) (cb, o2, fd) = do { (fd, n) \<leftarrow> cbuf_peek_to_fd wr cb neg fd len; Some (cb, o2, fd) }"
| "run_bop re wr rd (BReadFd neg len) (cb, o2, fd) = do { (cb, fd, n) \<leftarrow> cbuf_read_to_fd wr cb neg fd len; Some (cb, o2, fd) }"
| "run_bop re wr rd (BReplayFd neg len) (cb, o2, fd) = do { (fd, n) \<leftarrow> cbuf_replay_to_fd wr cb neg fd len; Some (cb, o2, fd) }"
| "run_bop re wr rd (BWriteFd neg len) (cb, o2, fd) = do { (cb, fd, n, d) \<leftarrow> cbuf_write_from_fd re rd cb neg fd len; Some (cb, o2, fd) }"
| "run_bop re wr rd (BCopy same len) (cb, o2, fd) = do { (o2, n, d) \<leftarrow> cbuf_copy re same cb o2 len; Some (cb, o2, fd) }"
| "run_bop re wr rd (BMove same len) (cb, o2, fd) = do { (cb, o2, n, d) \<leftarrow> cbuf_move re same cb o2 len; Some (cb, o2, fd) }"
| "run_bop re wr rd BSwap (cb, o2, fd) = Some (o2, cb, fd)"

text \<open>The largest count an operation is given; \<open>cbuf_write_line\<close> may append a newline.\<close>

fun op_int :: "cbuf_op \<Rightarrow> int" where
  "op_int (BDrop len) = len"
| "op_int (BPeek null len) = len"
| "op_int (BRead null len) = len"
| "op_int (BReplay null len) = len"
| "op_int (BRewind len) = len"
| "op_int (BWrite s) = int (length s)"
| "op_int (BDropLine len k) = max len k"
| "op_int (BPeekLine null len k) = max len k"
| "op_int (BReadLine null len k) = max len k"
| "op_int (BReplayLine null len k) = max len k"
| "op_int (BRewindLine len k) = max len k"
| "op_int (BWriteLine s) = int (length s) + 1"
| "op_int (BPeekFd neg len) = len"
| "op_int (BReadFd neg len) = len"
| "op_int (BReplayFd neg len) = len"
| "op_int (BWriteFd neg len) = len"
| "op_int (BCopy same len) = len"
| "op_int (BMove same len) = len"
| "op_int _ = 0"

text \<open>The counts that stand for \<open>- 1\<close> are at most the size of a buffer, or one chunk. \<open>None\<close> is a failed assertion, an
  access out of bounds, a loop that does not end, or a sum out of the range of \<open>int\<close>.\<close>

fun run_bops :: "(int \<Rightarrow> bool) \<Rightarrow> ('f \<Rightarrow> byte list \<Rightarrow> 'f \<times> int \<times> bool) \<Rightarrow> ('f \<Rightarrow> int \<Rightarrow> 'f \<times> byte list \<times> int \<times> bool) \<Rightarrow>
    cbuf_op list \<Rightarrow> cbuf \<times> cbuf \<times> 'f \<Rightarrow> (cbuf \<times> cbuf \<times> 'f) option" where
  "run_bops re wr rd [] st = Some st"
| "run_bops re wr rd (c # cs) (a, b, fd) = do {
     let k = Max {op_int c, cb_size a, cb_size b, CBUF_CHUNK};
     c_assert (ints_fit k a \<and> ints_fit k b);
     st \<leftarrow> run_bop re wr rd c (a, b, fd);
     run_bops re wr rd cs st
   }"

subsection \<open>Every operation returns\<close>

lemma cbuf_copier_ok:
  assumes "cview src srs sus" "cview dst rs us" "0 < len"
  shows "\<exists>dst' n d. cbuf_copier re src dst len = Some (dst', n, d) \<and> n \<le> int (length sus) \<and> cbuf_ok dst'"
proof (cases "sus = []")
  case True
  then show ?thesis using assms(2,3) cviewD(3) [OF assms(1)] by (auto simp: cbuf_copier_def Let_def)
next
  case False
  show ?thesis using cbuf_copier_view [OF assms False, of re] by (elim exE conjE) force
qed

lemma cbuf_copy_ok:
  assumes "cview src srs sus" "cview dst rs us"
  shows "\<exists>dst' n d. cbuf_copy re same src dst len = Some (dst', n, d) \<and> cbuf_ok dst'"
proof (cases "same \<or> len < - 1 \<or> len = 0 \<or> \<not> 0 < (if len = - 1 then cb_used src else len)")
  case True
  then show ?thesis using assms cviewD(1) [OF assms(1)] cviewD(1) [OF assms(2)] by (auto simp: cbuf_copy_def Let_def split: if_splits)
next
  case False
  then have p: "0 < (if len = - 1 then cb_used src else len)" by simp
  obtain dst' n d where c: "cbuf_copier re src dst (if len = - 1 then cb_used src else len) = Some (dst', n, d)" "cbuf_ok dst'"
    using cbuf_copier_ok [OF assms p, of re] by blast
  have "cbuf_copy re same src dst len = Some (dst', n, case d of None \<Rightarrow> 0 | Some d \<Rightarrow> d)"
    using False p c cviewD(1) [OF assms(1)] cviewD(1) [OF assms(2)] unfolding cbuf_copy_def Let_def by (simp only: if_not_P de_Morgan_disj) (simp add: cbuf_ok_def)
  then show ?thesis using c(2) by blast
qed

lemma dropper_opt_ok:
  assumes "cview cb rs us" "n \<le> int (length us)"
  obtains c where "(if 0 < n then map_option fst (cbuf_dropper cb n) else Some cb) = Some c" "cbuf_ok c"
proof (cases "0 < n")
  case True
  then show thesis using cbuf_dropper_view [OF assms(1) True assms(2)] that by auto
next
  case False
  then show thesis using assms that by auto
qed

lemma cbuf_move_ok:
  assumes "cview src srs sus" "cview dst rs us"
  shows "\<exists>src' dst' n d. cbuf_move re same src dst len = Some (src', dst', n, d) \<and> cbuf_ok src' \<and> cbuf_ok dst'"
proof (cases "same \<or> len < - 1 \<or> len = 0 \<or> \<not> 0 < (if len = - 1 then cb_used src else len)")
  case True
  then show ?thesis using assms cviewD(1) [OF assms(1)] cviewD(1) [OF assms(2)] by (auto simp: cbuf_move_def Let_def split: if_splits)
next
  case False
  then have p: "0 < (if len = - 1 then cb_used src else len)" by simp
  obtain dst' n d where c: "cbuf_copier re src dst (if len = - 1 then cb_used src else len) = Some (dst', n, d)" "n \<le> int (length sus)" "cbuf_ok dst'"
    using cbuf_copier_ok [OF assms p, of re] by blast
  obtain src' where s: "(if 0 < n then map_option fst (cbuf_dropper src n) else Some src) = Some src'" "cbuf_ok src'"
    by (rule dropper_opt_ok [OF assms(1) c(2)])
  have "cbuf_move re same src dst len = Some (src', dst', n, case d of None \<Rightarrow> 0 | Some d \<Rightarrow> d)"
    using False p c s cviewD(1) [OF assms(1)] cviewD(1) [OF assms(2)] unfolding cbuf_move_def Let_def by (simp only: if_not_P de_Morgan_disj) (simp add: cbuf_ok_def)
  then show ?thesis using c(3) s(2) by blast
qed

lemma peek_to_fd_ok:
  assumes "cview cb rs us" "write_ok wr out mu"
  shows "\<exists>fd' n. cbuf_peek_to_fd wr cb neg fd len = Some (fd', n)"
  using byte_sink.reader_sends [OF put_fd_sink [OF assms(2)] assms(1), of _ fd] cviewD(1) [OF assms(1)]
  by (fastforce simp: cbuf_peek_to_fd_def Let_def)

lemma replay_to_fd_ok:
  assumes "cview cb rs us" "write_ok wr out mu"
  shows "\<exists>fd' n. cbuf_replay_to_fd wr cb neg fd len = Some (fd', n)"
proof -
  have "\<exists>fd' n. cbuf_replayer cb l (cbuf_put_fd wr) fd = Some (fd', n)" if "0 < l" for l
    using byte_sink.replayer_sends [OF put_fd_sink [OF assms(2)] assms(1) that, of fd] by blast
  then show ?thesis using cviewD(1) [OF assms(1)] by (simp add: cbuf_replay_to_fd_def Let_def)
qed

lemma read_to_fd_ok:
  assumes "cview cb rs us" "write_ok wr out mu"
  shows "\<exists>cb' fd' n. cbuf_read_to_fd wr cb neg fd len = Some (cb', fd', n) \<and> cbuf_ok cb'"
proof (cases "neg \<or> len < - 1")
  case True
  then show ?thesis using assms(1) by (auto simp: cbuf_read_to_fd_def)
next
  case False
  then show ?thesis using cbuf_read_to_fd_view [OF assms, of len fd] by auto
qed

lemma write_from_fd_ok:
  assumes "cview cb rs us" "read_ok rd got nu"
  shows "\<exists>cb' fd' n d. cbuf_write_from_fd re rd cb neg fd len = Some (cb', fd', n, d) \<and> cbuf_ok cb'"
proof (cases "neg \<or> len < - 1")
  case True
  then show ?thesis using assms(1) by (auto simp: cbuf_write_from_fd_def)
next
  case False
  then show ?thesis using cbuf_write_from_fd_view [OF assms, of len re fd] by auto
qed

lemma opt_set_view:
  assumes "cview cb rs us"
  shows "\<exists>cb' n. cbuf_opt_set cb name v = Some (cb', n) \<and> cview cb' rs us"
proof -
  have w: "cview (cb\<lparr>cb_overwrite := x\<rparr>) rs us" for x using assms by (auto simp: cview_def sizes_ok_def idx_ok_def)
  show ?thesis using assms w cviewD(1) [OF assms] cviewD(1) [OF w] by (simp add: cbuf_opt_set_def Let_def)
qed

lemma lines_ok:
  assumes "cview cb rs us"
  shows "\<exists>n. cbuf_lines_used cb = Some n" "\<exists>n. cbuf_lines_reused cb = Some n"
  using cbuf_find_unread_view(2) [OF assms, of "cb_size cb"] find_replay_bounds [OF assms, of "- 1" "cb_size cb"] cviewD(1) [OF assms]
  by (auto simp: cbuf_lines_used_def cbuf_lines_reused_def)

lemma run_bop_bytes:
  assumes v: "cview cb rs us"
  shows "\<exists>c n. cbuf_drop cb len = Some (c, n) \<and> cbuf_ok c" "\<exists>d n. cbuf_peek cb null len = Some (d, n)"
    "\<exists>c d n. cbuf_read cb null len = Some (c, d, n) \<and> cbuf_ok c" "\<exists>d n. cbuf_replay cb null len = Some (d, n)"
    "\<exists>c n. cbuf_rewind cb len = Some (c, n) \<and> cbuf_ok c"
    "\<exists>c n d. cbuf_write re cb (Some s) (int (length s)) = Some (c, n, d) \<and> cbuf_ok c"
proof -
  show "\<exists>c n. cbuf_drop cb len = Some (c, n) \<and> cbuf_ok c" using cbuf_drop_view [OF v _ refl, of len] v
    by (cases "0 < len \<or> len = - 1") (fastforce, auto simp: cbuf_drop_def)
  show "\<exists>d n. cbuf_peek cb null len = Some (d, n)" using cbuf_peek_view [OF v, of len]
    by (cases "0 < len \<and> \<not> null") (auto simp: cbuf_peek_def)
  show "\<exists>c d n. cbuf_read cb null len = Some (c, d, n) \<and> cbuf_ok c" using cbuf_read_view [OF v, of len] v
    by (cases "0 < len \<and> \<not> null") (fastforce, auto simp: cbuf_read_def)
  show "\<exists>d n. cbuf_replay cb null len = Some (d, n)" using cbuf_replay_view [OF v, of len]
    by (cases "0 < len \<and> \<not> null") (auto simp: cbuf_replay_def)
  show "\<exists>c n. cbuf_rewind cb len = Some (c, n) \<and> cbuf_ok c" using cbuf_rewind_view [OF v _ refl, of len] v
    by (cases "0 < len \<or> len = - 1") (fastforce, auto simp: cbuf_rewind_def)
  show "\<exists>c n d. cbuf_write re cb (Some s) (int (length s)) = Some (c, n, d) \<and> cbuf_ok c"
  proof (cases "s = []")
    case True
    then show ?thesis using v by (auto simp: cbuf_write_def)
  next
    case False
    then have "0 < int (length s)" by simp
    from cbuf_write_view [OF v this order_refl, of re] show ?thesis by (elim exE conjE) force
  qed
qed

lemma run_bop_lines:
  assumes v: "cview cb rs us"
  shows "\<exists>c n. cbuf_drop_line cb len k = Some (c, n) \<and> cbuf_ok c" "\<exists>d n. cbuf_peek_line cb null len k = Some (d, n)"
    "\<exists>c d n. cbuf_read_line cb null len k = Some (c, d, n) \<and> cbuf_ok c" "\<exists>d n. cbuf_replay_line cb null len k = Some (d, n)"
    "\<exists>c n. cbuf_rewind_line cb len k = Some (c, n) \<and> cbuf_ok c"
    "\<exists>c n d. cbuf_write_line re cb (Some s) = Some (c, n, d) \<and> cbuf_ok c"
proof -
  show "\<exists>c n. cbuf_drop_line cb len k = Some (c, n) \<and> cbuf_ok c" using cbuf_drop_line_view [OF v _ _ refl, of len k] v
    by (cases "0 \<le> len \<and> (0 < k \<or> k = - 1)") (fastforce, auto simp: cbuf_drop_line_def)
  show "\<exists>d n. cbuf_peek_line cb null len k = Some (d, n)" using cbuf_peek_line_view [OF v _ _ refl, of len k]
    by (cases "0 \<le> len \<and> (0 < k \<or> k = - 1) \<and> \<not> null") (fastforce, auto simp: cbuf_peek_line_def)
  show "\<exists>c d n. cbuf_read_line cb null len k = Some (c, d, n) \<and> cbuf_ok c" using cbuf_read_line_view [OF v _ _ refl, of len k] v
    by (cases "0 \<le> len \<and> (0 < k \<or> k = - 1) \<and> \<not> null") (fastforce, auto simp: cbuf_read_line_def)
  show "\<exists>d n. cbuf_replay_line cb null len k = Some (d, n)" using cbuf_replay_line_view [OF v, of len k]
    by (cases "0 \<le> len \<and> (0 < k \<or> k = - 1) \<and> \<not> null") (fastforce, auto simp: cbuf_replay_line_def)
  show "\<exists>c n. cbuf_rewind_line cb len k = Some (c, n) \<and> cbuf_ok c"
  proof (cases "0 \<le> len \<and> (0 < k \<or> k = - 1)")
    case True
    then obtain m j nl where f: "cbuf_find_replay_line cb len k = Some (int m, j, nl)" "m \<le> length rs"
      using find_replay_bounds [OF v, of k len] by blast
    then show ?thesis using cbuf_rewind_line_view [OF v _ _ f] True by fastforce
  next
    case False
    then show ?thesis using v by (auto simp: cbuf_rewind_line_def)
  qed
  from cbuf_write_line_view [OF v refl, of re s] show "\<exists>c n d. cbuf_write_line re cb (Some s) = Some (c, n, d) \<and> cbuf_ok c"
    by (elim exE conjE) force
qed

lemma run_bop_ok:
  assumes "cview a rs us" "cview b rs' us'" "write_ok wr out mu" "read_ok rd got nu"
  shows "\<exists>a' b' fd'. run_bop re wr rd c (a, b, fd) = Some (a', b', fd') \<and> cbuf_ok a' \<and> cbuf_ok b'"
proof -
  note ok = cview_ok [OF assms(1)] cview_ok [OF assms(2)]
  show ?thesis
  proof (cases c)
    case BFlush
    then show ?thesis using cbuf_flush_view [OF assms(1)] ok by auto
  next
    case (BOptSet x y)
    then show ?thesis using opt_set_view [OF assms(1), of x y] ok by auto
  next
    case BLinesUsed
    then show ?thesis using lines_ok(1) [OF assms(1)] ok by auto
  next
    case BLinesReused
    then show ?thesis using lines_ok(2) [OF assms(1)] ok by auto
  next
    case (BDrop x)
    then show ?thesis using run_bop_bytes(1) [OF assms(1), of x] ok by auto
  next
    case (BPeek x y)
    then show ?thesis using run_bop_bytes(2) [OF assms(1), of x y] ok by auto
  next
    case (BRead x y)
    then show ?thesis using run_bop_bytes(3) [OF assms(1), of x y] ok by auto
  next
    case (BReplay x y)
    then show ?thesis using run_bop_bytes(4) [OF assms(1), of x y] ok by auto
  next
    case (BRewind x)
    then show ?thesis using run_bop_bytes(5) [OF assms(1), of x] ok by auto
  next
    case (BWrite x)
    then show ?thesis using run_bop_bytes(6) [OF assms(1), of re x] ok by auto
  next
    case (BDropLine x y)
    then show ?thesis using run_bop_lines(1) [OF assms(1), of x y] ok by auto
  next
    case (BPeekLine x y z)
    then show ?thesis using run_bop_lines(2) [OF assms(1), of x y z] ok by auto
  next
    case (BReadLine x y z)
    then show ?thesis using run_bop_lines(3) [OF assms(1), of x y z] ok by auto
  next
    case (BReplayLine x y z)
    then show ?thesis using run_bop_lines(4) [OF assms(1), of x y z] ok by auto
  next
    case (BRewindLine x y)
    then show ?thesis using run_bop_lines(5) [OF assms(1), of x y] ok by auto
  next
    case (BWriteLine x)
    then show ?thesis using run_bop_lines(6) [OF assms(1), of re x] ok by auto
  next
    case (BPeekFd x y)
    then show ?thesis using peek_to_fd_ok [OF assms(1,3), of x fd y] ok by auto
  next
    case (BReadFd x y)
    then show ?thesis using read_to_fd_ok [OF assms(1,3), of x fd y] ok by auto
  next
    case (BReplayFd x y)
    then show ?thesis using replay_to_fd_ok [OF assms(1,3), of x fd y] ok by auto
  next
    case (BWriteFd x y)
    then show ?thesis using write_from_fd_ok [OF assms(1,4), of re x fd y] ok by auto
  next
    case (BCopy x y)
    then show ?thesis using cbuf_copy_ok [OF assms(1,2), of re x y] ok by auto
  next
    case (BMove x y)
    then show ?thesis using cbuf_move_ok [OF assms(1,2), of re x y] ok by auto
  next
    case BSwap
    then show ?thesis using  ok by auto
  qed
qed

lemmas op_shapes = flush_shape returnsD [OF opt_set_shape] returnsD [OF drop_shape] returnsD [OF read_shape] returnsD [OF rewind_shape] returnsD [OF write_shape] returnsD [OF drop_line_shape] returnsD [OF read_line_shape] returnsD [OF rewind_line_shape] returnsD [OF write_line_shape] returnsD [OF read_to_fd_shape] returnsD [OF write_from_fd_shape] returnsD [OF copy_shape] returnsD [OF move_shape]

lemma run_bop_shape:
  "returns (run_bop re wr rd c (a, b, fd)) (\<lambda>(a', b', _). shape a' \<in> {shape a, shape b} \<and> shape b' \<in> {shape a, shape b})"
  by (cases c) (auto simp: returns_def bind_eq_Some_conv dest!: op_shapes)

text \<open>Buffers that are valid and so small that no sum with a count of \<open>2 ^ 30\<close> leaves the range.\<close>

definition small_buf :: "cbuf \<Rightarrow> bool" where
  "small_buf cb \<longleftrightarrow> cbuf_ok cb \<and> cb_maxsize cb \<le> 1073740806 \<and> cb_alloc cb - cb_size cb = 17"

lemma small_buf_fits: "small_buf cb \<Longrightarrow> k \<le> 1073741824 \<Longrightarrow> ints_fit k cb"
  by (auto simp: small_buf_def cbuf_ok_def cbuf_is_valid_def ints_fit_def CBUF_CHUNK_def INT_MAX_def)

lemma small_buf_size: "small_buf cb \<Longrightarrow> cb_size cb \<le> 1073741824"
  by (auto simp: small_buf_def cbuf_ok_def cbuf_is_valid_def)

lemma small_buf_shape: "small_buf a \<Longrightarrow> small_buf b \<Longrightarrow> cbuf_ok c \<Longrightarrow> shape c \<in> {shape a, shape b} \<Longrightarrow> small_buf c"
  by (auto simp: small_buf_def shape_def)

lemma run_bops_ok:
  assumes "write_ok wr out mu" "read_ok rd got nu"
  shows "small_buf a \<Longrightarrow> small_buf b \<Longrightarrow> \<forall>c \<in> set cs. op_int c \<le> 1073741824 \<Longrightarrow>
    \<exists>a' b' fd'. run_bops re wr rd cs (a, b, fd) = Some (a', b', fd') \<and> small_buf a' \<and> small_buf b'"
proof (induction cs arbitrary: a b fd)
  case (Cons c cs)
  obtain rs us where v: "cview a rs us" using Cons.prems(1) valid_cview [of a] unfolding small_buf_def cbuf_ok_def by blast
  obtain rs' us' where v': "cview b rs' us'" using Cons.prems(2) valid_cview [of b] unfolding small_buf_def cbuf_ok_def by blast
  obtain a1 b1 fd1 where r: "run_bop re wr rd c (a, b, fd) = Some (a1, b1, fd1)" "cbuf_ok a1" "cbuf_ok b1"
    using run_bop_ok [OF v v' assms, of re c fd] by blast
  have s: "small_buf a1" "small_buf b1"
    using small_buf_shape [OF Cons.prems(1,2)] r(2,3) returnsD [OF run_bop_shape r(1)] by simp_all
  have "Max {op_int c, cb_size a, cb_size b, CBUF_CHUNK} \<le> 1073741824"
    using Cons.prems small_buf_size by (simp add: CBUF_CHUNK_def)
  then have "ints_fit (Max {op_int c, cb_size a, cb_size b, CBUF_CHUNK}) a \<and> ints_fit (Max {op_int c, cb_size a, cb_size b, CBUF_CHUNK}) b"
    using small_buf_fits Cons.prems by blast
  then show ?case using Cons.IH [OF s, of fd1] r(1) Cons.prems(3) by (simp add: Let_def del: Max_insert)
qed auto

lemma create_small:
  assumes "0 < minsize" "minsize \<le> 1073740806" "maxsize \<le> 1073740806"
  obtains cb where "cbuf_create minsize maxsize = Some (Some cb)" "small_buf cb"
proof -
  obtain cb where c: "cbuf_create minsize maxsize = Some (Some cb)" "cview cb [] []" using cbuf_create_view [OF assms(1)] by blast
  have "cb_maxsize cb \<le> 1073740806 \<and> cb_alloc cb - cb_size cb = 17"
    using c(1) assms by (auto simp: cbuf_create_def Let_def c_assert_bind_Some CBUF_MAGIC_LEN_def split: if_splits)
  then show thesis using c that cview_ok [OF c(2)] by (simp add: small_buf_def)
qed

subsection \<open>Properties\<close>

text \<open>C13 (safety): no sequence of operations on two buffers, byte, line and file descriptor operations and transfers between the
  buffers, with whatever arguments, in whatever order and even if memory runs out while growing, fails an assertion, leaves an array or loops, and
  no sum of sizes, counts and indices overflows; the invariant of \<open>_cbuf_is_valid\<close> holds at the end. The
  buffers may grow up to \<open>2 ^ 30 - 1018\<close> bytes and the counts are at most \<open>2 ^ 30\<close>: near \<open>INT_MAX\<close> the sums in \<open>cbuf_grow\<close>
  overflow. \<open>write\<close> and \<open>read\<close> transfer at most what they are asked for and are not interrupted for ever.\<close>

theorem cbuf_never_aborts:
  assumes "0 < min1" "min1 \<le> 1073740806" "max1 \<le> 1073740806" "0 < min2" "min2 \<le> 1073740806" "max2 \<le> 1073740806"
    and "\<forall>c \<in> set cs. op_int c \<le> 1073741824" "write_ok wr out mu" "read_ok rd got nu"
  shows "\<exists>a b a' b' fd'. cbuf_create min1 max1 = Some (Some a) \<and> cbuf_create min2 max2 = Some (Some b) \<and>
    run_bops re wr rd cs (a, b, fd) = Some (a', b', fd') \<and> cbuf_is_valid a' \<and> cbuf_is_valid b'"
proof -
  obtain a where a: "cbuf_create min1 max1 = Some (Some a)" "small_buf a" by (rule create_small [OF assms(1-3)])
  obtain b where b: "cbuf_create min2 max2 = Some (Some b)" "small_buf b" by (rule create_small [OF assms(4-6)])
  show ?thesis using a b run_bops_ok [OF assms(8,9) a(2) b(2) assms(7), of re fd]
    unfolding small_buf_def cbuf_ok_def by blast
qed

theorem cbuf_never_aborts_witness:
  "\<exists>a b a' b' fd'. cbuf_create 3 10 = Some (Some a) \<and> cbuf_create 2 2 = Some (Some b) \<and>
    run_bops (\<lambda>m. m < 100) (\<lambda>(f, g) bs. ((f @ take 2 bs, g), int (length (take 2 bs)), False)) (\<lambda>(f, g) len. ((f, g), [], - 1, False))
      [BWrite [1, 10, 2, 3, 4], BReadLine False 10 1, BRewind (- 1), BMove False 3, BSwap, BReadFd False (- 1), BWriteFd False 5, BDrop 7] (a, b, ([], ())) = Some (a', b', fd') \<and>
    cbuf_is_valid a' \<and> cbuf_is_valid b'"
proof -
  define wr :: "byte list \<times> unit \<Rightarrow> byte list \<Rightarrow> (byte list \<times> unit) \<times> int \<times> bool" where
    "wr = (\<lambda>(f, g) bs. ((f @ take 2 bs, g), int (length (take 2 bs)), False))"
  define rd :: "byte list \<times> unit \<Rightarrow> int \<Rightarrow> (byte list \<times> unit) \<times> byte list \<times> int \<times> bool" where
    "rd = (\<lambda>(f, g) len. ((f, g), [], - 1, False))"
  have w: "write_ok wr fst (\<lambda>_. 0)" by (auto simp: write_ok_def wr_def min_def)
  have r: "read_ok rd (\<lambda>_. []) (\<lambda>_. 0)" by (auto simp: read_ok_def rd_def)
  show ?thesis unfolding wr_def [symmetric] rd_def [symmetric]
    by (rule cbuf_never_aborts [OF _ _ _ _ _ _ _ w r]) simp_all
qed

end
