(* ===== verification/Ctld_Locks.thy ===== *)
theory Ctld_Locks
  imports Slurm_Prelude
begin

section \<open>The locks of the controller (\<open>src/slurmctld/locks.c\<close>)\<close>

text \<open>
  Five readers-writer locks in one array of counters, four per lock. Each passage through a
  critical section of \<open>locks_mutex\<close> is one atomic function on the array: a pass of the loop of
  \<open>_wr_rdlock\<close> or \<open>_wr_wrlock\<close> has the result \<open>None\<close> where the code goes to sleep on the condition
  variable \<open>locks_cond\<close>; the unlock functions have it where an \<open>xassert\<close> fails, and otherwise say
  with the new counters that they broadcast \<open>locks_cond\<close>. A thread inside \<open>lock_slurmctld\<close> or
  \<open>unlock_slurmctld\<close> is described by the data types still to handle and by whether it sleeps in
  \<open>slurm_cond_wait\<close>. A sleeping thread takes no step; a broadcast wakes every sleeper, and each then
  tests the counters again when it is scheduled. The system is the array with a list of threads,
  whose steps interleave freely; a sleeper may also wake up without a broadcast, as POSIX allows. The
  counters are far from the limits of \<open>int\<close>, as they count threads; \<open>write_cnt_lock\<close> only feeds a
  debugging display and may be any integer.
\<close>

subsection \<open>Data\<close>

datatype lock_level = NO_LOCK | READ_LOCK | WRITE_LOCK

fun level_num :: "lock_level \<Rightarrow> nat" where
  "level_num NO_LOCK = 0"
| "level_num READ_LOCK = 1"
| "level_num WRITE_LOCK = 2"

record slurmctld_lock =
  lk_config :: lock_level
  lk_job :: lock_level
  lk_node :: lock_level
  lk_partition :: lock_level
  lk_federation :: lock_level

datatype lock_datatype = CONFIG_LOCK | JOB_LOCK | NODE_LOCK | PART_LOCK | FED_LOCK

fun datatype_num :: "lock_datatype \<Rightarrow> nat" where
  "datatype_num CONFIG_LOCK = 0"
| "datatype_num JOB_LOCK = 1"
| "datatype_num NODE_LOCK = 2"
| "datatype_num PART_LOCK = 3"
| "datatype_num FED_LOCK = 4"

definition ENTITY_COUNT :: nat where
  "ENTITY_COUNT = 5"

definition read_lock :: "lock_datatype \<Rightarrow> nat" where
  "read_lock dt = datatype_num dt * 4 + 0"

definition write_lock :: "lock_datatype \<Rightarrow> nat" where
  "write_lock dt = datatype_num dt * 4 + 1"

definition write_wait_lock :: "lock_datatype \<Rightarrow> nat" where
  "write_wait_lock dt = datatype_num dt * 4 + 2"

definition write_cnt_lock :: "lock_datatype \<Rightarrow> nat" where
  "write_cnt_lock dt = datatype_num dt * 4 + 3"

fun level_of :: "slurmctld_lock \<Rightarrow> lock_datatype \<Rightarrow> lock_level" where
  "level_of v CONFIG_LOCK = lk_config v"
| "level_of v JOB_LOCK = lk_job v"
| "level_of v NODE_LOCK = lk_node v"
| "level_of v PART_LOCK = lk_partition v"
| "level_of v FED_LOCK = lk_federation v"

definition no_locks :: slurmctld_lock where
  "no_locks = \<lparr>lk_config = NO_LOCK, lk_job = NO_LOCK, lk_node = NO_LOCK, lk_partition = NO_LOCK, lk_federation = NO_LOCK\<rparr>"

subsection \<open>The counters\<close>

definition init_locks :: "int list" where
  "init_locks = replicate (ENTITY_COUNT * 4) 0"

definition wr_rdlock :: "lock_datatype \<Rightarrow> int list \<Rightarrow> int list option" where
  "wr_rdlock dt e =
     (if e ! write_lock dt = 0 \<and> e ! write_wait_lock dt = 0
      then Some (e[read_lock dt := e ! read_lock dt + 1, write_cnt_lock dt := 0])
      else None)"

definition wr_rdunlock :: "lock_datatype \<Rightarrow> int list \<Rightarrow> (int list \<times> bool) option" where
  "wr_rdunlock dt e =
     (let e = e[read_lock dt := e ! read_lock dt - 1]; broadcast = True in
      if e ! read_lock dt \<ge> 0 then Some (e, broadcast) else None)"

definition wr_wrlock_wait :: "lock_datatype \<Rightarrow> int list \<Rightarrow> int list" where
  "wr_wrlock_wait dt e = e[write_wait_lock dt := e ! write_wait_lock dt + 1]"

definition wr_wrlock :: "lock_datatype \<Rightarrow> int list \<Rightarrow> int list option" where
  "wr_wrlock dt e =
     (if e ! read_lock dt = 0 \<and> e ! write_lock dt = 0
      then Some (e[write_lock dt := e ! write_lock dt + 1, write_wait_lock dt := e ! write_wait_lock dt - 1,
                   write_cnt_lock dt := e ! write_cnt_lock dt + 1])
      else None)"

definition wr_wrunlock :: "lock_datatype \<Rightarrow> int list \<Rightarrow> (int list \<times> bool) option" where
  "wr_wrunlock dt e =
     (let e = e[write_lock dt := e ! write_lock dt - 1]; broadcast = True in
      if e ! write_lock dt \<ge> 0 then Some (e, broadcast) else None)"

subsection \<open>Threads\<close>

datatype lock_pc =
    Running
  | Locking slurmctld_lock "lock_datatype list" bool
  | Unlocking slurmctld_lock "lock_datatype list"

record lthread =
  slurmctld_locked :: bool
  thread_locks :: slurmctld_lock
  lt_pc :: lock_pc
  lt_asleep :: bool

definition store_locks :: "slurmctld_lock \<Rightarrow> lthread \<Rightarrow> lthread option" where
  "store_locks lock_levels t =
     (if slurmctld_locked t then None
      else Some (t\<lparr>slurmctld_locked := True, thread_locks := lock_levels\<rparr>))"

definition clear_locks :: "slurmctld_lock \<Rightarrow> lthread \<Rightarrow> lthread option" where
  "clear_locks lock_levels t =
     (if \<not> slurmctld_locked t then None
      else if thread_locks t \<noteq> lock_levels then None
      else Some (t\<lparr>slurmctld_locked := False, thread_locks := no_locks\<rparr>))"

definition verify_lock :: "lock_datatype \<Rightarrow> lock_level \<Rightarrow> lthread \<Rightarrow> bool" where
  "verify_lock dt level t \<longleftrightarrow> level_num (level_of (thread_locks t) dt) \<ge> level_num level"

definition lock_order :: "lock_datatype list" where
  "lock_order = [CONFIG_LOCK, JOB_LOCK, NODE_LOCK, PART_LOCK, FED_LOCK]"

definition unlock_order :: "lock_datatype list" where
  "unlock_order = [FED_LOCK, PART_LOCK, NODE_LOCK, JOB_LOCK, CONFIG_LOCK]"

text \<open>The next atomic step of \<open>lock_slurmctld\<close> and \<open>unlock_slurmctld\<close>: the counters, where the thread
  stands, and whether it went to sleep on \<open>locks_cond\<close> or broadcast it. The flag of \<open>Locking\<close> says
  that the thread already counts as a waiting writer of the first data type.\<close>

fun lock_slurmctld :: "slurmctld_lock \<Rightarrow> lock_datatype list \<Rightarrow> bool \<Rightarrow> int list \<Rightarrow> int list \<times> lock_pc \<times> bool" where
  "lock_slurmctld v [] w e = (e, Running, False)"
| "lock_slurmctld v (dt # dts) w e = (case level_of v dt of
     NO_LOCK \<Rightarrow> (e, Locking v dts False, False)
   | READ_LOCK \<Rightarrow> (case wr_rdlock dt e of
         None \<Rightarrow> (e, Locking v (dt # dts) False, True)
       | Some e \<Rightarrow> (e, Locking v dts False, False))
   | WRITE_LOCK \<Rightarrow> (let e = (if w then e else wr_wrlock_wait dt e) in
       case wr_wrlock dt e of
         None \<Rightarrow> (e, Locking v (dt # dts) True, True)
       | Some e \<Rightarrow> (e, Locking v dts False, False)))"

fun unlock_slurmctld :: "slurmctld_lock \<Rightarrow> lock_datatype list \<Rightarrow> int list \<Rightarrow> (int list \<times> lock_pc \<times> bool) option" where
  "unlock_slurmctld v [] e = Some (e, Running, False)"
| "unlock_slurmctld v (dt # dts) e = (case level_of v dt of
     NO_LOCK \<Rightarrow> Some (e, Unlocking v dts, False)
   | READ_LOCK \<Rightarrow> map_option (\<lambda>(e, b). (e, Unlocking v dts, b)) (wr_rdunlock dt e)
   | WRITE_LOCK \<Rightarrow> map_option (\<lambda>(e, b). (e, Unlocking v dts, b)) (wr_wrunlock dt e))"

subsection \<open>The system\<close>

record lsys =
  ls_entity :: "int list"
  ls_threads :: "lthread list"

datatype lresult = Waits | Aborts | Goes lsys

datatype lock_call = Call_lock slurmctld_lock | Call_unlock slurmctld_lock

fun enter_call :: "lock_call \<Rightarrow> lthread \<Rightarrow> lthread option" where
  "enter_call (Call_lock v) t = map_option (\<lambda>t. t\<lparr>lt_pc := Locking v lock_order False\<rparr>) (store_locks v t)"
| "enter_call (Call_unlock v) t = map_option (\<lambda>t. t\<lparr>lt_pc := Unlocking v unlock_order\<rparr>) (clear_locks v t)"

definition call_step :: "nat \<Rightarrow> lock_call \<Rightarrow> lsys \<Rightarrow> lresult" where
  "call_step i c s = (case enter_call c (ls_threads s ! i) of
     None \<Rightarrow> Aborts | Some t \<Rightarrow> Goes (s\<lparr>ls_threads := (ls_threads s)[i := t]\<rparr>))"

text \<open>\<open>set_pc\<close> records a step of a thread, \<open>wake_all\<close> is \<open>slurm_cond_broadcast\<close>.\<close>

definition set_pc :: "nat \<Rightarrow> lsys \<Rightarrow> int list \<Rightarrow> lock_pc \<Rightarrow> bool \<Rightarrow> lsys" where
  "set_pc i s e pc sleeps =
     \<lparr>ls_entity = e, ls_threads = (ls_threads s)[i := (ls_threads s ! i)\<lparr>lt_pc := pc, lt_asleep := sleeps\<rparr>]\<rparr>"

definition wake_all :: "lsys \<Rightarrow> lsys" where
  "wake_all s = s\<lparr>ls_threads := map (\<lambda>t. t\<lparr>lt_asleep := False\<rparr>) (ls_threads s)\<rparr>"

definition wake_one :: "nat \<Rightarrow> lsys \<Rightarrow> lsys" where
  "wake_one i s = s\<lparr>ls_threads := (ls_threads s)[i := (ls_threads s ! i)\<lparr>lt_asleep := False\<rparr>]\<rparr>"

definition thread_step :: "nat \<Rightarrow> lsys \<Rightarrow> lresult" where
  "thread_step i s =
     (if lt_asleep (ls_threads s ! i) then Waits
      else case lt_pc (ls_threads s ! i) of
        Running \<Rightarrow> Waits
      | Locking v dts w \<Rightarrow> (case lock_slurmctld v dts w (ls_entity s) of
            (e, pc, sleeps) \<Rightarrow> Goes (set_pc i s e pc sleeps))
      | Unlocking v dts \<Rightarrow> (case unlock_slurmctld v dts (ls_entity s) of
            None \<Rightarrow> Aborts
          | Some (e, pc, broadcast) \<Rightarrow>
              (let s = set_pc i s e pc False in Goes (if broadcast then wake_all s else s))))"

definition new_thread :: lthread where
  "new_thread = \<lparr>slurmctld_locked = False, thread_locks = no_locks, lt_pc = Running, lt_asleep = False\<rparr>"

text \<open>\<open>drain\<close> has the steps of threads that finish what they began, the release of held locks
  included; \<open>locks_reach n\<close> are the states of \<open>n\<close> threads that lock when they hold nothing and unlock what they
  locked, spurious wake-ups included.\<close>

inductive drain :: "lsys \<Rightarrow> lsys \<Rightarrow> bool" where
  drain_step: "i < length (ls_threads s) \<Longrightarrow> thread_step i s = Goes s' \<Longrightarrow> drain s s'"
| drain_unlock: "i < length (ls_threads s) \<Longrightarrow> lt_pc (ls_threads s ! i) = Running \<Longrightarrow> slurmctld_locked (ls_threads s ! i) \<Longrightarrow>
    call_step i (Call_unlock (thread_locks (ls_threads s ! i))) s = Goes s' \<Longrightarrow> drain s s'"

inductive locks_reach :: "nat \<Rightarrow> lsys \<Rightarrow> bool" for n where
  reach_init: "locks_reach n \<lparr>ls_entity = init_locks, ls_threads = replicate n new_thread\<rparr>"
| reach_lock: "locks_reach n s \<Longrightarrow> i < length (ls_threads s) \<Longrightarrow> lt_pc (ls_threads s ! i) = Running \<Longrightarrow>
    \<not> slurmctld_locked (ls_threads s ! i) \<Longrightarrow> call_step i (Call_lock v) s = Goes s' \<Longrightarrow> locks_reach n s'"
| reach_drain: "locks_reach n s \<Longrightarrow> drain s s' \<Longrightarrow> locks_reach n s'"
| reach_wake: "locks_reach n s \<Longrightarrow> i < length (ls_threads s) \<Longrightarrow> locks_reach n (wake_one i s)"

subsection \<open>Counting threads\<close>

lemma lock_index [simp]:
  "read_lock d < 20" "write_lock d < 20" "write_wait_lock d < 20" "write_cnt_lock d < 20"
  "read_lock d = read_lock d' \<longleftrightarrow> d = d'" "write_lock d = write_lock d' \<longleftrightarrow> d = d'" "write_wait_lock d = write_wait_lock d' \<longleftrightarrow> d = d'"
  "read_lock d \<noteq> write_lock d'" "read_lock d \<noteq> write_wait_lock d'" "read_lock d \<noteq> write_cnt_lock d'"
  "write_lock d \<noteq> read_lock d'" "write_lock d \<noteq> write_wait_lock d'" "write_lock d \<noteq> write_cnt_lock d'"
  "write_wait_lock d \<noteq> read_lock d'" "write_wait_lock d \<noteq> write_lock d'" "write_wait_lock d \<noteq> write_cnt_lock d'"
  "write_cnt_lock d \<noteq> read_lock d'" "write_cnt_lock d \<noteq> write_lock d'" "write_cnt_lock d \<noteq> write_wait_lock d'"
  unfolding read_lock_def write_lock_def write_wait_lock_def write_cnt_lock_def
  by (cases d; cases d'; simp)+

lemma lock_order_all [simp]: "d \<in> set lock_order" "d \<in> set unlock_order" "distinct lock_order" "distinct unlock_order"
  by (cases d; simp add: lock_order_def unlock_order_def)+

lemma lock_order_rev: "unlock_order = rev lock_order"
  by (simp add: lock_order_def unlock_order_def)

lemma level_no_locks [simp]: "level_of no_locks d = NO_LOCK"
  by (cases d) (simp_all add: no_locks_def)

definition tcnt :: "(lthread \<Rightarrow> bool) \<Rightarrow> lthread list \<Rightarrow> int" where
  "tcnt P ths = int (length (filter P ths))"

lemma tcnt_nonneg [simp]: "0 \<le> tcnt P ths"
  by (simp add: tcnt_def)

lemma tcnt_update:
  "i < length ths \<Longrightarrow> tcnt P (ths[i := t]) = tcnt P ths - of_bool (P (ths ! i)) + of_bool (P t)"
proof (induction ths arbitrary: i)
  case (Cons a ths)
  have c: "tcnt P (x # xs) = of_bool (P x) + tcnt P xs" for x xs by (simp add: tcnt_def)
  show ?case using Cons by (cases i) (simp_all add: c)
qed simp

lemma tcnt_pos: "i < length ths \<Longrightarrow> P (ths ! i) \<Longrightarrow> 0 < tcnt P ths"
  by (simp add: tcnt_def) (metis filter_empty_conv length_greater_0_conv nth_mem)

lemma tcnt_posE:
  assumes "0 < tcnt P ths"
  obtains i where "i < length ths" "P (ths ! i)"
proof -
  from assms have "filter P ths \<noteq> []" by (auto simp: tcnt_def)
  then show thesis using that by (auto simp: filter_empty_conv in_set_conv_nth)
qed

lemma tcnt_two:
  assumes "i < length ths" "j < length ths" "i \<noteq> j" "P (ths ! i)" "P (ths ! j)"
  shows "2 \<le> tcnt P ths"
proof -
  have "card {i, j} \<le> card {k. k < length ths \<and> P (ths ! k)}" using assms by (intro card_mono) auto
  then show ?thesis using assms(3) by (simp add: tcnt_def length_filter_conv_card)
qed

subsection \<open>What a thread holds\<close>

fun pc_held :: "slurmctld_lock \<Rightarrow> bool \<Rightarrow> lock_pc \<Rightarrow> lock_datatype \<Rightarrow> lock_level" where
  "pc_held v l Running d = (if l then level_of v d else NO_LOCK)"
| "pc_held v l (Locking u dts w) d = (if d \<in> set dts then NO_LOCK else level_of u d)"
| "pc_held v l (Unlocking u dts) d = (if d \<in> set dts then level_of u d else NO_LOCK)"

definition held :: "lthread \<Rightarrow> lock_datatype \<Rightarrow> lock_level" where
  "held t = pc_held (thread_locks t) (slurmctld_locked t) (lt_pc t)"

fun pc_waits :: "lock_pc \<Rightarrow> lock_datatype \<Rightarrow> bool" where
  "pc_waits (Locking u (dt # dts) w) d \<longleftrightarrow> w \<and> d = dt"
| "pc_waits pc d \<longleftrightarrow> False"

definition waits :: "lthread \<Rightarrow> lock_datatype \<Rightarrow> bool" where
  "waits t = pc_waits (lt_pc t)"

fun pc_ok :: "slurmctld_lock \<Rightarrow> bool \<Rightarrow> lock_pc \<Rightarrow> bool" where
  "pc_ok v l Running \<longleftrightarrow> l \<or> v = no_locks"
| "pc_ok v l (Locking u dts w) \<longleftrightarrow> l \<and> v = u \<and> (\<exists>pre. lock_order = pre @ dts) \<and> (w \<longrightarrow> dts \<noteq> [] \<and> level_of u (hd dts) = WRITE_LOCK)"
| "pc_ok v l (Unlocking u dts) \<longleftrightarrow> \<not> l \<and> v = no_locks \<and> (\<exists>pre. unlock_order = pre @ dts)"

definition thread_ok :: "lthread \<Rightarrow> bool" where
  "thread_ok t \<longleftrightarrow> pc_ok (thread_locks t) (slurmctld_locked t) (lt_pc t)"

lemma pc_ok_Locking_Cons:
  assumes "pc_ok v l (Locking u (dt # dts) w)"
  shows "l" "v = u" "dt \<notin> set dts" "pc_ok v l (Locking u dts False)" "w \<Longrightarrow> level_of u dt = WRITE_LOCK"
    "level_of u dt = WRITE_LOCK \<Longrightarrow> pc_ok v l (Locking u (dt # dts) True)"
proof -
  obtain pre where p: "lock_order = pre @ dt # dts" using assms by auto
  have d: "distinct (pre @ dt # dts)" unfolding p [symmetric] by simp
  have "lock_order = (pre @ [dt]) @ dts" using p by simp
  then show "pc_ok v l (Locking u dts False)" using assms by (auto intro!: exI [of _ "pre @ [dt]"])
  show "l" "v = u" "dt \<notin> set dts" "w \<Longrightarrow> level_of u dt = WRITE_LOCK" "level_of u dt = WRITE_LOCK \<Longrightarrow> pc_ok v l (Locking u (dt # dts) True)"
    using assms d by auto
qed

lemma pc_ok_Unlocking_Cons:
  assumes "pc_ok v l (Unlocking u (dt # dts))"
  shows "\<not> l" "v = no_locks" "dt \<notin> set dts" "pc_ok v l (Unlocking u dts)"
proof -
  obtain pre where p: "unlock_order = pre @ dt # dts" using assms by auto
  have d: "distinct (pre @ dt # dts)" unfolding p [symmetric] by simp
  have "unlock_order = (pre @ [dt]) @ dts" using p by simp
  then show "pc_ok v l (Unlocking u dts)" using assms by (auto intro!: exI [of _ "pre @ [dt]"])
  show "\<not> l" "v = no_locks" "dt \<notin> set dts" using assms d by auto
qed

subsection \<open>The invariant\<close>

text \<open>The counters are the numbers of threads that hold or await a lock, and a writer is alone.\<close>

definition counts_ok :: "int list \<Rightarrow> lthread list \<Rightarrow> bool" where
  "counts_ok e ths \<longleftrightarrow> length e = 20 \<and> (\<forall>d. e ! read_lock d = tcnt (\<lambda>t. held t d = READ_LOCK) ths \<and>
     e ! write_lock d = tcnt (\<lambda>t. held t d = WRITE_LOCK) ths \<and> e ! write_wait_lock d = tcnt (\<lambda>t. waits t d) ths \<and>
     (e ! write_lock d = 0 \<or> e ! write_lock d = 1 \<and> e ! read_lock d = 0))"

text \<open>No wake-up is lost: a thread that sleeps is one whose test would still fail.\<close>

fun pc_blocked :: "lock_pc \<Rightarrow> int list \<Rightarrow> bool" where
  "pc_blocked (Locking u (dt # dts) w) e \<longleftrightarrow>
     level_of u dt = READ_LOCK \<and> (e ! write_lock dt \<noteq> 0 \<or> e ! write_wait_lock dt \<noteq> 0) \<or>
     level_of u dt = WRITE_LOCK \<and> w \<and> (e ! read_lock dt \<noteq> 0 \<or> e ! write_lock dt \<noteq> 0)"
| "pc_blocked pc e \<longleftrightarrow> False"

definition sleep_ok :: "int list \<Rightarrow> lthread \<Rightarrow> bool" where
  "sleep_ok e t \<longleftrightarrow> (lt_asleep t \<longrightarrow> pc_blocked (lt_pc t) e)"

definition locks_inv :: "lsys \<Rightarrow> bool" where
  "locks_inv s \<longleftrightarrow> counts_ok (ls_entity s) (ls_threads s) \<and>
     (\<forall>t \<in> set (ls_threads s). thread_ok t \<and> sleep_ok (ls_entity s) t)"

text \<open>How a step of one thread moves the counters: \<open>h\<close> and \<open>h'\<close> are what it holds before and after,
  \<open>w\<close> and \<open>w'\<close> whether it waits.\<close>

definition moves ::
    "int list \<Rightarrow> int list \<Rightarrow> (lock_datatype \<Rightarrow> lock_level) \<Rightarrow> (lock_datatype \<Rightarrow> lock_level) \<Rightarrow>
     (lock_datatype \<Rightarrow> bool) \<Rightarrow> (lock_datatype \<Rightarrow> bool) \<Rightarrow> bool" where
  "moves e e' h h' w w' \<longleftrightarrow> length e' = length e \<and> (\<forall>d.
     e' ! read_lock d = e ! read_lock d - of_bool (h d = READ_LOCK) + of_bool (h' d = READ_LOCK) \<and>
     e' ! write_lock d = e ! write_lock d - of_bool (h d = WRITE_LOCK) + of_bool (h' d = WRITE_LOCK) \<and>
     e' ! write_wait_lock d = e ! write_wait_lock d - of_bool (w d) + of_bool (w' d) \<and>
     (h' d = h d \<or> h' d = NO_LOCK \<or> e ! write_lock d = 0 \<and> (h' d = WRITE_LOCK \<longrightarrow> e ! read_lock d = 0)))"

lemma counts_ok_step:
  assumes c: "counts_ok e ths" and i: "i < length ths" and m: "moves e e' (held (ths ! i)) (held t) (waits (ths ! i)) (waits t)"
  shows "counts_ok e' (ths[i := t])"
  unfolding counts_ok_def
proof (intro conjI allI)
  show "length e' = 20" using c m by (simp add: counts_ok_def moves_def)
  fix d
  let ?R = "\<lambda>ths. tcnt (\<lambda>t. held t d = READ_LOCK) ths" and ?W = "\<lambda>ths. tcnt (\<lambda>t. held t d = WRITE_LOCK) ths"
  have e: "e ! read_lock d = ?R ths" "e ! write_lock d = ?W ths" "e ! write_wait_lock d = tcnt (\<lambda>t. waits t d) ths"
      "e ! write_lock d = 0 \<or> e ! write_lock d = 1 \<and> e ! read_lock d = 0"
    using c unfolding counts_ok_def by blast+
  have u: "?R (ths[i := t]) = ?R ths - of_bool (held (ths ! i) d = READ_LOCK) + of_bool (held t d = READ_LOCK)"
      "?W (ths[i := t]) = ?W ths - of_bool (held (ths ! i) d = WRITE_LOCK) + of_bool (held t d = WRITE_LOCK)"
      "tcnt (\<lambda>t. waits t d) (ths[i := t]) = tcnt (\<lambda>t. waits t d) ths - of_bool (waits (ths ! i) d) + of_bool (waits t d)"
    using i by (rule tcnt_update)+
  have md: "e' ! read_lock d = e ! read_lock d - of_bool (held (ths ! i) d = READ_LOCK) + of_bool (held t d = READ_LOCK)"
     "e' ! write_lock d = e ! write_lock d - of_bool (held (ths ! i) d = WRITE_LOCK) + of_bool (held t d = WRITE_LOCK)"
     "e' ! write_wait_lock d = e ! write_wait_lock d - of_bool (waits (ths ! i) d) + of_bool (waits t d)"
     "held t d = held (ths ! i) d \<or> held t d = NO_LOCK \<or> e ! write_lock d = 0 \<and> (held t d = WRITE_LOCK \<longrightarrow> e ! read_lock d = 0)"
    using m unfolding moves_def by blast+
  show r: "e' ! read_lock d = ?R (ths[i := t])" and w: "e' ! write_lock d = ?W (ths[i := t])"
    and "e' ! write_wait_lock d = tcnt (\<lambda>t. waits t d) (ths[i := t])"
    using e u md by simp_all
  have n: "0 \<le> ?R (ths[i := t])" "0 \<le> ?W (ths[i := t])" by simp_all
  have pos: "held (ths ! i) d = READ_LOCK \<Longrightarrow> 0 < e ! read_lock d" "held (ths ! i) d = WRITE_LOCK \<Longrightarrow> 0 < e ! write_lock d"
    using e tcnt_pos [OF i, of "\<lambda>t. held t d = READ_LOCK"] tcnt_pos [OF i, of "\<lambda>t. held t d = WRITE_LOCK"] by auto
  show "e' ! write_lock d = 0 \<or> e' ! write_lock d = 1 \<and> e' ! read_lock d = 0"
    using md e(4) pos n unfolding r [symmetric] w [symmetric] by (cases "held t d"; cases "held (ths ! i) d") auto
qed

definition bumped :: "int list \<Rightarrow> int list \<Rightarrow> lock_datatype \<Rightarrow> int \<Rightarrow> int \<Rightarrow> int \<Rightarrow> bool" where
  "bumped e e' dt r w q \<longleftrightarrow> length e' = length e \<and> (\<forall>d. e' ! read_lock d = e ! read_lock d + (if d = dt then r else 0) \<and>
     e' ! write_lock d = e ! write_lock d + (if d = dt then w else 0) \<and>
     e' ! write_wait_lock d = e ! write_wait_lock d + (if d = dt then q else 0))"

lemma lock_bumps:
  assumes "length e = 20"
  shows "wr_rdlock dt e = Some e' \<Longrightarrow> bumped e e' dt 1 0 0 \<and> e ! write_lock dt = 0 \<and> e ! write_wait_lock dt = 0"
    and "wr_rdunlock dt e = Some (e', b) \<Longrightarrow> bumped e e' dt (- 1) 0 0"
    and "bumped e (wr_wrlock_wait dt e) dt 0 0 1"
    and "wr_wrlock dt e = Some e' \<Longrightarrow> bumped e e' dt 0 1 (- 1) \<and> e ! write_lock dt = 0 \<and> e ! read_lock dt = 0"
    and "wr_wrunlock dt e = Some (e', b) \<Longrightarrow> bumped e e' dt 0 (- 1) 0"
  using assms by (auto simp: bumped_def wr_rdlock_def wr_rdunlock_def wr_wrlock_wait_def wr_wrlock_def wr_wrunlock_def Let_def split: if_splits)

lemma bumped_moves:
  assumes b: "bumped e e' dt r w q" and o: "\<And>d. d \<noteq> dt \<Longrightarrow> h' d = h d \<and> p' d = p d"
    and "r = of_bool (h' dt = READ_LOCK) - of_bool (h dt = READ_LOCK)" "w = of_bool (h' dt = WRITE_LOCK) - of_bool (h dt = WRITE_LOCK)"
      "q = of_bool (p' dt) - of_bool (p dt)"
    and x: "h' dt = h dt \<or> h' dt = NO_LOCK \<or> e ! write_lock dt = 0 \<and> (h' dt = WRITE_LOCK \<longrightarrow> e ! read_lock dt = 0)"
  shows "moves e e' h h' p p'"
  unfolding moves_def
proof (intro conjI allI)
  show "length e' = length e" using b by (simp add: bumped_def)
  fix d
  have e: "e' ! read_lock d = e ! read_lock d + (if d = dt then r else 0)" "e' ! write_lock d = e ! write_lock d + (if d = dt then w else 0)"
      "e' ! write_wait_lock d = e ! write_wait_lock d + (if d = dt then q else 0)"
    using b unfolding bumped_def by blast+
  show "e' ! read_lock d = e ! read_lock d - of_bool (h d = READ_LOCK) + of_bool (h' d = READ_LOCK)"
    "e' ! write_lock d = e ! write_lock d - of_bool (h d = WRITE_LOCK) + of_bool (h' d = WRITE_LOCK)"
    "e' ! write_wait_lock d = e ! write_wait_lock d - of_bool (p d) + of_bool (p' d)"
    unfolding e using assms(3-5) o [of d] by (cases "d = dt"; simp)+
  show "h' d = h d \<or> h' d = NO_LOCK \<or> e ! write_lock d = 0 \<and> (h' d = WRITE_LOCK \<longrightarrow> e ! read_lock d = 0)"
    using x o [of d] by (cases "d = dt") auto
qed

lemma bumped_trans: "bumped e e1 dt r w q \<Longrightarrow> bumped e1 e2 dt r' w' q' \<Longrightarrow> bumped e e2 dt (r + r') (w + w') (q + q')"
  by (simp add: bumped_def)

lemma bumped_0: "bumped e e dt 0 0 0"
  by (simp add: bumped_def)

lemma waits_False [simp]: "\<not> pc_waits (Locking u ds False) d"
  by (cases ds) auto

lemma lock_moves:
  assumes ok: "pc_ok v l (Locking u dts w)" and e: "length e = 20" and s: "lock_slurmctld u dts w e = (e', pc', b)"
  shows "pc_ok v l pc' \<and> moves e e' (pc_held v l (Locking u dts w)) (pc_held v l pc') (pc_waits (Locking u dts w)) (pc_waits pc')"
proof (cases dts)
  case Nil
  then show ?thesis using s ok by (auto simp: moves_def)
next
  case (Cons dt ds)
  note k = pc_ok_Locking_Cons [OF ok [unfolded Cons]]
  show ?thesis
  proof (cases "level_of u dt")
    case NO_LOCK
    then have "w = False" "e' = e" "pc' = Locking u ds False" using k(5) s Cons by auto
    then show ?thesis using NO_LOCK Cons k(3,4) by (auto intro!: bumped_moves [OF bumped_0 [of e dt]])
  next
    case READ_LOCK
    then consider "w = False" "wr_rdlock dt e = Some e'" "pc' = Locking u ds False" |
        "w = False" "e' = e" "pc' = Locking u (dt # ds) False"
      using k(5) s Cons by (cases "wr_rdlock dt e") auto
    then show ?thesis
    proof cases
      case 1
      then show ?thesis using READ_LOCK Cons k(3,4) lock_bumps(1) [OF e] by (auto intro!: bumped_moves [of _ _ dt 1 0 0])
    next
      case 2
      then show ?thesis using ok Cons by (auto intro!: bumped_moves [OF bumped_0 [of e dt]])
    qed
  next
    case WRITE_LOCK
    let ?e = "if w then e else wr_wrlock_wait dt e"
    have e1: "bumped e ?e dt 0 0 (of_bool (\<not> w))" "length ?e = 20" "?e ! write_lock dt = e ! write_lock dt" "?e ! read_lock dt = e ! read_lock dt"
      using lock_bumps(3) [OF e] e by (auto simp: bumped_def)
    consider "e' = ?e" "pc' = Locking u (dt # ds) True" | "wr_wrlock dt ?e = Some e'" "pc' = Locking u ds False"
      using s Cons WRITE_LOCK by (cases "wr_wrlock dt ?e") (auto simp: Let_def)
    then show ?thesis
    proof cases
      case 1
      then show ?thesis using WRITE_LOCK Cons k(3,6) e1 ok by (auto intro!: bumped_moves [of _ _ dt 0 0 "of_bool (\<not> w)"])
    next
      case 2
      have "bumped e e' dt 0 1 (of_bool (\<not> w) - 1)" "e ! write_lock dt = 0" "e ! read_lock dt = 0"
        using bumped_trans [OF e1(1), of e' 0 1 "- 1"] lock_bumps(4) [OF e1(2) 2(1)] e1(3,4) by simp_all
      then show ?thesis using 2 WRITE_LOCK Cons k(3,4) by (auto intro!: bumped_moves [of _ _ dt 0 1 "of_bool (\<not> w) - 1"])
    qed
  qed
qed

text \<open>Acquiring a lock never lets a sleeper through: a new reader or writer of a data type takes the
  place of what made the others wait.\<close>

lemma lock_keeps_blocked:
  assumes c: "counts_ok e ths" and s: "lock_slurmctld u dts w e = (e', pc', b)" and bl: "pc_blocked pc e"
  shows "pc_blocked pc e'"
proof (cases dts)
  case Nil
  then show ?thesis using s bl by auto
next
  case (Cons dt ds)
  have e: "length e = 20" and p: "0 \<le> e ! read_lock d" "0 \<le> e ! write_lock d" "0 \<le> e ! write_wait_lock d" for d
    using c by (auto simp: counts_ok_def)
  have up: "(e ! write_lock d \<noteq> 0 \<or> e ! write_wait_lock d \<noteq> 0 \<longrightarrow> e' ! write_lock d \<noteq> 0 \<or> e' ! write_wait_lock d \<noteq> 0) \<and>
      (e ! read_lock d \<noteq> 0 \<or> e ! write_lock d \<noteq> 0 \<longrightarrow> e' ! read_lock d \<noteq> 0 \<or> e' ! write_lock d \<noteq> 0)" for d
    using s Cons e p [of d]
    by (cases "level_of u dt"; cases "d = dt")
      (auto simp: wr_rdlock_def wr_wrlock_def wr_wrlock_wait_def Let_def nth_list_update split: if_splits)
  show ?thesis using bl up by (cases "(pc, e)" rule: pc_blocked.cases) auto
qed

lemma lock_sleeps:
  assumes "lock_slurmctld u dts w e = (e', pc', True)"
  shows "pc_blocked pc' e'"
  using assms by (cases dts) (auto simp: wr_rdlock_def wr_wrlock_def Let_def split: lock_level.splits if_splits option.splits)

lemma unlock_moves:
  assumes ok: "pc_ok v l (Unlocking u dts)" and e: "length e = 20" and s: "unlock_slurmctld u dts e = Some (e', pc', b)"
  shows "pc_ok v l pc' \<and> moves e e' (pc_held v l (Unlocking u dts)) (pc_held v l pc') (pc_waits (Unlocking u dts)) (pc_waits pc')"
proof (cases dts)
  case Nil
  then show ?thesis using s ok by (auto simp: moves_def)
next
  case (Cons dt ds)
  note k = pc_ok_Unlocking_Cons [OF ok [unfolded Cons]]
  have pc: "pc' = Unlocking u ds" using s Cons by (cases "level_of u dt") auto
  have "bumped e e' dt (- of_bool (level_of u dt = READ_LOCK)) (- of_bool (level_of u dt = WRITE_LOCK)) 0"
    using s Cons bumped_0 lock_bumps(2,5) [OF e] by (cases "level_of u dt") auto
  then show ?thesis using pc Cons k(3,4) by (auto intro!: bumped_moves)
qed

lemma unlock_goes:
  assumes "counts_ok e ths" "i < length ths" "lt_pc (ths ! i) = Unlocking u dts"
  shows "\<exists>r. unlock_slurmctld u dts e = Some r"
proof (cases dts)
  case (Cons dt ds)
  have e: "length e = 20" "e ! read_lock dt = tcnt (\<lambda>t. held t dt = READ_LOCK) ths" "e ! write_lock dt = tcnt (\<lambda>t. held t dt = WRITE_LOCK) ths"
    using assms(1) unfolding counts_ok_def by blast+
  have h: "held (ths ! i) dt = level_of u dt" using assms(3) Cons by (simp add: held_def)
  show ?thesis
  proof (cases "level_of u dt")
    case READ_LOCK
    then have "0 < e ! read_lock dt" using h e tcnt_pos [OF assms(2), of "\<lambda>t. held t dt = READ_LOCK"] by simp
    then show ?thesis using READ_LOCK Cons e(1) by (simp add: wr_rdunlock_def Let_def) (rule exI [of _ True], simp)
  next
    case WRITE_LOCK
    then have "0 < e ! write_lock dt" using h e tcnt_pos [OF assms(2), of "\<lambda>t. held t dt = WRITE_LOCK"] by simp
    then show ?thesis using WRITE_LOCK Cons e(1) by (simp add: wr_wrunlock_def Let_def) (rule exI [of _ True], simp)
  qed (auto simp: Cons)
qed auto

lemma locks_invD:
  assumes "locks_inv s"
  shows "counts_ok (ls_entity s) (ls_threads s)" "length (ls_entity s) = 20" "\<forall>t \<in> set (ls_threads s). thread_ok t"
    "\<forall>t \<in> set (ls_threads s). sleep_ok (ls_entity s) t"
  using assms unfolding locks_inv_def counts_ok_def by blast+

text \<open>The two kinds of step of a thread, and which sleepers each may leave asleep: a step that does not broadcast
  keeps every sleeper blocked, and only releasing a lock does not.\<close>

lemma thread_stepE:
  assumes "thread_step i s = Goes s'"
  obtains (lck) u dts w e' pc' b where "lt_pc (ls_threads s ! i) = Locking u dts w" "\<not> lt_asleep (ls_threads s ! i)"
      "lock_slurmctld u dts w (ls_entity s) = (e', pc', b)" "s' = set_pc i s e' pc' b"
  | (unl) u dts e' pc' b where "lt_pc (ls_threads s ! i) = Unlocking u dts" "\<not> lt_asleep (ls_threads s ! i)"
      "unlock_slurmctld u dts (ls_entity s) = Some (e', pc', b)"
      "s' = (if b then wake_all (set_pc i s e' pc' False) else set_pc i s e' pc' False)"
  using assms by (auto simp: thread_step_def Let_def split: if_splits lock_pc.splits option.splits prod.splits)

lemma unlock_quiet: "unlock_slurmctld u dts e = Some (e', pc', False) \<Longrightarrow> e' = e"
  by (cases dts) (auto simp: wr_rdunlock_def wr_wrunlock_def Let_def split: lock_level.splits if_splits)

lemma awake_same [simp]:
  "held (t\<lparr>lt_asleep := b\<rparr>) = held t" "waits (t\<lparr>lt_asleep := b\<rparr>) = waits t" "thread_ok (t\<lparr>lt_asleep := b\<rparr>) = thread_ok t"
  "sleep_ok e (t\<lparr>lt_asleep := False\<rparr>)"
  by (simp_all add: held_def waits_def thread_ok_def sleep_ok_def)

lemma tcnt_map: "tcnt P (map f ths) = tcnt (P \<circ> f) ths"
  by (simp add: tcnt_def filter_map)

lemma counts_ok_wake: "counts_ok e (map (\<lambda>t. t\<lparr>lt_asleep := False\<rparr>) ths) = counts_ok e ths"
  by (simp add: counts_ok_def tcnt_map comp_def)

lemma wake_all_inv:
  assumes "counts_ok (ls_entity s) (ls_threads s)" "\<forall>t \<in> set (ls_threads s). thread_ok t"
  shows "locks_inv (wake_all s)"
  using assms by (auto simp: locks_inv_def wake_all_def counts_ok_wake)

lemma wake_one_inv:
  assumes "locks_inv s" "i < length (ls_threads s)"
  shows "locks_inv (wake_one i s)"
proof -
  have "counts_ok (ls_entity s) ((ls_threads s)[i := (ls_threads s ! i)\<lparr>lt_asleep := False\<rparr>])"
    using locks_invD(1) [OF assms(1)] assms(2) by (rule counts_ok_step) (simp add: moves_def)
  then show ?thesis using locks_invD(3,4) [OF assms(1)] assms(2)
    by (auto simp: locks_inv_def wake_one_def dest!: subsetD [OF set_update_subset_insert])
qed

lemma set_pc_counts:
  assumes inv: "locks_inv s" and i: "i < length (ls_threads s)"
    and m: "pc_ok (thread_locks (ls_threads s ! i)) (slurmctld_locked (ls_threads s ! i)) pc' \<and>
      moves (ls_entity s) e' (held (ls_threads s ! i)) (pc_held (thread_locks (ls_threads s ! i)) (slurmctld_locked (ls_threads s ! i)) pc')
        (waits (ls_threads s ! i)) (pc_waits pc')"
  shows "counts_ok (ls_entity (set_pc i s e' pc' b)) (ls_threads (set_pc i s e' pc' b))"
    "\<forall>t \<in> set (ls_threads (set_pc i s e' pc' b)). thread_ok t"
proof -
  let ?t' = "(ls_threads s ! i)\<lparr>lt_pc := pc', lt_asleep := b\<rparr>"
  have t': "thread_ok ?t'" "moves (ls_entity s) e' (held (ls_threads s ! i)) (held ?t') (waits (ls_threads s ! i)) (waits ?t')"
    using m by (simp_all add: thread_ok_def held_def waits_def)
  show "counts_ok (ls_entity (set_pc i s e' pc' b)) (ls_threads (set_pc i s e' pc' b))"
    using counts_ok_step [OF locks_invD(1) [OF inv] i t'(2)] by (simp add: set_pc_def)
  show "\<forall>t \<in> set (ls_threads (set_pc i s e' pc' b)). thread_ok t"
    using locks_invD(3) [OF inv] t'(1) by (auto simp: set_pc_def dest!: subsetD [OF set_update_subset_insert])
qed

lemma set_pc_sleep:
  assumes inv: "locks_inv s" and k: "\<And>pc. pc_blocked pc (ls_entity s) \<Longrightarrow> pc_blocked pc e'" and b: "b \<Longrightarrow> pc_blocked pc' e'"
  shows "\<forall>t \<in> set (ls_threads (set_pc i s e' pc' b)). sleep_ok e' t"
  using locks_invD(4) [OF inv] k b by (auto simp: set_pc_def sleep_ok_def dest!: subsetD [OF set_update_subset_insert])

lemma thread_step_inv:
  assumes inv: "locks_inv s" and i: "i < length (ls_threads s)" and g: "thread_step i s = Goes s'"
  shows "locks_inv s' \<and> length (ls_threads s') = length (ls_threads s)"
  using g
proof (cases rule: thread_stepE)
  case (lck u dts w e' pc' b)
  have "thread_ok (ls_threads s ! i)" using i locks_invD(3) [OF inv] by simp
  then have "pc_ok (thread_locks (ls_threads s ! i)) (slurmctld_locked (ls_threads s ! i)) (Locking u dts w)" by (simp add: thread_ok_def lck(1))
  note c = set_pc_counts [OF inv i, of pc' e' b, OF lock_moves [OF this locks_invD(2) [OF inv] lck(3), folded lck(1), folded held_def waits_def]]
  have "\<forall>t \<in> set (ls_threads s'). sleep_ok e' t" unfolding lck(4)
    using lock_keeps_blocked [OF locks_invD(1) [OF inv] lck(3)] lock_sleeps [of u dts w "ls_entity s" e' pc'] lck(3)
    by (intro set_pc_sleep [OF inv]) auto
  then show ?thesis using c unfolding lck(4) locks_inv_def by (simp add: set_pc_def)
next
  case (unl u dts e' pc' b)
  have "thread_ok (ls_threads s ! i)" using i locks_invD(3) [OF inv] by simp
  then have "pc_ok (thread_locks (ls_threads s ! i)) (slurmctld_locked (ls_threads s ! i)) (Unlocking u dts)" by (simp add: thread_ok_def unl(1))
  note c = set_pc_counts [OF inv i, of pc' e' False, OF unlock_moves [OF this locks_invD(2) [OF inv] unl(3), folded unl(1), folded held_def waits_def]]
  show ?thesis
  proof (cases b)
    case True
    then show ?thesis using wake_all_inv [OF c] unl(4) by (simp add: wake_all_def set_pc_def)
  next
    case False
    then have "e' = ls_entity s" using unl(3) by (auto dest: unlock_quiet)
    then have "\<forall>t \<in> set (ls_threads (set_pc i s e' pc' False)). sleep_ok e' t" by (intro set_pc_sleep [OF inv]) auto
    then show ?thesis using c unl(4) False by (simp add: locks_inv_def set_pc_def)
  qed
qed

lemma call_step_inv:
  assumes inv: "locks_inv s" and i: "i < length (ls_threads s)" and r: "lt_pc (ls_threads s ! i) = Running" and g: "call_step i c s = Goes s'"
  shows "locks_inv s' \<and> length (ls_threads s') = length (ls_threads s)"
proof -
  let ?t = "ls_threads s ! i"
  obtain t' where t': "enter_call c ?t = Some t'" "s' = s\<lparr>ls_threads := (ls_threads s)[i := t']\<rparr>"
    using g by (auto simp: call_step_def split: option.splits)
  have "sleep_ok (ls_entity s) ?t" using locks_invD(4) [OF inv] i by simp
  then have "thread_ok t' \<and> sleep_ok (ls_entity s) t' \<and> held t' = held ?t \<and> waits t' = waits ?t"
    using t'(1) r by (cases c) (auto simp: store_locks_def clear_locks_def thread_ok_def held_def waits_def sleep_ok_def fun_eq_iff split: if_splits)
  then have n: "thread_ok t'" "sleep_ok (ls_entity s) t'" "moves (ls_entity s) (ls_entity s) (held ?t) (held t') (waits ?t) (waits t')"
    by (auto simp: moves_def)
  then have "counts_ok (ls_entity s) ((ls_threads s)[i := t'])" using counts_ok_step [OF locks_invD(1) [OF inv] i] by blast
  then show ?thesis using n locks_invD(3,4) [OF inv] by (auto simp: t' locks_inv_def dest!: subsetD [OF set_update_subset_insert])
qed

lemma drain_inv: "drain s s' \<Longrightarrow> locks_inv s \<Longrightarrow> locks_inv s' \<and> length (ls_threads s') = length (ls_threads s)"
  by (induction rule: drain.induct) (blast dest: thread_step_inv call_step_inv)+

lemma locks_reach_inv: "locks_reach n s \<Longrightarrow> locks_inv s \<and> length (ls_threads s) = n"
proof (induction rule: locks_reach.induct)
  case reach_init
  have "filter P (replicate n new_thread) = (if P new_thread then replicate n new_thread else [])" for P by simp
  then show ?case
    by (auto simp: locks_inv_def counts_ok_def init_locks_def ENTITY_COUNT_def tcnt_def held_def waits_def new_thread_def thread_ok_def sleep_ok_def)
next
  case (reach_lock s i v s')
  then show ?case using call_step_inv by metis
next
  case (reach_drain s s')
  then show ?case using drain_inv by metis
next
  case (reach_wake s i)
  then show ?case using wake_one_inv by (simp add: wake_one_def)
qed

lemma inv_no_abort:
  assumes "locks_inv s" "i < length (ls_threads s)"
  shows "thread_step i s \<noteq> Aborts"
  using assms unlock_goes [of "ls_entity s" "ls_threads s" i]
  by (auto simp: thread_step_def locks_inv_def Let_def split: lock_pc.splits option.splits prod.splits)

lemma inv_exclusive:
  assumes inv: "locks_inv s" and ij: "i < length (ls_threads s)" "j < length (ls_threads s)" "i \<noteq> j"
    and w: "held (ls_threads s ! i) d = WRITE_LOCK"
  shows "held (ls_threads s ! j) d = NO_LOCK"
proof (rule ccontr)
  let ?R = "\<lambda>t. held t d = READ_LOCK" and ?W = "\<lambda>t. held t d = WRITE_LOCK"
  assume "held (ls_threads s ! j) d \<noteq> NO_LOCK"
  then consider "?R (ls_threads s ! j)" | "?W (ls_threads s ! j)" by (cases "held (ls_threads s ! j) d") auto
  then have "0 < tcnt ?R (ls_threads s) \<or> 2 \<le> tcnt ?W (ls_threads s)"
    using tcnt_pos [OF ij(2), of ?R] tcnt_two [OF ij, of ?W] w by cases auto
  moreover have "0 < tcnt ?W (ls_threads s)" using tcnt_pos [OF ij(1), of ?W] w by simp
  moreover have "tcnt ?W (ls_threads s) = 0 \<or> tcnt ?W (ls_threads s) = 1 \<and> tcnt ?R (ls_threads s) = 0"
    using inv unfolding locks_inv_def counts_ok_def by metis
  ultimately show False by linarith
qed

subsection \<open>Progress\<close>

definition idle :: "lthread \<Rightarrow> bool" where
  "idle t \<longleftrightarrow> lt_pc t = Running \<and> \<not> slurmctld_locked t"

lemma suffix_contains:
  assumes "xs = p @ as" "xs = q @ d # bs" "Suc (length bs) \<le> length as"
  shows "d \<in> set as"
proof -
  have "length p + length as = length q + Suc (length bs)" using assms(1,2) by (metis length_Cons length_append)
  then have "drop (length p) (q @ d # bs) = drop (length p) q @ d # bs" using assms(3) by simp
  moreover have "as = drop (length p) (q @ d # bs)" unfolding assms(2) [symmetric] assms(1) by simp
  ultimately have "as = drop (length p) q @ d # bs" by simp
  then show ?thesis by auto
qed

text \<open>If nobody can release anything, a thread that has got furthest in the order is not blocked by
  a holder, for that one would have got further.\<close>

text \<open>A thread without a step is idle or sleeps, and then its test fails.\<close>

lemma stuck_asleep:
  assumes inv: "locks_inv s" and k: "k < length (ls_threads s)" and no: "\<nexists>s'. drain s s'"
  shows "idle (ls_threads s ! k) \<or> pc_blocked (lt_pc (ls_threads s ! k)) (ls_entity s)"
proof (cases "lt_asleep (ls_threads s ! k)")
  case True
  then show ?thesis using locks_invD(4) [OF inv] k by (auto simp: sleep_ok_def)
next
  case awake: False
  have stuck: "thread_step k s \<noteq> Goes s'" for s' using no k drain_step by blast
  show ?thesis
  proof (cases "lt_pc (ls_threads s ! k)")
    case Running
    have "call_step k (Call_unlock (thread_locks (ls_threads s ! k))) s \<noteq> Goes s'" if "slurmctld_locked (ls_threads s ! k)" for s'
      using no k Running that drain_unlock by blast
    then show ?thesis using Running by (auto simp: call_step_def clear_locks_def idle_def)
  next
    case (Locking u dts w)
    obtain e pc b where "lock_slurmctld u dts w (ls_entity s) = (e, pc, b)" by (cases "lock_slurmctld u dts w (ls_entity s)") blast
    then show ?thesis using stuck [of "set_pc k s e pc b"] Locking awake by (simp add: thread_step_def)
  next
    case (Unlocking u dts)
    obtain e pc b where "unlock_slurmctld u dts (ls_entity s) = Some (e, pc, b)"
      using unlock_goes [OF locks_invD(1) [OF inv] k Unlocking] by auto
    then show ?thesis using stuck [of "if b then wake_all (set_pc k s e pc False) else set_pc k s e pc False"] Unlocking awake
      by (simp add: thread_step_def Let_def)
  qed
qed

lemma locks_progress:
  assumes inv: "locks_inv s" and i: "i < length (ls_threads s)" and busy: "\<not> idle (ls_threads s ! i)"
  shows "\<exists>s'. drain s s'"
proof (rule ccontr)
  let ?th = "\<lambda>i. ls_threads s ! i" and ?n = "length (ls_threads s)" and ?e = "ls_entity s"
  assume no: "\<nexists>s'. drain s s'"
  have stuck: "\<forall>s'. thread_step k s \<noteq> Goes s'" if "k < ?n" for k using no that drain_step by blast
  have lck: "idle (?th k) \<or> (\<exists>u dt ds w. lt_pc (?th k) = Locking u (dt # ds) w) \<and> pc_blocked (lt_pc (?th k)) ?e" if k: "k < ?n" for k
    using stuck_asleep [OF inv k] no k by (metis pc_blocked.elims(2))
  define todo where "todo k = (case lt_pc (?th k) of Locking u dts w \<Rightarrow> length dts | _ \<Rightarrow> 0)" for k
  obtain m where m: "m < ?n" "\<not> idle (?th m)" "\<And>k. k < ?n \<Longrightarrow> \<not> idle (?th k) \<Longrightarrow> todo m \<le> todo k"
    using ex_has_least_nat [of "\<lambda>k. k < ?n \<and> \<not> idle (?th k)" i todo] i busy by blast
  obtain u dt ds w where pm: "lt_pc (?th m) = Locking u (dt # ds) w" "pc_blocked (Locking u (dt # ds) w) ?e" using lck [OF m(1)] m(2) by metis
  have ok: "thread_ok (?th k)" if "k < ?n" for k using locks_invD(3) [OF inv] that by simp
  obtain q where q: "lock_order = q @ dt # ds" using ok [OF m(1)] pm(1) by (auto simp: thread_ok_def)
  have free: "held (?th k) dt = NO_LOCK" if k: "k < ?n" for k
  proof (cases "idle (?th k)")
    case True
    then show ?thesis by (simp add: idle_def held_def)
  next
    case False
    obtain u' dts' w' where pk: "lt_pc (?th k) = Locking u' dts' w'" using lck [OF k] False by blast
    obtain p where p: "lock_order = p @ dts'" using ok [OF k] pk by (auto simp: thread_ok_def)
    have "Suc (length ds) \<le> length dts'" using m(3) [OF k False] pm(1) pk by (simp add: todo_def)
    then have "dt \<in> set dts'" by (rule suffix_contains [OF p q])
    then show ?thesis using pk by (simp add: held_def)
  qed
  have "tcnt (\<lambda>t. held t dt = l) (ls_threads s) = 0" if "l \<noteq> NO_LOCK" for l
    using free that by (auto simp: tcnt_def filter_empty_conv in_set_conv_nth)
  then have z: "?e ! read_lock dt = 0" "?e ! write_lock dt = 0" and ww: "?e ! write_wait_lock dt = tcnt (\<lambda>t. waits t dt) (ls_threads s)"
    using locks_invD(1) [OF inv] unfolding counts_ok_def by auto
  have "tcnt (\<lambda>t. waits t dt) (ls_threads s) \<noteq> 0" using pm(2) z ww by auto
  then have "0 < tcnt (\<lambda>t. waits t dt) (ls_threads s)" by (simp add: order_less_le)
  then obtain j where j: "j < ?n" "waits (?th j) dt" by (rule tcnt_posE)
  then obtain u' ds' where pj: "lt_pc (?th j) = Locking u' (dt # ds') True"
    unfolding waits_def by (cases "(lt_pc (?th j), dt)" rule: pc_waits.cases) auto
  moreover have "level_of u' dt = WRITE_LOCK" using ok [OF j(1)] pj by (auto simp: thread_ok_def)
  ultimately show False using lck [OF j(1)] z by (auto simp: idle_def)
qed

text \<open>The work a thread has left, which every step of \<open>drain\<close> reduces. A test that fails puts the
  thread to sleep; a release may wake every thread, which weighs less than the release itself.\<close>

fun pc_work :: "bool \<Rightarrow> lock_pc \<Rightarrow> nat" where
  "pc_work l Running = (if l then 7 else 0)"
| "pc_work l (Locking u dts w) = 8 + 2 * length dts + (if w then 0 else 1)"
| "pc_work l (Unlocking u dts) = 1 + length dts"

definition thread_work :: "lthread \<Rightarrow> nat" where
  "thread_work t = pc_work (slurmctld_locked t) (lt_pc t)"

definition steps_left :: "lthread list \<Rightarrow> nat" where
  "steps_left ths = (\<Sum>t\<leftarrow>ths. thread_work t)"

definition awake :: "lthread list \<Rightarrow> nat" where
  "awake ths = (\<Sum>t\<leftarrow>ths. of_bool (\<not> lt_asleep t))"

definition work :: "lsys \<Rightarrow> nat" where
  "work s = (length (ls_threads s) + 1) * steps_left (ls_threads s) + awake (ls_threads s)"

lemma sum_list_update_add:
  "i < length ths \<Longrightarrow> sum_list (map f (ths[i := t])) + f (ths ! i) = sum_list (map f ths) + (f t :: nat)"
  by (induction ths arbitrary: i) (auto simp: nth_Cons' split: nat.splits)

lemma awake_le: "awake ths \<le> length ths"
  unfolding awake_def by (induction ths) auto

text \<open>A step that leaves less to do may wake anybody; one that only falls asleep wakes nobody.\<close>

lemma work_less:
  assumes "length (ls_threads s') = length (ls_threads s)" "steps_left (ls_threads s') < steps_left (ls_threads s)"
  shows "work s' < work s"
proof -
  let ?n = "length (ls_threads s)"
  have "(?n + 1) * steps_left (ls_threads s') + awake (ls_threads s') \<le> (?n + 1) * steps_left (ls_threads s') + ?n"
    using awake_le [of "ls_threads s'"] assms(1) by simp
  also have "\<dots> < (?n + 1) * Suc (steps_left (ls_threads s'))" by simp
  also have "\<dots> \<le> (?n + 1) * steps_left (ls_threads s)" using assms(2) by (intro mult_le_mono2) simp
  finally show ?thesis unfolding work_def assms(1) by linarith
qed

lemma steps_left_update:
  assumes "i < length ths" "thread_work t < thread_work (ths ! i)"
  shows "steps_left (ths[i := t]) < steps_left ths"
  using sum_list_update_add [OF assms(1), of thread_work t] assms(2) by (simp add: steps_left_def)

lemma steps_left_wake [simp]: "steps_left (map (\<lambda>t. t\<lparr>lt_asleep := False\<rparr>) ths) = steps_left ths"
  by (simp add: steps_left_def thread_work_def comp_def)

lemma lock_work:
  assumes "lock_slurmctld u dts w e = (e', pc', b)" "pc_ok v l (Locking u dts w)"
  shows "pc_work l pc' < pc_work l (Locking u dts w) \<or> b \<and> pc_work l pc' = pc_work l (Locking u dts w)"
  using assms by (cases dts) (auto simp: Let_def split: lock_level.splits if_splits option.splits)

lemma unlock_work: "unlock_slurmctld u dts e = Some (e', pc', b) \<Longrightarrow> \<not> l \<Longrightarrow> pc_work l pc' < pc_work l (Unlocking u dts)"
  by (cases dts) (auto split: lock_level.splits)

lemma sleep_work:
  assumes i: "i < length (ls_threads s)" and a: "\<not> lt_asleep (ls_threads s ! i)"
    and w: "pc_work (slurmctld_locked (ls_threads s ! i)) pc' = thread_work (ls_threads s ! i)"
  shows "work (set_pc i s e' pc' True) < work s"
proof -
  let ?t' = "(ls_threads s ! i)\<lparr>lt_pc := pc', lt_asleep := True\<rparr>"
  have "steps_left ((ls_threads s)[i := ?t']) = steps_left (ls_threads s)"
    using sum_list_update_add [OF i, of thread_work ?t'] w by (simp add: steps_left_def thread_work_def [of ?t'])
  moreover have "awake ((ls_threads s)[i := ?t']) < awake (ls_threads s)"
    using sum_list_update_add [OF i, of "\<lambda>t. of_bool (\<not> lt_asleep t)" ?t'] a by (simp add: awake_def)
  ultimately show ?thesis by (simp add: work_def set_pc_def)
qed

lemma drain_work:
  assumes "drain s s'" "locks_inv s"
  shows "work s' < work s"
  using assms
proof (cases rule: drain.cases)
  case (drain_step i)
  have t: "thread_ok (ls_threads s ! i)" using locks_invD(3) [OF assms(2)] drain_step(1) by simp
  from drain_step(2) show ?thesis
  proof (cases rule: thread_stepE)
    case (lck u dts w e' pc' b)
    have "thread_work (ls_threads s ! i) = pc_work (slurmctld_locked (ls_threads s ! i)) (Locking u dts w)" by (simp only: thread_work_def lck(1))
    then consider "pc_work (slurmctld_locked (ls_threads s ! i)) pc' < thread_work (ls_threads s ! i)" |
        "b" "pc_work (slurmctld_locked (ls_threads s ! i)) pc' = thread_work (ls_threads s ! i)"
      using lock_work [OF lck(3)] t unfolding thread_ok_def lck(1) by metis
    then show ?thesis
    proof cases
      case 1
      then show ?thesis unfolding lck(4) using drain_step(1)
        by (intro work_less) (auto intro!: steps_left_update simp: set_pc_def thread_work_def [of "_\<lparr>lt_asleep := b\<rparr>"])
    next
      case 2
      then show ?thesis using sleep_work [OF drain_step(1) lck(2)] lck(4) by simp
    qed
  next
    case (unl u dts e' pc' b)
    have "pc_work (slurmctld_locked (ls_threads s ! i)) pc' < thread_work (ls_threads s ! i)"
      using unlock_work [OF unl(3), of "slurmctld_locked (ls_threads s ! i)"] t by (auto simp: thread_work_def thread_ok_def unl(1))
    then show ?thesis unfolding unl(4) using drain_step(1)
      by (intro work_less) (auto intro!: steps_left_update simp: wake_all_def set_pc_def thread_work_def)
  qed
next
  case (drain_unlock i)
  let ?t = "ls_threads s ! i" and ?v = "thread_locks (ls_threads s ! i)"
  have s': "s' = s\<lparr>ls_threads := (ls_threads s)[i := ?t\<lparr>slurmctld_locked := False, thread_locks := no_locks, lt_pc := Unlocking ?v unlock_order\<rparr>]\<rparr>"
    using drain_unlock by (simp add: call_step_def clear_locks_def)
  show ?thesis unfolding s' using drain_unlock
    by (intro work_less) (auto intro!: steps_left_update simp: thread_work_def unlock_order_def)
qed

lemma work_bound:
  assumes "locks_inv s" "length (ls_threads s) = n"
  shows "work s \<le> 19 * n * (n + 1) + n"
proof -
  have "thread_work t \<le> 19" if "t \<in> set (ls_threads s)" for t
  proof -
    have "thread_ok t" using locks_invD(3) [OF assms(1)] that by blast
    moreover have "length dts \<le> 5" if "lock_order = pre @ dts \<or> unlock_order = pre @ dts" for pre dts
      using that by (auto simp: lock_order_def unlock_order_def dest!: arg_cong [of _ _ length])
    ultimately show ?thesis by (cases "lt_pc t") (fastforce simp: thread_ok_def thread_work_def)+
  qed
  then have "steps_left (ls_threads s) \<le> 19 * n" unfolding steps_left_def assms(2) [symmetric]
    using sum_list_mono [of "ls_threads s" thread_work "\<lambda>_. 19"] by (simp add: sum_list_triv)
  then have "(n + 1) * steps_left (ls_threads s) \<le> (n + 1) * (19 * n)" by (rule mult_le_mono2)
  then show ?thesis unfolding work_def assms(2) using awake_le [of "ls_threads s"] assms(2) by (simp add: algebra_simps)
qed

lemma drain_chain: "(drain ^^ k) s s' \<Longrightarrow> locks_inv s \<Longrightarrow> locks_inv s' \<and> length (ls_threads s') = length (ls_threads s) \<and> k + work s' \<le> work s"
proof (induction k arbitrary: s')
  case (Suc k)
  then obtain s1 where s1: "(drain ^^ k) s s1" "drain s1 s'" by auto
  then show ?case using Suc.IH [OF s1(1) Suc.prems(2)] drain_inv [OF s1(2)] drain_work [OF s1(2)] by fastforce
qed simp

lemma idle_counters:
  assumes "locks_inv s" "\<forall>t \<in> set (ls_threads s). idle t"
  shows "ls_entity s ! read_lock d = 0 \<and> ls_entity s ! write_lock d = 0 \<and> ls_entity s ! write_wait_lock d = 0"
proof -
  have "\<forall>t \<in> set (ls_threads s). held t d = NO_LOCK \<and> \<not> waits t d" using assms(2) by (simp add: idle_def held_def waits_def)
  then have "filter (\<lambda>t. held t d = READ_LOCK) (ls_threads s) = []" "filter (\<lambda>t. held t d = WRITE_LOCK) (ls_threads s) = []"
      "filter (\<lambda>t. waits t d) (ls_threads s) = []" by (auto simp: filter_empty_conv)
  then show ?thesis using locks_invD(1) [OF assms(1)] unfolding counts_ok_def tcnt_def by (metis list.size(3) of_nat_0)
qed

lemma drains:
  assumes "locks_inv s"
  shows "\<exists>k s'. (drain ^^ k) s s' \<and> (\<forall>t \<in> set (ls_threads s'). idle t)"
  using assms
proof (induction "work s" arbitrary: s rule: less_induct)
  case less
  show ?case
  proof (cases "\<forall>t \<in> set (ls_threads s). idle t")
    case True
    then show ?thesis by (intro exI [of _ 0] exI [of _ s]) simp
  next
    case False
    then obtain i where "i < length (ls_threads s)" "\<not> idle (ls_threads s ! i)" by (auto simp: in_set_conv_nth)
    then obtain s1 where s1: "drain s s1" using locks_progress [OF less.prems] by blast
    then obtain k s' where "(drain ^^ k) s1 s'" "\<forall>t \<in> set (ls_threads s'). idle t"
      using less.hyps [OF drain_work [OF s1 less.prems]] drain_inv [OF s1 less.prems] by blast
    then show ?thesis using relpowp_Suc_I2 [of drain s s1] s1 by blast
  qed
qed

lemma waiting_writer:
  assumes inv: "locks_inv s" and d: "drain s s'" and w: "ls_entity s ! write_wait_lock dt \<noteq> 0"
  shows "ls_entity s' ! read_lock dt \<le> ls_entity s ! read_lock dt"
  using d
proof (cases rule: drain.cases)
  case (drain_step i)
  note e = locks_invD(2) [OF inv]
  from drain_step(2) show ?thesis
  proof (cases rule: thread_stepE)
    case (lck u dts wt e' pc' b)
    then show ?thesis using w e
      by (cases dts) (auto simp: wr_rdlock_def wr_wrlock_def wr_wrlock_wait_def set_pc_def Let_def nth_list_update split: lock_level.splits if_splits)
  next
    case (unl u dts e' pc' b)
    then show ?thesis using e
      by (cases dts) (auto simp: wr_rdunlock_def wr_wrunlock_def set_pc_def wake_all_def Let_def nth_list_update split: lock_level.splits if_splits)
  qed
qed (auto simp: call_step_def split: option.splits)

subsection \<open>Properties\<close>

text \<open>C2 (invariant): however the calls of any number of threads interleave, no assertion of the module fails, the
  counters are the numbers of holders and waiting writers, and a thread that runs with a write lock on
  a data type excludes every other thread from running with a lock on it.\<close>

theorem locks_exclusive:
  assumes "locks_reach n s"
  shows "(\<forall>i<n. thread_step i s \<noteq> Aborts) \<and>
    (\<forall>d. ls_entity s ! read_lock d = tcnt (\<lambda>t. held t d = READ_LOCK) (ls_threads s) \<and>
      ls_entity s ! write_lock d = tcnt (\<lambda>t. held t d = WRITE_LOCK) (ls_threads s) \<and>
      ls_entity s ! write_wait_lock d = tcnt (\<lambda>t. waits t d) (ls_threads s)) \<and>
    (\<forall>i<n. \<forall>j<n. \<forall>d. i \<noteq> j \<and> lt_pc (ls_threads s ! i) = Running \<and> lt_pc (ls_threads s ! j) = Running \<and>
      verify_lock d WRITE_LOCK (ls_threads s ! i) \<longrightarrow> \<not> verify_lock d READ_LOCK (ls_threads s ! j))"
proof (intro conjI allI impI)
  have inv: "locks_inv s" "length (ls_threads s) = n" using locks_reach_inv [OF assms] by blast+
  show "thread_step i s \<noteq> Aborts" if "i < n" for i using inv_no_abort [OF inv(1)] inv(2) that by simp
  show "ls_entity s ! read_lock d = tcnt (\<lambda>t. held t d = READ_LOCK) (ls_threads s)"
    "ls_entity s ! write_lock d = tcnt (\<lambda>t. held t d = WRITE_LOCK) (ls_threads s)"
    "ls_entity s ! write_wait_lock d = tcnt (\<lambda>t. waits t d) (ls_threads s)" for d
    using locks_invD(1) [OF inv(1)] unfolding counts_ok_def by blast+
  fix i j d
  assume ij: "i < n" "j < n" "i \<noteq> j \<and> lt_pc (ls_threads s ! i) = Running \<and> lt_pc (ls_threads s ! j) = Running \<and>
      verify_lock d WRITE_LOCK (ls_threads s ! i)"
  have r: "held (ls_threads s ! k) d = level_of (thread_locks (ls_threads s ! k)) d" if "k < n" "lt_pc (ls_threads s ! k) = Running" for k
  proof -
    have "thread_ok (ls_threads s ! k)" using locks_invD(3) [OF inv(1)] that inv(2) by simp
    then show ?thesis using that by (auto simp: held_def thread_ok_def)
  qed
  have "held (ls_threads s ! i) d = WRITE_LOCK" using ij r [OF ij(1)]
    by (cases "level_of (thread_locks (ls_threads s ! i)) d") (auto simp: verify_lock_def)
  then have "held (ls_threads s ! j) d = NO_LOCK" using inv_exclusive [OF inv(1)] inv(2) ij by simp
  then show "\<not> verify_lock d READ_LOCK (ls_threads s ! j)" using r [OF ij(2)] ij by (simp add: verify_lock_def)
qed

text \<open>C12 (liveness): the order of the locks and the broadcasts of the unlock functions prevent deadlock and lost
  wake-ups. From every state that \<open>n\<close> threads reach, with some of them asleep on the condition variable,
  threads that make no new requests finish after at most \<open>19 * n * (n + 1) + n\<close> steps, whatever the
  scheduling: a state in which no awake thread has a step has every thread idle and all counters zero, so
  nobody is left asleep; and such a state can be reached.\<close>

theorem locks_drain:
  assumes "locks_reach n s"
  shows "(\<exists>k s'. (drain ^^ k) s s' \<and> (\<forall>t \<in> set (ls_threads s'). idle t)) \<and>
    (\<forall>k s'. (drain ^^ k) s s' \<longrightarrow> k \<le> 19 * n * (n + 1) + n \<and>
      ((\<nexists>s''. drain s' s'') \<longrightarrow> (\<forall>t \<in> set (ls_threads s'). idle t \<and> \<not> lt_asleep t) \<and>
        (\<forall>d. ls_entity s' ! read_lock d = 0 \<and> ls_entity s' ! write_lock d = 0 \<and> ls_entity s' ! write_wait_lock d = 0)))"
proof (intro conjI allI impI ballI)
  have inv: "locks_inv s" "length (ls_threads s) = n" using locks_reach_inv [OF assms] by blast+
  show "\<exists>k s'. (drain ^^ k) s s' \<and> (\<forall>t \<in> set (ls_threads s'). idle t)" by (rule drains [OF inv(1)])
  fix k s'
  assume "(drain ^^ k) s s'"
  then have k: "locks_inv s'" "k + work s' \<le> work s" using drain_chain inv(1) by blast+
  then show "k \<le> 19 * n * (n + 1) + n" using work_bound [OF inv] by simp
  assume no: "\<nexists>s''. drain s' s''"
  have id: "\<forall>t \<in> set (ls_threads s'). idle t" using locks_progress [OF k(1)] no by (metis in_set_conv_nth)
  show "ls_entity s' ! read_lock d = 0" "ls_entity s' ! write_lock d = 0" "ls_entity s' ! write_wait_lock d = 0" for d
    using idle_counters [OF k(1) id] by blast+
  fix t
  assume "t \<in> set (ls_threads s')"
  then show "idle t" "\<not> lt_asleep t" using id locks_invD(4) [OF k(1)] by (auto simp: idle_def sleep_ok_def)
qed

text \<open>Writers have priority: while a writer waits for a data type, no step of any thread adds a
  reader of it.\<close>

theorem locks_writer_priority:
  assumes "locks_reach n s" "drain s s'" "ls_entity s ! write_wait_lock d \<noteq> 0"
  shows "ls_entity s' ! read_lock d \<le> ls_entity s ! read_lock d"
  using waiting_writer [OF _ assms(2,3)] locks_reach_inv [OF assms(1)] by blast

text \<open>Two threads: the first has a read lock on the jobs, the second waits for a write lock on them.\<close>

definition read_jobs :: slurmctld_lock where
  "read_jobs = no_locks\<lparr>lk_job := READ_LOCK\<rparr>"

definition write_jobs :: slurmctld_lock where
  "write_jobs = no_locks\<lparr>lk_job := WRITE_LOCK\<rparr>"

fun run_threads :: "nat list \<Rightarrow> lsys \<Rightarrow> lsys option" where
  "run_threads [] s = Some s"
| "run_threads (i # is) s = (if i < length (ls_threads s) then (case thread_step i s of Goes s' \<Rightarrow> run_threads is s' | _ \<Rightarrow> None) else None)"

lemma run_threads_reach: "run_threads is s = Some s' \<Longrightarrow> locks_reach n s \<Longrightarrow> locks_reach n s'"
  by (induction "is" s rule: run_threads.induct) (auto split: if_splits lresult.splits intro: reach_drain drain_step)

definition waiting_state :: lsys where
  "waiting_state = \<lparr>ls_entity = init_locks[read_lock JOB_LOCK := 1, write_wait_lock JOB_LOCK := 1],
     ls_threads = [\<lparr>slurmctld_locked = True, thread_locks = read_jobs, lt_pc = Running, lt_asleep = False\<rparr>,
       \<lparr>slurmctld_locked = True, thread_locks = write_jobs, lt_pc = Locking write_jobs [JOB_LOCK, NODE_LOCK, PART_LOCK, FED_LOCK] True,
          lt_asleep = True\<rparr>]\<rparr>"

lemma waiting_reach: "locks_reach 2 waiting_state"
proof -
  define s0 where "s0 = \<lparr>ls_entity = init_locks, ls_threads = replicate 2 new_thread\<rparr>"
  define s1 where "s1 = s0\<lparr>ls_threads := [\<lparr>slurmctld_locked = True, thread_locks = read_jobs, lt_pc = Locking read_jobs lock_order False, lt_asleep = False\<rparr>, new_thread]\<rparr>"
  define s2 where "s2 = s1\<lparr>ls_threads := (ls_threads s1)[1 := \<lparr>slurmctld_locked = True, thread_locks = write_jobs, lt_pc = Locking write_jobs lock_order False, lt_asleep = False\<rparr>]\<rparr>"
  note defs = s0_def s1_def s2_def new_thread_def call_step_def store_locks_def numeral_2_eq_2
  have "locks_reach 2 s0" unfolding s0_def by (rule reach_init)
  then have "locks_reach 2 s1" by (rule reach_lock [of _ _ 0 read_jobs]) (simp_all add: defs)
  then have r: "locks_reach 2 s2" by (rule reach_lock [of _ _ 1 write_jobs]) (simp_all add: defs)
  have "run_threads [0, 0, 0, 0, 0, 0, 1, 1] s2 = Some waiting_state"
    by (simp add: defs thread_step_def set_pc_def read_jobs_def write_jobs_def no_locks_def lock_order_def wr_rdlock_def wr_wrlock_def wr_wrlock_wait_def
        read_lock_def write_lock_def write_wait_lock_def write_cnt_lock_def init_locks_def ENTITY_COUNT_def waiting_state_def Let_def eval_nat_numeral)
  then show ?thesis using r by (rule run_threads_reach)
qed

theorem locks_exclusive_witness:
  "locks_reach 2 waiting_state \<and> thread_step 1 waiting_state \<noteq> Aborts \<and> ls_entity waiting_state ! read_lock JOB_LOCK = 1"
proof -
  have "ls_entity waiting_state ! read_lock JOB_LOCK = 1" by (simp add: waiting_state_def init_locks_def ENTITY_COUNT_def)
  moreover have "thread_step 1 waiting_state \<noteq> Aborts" using locks_exclusive [OF waiting_reach] by simp
  ultimately show ?thesis using waiting_reach by blast
qed

theorem locks_drain_witness:
  "locks_reach 2 waiting_state \<and> (\<exists>k s'. (drain ^^ k) waiting_state s' \<and> (\<forall>t \<in> set (ls_threads s'). idle t))"
  using locks_drain [OF waiting_reach] waiting_reach by blast

theorem locks_writer_priority_witness:
  "\<exists>s'. drain waiting_state s' \<and> ls_entity s' ! read_lock JOB_LOCK \<le> 1"
proof -
  have w: "ls_entity waiting_state ! write_wait_lock JOB_LOCK \<noteq> 0" "ls_entity waiting_state ! read_lock JOB_LOCK = 1"
    by (simp_all add: waiting_state_def init_locks_def ENTITY_COUNT_def)
  have "\<not> idle (ls_threads waiting_state ! 0)" "0 < length (ls_threads waiting_state)" by (simp_all add: waiting_state_def idle_def)
  then obtain s' where "drain waiting_state s'" using locks_progress locks_reach_inv [OF waiting_reach] by metis
  then show ?thesis using locks_writer_priority [OF waiting_reach _ w(1)] w(2) by auto
qed

end
