(* ===== verification/Licenses.thy ===== *)
theory Licenses
  imports Pack
begin

section \<open>Licenses (\<open>slurmctld/licenses.c\<close>)\<close>

text \<open>
  The controller counts the licenses in use. Lists are HOL lists, as \<open>List_Refine\<close> justifies, and a null list is \<open>None\<close>;
  names are never null. Each function runs under \<open>license_mutex\<close> and is one step. \<open>None\<close> as a result is
  \<open>fatal\<close>, a failed assertion or a null pointer. The time is an argument. Of other components the functions ask for the
  licenses held by reservations (\<open>job_test_lic_resv\<close>) and for positions in arrays of trackable resources
  (\<open>assoc_mgr_find_tres_pos\<close>, \<open>-1\<close> if not tracked); the answers are arguments.
\<close>

record license =
  lc_name :: string
  lc_total :: u32
  lc_used :: u32
  lc_remote :: byte

record lic_state =
  license_list :: "license list option"
  last_license_update :: int

record res_rec =
  rr_name :: string
  rr_server :: string
  rr_is_license :: bool
  rr_count :: u32
  rr_percent :: "u16 option"

datatype lic_rc = LIC_SUCCESS | LIC_EAGAIN | LIC_ERROR

definition new_license :: "string \<Rightarrow> u32 \<Rightarrow> license" where
  "new_license name n = \<lparr>lc_name = name, lc_total = n, lc_used = 0, lc_remote = 0\<rparr>"

subsection \<open>Finding and changing records\<close>

definition license_find_rec :: "license \<Rightarrow> string \<Rightarrow> bool" where
  "license_find_rec l key \<longleftrightarrow> lc_name l = key"

definition license_find_remote_rec :: "license \<Rightarrow> string \<Rightarrow> bool" where
  "license_find_remote_rec l key \<longleftrightarrow> lc_remote l \<noteq> 0 \<and> license_find_rec l key"

text \<open>\<open>list_find_first\<close>, and an assignment through the pointer it returns.\<close>

fun lic_find :: "(license \<Rightarrow> bool) \<Rightarrow> license list \<Rightarrow> license option" where
  "lic_find P [] = None"
| "lic_find P (l # ls) = (if P l then Some l else lic_find P ls)"

fun lic_change :: "(license \<Rightarrow> bool) \<Rightarrow> (license \<Rightarrow> license) \<Rightarrow> license list \<Rightarrow> license list" where
  "lic_change P f [] = []"
| "lic_change P f (l # ls) = (if P l then f l # ls else l # lic_change P f ls)"

subsection \<open>Text\<close>

text \<open>\<open>strtok_r\<close> with the delimiters comma and semicolon: empty tokens are skipped.\<close>

definition is_sep :: "char \<Rightarrow> bool" where
  "is_sep c \<longleftrightarrow> c = CHR '','' \<or> c = CHR '';''"

function lic_tokens :: "string \<Rightarrow> string list" where
  "lic_tokens s = (let s = dropWhile is_sep s in
     if s = [] then [] else takeWhile (\<lambda>c. \<not> is_sep c) s # lic_tokens (dropWhile (\<lambda>c. \<not> is_sep c) s))"
  by pat_completeness auto
termination
proof (relation "measure length", simp)
  fix s xa :: string
  assume x: "xa = dropWhile is_sep s" "xa \<noteq> []"
  then have "\<not> is_sep (hd xa)" by (metis hd_dropWhile)
  then have "dropWhile (\<lambda>c. \<not> is_sep c) xa = dropWhile (\<lambda>c. \<not> is_sep c) (tl xa)" using x(2) by (cases xa) auto
  then have "length (dropWhile (\<lambda>c. \<not> is_sep c) xa) < length xa" using x(2) by (cases xa) (auto simp: le_imp_less_Suc length_dropWhile_le)
  also have "\<dots> \<le> length s" using x(1) by (simp add: length_dropWhile_le)
  finally show "(dropWhile (\<lambda>c. \<not> is_sep c) xa, s) \<in> measure length" by simp
qed

declare lic_tokens.simps [simp del]

definition is_space :: "char \<Rightarrow> bool" where
  "is_space c \<longleftrightarrow> of_char c \<in> {9, 10, 11, 12, 13, 32 :: nat}"

text \<open>The \<open>for\<close> loop over a token: its name and count, if it is valid.\<close>

fun scan_token :: "string \<Rightarrow> string \<Rightarrow> (string \<times> int) option" where
  "scan_token name [] = Some (name, 1)"
| "scan_token name (c # cs) =
     (if is_space c then None
      else if c = CHR '':'' \<or> c = CHR ''*'' then
        let (v, end_num) = strtol cs in if end_num \<noteq> [] then None else Some (name, s32 v)
      else scan_token (name @ [c]) cs)"

definition add_entry :: "string \<Rightarrow> int \<Rightarrow> license list \<Rightarrow> license list" where
  "add_entry name num ls = (case lic_find (\<lambda>l. license_find_rec l name) ls of
     Some _ \<Rightarrow> lic_change (\<lambda>l. license_find_rec l name) (\<lambda>l. l\<lparr>lc_total := lc_total l + of_int num\<rparr>) ls
   | None \<Rightarrow> new_license name (of_int num) # ls)"

fun build_loop :: "string list \<Rightarrow> license list \<Rightarrow> license list option" where
  "build_loop [] ls = Some ls"
| "build_loop (tok # toks) ls = (case scan_token [] tok of
     None \<Rightarrow> None
   | Some (name, num) \<Rightarrow> if num < 0 then None else build_loop toks (add_entry name num ls))"

text \<open>The list and \<open>valid\<close>.\<close>

definition build_license_list :: "string option \<Rightarrow> license list option \<times> bool" where
  "build_license_list licenses = (case licenses of
     None \<Rightarrow> (None, True)
   | Some s \<Rightarrow> if s = [] then (None, True)
       else case build_loop (lic_tokens s) [] of None \<Rightarrow> (None, False) | Some ls \<Rightarrow> (Some ls, True))"

definition show_u32 :: "u32 \<Rightarrow> string" where
  "show_u32 w = show_nat (unat w)"

text \<open>Each entry goes through a buffer of 128 bytes.\<close>

fun build_string_loop :: "license list \<Rightarrow> string option \<Rightarrow> string option" where
  "build_string_loop [] str = str"
| "build_string_loop (l # ls) str = build_string_loop ls (Some (case str of
     None \<Rightarrow> take 127 (lc_name l @ ''*'' @ show_u32 (lc_total l))
   | Some s \<Rightarrow> s @ take 127 ('','' @ lc_name l @ ''*'' @ show_u32 (lc_total l))))"

definition build_license_string :: "license list option \<Rightarrow> string option" where
  "build_license_string ll = (case ll of None \<Rightarrow> None | Some ls \<Rightarrow> build_string_loop ls None)"

fun used_string_loop :: "license list \<Rightarrow> string option \<Rightarrow> string option" where
  "used_string_loop [] str = str"
| "used_string_loop (l # ls) str = used_string_loop ls (Some ((case str of None \<Rightarrow> '''' | Some s \<Rightarrow> s @ '','') @
     lc_name l @ '':'' @ show_u32 (lc_used l) @ ''/'' @ show_u32 (lc_total l)))"

definition get_licenses_used :: "lic_state \<Rightarrow> string option" where
  "get_licenses_used st = (case license_list st of None \<Rightarrow> None | Some ls \<Rightarrow> used_string_loop ls None)"

subsection \<open>The licenses of the system\<close>

definition license_init :: "int \<Rightarrow> string option \<Rightarrow> lic_state \<Rightarrow> lic_state option" where
  "license_init now licenses st = do {
     c_assert (license_list st = None);
     let (ll, valid) = build_license_list licenses;
     c_assert valid;
     Some (st\<lparr>license_list := ll, last_license_update := now\<rparr>)
   }"

definition license_update :: "string option \<Rightarrow> lic_state \<Rightarrow> lic_state option" where
  "license_update licenses st = do {
     let (new_list, valid) = build_license_list licenses;
     c_assert valid;
     Some (case license_list st of
         None \<Rightarrow> st\<lparr>license_list := new_list\<rparr>
       | Some ls \<Rightarrow> (let remote = map (\<lambda>l. l\<lparr>lc_used := 0\<rparr>) (filter (\<lambda>l. lc_remote l \<noteq> 0) ls) in
           st\<lparr>license_list := (if remote = [] then new_list
                               else Some ((case new_list of None \<Rightarrow> [] | Some ns \<Rightarrow> ns) @ remote))\<rparr>))
   }"

definition license_free :: "lic_state \<Rightarrow> lic_state" where
  "license_free st = st\<lparr>license_list := None\<rparr>"

subsection \<open>Remote licenses\<close>

definition res_name :: "res_rec \<Rightarrow> string" where
  "res_name rec = rr_name rec @ ''@'' @ rr_server rec"

text \<open>The allowed share, in 32 bits.\<close>

definition res_total :: "res_rec \<Rightarrow> u32 option" where
  "res_total rec = map_option (\<lambda>p. (rr_count rec * ucast p) div 100) (rr_percent rec)"

definition add_res_rec :: "int \<Rightarrow> res_rec \<Rightarrow> bool \<Rightarrow> lic_state \<Rightarrow> lic_state option" where
  "add_res_rec now rec sync st = do {
     n \<leftarrow> res_total rec;
     ls \<leftarrow> license_list st;
     Some (st\<lparr>license_list := Some (\<lparr>lc_name = res_name rec, lc_total = n, lc_used = 0, lc_remote = (if sync then 2 else 1)\<rparr> # ls),
              last_license_update := now\<rparr>)
   }"

definition need_list :: "lic_state \<Rightarrow> lic_state option" where
  "need_list st = (if license_list st = None
     then do { c_assert (last_license_update st \<noteq> 0); Some (st\<lparr>license_list := Some []\<rparr>) } else Some st)"

definition license_add_remote :: "int \<Rightarrow> res_rec \<Rightarrow> lic_state \<Rightarrow> lic_state option" where
  "license_add_remote now rec st = do {
     c_assert (rr_is_license rec);
     st \<leftarrow> need_list st;
     ls \<leftarrow> license_list st;
     (case lic_find (\<lambda>l. license_find_remote_rec l (res_name rec)) ls of
        Some _ \<Rightarrow> Some st
      | None \<Rightarrow> add_res_rec now rec False st)
   }"

definition license_update_remote :: "int \<Rightarrow> res_rec \<Rightarrow> lic_state \<Rightarrow> lic_state option" where
  "license_update_remote now rec st = do {
     c_assert (rr_percent rec \<noteq> None);
     c_assert (rr_is_license rec);
     st \<leftarrow> need_list st;
     ls \<leftarrow> license_list st;
     st \<leftarrow> (case lic_find (\<lambda>l. license_find_remote_rec l (res_name rec)) ls of
        None \<Rightarrow> add_res_rec now rec False st
      | Some _ \<Rightarrow> do {
          n \<leftarrow> res_total rec;
          Some (st\<lparr>license_list := Some (lic_change (\<lambda>l. license_find_remote_rec l (res_name rec)) (\<lambda>l. l\<lparr>lc_total := n\<rparr>) ls)\<rparr>)
        });
     Some (st\<lparr>last_license_update := now\<rparr>)
   }"

fun remove_first :: "('a \<Rightarrow> bool) \<Rightarrow> 'a list \<Rightarrow> 'a list" where
  "remove_first P [] = []"
| "remove_first P (x # xs) = (if P x then xs else x # remove_first P xs)"

definition license_remove_remote :: "int \<Rightarrow> res_rec \<Rightarrow> lic_state \<Rightarrow> lic_state option" where
  "license_remove_remote now rec st = do {
     c_assert (rr_is_license rec);
     st \<leftarrow> need_list st;
     ls \<leftarrow> license_list st;
     (case lic_find (\<lambda>l. license_find_remote_rec l (res_name rec)) ls of
        None \<Rightarrow> Some st
      | Some _ \<Rightarrow> Some (st\<lparr>license_list := Some (remove_first (\<lambda>l. license_find_remote_rec l (res_name rec)) ls), last_license_update := now\<rparr>))
   }"

fun sync_loop :: "int \<Rightarrow> res_rec list \<Rightarrow> lic_state \<Rightarrow> lic_state option" where
  "sync_loop now [] st = Some st"
| "sync_loop now (rec # recs) st =
     (if \<not> rr_is_license rec then sync_loop now recs st
      else do {
        ls \<leftarrow> license_list st;
        st \<leftarrow> (case lic_find (\<lambda>l. license_find_remote_rec l (res_name rec)) ls of
           Some _ \<Rightarrow> do {
             n \<leftarrow> res_total rec;
             Some (st\<lparr>license_list := Some (lic_change (\<lambda>l. license_find_remote_rec l (res_name rec)) (\<lambda>l. l\<lparr>lc_remote := 2, lc_total := n\<rparr>) ls),
                      last_license_update := now\<rparr>)
           }
         | None \<Rightarrow> add_res_rec now rec True st);
        sync_loop now recs st
      })"

text \<open>The last loop: records that were not marked are deleted, the marks are taken back.\<close>

fun sweep_loop :: "license list \<Rightarrow> license list" where
  "sweep_loop [] = []"
| "sweep_loop (l # ls) =
     (if lc_remote l = 0 then l # sweep_loop ls
      else if lc_remote l = 1 then sweep_loop ls
      else if lc_remote l = 2 then l\<lparr>lc_remote := 1\<rparr> # sweep_loop ls
      else l # sweep_loop ls)"

definition license_sync_remote :: "int \<Rightarrow> res_rec list option \<Rightarrow> lic_state \<Rightarrow> lic_state option" where
  "license_sync_remote now res_list st = do {
     st \<leftarrow> (if res_list \<noteq> None then need_list st else Some st);
     c_assert (license_list st \<noteq> None);
     st \<leftarrow> (case res_list of None \<Rightarrow> Some st | Some recs \<Rightarrow> sync_loop now recs st);
     ls \<leftarrow> license_list st;
     Some (st\<lparr>license_list := Some (sweep_loop ls),
              last_license_update := (if \<exists>l \<in> set ls. lc_remote l = 1 then now else last_license_update st)\<rparr>)
   }"

subsection \<open>The licenses of jobs\<close>

definition set_tres :: "(string \<Rightarrow> int) \<Rightarrow> license \<Rightarrow> u64 list \<Rightarrow> u64 list option" where
  "set_tres find_tres_pos l cnt = (if find_tres_pos (lc_name l) \<noteq> - 1 then c_wr cnt (find_tres_pos (lc_name l)) (ucast (lc_total l)) else Some cnt)"

fun validate_loop :: "(string \<Rightarrow> int) \<Rightarrow> license list option \<Rightarrow> license list \<Rightarrow> u64 list option \<Rightarrow> (bool \<times> u64 list option) option" where
  "validate_loop find_tres_pos ll [] tres = Some (True, tres)"
| "validate_loop find_tres_pos ll (j # js) tres =
     (case (case ll of None \<Rightarrow> None | Some ls \<Rightarrow> lic_find (\<lambda>l. license_find_rec l (lc_name j)) ls) of
        None \<Rightarrow> Some (False, tres)
      | Some m \<Rightarrow>
          if lc_total j > lc_total m then Some (False, tres)
          else do {
            tres \<leftarrow> (case tres of None \<Rightarrow> Some None | Some cnt \<Rightarrow> map_option Some (set_tres find_tres_pos j cnt));
            validate_loop find_tres_pos ll js tres
          })"

text \<open>The list, \<open>valid\<close> and the counts of trackable resources.\<close>

definition license_validate :: "(string \<Rightarrow> int) \<Rightarrow> string option \<Rightarrow> u64 list option \<Rightarrow> lic_state \<Rightarrow> (license list option \<times> bool \<times> u64 list option) option" where
  "license_validate find_tres_pos licenses tres st = (case build_license_list licenses of
     (None, valid) \<Rightarrow> Some (None, valid, tres)
   | (Some js, _) \<Rightarrow> do {
       (valid, tres) \<leftarrow> validate_loop find_tres_pos (license_list st) js tres;
       Some (if valid then Some js else None, valid, tres)
     })"

definition license_job_merge :: "string option \<Rightarrow> license list option \<times> string option" where
  "license_job_merge licenses = (let (ll, _) = build_license_list licenses in (ll, build_license_string ll))"

text \<open>\<open>list_find_first\<close> asserts that the list is not null. The sums are taken in \<open>uint32_t\<close>.\<close>

fun test_loop :: "(string \<Rightarrow> u32) \<Rightarrow> license list option \<Rightarrow> license list \<Rightarrow> lic_rc option" where
  "test_loop lic_resv ll [] = Some LIC_SUCCESS"
| "test_loop lic_resv ll (j # js) = do {
     ls \<leftarrow> ll;
     (case lic_find (\<lambda>l. license_find_rec l (lc_name j)) ls of
        None \<Rightarrow> Some LIC_ERROR
      | Some m \<Rightarrow>
          if lc_total j > lc_total m then Some LIC_ERROR
          else if lc_total j + lc_used m > lc_total m then Some LIC_EAGAIN
          else if lc_total j + lc_used m + lic_resv (lc_name j) > lc_total m then Some LIC_EAGAIN
          else test_loop lic_resv ll js)
   }"

definition license_job_test :: "(string \<Rightarrow> u32) \<Rightarrow> license list option \<Rightarrow> lic_state \<Rightarrow> lic_rc option" where
  "license_job_test lic_resv job_list st = (case job_list of
     None \<Rightarrow> Some LIC_SUCCESS
   | Some js \<Rightarrow> test_loop lic_resv (license_list st) js)"

definition license_job_copy :: "license list option \<Rightarrow> license list option" where
  "license_job_copy src = map_option (\<lambda>ls. rev (map (\<lambda>l. new_license (lc_name l) (lc_total l)) ls)) src"

text \<open>The loops return the licenses of the system, those of the job and whether there was no error.\<close>

fun get_loop :: "license list option \<Rightarrow> license list \<Rightarrow> (license list option \<times> license list \<times> bool) option" where
  "get_loop ll [] = Some (ll, [], True)"
| "get_loop ll (j # js) = do {
     ls \<leftarrow> ll;
     (case lic_find (\<lambda>l. license_find_rec l (lc_name j)) ls of
        Some _ \<Rightarrow> do {
          (ll, js, ok) \<leftarrow> get_loop (Some (lic_change (\<lambda>l. license_find_rec l (lc_name j)) (\<lambda>l. l\<lparr>lc_used := lc_used l + lc_total j\<rparr>) ls)) js;
          Some (ll, j\<lparr>lc_used := lc_used j + lc_total j\<rparr> # js, ok)
        }
      | None \<Rightarrow> do {
          (ll, js, ok) \<leftarrow> get_loop ll js;
          Some (ll, j # js, False)
        })
   }"

definition license_job_get :: "int \<Rightarrow> license list option \<Rightarrow> lic_state \<Rightarrow> (lic_state \<times> license list option \<times> lic_rc) option" where
  "license_job_get now job_list st = (case job_list of
     None \<Rightarrow> Some (st, None, LIC_SUCCESS)
   | Some js \<Rightarrow> do {
       (ll, js, ok) \<leftarrow> get_loop (license_list st) js;
       Some (st\<lparr>license_list := ll, last_license_update := now\<rparr>, Some js, if ok then LIC_SUCCESS else LIC_ERROR)
     })"

fun return_loop :: "license list option \<Rightarrow> license list \<Rightarrow> (license list option \<times> license list \<times> bool) option" where
  "return_loop ll [] = Some (ll, [], True)"
| "return_loop ll (j # js) = do {
     ls \<leftarrow> ll;
     (case lic_find (\<lambda>l. license_find_rec l (lc_name j)) ls of
        Some m \<Rightarrow> do {
          let f = (\<lambda>l. l\<lparr>lc_used := (if lc_used m \<ge> lc_total j then lc_used l - lc_total j else 0)\<rparr>);
          (ll, js, ok) \<leftarrow> return_loop (Some (lic_change (\<lambda>l. license_find_rec l (lc_name j)) f ls)) js;
          Some (ll, j\<lparr>lc_used := 0\<rparr> # js, ok \<and> lc_used m \<ge> lc_total j)
        }
      | None \<Rightarrow> do {
          (ll, js, ok) \<leftarrow> return_loop ll js;
          Some (ll, j # js, ok)
        })
   }"

definition license_job_return :: "int \<Rightarrow> license list option \<Rightarrow> lic_state \<Rightarrow> (lic_state \<times> license list option \<times> lic_rc) option" where
  "license_job_return now job_list st = (case job_list of
     None \<Rightarrow> Some (st, None, LIC_SUCCESS)
   | Some js \<Rightarrow> do {
       (ll, js, ok) \<leftarrow> return_loop (license_list st) js;
       Some (st\<lparr>license_list := ll, last_license_update := now\<rparr>, Some js, if ok then LIC_SUCCESS else LIC_ERROR)
     })"

definition license_list_overlap :: "license list option \<Rightarrow> license list option \<Rightarrow> bool" where
  "license_list_overlap list_1 list_2 = (case (list_1, list_2) of
     (Some l1, Some l2) \<Rightarrow> list_ex (\<lambda>j. lic_find (\<lambda>l. license_find_rec l (lc_name j)) l2 \<noteq> None) l1
   | _ \<Rightarrow> False)"

definition get_total_license_cnt :: "string \<Rightarrow> lic_state \<Rightarrow> u32" where
  "get_total_license_cnt name st = (case license_list st of
     None \<Rightarrow> 0
   | Some ls \<Rightarrow> (case lic_find (\<lambda>l. license_find_rec l name) ls of Some l \<Rightarrow> lc_total l | None \<Rightarrow> 0))"

fun tres_loop :: "(string \<Rightarrow> int) \<Rightarrow> license list \<Rightarrow> u64 list \<Rightarrow> u64 list option" where
  "tres_loop find_tres_pos [] cnt = Some cnt"
| "tres_loop find_tres_pos (l # ls) cnt = do { cnt \<leftarrow> set_tres find_tres_pos l cnt; tres_loop find_tres_pos ls cnt }"

definition license_set_job_tres_cnt :: "(string \<Rightarrow> int) \<Rightarrow> license list option \<Rightarrow> u64 list option \<Rightarrow> u64 list option option" where
  "license_set_job_tres_cnt find_tres_pos ll tres = (case (ll, tres) of
     (Some ls, Some cnt) \<Rightarrow> map_option Some (tres_loop find_tres_pos ls cnt)
   | _ \<Rightarrow> Some tres)"

subsection \<open>The message with all licenses\<close>

definition SLURM_MIN_PROTOCOL_VERSION :: u16 where
  "SLURM_MIN_PROTOCOL_VERSION = 30 * 256"

text \<open>For a version that is not supported the code only logs an error.\<close>

definition pack_license :: "u16 \<Rightarrow> license \<Rightarrow> slurm_buf \<Rightarrow> slurm_buf option" where
  "pack_license protocol_version l b =
     (if SLURM_MIN_PROTOCOL_VERSION \<le> protocol_version then do {
        b \<leftarrow> packstr (Some (lc_name l)) b;
        b \<leftarrow> pack32 (lc_total l) b;
        b \<leftarrow> pack32 (lc_used l) b;
        pack8 (lc_remote l) b
      } else Some b)"

text \<open>The count is packed as zero first and overwritten at the end; the result is the array and the number of bytes in use.\<close>

definition get_all_license_info :: "u16 \<Rightarrow> int \<Rightarrow> lic_state \<Rightarrow> (byte list \<times> u32) option" where
  "get_all_license_info protocol_version now st = do {
     b \<leftarrow> init_buf BUF_SIZE;
     b \<leftarrow> pack32 0 b;
     b \<leftarrow> pack_time now b;
     let ls = (case license_list st of None \<Rightarrow> [] | Some ls \<Rightarrow> ls);
     b \<leftarrow> pack_each (pack_license protocol_version) ls b;
     let tmp_offset = buf_processed b;
     b \<leftarrow> pack32 (of_nat (length ls)) (b\<lparr>buf_processed := 0\<rparr>);
     let b = b\<lparr>buf_processed := tmp_offset\<rparr>;
     dat \<leftarrow> xfer_buf_data b;
     Some (dat, buf_processed b)
   }"

end
