(* ===== verification/License_Props.thy ===== *)
theory License_Props
  imports Licenses
begin

section \<open>What the license functions promise\<close>

text \<open>
  Lists made from text have every name once; \<open>license_job_get\<close> and \<open>license_job_return\<close> are additions and subtractions on
  such lists; a step relation of jobs that start and end keeps the counts exact; the text of a list is read back; and
  \<open>license_sync_remote\<close> is a simple function of the old list and the resources.
\<close>

subsection \<open>Lists of records with distinct names\<close>

definition lic_names :: "license list \<Rightarrow> string list" where
  "lic_names ls = map lc_name ls"

definition demand :: "string \<Rightarrow> license list \<Rightarrow> nat" where
  "demand n js = sum_list (map (\<lambda>j. if lc_name j = n then unat (lc_total j) else 0) js)"

lemma demand_simps [simp]:
  "demand n [] = 0"
  "demand n (j # js) = (if lc_name j = n then unat (lc_total j) else 0) + demand n js"
  by (simp_all add: demand_def)

lemma lic_names_simps [simp]: "lic_names [] = []" "lic_names (l # ls) = lc_name l # lic_names ls"
  by (simp_all add: lic_names_def)

lemma lic_find_SomeD: "lic_find P ls = Some l \<Longrightarrow> l \<in> set ls \<and> P l"
  by (induction ls) (auto split: if_splits)

lemma lic_find_None: "lic_find P ls = None \<longleftrightarrow> (\<forall>l \<in> set ls. \<not> P l)"
  by (induction ls) auto

lemma lic_find_ex: "l \<in> set ls \<Longrightarrow> P l \<Longrightarrow> \<exists>m. lic_find P ls = Some m \<and> m \<in> set ls \<and> P m"
  using lic_find_None [of P ls] lic_find_SomeD [of P ls] by (cases "lic_find P ls") auto

lemma names_in: "n \<in> set (lic_names ls) \<longleftrightarrow> (\<exists>l \<in> set ls. lc_name l = n)"
  by (auto simp: lic_names_def)

lemma names_unique: "distinct (lic_names ls) \<Longrightarrow> l \<in> set ls \<Longrightarrow> m \<in> set ls \<Longrightarrow> lc_name l = lc_name m \<Longrightarrow> l = m"
  by (auto simp: lic_names_def distinct_map inj_on_def)

lemma lic_find_name:
  assumes "distinct (lic_names ls)" "l \<in> set ls"
  shows "lic_find (\<lambda>m. license_find_rec m (lc_name l)) ls = Some l"
  using lic_find_ex [of l ls "\<lambda>m. license_find_rec m (lc_name l)"] names_unique [OF assms(1)] assms(2)
  by (auto simp: license_find_rec_def)

lemma lic_change_map:
  "distinct (lic_names ls) \<Longrightarrow>
   lic_change (\<lambda>l. license_find_rec l n) f ls = map (\<lambda>l. if lc_name l = n then f l else l) ls"
proof (induction ls)
  case (Cons l ls)
  then have "lc_name l = n \<Longrightarrow> map (\<lambda>l. if lc_name l = n then f l else l) ls = ls"
    by (intro map_idI) (auto simp: names_in)
  then show ?case using Cons by (auto simp: license_find_rec_def)
qed simp

lemma lic_names_map [simp]: "(\<And>l. lc_name (g l) = lc_name l) \<Longrightarrow> lic_names (map g ls) = lic_names ls"
  by (simp add: lic_names_def comp_def)

subsection \<open>Taking and returning\<close>

definition take_used :: "license list \<Rightarrow> license \<Rightarrow> license" where
  "take_used js l = l\<lparr>lc_used := lc_used l + of_nat (demand (lc_name l) js)\<rparr>"

definition give_used :: "license list \<Rightarrow> license \<Rightarrow> license" where
  "give_used js l = l\<lparr>lc_used := lc_used l - of_nat (demand (lc_name l) js)\<rparr>"

lemma used_sel [simp]:
  "lc_name (take_used js l) = lc_name l" "lc_total (take_used js l) = lc_total l"
  "lc_used (take_used js l) = lc_used l + of_nat (demand (lc_name l) js)"
  "lc_name (give_used js l) = lc_name l" "lc_total (give_used js l) = lc_total l"
  "lc_used (give_used js l) = lc_used l - of_nat (demand (lc_name l) js)"
  by (simp_all add: take_used_def give_used_def)

lemma get_loop_spec:
  assumes "distinct (lic_names ls)" "set (lic_names js) \<subseteq> set (lic_names ls)"
  shows "get_loop (Some ls) js = Some (Some (map (take_used js) ls), map (\<lambda>j. j\<lparr>lc_used := lc_used j + lc_total j\<rparr>) js, True)"
  using assms
proof (induction js arbitrary: ls)
  case Nil
  have "map (take_used []) ls = ls" by (intro map_idI) (simp add: take_used_def)
  then show ?case by simp
next
  case (Cons j js)
  define ls1 where "ls1 = lic_change (\<lambda>l. license_find_rec l (lc_name j)) (\<lambda>l. l\<lparr>lc_used := lc_used l + lc_total j\<rparr>) ls"
  have ls1: "ls1 = map (\<lambda>l. if lc_name l = lc_name j then l\<lparr>lc_used := lc_used l + lc_total j\<rparr> else l) ls"
    using Cons.prems(1) unfolding ls1_def by (rule lic_change_map)
  have nm: "lic_names ls1 = lic_names ls" unfolding ls1 by (rule lic_names_map) simp
  obtain m where m: "lic_find (\<lambda>l. license_find_rec l (lc_name j)) ls = Some m"
    using Cons.prems(2) lic_find_ex [of _ ls "\<lambda>l. license_find_rec l (lc_name j)"]
    by (auto simp: names_in license_find_rec_def)
  have "map (take_used js) ls1 = map (take_used (j # js)) ls"
    unfolding ls1 map_map by (rule map_cong) (auto simp: take_used_def)
  moreover have "get_loop (Some ls1) js = Some (Some (map (take_used js) ls1), map (\<lambda>j. j\<lparr>lc_used := lc_used j + lc_total j\<rparr>) js, True)"
    using Cons.prems by (intro Cons.IH) (simp_all add: nm)
  ultimately show ?case by (simp add: m ls1_def [symmetric])
qed

lemma u32_sub: "n \<le> unat (w :: u32) \<Longrightarrow> unat (w - of_nat n) = unat w - n"
proof -
  assume n: "n \<le> unat w"
  have "unat w < 2 ^ 32" using unsigned_less [of w] by simp
  then have "unat (of_nat n :: u32) = n" using n by (intro of_nat_inverse) auto
  then show ?thesis using n by (simp add: unat_sub word_le_nat_alt)
qed

lemma return_loop_spec:
  assumes "distinct (lic_names ls)" "set (lic_names js) \<subseteq> set (lic_names ls)"
    "\<forall>l \<in> set ls. demand (lc_name l) js \<le> unat (lc_used l)"
  shows "return_loop (Some ls) js = Some (Some (map (give_used js) ls), map (\<lambda>j. j\<lparr>lc_used := 0\<rparr>) js, True)"
  using assms
proof (induction js arbitrary: ls)
  case Nil
  have "map (give_used []) ls = ls" by (intro map_idI) (simp add: give_used_def)
  then show ?case by simp
next
  case (Cons j js)
  obtain m where m: "m \<in> set ls" "lc_name m = lc_name j" using Cons.prems(2) by (auto simp: names_in)
  have f: "lic_find (\<lambda>l. license_find_rec l (lc_name j)) ls = Some m"
    using lic_find_name [OF Cons.prems(1) m(1)] m(2) by simp
  have "unat (lc_total j) + demand (lc_name j) js \<le> unat (lc_used m)" using Cons.prems(3) m by fastforce
  then have le: "lc_total j \<le> lc_used m" by (simp add: word_le_nat_alt)
  define ls1 where "ls1 = lic_change (\<lambda>l. license_find_rec l (lc_name j))
    (\<lambda>l. l\<lparr>lc_used := lc_used l - lc_total j\<rparr>) ls"
  have ls1: "ls1 = map (\<lambda>l. if lc_name l = lc_name j then l\<lparr>lc_used := lc_used l - lc_total j\<rparr> else l) ls"
    unfolding ls1_def by (rule lic_change_map [OF Cons.prems(1)])
  have nm: "lic_names ls1 = lic_names ls" unfolding ls1 by (rule lic_names_map) simp
  have "\<forall>l \<in> set ls1. demand (lc_name l) js \<le> unat (lc_used l)"
  proof
    fix l
    assume "l \<in> set ls1"
    then obtain k where k: "k \<in> set ls" "l = (if lc_name k = lc_name j then k\<lparr>lc_used := lc_used k - lc_total j\<rparr> else k)"
      unfolding ls1 by auto
    have d: "demand (lc_name k) (j # js) \<le> unat (lc_used k)" using Cons.prems(3) k(1) by blast
    then have "unat (lc_total j) \<le> unat (lc_used k) \<Longrightarrow> unat (lc_used k - lc_total j) = unat (lc_used k) - unat (lc_total j)"
      by (simp add: unat_sub word_le_nat_alt)
    then show "demand (lc_name l) js \<le> unat (lc_used l)" using d k(2) by (auto split: if_splits)
  qed
  then have "return_loop (Some ls1) js = Some (Some (map (give_used js) ls1), map (\<lambda>j. j\<lparr>lc_used := 0\<rparr>) js, True)"
    using Cons.prems by (intro Cons.IH) (simp_all add: nm)
  moreover have "map (give_used js) ls1 = map (give_used (j # js)) ls"
    unfolding ls1 map_map by (rule map_cong) (auto simp: give_used_def algebra_simps)
  ultimately show ?case by (simp add: f le ls1_def [symmetric] Let_def)
qed

lemma test_loop_success:
  assumes "test_loop lic_resv (Some ls) js = Some LIC_SUCCESS" "j \<in> set js"
  shows "\<exists>m. lic_find (\<lambda>l. license_find_rec l (lc_name j)) ls = Some m \<and> lc_total j \<le> lc_total m \<and> lc_total j + lc_used m \<le> lc_total m"
  using assms
proof (induction js)
  case (Cons k js)
  then show ?case by (auto split: option.splits if_splits simp: not_less)
qed simp

subsection \<open>Lists made from text\<close>

lemma build_loop_induct:
  assumes "build_loop toks ls = Some ls'" "Q ls"
    and step: "\<And>tok name num ls. tok \<in> set toks \<Longrightarrow> scan_token [] tok = Some (name, num) \<Longrightarrow> 0 \<le> num \<Longrightarrow> Q ls \<Longrightarrow> Q (add_entry name num ls)"
  shows "Q ls'"
  using assms
proof (induction toks arbitrary: ls)
  case (Cons tok toks)
  then obtain name num where t: "scan_token [] tok = Some (name, num)" "0 \<le> num" "build_loop toks (add_entry name num ls) = Some ls'"
    by (auto split: option.splits if_splits)
  show ?case
  proof (rule Cons.IH [OF t(3)])
    show "Q (add_entry name num ls)" by (rule Cons.prems(3) [OF _ t(1, 2) Cons.prems(2)]) simp
    show "Q (add_entry n k ms)" if "tok' \<in> set toks" "scan_token [] tok' = Some (n, k)" "0 \<le> k" "Q ms" for tok' n k ms
      by (rule Cons.prems(3) [OF _ that(2-4)]) (simp add: that(1))
  qed
qed simp

lemma lic_names_change: "(\<And>l. lc_name (f l) = lc_name l) \<Longrightarrow> lic_names (lic_change P f ls) = lic_names ls"
  by (induction ls) simp_all

lemma add_entry_distinct: "distinct (lic_names ls) \<Longrightarrow> distinct (lic_names (add_entry name num ls))"
  by (auto simp: add_entry_def lic_names_change lic_find_None names_in license_find_rec_def new_license_def split: option.splits)

lemma lic_change_set: "l \<in> set (lic_change P f ls) \<Longrightarrow> l \<in> set ls \<or> (\<exists>m \<in> set ls. l = f m)"
  by (induction ls) (auto split: if_splits)

lemma build_license_list_SomeE:
  assumes "build_license_list licenses = (Some ls, valid)"
  obtains s where "licenses = Some s" "s \<noteq> []" "build_loop (lic_tokens s) [] = Some ls" "valid"
  using assms by (auto simp: build_license_list_def split: option.splits if_splits)

lemma build_license_list_distinct: "build_license_list licenses = (Some ls, valid) \<Longrightarrow> distinct (lic_names ls)"
  by (elim build_license_list_SomeE, rule build_loop_induct [where Q = "\<lambda>ls. distinct (lic_names ls)"], assumption)
    (simp_all add: add_entry_distinct)

definition lics_fresh :: "license list \<Rightarrow> bool" where
  "lics_fresh ls \<longleftrightarrow> (\<forall>l \<in> set ls. lc_used l = 0 \<and> lc_remote l = 0)"

lemma add_entry_fresh: "lics_fresh ls \<Longrightarrow> lics_fresh (add_entry name num ls)"
  by (auto simp: lics_fresh_def add_entry_def new_license_def dest!: lic_change_set split: option.splits)

lemma build_license_list_fresh: "build_license_list licenses = (Some ls, valid) \<Longrightarrow> lics_fresh ls"
  by (elim build_license_list_SomeE, rule build_loop_induct [where Q = lics_fresh], assumption)
    (simp_all add: add_entry_fresh, simp add: lics_fresh_def)

subsection \<open>Jobs that start and end\<close>

text \<open>
  The scheduler starts a job when \<open>license_job_test\<close> succeeds and then calls \<open>license_job_get\<close>; when the job ends it
  calls \<open>license_job_return\<close>. The state has the licenses of the system and the license lists of the running jobs.
\<close>

type_synonym lic_run = "lic_state \<times> license list list"

inductive lic_step :: "lic_run \<Rightarrow> lic_run \<Rightarrow> bool" where
  lic_start:
    "build_license_list licenses = (Some js, True) \<Longrightarrow>
     license_job_test lic_resv (Some js) st = Some LIC_SUCCESS \<Longrightarrow>
     license_job_get now (Some js) st = Some (st', Some js', rc) \<Longrightarrow>
     lic_step (st, jobs) (st', js' # jobs)"
| lic_finish:
    "js \<in> set jobs \<Longrightarrow>
     license_job_return now (Some js) st = Some (st', Some js', rc) \<Longrightarrow>
     lic_step (st, jobs) (st', remove1 js jobs)"

inductive_cases lic_stepE: "lic_step (st, jobs) y"

definition in_use :: "license list list \<Rightarrow> string \<Rightarrow> nat" where
  "in_use jobs n = sum_list (map (demand n) jobs)"

definition lic_inv :: "license list \<Rightarrow> lic_run \<Rightarrow> bool" where
  "lic_inv ls0 x \<longleftrightarrow> (case x of (st, jobs) \<Rightarrow>
     \<exists>ls. license_list st = Some ls \<and> lic_names ls = lic_names ls0 \<and> map lc_total ls = map lc_total ls0
       \<and> (\<forall>js \<in> set jobs. set (lic_names js) \<subseteq> set (lic_names ls0))
       \<and> (\<forall>l \<in> set ls. unat (lc_used l) = in_use jobs (lc_name l) \<and> lc_used l \<le> lc_total l))"

definition small_totals :: "license list \<Rightarrow> bool" where
  "small_totals ls \<longleftrightarrow> (\<forall>l \<in> set ls. lc_total l < 2147483648)"

lemma small_totals_eq: "map lc_total ls = map lc_total ls0 \<Longrightarrow> small_totals ls \<longleftrightarrow> small_totals ls0"
proof -
  assume "map lc_total ls = map lc_total ls0"
  then have "lc_total ` set ls = lc_total ` set ls0" by (metis list.set_map)
  moreover have "small_totals ks \<longleftrightarrow> (\<forall>t \<in> lc_total ` set ks. t < 2147483648)" for ks by (simp add: small_totals_def)
  ultimately show ?thesis by (simp only:)
qed

lemma demand_in_names: "n \<notin> set (lic_names js) \<Longrightarrow> demand n js = 0"
  by (induction js) auto

lemma demand_distinct: "distinct (lic_names js) \<Longrightarrow> j \<in> set js \<Longrightarrow> demand (lc_name j) js = unat (lc_total j)"
proof (induction js)
  case (Cons k js)
  then show ?case by (cases "j = k") (auto simp: demand_in_names names_in)
qed simp

lemma demand_used [simp]: "demand n (map (\<lambda>j. j\<lparr>lc_used := f j\<rparr>) js) = demand n js"
  by (induction js) auto

lemma in_use_simps [simp]: "in_use [] n = 0" "in_use (js # jobs) n = demand n js + in_use jobs n"
  by (simp_all add: in_use_def)

lemma in_use_remove1: "js \<in> set jobs \<Longrightarrow> in_use jobs n = demand n js + in_use (remove1 js jobs) n"
  unfolding in_use_def by (rule sum_list_map_remove1)

lemma u32_add_small:
  assumes "a \<le> t" "b \<le> t" "(t :: u32) < 2147483648"
  shows "unat (a + b) = unat a + unat b"
proof -
  have "unat a + unat b < 2 ^ 32" using assms by (simp add: word_le_nat_alt word_less_nat_alt)
  then show ?thesis by (simp add: unat_word_ariths(1))
qed

lemma start_fits:
  assumes "distinct (lic_names js)" "test_loop lic_resv (Some ls) js = Some LIC_SUCCESS" "distinct (lic_names ls)"
    "l \<in> set ls" "lc_used l \<le> lc_total l" "lc_total l < 2147483648"
  shows "unat (lc_used l + of_nat (demand (lc_name l) js)) = unat (lc_used l) + demand (lc_name l) js
    \<and> lc_used l + of_nat (demand (lc_name l) js) \<le> lc_total l"
proof (cases "lc_name l \<in> set (lic_names js)")
  case True
  then obtain j where j: "j \<in> set js" "lc_name j = lc_name l" by (auto simp: names_in)
  have "lic_find (\<lambda>m. license_find_rec m (lc_name j)) ls = Some l" using lic_find_name [OF assms(3, 4)] j(2) by simp
  then have t: "lc_total j \<le> lc_total l" "lc_total j + lc_used l \<le> lc_total l"
    using test_loop_success [OF assms(2) j(1)] by auto
  moreover have "demand (lc_name l) js = unat (lc_total j)" using demand_distinct [OF assms(1) j(1)] j(2) by simp
  ultimately show ?thesis using u32_add_small [OF t(1) assms(5, 6)] by (simp add: add.commute)
next
  case False
  then show ?thesis using assms(5) by (simp add: demand_in_names)
qed

lemma lic_inv_start:
  assumes "lic_inv ls0 (st, jobs)" "distinct (lic_names ls0)" "small_totals ls0" "distinct (lic_names js)"
    "license_job_test lic_resv (Some js) st = Some LIC_SUCCESS" "license_job_get now (Some js) st = Some (st', Some js', rc)"
  shows "lic_inv ls0 (st', js' # jobs)"
proof -
  obtain ls where ls: "license_list st = Some ls" "lic_names ls = lic_names ls0" "map lc_total ls = map lc_total ls0"
      "\<forall>js \<in> set jobs. set (lic_names js) \<subseteq> set (lic_names ls0)"
      "\<forall>l \<in> set ls. unat (lc_used l) = in_use jobs (lc_name l) \<and> lc_used l \<le> lc_total l"
    using assms(1) by (auto simp: lic_inv_def)
  have tst: "test_loop lic_resv (Some ls) js = Some LIC_SUCCESS" using assms(5) ls(1) by (simp add: license_job_test_def)
  have d: "distinct (lic_names ls)" and sm: "small_totals ls" using assms(2, 3) small_totals_eq [OF ls(3)] ls(2) by simp_all
  have sub: "set (lic_names js) \<subseteq> set (lic_names ls)"
  proof
    fix n
    assume "n \<in> set (lic_names js)"
    then obtain j where j: "j \<in> set js" "lc_name j = n" by (auto simp: names_in)
    then obtain m where "lic_find (\<lambda>l. license_find_rec l n) ls = Some m" using test_loop_success [OF tst j(1)] unfolding j(2) by (elim exE conjE)
    then show "n \<in> set (lic_names ls)" using lic_find_SomeD by (auto simp: names_in license_find_rec_def)
  qed
  have st': "license_list st' = Some (map (take_used js) ls)" and js': "js' = map (\<lambda>j. j\<lparr>lc_used := lc_used j + lc_total j\<rparr>) js"
    using assms(6) get_loop_spec [OF d sub] ls(1) by (auto simp: license_job_get_def)
  have "unat (lc_used (take_used js l)) = in_use (js' # jobs) (lc_name l) \<and> lc_used (take_used js l) \<le> lc_total l"
    if "l \<in> set ls" for l
    using start_fits [OF assms(4) tst d that] ls(5) that sm by (simp add: js' small_totals_def)
  moreover have "map lc_total (map (take_used js) ls) = map lc_total ls0" using ls(3) by (simp add: comp_def)
  moreover have "lic_names js' = lic_names js" unfolding js' by simp
  ultimately show ?thesis using ls(2, 4) sub st' by (simp add: lic_inv_def)
qed

lemma lic_return:
  assumes "lic_inv ls0 (st, jobs)" "distinct (lic_names ls0)" "js \<in> set jobs"
  shows "\<exists>ls st'. license_list st = Some ls \<and> license_list st' = Some (map (give_used js) ls)
    \<and> license_job_return now (Some js) st = Some (st', Some (map (\<lambda>j. j\<lparr>lc_used := 0\<rparr>) js), LIC_SUCCESS)
    \<and> lic_inv ls0 (st', remove1 js jobs)"
proof -
  obtain ls where ls: "license_list st = Some ls" "lic_names ls = lic_names ls0" "map lc_total ls = map lc_total ls0"
      "\<forall>js \<in> set jobs. set (lic_names js) \<subseteq> set (lic_names ls0)"
      "\<forall>l \<in> set ls. unat (lc_used l) = in_use jobs (lc_name l) \<and> lc_used l \<le> lc_total l"
    using assms(1) by (auto simp: lic_inv_def)
  have le: "demand (lc_name l) js \<le> unat (lc_used l)" if "l \<in> set ls" for l
    using ls(5) that in_use_remove1 [OF assms(3)] by simp
  have r: "return_loop (Some ls) js = Some (Some (map (give_used js) ls), map (\<lambda>j. j\<lparr>lc_used := 0\<rparr>) js, True)"
    using assms(2, 3) ls(2, 4) le by (intro return_loop_spec) auto
  have "unat (lc_used (give_used js l)) = in_use (remove1 js jobs) (lc_name l) \<and> lc_used (give_used js l) \<le> lc_total l"
    if "l \<in> set ls" for l
  proof -
    have "unat (lc_used (give_used js l)) = unat (lc_used l) - demand (lc_name l) js" using u32_sub [OF le [OF that]] by simp
    moreover have "unat (lc_used l) = demand (lc_name l) js + in_use (remove1 js jobs) (lc_name l)"
      using ls(5) that in_use_remove1 [OF assms(3)] by simp
    moreover have "unat (lc_used l) \<le> unat (lc_total l)" using bspec [OF ls(5) that] word_le_nat_alt by blast
    ultimately show ?thesis by (simp add: word_le_nat_alt)
  qed
  moreover have "map lc_total (map (give_used js) ls) = map lc_total ls0" using ls(3) by (simp add: comp_def)
  moreover have "\<forall>js' \<in> set (remove1 js jobs). set (lic_names js') \<subseteq> set (lic_names ls0)"
    using ls(4) set_remove1_subset [of js jobs] by blast
  ultimately have "lic_inv ls0 (st\<lparr>license_list := Some (map (give_used js) ls), last_license_update := now\<rparr>, remove1 js jobs)"
    using ls(2) by (simp add: lic_inv_def)
  then show ?thesis using r ls(1) by (simp add: license_job_return_def)
qed

lemma lic_inv_step:
  assumes "lic_step x y" "lic_inv ls0 x" "distinct (lic_names ls0)" "small_totals ls0"
  shows "lic_inv ls0 y"
  using assms
proof (cases rule: lic_step.cases)
  case (lic_start licenses js lic_resv st now st' js' rc jobs)
  then show ?thesis using lic_inv_start assms build_license_list_distinct by blast
next
  case (lic_finish js jobs now st st' js' rc)
  then show ?thesis using lic_return [of ls0 st jobs js now] assms by auto
qed

lemma lic_inv_reach:
  assumes "lic_step\<^sup>*\<^sup>* x y" "lic_inv ls0 x" "distinct (lic_names ls0)" "small_totals ls0"
  shows "lic_inv ls0 y"
  using assms by (induction rule: rtranclp_induct) (auto dest: lic_inv_step)

lemma lic_inv_init:
  assumes "license_init now licenses st0 = Some st" "license_list st = Some ls0"
  shows "lic_inv ls0 (st, []) \<and> distinct (lic_names ls0)"
proof -
  obtain v where "build_license_list licenses = (Some ls0, v)"
    using assms by (auto simp: license_init_def c_assert_bind_Some split: prod.splits)
  then have "distinct (lic_names ls0)" "lics_fresh ls0" by (auto dest: build_license_list_distinct build_license_list_fresh)
  then show ?thesis using assms(2) by (auto simp: lic_inv_def lics_fresh_def)
qed

text \<open>C9 (invariant): Licenses are never oversubscribed. Let \<open>license_init\<close> define the licenses of the system, with fewer than
  \<open>2^31\<close> of each, and let jobs start (\<open>license_job_test\<close> succeeds, then \<open>license_job_get\<close>) and end (\<open>license_job_return\<close>)
  in any order. Then the names and totals stay, every use count is the sum of what the running jobs hold and at most
  the total, and every running job can return its licenses without the underflow error.\<close>

theorem licenses_counted:
  assumes "license_init now licenses st0 = Some st1" "license_list st1 = Some ls0" "small_totals ls0"
    "lic_step\<^sup>*\<^sup>* (st1, []) (st, jobs)"
  shows "\<exists>ls. license_list st = Some ls \<and> lic_names ls = lic_names ls0 \<and> map lc_total ls = map lc_total ls0
    \<and> (\<forall>l \<in> set ls. unat (lc_used l) = in_use jobs (lc_name l) \<and> lc_used l \<le> lc_total l)
    \<and> (\<forall>js \<in> set jobs. \<exists>st' js'. license_job_return later (Some js) st = Some (st', Some js', LIC_SUCCESS)
         \<and> license_list st' = Some (map (give_used js) ls))"
proof -
  have init: "lic_inv ls0 (st1, [])" "distinct (lic_names ls0)" using lic_inv_init [OF assms(1, 2)] by simp_all
  have inv: "lic_inv ls0 (st, jobs)" using lic_inv_reach [OF assms(4) init assms(3)] .
  then obtain ls where "license_list st = Some ls" "lic_names ls = lic_names ls0" "map lc_total ls = map lc_total ls0"
      "\<forall>l \<in> set ls. unat (lc_used l) = in_use jobs (lc_name l) \<and> lc_used l \<le> lc_total l"
    by (auto simp: lic_inv_def)
  moreover have "\<exists>st' js'. license_job_return later (Some js) st = Some (st', Some js', LIC_SUCCESS) \<and> license_list st' = Some (map (give_used js) ls)"
    if "js \<in> set jobs" for js
    using lic_return [OF inv init(2) that, of later] \<open>license_list st = Some ls\<close> by auto
  ultimately show ?thesis by (intro exI [of _ ls]) simp
qed

definition demo_lics :: lic_state where
  "demo_lics = \<lparr>license_list = Some [new_license ''b'' 3, new_license ''a'' 2], last_license_update = 1\<rparr>"

definition demo_used :: lic_state where
  "demo_used = \<lparr>license_list = Some [new_license ''b'' 3, (new_license ''a'' 2)\<lparr>lc_used := 2\<rparr>], last_license_update = 5\<rparr>"

lemma demo_lic_steps:
  "license_init 1 (Some ''a:2,b*3'') \<lparr>license_list = None, last_license_update = 0\<rparr> = Some demo_lics"
  "lic_step (demo_lics, []) (demo_used, [[(new_license ''a'' 2)\<lparr>lc_used := 2\<rparr>]])"
proof -
  show "license_init 1 (Some ''a:2,b*3'') \<lparr>license_list = None, last_license_update = 0\<rparr> = Some demo_lics"
    by code_simp
  have "build_license_list (Some ''a:2'') = (Some [new_license ''a'' 2], True)"
    "license_job_test (\<lambda>_. 0) (Some [new_license ''a'' 2]) demo_lics = Some LIC_SUCCESS"
    "license_job_get 5 (Some [new_license ''a'' 2]) demo_lics = Some (demo_used, Some [(new_license ''a'' 2)\<lparr>lc_used := 2\<rparr>], LIC_SUCCESS)"
    by code_simp+
  then show "lic_step (demo_lics, []) (demo_used, [[(new_license ''a'' 2)\<lparr>lc_used := 2\<rparr>]])" by (rule lic_start)
qed

theorem licenses_counted_witness:
  "\<exists>ls. license_list demo_used = Some ls \<and> lic_names ls = [''b'', ''a''] \<and> map lc_total ls = [3, 2]
    \<and> (\<forall>l \<in> set ls. unat (lc_used l) = in_use [[(new_license ''a'' 2)\<lparr>lc_used := 2\<rparr>]] (lc_name l) \<and> lc_used l \<le> lc_total l)"
proof -
  have "lic_step\<^sup>*\<^sup>* (demo_lics, []) (demo_used, [[(new_license ''a'' 2)\<lparr>lc_used := 2\<rparr>]])" using demo_lic_steps(2) by simp
  moreover have "license_list demo_lics = Some [new_license ''b'' 3, new_license ''a'' 2]" by (simp add: demo_lics_def)
  moreover have "small_totals [new_license ''b'' 3, new_license ''a'' 2]" by (simp add: small_totals_def new_license_def)
  note licenses_counted [OF demo_lic_steps(1) calculation(2) this calculation(1), of 7]
  then obtain ls where ls: "license_list demo_used = Some ls" "lic_names ls = lic_names [new_license ''b'' 3, new_license ''a'' 2]"
      "map lc_total ls = map lc_total [new_license ''b'' 3, new_license ''a'' 2]"
      "\<forall>l \<in> set ls. unat (lc_used l) = in_use [[(new_license ''a'' 2)\<lparr>lc_used := 2\<rparr>]] (lc_name l) \<and> lc_used l \<le> lc_total l"
    by (elim exE conjE) (rule that; assumption)
  then show ?thesis by (intro exI [of _ ls]) (simp add: new_license_def)
qed

subsection \<open>The text of a license list\<close>

definition name_char :: "char \<Rightarrow> bool" where
  "name_char c \<longleftrightarrow> \<not> is_sep c \<and> \<not> is_space c \<and> c \<noteq> CHR '':'' \<and> c \<noteq> CHR ''*''"

definition lic_text :: "license \<Rightarrow> string" where
  "lic_text l = lc_name l @ ''*'' @ show_u32 (lc_total l)"

lemma scan_token_text:
  "\<forall>c \<in> set name. name_char c \<Longrightarrow> n < 2147483648 \<Longrightarrow> scan_token acc (name @ CHR ''*'' # show_nat n) = Some (acc @ name, int n)"
proof (induction name arbitrary: acc)
  case Nil
  then show ?case using strtol_show [of n "[]"] by (simp add: is_space_def s32_def)
next
  case (Cons c name)
  then show ?case by (simp add: name_char_def)
qed

lemma scan_token_name:
  "scan_token acc tok = Some (name, num) \<Longrightarrow> \<forall>c \<in> set tok. \<not> is_sep c \<Longrightarrow> \<forall>c \<in> set acc. name_char c \<Longrightarrow> \<forall>c \<in> set name. name_char c"
proof (induction acc tok rule: scan_token.induct)
  case (2 acc c cs)
  show ?case
  proof (cases "c = CHR '':'' \<or> c = CHR ''*''")
    case True
    have "scan_token acc (c # cs) = (if is_space c then None
        else if snd (strtol cs) \<noteq> [] then None else Some (acc, s32 (fst (strtol cs))))"
      using True by (simp add: case_prod_beta)
    then have "name = acc" using 2(2) by (simp only: split: if_splits) auto
    then show ?thesis using 2(4) by simp
  next
    case False
    then have "scan_token acc (c # cs) = (if is_space c then None else scan_token (acc @ [c]) cs)" by simp
    then have sc: "\<not> is_space c" "scan_token (acc @ [c]) cs = Some (name, num)" using 2(2) by (simp_all only: split: if_splits) auto
    have "\<forall>x \<in> set (acc @ [c]). name_char x" using 2(3, 4) False sc(1) by (simp add: name_char_def)
    moreover have "\<forall>c \<in> set cs. \<not> is_sep c" using 2(3) by simp
    ultimately show ?thesis using 2(1) [OF sc(1) False sc(2)] by blast
  qed
qed simp

lemma lic_tokens_chars: "tok \<in> set (lic_tokens s) \<Longrightarrow> \<forall>c \<in> set tok. \<not> is_sep c"
proof (induction s rule: lic_tokens.induct)
  case (1 s)
  define t where "t = dropWhile is_sep s"
  have "lic_tokens s = (if t = [] then [] else takeWhile (\<lambda>c. \<not> is_sep c) t # lic_tokens (dropWhile (\<lambda>c. \<not> is_sep c) t))"
    unfolding t_def by (subst lic_tokens.simps) (simp only: Let_def)
  then consider "tok = takeWhile (\<lambda>c. \<not> is_sep c) t" | "t \<noteq> []" "tok \<in> set (lic_tokens (dropWhile (\<lambda>c. \<not> is_sep c) t))"
    using 1(2) by (cases "t = []") auto
  then show ?case
  proof cases
    case 1
    then show ?thesis using set_takeWhileD by metis
  next
    case 2
    then show ?thesis using 1(1) [OF t_def] by blast
  qed
qed

lemma lic_tokens_Cons:
  assumes "t \<noteq> []" "\<forall>c \<in> set t. \<not> is_sep c"
  shows "lic_tokens t = [t]" "lic_tokens (t @ CHR '','' # s) = t # lic_tokens s"
    "lic_tokens (CHR '','' # s) = lic_tokens s"
proof -
  have h: "\<not> is_sep (hd t)" using assms by simp
  have c: "is_sep CHR '',''" by (simp add: is_sep_def)
  show sep: "lic_tokens (CHR '','' # s) = lic_tokens s" for s
    by (subst (1 2) lic_tokens.simps) (simp add: c Let_def)
  have d: "dropWhile is_sep (t @ u) = t @ u" for u using h assms(1) by (cases t) auto
  have w: "takeWhile (\<lambda>c. \<not> is_sep c) t = t" "dropWhile (\<lambda>c. \<not> is_sep c) t = []" using assms(2) by auto
  have "lic_tokens t = t # lic_tokens []"
    using d [of "[]"] assms(1) by (subst lic_tokens.simps) (simp add: Let_def w)
  moreover have "lic_tokens [] = []" by (subst lic_tokens.simps) simp
  ultimately show "lic_tokens t = [t]" by simp
  have "lic_tokens (t @ CHR '','' # s) = t # lic_tokens (CHR '','' # s)"
    using d [of "CHR '','' # s"] assms(1) c by (subst lic_tokens.simps) (simp add: Let_def takeWhile_append2 [OF assms(2) [rule_format]] dropWhile_append2 [OF assms(2) [rule_format]])
  then show "lic_tokens (t @ CHR '','' # s) = t # lic_tokens s" by (simp add: sep)
qed

definition lic_simple :: "license \<Rightarrow> bool" where
  "lic_simple l \<longleftrightarrow> (\<forall>c \<in> set (lc_name l). name_char c) \<and> lc_total l < 2147483648 \<and> lc_used l = 0 \<and> lc_remote l = 0
     \<and> length (lc_name l) \<le> 115"

lemma show_nat_length: "n < 10 ^ Suc k \<Longrightarrow> length (show_nat n) \<le> Suc k"
proof (induction k arbitrary: n)
  case 0
  then show ?case by (simp add: show_nat.simps [of n])
next
  case (Suc k)
  have "n div 10 < 10 ^ Suc k" using Suc.prems by (simp add: less_mult_imp_div_less)
  then show ?case using Suc.IH [of "n div 10"] by (simp add: show_nat.simps [of n])
qed

lemma lic_text_length: "lic_simple l \<Longrightarrow> length (lic_text l) \<le> 126"
proof -
  assume l: "lic_simple l"
  then have "unat (lc_total l) < 10 ^ Suc 9" by (simp add: lic_simple_def word_less_nat_alt)
  then show ?thesis using l show_nat_length [of "unat (lc_total l)" 9] by (simp add: lic_text_def lic_simple_def show_u32_def)
qed

lemma lic_text_chars: "lic_simple l \<Longrightarrow> \<forall>c \<in> set (lic_text l). \<not> is_sep c"
proof -
  assume l: "lic_simple l"
  have "\<not> is_sep c" if "is_digit c" for c using that by (auto simp: is_digit_def is_sep_def)
  then have "\<forall>c \<in> set (show_u32 (lc_total l)). \<not> is_sep c" using show_nat_chars unfolding show_u32_def by blast
  moreover have "\<forall>c \<in> set (lc_name l). \<not> is_sep c" using l by (simp add: lic_simple_def name_char_def)
  ultimately show ?thesis by (simp add: lic_text_def is_sep_def ball_Un)
qed

lemma build_string_tokens:
  "\<forall>l \<in> set ls. lic_simple l \<Longrightarrow> \<exists>u. build_string_loop ls (Some s) = Some (s @ u) \<and> lic_tokens u = map lic_text ls
     \<and> (ls = [] \<longleftrightarrow> u = []) \<and> (u \<noteq> [] \<longrightarrow> hd u = CHR '','')"
proof (induction ls arbitrary: s)
  case Nil
  show ?case by (simp add: lic_tokens.simps)
next
  case (Cons l ls)
  have t: "lic_text l \<noteq> []" "\<forall>c \<in> set (lic_text l). \<not> is_sep c" "take 127 ('','' @ lic_text l) = '','' @ lic_text l"
    using Cons.prems lic_text_length [of l] lic_text_chars [of l] by (simp_all add: lic_text_def)
  obtain u where u: "build_string_loop ls (Some (s @ '','' @ lic_text l)) = Some ((s @ '','' @ lic_text l) @ u)"
      "lic_tokens u = map lic_text ls" "ls = [] \<longleftrightarrow> u = []" "u \<noteq> [] \<longrightarrow> hd u = CHR '',''"
    using Cons.IH [of "s @ '','' @ lic_text l"] Cons.prems by auto
  have "lic_tokens (CHR '','' # lic_text l @ u) = lic_text l # map lic_text ls"
  proof (cases u)
    case Nil
    then show ?thesis using u lic_tokens_Cons [OF t(1, 2)] by simp
  next
    case (Cons c v)
    then have "u = CHR '','' # v" using u(4) by simp
    then show ?thesis using u(2) lic_tokens_Cons [OF t(1, 2)] by simp
  qed
  moreover have "build_string_loop (l # ls) (Some s) = Some (s @ (CHR '','' # lic_text l @ u))"
    using u(1) t(3) by (simp add: lic_text_def)
  ultimately show ?case by (intro exI [of _ "CHR '','' # lic_text l @ u"]) simp
qed

lemma build_string_simple:
  assumes "\<forall>l \<in> set ls. lic_simple l" "ls \<noteq> []"
  obtains s where "build_license_string (Some ls) = Some s" "s \<noteq> []" "lic_tokens s = map lic_text ls"
proof -
  obtain l ks where ls: "ls = l # ks" using assms(2) by (cases ls) auto
  have t: "lic_text l \<noteq> []" "\<forall>c \<in> set (lic_text l). \<not> is_sep c" "take 127 (lic_text l) = lic_text l"
    using assms lic_text_length [of l] lic_text_chars [of l] by (simp_all add: lic_text_def ls)
  obtain u where u: "build_string_loop ks (Some (lic_text l)) = Some (lic_text l @ u)"
      "lic_tokens u = map lic_text ks" "ks = [] \<longleftrightarrow> u = []" "u \<noteq> [] \<longrightarrow> hd u = CHR '',''"
    using build_string_tokens [of ks "lic_text l"] assms ls by auto
  have "lic_tokens (lic_text l @ u) = lic_text l # map lic_text ks"
    using u(2-4) lic_tokens_Cons [OF t(1, 2)] by (cases u) auto
  moreover have "build_license_string (Some ls) = Some (lic_text l @ u)"
    using u(1) t(3) by (simp add: build_license_string_def ls lic_text_def)
  ultimately show ?thesis using that t(1) ls by auto
qed

lemma build_loop_texts:
  "\<forall>l \<in> set ls. lic_simple l \<Longrightarrow> distinct (lic_names (ls @ acc)) \<Longrightarrow> build_loop (map lic_text ls) acc = Some (rev ls @ acc)"
proof (induction ls arbitrary: acc)
  case (Cons l ls)
  have l: "lic_simple l" using Cons.prems(1) by simp
  have "scan_token [] (lic_text l) = Some (lc_name l, int (unat (lc_total l)))"
    using l scan_token_text [of "lc_name l" "unat (lc_total l)" "[]"]
    by (simp add: lic_simple_def lic_text_def show_u32_def word_less_nat_alt)
  moreover have "lc_name l \<notin> set (lic_names acc)" using Cons.prems(2) by (auto simp: names_in)
  then have "lic_find (\<lambda>m. license_find_rec m (lc_name l)) acc = None"
    by (simp add: lic_find_None license_find_rec_def names_in)
  moreover have "new_license (lc_name l) (of_int (int (unat (lc_total l)))) = l"
    using l by (simp add: new_license_def lic_simple_def)
  ultimately have "build_loop (map lic_text (l # ls)) acc = build_loop (map lic_text ls) (l # acc)"
    by (simp add: add_entry_def)
  moreover have "distinct (lic_names (ls @ l # acc))" using Cons.prems(2) by (auto simp: lic_names_def)
  ultimately show ?case using Cons.IH [of "l # acc"] Cons.prems(1) by simp
qed simp

lemma string_roundtrip:
  assumes "\<forall>l \<in> set ls. lic_simple l" "ls \<noteq> []" "distinct (lic_names ls)"
  shows "build_license_list (build_license_string (Some ls)) = (Some (rev ls), True)"
  by (rule build_string_simple [OF assms(1, 2)])
    (use build_loop_texts [of ls "[]"] assms in \<open>simp add: build_license_list_def\<close>)

definition named_ok :: "license list \<Rightarrow> bool" where
  "named_ok ls \<longleftrightarrow> (\<forall>l \<in> set ls. \<forall>c \<in> set (lc_name l). name_char c)"

lemma add_entry_named: "named_ok ls \<Longrightarrow> \<forall>c \<in> set name. name_char c \<Longrightarrow> named_ok (add_entry name num ls)"
  by (auto simp: named_ok_def add_entry_def new_license_def dest!: lic_change_set split: option.splits)

lemma build_license_list_named: "build_license_list licenses = (Some ls, valid) \<Longrightarrow> named_ok ls"
proof (elim build_license_list_SomeE)
  fix s
  assume "build_loop (lic_tokens s) [] = Some ls"
  then show "named_ok ls"
  proof (rule build_loop_induct)
    show "named_ok []" by (simp add: named_ok_def)
    show "named_ok (add_entry name num ks)"
      if "tok \<in> set (lic_tokens s)" "scan_token [] tok = Some (name, num)" "0 \<le> num" "named_ok ks" for tok name num ks
      using scan_token_name [OF that(2) lic_tokens_chars [OF that(1)]] add_entry_named [OF that(4)] by simp
  qed
qed

text \<open>C26 (roundtrip): \<open>license_job_merge\<close> gives a license string its normal form: for every string it accepts (not only
  separators, names of at most 115 characters, fewer than \<open>2^31\<close> of each license) the list has every name once, and the
  text it writes is read back as that list, in the opposite order, with no license lost or split.\<close>

theorem license_merge_roundtrip:
  assumes "license_job_merge licenses = (Some ls, str)" "ls \<noteq> []" "small_totals ls" "\<forall>l \<in> set ls. length (lc_name l) \<le> 115"
  shows "distinct (lic_names ls) \<and> build_license_list str = (Some (rev ls), True) \<and> license_job_merge str = (Some (rev ls), build_license_string (Some (rev ls)))"
proof -
  obtain v where b: "build_license_list licenses = (Some ls, v)" and str: "str = build_license_string (Some ls)"
    using assms(1) by (auto simp: license_job_merge_def split: prod.splits)
  have "\<forall>l \<in> set ls. lic_simple l"
    using build_license_list_named [OF b] build_license_list_fresh [OF b] assms(3, 4)
    by (simp add: lic_simple_def named_ok_def lics_fresh_def small_totals_def)
  then have "build_license_list str = (Some (rev ls), True)"
    using string_roundtrip [OF _ assms(2) build_license_list_distinct [OF b]] str by simp
  then show ?thesis using build_license_list_distinct [OF b] by (simp add: license_job_merge_def)
qed

theorem license_merge_roundtrip_witness:
  "distinct (lic_names [new_license ''fluent'' 1, new_license ''tux'' 5])
   \<and> build_license_list (Some ''fluent*1,tux*5'') = (Some [new_license ''tux'' 5, new_license ''fluent'' 1], True)
   \<and> license_job_merge (Some ''fluent*1,tux*5'') = (Some [new_license ''tux'' 5, new_license ''fluent'' 1], Some ''tux*5,fluent*1'')"
proof -
  have "license_job_merge (Some ''tux:2,tux*3;fluent'') = (Some [new_license ''fluent'' 1, new_license ''tux'' 5], Some ''fluent*1,tux*5'')"
    "build_license_string (Some [new_license ''tux'' 5, new_license ''fluent'' 1]) = Some ''tux*5,fluent*1''"
    by code_simp+
  then show ?thesis using license_merge_roundtrip [of "Some ''tux:2,tux*3;fluent''"]
    by (simp add: small_totals_def new_license_def)
qed

definition license_counts :: "lic_state \<Rightarrow> (string \<times> u32 \<times> u32) list option" where
  "license_counts st = map_option (map (\<lambda>l. (lc_name l, lc_used l, lc_total l))) (license_list st)"

text \<open>Counts of \<open>2^31\<close> and more wrap. After \<open>Licenses=a:2147483647,a:2147483647\<close> and a job that holds all
  \<open>4294967294\<close> of them, \<open>license_job_test\<close> still lets a job start that wants three: the sum is one in 32 bits. The use
  count is then one, and the first job's return reports an underflow and leaves it at zero with the second job running.\<close>

theorem license_sum_wraps:
  "\<exists>st1 st2 st3 st4 all three.
     license_init 1 (Some ''a:2147483647,a:2147483647'') \<lparr>license_list = None, last_license_update = 0\<rparr> = Some st1
     \<and> license_job_test (\<lambda>_. 0) (Some [new_license ''a'' 4294967294]) st1 = Some LIC_SUCCESS
     \<and> license_job_get 2 (Some [new_license ''a'' 4294967294]) st1 = Some (st2, Some all, LIC_SUCCESS)
     \<and> license_counts st2 = Some [(''a'', 4294967294, 4294967294)]
     \<and> license_job_test (\<lambda>_. 0) (Some [new_license ''a'' 3]) st2 = Some LIC_SUCCESS
     \<and> license_job_get 3 (Some [new_license ''a'' 3]) st2 = Some (st3, Some three, LIC_SUCCESS)
     \<and> license_counts st3 = Some [(''a'', 1, 4294967294)]
     \<and> (\<exists>js. license_job_return 4 (Some all) st3 = Some (st4, Some js, LIC_ERROR))
     \<and> license_counts st4 = Some [(''a'', 0, 4294967294)]"
proof (intro exI conjI)
  define lic where "lic u = \<lparr>lc_name = ''a'', lc_total = 4294967294, lc_used = u, lc_remote = 0\<rparr>" for u
  define st where "st u t = \<lparr>license_list = Some [lic u], last_license_update = t\<rparr>" for u t
  show "license_init 1 (Some ''a:2147483647,a:2147483647'') \<lparr>license_list = None, last_license_update = 0\<rparr> = Some (st 0 1)"
    unfolding st_def lic_def by code_simp
  show "license_job_test (\<lambda>_. 0) (Some [new_license ''a'' 4294967294]) (st 0 1) = Some LIC_SUCCESS"
    unfolding st_def lic_def by code_simp
  show "license_job_get 2 (Some [new_license ''a'' 4294967294]) (st 0 1) = Some (st 4294967294 2, Some [lic 4294967294], LIC_SUCCESS)"
    unfolding st_def lic_def by code_simp
  show "license_counts (st 4294967294 2) = Some [(''a'', 4294967294, 4294967294)]" by (simp add: st_def lic_def license_counts_def)
  show "license_job_test (\<lambda>_. 0) (Some [new_license ''a'' 3]) (st 4294967294 2) = Some LIC_SUCCESS"
    unfolding st_def lic_def by code_simp
  show "license_job_get 3 (Some [new_license ''a'' 3]) (st 4294967294 2) = Some (st 1 3, Some [(new_license ''a'' 3)\<lparr>lc_used := 3\<rparr>], LIC_SUCCESS)"
    unfolding st_def lic_def by code_simp
  show "license_counts (st 1 3) = Some [(''a'', 1, 4294967294)]" by (simp add: st_def lic_def license_counts_def)
  show "license_job_return 4 (Some [lic 4294967294]) (st 1 3) = Some (st 0 4, Some [lic 0], LIC_ERROR)"
    unfolding st_def lic_def by code_simp
  show "license_counts (st 0 4) = Some [(''a'', 0, 4294967294)]" by (simp add: st_def lic_def license_counts_def)
qed

subsection \<open>Synchronising remote licenses\<close>

definition remote_names :: "license list \<Rightarrow> string list" where
  "remote_names ls = lic_names (filter (\<lambda>l. lc_remote l \<noteq> 0) ls)"

definition remote_ok :: "license list \<Rightarrow> bool" where
  "remote_ok ls \<longleftrightarrow> distinct (remote_names ls) \<and> (\<forall>l \<in> set ls. lc_remote l = 0 \<or> lc_remote l = 1)"

text \<open>What a synchronisation should give: the new resources, the last one first, then the old records in order, those of remote
  licenses only if they are still listed, with the new total.\<close>

definition find_res :: "res_rec list \<Rightarrow> string \<Rightarrow> res_rec option" where
  "find_res recs n = find (\<lambda>rec. res_name rec = n) recs"

definition sync_keep :: "res_rec list \<Rightarrow> license \<Rightarrow> license list" where
  "sync_keep recs l = (if lc_remote l = 0 then [l] else case find_res recs (lc_name l) of
     None \<Rightarrow> [] | Some rec \<Rightarrow> [l\<lparr>lc_total := the (res_total rec)\<rparr>])"

definition res_license :: "byte \<Rightarrow> res_rec \<Rightarrow> license" where
  "res_license r rec = \<lparr>lc_name = res_name rec, lc_total = the (res_total rec), lc_used = 0, lc_remote = r\<rparr>"

definition sync_spec :: "res_rec list \<Rightarrow> license list \<Rightarrow> license list" where
  "sync_spec recs ls = rev (map (res_license 1) (filter (\<lambda>rec. res_name rec \<notin> set (remote_names ls)) recs)) @ concat (map (sync_keep recs) ls)"

definition sync_mark :: "res_rec list \<Rightarrow> license \<Rightarrow> license" where
  "sync_mark recs l = (if lc_remote l = 0 then l else case find_res recs (lc_name l) of
     None \<Rightarrow> l | Some rec \<Rightarrow> l\<lparr>lc_remote := 2, lc_total := the (res_total rec)\<rparr>)"

lemma remote_names_simps [simp]:
  "remote_names [] = []"
  "remote_names (l # ls) = (if lc_remote l \<noteq> 0 then lc_name l # remote_names ls else remote_names ls)"
  by (simp_all add: remote_names_def)

lemma remote_names_in: "n \<in> set (remote_names ls) \<longleftrightarrow> (\<exists>l \<in> set ls. license_find_remote_rec l n)"
  by (induction ls) (auto simp: license_find_remote_rec_def license_find_rec_def)

lemma lic_change_remote:
  "distinct (remote_names ls) \<Longrightarrow>
   lic_change (\<lambda>l. license_find_remote_rec l n) f ls = map (\<lambda>l. if license_find_remote_rec l n then f l else l) ls"
proof (induction ls)
  case (Cons l ls)
  have "map (\<lambda>l. if license_find_remote_rec l n then f l else l) ls = ls" if "license_find_remote_rec l n"
    using Cons.prems that remote_names_in [of n ls]
    by (intro map_idI) (auto simp: license_find_remote_rec_def license_find_rec_def)
  then show ?case using Cons by (auto split: if_splits)
qed simp

lemma remote_names_map:
  "(\<And>l. lc_name (g l) = lc_name l) \<Longrightarrow> (\<And>l. lc_remote (g l) = 0 \<longleftrightarrow> lc_remote l = 0) \<Longrightarrow> remote_names (map g ls) = remote_names ls"
  by (induction ls) auto

lemma find_res_Cons: "find_res (rec # recs) n = (if res_name rec = n then Some rec else find_res recs n)"
  by (simp add: find_res_def)

lemma find_res_None: "n \<notin> res_name ` set recs \<Longrightarrow> find_res recs n = None"
  by (auto simp: find_res_def find_None_iff)

lemma sync_mark_Cons:
  assumes "res_name rec \<notin> res_name ` set recs"
  shows "sync_mark recs (if license_find_remote_rec l (res_name rec) then l\<lparr>lc_remote := 2, lc_total := the (res_total rec)\<rparr> else l)
     = sync_mark (rec # recs) l"
  using assms by (auto simp: sync_mark_def find_res_Cons license_find_remote_rec_def license_find_rec_def find_res_None)

lemma sync_loop_spec:
  assumes "license_list st = Some ls" "distinct (remote_names ls)" "distinct (map res_name recs)"
    "\<forall>rec \<in> set recs. rr_is_license rec \<and> rr_percent rec \<noteq> None"
  shows "\<exists>st'. sync_loop now recs st = Some st' \<and> license_list st' = Some
     (rev (map (res_license 2) (filter (\<lambda>rec. res_name rec \<notin> set (remote_names ls)) recs)) @ map (sync_mark recs) ls)"
  using assms
proof (induction recs arbitrary: st ls)
  case Nil
  have "map (sync_mark []) ls = ls" by (intro map_idI) (simp add: sync_mark_def find_res_def)
  then show ?case using Nil by simp
next
  case (Cons rec recs)
  have fresh: "res_name rec \<notin> res_name ` set recs" using Cons.prems(3) by simp
  obtain n where n: "res_total rec = Some n" using Cons.prems(4) by (auto simp: res_total_def)
  have mark: "map (sync_mark recs) (map (\<lambda>l. if license_find_remote_rec l (res_name rec) then l\<lparr>lc_remote := 2, lc_total := n\<rparr> else l) ls)
      = map (sync_mark (rec # recs)) ls"
    using sync_mark_Cons [OF fresh, unfolded n option.sel] by (simp only: map_map comp_def)
  show ?case
  proof (cases "res_name rec \<in> set (remote_names ls)")
    case True
    define ls1 where "ls1 = map (\<lambda>l. if license_find_remote_rec l (res_name rec) then l\<lparr>lc_remote := 2, lc_total := n\<rparr> else l) ls"
    obtain m where m: "lic_find (\<lambda>l. license_find_remote_rec l (res_name rec)) ls = Some m"
      using True lic_find_ex [of _ ls "\<lambda>l. license_find_remote_rec l (res_name rec)"] by (auto simp: remote_names_in)
    have nm: "remote_names ls1 = remote_names ls" unfolding ls1_def
      by (rule remote_names_map) (auto simp: license_find_remote_rec_def)
    have "sync_loop now (rec # recs) st = sync_loop now recs (st\<lparr>license_list := Some ls1, last_license_update := now\<rparr>)"
      using Cons.prems(1, 4) m n lic_change_remote [OF Cons.prems(2)] by (simp add: ls1_def)
    then show ?thesis
      using Cons.IH [of "st\<lparr>license_list := Some ls1, last_license_update := now\<rparr>" ls1] Cons.prems nm True mark [folded ls1_def]
      by (simp del: map_map list.map_comp map_eq_conv)
  next
    case False
    have m: "lic_find (\<lambda>l. license_find_remote_rec l (res_name rec)) ls = None"
      using False by (simp add: lic_find_None remote_names_in)
    define ls1 where "ls1 = res_license 2 rec # ls"
    have "sync_loop now (rec # recs) st = sync_loop now recs (st\<lparr>license_list := Some ls1, last_license_update := now\<rparr>)"
      using Cons.prems(1, 4) m n by (simp add: add_res_rec_def ls1_def res_license_def)
    moreover have nm: "remote_names ls1 = res_name rec # remote_names ls" by (simp add: ls1_def res_license_def)
    moreover have "map (sync_mark recs) ls1 = res_license 2 rec # map (sync_mark (rec # recs)) ls"
    proof -
      have "sync_mark recs l = sync_mark (rec # recs) l" if "l \<in> set ls" for l
        using sync_mark_Cons [OF fresh, of l] False that by (auto simp: remote_names_in)
      then show ?thesis using fresh by (simp add: ls1_def sync_mark_def res_license_def find_res_None)
    qed
    moreover have "filter (\<lambda>r. res_name r \<notin> set (remote_names ls1)) recs = filter (\<lambda>r. res_name r \<notin> set (remote_names ls)) recs"
      using fresh nm by (intro filter_cong) (auto simp: image_iff)
    ultimately show ?thesis
      using Cons.IH [of "st\<lparr>license_list := Some ls1, last_license_update := now\<rparr>" ls1] Cons.prems False by simp
  qed
qed

lemma sync_loop_filter: "sync_loop now recs st = sync_loop now (filter rr_is_license recs) st"
proof (induction recs arbitrary: st)
  case (Cons rec recs)
  then have "sync_loop now recs = sync_loop now (filter rr_is_license recs)" by (intro ext)
  then show ?case by simp
qed simp

lemma sweep_append: "sweep_loop (xs @ ys) = sweep_loop xs @ sweep_loop ys"
  by (induction xs) auto

lemma sweep_new: "sweep_loop (rev (map (res_license 2) recs)) = rev (map (res_license 1) recs)"
  by (induction recs) (auto simp: sweep_append res_license_def)

lemma sweep_marked:
  "\<forall>l \<in> set ls. lc_remote l = 0 \<or> lc_remote l = 1 \<Longrightarrow> sweep_loop (map (sync_mark recs) ls) = concat (map (sync_keep recs) ls)"
  by (induction ls) (auto simp: sync_mark_def sync_keep_def split: option.splits)

text \<open>C27 (functional): \<open>license_sync_remote\<close> makes the remote licenses those of the list it is given: the local records
  stay as they are, a remote record that is listed keeps its use count and gets the new total, one that is not listed is deleted,
  a listed resource without a record gets one, and no mark is left behind.\<close>

theorem license_sync_exact:
  assumes "license_list st = Some ls" "remote_ok ls"
    "distinct (map res_name (filter rr_is_license recs))" "\<forall>rec \<in> set recs. rr_percent rec \<noteq> None"
  shows "\<exists>st'. license_sync_remote now (Some recs) st = Some st'
    \<and> license_list st' = Some (sync_spec (filter rr_is_license recs) ls)"
proof -
  have "\<exists>st'. sync_loop now recs st = Some st' \<and> license_list st' = Some (rev (map (res_license 2)
      (filter (\<lambda>rec. res_name rec \<notin> set (remote_names ls)) (filter rr_is_license recs))) @ map (sync_mark (filter rr_is_license recs)) ls)"
    unfolding sync_loop_filter [of now recs] using assms by (intro sync_loop_spec) (auto simp: remote_ok_def)
  then obtain st' where st': "sync_loop now recs st = Some st'" "license_list st' = Some (rev (map (res_license 2)
      (filter (\<lambda>rec. res_name rec \<notin> set (remote_names ls)) (filter rr_is_license recs))) @ map (sync_mark (filter rr_is_license recs)) ls)"
    by blast
  have "need_list st = Some st" using assms(1) by (simp add: need_list_def)
  then show ?thesis
    using st' assms(1, 2) sweep_marked [of ls] by (simp add: license_sync_remote_def sweep_append sweep_new sync_spec_def remote_ok_def)
qed

theorem license_sync_exact_witness:
  "\<exists>st'. license_sync_remote 9 (Some [\<lparr>rr_name = ''c'', rr_server = ''s'', rr_is_license = True, rr_count = 10, rr_percent = Some 50\<rparr>,
        \<lparr>rr_name = ''a'', rr_server = ''s'', rr_is_license = True, rr_count = 8, rr_percent = Some 25\<rparr>])
      \<lparr>license_list = Some [\<lparr>lc_name = ''b@s'', lc_total = 7, lc_used = 1, lc_remote = 1\<rparr>, new_license ''x'' 4,
         \<lparr>lc_name = ''a@s'', lc_total = 7, lc_used = 1, lc_remote = 1\<rparr>], last_license_update = 1\<rparr> = Some st'
    \<and> license_list st' = Some [\<lparr>lc_name = ''c@s'', lc_total = 5, lc_used = 0, lc_remote = 1\<rparr>, new_license ''x'' 4,
         \<lparr>lc_name = ''a@s'', lc_total = 2, lc_used = 1, lc_remote = 1\<rparr>]"
proof -
  let ?ls = "[\<lparr>lc_name = ''b@s'', lc_total = 7, lc_used = 1, lc_remote = 1\<rparr>, new_license ''x'' 4,
    \<lparr>lc_name = ''a@s'', lc_total = 7, lc_used = 1, lc_remote = 1\<rparr>] :: license list"
  let ?recs = "[\<lparr>rr_name = ''c'', rr_server = ''s'', rr_is_license = True, rr_count = 10, rr_percent = Some 50\<rparr>,
    \<lparr>rr_name = ''a'', rr_server = ''s'', rr_is_license = True, rr_count = 8, rr_percent = Some 25\<rparr>] :: res_rec list"
  have "sync_spec (filter rr_is_license ?recs) ?ls = [\<lparr>lc_name = ''c@s'', lc_total = 5, lc_used = 0, lc_remote = 1\<rparr>, new_license ''x'' 4,
      \<lparr>lc_name = ''a@s'', lc_total = 2, lc_used = 1, lc_remote = 1\<rparr>]"
    by code_simp
  then show ?thesis
    using license_sync_exact [of "\<lparr>license_list = Some ?ls, last_license_update = 1\<rparr>" ?ls ?recs 9]
    by (simp add: remote_ok_def new_license_def res_name_def)
qed

end
