(* ===== verification/License_Message.thy ===== *)
theory License_Message
  imports Pack_Message Licenses
begin

section \<open>The license message\<close>

text \<open>
  The client side of the message that \<open>get_all_license_info\<close> makes (\<open>_unpack_license_info_msg\<close> of
  \<open>common/slurm_protocol_pack.c\<close>) and the round trip. A license record is a \<open>codec\<close> of its own.
\<close>

record slurm_license_info =
  li_name :: "byte list option"
  li_total :: u32
  li_in_use :: u32
  li_available :: u32
  li_remote :: byte

record license_info_msg =
  lm_last_update :: int
  lm_num_lic :: u32
  lm_array :: "slurm_license_info list"

text \<open>The \<open>safe_unpack\<close> macros jump to the end of the function when the bytes run out.\<close>

definition safe_unpack :: "(slurm_buf \<Rightarrow> (slurm_buf \<times> 'a option) option) \<Rightarrow> ('a \<Rightarrow> slurm_buf \<Rightarrow> (slurm_buf \<times> 'b option) option)
    \<Rightarrow> slurm_buf \<Rightarrow> (slurm_buf \<times> 'b option) option" where
  "safe_unpack u k b = u b \<bind> (\<lambda>(b, r). case r of None \<Rightarrow> Some (b, None) | Some x \<Rightarrow> k x b)"

definition unpack_license :: "slurm_buf \<Rightarrow> (slurm_buf \<times> slurm_license_info option) option" where
  "unpack_license =
     safe_unpack unpackmem_xmalloc (\<lambda>name. safe_unpack unpack32 (\<lambda>n. safe_unpack unpack32 (\<lambda>u. safe_unpack unpack8 (\<lambda>r b.
       Some (b, Some \<lparr>li_name = name, li_total = n, li_in_use = u, li_available = (if n < u then 0 else n - u), li_remote = r\<rparr>)))))"

definition unpack_license_info_msg :: "u16 \<Rightarrow> slurm_buf \<Rightarrow> (slurm_buf \<times> license_info_msg option) option" where
  "unpack_license_info_msg protocol_version =
     (if SLURM_MIN_PROTOCOL_VERSION \<le> protocol_version then
        safe_unpack unpack32 (\<lambda>n. safe_unpack unpack_time (\<lambda>t. safe_unpack (unpack_each unpack_license (unat n)) (\<lambda>ls b.
          Some (b, Some \<lparr>lm_last_update = t, lm_num_lic = n, lm_array = ls\<rparr>))))
      else (\<lambda>b. Some (b, None)))"

subsection \<open>Reading in sequence\<close>

lemma safe_unpack_unpacks:
  assumes "unpacks u xs x" "unpacks (k x) ys y"
  shows "unpacks (safe_unpack u k) (xs @ ys) y"
  unfolding unpacks_def
proof (intro allI impI)
  fix b zs
  assume b: "buf_ok b \<and> unread b = (xs @ ys) @ zs"
  then obtain b1 where b1: "u b = Some (b1, Some x)" "buf_ok b1" "unread b1 = ys @ zs"
    using unpacksE [OF assms(1), of b "ys @ zs"] by auto
  then show "\<exists>b'. safe_unpack u k b = Some (b', Some y) \<and> buf_ok b' \<and> unread b' = zs"
    using unpacksE [OF assms(2) b1(2, 3)] by (auto simp: safe_unpack_def)
qed

lemma unpacks_return: "unpacks (\<lambda>b. Some (b, Some y)) [] y"
  by (simp add: unpacks_def)

lemma safe_unpack_safe:
  assumes "reads_safely u" "\<And>x. reads_safely (k x)"
  shows "reads_safely (safe_unpack u k)"
  unfolding safe_unpack_def [abs_def]
  by (rule reads_safely_bind [OF assms(1), where k = "\<lambda>b r. case r of None \<Rightarrow> Some (b, None) | Some x \<Rightarrow> k x b"]) (simp_all add: assms(2))

lemma reads_safely_return: "reads_safely (\<lambda>b. Some (b, Some y))"
  by (simp add: reads_safely_def)

subsection \<open>The codec of a license\<close>

definition license_enc :: "license \<Rightarrow> byte list" where
  "license_enc l = mem_enc (c_bytes (lc_name l)) @ be_bytes 4 (unat (lc_total l)) @ be_bytes 4 (unat (lc_used l)) @ [lc_remote l]"

definition license_seen :: "license \<Rightarrow> slurm_license_info" where
  "license_seen l = \<lparr>li_name = Some (c_bytes (lc_name l)), li_total = lc_total l, li_in_use = lc_used l,
     li_available = (if lc_total l < lc_used l then 0 else lc_total l - lc_used l), li_remote = lc_remote l\<rparr>"

text \<open>Every supported version has the same format.\<close>

lemma pack_license_supported: "SLURM_MIN_PROTOCOL_VERSION \<le> pv \<Longrightarrow> pack_license pv = pack_license SLURM_MIN_PROTOCOL_VERSION"
  by (intro ext) (simp add: pack_license_def)

lemma pack_license_unsupported: "\<not> SLURM_MIN_PROTOCOL_VERSION \<le> pv \<Longrightarrow> pack_each (pack_license pv) ls = Some"
  by (induction ls) (auto simp: pack_license_def)

interpretation clic: codec "pack_license SLURM_MIN_PROTOCOL_VERSION" unpack_license license_enc license_seen "\<lambda>l. length (lc_name l) < 0x40000000"
proof
  fix l :: license
  assume l: "length (lc_name l) < 0x40000000"
  have n: "length (c_bytes (lc_name l)) \<le> 0x40000000" "null_if_empty (c_bytes (lc_name l)) = Some (c_bytes (lc_name l))"
    using l by (simp_all add: c_bytes_def null_if_empty_def)
  have "packs (packstr (Some (lc_name l))) (mem_enc (c_bytes (lc_name l)))"
    using packstr_enc [of "Some (lc_name l)"] n by (simp add: str_bytes_def)
  then show "packs (pack_license SLURM_MIN_PROTOCOL_VERSION l) (license_enc l)"
    unfolding pack_license_def [abs_def] license_enc_def if_P [OF order_refl]
    by (intro packs_bind c32.pack_law c8.pack_law) simp_all
  have "unpacks unpackmem_xmalloc (mem_enc (c_bytes (lc_name l))) (Some (c_bytes (lc_name l)))"
    using unpackmem_unpacks [OF n(1)] n(2) by simp
  then have "unpacks unpack_license (mem_enc (c_bytes (lc_name l)) @ be_bytes 4 (unat (lc_total l)) @ be_bytes 4 (unat (lc_used l)) @ [lc_remote l] @ []) (license_seen l)"
    unfolding unpack_license_def license_seen_def
    by (elim safe_unpack_unpacks) (intro safe_unpack_unpacks [OF unpack32_unpacks] safe_unpack_unpacks [OF c8.unpack_law [OF TrueI]] unpacks_return)
  then show "unpacks unpack_license (license_enc l) (license_seen l)" by (simp add: license_enc_def)
next
  show "reads_safely unpack_license" unfolding unpack_license_def
    by (intro safe_unpack_safe unpackmem_safe c32.safe_law c8.safe_law reads_safely_return)
qed

subsection \<open>The message\<close>

definition lics_of :: "lic_state \<Rightarrow> license list" where
  "lics_of st = (case license_list st of None \<Rightarrow> [] | Some ls \<Rightarrow> ls)"

definition license_msg_enc :: "int \<Rightarrow> license list \<Rightarrow> byte list" where
  "license_msg_enc now ls = be_bytes 8 (unat (of_int now :: u64)) @ concat (map license_enc ls)"

text \<open>Overwriting the count at the front.\<close>

lemma rewrite_count:
  assumes "buf_ok b" "4 \<le> length (written b)"
  shows "\<exists>b'. pack32 n (b\<lparr>buf_processed := 0\<rparr>) = Some b' \<and> buf_magic b' = BUF_MAGIC
    \<and> take (unat (buf_processed b)) (buf_head b') = be_bytes 4 (unat n) @ drop 4 (written b)"
proof -
  let ?b = "b\<lparr>buf_processed := 0\<rparr>"
  have d: "length (buf_head b) = unat (buf_size b)" "unat (buf_processed b) \<le> unat (buf_size b)" "4 \<le> unat (buf_processed b)" "buf_magic b = BUF_MAGIC"
    using buf_okD [OF assms(1)] assms(2) by simp_all
  have "\<not> unat (remaining_buf ?b) < 4" using d by (simp add: remaining_buf_def)
  then have "pack32 n ?b = Some (b\<lparr>buf_head := be_bytes 4 (unat n) @ drop 4 (buf_head b), buf_processed := 4\<rparr>)"
    using d by (simp add: pack32_def pack_fixed_def buf_put_def)
  moreover have "take (unat (buf_processed b)) (be_bytes 4 (unat n) @ drop 4 (buf_head b)) = be_bytes 4 (unat n) @ drop 4 (written b)"
    using d(3) by (simp add: written_def drop_take)
  ultimately show ?thesis using d(4) by simp
qed

lemma pack_licenses:
  assumes "\<forall>l \<in> set ls. length (lc_name l) < 0x40000000"
  shows "packs (pack_each (pack_license pv) ls) (if SLURM_MIN_PROTOCOL_VERSION \<le> pv then concat (map license_enc ls) else [])"
  using clic.pack_each_packs [OF assms] pack_license_supported [of pv] pack_license_unsupported [of pv ls] by (simp add: packs_Some)

lemma get_all_license_info_bytes:
  assumes "packs (pack_each (pack_license pv) (lics_of st)) e" "- (2 ^ 63) \<le> now" "now < 2 ^ 63" "2 * length e + 0x4018 \<le> 0xffff0000"
  shows "\<exists>dat n. get_all_license_info pv now st = Some (dat, n)
    \<and> take (unat n) dat = be_bytes 4 (unat (of_nat (length (lics_of st)) :: u32)) @ be_bytes 8 (unat (of_int now :: u64)) @ e
    \<and> unat n = 12 + length e"
proof -
  let ?ls = "lics_of st" and ?m = "be_bytes 8 (unat (of_int now :: u64)) @ e"
  obtain b0 where b0: "init_buf BUF_SIZE = Some b0" "buf_ok b0" "written b0 = []" by (rule init_buf_ok [of BUF_SIZE]) simp
  have p: "packs (\<lambda>b. pack32 0 b \<bind> (\<lambda>b. pack_time now b \<bind> pack_each (pack_license pv) ?ls)) (be_bytes 4 (unat (0 :: u32)) @ ?m)"
    using assms by (intro packs_bind c32.pack_law ctime.pack_law) simp_all
  obtain b where b: "pack32 0 b0 \<bind> (\<lambda>b. pack_time now b \<bind> pack_each (pack_license pv) ?ls) = Some b" "buf_ok b"
      "written b = be_bytes 4 (unat (0 :: u32)) @ ?m"
    using packsE [OF p b0(2)] b0(3) assms(4) by auto
  obtain b' where b': "pack32 (of_nat (length ?ls)) (b\<lparr>buf_processed := 0\<rparr>) = Some b'" "buf_magic b' = BUF_MAGIC"
      "take (unat (buf_processed b)) (buf_head b') = be_bytes 4 (unat (of_nat (length ?ls) :: u32)) @ drop 4 (written b)"
    using rewrite_count [OF b(2), of "of_nat (length ?ls)"] b(3) by auto
  have "get_all_license_info pv now st = Some (buf_head b', buf_processed b)"
    using b0(1) b(1) b'(1, 2)
    by (auto simp: get_all_license_info_def lics_of_def [symmetric] xfer_buf_data_def Let_def bind_eq_Some_conv Option.bind_assoc)
  moreover have "unat (buf_processed b) = 12 + length e" using buf_okD(5) [OF b(2)] b(3) by simp
  ultimately show ?thesis using b'(3) b(3) by (intro exI) auto
qed

lemma license_msg_unpacks:
  assumes "\<forall>l \<in> set ls. length (lc_name l) < 0x40000000" "- (2 ^ 63) \<le> now" "now < 2 ^ 63" "length ls < 4294967296"
    "SLURM_MIN_PROTOCOL_VERSION \<le> pv"
  shows "unpacks (unpack_license_info_msg pv) (be_bytes 4 (unat (of_nat (length ls) :: u32)) @ license_msg_enc now ls)
    \<lparr>lm_last_update = now, lm_num_lic = of_nat (length ls), lm_array = map license_seen ls\<rparr>"
proof -
  have n: "unat (of_nat (length ls) :: u32) = length ls" using assms(4) by (rule unat_of_nat32)
  have "unpacks (unpack_license_info_msg pv) (be_bytes 4 (unat (of_nat (length ls) :: u32)) @ be_bytes 8 (unat (of_int now :: u64)) @ concat (map license_enc ls) @ [])
    \<lparr>lm_last_update = now, lm_num_lic = of_nat (length ls), lm_array = map license_seen ls\<rparr>"
    unfolding unpack_license_info_msg_def if_P [OF assms(5)]
    by (intro safe_unpack_unpacks [OF c32.unpack_law] safe_unpack_unpacks [OF ctime.unpack_law] safe_unpack_unpacks [where x = "map license_seen ls"])
      (use assms n in \<open>simp_all add: clic.unpack_each_unpacks unpacks_return\<close>)
  then show ?thesis by (simp add: license_msg_enc_def)
qed

lemma license_msg_length: "length ls \<le> length (concat (map license_enc ls))"
  by (induction ls) (simp_all add: license_enc_def)

text \<open>C28 (roundtrip): The message of \<open>get_all_license_info\<close>, whose count is written last over a placeholder, is decoded by
  the client to the time, the count and exactly the licenses of the controller, with the free number of each (zero if more are in use than exist). For
  a protocol version below the oldest supported one no license is packed and the client reports an error.\<close>

theorem license_info_roundtrip:
  assumes "\<forall>l \<in> set (lics_of st). length (lc_name l) < 0x40000000" "- (2 ^ 63) \<le> now" "now < 2 ^ 63"
    "2 * length (license_msg_enc now (lics_of st)) + 0x4008 \<le> 0xffff0000"
  shows "\<exists>dat n c d. get_all_license_info pv now st = Some (dat, n) \<and> create_buf (take (unat n) dat) n = Some c
    \<and> unpack_license_info_msg pv c = Some (d, if SLURM_MIN_PROTOCOL_VERSION \<le> pv then Some \<lparr>lm_last_update = now, lm_num_lic = of_nat (length (lics_of st)),
         lm_array = map license_seen (lics_of st)\<rparr> else None) \<and> remaining_buf d = (if SLURM_MIN_PROTOCOL_VERSION \<le> pv then 0 else 12)"
proof -
  let ?ls = "lics_of st" and ?e = "if SLURM_MIN_PROTOCOL_VERSION \<le> pv then concat (map license_enc (lics_of st)) else []"
  let ?bs = "be_bytes 4 (unat (of_nat (length ?ls) :: u32)) @ be_bytes 8 (unat (of_int now :: u64)) @ ?e"
  have le: "length ?ls \<le> length (concat (map license_enc ?ls))" "2 * length ?e + 0x4018 \<le> 0xffff0000"
    using license_msg_length assms(4) by (simp_all add: license_msg_enc_def)
  obtain dat n where g: "get_all_license_info pv now st = Some (dat, n)" "take (unat n) dat = ?bs" "unat n = 12 + length ?e"
    using get_all_license_info_bytes [OF pack_licenses [OF assms(1)] assms(2,3) le(2)] by (elim exE conjE) (rule that; assumption)
  obtain c where c: "create_buf ?bs (of_nat (length ?bs)) = Some c" "buf_ok c" "unread c = ?bs"
    using create_buf_ok [of ?bs] le(2) by auto
  have l: "length ?bs = unat n" using g(3) by simp
  have n: "of_nat (length ?bs) = n" unfolding l by simp
  show ?thesis
  proof (cases "SLURM_MIN_PROTOCOL_VERSION \<le> pv")
    case True
    have "unpacks (unpack_license_info_msg pv) ?bs \<lparr>lm_last_update = now, lm_num_lic = of_nat (length ?ls), lm_array = map license_seen ?ls\<rparr>"
      using license_msg_unpacks [OF assms(1-3) _ True] le assms(4) True by (simp add: license_msg_enc_def)
    then obtain d where "unpack_license_info_msg pv c = Some (d, Some \<lparr>lm_last_update = now, lm_num_lic = of_nat (length ?ls), lm_array = map license_seen ?ls\<rparr>)"
        "buf_ok d" "unread d = []"
      using unpacksE [OF _ c(2), of "unpack_license_info_msg pv" ?bs _ "[]"] c(3) by auto
    then show ?thesis using g(1, 2) c(1) n remaining_zero True by auto
  next
    case False
    then have "length (unread c) = 12" using c(3) by simp
    then have "unat (remaining_buf c) = unat (12 :: u32)" using buf_okD(6) [OF c(2)] buf_okD(4) [OF c(2)] by simp
    then have "remaining_buf c = 12" by (rule unsigned_word_eqI)
    then show ?thesis using g(1, 2) c(1) n False by (auto simp: unpack_license_info_msg_def)
  qed
qed

theorem license_info_roundtrip_witness:
  "\<exists>dat n c d. get_all_license_info 8192 7 \<lparr>license_list = Some [\<lparr>lc_name = ''tux'', lc_total = 5, lc_used = 2, lc_remote = 1\<rparr>], last_license_update = 1\<rparr>
      = Some (dat, n) \<and> create_buf (take (unat n) dat) n = Some c
    \<and> unpack_license_info_msg 8192 c = Some (d, Some \<lparr>lm_last_update = 7, lm_num_lic = 1,
         lm_array = [\<lparr>li_name = Some (c_bytes ''tux''), li_total = 5, li_in_use = 2, li_available = 3, li_remote = 1\<rparr>]\<rparr>) \<and> remaining_buf d = 0"
  using license_info_roundtrip [of "\<lparr>license_list = Some [\<lparr>lc_name = ''tux'', lc_total = 5, lc_used = 2, lc_remote = 1\<rparr>], last_license_update = 1\<rparr>" 7 8192]
  by (simp add: SLURM_MIN_PROTOCOL_VERSION_def lics_of_def license_msg_enc_def license_enc_def license_seen_def mem_enc_def c_bytes_def)

end
