(* ===== verification/Job_Table.thy ===== *)
theory Job_Table
  imports Bitstring_Fmt
begin

section \<open>Job records and their hash tables (\<open>slurmctld/job_mgr.c\<close>)\<close>

text \<open>
  Job records live in a heap that maps addresses to records; a freed address has no record, and reading it, a failed assertion or a loop
  that does not end is \<open>None\<close>. Three hash tables hold the first record of each chain: \<open>job_hash\<close> by job id, \<open>job_array_hash_j\<close> and
  \<open>job_array_hash_t\<close> by the id and task of a job array. The chains run through fields of the records themselves. Of a record
  the fields are here that the tables and the job dependencies use.
\<close>

definition NO_VAL :: u32 where
  "NO_VAL = 0xfffffffe"

definition INFINITE :: u32 where
  "INFINITE = 0xffffffff"

record depend_spec =
  ds_array_task_id :: u32
  ds_depend_type :: u16
  ds_depend_flags :: u16
  ds_job_id :: u32
  ds_job_ptr :: "nat option"

record job_details =
  jd_depend_list :: "depend_spec list option"
  jd_dependency :: "string option"
  jd_expanding_jobid :: u32
  jd_share_res :: byte
  jd_whole_node :: byte

record job_array_struct =
  ja_task_cnt :: u32
  ja_task_id_bitmap :: "bitstr option"
  ja_max_exit_code :: u32

record job_record =
  jr_magic :: bool
  jr_job_id :: u32
  jr_array_job_id :: u32
  jr_array_task_id :: u32
  jr_array_recs :: "job_array_struct option"
  jr_bit_flags :: u32
  jr_details :: "job_details option"
  jr_end_time :: int
  jr_gres :: "string option"
  jr_job_next :: "nat option"
  jr_job_array_next_j :: "nat option"
  jr_job_array_next_t :: "nat option"
  jr_job_state :: u32
  jr_name :: "string option"
  jr_part_ptr :: "nat option"
  jr_qos_id :: u32
  jr_time_limit :: u32
  jr_user_id :: u32

type_synonym job_heap = "nat \<Rightarrow> job_record option"

text \<open>The global variables: the heap, the tables, all of \<open>hash_table_size\<close> entries, and \<open>job_list\<close>.\<close>

record job_tables =
  jt_heap :: job_heap
  jt_hash :: "nat option list"
  jt_hash_j :: "nat option list"
  jt_hash_t :: "nat option list"
  jt_job_list :: "nat list"

subsection \<open>Job states\<close>

datatype job_states = JOB_PENDING | JOB_RUNNING | JOB_SUSPENDED | JOB_COMPLETE | JOB_CANCELLED | JOB_FAILED | JOB_TIMEOUT
  | JOB_NODE_FAIL | JOB_PREEMPTED | JOB_BOOT_FAIL | JOB_DEADLINE | JOB_OOM | JOB_END

fun job_state_num :: "job_states \<Rightarrow> u32" where
  "job_state_num JOB_PENDING = 0"
| "job_state_num JOB_RUNNING = 1"
| "job_state_num JOB_SUSPENDED = 2"
| "job_state_num JOB_COMPLETE = 3"
| "job_state_num JOB_CANCELLED = 4"
| "job_state_num JOB_FAILED = 5"
| "job_state_num JOB_TIMEOUT = 6"
| "job_state_num JOB_NODE_FAIL = 7"
| "job_state_num JOB_PREEMPTED = 8"
| "job_state_num JOB_BOOT_FAIL = 9"
| "job_state_num JOB_DEADLINE = 10"
| "job_state_num JOB_OOM = 11"
| "job_state_num JOB_END = 12"

definition job_base :: "job_record \<Rightarrow> u32" where
  "job_base r = jr_job_state r AND 0xff"

definition is_job :: "job_states \<Rightarrow> job_record \<Rightarrow> bool" where
  "is_job s r \<longleftrightarrow> job_base r = job_state_num s"

definition IS_JOB_FINISHED :: "job_record \<Rightarrow> bool" where
  "IS_JOB_FINISHED r \<longleftrightarrow> job_base r > job_state_num JOB_SUSPENDED"

definition JOB_COMPLETING :: u32 where
  "JOB_COMPLETING = 0x8000"

definition JOB_SPECIAL_EXIT :: u32 where
  "JOB_SPECIAL_EXIT = 0x1000"

definition IS_JOB_COMPLETED :: "job_record \<Rightarrow> bool" where
  "IS_JOB_COMPLETED r \<longleftrightarrow> IS_JOB_FINISHED r \<and> jr_job_state r AND JOB_COMPLETING = 0"

subsection \<open>Chains\<close>

definition JOB_HASH_INX :: "job_tables \<Rightarrow> u32 \<Rightarrow> int" where
  "JOB_HASH_INX st job_id = int (unat job_id mod length (jt_hash st))"

text \<open>The sum of the ids is taken in 32 bits.\<close>

definition JOB_ARRAY_HASH_INX :: "job_tables \<Rightarrow> u32 \<Rightarrow> u32 \<Rightarrow> int" where
  "JOB_ARRAY_HASH_INX st job_id task_id = int (unat (job_id + task_id) mod length (jt_hash_t st))"

text \<open>The loops along a chain, for any type of record with a pointer to the next one. The first returns at the first record with a property.\<close>

partial_function (option) chain_find :: "('r \<Rightarrow> nat option) \<Rightarrow> ('r \<Rightarrow> bool) \<Rightarrow> (nat \<Rightarrow> 'r option) \<Rightarrow> nat option \<Rightarrow> nat option option" where
  [code]: "chain_find nx P h p = (case p of
     None \<Rightarrow> Some None
   | Some a \<Rightarrow> do { r \<leftarrow> h a; if P r then Some (Some a) else chain_find nx P h (nx r) })"

definition find_job_record :: "job_tables \<Rightarrow> u32 \<Rightarrow> nat option option" where
  "find_job_record st job_id = do {
     p \<leftarrow> c_rd (jt_hash st) (JOB_HASH_INX st job_id);
     chain_find jr_job_next (\<lambda>r. jr_job_id r = job_id) (jt_heap st) p
   }"

text \<open>The first record with both properties, else the last one with the first property.\<close>

partial_function (option) chain_prefer :: "('r \<Rightarrow> nat option) \<Rightarrow> ('r \<Rightarrow> bool) \<Rightarrow> ('r \<Rightarrow> bool) \<Rightarrow> (nat \<Rightarrow> 'r option) \<Rightarrow> nat option \<Rightarrow> nat option \<Rightarrow> nat option option" where
  [code]: "chain_prefer nx P Q h m p = (case p of
     None \<Rightarrow> Some m
   | Some a \<Rightarrow> do {
       r \<leftarrow> h a;
       if P r \<and> Q r then Some (Some a) else chain_prefer nx P Q h (if P r then Some a else m) (nx r)
     })"

text \<open>Any task of an array, if possible one that is not finished.\<close>

definition any_task :: "job_tables \<Rightarrow> u32 \<Rightarrow> nat option option" where
  "any_task st array_job_id = do {
     p \<leftarrow> c_rd (jt_hash_j st) (JOB_HASH_INX st array_job_id);
     chain_prefer jr_job_array_next_j (\<lambda>r. jr_array_job_id r = array_job_id) (\<lambda>r. \<not> IS_JOB_FINISHED r) (jt_heap st) None p
   }"

definition rec_of :: "job_tables \<Rightarrow> nat option \<Rightarrow> job_record option option" where
  "rec_of st p = (case p of None \<Rightarrow> Some None | Some a \<Rightarrow> map_option Some (jt_heap st a))"

text \<open>Whether the task is among those that have no record of their own yet.\<close>

definition pending_task :: "job_record \<Rightarrow> u32 \<Rightarrow> bool option" where
  "pending_task r array_task_id = (case jr_array_recs r of
     None \<Rightarrow> Some False
   | Some ar \<Rightarrow> (case ja_task_id_bitmap ar of
       None \<Rightarrow> Some False
     | Some b \<Rightarrow> do {
         inx \<leftarrow> bit_size b;
         if array_task_id < of_int inx then bit_test b (int (unat array_task_id)) else Some False
       }))"

definition find_job_array_rec :: "job_tables \<Rightarrow> u32 \<Rightarrow> u32 \<Rightarrow> nat option option" where
  "find_job_array_rec st array_job_id array_task_id =
     (if array_task_id = NO_VAL then find_job_record st array_job_id
      else if array_task_id = INFINITE then do {
        job_ptr \<leftarrow> find_job_record st array_job_id;
        r \<leftarrow> rec_of st job_ptr;
        (case r of
           Some r \<Rightarrow> if jr_array_recs r \<noteq> None \<and> jr_array_job_id r = array_job_id then Some job_ptr
             else any_task st array_job_id
         | None \<Rightarrow> any_task st array_job_id)
      }
      else do {
        p \<leftarrow> c_rd (jt_hash_t st) (JOB_ARRAY_HASH_INX st array_job_id array_task_id);
        m \<leftarrow> chain_find jr_job_array_next_t (\<lambda>r. jr_array_job_id r = array_job_id \<and> jr_array_task_id r = array_task_id) (jt_heap st) p;
        if m \<noteq> None then Some m
        else do {
          job_ptr \<leftarrow> find_job_record st array_job_id;
          r \<leftarrow> rec_of st job_ptr;
          (case r of
             None \<Rightarrow> Some None
           | Some r \<Rightarrow> do { t \<leftarrow> pending_task r array_task_id; Some (if t then job_ptr else None) })
        }
      })"

subsection \<open>Tests of job arrays\<close>

text \<open>The second half of the tests: whether a task of the array has the property.\<close>

definition some_task :: "job_tables \<Rightarrow> u32 \<Rightarrow> (job_record \<Rightarrow> bool) \<Rightarrow> bool option" where
  "some_task st array_job_id P = do {
     p \<leftarrow> c_rd (jt_hash_j st) (JOB_HASH_INX st array_job_id);
     m \<leftarrow> chain_find jr_job_array_next_j (\<lambda>r. jr_array_job_id r = array_job_id \<and> P r) (jt_heap st) p;
     Some (m \<noteq> None)
   }"

definition meta_rec :: "job_tables \<Rightarrow> u32 \<Rightarrow> job_record option option" where
  "meta_rec st array_job_id = do { p \<leftarrow> find_job_record st array_job_id; rec_of st p }"

definition test_job_array_complete :: "job_tables \<Rightarrow> u32 \<Rightarrow> bool option" where
  "test_job_array_complete st array_job_id = do {
     m \<leftarrow> meta_rec st array_job_id;
     if (case m of None \<Rightarrow> False | Some r \<Rightarrow> \<not> is_job JOB_COMPLETE r
           \<or> (case jr_array_recs r of None \<Rightarrow> False | Some ar \<Rightarrow> ja_max_exit_code ar \<noteq> 0)) then Some False
     else map_option Not (some_task st array_job_id (\<lambda>r. \<not> is_job JOB_COMPLETE r))
   }"

definition test_job_array_completed :: "job_tables \<Rightarrow> u32 \<Rightarrow> bool option" where
  "test_job_array_completed st array_job_id = do {
     m \<leftarrow> meta_rec st array_job_id;
     if (case m of None \<Rightarrow> False | Some r \<Rightarrow> \<not> IS_JOB_COMPLETED r) then Some False
     else map_option Not (some_task st array_job_id (\<lambda>r. \<not> IS_JOB_COMPLETED r))
   }"

definition test_job_array_finished :: "job_tables \<Rightarrow> u32 \<Rightarrow> bool option" where
  "test_job_array_finished st array_job_id = do {
     m \<leftarrow> meta_rec st array_job_id;
     if (case m of None \<Rightarrow> False | Some r \<Rightarrow> \<not> IS_JOB_FINISHED r) then Some False
     else map_option Not (some_task st array_job_id (\<lambda>r. \<not> IS_JOB_FINISHED r))
   }"

definition test_job_array_pending :: "job_tables \<Rightarrow> u32 \<Rightarrow> bool option" where
  "test_job_array_pending st array_job_id = do {
     m \<leftarrow> meta_rec st array_job_id;
     if (case m of None \<Rightarrow> False | Some r \<Rightarrow> is_job JOB_PENDING r
           \<or> (case jr_array_recs r of None \<Rightarrow> False | Some ar \<Rightarrow> ja_task_cnt ar \<noteq> 0)) then Some True
     else some_task st array_job_id (is_job JOB_PENDING)
   }"

partial_function (option) chain_count :: "('r \<Rightarrow> nat option) \<Rightarrow> ('r \<Rightarrow> bool) \<Rightarrow> (nat \<Rightarrow> 'r option) \<Rightarrow> int \<Rightarrow> nat option \<Rightarrow> int option" where
  [code]: "chain_count nx P h n p = (case p of
     None \<Rightarrow> Some n
   | Some a \<Rightarrow> do { r \<leftarrow> h a; chain_count nx P h (if P r then n + 1 else n) (nx r) })"

definition num_pending_job_array_tasks :: "job_tables \<Rightarrow> u32 \<Rightarrow> int option" where
  "num_pending_job_array_tasks st array_job_id = do {
     p \<leftarrow> c_rd (jt_hash_j st) (JOB_HASH_INX st array_job_id);
     chain_count jr_job_array_next_j (\<lambda>r. jr_array_job_id r = array_job_id \<and> is_job JOB_PENDING r) (jt_heap st) 0 p
   }"

subsection \<open>Changing the tables\<close>

definition change_rec :: "nat \<Rightarrow> (job_record \<Rightarrow> job_record) \<Rightarrow> job_tables \<Rightarrow> job_tables option" where
  "change_rec a f st = do { r \<leftarrow> jt_heap st a; Some (st\<lparr>jt_heap := (jt_heap st)(a \<mapsto> f r)\<rparr>) }"

definition add_job_hash :: "nat \<Rightarrow> job_tables \<Rightarrow> job_tables option" where
  "add_job_hash a st = do {
     r \<leftarrow> jt_heap st a;
     let inx = JOB_HASH_INX st (jr_job_id r);
     p \<leftarrow> c_rd (jt_hash st) inx;
     st \<leftarrow> change_rec a (\<lambda>r. r\<lparr>jr_job_next := p\<rparr>) st;
     tab \<leftarrow> c_wr (jt_hash st) inx (Some a);
     Some (st\<lparr>jt_hash := tab\<rparr>)
   }"

definition add_job_array_hash :: "nat \<Rightarrow> job_tables \<Rightarrow> job_tables option" where
  "add_job_array_hash a st = do {
     r \<leftarrow> jt_heap st a;
     if jr_array_task_id r = NO_VAL then Some st
     else do {
       let inx = JOB_HASH_INX st (jr_array_job_id r);
       p \<leftarrow> c_rd (jt_hash_j st) inx;
       st \<leftarrow> change_rec a (\<lambda>r. r\<lparr>jr_job_array_next_j := p\<rparr>) st;
       tab \<leftarrow> c_wr (jt_hash_j st) inx (Some a);
       let st = st\<lparr>jt_hash_j := tab\<rparr>;
       let inx = JOB_ARRAY_HASH_INX st (jr_array_job_id r) (jr_array_task_id r);
       p \<leftarrow> c_rd (jt_hash_t st) inx;
       st \<leftarrow> change_rec a (\<lambda>r. r\<lparr>jr_job_array_next_t := p\<rparr>) st;
       tab \<leftarrow> c_wr (jt_hash_t st) inx (Some a);
       Some (st\<lparr>jt_hash_t := tab\<rparr>)
     }
   }"

datatype job_hash_type = JOB_HASH_JOB | JOB_HASH_ARRAY_JOB | JOB_HASH_ARRAY_TASK

text \<open>The loop of \<open>_remove_job_hash\<close>: \<open>job_pptr\<close> is the place of a pointer, the table entry (\<open>None\<close>) or the field of a record.
  It stops at the pointer to the record or at a null pointer.\<close>

partial_function (option) slot_loop :: "('r \<Rightarrow> nat option) \<Rightarrow> ('r \<Rightarrow> bool) \<Rightarrow> (nat \<Rightarrow> 'r option) \<Rightarrow> nat \<Rightarrow> nat option \<Rightarrow> nat option \<Rightarrow> nat option option" where
  [code]: "slot_loop nx ok h job_entry pptr p = (case p of
     None \<Rightarrow> Some pptr
   | Some a \<Rightarrow> if a = job_entry then Some pptr
       else do { r \<leftarrow> h a; c_assert (ok r); slot_loop nx ok h job_entry (Some a) (nx r) })"

text \<open>Whatever the type, the field \<open>job_next\<close> of the removed record is written to the place and cleared.\<close>

definition remove_job_hash :: "nat \<Rightarrow> job_hash_type \<Rightarrow> job_tables \<Rightarrow> job_tables option" where
  "remove_job_hash job_entry type st = do {
     e \<leftarrow> jt_heap st job_entry;
     st \<leftarrow> (case type of
         JOB_HASH_JOB \<Rightarrow> do {
           let inx = JOB_HASH_INX st (jr_job_id e);
           p \<leftarrow> c_rd (jt_hash st) inx;
           pptr \<leftarrow> slot_loop jr_job_next jr_magic (jt_heap st) job_entry None p;
           (case pptr of
              None \<Rightarrow> do { tab \<leftarrow> c_wr (jt_hash st) inx (jr_job_next e); Some (st\<lparr>jt_hash := tab\<rparr>) }
            | Some b \<Rightarrow> change_rec b (\<lambda>r. r\<lparr>jr_job_next := jr_job_next e\<rparr>) st)
         }
       | JOB_HASH_ARRAY_JOB \<Rightarrow> do {
           let inx = JOB_HASH_INX st (jr_array_job_id e);
           p \<leftarrow> c_rd (jt_hash_j st) inx;
           pptr \<leftarrow> slot_loop jr_job_array_next_j jr_magic (jt_heap st) job_entry None p;
           (case pptr of
              None \<Rightarrow> do { tab \<leftarrow> c_wr (jt_hash_j st) inx (jr_job_next e); Some (st\<lparr>jt_hash_j := tab\<rparr>) }
            | Some b \<Rightarrow> change_rec b (\<lambda>r. r\<lparr>jr_job_array_next_j := jr_job_next e\<rparr>) st)
         }
       | JOB_HASH_ARRAY_TASK \<Rightarrow> do {
           let inx = JOB_ARRAY_HASH_INX st (jr_array_job_id e) (jr_array_task_id e);
           p \<leftarrow> c_rd (jt_hash_t st) inx;
           pptr \<leftarrow> slot_loop jr_job_array_next_t jr_magic (jt_heap st) job_entry None p;
           (case pptr of
              None \<Rightarrow> do { tab \<leftarrow> c_wr (jt_hash_t st) inx (jr_job_next e); Some (st\<lparr>jt_hash_t := tab\<rparr>) }
            | Some b \<Rightarrow> change_rec b (\<lambda>r. r\<lparr>jr_job_array_next_t := jr_job_next e\<rparr>) st)
         });
     change_rec job_entry (\<lambda>r. r\<lparr>jr_job_next := None\<rparr>) st
   }"

text \<open>The destructor of \<open>job_list\<close>: the record leaves the tables and its memory is freed.\<close>

definition list_delete_job :: "nat \<Rightarrow> job_tables \<Rightarrow> job_tables option" where
  "list_delete_job job_entry st = do {
     e \<leftarrow> jt_heap st job_entry;
     c_assert (jr_magic e);
     st \<leftarrow> change_rec job_entry (\<lambda>r. r\<lparr>jr_magic := False\<rparr>) st;
     st \<leftarrow> remove_job_hash job_entry JOB_HASH_JOB st;
     st \<leftarrow> (if jr_array_task_id e \<noteq> NO_VAL then do {
             st \<leftarrow> remove_job_hash job_entry JOB_HASH_ARRAY_JOB st;
             remove_job_hash job_entry JOB_HASH_ARRAY_TASK st
           } else Some st);
     Some (st\<lparr>jt_heap := (jt_heap st)(job_entry := None), jt_job_list := remove1 job_entry (jt_job_list st)\<rparr>)
   }"

end
