(* ===== verification/Job_Chains.thy ===== *)
theory Job_Chains
  imports Job_Table
begin

section \<open>Chained hash tables\<close>

text \<open>
  The contract of a hash table whose chains run through a field of the records, as a locale over the field and its update:
  the loops find what is in the chain, pushing in front and redirecting one pointer keep all chains of the table
  well-formed. It is interpreted for the three fields of a job record. With it: the job hash is exact after any history
  of creations and deletions, while deleting a task of a job array cuts off the array chains behind it.
\<close>

subsection \<open>Chains and buckets\<close>

primrec chain :: "('r \<Rightarrow> nat option) \<Rightarrow> (nat \<Rightarrow> 'r option) \<Rightarrow> nat option \<Rightarrow> nat list \<Rightarrow> bool" where
  "chain nx h p [] \<longleftrightarrow> p = None"
| "chain nx h p (a # xs) \<longleftrightarrow> p = Some a \<and> (\<exists>r. h a = Some r \<and> chain nx h (nx r) xs)"

definition buckets :: "('r \<Rightarrow> nat option) \<Rightarrow> (nat \<Rightarrow> 'r option) \<Rightarrow> nat option list \<Rightarrow> nat list list \<Rightarrow> bool" where
  "buckets nx h tab Xs \<longleftrightarrow> list_all2 (chain nx h) tab Xs \<and> distinct (concat Xs)"

lemma chain_in_heap: "chain nx h p xs \<Longrightarrow> a \<in> set xs \<Longrightarrow> \<exists>r. h a = Some r"
  by (induction xs arbitrary: p) auto

lemma chain_behind: "chain nx h p (us @ a # vs) \<Longrightarrow> h a = Some e \<Longrightarrow> chain nx h (nx e) vs"
  by (induction us arbitrary: p) auto

lemma chain_upd_other: "a \<notin> set xs \<Longrightarrow> chain nx (h(a := x)) p xs \<longleftrightarrow> chain nx h p xs"
  by (induction xs arbitrary: p) auto

lemma chain_upd_field:
  "chain nx h p xs \<Longrightarrow> h a = Some r \<Longrightarrow> nx r' = nx r \<Longrightarrow> chain nx (h(a \<mapsto> r')) p xs"
proof (induction xs arbitrary: p)
  case (Cons b xs)
  then show ?case by (cases "b = a") auto
qed simp

lemma chain_find_chain:
  "chain nx h p xs \<Longrightarrow> chain_find nx P h p = Some (find (\<lambda>a. P (the (h a))) xs)"
proof (induction xs arbitrary: p)
  case Nil
  then show ?case by (simp add: chain_find.simps)
next
  case (Cons a xs)
  then obtain r where r: "p = Some a" "h a = Some r" "chain nx h (nx r) xs" by auto
  then show ?case using Cons.IH [OF r(3)] by (subst chain_find.simps) simp
qed

lemma slot_loop_chain:
  assumes "chain nx h p xs" "\<forall>b \<in> set xs. b \<noteq> a \<longrightarrow> ok (the (h b))"
  shows "slot_loop nx ok h a pp p = Some (if takeWhile (\<lambda>b. b \<noteq> a) xs = [] then pp else Some (last (takeWhile (\<lambda>b. b \<noteq> a) xs)))"
  using assms
proof (induction xs arbitrary: p pp)
  case Nil
  then show ?case by (simp add: slot_loop.simps)
next
  case (Cons b xs)
  then obtain r where r: "p = Some b" "h b = Some r" "chain nx h (nx r) xs" by auto
  have "ok r" if "b \<noteq> a" using Cons.prems(2) r(2) that by simp
  then show ?case using r Cons.IH [OF r(3)] Cons.prems(2) by (subst slot_loop.simps) auto
qed

lemma bucketsD:
  assumes "buckets nx h tab Xs" "i < length tab"
  shows "chain nx h (tab ! i) (Xs ! i)" "length Xs = length tab" "distinct (Xs ! i)"
proof -
  show "chain nx h (tab ! i) (Xs ! i)" "length Xs = length tab"
    using assms by (auto simp: buckets_def list_all2_conv_all_nth)
  then show "distinct (Xs ! i)" using assms by (auto simp: buckets_def distinct_concat_iff)
qed

lemma concat_split: "i < length Xs \<Longrightarrow> concat Xs = concat (take i Xs) @ Xs ! i @ concat (drop (Suc i) Xs)"
  by (metis append_assoc concat.simps(2) concat_append id_take_nth_drop)

lemma concat_update: "i < length Xs \<Longrightarrow> concat (Xs[i := ys]) = concat (take i Xs) @ ys @ concat (drop (Suc i) Xs)"
  by (simp add: upd_conv_take_nth_drop)

lemma distinct_concat_less:
  assumes "distinct (concat Xs)" "i < length Xs" "set ys \<subseteq> set (Xs ! i)" "distinct ys"
  shows "distinct (concat (Xs[i := ys]))"
  using assms unfolding concat_update [OF assms(2)] by (subst (asm) concat_split [OF assms(2)]) auto

lemma distinct_concat_push:
  assumes "distinct (concat Xs)" "i < length Xs" "a \<notin> set (concat Xs)"
  shows "distinct (concat (Xs[i := a # Xs ! i]))"
  using assms unfolding concat_update [OF assms(2)] concat_split [OF assms(2)] by auto

lemma set_concat_push: "i < length Xs \<Longrightarrow> set (concat (Xs[i := a # Xs ! i])) = insert a (set (concat Xs))"
  unfolding concat_update concat_split by auto

lemma other_bucket:
  assumes "distinct (concat Xs)" "i < length Xs" "j < length Xs" "i \<noteq> j" "a \<in> set (Xs ! i)"
  shows "a \<notin> set (Xs ! j)"
proof (cases "j < i")
  case True
  then have "Xs ! j \<in> set (take i Xs)" using assms(2) by (metis in_set_conv_nth length_take min.absorb4 nth_take)
  then show ?thesis using assms(1, 5) by (auto simp: concat_split [OF assms(2)])
next
  case False
  then have "drop (Suc i) Xs ! (j - Suc i) = Xs ! j" "j - Suc i < length (drop (Suc i) Xs)" using assms(3, 4) by auto
  then have "Xs ! j \<in> set (drop (Suc i) Xs)" by (metis nth_mem)
  then show ?thesis using assms(1, 5) by (auto simp: concat_split [OF assms(2)])
qed

lemma buckets_upd_other: "a \<notin> set (concat Xs) \<Longrightarrow> buckets nx (h(a := x)) tab Xs \<longleftrightarrow> buckets nx h tab Xs"
  by (auto simp: buckets_def list_all2_conv_all_nth chain_upd_other)

lemma buckets_upd_field:
  "buckets nx h tab Xs \<Longrightarrow> h a = Some r \<Longrightarrow> nx r' = nx r \<Longrightarrow> buckets nx (h(a \<mapsto> r')) tab Xs"
  by (auto simp: buckets_def list_all2_conv_all_nth intro: chain_upd_field)

lemma not_in_takeWhile: "a \<notin> set (takeWhile (\<lambda>b. b \<noteq> a) xs)"
  by (auto dest: set_takeWhileD)

subsection \<open>The contract of a table\<close>

locale chained_table =
  fixes nx :: "'r \<Rightarrow> nat option" and set_nx :: "nat option \<Rightarrow> 'r \<Rightarrow> 'r"
  assumes nx_set: "nx (set_nx v r) = v"
begin

lemma chain_cut:
  assumes "chain nx h p (xs @ ys)" "xs \<noteq> []" "distinct (xs @ zs)" "h (last xs) = Some r" "chain nx h v zs"
  shows "chain nx (h(last xs \<mapsto> set_nx v r)) p (xs @ zs)"
  using assms
proof (induction xs arbitrary: p)
  case (Cons a xs)
  show ?case
  proof (cases "xs = []")
    case True
    have "chain nx (h(a \<mapsto> set_nx v r)) v zs" using Cons.prems(3, 5) True by (subst chain_upd_other) auto
    moreover have "last (a # xs) = a" "p = Some a" "h a = Some r" using Cons.prems(1, 4) True by auto
    ultimately show ?thesis using True by (simp add: nx_set del: fun_upd_apply) (simp add: nx_set)
  next
    case False
    then have "a \<noteq> last xs" using Cons.prems(3) last_in_set by fastforce
    then show ?thesis using Cons False by auto
  qed
qed simp

lemma push:
  assumes "buckets nx h tab Xs" "i < length tab" "a \<notin> set (concat Xs)" "h a = Some r"
  shows "buckets nx (h(a \<mapsto> set_nx (tab ! i) r)) (tab[i := Some a]) (Xs[i := a # Xs ! i])"
proof -
  note b = bucketsD [OF assms(1)]
  have l: "length Xs = length tab" using b(2) assms(2) by simp
  have "chain nx (h(a \<mapsto> set_nx (tab ! i) r)) (tab[i := Some a] ! j) (Xs[i := a # Xs ! i] ! j)" if "j < length tab" for j
  proof -
    have "a \<notin> set (Xs ! k)" if "k < length tab" for k using assms(3) that l by auto
    then show ?thesis using b(1) [OF that] b(1) [OF assms(2)] l that assms(2)
      by (cases "j = i") (simp_all add: chain_upd_other nx_set)
  qed
  then show ?thesis using assms l distinct_concat_push [of Xs i a] by (simp add: buckets_def list_all2_conv_all_nth)
qed

text \<open>One pointer is redirected, that to \<open>a\<close> or the last one of the chain.\<close>

lemma cut:
  assumes "buckets nx h tab Xs" "i < length tab" "xs = takeWhile (\<lambda>b. b \<noteq> a) (Xs ! i)"
    "chain nx h v zs" "set zs \<subseteq> set (Xs ! i) - set xs" "distinct zs"
  shows "xs = [] \<Longrightarrow> buckets nx h (tab[i := v]) (Xs[i := zs])"
    "xs \<noteq> [] \<Longrightarrow> h (last xs) = Some r \<Longrightarrow> buckets nx (h(last xs \<mapsto> set_nx v r)) tab (Xs[i := xs @ zs])"
proof -
  note b = bucketsD [OF assms(1)]
  have l: "length Xs = length tab" "i < length Xs" using b(2) assms(2) by simp_all
  have sub: "set xs \<subseteq> set (Xs ! i)" "distinct xs" using assms(3) b(3) [OF assms(2)] by (auto dest: set_takeWhileD)
  have d: "distinct (concat Xs)" using assms(1) by (simp add: buckets_def)
  show "buckets nx h (tab[i := v]) (Xs[i := zs])" if "xs = []"
  proof -
    have "chain nx h (tab[i := v] ! j) (Xs[i := zs] ! j)" if "j < length tab" for j
      using b(1) [OF that] assms(4) l that by (cases "j = i") simp_all
    then show ?thesis using distinct_concat_less [OF d l(2), of zs] assms(5, 6) l by (auto simp: buckets_def list_all2_conv_all_nth)
  qed
  show "buckets nx (h(last xs \<mapsto> set_nx v r)) tab (Xs[i := xs @ zs])" if x: "xs \<noteq> []" "h (last xs) = Some r"
  proof -
    have dis: "distinct (xs @ zs)" using sub(2) assms(5, 6) by auto
    have "chain nx (h(last xs \<mapsto> set_nx v r)) (tab ! j) (Xs[i := xs @ zs] ! j)" if j: "j < length tab" for j
    proof (cases "j = i")
      case True
      have "chain nx h (tab ! i) (xs @ dropWhile (\<lambda>b. b \<noteq> a) (Xs ! i))" using b(1) [OF assms(2)] assms(3) by simp
      then show ?thesis using chain_cut [OF _ x(1) dis x(2) assms(4)] True l by simp
    next
      case False
      have "last xs \<in> set (Xs ! i)" using sub(1) x(1) by auto
      then have "last xs \<notin> set (Xs ! j)" using other_bucket [OF d l(2)] j l(1) False by metis
      then show ?thesis using b(1) [OF j] False by (simp add: chain_upd_other)
    qed
    then show ?thesis using distinct_concat_less [OF d l(2), of "xs @ zs"] assms(5) sub(1) dis l
      by (auto simp: buckets_def list_all2_conv_all_nth)
  qed
qed

end

text \<open>A table by keys: every record is in the bucket of its key. A pointer of the chain of \<open>a\<close> is redirected to \<open>v\<close> by the removal.\<close>

definition put_slot :: "('r \<Rightarrow> 'r) \<Rightarrow> (nat \<Rightarrow> 'r option) \<Rightarrow> nat list \<Rightarrow> nat \<Rightarrow> 'r option" where
  "put_slot f h xs = (if xs = [] then h else h(last xs \<mapsto> f (the (h (last xs)))))"

locale keyed_table = chained_table nx set_nx
  for nx :: "'r \<Rightarrow> nat option" and set_nx :: "nat option \<Rightarrow> 'r \<Rightarrow> 'r" +
  fixes key :: "'r \<Rightarrow> nat" and act :: "'r \<Rightarrow> bool"
  assumes key_set: "key (set_nx v r) = key r" and act_set: "act (set_nx v r) = act r"
begin

definition tab_ok :: "(nat \<Rightarrow> 'r option) \<Rightarrow> nat option list \<Rightarrow> nat list list \<Rightarrow> bool" where
  "tab_ok h tab Xs \<longleftrightarrow> buckets nx h tab Xs \<and> 0 < length tab
     \<and> (\<forall>k < length tab. \<forall>a \<in> set (Xs ! k). \<exists>r. h a = Some r \<and> act r \<and> key r mod length tab = k)"

lemma tab_okD:
  assumes "tab_ok h tab Xs"
  shows "buckets nx h tab Xs" "0 < length tab" "length Xs = length tab"
    "k < length tab \<Longrightarrow> a \<in> set (Xs ! k) \<Longrightarrow> \<exists>r. h a = Some r \<and> act r \<and> key r mod length tab = k"
    "a \<in> set (concat Xs) \<Longrightarrow> \<exists>r. h a = Some r \<and> act r \<and> a \<in> set (Xs ! (key r mod length tab))"
proof -
  show t: "buckets nx h tab Xs" "0 < length tab" using assms by (simp_all add: tab_ok_def)
  then show l: "length Xs = length tab" by (auto simp: buckets_def list_all2_conv_all_nth)
  show p: "\<exists>r. h a = Some r \<and> act r \<and> key r mod length tab = k" if "k < length tab" "a \<in> set (Xs ! k)" for k a
    using assms that by (simp add: tab_ok_def)
  show "\<exists>r. h a = Some r \<and> act r \<and> a \<in> set (Xs ! (key r mod length tab))" if a: "a \<in> set (concat Xs)"
  proof -
    obtain X where "X \<in> set Xs" "a \<in> set X" using a by auto
    then obtain k where k: "k < length tab" "a \<in> set (Xs ! k)" using l by (metis in_set_conv_nth)
    then show ?thesis using p [OF k] by auto
  qed
qed

lemma tab_upd:
  assumes "tab_ok h tab Xs" "h b = Some r" "nx r' = nx r" "key r' = key r" "act r' = act r"
  shows "tab_ok (h(b \<mapsto> r')) tab Xs"
proof -
  have "\<exists>q. (h(b \<mapsto> r')) a = Some q \<and> act q \<and> key q mod length tab = k" if k: "k < length tab" "a \<in> set (Xs ! k)" for k a
    using tab_okD(4) [OF assms(1) k] assms(2, 4, 5) by (cases "a = b") auto
  then show ?thesis using buckets_upd_field [OF tab_okD(1) [OF assms(1)] assms(2, 3)] tab_okD(2) [OF assms(1)] by (simp add: tab_ok_def)
qed

lemma tab_upd_out: "tab_ok h tab Xs \<Longrightarrow> a \<notin> set (concat Xs) \<Longrightarrow> tab_ok (h(a := x)) tab Xs"
proof -
  assume t: "tab_ok h tab Xs" and a: "a \<notin> set (concat Xs)"
  have "\<exists>q. (h(a := x)) b = Some q \<and> act q \<and> key q mod length tab = k" if k: "k < length tab" "b \<in> set (Xs ! k)" for k b
    using tab_okD(4) [OF t k] k tab_okD(3) [OF t] a by auto
  then show ?thesis using t a tab_okD(1, 2) [OF t] by (simp add: tab_ok_def buckets_upd_other)
qed

lemma tab_unused: "tab_ok h tab Xs \<Longrightarrow> h a = None \<Longrightarrow> a \<notin> set (concat Xs)"
  using tab_okD(5) [of h tab Xs a] by fastforce

lemma tab_put_slot:
  assumes "tab_ok h tab Xs" "\<forall>b \<in> set xs. h b \<noteq> None" "\<And>r. nx (f r) = nx r" "\<And>r. key (f r) = key r" "\<And>r. act (f r) = act r"
  shows "tab_ok (put_slot f h xs) tab Xs"
proof (cases "xs = []")
  case False
  then obtain r where "h (last xs) = Some r" using assms(2) last_in_set by blast
  then show ?thesis using tab_upd [OF assms(1), of "last xs" r "f r"] assms(3-5) False by (simp add: put_slot_def)
qed (use assms(1) in \<open>simp add: put_slot_def\<close>)

lemma tab_insert:
  assumes "tab_ok h tab Xs" "a \<notin> set (concat Xs)" "h a = Some r" "act r" "i = key r mod length tab"
  shows "tab_ok (h(a \<mapsto> set_nx (tab ! i) r)) (tab[i := Some a]) (Xs[i := a # Xs ! i])"
proof -
  note t = tab_okD [OF assms(1)]
  have i: "i < length tab" using t(2) assms(5) by simp
  have "\<exists>r'. (h(a \<mapsto> set_nx (tab ! i) r)) b = Some r' \<and> act r' \<and> key r' mod length tab = k"
    if k: "k < length tab" "b \<in> set (Xs[i := a # Xs ! i] ! k)" for k b
  proof (cases "b = a")
    case True
    have "a \<notin> set (Xs ! k)" using assms(2) k(1) t(3) by auto
    then have "k = i" using k True by (metis nth_list_update_neq)
    then show ?thesis using True assms(4, 5) key_set act_set by simp
  next
    case False
    then have "b \<in> set (Xs ! k)" using k t(3) i by (cases "k = i") auto
    then show ?thesis using t(4) [OF k(1)] False by simp
  qed
  then show ?thesis using push [OF t(1) i assms(2, 3)] t(2) by (simp add: tab_ok_def)
qed

lemma tab_remove:
  assumes "tab_ok h tab Xs" "i < length tab" "xs = takeWhile (\<lambda>b. b \<noteq> a) (Xs ! i)"
    "chain nx h v zs" "set zs \<subseteq> set (Xs ! i) - set xs" "distinct zs"
  shows "tab_ok (put_slot (set_nx v) h xs) (if xs = [] then tab[i := v] else tab) (Xs[i := xs @ zs])"
proof -
  note t = tab_okD [OF assms(1)]
  have sub: "set xs \<subseteq> set (Xs ! i)" using assms(3) by (auto dest: set_takeWhileD)
  have r: "h (last xs) = Some (the (h (last xs)))" if "xs \<noteq> []"
  proof -
    have "last xs \<in> set (Xs ! i)" using sub that by auto
    then show ?thesis using t(4) [OF assms(2)] by force
  qed
  have b: "buckets nx (put_slot (set_nx v) h xs) (if xs = [] then tab[i := v] else tab) (Xs[i := xs @ zs])"
    using cut [OF t(1) assms(2-6)] r by (cases "xs = []") (auto simp: put_slot_def)
  have "\<exists>r'. put_slot (set_nx v) h xs b = Some r' \<and> act r' \<and> key r' mod length tab = k"
    if k: "k < length tab" "b \<in> set (Xs[i := xs @ zs] ! k)" for k b
  proof -
    have "b \<in> set (Xs ! k)" using k t(3) assms(2, 5) sub by (cases "k = i") auto
    then obtain r' where r': "h b = Some r'" "act r'" "key r' mod length tab = k" using t(4) [OF k(1)] by blast
    then show ?thesis using r by (auto simp: put_slot_def key_set act_set)
  qed
  moreover have "length (if xs = [] then tab[i := v] else tab) = length tab" by simp
  ultimately show ?thesis using b t(2) unfolding tab_ok_def by (simp only:)  blast
qed

lemma slot:
  assumes "tab_ok h tab Xs" "i < length tab" "xs = takeWhile (\<lambda>b. b \<noteq> a) (Xs ! i)" "\<forall>b r. h b = Some r \<longrightarrow> b \<noteq> a \<longrightarrow> ok r"
  shows "slot_loop nx ok h a None (tab ! i) = Some (if xs = [] then None else Some (last xs))"
    "b \<in> set xs \<Longrightarrow> b \<noteq> a \<and> (\<exists>r. h b = Some r)"
proof -
  have c: "chain nx h (tab ! i) (Xs ! i)" using bucketsD(1) [OF tab_okD(1) [OF assms(1)] assms(2)] .
  show "slot_loop nx ok h a None (tab ! i) = Some (if xs = [] then None else Some (last xs))"
    unfolding assms(3) by (rule slot_loop_chain [OF c]) (use chain_in_heap [OF c] assms(4) in fastforce)
  show "b \<noteq> a \<and> (\<exists>r. h b = Some r)" if "b \<in> set xs"
    using that assms(3) chain_in_heap [OF c] by (auto dest: set_takeWhileD)
qed

lemma tab_remove_gone:
  assumes "tab_ok h tab Xs" "h a = Some e" "i = key e mod length tab" "a \<notin> set ys"
  shows "a \<notin> set (concat (Xs[i := ys]))"
proof -
  note t = tab_okD [OF assms(1)]
  have "a \<notin> set (Xs[i := ys] ! k)" if k: "k < length tab" for k
    using t(4) [OF k, of a] assms(2-4) t(2, 3) k by (cases "k = i") auto
  then show ?thesis using t(3) by (metis in_set_conv_nth length_list_update UN_E set_concat)
qed

end

interpretation by_id: keyed_table jr_job_next "\<lambda>v r. r\<lparr>jr_job_next := v\<rparr>" "\<lambda>r. unat (jr_job_id r)" "\<lambda>_. True"
  by unfold_locales simp_all

interpretation by_array: keyed_table jr_job_array_next_j "\<lambda>v r. r\<lparr>jr_job_array_next_j := v\<rparr>" "\<lambda>r. unat (jr_array_job_id r)" "\<lambda>r. jr_array_task_id r \<noteq> NO_VAL"
  by unfold_locales simp_all

interpretation by_task: keyed_table jr_job_array_next_t "\<lambda>v r. r\<lparr>jr_job_array_next_t := v\<rparr>"
    "\<lambda>r. unat (jr_array_job_id r + jr_array_task_id r)" "\<lambda>r. jr_array_task_id r \<noteq> NO_VAL"
  by unfold_locales simp_all

subsection \<open>The tables of jobs\<close>

text \<open>What the table operations leave alone.\<close>

definition job_core :: "job_record \<Rightarrow> bool \<times> u32 \<times> u32 \<times> u32 \<times> u32" where
  "job_core r = (jr_magic r, jr_job_id r, jr_array_job_id r, jr_array_task_id r, jr_job_state r)"

definition cores :: "job_heap \<Rightarrow> nat \<Rightarrow> (bool \<times> u32 \<times> u32 \<times> u32 \<times> u32) option" where
  "cores h a = map_option job_core (h a)"

definition tabs_ok :: "job_tables \<Rightarrow> nat list list \<Rightarrow> nat list list \<Rightarrow> nat list list \<Rightarrow> bool" where
  "tabs_ok st Xs Js Ts \<longleftrightarrow> by_id.tab_ok (jt_heap st) (jt_hash st) Xs \<and> by_array.tab_ok (jt_heap st) (jt_hash_j st) Js
     \<and> by_task.tab_ok (jt_heap st) (jt_hash_t st) Ts
     \<and> length (jt_hash_j st) = length (jt_hash st) \<and> length (jt_hash_t st) = length (jt_hash st)"

lemma tabs_okD:
  assumes "tabs_ok st Xs Js Ts"
  shows "by_id.tab_ok (jt_heap st) (jt_hash st) Xs" "by_array.tab_ok (jt_heap st) (jt_hash_j st) Js" "by_task.tab_ok (jt_heap st) (jt_hash_t st) Ts"
    "length (jt_hash_j st) = length (jt_hash st)" "length (jt_hash_t st) = length (jt_hash st)" "0 < length (jt_hash st)"
  using assms by_id.tab_okD(2) by (auto simp: tabs_ok_def)

definition id_inx :: "job_tables \<Rightarrow> job_record \<Rightarrow> nat" where
  "id_inx st r = unat (jr_job_id r) mod length (jt_hash st)"

definition array_inx :: "job_tables \<Rightarrow> job_record \<Rightarrow> nat" where
  "array_inx st r = unat (jr_array_job_id r) mod length (jt_hash_j st)"

definition task_inx :: "job_tables \<Rightarrow> job_record \<Rightarrow> nat" where
  "task_inx st r = unat (jr_array_job_id r + jr_array_task_id r) mod length (jt_hash_t st)"

lemma inx_less:
  assumes "tabs_ok st Xs Js Ts"
  shows "id_inx st r < length (jt_hash st)" "array_inx st r < length (jt_hash_j st)" "task_inx st r < length (jt_hash_t st)"
  using tabs_okD [OF assms] by (simp_all add: id_inx_def array_inx_def task_inx_def)

lemma put_slot_core:
  assumes "\<And>r. job_core (f r) = job_core r" "\<forall>b \<in> set xs. h b \<noteq> None"
  shows "cores (put_slot f h xs) = cores h"
proof (cases "xs = []")
  case False
  then obtain r where "h (last xs) = Some r" using assms(2) last_in_set by blast
  then show ?thesis using assms(1) False by (auto simp: cores_def put_slot_def)
qed (simp add: put_slot_def)

lemma put_slot_at: "a \<notin> set xs \<Longrightarrow> put_slot f h xs a = h a"
  by (cases "xs = []") (auto simp: put_slot_def)

text \<open>The removal from each table, as one redirected pointer.\<close>

lemma remove_id:
  assumes t: "tabs_ok st Xs Js Ts" and e: "jt_heap st a = Some e" and m: "\<forall>b r. jt_heap st b = Some r \<longrightarrow> b \<noteq> a \<longrightarrow> jr_magic r"
    and xs: "xs = takeWhile (\<lambda>b. b \<noteq> a) (Xs ! id_inx st e)"
  shows "remove_job_hash a JOB_HASH_JOB st = Some (st\<lparr>
    jt_heap := (put_slot (\<lambda>r. r\<lparr>jr_job_next := jr_job_next e\<rparr>) (jt_heap st) xs)(a \<mapsto> e\<lparr>jr_job_next := None\<rparr>),
    jt_hash := (if xs = [] then (jt_hash st)[id_inx st e := jr_job_next e] else jt_hash st)\<rparr>)"
proof -
  have i: "id_inx st e < length (jt_hash st)" "JOB_HASH_INX st (jr_job_id e) = int (id_inx st e)"
    using inx_less [OF t] tabs_okD(4, 5) [OF t] by (simp_all add: JOB_HASH_INX_def id_inx_def)
  note s = by_id.slot [OF tabs_okD(1) [OF t] i(1) xs m]
  have l: "xs \<noteq> [] \<Longrightarrow> last xs \<noteq> a \<and> (\<exists>r. jt_heap st (last xs) = Some r)" using s(2) [OF last_in_set] .
  show ?thesis using i e s(1) l
    by (cases "xs = []") (auto simp: remove_job_hash_def c_rd_def c_wr_def change_rec_def put_slot_def)
qed

lemma remove_array:
  assumes t: "tabs_ok st Xs Js Ts" and e: "jt_heap st a = Some e" and m: "\<forall>b r. jt_heap st b = Some r \<longrightarrow> b \<noteq> a \<longrightarrow> jr_magic r"
    and xs: "xs = takeWhile (\<lambda>b. b \<noteq> a) (Js ! array_inx st e)"
  shows "remove_job_hash a JOB_HASH_ARRAY_JOB st = Some (st\<lparr>
    jt_heap := (put_slot (\<lambda>r. r\<lparr>jr_job_array_next_j := jr_job_next e\<rparr>) (jt_heap st) xs)(a \<mapsto> e\<lparr>jr_job_next := None\<rparr>),
    jt_hash_j := (if xs = [] then (jt_hash_j st)[array_inx st e := jr_job_next e] else jt_hash_j st)\<rparr>)"
proof -
  have i: "array_inx st e < length (jt_hash_j st)" "JOB_HASH_INX st (jr_array_job_id e) = int (array_inx st e)"
    using inx_less [OF t] tabs_okD(4, 5) [OF t] by (simp_all add: JOB_HASH_INX_def array_inx_def)
  note s = by_array.slot [OF tabs_okD(2) [OF t] i(1) xs m]
  have l: "xs \<noteq> [] \<Longrightarrow> last xs \<noteq> a \<and> (\<exists>r. jt_heap st (last xs) = Some r)" using s(2) [OF last_in_set] .
  show ?thesis using i e s(1) l
    by (cases "xs = []") (auto simp: remove_job_hash_def c_rd_def c_wr_def change_rec_def put_slot_def)
qed

lemma remove_task:
  assumes t: "tabs_ok st Xs Js Ts" and e: "jt_heap st a = Some e" and m: "\<forall>b r. jt_heap st b = Some r \<longrightarrow> b \<noteq> a \<longrightarrow> jr_magic r"
    and xs: "xs = takeWhile (\<lambda>b. b \<noteq> a) (Ts ! task_inx st e)"
  shows "remove_job_hash a JOB_HASH_ARRAY_TASK st = Some (st\<lparr>
    jt_heap := (put_slot (\<lambda>r. r\<lparr>jr_job_array_next_t := jr_job_next e\<rparr>) (jt_heap st) xs)(a \<mapsto> e\<lparr>jr_job_next := None\<rparr>),
    jt_hash_t := (if xs = [] then (jt_hash_t st)[task_inx st e := jr_job_next e] else jt_hash_t st)\<rparr>)"
proof -
  have i: "task_inx st e < length (jt_hash_t st)" "JOB_ARRAY_HASH_INX st (jr_array_job_id e) (jr_array_task_id e) = int (task_inx st e)"
    using inx_less [OF t] tabs_okD(4, 5) [OF t] by (simp_all add: JOB_ARRAY_HASH_INX_def task_inx_def)
  note s = by_task.slot [OF tabs_okD(3) [OF t] i(1) xs m]
  have l: "xs \<noteq> [] \<Longrightarrow> last xs \<noteq> a \<and> (\<exists>r. jt_heap st (last xs) = Some r)" using s(2) [OF last_in_set] .
  show ?thesis using i e s(1) l
    by (cases "xs = []") (auto simp: remove_job_hash_def c_rd_def c_wr_def change_rec_def put_slot_def)
qed

text \<open>Deleting a record: the chain by id loses just the record, the array chains lose it and all that is behind it.\<close>

definition cut_at :: "nat \<Rightarrow> nat \<Rightarrow> nat list list \<Rightarrow> nat list list" where
  "cut_at a i Xs = Xs[i := takeWhile (\<lambda>b. b \<noteq> a) (Xs ! i)]"

lemma cut_at_gone: "i < length Xs \<Longrightarrow> a \<notin> set (cut_at a i Xs ! i)"
  by (simp add: cut_at_def not_in_takeWhile)

lemma delete_id:
  assumes t: "tabs_ok st Xs Js Ts" and e: "jt_heap st a = Some e" and m: "\<forall>b r. jt_heap st b = Some r \<longrightarrow> b \<noteq> a \<longrightarrow> jr_magic r"
    and i: "Xs ! id_inx st e = us @ a # vs"
  shows "\<exists>st'. remove_job_hash a JOB_HASH_JOB st = Some st' \<and> tabs_ok st' (Xs[id_inx st e := us @ vs]) Js Ts
    \<and> jt_heap st' a = Some (e\<lparr>jr_job_next := None\<rparr>) \<and> cores (jt_heap st') = cores (jt_heap st) \<and> jt_job_list st' = jt_job_list st
    \<and> a \<notin> set (concat (Xs[id_inx st e := us @ vs]))"
proof -
  note b = tabs_okD [OF t]
  note il = inx_less(1) [OF t, of e]
  have c: "chain jr_job_next (jt_heap st) (jt_hash st ! id_inx st e) (us @ a # vs)" "distinct (us @ a # vs)"
    using bucketsD(1, 3) [OF by_id.tab_okD(1) [OF b(1)] il] i by simp_all
  have v: "chain jr_job_next (jt_heap st) (jr_job_next e) vs" using chain_behind [OF c(1) e] .
  have us: "takeWhile (\<lambda>b. b \<noteq> a) (us @ a # vs) = us" using c(2) by (subst takeWhile_append2) auto
  have uw: "us = takeWhile (\<lambda>b. b \<noteq> a) (Xs ! id_inx st e)" using us i by simp
  note s = by_id.slot(2) [OF b(1) il uw m]
  let ?h = "put_slot (\<lambda>r. r\<lparr>jr_job_next := jr_job_next e\<rparr>) (jt_heap st) us"
  define tb where tb: "tb = (if us = [] then (jt_hash st)[id_inx st e := jr_job_next e] else jt_hash st)"
  have lt: "length tb = length (jt_hash st)" by (simp add: tb)
  let ?st = "st\<lparr>jt_heap := ?h(a \<mapsto> e\<lparr>jr_job_next := None\<rparr>), jt_hash := tb\<rparr>"
  have h: "?h a = Some e" using e c(2) by (simp add: put_slot_at)
  have ne: "\<forall>b \<in> set us. jt_heap st b \<noteq> None" using s by auto
  have g: "a \<notin> set (concat (Xs[id_inx st e := us @ vs]))"
    by (rule by_id.tab_remove_gone [OF b(1) e]) (use c(2) in \<open>simp_all add: id_inx_def\<close>)
  have "set vs \<subseteq> set (Xs ! id_inx st e) - set us" "distinct vs" using c(2) i by auto
  then have "by_id.tab_ok ?h tb (Xs[id_inx st e := us @ vs])" unfolding tb using by_id.tab_remove [OF b(1) il uw v] by blast
  from by_id.tab_upd_out [OF this g] have "by_id.tab_ok (jt_heap ?st) (jt_hash ?st) (Xs[id_inx st e := us @ vs])" by simp
  moreover have "by_array.tab_ok (jt_heap ?st) (jt_hash_j ?st) Js" "by_task.tab_ok (jt_heap ?st) (jt_hash_t ?st) Ts"
    using by_array.tab_upd [OF by_array.tab_put_slot [OF b(2) ne] h] by_task.tab_upd [OF by_task.tab_put_slot [OF b(3) ne] h] by simp_all
  ultimately have "tabs_ok ?st (Xs[id_inx st e := us @ vs]) Js Ts" using b(4, 5) lt by (simp add: tabs_ok_def)
  moreover have "cores (jt_heap ?st) = cores (jt_heap st)"
    using put_slot_core [of "\<lambda>r. r\<lparr>jr_job_next := jr_job_next e\<rparr>", OF _ ne] h e
    by (auto simp: cores_def job_core_def fun_eq_iff)
  ultimately show ?thesis using remove_id [OF t e m uw, folded tb] g by simp
qed

lemma delete_array:
  assumes t: "tabs_ok st Xs Js Ts" and e: "jt_heap st a = Some e" "jr_job_next e = None"
    and m: "\<forall>b r. jt_heap st b = Some r \<longrightarrow> b \<noteq> a \<longrightarrow> jr_magic r"
    and i: "i = array_inx st e"
  shows "\<exists>st'. remove_job_hash a JOB_HASH_ARRAY_JOB st = Some st' \<and> tabs_ok st' Xs (cut_at a i Js) Ts
    \<and> jt_heap st' a = Some e \<and> cores (jt_heap st') = cores (jt_heap st) \<and> jt_job_list st' = jt_job_list st
    \<and> jt_hash st' = jt_hash st \<and> a \<notin> set (concat (cut_at a i Js))"
proof -
  note b = tabs_okD [OF t]
  have il: "i < length (jt_hash_j st)" using inx_less [OF t] i by simp
  define us where us: "us = takeWhile (\<lambda>b. b \<noteq> a) (Js ! i)"
  note s = by_array.slot(2) [OF b(2) il us m]
  let ?h = "put_slot (\<lambda>r. r\<lparr>jr_job_array_next_j := None\<rparr>) (jt_heap st) us"
  define tb where tb: "tb = (if us = [] then (jt_hash_j st)[i := None] else jt_hash_j st)"
  have lt: "length tb = length (jt_hash_j st)" by (simp add: tb)
  let ?st = "st\<lparr>jt_heap := ?h(a \<mapsto> e), jt_hash_j := tb\<rparr>"
  have an: "a \<notin> set us" using us not_in_takeWhile by simp
  then have h: "?h a = Some e" using e by (simp add: put_slot_at)
  have ne: "\<forall>b \<in> set us. jt_heap st b \<noteq> None" using s by auto
  have g: "a \<notin> set (concat (cut_at a i Js))"
    using by_array.tab_remove_gone [OF b(2) e(1), of i us] an us i by (simp add: cut_at_def array_inx_def)
  have "by_array.tab_ok ?h tb (Js[i := us @ []])" unfolding tb by (rule by_array.tab_remove [OF b(2) il us]) simp_all
  then have "by_array.tab_ok ?h tb (cut_at a i Js)" using us by (simp add: cut_at_def)
  from by_array.tab_upd_out [OF this g] have "by_array.tab_ok (jt_heap ?st) (jt_hash_j ?st) (cut_at a i Js)" by simp
  moreover have "by_id.tab_ok (jt_heap ?st) (jt_hash ?st) Xs" "by_task.tab_ok (jt_heap ?st) (jt_hash_t ?st) Ts"
    using by_id.tab_upd [OF by_id.tab_put_slot [OF b(1) ne] h] by_task.tab_upd [OF by_task.tab_put_slot [OF b(3) ne] h] by simp_all
  ultimately have "tabs_ok ?st Xs (cut_at a i Js) Ts" using b(4, 5) lt by (simp add: tabs_ok_def)
  moreover have "cores (jt_heap ?st) = cores (jt_heap st)"
    using put_slot_core [of "\<lambda>r. r\<lparr>jr_job_array_next_j := None\<rparr>", OF _ ne] h e
    by (auto simp: cores_def job_core_def fun_eq_iff)
  moreover have "e\<lparr>jr_job_next := None\<rparr> = e" using e(2) by simp
  ultimately show ?thesis using remove_array [OF t e(1) m us [unfolded i], unfolded e(2), folded i, folded tb] g by simp
qed

lemma delete_task:
  assumes t: "tabs_ok st Xs Js Ts" and e: "jt_heap st a = Some e" "jr_job_next e = None"
    and m: "\<forall>b r. jt_heap st b = Some r \<longrightarrow> b \<noteq> a \<longrightarrow> jr_magic r"
    and i: "i = task_inx st e"
  shows "\<exists>st'. remove_job_hash a JOB_HASH_ARRAY_TASK st = Some st' \<and> tabs_ok st' Xs Js (cut_at a i Ts)
    \<and> jt_heap st' a = Some e \<and> cores (jt_heap st') = cores (jt_heap st) \<and> jt_job_list st' = jt_job_list st
    \<and> jt_hash st' = jt_hash st \<and> a \<notin> set (concat (cut_at a i Ts))"
proof -
  note b = tabs_okD [OF t]
  have il: "i < length (jt_hash_t st)" using inx_less [OF t] i by simp
  define us where us: "us = takeWhile (\<lambda>b. b \<noteq> a) (Ts ! i)"
  note s = by_task.slot(2) [OF b(3) il us m]
  let ?h = "put_slot (\<lambda>r. r\<lparr>jr_job_array_next_t := None\<rparr>) (jt_heap st) us"
  define tb where tb: "tb = (if us = [] then (jt_hash_t st)[i := None] else jt_hash_t st)"
  have lt: "length tb = length (jt_hash_t st)" by (simp add: tb)
  let ?st = "st\<lparr>jt_heap := ?h(a \<mapsto> e), jt_hash_t := tb\<rparr>"
  have an: "a \<notin> set us" using us not_in_takeWhile by simp
  then have h: "?h a = Some e" using e by (simp add: put_slot_at)
  have ne: "\<forall>b \<in> set us. jt_heap st b \<noteq> None" using s by auto
  have g: "a \<notin> set (concat (cut_at a i Ts))"
    using by_task.tab_remove_gone [OF b(3) e(1), of i us] an us i by (simp add: cut_at_def task_inx_def)
  have "by_task.tab_ok ?h tb (Ts[i := us @ []])" unfolding tb by (rule by_task.tab_remove [OF b(3) il us]) simp_all
  then have "by_task.tab_ok ?h tb (cut_at a i Ts)" using us by (simp add: cut_at_def)
  from by_task.tab_upd_out [OF this g] have "by_task.tab_ok (jt_heap ?st) (jt_hash_t ?st) (cut_at a i Ts)" by simp
  moreover have "by_id.tab_ok (jt_heap ?st) (jt_hash ?st) Xs" "by_array.tab_ok (jt_heap ?st) (jt_hash_j ?st) Js"
    using by_id.tab_upd [OF by_id.tab_put_slot [OF b(1) ne] h] by_array.tab_upd [OF by_array.tab_put_slot [OF b(2) ne] h] by simp_all
  ultimately have "tabs_ok ?st Xs Js (cut_at a i Ts)" using b(4, 5) lt by (simp add: tabs_ok_def)
  moreover have "cores (jt_heap ?st) = cores (jt_heap st)"
    using put_slot_core [of "\<lambda>r. r\<lparr>jr_job_array_next_t := None\<rparr>", OF _ ne] h e
    by (auto simp: cores_def job_core_def fun_eq_iff)
  moreover have "e\<lparr>jr_job_next := None\<rparr> = e" using e(2) by simp
  ultimately show ?thesis using remove_task [OF t e(1) m us [unfolded i], unfolded e(2), folded i, folded tb] g by simp
qed

lemma tabs_upd:
  assumes "tabs_ok st Xs Js Ts" "jt_heap st a = Some r" "jr_job_next r' = jr_job_next r" "jr_job_array_next_j r' = jr_job_array_next_j r"
    "jr_job_array_next_t r' = jr_job_array_next_t r" "jr_job_id r' = jr_job_id r" "jr_array_job_id r' = jr_array_job_id r" "jr_array_task_id r' = jr_array_task_id r"
  shows "tabs_ok (st\<lparr>jt_heap := (jt_heap st)(a \<mapsto> r')\<rparr>) Xs Js Ts"
  using by_id.tab_upd [of "jt_heap st" "jt_hash st" Xs a r r'] by_array.tab_upd [of "jt_heap st" "jt_hash_j st" Js a r r']
    by_task.tab_upd [of "jt_heap st" "jt_hash_t st" Ts a r r'] assms by (simp add: tabs_ok_def)

lemma tabs_upd_out:
  assumes "tabs_ok st Xs Js Ts" "a \<notin> set (concat Xs)" "a \<notin> set (concat Js)" "a \<notin> set (concat Ts)"
  shows "tabs_ok (st\<lparr>jt_heap := (jt_heap st)(a := x), jt_job_list := l\<rparr>) Xs Js Ts"
  using by_id.tab_upd_out [of "jt_heap st" "jt_hash st" Xs a x] by_array.tab_upd_out [of "jt_heap st" "jt_hash_j st" Js a x]
    by_task.tab_upd_out [of "jt_heap st" "jt_hash_t st" Ts a x] assms by (simp add: tabs_ok_def)

lemma cores_upd: "cores (h(a := x)) = (cores h)(a := map_option job_core x)"
  by (auto simp: cores_def)

lemma in_cores: "a \<in> dom (cores h) \<Longrightarrow> \<exists>r. h a = Some r"
  by (auto simp: cores_def dom_def)

lemma cores_magic: "cores h b = cores h' b \<Longrightarrow> h b = Some r \<Longrightarrow> \<exists>r'. h' b = Some r' \<and> jr_magic r' = jr_magic r \<and> jr_job_id r' = jr_job_id r"
  by (cases "h' b") (auto simp: cores_def job_core_def)

lemma delete_job:
  assumes t: "tabs_ok st Xs Js Ts" and e: "jt_heap st a = Some e" and m: "\<forall>b r. jt_heap st b = Some r \<longrightarrow> jr_magic r"
    and i: "Xs ! id_inx st e = us @ a # vs"
  shows "\<exists>st'. list_delete_job a st = Some st' \<and> tabs_ok st' (Xs[id_inx st e := us @ vs])
      (if jr_array_task_id e \<noteq> NO_VAL then cut_at a (array_inx st e) Js else Js) (if jr_array_task_id e \<noteq> NO_VAL then cut_at a (task_inx st e) Ts else Ts)
    \<and> cores (jt_heap st') = (cores (jt_heap st))(a := None) \<and> jt_job_list st' = remove1 a (jt_job_list st)"
proof -
  define e0 where e0: "e0 = e\<lparr>jr_magic := False\<rparr>"
  define st0 where st0: "st0 = st\<lparr>jt_heap := (jt_heap st)(a \<mapsto> e0)\<rparr>"
  have t0: "tabs_ok st0 Xs Js Ts" unfolding st0 e0 by (rule tabs_upd [OF t e]) simp_all
  have e0h: "jt_heap st0 a = Some e0" and m0: "\<forall>b r. jt_heap st0 b = Some r \<longrightarrow> b \<noteq> a \<longrightarrow> jr_magic r" using m by (simp_all add: st0)
  have inx: "id_inx st0 e0 = id_inx st e" "array_inx st0 e0 = array_inx st e" "task_inx st0 e0 = task_inx st e"
    by (simp_all add: st0 e0 id_inx_def array_inx_def task_inx_def)
  obtain st1 where r1: "remove_job_hash a JOB_HASH_JOB st0 = Some st1" and t1: "tabs_ok st1 (Xs[id_inx st e := us @ vs]) Js Ts"
    and e1: "jt_heap st1 a = Some (e0\<lparr>jr_job_next := None\<rparr>)" and c1: "cores (jt_heap st1) = cores (jt_heap st0)"
    and l1: "jt_job_list st1 = jt_job_list st0" and g1: "a \<notin> set (concat (Xs[id_inx st e := us @ vs]))"
    using delete_id [OF t0 e0h m0 i [folded inx(1)]] unfolding inx by blast
  define e1 where e1d: "e1 = e0\<lparr>jr_job_next := None\<rparr>"
  have c0: "(cores (jt_heap st0))(a := None) = (cores (jt_heap st))(a := None)" by (auto simp: cores_def st0)
  have del: "list_delete_job a st = (if jr_array_task_id e \<noteq> NO_VAL then do {
             st \<leftarrow> remove_job_hash a JOB_HASH_ARRAY_JOB st1;
             remove_job_hash a JOB_HASH_ARRAY_TASK st
           } else Some st1) \<bind> (\<lambda>st. Some (st\<lparr>jt_heap := (jt_heap st)(a := None), jt_job_list := remove1 a (jt_job_list st)\<rparr>))"
    using e m r1 by (simp add: list_delete_job_def change_rec_def e0 [symmetric] st0 [symmetric])
  have free: "cores ((jt_heap s)(a := None)) = (cores (jt_heap st))(a := None)" if "cores (jt_heap s) = cores (jt_heap st0)" for s
    using that c0 by (simp add: cores_upd)
  show ?thesis
  proof (cases "jr_array_task_id e = NO_VAL")
    case True
    have "a \<notin> set (concat Js)" "a \<notin> set (concat Ts)"
      using by_array.tab_okD(5) [OF tabs_okD(2) [OF t], of a] by_task.tab_okD(5) [OF tabs_okD(3) [OF t], of a] e True by auto
    from tabs_upd_out [OF t1 g1 this] show ?thesis using del True free [OF c1] l1 by (simp add: st0)
  next
    case False
    have m1: "\<forall>b r. jt_heap st1 b = Some r \<longrightarrow> b \<noteq> a \<longrightarrow> jr_magic r"
      using m0 c1 cores_magic [of "jt_heap st1" _ "jt_heap st0"] by metis
    have n1: "length (jt_hash_j st1) = length (jt_hash_j st)" "length (jt_hash_t st1) = length (jt_hash_t st)"
      using by_array.tab_okD(3) [OF tabs_okD(2) [OF t1]] by_array.tab_okD(3) [OF tabs_okD(2) [OF t]]
        by_task.tab_okD(3) [OF tabs_okD(3) [OF t1]] by_task.tab_okD(3) [OF tabs_okD(3) [OF t]] by simp_all
    have ix1: "array_inx st e = array_inx st1 e1" "task_inx st e = task_inx st1 e1"
      using n1 by (simp_all add: e1d e0 array_inx_def task_inx_def)
    have en: "jr_job_next e1 = None" by (simp add: e1d)
    obtain st2 where r2: "remove_job_hash a JOB_HASH_ARRAY_JOB st1 = Some st2"
      and t2: "tabs_ok st2 (Xs[id_inx st e := us @ vs]) (cut_at a (array_inx st e) Js) Ts" and e2: "jt_heap st2 a = Some e1"
      and c2: "cores (jt_heap st2) = cores (jt_heap st1)" and l2: "jt_job_list st2 = jt_job_list st1" and g2: "a \<notin> set (concat (cut_at a (array_inx st e) Js))"
      using delete_array [OF t1 e1 [folded e1d] en m1 ix1(1)] by blast
    have m2: "\<forall>b r. jt_heap st2 b = Some r \<longrightarrow> b \<noteq> a \<longrightarrow> jr_magic r"
      using m1 c2 cores_magic [of "jt_heap st2" _ "jt_heap st1"] by metis
    have "length (jt_hash_t st2) = length (jt_hash_t st1)"
      using by_task.tab_okD(3) [OF tabs_okD(3) [OF t1]] by_task.tab_okD(3) [OF tabs_okD(3) [OF t2]] by simp
    then have ix2: "task_inx st e = task_inx st2 e1" using ix1(2) by (simp add: task_inx_def)
    obtain st3 where r3: "remove_job_hash a JOB_HASH_ARRAY_TASK st2 = Some st3"
      and t3: "tabs_ok st3 (Xs[id_inx st e := us @ vs]) (cut_at a (array_inx st e) Js) (cut_at a (task_inx st e) Ts)"
      and c3: "cores (jt_heap st3) = cores (jt_heap st2)" and l3: "jt_job_list st3 = jt_job_list st2" and g3: "a \<notin> set (concat (cut_at a (task_inx st e) Ts))"
      using delete_task [OF t2 e2 en m2 ix2] by blast
    from tabs_upd_out [OF t3 g1 g2 g3] show ?thesis
      using del False r2 r3 free [of st3] c1 c2 c3 l1 l2 l3 by (simp add: st0)
  qed
qed

subsection \<open>Creating and deleting jobs\<close>

text \<open>A job is created with a new record whose id is not in use; a record is deleted when it is removed from \<open>job_list\<close>.\<close>

inductive table_step :: "job_tables \<Rightarrow> job_tables \<Rightarrow> bool" where
  create_job:
    "jt_heap st a = None \<Longrightarrow> jr_magic r \<Longrightarrow> \<forall>b q. jt_heap st b = Some q \<longrightarrow> jr_job_id q \<noteq> jr_job_id r \<Longrightarrow>
     add_job_hash a (st\<lparr>jt_heap := (jt_heap st)(a \<mapsto> r), jt_job_list := jt_job_list st @ [a]\<rparr>) = Some st1 \<Longrightarrow>
     add_job_array_hash a st1 = Some st2 \<Longrightarrow>
     table_step st st2"
| purge_job:
    "a \<in> set (jt_job_list st) \<Longrightarrow> list_delete_job a st = Some st' \<Longrightarrow> table_step st st'"

definition empty_tables :: "nat \<Rightarrow> job_tables" where
  "empty_tables n = \<lparr>jt_heap = \<lambda>_. None, jt_hash = replicate n None, jt_hash_j = replicate n None, jt_hash_t = replicate n None, jt_job_list = []\<rparr>"

definition jt_inv :: "job_tables \<Rightarrow> bool" where
  "jt_inv st \<longleftrightarrow> (\<exists>Xs Js Ts. tabs_ok st Xs Js Ts \<and> set (concat Xs) = set (jt_job_list st))
     \<and> dom (cores (jt_heap st)) = set (jt_job_list st) \<and> distinct (jt_job_list st)
     \<and> (\<forall>a c. cores (jt_heap st) a = Some c \<longrightarrow> fst c)
     \<and> (\<forall>a b c d. cores (jt_heap st) a = Some c \<longrightarrow> cores (jt_heap st) b = Some d \<longrightarrow> fst (snd c) = fst (snd d) \<longrightarrow> a = b)"

lemma add_id:
  assumes t: "tabs_ok st Xs Js Ts" and r: "jt_heap st a = Some r" and a: "a \<notin> set (concat Xs)"
  shows "\<exists>st' p. add_job_hash a st = Some st' \<and> tabs_ok st' (Xs[id_inx st r := a # Xs ! id_inx st r]) Js Ts
    \<and> jt_heap st' = (jt_heap st)(a \<mapsto> r\<lparr>jr_job_next := p\<rparr>) \<and> jt_job_list st' = jt_job_list st \<and> jt_hash_j st' = jt_hash_j st \<and> jt_hash_t st' = jt_hash_t st"
proof -
  let ?i = "id_inx st r"
  let ?st = "st\<lparr>jt_heap := (jt_heap st)(a \<mapsto> r\<lparr>jr_job_next := jt_hash st ! ?i\<rparr>), jt_hash := (jt_hash st)[?i := Some a]\<rparr>"
  note b = tabs_okD [OF t]
  note il = inx_less(1) [OF t, of r]
  have "by_id.tab_ok (jt_heap ?st) (jt_hash ?st) (Xs[?i := a # Xs ! ?i])"
    using by_id.tab_insert [OF b(1) a r, of ?i] by (simp add: id_inx_def)
  then have "tabs_ok ?st (Xs[?i := a # Xs ! ?i]) Js Ts"
    using by_array.tab_upd [OF b(2) r] by_task.tab_upd [OF b(3) r] b(4, 5) by (simp add: tabs_ok_def)
  moreover have "add_job_hash a st = Some ?st"
    using r il by (simp add: add_job_hash_def JOB_HASH_INX_def id_inx_def change_rec_def c_rd_def c_wr_def Let_def)
  ultimately show ?thesis by (intro exI [of _ ?st] exI [of _ "jt_hash st ! ?i"]) simp
qed

lemma add_array:
  assumes t: "tabs_ok st Xs Js Ts" and r: "jt_heap st a = Some r" "jr_array_task_id r \<noteq> NO_VAL" and a: "a \<notin> set (concat Js)" "a \<notin> set (concat Ts)"
  shows "\<exists>st'. add_job_array_hash a st = Some st' \<and> tabs_ok st' Xs (Js[array_inx st r := a # Js ! array_inx st r]) (Ts[task_inx st r := a # Ts ! task_inx st r])
    \<and> cores (jt_heap st') = cores (jt_heap st) \<and> jt_job_list st' = jt_job_list st"
proof -
  let ?i = "array_inx st r" and ?k = "task_inx st r"
  define r1 where r1: "r1 = r\<lparr>jr_job_array_next_j := jt_hash_j st ! ?i\<rparr>"
  define st1 where st1: "st1 = st\<lparr>jt_heap := (jt_heap st)(a \<mapsto> r1), jt_hash_j := (jt_hash_j st)[?i := Some a]\<rparr>"
  note b = tabs_okD [OF t]
  have il: "?i < length (jt_hash_j st)" "?k < length (jt_hash_t st)" using inx_less [OF t] by simp_all
  have "by_array.tab_ok (jt_heap st1) (jt_hash_j st1) (Js[?i := a # Js ! ?i])"
    using by_array.tab_insert [OF b(2) a(1) r, of ?i] by (simp add: array_inx_def st1 r1)
  then have t1: "tabs_ok st1 Xs (Js[?i := a # Js ! ?i]) Ts"
    using by_id.tab_upd [OF b(1) r(1), of r1] by_task.tab_upd [OF b(3) r(1), of r1] b(4, 5) by (simp add: tabs_ok_def st1 r1)
  note b1 = tabs_okD [OF t1]
  let ?r2 = "r1\<lparr>jr_job_array_next_t := jt_hash_t st1 ! ?k\<rparr>"
  let ?st = "st1\<lparr>jt_heap := (jt_heap st1)(a \<mapsto> ?r2), jt_hash_t := (jt_hash_t st1)[?k := Some a]\<rparr>"
  have h1: "jt_heap st1 a = Some r1" "jr_array_task_id r1 \<noteq> NO_VAL" using r(2) by (simp_all add: st1 r1)
  have ki: "?k = unat (jr_array_job_id r1 + jr_array_task_id r1) mod length (jt_hash_t st1)" by (simp add: task_inx_def st1 r1)
  have "by_task.tab_ok (jt_heap ?st) (jt_hash_t ?st) (Ts[?k := a # Ts ! ?k])"
    using by_task.tab_insert [OF b1(3) a(2) h1 ki] by simp
  then have "tabs_ok ?st Xs (Js[?i := a # Js ! ?i]) (Ts[?k := a # Ts ! ?k])"
    using by_id.tab_upd [OF b1(1) h1(1), of ?r2] by_array.tab_upd [OF b1(2) h1(1), of ?r2] b1(4, 5) by (simp add: tabs_ok_def)
  moreover have "add_job_array_hash a st = Some ?st"
    using r il b(4, 5) by (simp add: add_job_array_hash_def JOB_HASH_INX_def JOB_ARRAY_HASH_INX_def array_inx_def task_inx_def change_rec_def c_rd_def c_wr_def Let_def st1 r1)
  moreover have "cores (jt_heap ?st) = cores (jt_heap st)" using r(1) by (auto simp: st1 r1 cores_def job_core_def)
  ultimately show ?thesis by (intro exI [of _ ?st]) (simp add: st1)
qed

lemma jt_invE:
  assumes "jt_inv st"
  obtains Xs Js Ts where "tabs_ok st Xs Js Ts" "set (concat Xs) = set (jt_job_list st)"
    "dom (cores (jt_heap st)) = set (jt_job_list st)" "distinct (jt_job_list st)" "\<forall>a c. cores (jt_heap st) a = Some c \<longrightarrow> fst c"
    "\<forall>a b c d. cores (jt_heap st) a = Some c \<longrightarrow> cores (jt_heap st) b = Some d \<longrightarrow> fst (snd c) = fst (snd d) \<longrightarrow> a = b"
  using assms unfolding jt_inv_def by (elim conjE exE) (rule that; assumption)

lemma jt_inv_empty: "0 < n \<Longrightarrow> jt_inv (empty_tables n)"
proof -
  assume n: "0 < n"
  have c: "concat (replicate n []) = []" by (induction n) simp_all
  have "buckets nx h (replicate n None) (replicate n [])" for nx :: "job_record \<Rightarrow> nat option" and h
    using c by (simp add: buckets_def list_all2_conv_all_nth)
  then have "tabs_ok (empty_tables n) (replicate n []) (replicate n []) (replicate n [])"
    using n by (simp add: tabs_ok_def empty_tables_def by_id.tab_ok_def by_array.tab_ok_def by_task.tab_ok_def)
  moreover have "set (concat (replicate n [])) = set (jt_job_list (empty_tables n))" by (simp add: c empty_tables_def)
  ultimately have "\<exists>Xs Js Ts. tabs_ok (empty_tables n) Xs Js Ts \<and> set (concat Xs) = set (jt_job_list (empty_tables n))" by blast
  then show ?thesis unfolding jt_inv_def by (simp add: empty_tables_def cores_def dom_def)
qed

lemma jt_inv_create:
  assumes inv: "jt_inv st" and a: "jt_heap st a = None" and r: "jr_magic r" "\<forall>b q. jt_heap st b = Some q \<longrightarrow> jr_job_id q \<noteq> jr_job_id r"
  shows "\<exists>st1 st2. add_job_hash a (st\<lparr>jt_heap := (jt_heap st)(a \<mapsto> r), jt_job_list := jt_job_list st @ [a]\<rparr>) = Some st1
    \<and> add_job_array_hash a st1 = Some st2 \<and> jt_inv st2"
proof -
  from inv obtain Xs Js Ts where i: "tabs_ok st Xs Js Ts" "set (concat Xs) = set (jt_job_list st)"
    "dom (cores (jt_heap st)) = set (jt_job_list st)" "distinct (jt_job_list st)" "\<forall>a c. cores (jt_heap st) a = Some c \<longrightarrow> fst c"
    "\<forall>a b c d. cores (jt_heap st) a = Some c \<longrightarrow> cores (jt_heap st) b = Some d \<longrightarrow> fst (snd c) = fst (snd d) \<longrightarrow> a = b" by (rule jt_invE)
  have n: "a \<notin> set (concat Xs)" "a \<notin> set (concat Js)" "a \<notin> set (concat Ts)" "a \<notin> set (jt_job_list st)"
    using by_id.tab_unused [OF tabs_okD(1) [OF i(1)] a] by_array.tab_unused [OF tabs_okD(2) [OF i(1)] a] by_task.tab_unused [OF tabs_okD(3) [OF i(1)] a] i(2) by (simp_all only: not_False_eq_True)
  define st0 where st0: "st0 = st\<lparr>jt_heap := (jt_heap st)(a \<mapsto> r), jt_job_list := jt_job_list st @ [a]\<rparr>"
  have t0: "tabs_ok st0 Xs Js Ts" unfolding st0 by (rule tabs_upd_out [OF i(1) n(1-3)])
  have r0: "jt_heap st0 a = Some r" by (simp add: st0)
  obtain st1 p where s1: "add_job_hash a st0 = Some st1" "tabs_ok st1 (Xs[id_inx st0 r := a # Xs ! id_inx st0 r]) Js Ts"
    "jt_heap st1 = (jt_heap st0)(a \<mapsto> r\<lparr>jr_job_next := p\<rparr>)" "jt_job_list st1 = jt_job_list st0"
    using add_id [OF t0 r0 n(1)] by blast
  have c1: "cores (jt_heap st1) = (cores (jt_heap st))(a \<mapsto> job_core r)" using s1(3) by (auto simp: st0 cores_def job_core_def)
  have "\<exists>st2 Js' Ts'. add_job_array_hash a st1 = Some st2 \<and> tabs_ok st2 (Xs[id_inx st0 r := a # Xs ! id_inx st0 r]) Js' Ts'
      \<and> cores (jt_heap st2) = cores (jt_heap st1) \<and> jt_job_list st2 = jt_job_list st1"
  proof (cases "jr_array_task_id r = NO_VAL")
    case True
    then show ?thesis using s1(2, 3) by (auto simp: add_job_array_hash_def)
  next
    case False
    then show ?thesis using add_array [OF s1(2), of a "r\<lparr>jr_job_next := p\<rparr>"] s1(3) n by auto
  qed
  then obtain st2 Js' Ts' where s2: "add_job_array_hash a st1 = Some st2" "tabs_ok st2 (Xs[id_inx st0 r := a # Xs ! id_inx st0 r]) Js' Ts'"
      "cores (jt_heap st2) = cores (jt_heap st1)" "jt_job_list st2 = jt_job_list st1" by blast
  have il: "id_inx st0 r < length Xs" using inx_less(1) [OF t0] by_id.tab_okD(3) [OF tabs_okD(1) [OF t0]] by simp
  have l2: "jt_job_list st2 = jt_job_list st @ [a]" using s2(4) s1(4) by (simp add: st0)
  have ids: "fst (snd c) \<noteq> jr_job_id r" if "cores (jt_heap st) b = Some c" for b c using that r(2) by (auto simp: cores_def job_core_def)
  have c2: "cores (jt_heap st2) = (cores (jt_heap st))(a \<mapsto> job_core r)" using s2(3) c1 by simp
  have j: "fst (job_core r)" "fst (snd (job_core r)) = jr_job_id r" using r(1) by (simp_all add: job_core_def)
  have "dom (cores (jt_heap st2)) = set (jt_job_list st2)" using i(3) c2 l2 by auto
  moreover have "\<forall>a c. cores (jt_heap st2) a = Some c \<longrightarrow> fst c"
    using i(5) j(1) unfolding c2 by (metis fun_upd_apply option.inject)
  moreover have "b = d" if "cores (jt_heap st2) b = Some x" "cores (jt_heap st2) d = Some y" "fst (snd x) = fst (snd y)" for b d x y
  proof (cases "b = a \<or> d = a")
    case True
    then show ?thesis using that ids [of b x] ids [of d y] j unfolding c2 by (cases "b = a"; cases "d = a") auto
  next
    case False
    then have "cores (jt_heap st) b = Some x" "cores (jt_heap st) d = Some y" using that(1,2) unfolding c2 by simp_all
    then show ?thesis using i(6) that(3) by blast
  qed
  moreover have "set (concat (Xs[id_inx st0 r := a # Xs ! id_inx st0 r])) = set (jt_job_list st2)"
    using set_concat_push [OF il, of a] i(2) l2 by simp
  moreover have "distinct (jt_job_list st2)" using i(4) n(4) l2 by simp
  ultimately have "jt_inv st2" using s2(2) unfolding jt_inv_def by blast
  then show ?thesis using s1(1) s2(1) by (auto simp: st0)
qed

lemma jt_inv_delete:
  assumes inv: "jt_inv st" and a: "a \<in> set (jt_job_list st)"
  shows "\<exists>st'. list_delete_job a st = Some st' \<and> jt_inv st'"
proof -
  from inv obtain Xs Js Ts where i: "tabs_ok st Xs Js Ts" "set (concat Xs) = set (jt_job_list st)"
    "dom (cores (jt_heap st)) = set (jt_job_list st)" "distinct (jt_job_list st)" "\<forall>a c. cores (jt_heap st) a = Some c \<longrightarrow> fst c"
    "\<forall>a b c d. cores (jt_heap st) a = Some c \<longrightarrow> cores (jt_heap st) b = Some d \<longrightarrow> fst (snd c) = fst (snd d) \<longrightarrow> a = b" by (rule jt_invE)
  obtain e where e: "jt_heap st a = Some e" "a \<in> set (Xs ! id_inx st e)"
    using by_id.tab_okD(5) [OF tabs_okD(1) [OF i(1)], of a] a i(2) by (auto simp: id_inx_def)
  then obtain us vs where u: "Xs ! id_inx st e = us @ a # vs" by (meson split_list)
  have m: "\<forall>b r. jt_heap st b = Some r \<longrightarrow> jr_magic r" using i(5) by (auto simp: cores_def job_core_def)
  obtain st' Js' Ts' where s: "list_delete_job a st = Some st'" "tabs_ok st' (Xs[id_inx st e := us @ vs]) Js' Ts'"
      "cores (jt_heap st') = (cores (jt_heap st))(a := None)" "jt_job_list st' = remove1 a (jt_job_list st)"
    using delete_job [OF i(1) e(1) m u] by blast
  have il: "id_inx st e < length Xs" using inx_less(1) [OF i(1)] by_id.tab_okD(3) [OF tabs_okD(1) [OF i(1)]] by simp
  have "distinct (concat Xs)" using by_id.tab_okD(1) [OF tabs_okD(1) [OF i(1)]] by (simp add: buckets_def)
  then have "set (concat (Xs[id_inx st e := us @ vs])) = set (concat Xs) - {a}"
    unfolding concat_update [OF il] concat_split [OF il] u by auto
  then have "set (concat (Xs[id_inx st e := us @ vs])) = set (jt_job_list st')" using i(2, 4) s(4) by simp
  moreover have "dom (cores (jt_heap st')) = set (jt_job_list st')" using i(3, 4) s(3, 4) by auto
  moreover have "distinct (jt_job_list st')" using i(4) s(4) by simp
  moreover have "\<forall>a c. cores (jt_heap st') a = Some c \<longrightarrow> fst c" using i(5) unfolding s(3) by (metis fun_upd_apply option.distinct(1))
  moreover have "b = d" if "cores (jt_heap st') b = Some x" "cores (jt_heap st') d = Some y" "fst (snd x) = fst (snd y)" for b d x y
    using that i(6) unfolding s(3) by (metis fun_upd_apply option.distinct(1))
  ultimately have "jt_inv st'" using s(2) unfolding jt_inv_def by blast
  then show ?thesis using s(1) by blast
qed

lemma jt_inv_step: "table_step st st' \<Longrightarrow> jt_inv st \<Longrightarrow> jt_inv st'"
proof (induction rule: table_step.induct)
  case (create_job st a r st1 st2)
  then show ?case using jt_inv_create [OF create_job.prems create_job.hyps(1-3)] by auto
next
  case (purge_job a st st')
  then show ?case using jt_inv_delete by fastforce
qed

lemma find_SomeD: "find P xs = Some a \<Longrightarrow> a \<in> set xs \<and> P a"
  by (induction xs) (auto split: if_splits)

lemma find_unique:
  assumes "P a" "a \<in> set xs" "\<And>a b. P a \<Longrightarrow> P b \<Longrightarrow> a \<in> set xs \<Longrightarrow> b \<in> set xs \<Longrightarrow> a = b"
  shows "find P xs = Some a"
  using assms
proof (induction xs)
  case (Cons x xs)
  show ?case
  proof (cases "P x")
    case True
    then show ?thesis using Cons.prems(3) [of x a] Cons.prems(1, 2) by simp
  next
    case False
    then have "a \<in> set xs" using Cons.prems(1, 2) by auto
    moreover have "b = c" if "P b" "P c" "b \<in> set xs" "c \<in> set xs" for b c using Cons.prems(3) [OF that(1, 2)] that(3, 4) by simp
    ultimately show ?thesis using Cons.IH Cons.prems(1) False by simp
  qed
qed simp

lemma jt_inv_find:
  assumes "jt_inv st"
  shows "find_job_record st job_id = Some (find (\<lambda>a. jr_job_id (the (jt_heap st a)) = job_id) (jt_job_list st))"
proof -
  from assms obtain Xs Js Ts where i: "tabs_ok st Xs Js Ts" "set (concat Xs) = set (jt_job_list st)"
    "dom (cores (jt_heap st)) = set (jt_job_list st)" "distinct (jt_job_list st)" "\<forall>a c. cores (jt_heap st) a = Some c \<longrightarrow> fst c"
    "\<forall>a b c d. cores (jt_heap st) a = Some c \<longrightarrow> cores (jt_heap st) b = Some d \<longrightarrow> fst (snd c) = fst (snd d) \<longrightarrow> a = b" by (rule jt_invE)
  let ?k = "unat job_id mod length (jt_hash st)" and ?P = "\<lambda>a. jr_job_id (the (jt_heap st a)) = job_id"
  note t = by_id.tab_okD [OF tabs_okD(1) [OF i(1)]]
  have k: "?k < length (jt_hash st)" using t(2) by simp
  have f: "find_job_record st job_id = Some (find ?P (Xs ! ?k))"
    using chain_find_chain [OF bucketsD(1) [OF t(1) k]] k by (simp add: find_job_record_def JOB_HASH_INX_def c_rd_def)
  have mem: "a \<in> set (Xs ! ?k) \<longleftrightarrow> a \<in> set (jt_job_list st)" if "?P a" for a
  proof
    show "a \<in> set (jt_job_list st)" if "a \<in> set (Xs ! ?k)" using that i(2) k t(3) by auto
    show "a \<in> set (Xs ! ?k)" if l: "a \<in> set (jt_job_list st)"
    proof -
      obtain r where "jt_heap st a = Some r" "a \<in> set (Xs ! (unat (jr_job_id r) mod length (jt_hash st)))"
        using t(5) [of a, unfolded i(2), OF l] by blast
      then show ?thesis using \<open>?P a\<close> by simp
    qed
  qed
  have uniq: "a = b" if u: "?P a" "?P b" "a \<in> set (jt_job_list st)" "b \<in> set (jt_job_list st)" for a b
  proof -
    obtain c d where "jt_heap st a = Some c" "jt_heap st b = Some d" using u(3, 4) i(3) in_cores by metis
    then show ?thesis using i(6) u(1, 2) by (auto simp: cores_def job_core_def)
  qed
  have "find ?P (Xs ! ?k) = find ?P (jt_job_list st)"
  proof (cases "find ?P (Xs ! ?k)")
    case None
    then have "\<forall>a \<in> set (jt_job_list st). \<not> ?P a" using mem by (auto simp: find_None_iff)
    then have "find ?P (jt_job_list st) = None" by (simp add: find_None_iff)
    then show ?thesis using None by simp
  next
    case (Some a)
    have "a \<in> set (Xs ! ?k)" "?P a" using find_SomeD [OF Some] by simp_all
    then have "?P a" "a \<in> set (jt_job_list st)" using mem [of a] by simp_all
    then have "find ?P (jt_job_list st) = Some a" by (rule find_unique) (rule uniq)
    then show ?thesis using Some by simp
  qed
  then show ?thesis using f by simp
qed

text \<open>C10 (invariant): The job hash is exact. After any history of jobs created with unused ids and deleted,
  \<open>find_job_record\<close> ends and returns the record of \<open>job_list\<close> with the id, or a null pointer if there is none; and every record of
  \<open>job_list\<close> can be deleted without a failing assertion or a read of freed memory.\<close>

theorem job_hash_exact:
  assumes "0 < n" "table_step\<^sup>*\<^sup>* (empty_tables n) st"
  shows "find_job_record st job_id = Some (find (\<lambda>a. jr_job_id (the (jt_heap st a)) = job_id) (jt_job_list st))
    \<and> (\<forall>a \<in> set (jt_job_list st). jt_heap st a \<noteq> None \<and> list_delete_job a st \<noteq> None)"
proof -
  have inv: "jt_inv st" using assms(2) jt_inv_empty [OF assms(1)] by (induction rule: rtranclp_induct) (auto intro: jt_inv_step)
  have "jt_heap st a \<noteq> None \<and> list_delete_job a st \<noteq> None" if "a \<in> set (jt_job_list st)" for a
    using jt_inv_delete [OF inv that] by (auto simp: list_delete_job_def split: bind_splits)
  then show ?thesis using jt_inv_find [OF inv] by blast
qed

definition demo_job :: "u32 \<Rightarrow> u32 \<Rightarrow> u32 \<Rightarrow> u32 \<Rightarrow> job_record" where
  "demo_job job_id array_job_id task job_state = \<lparr>jr_magic = True, jr_job_id = job_id, jr_array_job_id = array_job_id, jr_array_task_id = task,
     jr_array_recs = None, jr_bit_flags = 0, jr_details = None, jr_end_time = 0, jr_gres = None, jr_job_next = None,
     jr_job_array_next_j = None, jr_job_array_next_t = None, jr_job_state = job_state, jr_name = None, jr_part_ptr = None, jr_qos_id = 0,
     jr_time_limit = 0, jr_user_id = 0\<rparr>"

definition demo_add :: "nat \<Rightarrow> job_record \<Rightarrow> job_tables \<Rightarrow> job_tables option" where
  "demo_add a r st = do {
     st \<leftarrow> add_job_hash a (st\<lparr>jt_heap := (jt_heap st)(a \<mapsto> r), jt_job_list := jt_job_list st @ [a]\<rparr>);
     add_job_array_hash a st
   }"

lemma demo_add_step:
  "demo_add a r st = Some st' \<Longrightarrow> jt_heap st a = None \<Longrightarrow> jr_magic r \<Longrightarrow> \<forall>b q. jt_heap st b = Some q \<longrightarrow> jr_job_id q \<noteq> jr_job_id r \<Longrightarrow> table_step st st'"
  by (auto simp: demo_add_def bind_eq_Some_conv intro: create_job)

theorem job_hash_exact_witness:
  "\<exists>st. demo_add 1 (demo_job 5 0 NO_VAL 0) (empty_tables 3) = Some st \<and> find_job_record st 5 = Some (Some 1) \<and> find_job_record st 8 = Some None"
proof -
  obtain st where st: "demo_add 1 (demo_job 5 0 NO_VAL 0) (empty_tables 3) = Some st" "jt_job_list st = [1]" "map_option jr_job_id (jt_heap st 1) = Some 5"
    by (simp add: demo_add_def demo_job_def empty_tables_def add_job_hash_def add_job_array_hash_def change_rec_def JOB_HASH_INX_def c_rd_def c_wr_def NO_VAL_def)
  have "table_step\<^sup>*\<^sup>* (empty_tables 3) st" by (rule r_into_rtranclp, rule demo_add_step [OF st(1)]) (simp_all add: empty_tables_def demo_job_def)
  then show ?thesis using job_hash_exact [of 3 st 5] job_hash_exact [of 3 st 8] st by (auto simp: map_option_eq_Some)
qed

lemma chain_unique: "chain nx h p xs \<Longrightarrow> chain nx h p ys \<Longrightarrow> xs = ys"
proof (induction xs arbitrary: p ys)
  case Nil
  then show ?case by (cases ys) auto
next
  case (Cons a xs)
  then show ?case by (cases ys) auto
qed


text \<open>The array job 10 with two tasks: task 1, the record of job 11, runs, and task 2, job 12, has completed.\<close>

definition demo_array :: "job_tables option" where
  "demo_array = demo_add 1 (demo_job 11 10 1 1) (empty_tables 7) \<bind> demo_add 2 (demo_job 12 10 2 3)"

definition demo_array_st :: job_tables where
  "demo_array_st = \<lparr>jt_heap = [1 \<mapsto> demo_job 11 10 1 1, 2 \<mapsto> (demo_job 12 10 2 3)\<lparr>jr_job_array_next_j := Some 1\<rparr>],
     jt_hash = [None, None, None, None, Some 1, Some 2, None], jt_hash_j = [None, None, None, Some 2, None, None, None],
     jt_hash_t = [None, None, None, None, Some 1, Some 2, None], jt_job_list = [1, 2]\<rparr>"

lemma demo_array_ok: "demo_array = Some demo_array_st" "jt_inv demo_array_st" "table_step\<^sup>*\<^sup>* (empty_tables 7) demo_array_st"
proof -
  define st where "st = \<lparr>jt_heap = [1 \<mapsto> demo_job 11 10 1 1],
     jt_hash = [None, None, None, None, Some 1, None, None], jt_hash_j = [None, None, None, Some 1, None, None, None],
     jt_hash_t = [None, None, None, None, Some 1, None, None], jt_job_list = [1]\<rparr>"
  have rep: "replicate 7 None = [None, None, None, None, None, None, None :: nat option]" by (simp add: numeral_eq_Suc)
  have a: "demo_add 1 (demo_job 11 10 1 1) (empty_tables 7) = Some st"
    by (simp add: demo_add_def demo_job_def empty_tables_def st_def add_job_hash_def add_job_array_hash_def change_rec_def JOB_HASH_INX_def
        JOB_ARRAY_HASH_INX_def c_rd_def c_wr_def NO_VAL_def rep)
  moreover have b: "demo_add 2 (demo_job 12 10 2 3) st = Some demo_array_st"
    by (simp add: demo_add_def demo_job_def demo_array_st_def st_def add_job_hash_def add_job_array_hash_def change_rec_def JOB_HASH_INX_def
        JOB_ARRAY_HASH_INX_def c_rd_def c_wr_def NO_VAL_def fun_upd_twist)
  ultimately show "demo_array = Some demo_array_st" by (simp add: demo_array_def)
  have "table_step (empty_tables 7) st" by (rule demo_add_step [OF a]) (simp_all add: empty_tables_def demo_job_def)
  moreover have "table_step st demo_array_st" by (rule demo_add_step [OF b]) (simp_all add: st_def demo_job_def)
  ultimately show r: "table_step\<^sup>*\<^sup>* (empty_tables 7) demo_array_st" by (meson rtranclp.rtrancl_into_rtrancl rtranclp.rtrancl_refl)
  show "jt_inv demo_array_st" using r jt_inv_empty [of 7] by (induction rule: rtranclp_induct) (auto intro: jt_inv_step)
qed


lemma purge_forgets_running_task:
  "find_job_array_rec demo_array_st 10 INFINITE = Some (Some 1)" "test_job_array_completed demo_array_st 10 = Some False"
  "list_delete_job 2 demo_array_st = Some st' \<Longrightarrow>
     find_job_record st' 11 = Some (Some 1) \<and> map_option (is_job JOB_RUNNING) (jt_heap st' 1) = Some True
     \<and> find_job_array_rec st' 10 INFINITE = Some None \<and> test_job_array_completed st' 10 = Some True"
proof -
  show "find_job_array_rec demo_array_st 10 INFINITE = Some (Some 1)" "test_job_array_completed demo_array_st 10 = Some False"
    by code_simp+
  have "list_delete_job 2 demo_array_st = Some \<lparr>jt_heap = [1 \<mapsto> demo_job 11 10 1 1],
     jt_hash = [None, None, None, None, Some 1, None, None], jt_hash_j = [None, None, None, None, None, None, None],
     jt_hash_t = [None, None, None, None, Some 1, None, None], jt_job_list = [1]\<rparr>"
    by (simp add: demo_array_st_def demo_job_def list_delete_job_def remove_job_hash_def slot_loop.simps change_rec_def JOB_HASH_INX_def
        JOB_ARRAY_HASH_INX_def c_rd_def c_wr_def NO_VAL_def fun_upd_twist)
  moreover have "find_job_record s 11 = Some (Some 1) \<and> map_option (is_job JOB_RUNNING) (jt_heap s 1) = Some True
     \<and> find_job_array_rec s 10 INFINITE = Some None \<and> test_job_array_completed s 10 = Some True"
    if "s = \<lparr>jt_heap = [1 \<mapsto> demo_job 11 10 1 1],
     jt_hash = [None, None, None, None, Some 1, None, None], jt_hash_j = [None, None, None, None, None, None, None],
     jt_hash_t = [None, None, None, None, Some 1, None, None], jt_job_list = [1]\<rparr>" for s
    unfolding that by code_simp
  ultimately show "list_delete_job 2 demo_array_st = Some st' \<Longrightarrow>
     find_job_record st' 11 = Some (Some 1) \<and> map_option (is_job JOB_RUNNING) (jt_heap st' 1) = Some True
     \<and> find_job_array_rec st' 10 INFINITE = Some None \<and> test_job_array_completed st' 10 = Some True" by simp
qed

end
