(* ===== verification/Job_Depend.thy ===== *)
theory Job_Depend
  imports Job_Table
begin

section \<open>Job dependencies (\<open>slurmctld/job_scheduler.c\<close>)\<close>

text \<open>
  The dependency list of a job: its text, its parser, the test whether it is satisfied and the search for circles. The job tables
  are the state; the time, the answer of the burst buffer plugin about a job's stage-out, whether the node selection plugin allows
  jobs to expand and what it does to the generic resources of such a job are arguments. As before \<open>None\<close> is a failed assertion or
  a read of freed memory or of a null pointer.
\<close>

definition SLURM_DEPEND_AFTER :: u16 where "SLURM_DEPEND_AFTER = 1"
definition SLURM_DEPEND_AFTER_ANY :: u16 where "SLURM_DEPEND_AFTER_ANY = 2"
definition SLURM_DEPEND_AFTER_NOT_OK :: u16 where "SLURM_DEPEND_AFTER_NOT_OK = 3"
definition SLURM_DEPEND_AFTER_OK :: u16 where "SLURM_DEPEND_AFTER_OK = 4"
definition SLURM_DEPEND_SINGLETON :: u16 where "SLURM_DEPEND_SINGLETON = 5"
definition SLURM_DEPEND_EXPAND :: u16 where "SLURM_DEPEND_EXPAND = 6"
definition SLURM_DEPEND_AFTER_CORRESPOND :: u16 where "SLURM_DEPEND_AFTER_CORRESPOND = 7"
definition SLURM_DEPEND_PLUSSINGLETON :: u16 where "SLURM_DEPEND_PLUSSINGLETON = 8"
definition SLURM_FLAGS_OR :: u16 where "SLURM_FLAGS_OR = 1"
definition KILL_INV_DEP :: u32 where "KILL_INV_DEP = 1"

lemmas depend_consts = SLURM_DEPEND_AFTER_def SLURM_DEPEND_AFTER_ANY_def SLURM_DEPEND_AFTER_NOT_OK_def SLURM_DEPEND_AFTER_OK_def
  SLURM_DEPEND_SINGLETON_def SLURM_DEPEND_EXPAND_def SLURM_DEPEND_AFTER_CORRESPOND_def SLURM_DEPEND_PLUSSINGLETON_def

subsection \<open>Lists and their text\<close>

definition depended_list_copy :: "depend_spec list option \<Rightarrow> depend_spec list option" where
  "depended_list_copy depend_list_src = map_option (map (\<lambda>d. d)) depend_list_src"

definition dep_type_name :: "u16 \<Rightarrow> string" where
  "dep_type_name t = (if t = SLURM_DEPEND_AFTER then ''after''
     else if t = SLURM_DEPEND_AFTER_ANY then ''afterany''
     else if t = SLURM_DEPEND_AFTER_NOT_OK then ''afternotok''
     else if t = SLURM_DEPEND_AFTER_OK then ''afterok''
     else if t = SLURM_DEPEND_AFTER_CORRESPOND then ''aftercorr''
     else if t = SLURM_DEPEND_EXPAND then ''expand'' else ''unknown'')"

definition show_id :: "u32 \<Rightarrow> string" where
  "show_id w = show_nat (unat w)"

definition dep_text :: "depend_spec \<Rightarrow> string" where
  "dep_text d = dep_type_name (ds_depend_type d) @ '':'' @ show_id (ds_job_id d) @
     (if ds_array_task_id d = INFINITE then ''_*''
      else if ds_array_task_id d = NO_VAL then ''''
      else ''_'' @ show_id (ds_array_task_id d))"

text \<open>The loop of \<open>_depend_list2str\<close>: the entries with their new flags and the text.\<close>

fun list2str_loop :: "bool \<Rightarrow> depend_spec list \<Rightarrow> string \<Rightarrow> string \<Rightarrow> depend_spec list \<times> string" where
  "list2str_loop set_or_flag [] sep str = ([], str)"
| "list2str_loop set_or_flag (d # ds) sep str =
     (if ds_depend_type d = SLURM_DEPEND_SINGLETON then
        let (ds, str) = list2str_loop set_or_flag ds '','' (str @ sep @ ''singleton'') in (d # ds, str)
      else if ds_depend_type d = SLURM_DEPEND_PLUSSINGLETON then
        let (ds, str) = list2str_loop set_or_flag ds '','' (str @ sep @ ''plussingleton'') in (d # ds, str)
      else
        let d = (if set_or_flag then d\<lparr>ds_depend_flags := ds_depend_flags d OR SLURM_FLAGS_OR\<rparr> else d);
            (ds, str) = list2str_loop set_or_flag ds (if ds_depend_flags d AND SLURM_FLAGS_OR \<noteq> 0 then ''?'' else '','') (str @ sep @ dep_text d)
        in (d # ds, str))"

definition depend_list2str :: "bool \<Rightarrow> job_details \<Rightarrow> job_details" where
  "depend_list2str set_or_flag det = (case jd_depend_list det of
     None \<Rightarrow> det\<lparr>jd_dependency := None\<rparr>
   | Some ds \<Rightarrow> if ds = [] then det\<lparr>jd_dependency := None\<rparr>
       else let (ds, str) = list2str_loop set_or_flag ds '''' '''' in det\<lparr>jd_depend_list := Some ds, jd_dependency := Some str\<rparr>)"

subsection \<open>Testing the dependencies of a job\<close>

fun user_jobs_loop :: "job_tables \<Rightarrow> u32 \<Rightarrow> string \<Rightarrow> nat list \<Rightarrow> job_record list option" where
  "user_jobs_loop st user_id job_name [] = Some []"
| "user_jobs_loop st user_id job_name (a # as) = do {
     r \<leftarrow> jt_heap st a;
     c_assert (jr_magic r);
     rs \<leftarrow> user_jobs_loop st user_id job_name as;
     Some (if jr_user_id r \<noteq> user_id \<or> jr_name r \<noteq> None \<and> jr_name r \<noteq> Some job_name then rs else r # rs)
   }"

definition build_user_job_list :: "job_tables \<Rightarrow> u32 \<Rightarrow> string \<Rightarrow> job_record list option" where
  "build_user_job_list st user_id job_name = user_jobs_loop st user_id job_name (jt_job_list st)"

text \<open>What an entry gives: it is cleared, waited for, deleted (a singleton), it fails (and the loop ends or goes on), or nothing.\<close>

datatype verdict = V_Clear | V_Wait | V_Delete | V_Fail_break | V_Fail | V_None

definition ok_verdict :: "bool \<Rightarrow> bool \<Rightarrow> verdict" where
  "ok_verdict completed complete = (if \<not> completed then V_Wait else if complete then V_Clear else V_Fail_break)"

definition not_ok_verdict :: "job_record \<Rightarrow> bool \<Rightarrow> bool \<Rightarrow> verdict" where
  "not_ok_verdict r completed complete =
     (if jr_job_state r AND JOB_SPECIAL_EXIT \<noteq> 0 then V_Clear
      else if \<not> completed then V_Wait else if \<not> complete then V_Clear else V_Fail_break)"

text \<open>A whole job array.\<close>

definition array_verdict :: "job_tables \<Rightarrow> job_record \<Rightarrow> depend_spec \<Rightarrow> job_record \<Rightarrow> verdict option" where
  "array_verdict st job d r = do {
     array_complete \<leftarrow> test_job_array_complete st (ds_job_id d);
     array_completed \<leftarrow> test_job_array_completed st (ds_job_id d);
     array_pending \<leftarrow> test_job_array_pending st (ds_job_id d);
     if ds_depend_type d = SLURM_DEPEND_AFTER then Some (if \<not> array_pending then V_Clear else V_Wait)
     else if ds_depend_type d = SLURM_DEPEND_AFTER_ANY then Some (if array_completed then V_Clear else V_Wait)
     else if ds_depend_type d = SLURM_DEPEND_AFTER_NOT_OK then Some (not_ok_verdict r array_completed array_complete)
     else if ds_depend_type d = SLURM_DEPEND_AFTER_OK then Some (ok_verdict array_completed array_complete)
     else if ds_depend_type d = SLURM_DEPEND_AFTER_CORRESPOND then do {
       p \<leftarrow> (if jr_array_task_id job = NO_VAL \<or> jr_array_task_id job = INFINITE then Some None
            else find_job_array_rec st (ds_job_id d) (jr_array_task_id job));
       dc \<leftarrow> rec_of st p;
       Some (case dc of
          Some dc \<Rightarrow> ok_verdict (IS_JOB_COMPLETED dc) (is_job JOB_COMPLETE dc)
        | None \<Rightarrow> ok_verdict array_completed array_complete)
     }
     else Some V_None
   }"

text \<open>The expansion of a running job takes over its remaining time, in minutes, and its sharing of nodes.\<close>

definition expand_verdict :: "int \<Rightarrow> job_record \<Rightarrow> job_record \<Rightarrow> verdict \<times> job_record" where
  "expand_verdict now job r =
     (let share = (\<lambda>job. case (jr_details job, jr_details r) of
         (Some jd, Some rd) \<Rightarrow> job\<lparr>jr_details := Some (jd\<lparr>jd_share_res := jd_share_res rd, jd_whole_node := jd_whole_node rd\<rparr>)\<rparr>
       | _ \<Rightarrow> job)
      in if is_job JOB_PENDING r then (V_Wait, share job)
      else if IS_JOB_COMPLETED r then (V_Fail_break, job)
      else if jr_end_time r \<noteq> 0 \<and> jr_end_time r > now then (V_None, share (job\<lparr>jr_time_limit := of_int (jr_end_time r - now) div 60\<rparr>))
      else (V_None, share job))"

text \<open>One job or task.\<close>

definition job_verdict :: "int \<Rightarrow> job_record \<Rightarrow> depend_spec \<Rightarrow> job_record \<Rightarrow> verdict \<times> job_record" where
  "job_verdict now job d r =
     (if ds_depend_type d = SLURM_DEPEND_AFTER then (if \<not> is_job JOB_PENDING r then V_Clear else V_Wait, job)
      else if ds_depend_type d = SLURM_DEPEND_AFTER_ANY then (if IS_JOB_COMPLETED r then V_Clear else V_Wait, job)
      else if ds_depend_type d = SLURM_DEPEND_AFTER_NOT_OK then (not_ok_verdict r (IS_JOB_COMPLETED r) (is_job JOB_COMPLETE r), job)
      else if ds_depend_type d = SLURM_DEPEND_AFTER_OK then (ok_verdict (IS_JOB_COMPLETED r) (is_job JOB_COMPLETE r), job)
      else if ds_depend_type d = SLURM_DEPEND_AFTER_CORRESPOND then (ok_verdict (IS_JOB_COMPLETED r) (is_job JOB_COMPLETE r), job)
      else if ds_depend_type d = SLURM_DEPEND_EXPAND then expand_verdict now job r
      else (V_Fail, job))"

definition blocks_singleton :: "job_record \<Rightarrow> job_record \<Rightarrow> bool" where
  "blocks_singleton job q \<longleftrightarrow> is_job JOB_RUNNING q \<or> is_job JOB_SUSPENDED q \<or> is_job JOB_PENDING q \<and> jr_job_id q < jr_job_id job"

text \<open>The chains of jobs of which only one is to run.\<close>

definition blocks_plussingleton :: "job_record \<Rightarrow> bool" where
  "blocks_plussingleton q \<longleftrightarrow> is_job JOB_RUNNING q \<or> is_job JOB_SUSPENDED q \<or> is_job JOB_COMPLETE q \<or> is_job JOB_CANCELLED q"

text \<open>The new \<open>job_ptr\<close> of the entry, the verdict and the changed job.\<close>

definition check_dep :: "job_tables \<Rightarrow> int \<Rightarrow> job_record \<Rightarrow> depend_spec \<Rightarrow> (nat option \<times> verdict \<times> job_record) option" where
  "check_dep st now job d = do {
     djob_ptr \<leftarrow> find_job_array_rec st (ds_job_id d) (ds_array_task_id d);
     (case (jr_name job, ds_depend_type d = SLURM_DEPEND_SINGLETON, ds_depend_type d = SLURM_DEPEND_PLUSSINGLETON) of
        (Some name, True, _) \<Rightarrow> do {
          job_queue \<leftarrow> build_user_job_list st (jr_user_id job) name;
          Some (djob_ptr, if list_ex (blocks_singleton job) job_queue then V_Wait else V_Delete, job)
        }
      | (Some name, False, True) \<Rightarrow> do {
          job_queue \<leftarrow> build_user_job_list st (jr_user_id job) name;
          Some (if list_ex blocks_plussingleton job_queue
                then (djob_ptr, V_Fail, job\<lparr>jr_bit_flags := jr_bit_flags job OR KILL_INV_DEP\<rparr>)
                else (djob_ptr, V_None, job))
        }
      | _ \<Rightarrow> do {
          r \<leftarrow> rec_of st djob_ptr;
          (case r of
             None \<Rightarrow> Some (djob_ptr, V_Clear, job)
           | Some r \<Rightarrow>
               if \<not> jr_magic r \<or> jr_job_id r \<noteq> ds_job_id d \<and> jr_array_job_id r \<noteq> ds_job_id d then Some (djob_ptr, V_Clear, job)
               else if ds_array_task_id d = INFINITE then do { v \<leftarrow> array_verdict st job d r; Some (djob_ptr, v, job) }
               else Some (djob_ptr, job_verdict now job d r))
        })
   }"

record dep_result =
  dr_failure :: bool
  dr_depends :: bool
  dr_rebuild_str :: bool
  dr_or_satisfied :: bool

text \<open>The loop over the list: the changed job, the entries that are left and the flags.\<close>

fun depend_loop :: "job_tables \<Rightarrow> int \<Rightarrow> (nat \<Rightarrow> int) \<Rightarrow> job_record \<Rightarrow> depend_spec list \<Rightarrow> dep_result \<Rightarrow> (job_record \<times> depend_spec list \<times> dep_result) option" where
  "depend_loop st now stage_out job [] fl = Some (job, [], fl)"
| "depend_loop st now stage_out job (d # ds) fl = do {
     (djob_ptr, v, job) \<leftarrow> check_dep st now job d;
     let d = d\<lparr>ds_job_ptr := djob_ptr\<rparr>;
     let fl = fl\<lparr>dr_failure := dr_failure fl \<or> v = V_Fail \<or> v = V_Fail_break, dr_depends := dr_depends fl \<or> v = V_Wait\<rparr>;
     let clear_dep = (v = V_Clear \<and> (case djob_ptr of None \<Rightarrow> True | Some a \<Rightarrow> stage_out a = 1));
     if v = V_Fail_break then Some (job, d # ds, fl)
     else if v = V_Delete then depend_loop st now stage_out job ds fl
     else if clear_dep then
       if ds_depend_flags d AND SLURM_FLAGS_OR \<noteq> 0 then Some (job, d # ds, fl\<lparr>dr_rebuild_str := True, dr_or_satisfied := True\<rparr>)
       else depend_loop st now stage_out job ds (fl\<lparr>dr_rebuild_str := True\<rparr>)
     else do {
       (job, ds, fl) \<leftarrow> depend_loop st now stage_out job ds fl;
       Some (job, d # ds, fl)
     }
   }"

definition test_job_dependency :: "int \<Rightarrow> (nat \<Rightarrow> int) \<Rightarrow> nat \<Rightarrow> job_tables \<Rightarrow> (job_tables \<times> int) option" where
  "test_job_dependency now stage_out job_ptr st = do {
     job \<leftarrow> jt_heap st job_ptr;
     (case jr_details job of
        None \<Rightarrow> Some (st, 0)
      | Some det \<Rightarrow> (case jd_depend_list det of
          None \<Rightarrow> Some (st, 0)
        | Some ds \<Rightarrow>
            if ds = [] then Some (st, 0)
            else do {
              (job, ds, fl) \<leftarrow> depend_loop st now stage_out job ds \<lparr>dr_failure = False, dr_depends = False, dr_rebuild_str = False, dr_or_satisfied = False\<rparr>;
              det \<leftarrow> jr_details job;
              let det = det\<lparr>jd_depend_list := Some (if dr_or_satisfied fl then [] else ds)\<rparr>;
              let det = (if dr_rebuild_str fl then depend_list2str False det else det);
              Some (st\<lparr>jt_heap := (jt_heap st)(job_ptr \<mapsto> job\<lparr>jr_details := Some det\<rparr>)\<rparr>,
                if dr_failure fl then 2 else if dr_depends fl then 1 else 0)
            }))
   }"

subsection \<open>The search for circular dependencies\<close>

text \<open>The list that \<open>_scan_depend\<close> searches for an entry, if any: that of the job, unless it is purged or finished.\<close>

definition dep_next :: "job_heap \<Rightarrow> depend_spec \<Rightarrow> depend_spec list option option" where
  "dep_next h d = do {
     a \<leftarrow> ds_job_ptr d;
     r \<leftarrow> h a;
     Some (if ds_job_id d \<noteq> jr_job_id r \<or> \<not> jr_magic r then None
           else if \<not> IS_JOB_FINISHED r then jr_details r \<bind> jd_depend_list
           else None)
   }"

text \<open>The loop of \<open>_scan_depend\<close>, with its static counter as a state: the recursive call first tests and increments the counter.
  The recursion is nested, since the loop goes on with the counter that the recursive call leaves.\<close>

function scan_loop :: "job_heap \<Rightarrow> int \<Rightarrow> u32 \<Rightarrow> depend_spec list \<Rightarrow> int \<Rightarrow> (bool \<times> int) option" where
  "scan_loop h max_depth job_id [] c = Some (False, c)"
| "scan_loop h max_depth job_id (d # ds) c =
     (if ds_job_id d = 0 then scan_loop h max_depth job_id ds c
      else if ds_job_id d = job_id then Some (True, c)
      else (case dep_next h d of
          None \<Rightarrow> None
        | Some None \<Rightarrow> scan_loop h max_depth job_id ds c
        | Some (Some ds') \<Rightarrow>
            if c \<ge> max_depth then scan_loop h max_depth job_id ds (c + 1)
            else (case scan_loop h max_depth job_id ds' (c + 1) of
                None \<Rightarrow> None
              | Some (rc, c') \<Rightarrow> if rc then Some (True, c') else scan_loop h max_depth job_id ds c')))"
  by pat_completeness auto

termination
proof (relation "inv_image (less_than <*lex*> less_than) (\<lambda>(h, m, job_id, ds, c). (nat (m - c), length ds))")
  have mono: "\<forall>rc c'. scan_loop h m job_id ds c = Some (rc, c') \<longrightarrow> c \<le> c'" if "scan_loop_dom (h, m, job_id, ds, c)" for h m job_id ds c
    using that
  proof (induction rule: scan_loop.pinduct)
    case (1 h max_depth job_id c)
    then show ?case by (simp add: scan_loop.psimps)
  next
    case (2 h max_depth job_id d ds c)
    note eq = scan_loop.psimps(2) [OF 2(1)]
    show ?case
    proof (cases "ds_job_id d = 0 \<or> ds_job_id d = job_id")
      case True
      then show ?thesis using eq 2(2) by auto
    next
      case False
      consider "dep_next h d = None" | "dep_next h d = Some None" | ds' where "dep_next h d = Some (Some ds')" by (cases "dep_next h d") auto
      then show ?thesis
      proof cases
        case 1
        then show ?thesis using eq False by simp
      next
        case nx: 2
        then show ?thesis using eq False 2(3) by simp
      next
        case nx: 3
        show ?thesis
        proof (cases "c \<ge> max_depth")
          case True
          have "\<forall>rc c'. scan_loop h max_depth job_id ds (c + 1) = Some (rc, c') \<longrightarrow> c + 1 \<le> c'"
            using 2(4) False nx True by blast
          moreover have "scan_loop h max_depth job_id (d # ds) c = scan_loop h max_depth job_id ds (c + 1)"
            using eq False nx True by simp
          ultimately show ?thesis by (metis add_le_imp_le_left le_add_same_cancel1 order_trans zero_le_one)
        next
          case lt: False
          show ?thesis
          proof (cases "scan_loop h max_depth job_id ds' (c + 1)")
            case None
            then show ?thesis using eq False nx lt by simp
          next
            case (Some p)
            obtain rc c' where p: "p = (rc, c')" by (cases p)
            have "c + 1 \<le> c'" using 2(5) False nx lt Some p by blast
            moreover have "\<forall>rc d. scan_loop h max_depth job_id ds c' = Some (rc, d) \<longrightarrow> c' \<le> d" if "\<not> rc"
              using 2(6) False nx lt Some p that by blast
            moreover have "scan_loop h max_depth job_id (d # ds) c = (if rc then Some (True, c') else scan_loop h max_depth job_id ds c')"
              using eq False nx lt Some p by simp
            moreover have "c \<le> c'" using calculation(1) by simp
            ultimately show ?thesis by (cases rc) (auto intro: order_trans)
          qed
        qed
      qed
    qed
  qed
  fix h m job_id d ds c x ds' p rc c'
  assume "ds_job_id d \<noteq> 0" "ds_job_id d \<noteq> job_id" "dep_next h d = Some x" "x = Some ds'" "\<not> m \<le> c"
    "scan_loop h m job_id ds' (c + 1) = Some p" "(rc, c') = p" "\<not> rc" "scan_loop_dom (h, m, job_id, ds', c + 1)"
  then have "c + 1 \<le> c'" using mono by metis
  then show "((h, m, job_id, ds, c'), (h, m, job_id, d # ds, c)) \<in> inv_image (less_than <*lex*> less_than) (\<lambda>(h, m, job_id, ds, c). (nat (m - c), length ds))"
    by auto
qed auto

text \<open>The whole call: a null list resets the counter; \<open>max_depend_depth\<close> is the value of the configuration.\<close>

definition scan_depend :: "job_heap \<Rightarrow> int \<Rightarrow> depend_spec list option \<Rightarrow> u32 \<Rightarrow> int \<Rightarrow> (bool \<times> int) option" where
  "scan_depend h max_depth dependency_list job_id c = (case dependency_list of
     None \<Rightarrow> Some (False, 0)
   | Some ds \<Rightarrow> if c \<ge> max_depth then Some (False, c + 1)
       else do { c_assert (job_id \<noteq> 0); scan_loop h max_depth job_id ds (c + 1) })"

end
