(* ===== verification/Job_Depend_Text.thy ===== *)
theory Job_Depend_Text
  imports Job_Depend
begin

section \<open>Reading a dependency text (\<open>update_job_dependency\<close>)\<close>

text \<open>
  The parser of dependency texts, from array expressions (\<open>_xlate_array_dep\<close>) to the new list of the job. The parser works on
  suffixes of the text as the C code works on pointers into it; that every turn of its loops shortens the text is proved where the
  loops are defined. \<open>gres_sync\<close> is what an expanding job does to its generic resources, \<open>expand_allow\<close> whether the node selection plugin allows it.
\<close>

definition to_lower :: "char \<Rightarrow> char" where
  "to_lower c = (let n = of_char c in if (65 :: nat) \<le> n \<and> n \<le> 90 then char_of (n + 32) else c)"

text \<open>\<open>xstrncasecmp\<close> with a lower case word and its length.\<close>

definition starts_with :: "string \<Rightarrow> string \<Rightarrow> bool" where
  "starts_with tok word \<longleftrightarrow> map to_lower (take (length word) tok) = word"

text \<open>The tasks of an array expression after the first, as further ids.\<close>

fun tasks_text :: "bitstr \<Rightarrow> u32 \<Rightarrow> int \<Rightarrow> int list \<Rightarrow> string option" where
  "tasks_text b job_id t_first [] = Some ''''"
| "tasks_text b job_id t_first (t # ts) = do {
     x \<leftarrow> bit_test b t;
     rest \<leftarrow> tasks_text b job_id t_first ts;
     Some ((if \<not> x then '''' else if t = t_first then show_int t else '':'' @ show_id job_id @ ''_'' @ show_int t) @ rest)
   }"

text \<open>The body of brackets: the text of its tasks, or nothing if it is not valid.\<close>

definition xlate_tasks :: "u32 \<Rightarrow> u32 \<Rightarrow> string \<Rightarrow> string option option" where
  "xlate_tasks max_array_size job_id body = do {
     b \<leftarrow> bit_alloc (int (unat max_array_size));
     if CHR '']'' \<notin> set body then Some None
     else do {
       (b, rc) \<leftarrow> bit_unfmt b (Some (takeWhile (\<lambda>c. c \<noteq> CHR '']'') body));
       if rc \<noteq> 0 then Some None
       else do {
         t_first \<leftarrow> bit_ffs b;
         if t_first = - 1 then Some None
         else do {
           t_last \<leftarrow> bit_fls b;
           s \<leftarrow> tasks_text b job_id t_first [t_first..t_last];
           Some (Some s)
         }
       }
     }
   }"

text \<open>The result is a null pointer if there is no valid array expression.\<close>

function xlate_loop :: "u32 \<Rightarrow> string \<Rightarrow> string \<Rightarrow> string option \<Rightarrow> string option option" where
  "xlate_loop max_array_size [] acc jobid_ptr = Some (Some acc)"
| "xlate_loop max_array_size (c # cs) acc jobid_ptr =
     (if is_digit c then xlate_loop max_array_size cs (acc @ [c]) (if jobid_ptr = None then Some (c # cs) else jobid_ptr)
      else if c = CHR ''_'' \<and> take 1 cs = ''['' \<and> jobid_ptr \<noteq> None then do {
        s \<leftarrow> xlate_tasks max_array_size (of_int (fst (strtol (the jobid_ptr)))) (tl cs);
        (case s of
           None \<Rightarrow> Some None
         | Some s \<Rightarrow> xlate_loop max_array_size (tl (dropWhile (\<lambda>c. c \<noteq> CHR '']'') (tl cs))) (acc @ [c] @ s) None)
      }
      else xlate_loop max_array_size cs (acc @ [c]) None)"
  by pat_completeness auto
termination
proof (relation "measure (\<lambda>(m, s, acc, p). length s)")
  fix c cs
  have "length (tl (dropWhile (\<lambda>c. c \<noteq> CHR '']'') (tl cs))) \<le> length (dropWhile (\<lambda>c. c \<noteq> CHR '']'') (tl cs))" by simp
  also have "\<dots> \<le> length (tl cs)" by (rule length_dropWhile_le)
  also have "\<dots> < length (c # cs)" by simp
  finally have "length (tl (dropWhile (\<lambda>c. c \<noteq> CHR '']'') (tl cs))) < length (c # cs)" .
  then show "((m, tl (dropWhile (\<lambda>c. c \<noteq> CHR '']'') (tl cs)), acc', p'), (m, c # cs, acc, p)) \<in> measure (\<lambda>(m, s, acc, p). length s)" for m acc acc' p p'
    by simp
qed auto

definition has_array_expr :: "string \<Rightarrow> bool" where
  "has_array_expr s \<longleftrightarrow> list_ex (\<lambda>i. take 2 (drop i s) = ''_['') [0..<length s]"

definition xlate_array_dep :: "u32 \<Rightarrow> string \<Rightarrow> string option option" where
  "xlate_array_dep max_array_size new_depend = (if \<not> has_array_expr new_depend then Some None else xlate_loop max_array_size new_depend [] None)"

text \<open>A job id with an optional task id: the ids and the rest of the text.\<close>

definition parse_id :: "string \<Rightarrow> u32 \<times> u32 \<times> string" where
  "parse_id s = (let (job_id, sep) = strtol s in
     if take 1 sep = ''_'' then
       if take 1 (tl sep) = ''*'' then (of_int job_id, INFINITE, drop 2 sep)
       else let (task_id, sep) = strtol (tl sep) in (of_int job_id, of_int task_id, sep)
     else (of_int job_id, NO_VAL, sep))"

text \<open>The record an id refers to; the task becomes \<open>INFINITE\<close> for a whole array.\<close>

definition resolve_id :: "job_tables \<Rightarrow> u32 \<Rightarrow> u32 \<Rightarrow> (job_record option \<times> nat option \<times> u32) option" where
  "resolve_id st job_id array_task_id =
     (if array_task_id = NO_VAL then do {
        p \<leftarrow> find_job_record st job_id;
        p \<leftarrow> (if p = None then find_job_array_rec st job_id INFINITE else Some p);
        r \<leftarrow> rec_of st p;
        Some (r, p, if (case r of None \<Rightarrow> False | Some r \<Rightarrow> jr_array_job_id r = job_id \<and> (jr_array_task_id r \<noteq> NO_VAL \<or> jr_array_recs r \<noteq> None))
                    then INFINITE else array_task_id)
      }
      else do {
        p \<leftarrow> find_job_array_rec st job_id array_task_id;
        r \<leftarrow> rec_of st p;
        Some (r, p, array_task_id)
      })"

definition new_dep :: "u16 \<Rightarrow> u32 \<Rightarrow> nat option \<Rightarrow> job_record \<Rightarrow> depend_spec" where
  "new_dep depend_type array_task_id p r = \<lparr>ds_array_task_id = array_task_id, ds_depend_type = depend_type, ds_depend_flags = 0,
     ds_job_id = (if array_task_id = NO_VAL then jr_job_id r else jr_array_job_id r), ds_job_ptr = p\<rparr>"

definition flag_dep :: "u16 \<Rightarrow> depend_spec" where
  "flag_dep depend_type = \<lparr>ds_array_task_id = 0, ds_depend_type = depend_type, ds_depend_flags = 0, ds_job_id = 0, ds_job_ptr = None\<rparr>"

datatype dep_rc = DEP_SUCCESS | DEP_EINVAL | ESLURM_DEPENDENCY | ESLURM_CIRCULAR_DEPENDENCY

definition add_dep :: "u16 \<Rightarrow> u32 \<Rightarrow> nat option \<Rightarrow> job_record option \<Rightarrow> depend_spec list \<Rightarrow> depend_spec list" where
  "add_dep depend_type array_task_id p r deps = (case r of None \<Rightarrow> deps | Some r \<Rightarrow> deps @ [new_dep depend_type array_task_id p r])"

text \<open>The conditions for the expansion of a job, and its effect on the job.\<close>

definition bad_expand :: "job_record \<Rightarrow> int \<Rightarrow> job_record option \<Rightarrow> bool" where
  "bad_expand job expand_cnt r = (expand_cnt > 0 \<or> (case r of None \<Rightarrow> True | Some r \<Rightarrow>
     \<not> is_job JOB_RUNNING r \<or> jr_qos_id r \<noteq> jr_qos_id job \<or> jr_part_ptr r = None \<or> jr_part_ptr job = None \<or> jr_part_ptr r \<noteq> jr_part_ptr job))"

definition expand_job :: "(job_record \<Rightarrow> job_record) \<Rightarrow> u32 \<Rightarrow> job_record option \<Rightarrow> job_record \<Rightarrow> job_record" where
  "expand_job gres_sync job_id r job = gres_sync (job\<lparr>
     jr_details := map_option (\<lambda>det. det\<lparr>jd_expanding_jobid := job_id\<rparr>) (jr_details job),
     jr_gres := (case r of None \<Rightarrow> None | Some r \<Rightarrow> jr_gres r)\<rparr>)"

record parse_state =
  ps_job :: job_record
  ps_deps :: "depend_spec list"
  ps_expand_cnt :: int

text \<open>One turn of the loop over the ids of an entry: the error, or the state and the rest of the text.\<close>

definition id_step :: "job_tables \<Rightarrow> (job_record \<Rightarrow> job_record) \<Rightarrow> u16 \<Rightarrow> string \<Rightarrow> parse_state \<Rightarrow> (dep_rc \<times> parse_state \<times> string) option" where
  "id_step st gres_sync depend_type s ps = (let (job_id, task, sep) = parse_id s in
     if job_id = 0 \<or> job_id = jr_job_id (ps_job ps) \<or> take 1 sep \<notin> {'''', '','', ''?'', '':''} then Some (ESLURM_DEPENDENCY, ps, sep)
     else do {
       (r, p, task) \<leftarrow> resolve_id st job_id task;
       let is_exp = (depend_type = SLURM_DEPEND_EXPAND);
       let bad = (is_exp \<and> bad_expand (ps_job ps) (ps_expand_cnt ps) r);
       let ps = (if is_exp then ps\<lparr>ps_expand_cnt := ps_expand_cnt ps + 1\<rparr> else ps);
       if bad then Some (ESLURM_DEPENDENCY, ps, sep)
       else
         let ps = (if is_exp then ps\<lparr>ps_job := expand_job gres_sync job_id r (ps_job ps)\<rparr> else ps) in
         Some (DEP_SUCCESS, ps\<lparr>ps_deps := add_dep depend_type task p r (ps_deps ps)\<rparr>, sep)
     })"

lemma strtol_length: "length (snd (strtol s)) \<le> length s"
proof -
  define t where "t = dropWhile (\<lambda>c. of_char c \<in> {9, 10, 11, 12, 13, 32 :: nat}) s"
  define u where "u = (if t \<noteq> [] \<and> hd t \<in> {CHR ''-'', CHR ''+''} then tl t else t)"
  have "length (dropWhile is_digit u) \<le> length u" by (rule length_dropWhile_le)
  also have "\<dots> \<le> length t" by (simp add: u_def)
  also have "\<dots> \<le> length s" unfolding t_def by (rule length_dropWhile_le)
  finally show ?thesis by (simp only: strtol_def Let_def t_def [symmetric] u_def [symmetric] split: if_split) simp
qed

lemma parse_id_length: "length (snd (snd (parse_id s))) \<le> length s"
proof -
  obtain v sep where s: "strtol s = (v, sep)" by (cases "strtol s")
  have l: "length sep \<le> length s" using strtol_length [of s] s by simp
  have "length (snd (strtol (tl sep))) \<le> length (tl sep)" by (rule strtol_length)
  then show ?thesis using l by (auto simp: parse_id_def s split: prod.splits)
qed

lemma id_step_length: "id_step st gres_sync depend_type s ps = Some (rc, ps', sep) \<Longrightarrow> length sep \<le> length s"
  using parse_id_length [of s]
  by (auto simp: id_step_def Let_def bind_eq_Some_conv split: prod.splits if_splits)

function ids_loop :: "job_tables \<Rightarrow> (job_record \<Rightarrow> job_record) \<Rightarrow> u16 \<Rightarrow> string \<Rightarrow> parse_state \<Rightarrow> (dep_rc \<times> parse_state \<times> string) option" where
  "ids_loop st gres_sync depend_type s ps = (case id_step st gres_sync depend_type s ps of
     None \<Rightarrow> None
   | Some (rc, ps, sep) \<Rightarrow>
       if rc = DEP_SUCCESS \<and> take 1 sep = '':'' then ids_loop st gres_sync depend_type (tl sep) ps else Some (rc, ps, sep))"
  by pat_completeness auto
termination
proof (relation "measure (\<lambda>(st, g, d, s, ps). length s)", simp)
  fix st g d s ps x rc y ps' sep
  assume "id_step st g d s ps = Some x" "(rc, y) = x" "(ps', sep) = y" "rc = DEP_SUCCESS \<and> take 1 sep = '':''"
  then have "length sep \<le> length s" "sep \<noteq> []" using id_step_length by (blast, auto)
  then show "((st, g, d, tl sep, ps'), (st, g, d, s, ps)) \<in> measure (\<lambda>(st, g, d, s, ps). length s)" by (cases sep) auto
qed

declare ids_loop.simps [simp del]

lemma ids_loop_length: "ids_loop st gres_sync depend_type s ps = Some (rc, ps', sep) \<Longrightarrow> length sep \<le> length s"
proof (induction st gres_sync depend_type s ps rule: ids_loop.induct)
  case (1 st gres_sync depend_type s ps)
  obtain rc1 ps1 sep1 where i: "id_step st gres_sync depend_type s ps = Some (rc1, ps1, sep1)"
    using 1(2) by (subst (asm) ids_loop.simps) (auto split: option.splits)
  show ?case
  proof (cases "rc1 = DEP_SUCCESS \<and> take 1 sep1 = '':''")
    case True
    have "length sep \<le> length (tl sep1)" using 1(1) [OF i refl refl True] 1(2) i True by (subst (asm) ids_loop.simps) simp
    then show ?thesis using id_step_length [OF i] by simp
  next
    case False
    then have "ids_loop st gres_sync depend_type s ps = Some (rc1, ps1, sep1)" using i by (subst ids_loop.simps) auto
    then show ?thesis using 1(2) id_step_length [OF i] by simp
  qed
qed

definition depend_word :: "bool \<Rightarrow> string \<Rightarrow> u16 option" where
  "depend_word expand_allow tok =
     (if starts_with tok ''afternotok'' then Some SLURM_DEPEND_AFTER_NOT_OK
      else if starts_with tok ''aftercorr'' then Some SLURM_DEPEND_AFTER_CORRESPOND
      else if starts_with tok ''afterany'' then Some SLURM_DEPEND_AFTER_ANY
      else if starts_with tok ''afterok'' then Some SLURM_DEPEND_AFTER_OK
      else if starts_with tok ''after'' then Some SLURM_DEPEND_AFTER
      else if starts_with tok ''expand'' \<and> expand_allow then Some SLURM_DEPEND_EXPAND
      else None)"

text \<open>One turn of the outer loop: the return code, the state, the flag for alternatives and the text of the next turn, if there is one.\<close>

type_synonym turn = "dep_rc \<times> parse_state \<times> bool \<times> string option"

definition flag_step :: "u16 \<Rightarrow> nat \<Rightarrow> string \<Rightarrow> parse_state \<Rightarrow> bool \<Rightarrow> turn" where
  "flag_step depend_type n tok ps or_flag = (let ps = ps\<lparr>ps_deps := ps_deps ps @ [flag_dep depend_type]\<rparr> in
     if take 1 (drop n tok) = '','' then (DEP_SUCCESS, ps, or_flag, Some (drop (n + 1) tok))
     else (if drop n tok \<noteq> [] then ESLURM_DEPENDENCY else DEP_SUCCESS, ps, or_flag, None))"

definition old_step :: "job_tables \<Rightarrow> string \<Rightarrow> parse_state \<Rightarrow> bool \<Rightarrow> turn option" where
  "old_step st tok ps or_flag = (let (job_id, task, sep) = parse_id tok in
     if job_id = 0 \<or> job_id = jr_job_id (ps_job ps) \<or> take 1 sep \<notin> {'''', '',''} then Some (ESLURM_DEPENDENCY, ps, or_flag, None)
     else do {
       (r, p, task) \<leftarrow> resolve_id st job_id task;
       Some (DEP_SUCCESS, ps\<lparr>ps_deps := add_dep SLURM_DEPEND_AFTER_ANY task p r (ps_deps ps)\<rparr>, or_flag,
         if take 1 sep = '','' then Some (tl sep) else None)
     })"

definition new_step :: "job_tables \<Rightarrow> (job_record \<Rightarrow> job_record) \<Rightarrow> bool \<Rightarrow> string \<Rightarrow> parse_state \<Rightarrow> bool \<Rightarrow> turn option" where
  "new_step st gres_sync expand_allow tok ps or_flag = (case depend_word expand_allow tok of
     None \<Rightarrow> Some (ESLURM_DEPENDENCY, ps, or_flag, None)
   | Some depend_type \<Rightarrow> do {
       (rc, ps, sep) \<leftarrow> ids_loop st gres_sync depend_type (tl (dropWhile (\<lambda>c. c \<noteq> CHR '':'') tok)) ps;
       Some (if take 1 sep = '','' then (rc, ps, or_flag, Some (tl sep))
             else if take 1 sep = ''?'' then (rc, ps, True, Some (tl sep))
             else (rc, ps, or_flag, None))
     })"

definition tok_step :: "job_tables \<Rightarrow> (job_record \<Rightarrow> job_record) \<Rightarrow> bool \<Rightarrow> string \<Rightarrow> parse_state \<Rightarrow> bool \<Rightarrow> turn option" where
  "tok_step st gres_sync expand_allow tok ps or_flag =
     (if starts_with tok ''singleton'' then Some (flag_step SLURM_DEPEND_SINGLETON 9 tok ps or_flag)
      else if starts_with tok ''plussingleton'' then Some (flag_step SLURM_DEPEND_PLUSSINGLETON 13 tok ps or_flag)
      else if CHR '':'' \<notin> set tok then
        if tok \<noteq> [] \<and> is_digit (hd tok) then old_step st tok ps or_flag
        else Some (ESLURM_DEPENDENCY, ps, or_flag, None)
      else new_step st gres_sync expand_allow tok ps or_flag)"

lemma take1: "take 1 s = [c] \<longleftrightarrow> (\<exists>t. s = c # t)"
  by (cases s) auto

lemma tok_step_length:
  assumes "tok_step st gres_sync expand_allow tok ps or_flag = Some (rc, ps', or', Some t)"
  shows "length t < length tok"
proof -
  have flag: "length t < length tok" if "flag_step ty n tok ps or_flag = (rc, ps', or', Some t)" for ty n
  proof -
    have "take 1 (drop n tok) = '',''" "t = drop (n + 1) tok" using that by (auto simp: flag_step_def Let_def split: if_splits)
    then have "n < length tok" by (cases "n < length tok") auto
    then show ?thesis using \<open>t = drop (n + 1) tok\<close> by simp
  qed
  have old: "length t < length tok" if o: "old_step st tok ps or_flag = Some (rc, ps', or', Some t)"
  proof -
    obtain i k sep where p: "parse_id tok = (i, k, sep)" by (cases "parse_id tok")
    have "take 1 sep = '',''" "t = tl sep" using o unfolding old_step_def p by (auto simp: bind_eq_Some_conv split: if_splits)
    then show ?thesis using parse_id_length [of tok] p by (cases sep) auto
  qed
  have new: "length t < length tok" if nw: "new_step st gres_sync expand_allow tok ps or_flag = Some (rc, ps', or', Some t)" "CHR '':'' \<in> set tok"
  proof -
    obtain ty rc1 ps1 sep where i: "ids_loop st gres_sync ty (tl (dropWhile (\<lambda>c. c \<noteq> CHR '':'') tok)) ps = Some (rc1, ps1, sep)" "t = tl sep"
      using nw(1) by (auto simp: new_step_def bind_eq_Some_conv split: option.splits if_splits)
    have "length sep \<le> length (tl (dropWhile (\<lambda>c. c \<noteq> CHR '':'') tok))" using ids_loop_length [OF i(1)] .
    moreover have "length (dropWhile (\<lambda>c. c \<noteq> CHR '':'') tok) \<le> length tok" by (rule length_dropWhile_le)
    moreover have "tok \<noteq> []" using nw(2) by auto
    ultimately show ?thesis using i(2) by (cases "dropWhile (\<lambda>c. c \<noteq> CHR '':'') tok") auto
  qed
  show ?thesis using assms flag old new unfolding tok_step_def by (auto split: if_splits)
qed

function tok_loop :: "job_tables \<Rightarrow> (job_record \<Rightarrow> job_record) \<Rightarrow> bool \<Rightarrow> string \<Rightarrow> parse_state \<Rightarrow> bool \<Rightarrow> (dep_rc \<times> parse_state \<times> bool) option" where
  "tok_loop st gres_sync expand_allow tok ps or_flag = (case tok_step st gres_sync expand_allow tok ps or_flag of
     None \<Rightarrow> None
   | Some (rc, ps, or_flag, t) \<Rightarrow>
       (case t of
          None \<Rightarrow> Some (rc, ps, or_flag)
        | Some t \<Rightarrow> if rc = DEP_SUCCESS then tok_loop st gres_sync expand_allow t ps or_flag else Some (rc, ps, or_flag)))"
  by pat_completeness auto
termination
  by (relation "measure (\<lambda>(st, g, e, s, ps, f). length s)") (auto dest: tok_step_length)

declare tok_loop.simps [simp del]

text \<open>The dependencies of a job are replaced by those of a text, unless it is wrong or would close a circle. The first call of
  \<open>_scan_depend\<close> resets its counter.\<close>

definition clear_depends :: "string option \<Rightarrow> bool" where
  "clear_depends new_depend \<longleftrightarrow> new_depend = None \<or> new_depend = Some '''' \<or> new_depend = Some ''0''"

definition update_job_dependency :: "int \<Rightarrow> u32 \<Rightarrow> (job_record \<Rightarrow> job_record) \<Rightarrow> bool \<Rightarrow> nat \<Rightarrow> string option \<Rightarrow> job_tables \<Rightarrow> (job_tables \<times> dep_rc) option" where
  "update_job_dependency max_depth max_array_size gres_sync expand_allow job_ptr new_depend st = do {
     job \<leftarrow> jt_heap st job_ptr;
     (case jr_details job of
        None \<Rightarrow> Some (st, DEP_EINVAL)
      | Some det \<Rightarrow>
          let job = job\<lparr>jr_details := Some (det\<lparr>jd_expanding_jobid := 0\<rparr>)\<rparr> in
          if clear_depends new_depend then
            Some (st\<lparr>jt_heap := (jt_heap st)(job_ptr \<mapsto> job\<lparr>jr_details := Some (det\<lparr>jd_expanding_jobid := 0, jd_dependency := None, jd_depend_list := None\<rparr>)\<rparr>)\<rparr>, DEP_SUCCESS)
          else do {
            x \<leftarrow> xlate_array_dep max_array_size (the new_depend);
            (rc, ps, or_flag) \<leftarrow> tok_loop st gres_sync expand_allow (case x of None \<Rightarrow> the new_depend | Some s \<Rightarrow> s)
              \<lparr>ps_job = job, ps_deps = [], ps_expand_cnt = 0\<rparr> False;
            let job = ps_job ps;
            let st = st\<lparr>jt_heap := (jt_heap st)(job_ptr \<mapsto> job)\<rparr>;
            rc \<leftarrow> (if rc = DEP_SUCCESS then do {
                   (found, c) \<leftarrow> scan_depend (jt_heap st) max_depth (Some (ps_deps ps)) (jr_job_id job) 0;
                   Some (if found then ESLURM_CIRCULAR_DEPENDENCY else DEP_SUCCESS)
                 } else Some rc);
            if rc = DEP_SUCCESS then
              Some (st\<lparr>jt_heap := (jt_heap st)(job_ptr \<mapsto> job\<lparr>jr_details := map_option (\<lambda>det. depend_list2str or_flag (det\<lparr>jd_depend_list := Some (ps_deps ps)\<rparr>)) (jr_details job)\<rparr>)\<rparr>, rc)
            else Some (st, rc)
          })
   }"

end
