(* ===== verification/Job_Depend_Props.thy ===== *)
theory Job_Depend_Props
  imports Job_Chains Job_Depend_Text
begin

section \<open>What the dependency functions promise\<close>

text \<open>
  The search for circles ends after a bounded number of calls on every graph and is right as long as its limit is not reached and no
  entry names a single task of a job array; the rules by which lists without and with alternatives are tested; chains of which one job is to run; the
  text of a list is read back; and where the code does not do what the comments and the manual say.
\<close>

subsection \<open>Circles\<close>

definition deps_valid :: "job_heap \<Rightarrow> nat \<Rightarrow> depend_spec list \<Rightarrow> bool" where
  "deps_valid h m ds \<longleftrightarrow> length ds \<le> m \<and> (\<forall>d \<in> set ds. ds_job_id d \<noteq> 0 \<longrightarrow> (\<exists>a r. ds_job_ptr d = Some a \<and> h a = Some r))"

definition heap_deps_valid :: "job_heap \<Rightarrow> nat \<Rightarrow> bool" where
  "heap_deps_valid h m \<longleftrightarrow> (\<forall>a r det ds. h a = Some r \<longrightarrow> jr_details r = Some det \<longrightarrow> jd_depend_list det = Some ds \<longrightarrow> deps_valid h m ds)"

lemma dep_next_valid:
  assumes "heap_deps_valid h m" "dep_next h d = Some (Some ds)"
  shows "deps_valid h m ds"
  using assms by (auto simp: dep_next_def heap_deps_valid_def bind_eq_Some_conv split: if_splits)

lemma dep_next_total: "deps_valid h m (d # ds) \<Longrightarrow> ds_job_id d \<noteq> 0 \<Longrightarrow> \<exists>x. dep_next h d = Some x"
  by (auto simp: deps_valid_def dep_next_def)

lemma scan_cost:
  fixes a b c m K K1 :: int
  assumes "c + 1 \<le> c1" "c1 \<le> c + 1 + m + m * (K - 1)" "1 \<le> m" "c < k" "K = k - c" "K1 = max 0 (k - c1)"
  shows "c1 + m * K1 \<le> c + 1 + m * K"
proof (cases "c1 \<le> k")
  case True
  have "0 \<le> (m - 1) * (c1 - c - 1)" using assms(1, 3) by simp
  then have "c1 + m * (k - c1) \<le> c + 1 + m * (k - c)" using assms(3) by (simp add: algebra_simps)
  then show ?thesis unfolding assms(5, 6) using True by simp
next
  case False
  then show ?thesis using assms(2) unfolding assms(5, 6) by (simp add: algebra_simps)
qed

lemma scan_loop_ends:
  assumes "heap_deps_valid h m" "1 \<le> m" "\<forall>d \<in> set ds. ds_job_id d \<noteq> 0 \<longrightarrow> (\<exists>a r. ds_job_ptr d = Some a \<and> h a = Some r)"
  shows "\<exists>rc c'. scan_loop h k job_id ds c = Some (rc, c') \<and> c \<le> c' \<and> c' \<le> c + int (length ds) + int m * max 0 (k - c)"
  using assms
proof (induction h k job_id ds c rule: scan_loop.induct)
  case (1 h k job_id c)
  show ?case by (intro exI [of _ False] exI [of _ c]) simp
next
  case (2 h k job_id d ds c)
  have tl: "\<forall>d \<in> set ds. ds_job_id d \<noteq> 0 \<longrightarrow> (\<exists>a r. ds_job_ptr d = Some a \<and> h a = Some r)" using 2(8) by simp
  have len: "int (length (d # ds)) = 1 + int (length ds)" by simp
  show ?case
  proof (cases "ds_job_id d = 0 \<or> ds_job_id d = job_id")
    case True
    show ?thesis
    proof (cases "ds_job_id d = 0")
      case z: True
      then obtain rc c' where "scan_loop h k job_id ds c = Some (rc, c')" "c \<le> c'" "c' \<le> c + int (length ds) + int m * max 0 (k - c)"
        using 2(1) [OF z 2(6, 7) tl] by blast
      then show ?thesis using z by simp
    next
      case False
      then show ?thesis using True by (intro exI [of _ True] exI [of _ c]) simp
    qed
  next
    case ne: False
    then have n: "ds_job_id d \<noteq> 0" "ds_job_id d \<noteq> job_id" by auto
    obtain x where x: "dep_next h d = Some x" using dep_next_total [of h "length (d # ds)" d ds] 2(8) n(1) by (auto simp: deps_valid_def)
    show ?thesis
    proof (cases x)
      case None
      obtain rc c' where "scan_loop h k job_id ds c = Some (rc, c')" "c \<le> c'" "c' \<le> c + int (length ds) + int m * max 0 (k - c)"
        using 2(2) [OF n x None 2(6, 7) tl] by blast
      then show ?thesis using n x None by simp
    next
      case (Some ds')
      show ?thesis
      proof (cases "c \<ge> k")
        case True
        obtain rc c' where "scan_loop h k job_id ds (c + 1) = Some (rc, c')" "c + 1 \<le> c'" "c' \<le> c + 1 + int (length ds) + int m * max 0 (k - (c + 1))"
          using 2(3) [OF n x Some True 2(6, 7) tl] by blast
        then show ?thesis using n x Some True by simp
      next
        case lt: False
        have v: "deps_valid h m ds'" using dep_next_valid [OF 2(6)] x Some by simp
        obtain rc1 c1 where s1: "scan_loop h k job_id ds' (c + 1) = Some (rc1, c1)" "c + 1 \<le> c1"
            "c1 \<le> c + 1 + int (length ds') + int m * max 0 (k - (c + 1))"
          using 2(4) [OF n x Some lt 2(6, 7)] v by (auto simp: deps_valid_def)
        have l: "int (length ds') \<le> int m" using v by (simp add: deps_valid_def)
        have c1: "c1 \<le> c + 1 + int m + int m * ((k - c) - 1)" using s1(3) l lt by (simp add: algebra_simps)
        have cost: "c1 + int m * max 0 (k - c1) \<le> c + 1 + int m * (k - c)"
          by (rule scan_cost [OF s1(2) c1]) (use 2(7) lt in simp_all)
        show ?thesis
        proof (cases rc1)
          case True
          have z: "0 \<le> int m * max 0 (k - c1)" by simp
          have "c1 \<le> c + 1 + int m * (k - c)" using cost z by linarith
          then have "c1 \<le> c + int (length (d # ds)) + int m * max 0 (k - c)" using lt by simp
          then show ?thesis using n x Some lt s1 True by (intro exI [of _ True] exI [of _ c1]) simp
        next
          case False
          obtain rc c' where "scan_loop h k job_id ds c1 = Some (rc, c')" "c1 \<le> c'" "c' \<le> c1 + int (length ds) + int m * max 0 (k - c1)"
            using 2(5) [OF n x Some lt s1(1) refl False 2(6, 7) tl] by blast
          then show ?thesis using n x Some lt s1 False cost by simp
        qed
      qed
    qed
  qed
qed

text \<open>C11 (termination): \<open>_scan_depend\<close> ends on every graph of dependencies, circular or not: if the pointers of the entries are valid and
  no list has more than \<open>m\<close> entries, it returns, and its counter shows at most \<open>1 + max_depend_depth * m\<close> calls.\<close>

theorem scan_depend_ends:
  assumes "heap_deps_valid h m" "deps_valid h m ds" "1 \<le> m" "job_id \<noteq> 0" "0 \<le> max_depth"
  shows "\<exists>rc c. scan_depend h max_depth (Some ds) job_id 0 = Some (rc, c) \<and> 0 \<le> c \<and> c \<le> 1 + max_depth * int m"
proof (cases "0 \<ge> max_depth")
  case True
  then show ?thesis using assms(5) by (intro exI [of _ False] exI [of _ 1]) (simp add: scan_depend_def)
next
  case False
  obtain rc c where s: "scan_loop h max_depth job_id ds 1 = Some (rc, c)" "1 \<le> c" "c \<le> 1 + int (length ds) + int m * max 0 (max_depth - 1)"
    using scan_loop_ends [OF assms(1, 3), of ds max_depth job_id 1] assms(2) by (auto simp: deps_valid_def)
  have "int (length ds) \<le> int m" using assms(2) by (simp add: deps_valid_def)
  then have "c \<le> 1 + max_depth * int m" using s(3) False by (simp add: algebra_simps)
  then show ?thesis using s False assms(4) by (simp add: scan_depend_def)
qed

text \<open>What the search follows, and what it should follow: an entry leads to the list of the unfinished job it refers to.\<close>

inductive dep_reaches :: "job_heap \<Rightarrow> u32 \<Rightarrow> depend_spec list \<Rightarrow> bool" for h job_id where
  reach_here: "d \<in> set ds \<Longrightarrow> ds_job_id d = job_id \<Longrightarrow> dep_reaches h job_id ds"
| reach_step: "d \<in> set ds \<Longrightarrow> ds_job_id d \<noteq> 0 \<Longrightarrow> dep_next h d = Some (Some ds') \<Longrightarrow> dep_reaches h job_id ds' \<Longrightarrow> dep_reaches h job_id ds"

lemma dep_reaches_mono: "dep_reaches h job_id ds \<Longrightarrow> set ds \<subseteq> set es \<Longrightarrow> dep_reaches h job_id es"
  by (cases rule: dep_reaches.cases) (auto intro: dep_reaches.intros)

lemma dep_reaches_Cons:
  "dep_reaches h job_id (d # ds) \<longleftrightarrow> ds_job_id d = job_id \<or> dep_reaches h job_id ds
     \<or> (\<exists>ds'. ds_job_id d \<noteq> 0 \<and> dep_next h d = Some (Some ds') \<and> dep_reaches h job_id ds')"
  by (subst (1 2) dep_reaches.simps) auto

lemma scan_loop_right:
  assumes "scan_loop h k job_id ds c = Some (rc, c')" "job_id \<noteq> 0"
  shows "c \<le> c' \<and> (rc \<longrightarrow> dep_reaches h job_id ds) \<and> (\<not> rc \<and> c' \<le> k \<longrightarrow> \<not> dep_reaches h job_id ds)"
  using assms
proof (induction h k job_id ds c arbitrary: rc c' rule: scan_loop.induct)
  case (1 h k job_id c)
  then show ?case by (auto elim: dep_reaches.cases)
next
  case (2 h k job_id d ds c)
  note eq = 2(6) [unfolded scan_loop.simps(2)]
  show ?case
  proof (cases "ds_job_id d = 0")
    case z: True
    then show ?thesis using eq 2(1) [OF z _ 2(7)] 2(7) by (simp add: dep_reaches_Cons)
  next
    case z: False
    show ?thesis
    proof (cases "ds_job_id d = job_id")
      case True
      then show ?thesis using eq z by (auto simp: dep_reaches_Cons)
    next
      case n: False
      obtain x where x: "dep_next h d = Some x" using eq z n by (cases "dep_next h d") auto
      show ?thesis
      proof (cases x)
        case None
        have "scan_loop h k job_id ds c = Some (rc, c')" using eq z n x None by simp
        then show ?thesis using 2(2) [OF z n x None _ 2(7)] z n x None by (simp add: dep_reaches_Cons)
      next
        case (Some ds')
        show ?thesis
        proof (cases "c \<ge> k")
          case True
          have s: "scan_loop h k job_id ds (c + 1) = Some (rc, c')" using eq z n x Some True by simp
          then show ?thesis using 2(3) [OF z n x Some True s 2(7)] True by (auto simp: dep_reaches_Cons)
        next
          case lt: False
          obtain rc1 c1 where s1: "scan_loop h k job_id ds' (c + 1) = Some (rc1, c1)" using eq z n x Some lt by (auto split: option.splits)
          note i1 = 2(4) [OF z n x Some lt s1 2(7)]
          show ?thesis
          proof (cases rc1)
            case True
            then have "rc" "c' = c1" using eq z n x Some lt s1 by auto
            then show ?thesis using i1 True z x Some by (auto simp: dep_reaches_Cons)
          next
            case False
            then have s: "scan_loop h k job_id ds c1 = Some (rc, c')" using eq z n x Some lt s1 by simp
            note i2 = 2(5) [OF z n x Some lt s1 refl False s 2(7)]
            show ?thesis using i1 i2 False z n x Some by (auto simp: dep_reaches_Cons)
          qed
        qed
      qed
    qed
  qed
qed

inductive leads_to :: "job_heap \<Rightarrow> u32 \<Rightarrow> depend_spec list \<Rightarrow> bool" for h job_id where
  leads_here: "d \<in> set ds \<Longrightarrow> ds_job_id d = job_id \<Longrightarrow> leads_to h job_id ds"
| leads_step: "d \<in> set ds \<Longrightarrow> ds_job_ptr d = Some a \<Longrightarrow> h a = Some r \<Longrightarrow> jr_magic r \<Longrightarrow> \<not> IS_JOB_FINISHED r \<Longrightarrow>
    jr_details r = Some det \<Longrightarrow> jd_depend_list det = Some ds' \<Longrightarrow> leads_to h job_id ds' \<Longrightarrow> leads_to h job_id ds"

text \<open>Entries that carry the job id of the record they point to, as all do but those for a single task of a job array.\<close>

definition by_job_id :: "job_heap \<Rightarrow> depend_spec list \<Rightarrow> bool" where
  "by_job_id h ds \<longleftrightarrow> (\<forall>d \<in> set ds. \<forall>a r. ds_job_ptr d = Some a \<longrightarrow> h a = Some r \<longrightarrow> ds_job_id d = jr_job_id r \<and> ds_job_id d \<noteq> 0)"

definition heap_by_job_id :: "job_heap \<Rightarrow> bool" where
  "heap_by_job_id h \<longleftrightarrow> (\<forall>a r det ds. h a = Some r \<longrightarrow> jr_details r = Some det \<longrightarrow> jd_depend_list det = Some ds \<longrightarrow> by_job_id h ds)"

lemma dep_reaches_leads: "dep_reaches h job_id ds \<Longrightarrow> leads_to h job_id ds"
proof (induction rule: dep_reaches.induct)
  case (reach_here d ds)
  then show ?case by (rule leads_here)
next
  case (reach_step d ds ds')
  from reach_step(3) obtain a r det where e: "ds_job_ptr d = Some a" "h a = Some r" "jr_magic r" "\<not> IS_JOB_FINISHED r"
      "jr_details r = Some det" "jd_depend_list det = Some ds'"
    by (auto simp: dep_next_def bind_eq_Some_conv split: if_splits)
  show ?case by (rule leads_step [OF reach_step(1) e reach_step(5)])
qed

lemma leads_dep_reaches: "leads_to h job_id ds \<Longrightarrow> heap_by_job_id h \<Longrightarrow> by_job_id h ds \<Longrightarrow> dep_reaches h job_id ds"
proof (induction rule: leads_to.induct)
  case (leads_here d ds)
  then show ?case by (auto intro: reach_here)
next
  case (leads_step d ds a r det ds')
  have i: "ds_job_id d = jr_job_id r" "ds_job_id d \<noteq> 0" using leads_step.prems(2) leads_step.hyps(1-3) by (auto simp: by_job_id_def)
  have "dep_next h d = Some (Some ds')" using leads_step.hyps i by (simp add: dep_next_def)
  moreover have "by_job_id h ds'" using leads_step.prems(1) leads_step.hyps by (auto simp: heap_by_job_id_def)
  ultimately show ?case using reach_step [OF leads_step.hyps(1) i(2)] leads_step.IH leads_step.prems(1) by blast
qed

text \<open>C20 (safety): The search for circles is right. If it finds one, the list leads to the job: an entry names it, or refers to the valid record of
  an unfinished job whose own list leads to it. If it finds none, its counter has not passed \<open>max_depend_depth\<close>, and every entry of the list and of all
  jobs carries the job id of the record it points to, then the list does not lead to the job. Entries for a single task of a job array carry the id of
  the array instead and are not followed, as the lemma \<open>array_task_circle_missed\<close> below shows.\<close>

theorem scan_depend_right:
  assumes "scan_depend h max_depth (Some ds) job_id 0 = Some (rc, c)" "job_id \<noteq> 0"
  shows "(rc \<longrightarrow> leads_to h job_id ds) \<and>
    (\<not> rc \<and> c \<le> max_depth \<and> by_job_id h ds \<and> heap_by_job_id h \<longrightarrow> \<not> leads_to h job_id ds)"
proof (cases "0 \<ge> max_depth")
  case True
  then show ?thesis using assms(1) by (simp add: scan_depend_def)
next
  case False
  then have "scan_loop h max_depth job_id ds 1 = Some (rc, c)" using assms by (simp add: scan_depend_def)
  then show ?thesis using scan_loop_right [OF _ assms(2)] dep_reaches_leads leads_dep_reaches by blast
qed

definition demo_dep :: "u16 \<Rightarrow> u32 \<Rightarrow> nat \<Rightarrow> depend_spec" where
  "demo_dep ty job_id a = \<lparr>ds_array_task_id = NO_VAL, ds_depend_type = ty, ds_depend_flags = 0, ds_job_id = job_id, ds_job_ptr = Some a\<rparr>"

definition demo_details :: "depend_spec list \<Rightarrow> job_details" where
  "demo_details ds = \<lparr>jd_depend_list = Some ds, jd_dependency = None, jd_expanding_jobid = 0, jd_share_res = 0, jd_whole_node = 0\<rparr>"

text \<open>Two jobs that wait for each other.\<close>

definition demo_circle :: job_heap where
  "demo_circle = [1 \<mapsto> (demo_job 11 0 NO_VAL 0)\<lparr>jr_details := Some (demo_details [demo_dep 2 12 2])\<rparr>,
     2 \<mapsto> (demo_job 12 0 NO_VAL 0)\<lparr>jr_details := Some (demo_details [demo_dep 2 11 1])\<rparr>]"

lemma demo_circle_valid: "heap_deps_valid demo_circle 1" "deps_valid demo_circle 1 [demo_dep 2 11 1]"
proof -
  have "deps_valid demo_circle 1 [demo_dep 2 11 1]" "deps_valid demo_circle 1 [demo_dep 2 12 2]"
    by (auto simp: deps_valid_def demo_circle_def demo_dep_def)
  then show "heap_deps_valid demo_circle 1" "deps_valid demo_circle 1 [demo_dep 2 11 1]"
    by (auto simp: heap_deps_valid_def demo_details_def demo_circle_def split: if_splits)
qed

theorem scan_depend_ends_witness:
  "\<exists>rc c. scan_depend demo_circle 10 (Some [demo_dep 2 11 1]) 13 0 = Some (rc, c) \<and> 0 \<le> c \<and> c \<le> 11"
  using scan_depend_ends [OF demo_circle_valid, of 13 10] by simp

definition demo_line :: job_heap where
  "demo_line = [1 \<mapsto> (demo_job 11 0 NO_VAL 0)\<lparr>jr_details := Some (demo_details [demo_dep 2 12 2])\<rparr>,
     2 \<mapsto> (demo_job 12 0 NO_VAL 0)\<lparr>jr_details := Some (demo_details [])\<rparr>]"

theorem scan_depend_right_witness:
  "leads_to demo_circle 12 [demo_dep 2 11 1] \<and> \<not> leads_to demo_line 13 [demo_dep 2 11 1]"
proof
  have "scan_depend demo_circle 10 (Some [demo_dep 2 11 1]) 12 0 = Some (True, 2)" by code_simp
  then show "leads_to demo_circle 12 [demo_dep 2 11 1]" using scan_depend_right [of demo_circle 10 "[demo_dep 2 11 1]" 12 True 2] by simp
  have s: "scan_depend demo_line 10 (Some [demo_dep 2 11 1]) 13 0 = Some (False, 3)" by code_simp
  have b: "by_job_id demo_line [demo_dep 2 11 1]" by (simp add: by_job_id_def demo_dep_def demo_line_def demo_job_def)
  have h: "heap_by_job_id demo_line"
    by (auto simp: heap_by_job_id_def by_job_id_def demo_dep_def demo_line_def demo_job_def demo_details_def split: if_splits)
  show "\<not> leads_to demo_line 13 [demo_dep 2 11 1]" using scan_depend_right [OF s] b h by simp
qed

text \<open>Job 11 waits for task 3 of array 10, whose record has the job id 12 and waits for job 11: the circle is not found.\<close>

definition demo_task_circle :: job_heap where
  "demo_task_circle = [1 \<mapsto> (demo_job 11 0 NO_VAL 0)\<lparr>jr_details := Some (demo_details [])\<rparr>,
     2 \<mapsto> (demo_job 12 10 3 0)\<lparr>jr_details := Some (demo_details [demo_dep 2 11 1])\<rparr>]"

lemma array_task_circle_missed:
  "scan_depend demo_task_circle 10 (Some [(demo_dep 2 10 2)\<lparr>ds_array_task_id := 3\<rparr>]) 11 0 = Some (False, 1)
   \<and> leads_to demo_task_circle 11 [(demo_dep 2 10 2)\<lparr>ds_array_task_id := 3\<rparr>]"
proof
  show "scan_depend demo_task_circle 10 (Some [(demo_dep 2 10 2)\<lparr>ds_array_task_id := 3\<rparr>]) 11 0 = Some (False, 1)" by code_simp
  let ?r = "(demo_job 12 10 3 0)\<lparr>jr_details := Some (demo_details [demo_dep 2 11 1])\<rparr>" and ?d = "(demo_dep 2 10 2)\<lparr>ds_array_task_id := 3\<rparr>"
  have "leads_to demo_task_circle 11 [demo_dep 2 11 1]" by (rule leads_here [where d = "demo_dep 2 11 1"]) (simp_all add: demo_dep_def)
  moreover have "\<not> IS_JOB_FINISHED ?r" by code_simp
  moreover have "?d \<in> set [?d]" "ds_job_ptr ?d = Some 2" "demo_task_circle 2 = Some ?r" "jr_magic ?r" "jr_details ?r = Some (demo_details [demo_dep 2 11 1])"
      "jd_depend_list (demo_details [demo_dep 2 11 1]) = Some [demo_dep 2 11 1]"
    by (simp_all add: demo_dep_def demo_task_circle_def demo_job_def demo_details_def)
  ultimately show "leads_to demo_task_circle 11 [?d]" by (metis leads_step)
qed

subsection \<open>Lists of dependencies\<close>

datatype dep_outcome = Met | Waiting | Failed

text \<open>The rule for one entry, from its type and the state of the job depended on. The low byte of the state is 0 for a pending job, 1 and 2 for one that runs
  or is suspended, 3 for one that ran to completion and more for every other end; the bit \<open>0x8000\<close> says that the job is completing, \<open>0x1000\<close> special exit. The types
  are 1 (after), 2 (afterany), 3 (afternotok), 4 (afterok) and 7 (aftercorr). A job that was cancelled before it began
  counts as begun, and one in the state of special exit as one that has failed, although it may be pending again.\<close>

definition dep_rule :: "u16 \<Rightarrow> u32 \<Rightarrow> dep_outcome" where
  "dep_rule ty state =
     (let base = state AND 0xff; ended = (base > 2 \<and> state AND 0x8000 = 0); special = (state AND 0x1000 \<noteq> 0) in
      if ty = 1 then (if base = 0 then Waiting else Met)
      else if ty = 2 then (if ended then Met else Waiting)
      else if ty = 3 then (if special then Met else if \<not> ended then Waiting else if base = 3 then Failed else Met)
      else (if \<not> ended then Waiting else if base = 3 then Met else Failed))"

definition dep_job :: "job_tables \<Rightarrow> depend_spec \<Rightarrow> nat option" where
  "dep_job st d = find (\<lambda>a. jr_job_id (the (jt_heap st a)) = ds_job_id d) (jt_job_list st)"

text \<open>An entry whose job has no record any more counts as met, whatever the type and the outcome of the job.\<close>

definition dep_status :: "job_tables \<Rightarrow> depend_spec \<Rightarrow> dep_outcome" where
  "dep_status st d = (case dep_job st d of None \<Rightarrow> Met | Some a \<Rightarrow> dep_rule (ds_depend_type d) (jr_job_state (the (jt_heap st a))))"

text \<open>The burst buffer of the job depended on is written, or the job is gone.\<close>

definition staged_out :: "job_tables \<Rightarrow> (nat \<Rightarrow> int) \<Rightarrow> depend_spec \<Rightarrow> bool" where
  "staged_out st stage_out d \<longleftrightarrow> (case dep_job st d of None \<Rightarrow> True | Some a \<Rightarrow> stage_out a = 1)"

definition regular_dep :: "depend_spec \<Rightarrow> bool" where
  "regular_dep d \<longleftrightarrow> ds_array_task_id d = NO_VAL
     \<and> ds_depend_type d \<in> {SLURM_DEPEND_AFTER, SLURM_DEPEND_AFTER_ANY, SLURM_DEPEND_AFTER_NOT_OK, SLURM_DEPEND_AFTER_OK, SLURM_DEPEND_AFTER_CORRESPOND}"

definition plain_dep :: "depend_spec \<Rightarrow> bool" where
  "plain_dep d \<longleftrightarrow> regular_dep d \<and> ds_depend_flags d AND SLURM_FLAGS_OR = 0"

definition alternative_dep :: "depend_spec \<Rightarrow> bool" where
  "alternative_dep d \<longleftrightarrow> regular_dep d \<and> ds_depend_flags d AND SLURM_FLAGS_OR \<noteq> 0"

definition status_verdict :: "dep_outcome \<Rightarrow> verdict" where
  "status_verdict s = (case s of Met \<Rightarrow> V_Clear | Waiting \<Rightarrow> V_Wait | Failed \<Rightarrow> V_Fail_break)"

lemma jt_inv_job:
  assumes "jt_inv st" "dep_job st d = Some a"
  shows "\<exists>r. jt_heap st a = Some r \<and> jr_magic r \<and> jr_job_id r = ds_job_id d"
proof -
  from assms(1) obtain Xs Js Ts where i: "dom (cores (jt_heap st)) = set (jt_job_list st)" "\<forall>a c. cores (jt_heap st) a = Some c \<longrightarrow> fst c"
    by (rule jt_invE)
  have a: "a \<in> set (jt_job_list st)" "jr_job_id (the (jt_heap st a)) = ds_job_id d" using find_SomeD [OF assms(2) [unfolded dep_job_def]] by auto
  obtain r where r: "jt_heap st a = Some r" using in_cores [of a "jt_heap st"] a(1) i(1) by blast
  then show ?thesis using i(2) a(2) by (auto simp: cores_def job_core_def)
qed

lemma plain_check:
  assumes "jt_inv st" "regular_dep d"
  shows "check_dep st now job d = Some (dep_job st d, status_verdict (dep_status st d), job)"
proof -
  have f: "find_job_array_rec st (ds_job_id d) (ds_array_task_id d) = Some (dep_job st d)"
    using jt_inv_find [OF assms(1), of "ds_job_id d"] assms(2) by (simp add: find_job_array_rec_def regular_dep_def dep_job_def)
  have ty: "ds_depend_type d \<noteq> SLURM_DEPEND_SINGLETON" "ds_depend_type d \<noteq> SLURM_DEPEND_PLUSSINGLETON" "ds_array_task_id d \<noteq> INFINITE"
    using assms(2) by (auto simp: regular_dep_def depend_consts NO_VAL_def INFINITE_def)
  show ?thesis
  proof (cases "dep_job st d")
    case None
    then show ?thesis using f ty by (cases "jr_name job") (simp_all add: check_dep_def rec_of_def dep_status_def status_verdict_def)
  next
    case (Some a)
    obtain r where r: "jt_heap st a = Some r" "jr_magic r" "jr_job_id r = ds_job_id d" using jt_inv_job [OF assms(1) Some] by blast
    have "job_verdict now job d r = (status_verdict (dep_rule (ds_depend_type d) (jr_job_state r)), job)"
      using assms(2) by (auto simp: regular_dep_def job_verdict_def dep_rule_def status_verdict_def ok_verdict_def not_ok_verdict_def depend_consts
          is_job_def job_base_def IS_JOB_COMPLETED_def IS_JOB_FINISHED_def JOB_COMPLETING_def JOB_SPECIAL_EXIT_def Let_def)
    then show ?thesis using f ty r Some by (cases "jr_name job") (simp_all add: check_dep_def rec_of_def dep_status_def)
  qed
qed

definition dep_upd :: "job_tables \<Rightarrow> depend_spec \<Rightarrow> depend_spec" where
  "dep_upd st d = d\<lparr>ds_job_ptr := dep_job st d\<rparr>"

text \<open>The entries that stay in the list.\<close>

definition dep_kept :: "job_tables \<Rightarrow> (nat \<Rightarrow> int) \<Rightarrow> depend_spec \<Rightarrow> bool" where
  "dep_kept st stage_out d \<longleftrightarrow> dep_status st d = Waiting \<or> dep_status st d = Met \<and> \<not> staged_out st stage_out d"

lemma staged_out_case: "(case dep_job st d of None \<Rightarrow> True | Some a \<Rightarrow> stage_out a = 1) = staged_out st stage_out d"
  by (simp add: staged_out_def)

lemma plain_loop:
  assumes "jt_inv st" "\<forall>d \<in> set ds. plain_dep d" "\<forall>d \<in> set ds. dep_status st d \<noteq> Failed"
  shows "\<exists>rb. depend_loop st now stage_out job ds fl = Some (job, map (dep_upd st) (filter (dep_kept st stage_out) ds),
    fl\<lparr>dr_depends := dr_depends fl \<or> (\<exists>d \<in> set ds. dep_status st d = Waiting), dr_rebuild_str := rb\<rparr>)"
  using assms(2, 3)
proof (induction ds arbitrary: fl)
  case Nil
  show ?case by (intro exI [of _ "dr_rebuild_str fl"]) simp
next
  case (Cons d ds)
  have c: "check_dep st now job d = Some (dep_job st d, status_verdict (dep_status st d), job)" and f: "ds_depend_flags d AND SLURM_FLAGS_OR = 0"
    using plain_check [OF assms(1)] Cons.prems(1) by (auto simp: plain_dep_def)
  consider "dep_status st d = Met" "staged_out st stage_out d" | "dep_status st d = Met" "\<not> staged_out st stage_out d" | "dep_status st d = Waiting"
    using Cons.prems(2) by (cases "dep_status st d") auto
  then show ?case
  proof cases
    case 1
    obtain rb where "depend_loop st now stage_out job ds (fl\<lparr>dr_rebuild_str := True\<rparr>) = Some (job, map (dep_upd st) (filter (dep_kept st stage_out) ds),
        (fl\<lparr>dr_rebuild_str := True\<rparr>)\<lparr>dr_depends := dr_depends (fl\<lparr>dr_rebuild_str := True\<rparr>) \<or> (\<exists>d \<in> set ds. dep_status st d = Waiting), dr_rebuild_str := rb\<rparr>)"
      using Cons.IH [of "fl\<lparr>dr_rebuild_str := True\<rparr>"] Cons.prems by auto
    then show ?thesis using c f 1 by (intro exI [of _ rb]) (simp add: status_verdict_def staged_out_case dep_kept_def [of _ _ d])
  next
    case 2
    obtain rb where "depend_loop st now stage_out job ds fl = Some (job, map (dep_upd st) (filter (dep_kept st stage_out) ds),
        fl\<lparr>dr_depends := dr_depends fl \<or> (\<exists>d \<in> set ds. dep_status st d = Waiting), dr_rebuild_str := rb\<rparr>)"
      using Cons.IH [of fl] Cons.prems by auto
    then show ?thesis using c 2 by (intro exI [of _ rb]) (simp add: status_verdict_def staged_out_case dep_kept_def [of _ _ d] dep_upd_def)
  next
    case 3
    obtain rb where "depend_loop st now stage_out job ds (fl\<lparr>dr_depends := True\<rparr>) = Some (job, map (dep_upd st) (filter (dep_kept st stage_out) ds),
        (fl\<lparr>dr_depends := True\<rparr>)\<lparr>dr_depends := dr_depends (fl\<lparr>dr_depends := True\<rparr>) \<or> (\<exists>d \<in> set ds. dep_status st d = Waiting), dr_rebuild_str := rb\<rparr>)"
      using Cons.IH [of "fl\<lparr>dr_depends := True\<rparr>"] Cons.prems by auto
    then show ?thesis using c 3 by (intro exI [of _ rb]) (simp add: status_verdict_def dep_upd_def dep_kept_def [of _ _ d])
  qed
qed

lemma plain_loop_fails:
  assumes "jt_inv st" "\<forall>d \<in> set ds. plain_dep d" "\<exists>d \<in> set ds. dep_status st d = Failed"
  shows "\<exists>ds' fl'. depend_loop st now stage_out job ds fl = Some (job, ds', fl') \<and> dr_failure fl'"
  using assms(2, 3)
proof (induction ds arbitrary: fl)
  case (Cons d ds)
  have c: "check_dep st now job d = Some (dep_job st d, status_verdict (dep_status st d), job)" and f: "ds_depend_flags d AND SLURM_FLAGS_OR = 0"
    using plain_check [OF assms(1)] Cons.prems(1) by (auto simp: plain_dep_def)
  show ?case
  proof (cases "dep_status st d = Failed")
    case True
    then show ?thesis using c by (simp add: status_verdict_def)
  next
    case False
    then have ih: "\<exists>ds' fl'. depend_loop st now stage_out job ds fl1 = Some (job, ds', fl') \<and> dr_failure fl'" for fl1
      using Cons.IH [of fl1] Cons.prems by auto
    obtain ds1 fl1 where 1: "depend_loop st now stage_out job ds (fl\<lparr>dr_rebuild_str := True\<rparr>) = Some (job, ds1, fl1)" "dr_failure fl1" using ih by blast
    obtain ds2 fl2 where 2: "depend_loop st now stage_out job ds (fl\<lparr>dr_depends := True\<rparr>) = Some (job, ds2, fl2)" "dr_failure fl2" using ih by blast
    obtain ds3 fl3 where 3: "depend_loop st now stage_out job ds fl = Some (job, ds3, fl3)" "dr_failure fl3" using ih by blast
    show ?thesis using c f False 1 2 3
      by (cases "dep_status st d"; cases "staged_out st stage_out d") (auto simp: status_verdict_def staged_out_case)
  qed
qed simp

text \<open>A list of alternatives: the entries before the first decisive one are kept.\<close>

definition decisive :: "job_tables \<Rightarrow> (nat \<Rightarrow> int) \<Rightarrow> depend_spec \<Rightarrow> bool" where
  "decisive st stage_out d \<longleftrightarrow> dep_status st d = Failed \<or> dep_status st d = Met \<and> staged_out st stage_out d"

lemma alternatives_prefix:
  assumes "jt_inv st" "\<forall>d \<in> set pre. regular_dep d \<and> \<not> decisive st stage_out d"
  shows "depend_loop st now stage_out job (pre @ rest) fl = do {
     (job, ds, fl) \<leftarrow> depend_loop st now stage_out job rest (fl\<lparr>dr_depends := dr_depends fl \<or> (\<exists>d \<in> set pre. dep_status st d = Waiting)\<rparr>);
     Some (job, map (dep_upd st) pre @ ds, fl) }"
  using assms(2)
proof (induction pre arbitrary: fl)
  case Nil
  show ?case by (cases "depend_loop st now stage_out job rest fl") auto
next
  case (Cons d pre)
  have c: "check_dep st now job d = Some (dep_job st d, status_verdict (dep_status st d), job)" using plain_check [OF assms(1)] Cons.prems by simp
  consider "dep_status st d = Met" "\<not> staged_out st stage_out d" | "dep_status st d = Waiting"
    using Cons.prems by (cases "dep_status st d") (auto simp: decisive_def)
  then show ?case
  proof cases
    case 1
    then show ?thesis using c Cons.IH [of fl] Cons.prems
      by (simp add: status_verdict_def staged_out_case dep_upd_def bind_assoc case_prod_unfold)
  next
    case 2
    then show ?thesis using c Cons.IH [of "fl\<lparr>dr_depends := True\<rparr>"] Cons.prems
      by (simp add: status_verdict_def dep_upd_def bind_assoc case_prod_unfold)
  qed
qed

lemma list2str_loop_id: "fst (list2str_loop False ds sep str) = ds"
  by (induction ds arbitrary: sep str) (simp_all add: Let_def case_prod_beta)

lemma depend_list2str_list: "jd_depend_list (depend_list2str False det) = jd_depend_list det"
  by (simp add: depend_list2str_def Let_def case_prod_beta list2str_loop_id split: option.splits)

text \<open>C19 (functional): In tables built by creating and deleting jobs, \<open>test_job_dependency\<close> tests a list of plain dependencies, all of which must be
  met, by the rule \<open>dep_rule\<close> for each entry; an entry whose job has been purged counts as met. The result is 2 if one can no longer be met, else 1
  if one is still waited for, else 0; unless it is 2, the new list of the job has, in order, exactly the entries that are waited for and those that are met
  while the burst buffer of the job is still being written; the latter do not count for the result.\<close>

theorem plain_dependencies:
  assumes "0 < n" "table_step\<^sup>*\<^sup>* (empty_tables n) st" "jt_heap st p = Some job" "jr_details job = Some det" "jd_depend_list det = Some ds" "ds \<noteq> []"
    "\<forall>d \<in> set ds. plain_dep d"
  shows "\<exists>st' rc. test_job_dependency now stage_out p st = Some (st', rc)
    \<and> rc = (if \<exists>d \<in> set ds. dep_status st d = Failed then 2 else if \<exists>d \<in> set ds. dep_status st d = Waiting then 1 else 0)
    \<and> (rc \<noteq> 2 \<longrightarrow> (\<exists>job' det'. jt_heap st' p = Some job' \<and> jr_details job' = Some det'
         \<and> jd_depend_list det' = Some (map (\<lambda>d. d\<lparr>ds_job_ptr := dep_job st d\<rparr>)
             (filter (\<lambda>d. dep_status st d = Waiting \<or> dep_status st d = Met \<and> \<not> staged_out st stage_out d) ds))))"
proof -
  have inv: "jt_inv st" using assms(2) jt_inv_empty [OF assms(1)] by (induction rule: rtranclp_induct) (auto intro: jt_inv_step)
  let ?fl = "\<lparr>dr_failure = False, dr_depends = False, dr_rebuild_str = False, dr_or_satisfied = False\<rparr>"
  show ?thesis
  proof (cases "\<exists>d \<in> set ds. dep_status st d = Failed")
    case True
    obtain ds' fl' where "depend_loop st now stage_out job ds ?fl = Some (job, ds', fl')" "dr_failure fl'"
      using plain_loop_fails [OF inv assms(7) True] by blast
    then show ?thesis using assms(3-6) True by (simp add: test_job_dependency_def Let_def)
  next
    case False
    then obtain rb where "depend_loop st now stage_out job ds ?fl = Some (job, map (dep_upd st) (filter (dep_kept st stage_out) ds),
        ?fl\<lparr>dr_depends := dr_depends ?fl \<or> (\<exists>d \<in> set ds. dep_status st d = Waiting), dr_rebuild_str := rb\<rparr>)"
      using plain_loop [OF inv assms(7)] by blast
    then show ?thesis using assms(3-6) False
      by (simp add: test_job_dependency_def Let_def depend_list2str_list dep_kept_def [abs_def] dep_upd_def [abs_def])
  qed
qed

text \<open>C38 (functional): In such tables a list of alternatives is decided by its first decisive entry, one that can no longer be met or that is met with its burst
  buffer written. If there is none, all entries stay and the result is 1 if one is waited for, else 0. If the first decisive entry can no longer be met, the
  result is 2, and the job will be cancelled, although a later alternative may be met. If it is met, the list is emptied and the result is 0, or 1, for
  one more cycle, if an entry before it is waited for.\<close>

theorem alternatives_exact:
  assumes "0 < n" "table_step\<^sup>*\<^sup>* (empty_tables n) st" "jt_heap st p = Some job" "jr_details job = Some det" "jd_depend_list det = Some ds" "ds \<noteq> []"
    "\<forall>d \<in> set ds. alternative_dep d"
    and split: "ds = pre @ rest" "\<forall>d \<in> set pre. \<not> (dep_status st d = Failed \<or> dep_status st d = Met \<and> staged_out st stage_out d)"
      "rest = [] \<or> dep_status st (hd rest) = Failed \<or> dep_status st (hd rest) = Met \<and> staged_out st stage_out (hd rest)"
  shows "\<exists>st' job' det' rc. test_job_dependency now stage_out p st = Some (st', rc) \<and> jt_heap st' p = Some job' \<and> jr_details job' = Some det'
    \<and> (if rest = [] then rc = (if \<exists>d \<in> set pre. dep_status st d = Waiting then 1 else 0)
         \<and> jd_depend_list det' = Some (map (\<lambda>d. d\<lparr>ds_job_ptr := dep_job st d\<rparr>) ds)
       else if dep_status st (hd rest) = Failed then rc = 2
       else rc = (if \<exists>d \<in> set pre. dep_status st d = Waiting then 1 else 0) \<and> jd_depend_list det' = Some [])"
proof -
  have inv: "jt_inv st" using assms(2) jt_inv_empty [OF assms(1)] by (induction rule: rtranclp_induct) (auto intro: jt_inv_step)
  let ?fl = "\<lparr>dr_failure = False, dr_depends = False, dr_rebuild_str = False, dr_or_satisfied = False\<rparr>"
  define w where "w \<longleftrightarrow> (\<exists>d \<in> set pre. dep_status st d = Waiting)"
  have l: "depend_loop st now stage_out job ds ?fl = do {
      (job, ds, fl) \<leftarrow> depend_loop st now stage_out job rest (?fl\<lparr>dr_depends := w\<rparr>); Some (job, map (dep_upd st) pre @ ds, fl) }"
    using alternatives_prefix [OF inv, of pre stage_out now job rest ?fl] assms(7) split(1,2) by (auto simp: decisive_def alternative_dep_def w_def)
  show ?thesis
  proof (cases rest)
    case Nil
    then have "depend_loop st now stage_out job ds ?fl = Some (job, map (dep_upd st) ds, ?fl\<lparr>dr_depends := w\<rparr>)" using l split(1) by simp
    then show ?thesis using assms(3-6) Nil by (simp add: test_job_dependency_def Let_def w_def dep_upd_def [abs_def])
  next
    case (Cons d post)
    have d: "regular_dep d" "ds_depend_flags d AND SLURM_FLAGS_OR \<noteq> 0" using assms(7) split(1) Cons by (auto simp: alternative_dep_def)
    note c = plain_check [OF inv d(1), of now job]
    consider "dep_status st d = Failed" | "dep_status st d = Met" "staged_out st stage_out d" using split(3) Cons by auto
    then show ?thesis
    proof cases
      case 1
      then have "depend_loop st now stage_out job rest (?fl\<lparr>dr_depends := w\<rparr>) = Some (job, dep_upd st d # post, ?fl\<lparr>dr_failure := True, dr_depends := w\<rparr>)"
        using c Cons by (simp add: status_verdict_def dep_upd_def)
      then show ?thesis using l assms(3-6) 1 Cons by (simp add: test_job_dependency_def Let_def)
    next
      case 2
      then have "depend_loop st now stage_out job rest (?fl\<lparr>dr_depends := w\<rparr>) =
          Some (job, dep_upd st d # post, ?fl\<lparr>dr_depends := w, dr_rebuild_str := True, dr_or_satisfied := True\<rparr>)"
        using c d(2) Cons by (simp add: status_verdict_def staged_out_case dep_upd_def)
      then show ?thesis using l assms(3-6) 2 Cons by (simp add: test_job_dependency_def Let_def depend_list2str_list w_def)
    qed
  qed
qed

definition demo_three :: "u32 \<Rightarrow> u32 \<Rightarrow> depend_spec list \<Rightarrow> job_tables" where
  "demo_three s1 s2 ds = \<lparr>jt_heap = [1 \<mapsto> demo_job 1 0 NO_VAL s1, 2 \<mapsto> demo_job 2 0 NO_VAL s2,
       3 \<mapsto> (demo_job 3 0 NO_VAL 0)\<lparr>jr_name := Some ''w'', jr_details := Some (demo_details ds)\<rparr>],
     jt_hash = [None, Some 1, Some 2, Some 3, None], jt_hash_j = [None, None, None, None, None],
     jt_hash_t = [None, None, None, None, None], jt_job_list = [1, 2, 3]\<rparr>"

lemma demo_three_reach: "table_step\<^sup>*\<^sup>* (empty_tables 5) (demo_three s1 s2 ds)"
proof -
  define st1 where "st1 = \<lparr>jt_heap = [1 \<mapsto> demo_job 1 0 NO_VAL s1],
     jt_hash = [None, Some 1, None, None, None], jt_hash_j = [None, None, None, None, None],
     jt_hash_t = [None, None, None, None, None], jt_job_list = [1]\<rparr>"
  define st2 where "st2 = \<lparr>jt_heap = [1 \<mapsto> demo_job 1 0 NO_VAL s1, 2 \<mapsto> demo_job 2 0 NO_VAL s2],
     jt_hash = [None, Some 1, Some 2, None, None], jt_hash_j = [None, None, None, None, None],
     jt_hash_t = [None, None, None, None, None], jt_job_list = [1, 2]\<rparr>"
  note d = demo_add_def demo_job_def demo_details_def add_job_hash_def add_job_array_hash_def change_rec_def JOB_HASH_INX_def c_rd_def c_wr_def
  have rep: "replicate 5 None = [None, None, None, None, None :: nat option]" by (simp add: numeral_eq_Suc)
  have "demo_add 1 (demo_job 1 0 NO_VAL s1) (empty_tables 5) = Some st1" by (simp add: d st1_def empty_tables_def rep)
  then have 1: "table_step (empty_tables 5) st1" by (rule demo_add_step) (simp_all add: empty_tables_def demo_job_def)
  have "demo_add 2 (demo_job 2 0 NO_VAL s2) st1 = Some st2" by (simp add: d st1_def st2_def)
  then have 2: "table_step st1 st2" by (rule demo_add_step) (simp_all add: st1_def demo_job_def)
  have "demo_add 3 ((demo_job 3 0 NO_VAL 0)\<lparr>jr_name := Some ''w'', jr_details := Some (demo_details ds)\<rparr>) st2 = Some (demo_three s1 s2 ds)"
    by (simp add: d demo_three_def st2_def)
  then have 3: "table_step st2 (demo_three s1 s2 ds)" by (rule demo_add_step) (simp_all add: st2_def demo_job_def)
  show ?thesis using 1 2 3 by (meson rtranclp.rtrancl_into_rtrancl rtranclp.rtrancl_refl)
qed

theorem plain_dependencies_witness:
  "\<exists>st' rc. test_job_dependency 0 (\<lambda>a. 1) 3 (demo_three 3 1 [demo_dep 4 1 1, demo_dep 2 2 2]) = Some (st', rc) \<and> rc = 1
    \<and> (\<exists>job' det'. jt_heap st' 3 = Some job' \<and> jr_details job' = Some det' \<and> jd_depend_list det' = Some [demo_dep 2 2 2])"
proof -
  let ?st = "demo_three 3 1 [demo_dep 4 1 1, demo_dep 2 2 2]"
  have s: "dep_status ?st (demo_dep 4 1 1) = Met" "staged_out ?st (\<lambda>a. 1) (demo_dep 4 1 1)"
      "dep_status ?st (demo_dep 2 2 2) = Waiting" "(demo_dep 2 2 2)\<lparr>ds_job_ptr := dep_job ?st (demo_dep 2 2 2)\<rparr> = demo_dep 2 2 2"
    by code_simp+
  have p: "\<forall>d \<in> set [demo_dep 4 1 1, demo_dep 2 2 2]. plain_dep d"
    by (simp add: plain_dep_def regular_dep_def demo_dep_def depend_consts)
  have h: "jt_heap ?st 3 = Some ((demo_job 3 0 NO_VAL 0)\<lparr>jr_name := Some ''w'', jr_details := Some (demo_details [demo_dep 4 1 1, demo_dep 2 2 2])\<rparr>)"
    by (simp add: demo_three_def)
  show ?thesis using plain_dependencies [OF _ demo_three_reach h _ _ _ p, of "demo_details [demo_dep 4 1 1, demo_dep 2 2 2]" 0 "\<lambda>a. 1"] s
    by (simp add: demo_details_def)
qed

text \<open>Job 1 has failed and job 2 has completed: \<open>afterok:1?afterok:2\<close> cancels the job.\<close>

definition demo_alt :: "u32 \<Rightarrow> nat \<Rightarrow> depend_spec" where
  "demo_alt job_id a = (demo_dep 4 job_id a)\<lparr>ds_depend_flags := 1\<rparr>"

theorem alternatives_exact_witness:
  "\<exists>st'. test_job_dependency 0 (\<lambda>a. 1) 3 (demo_three 5 3 [demo_alt 1 1, demo_alt 2 2]) = Some (st', 2)"
proof -
  let ?ds = "[demo_alt 1 1, demo_alt 2 2]" and ?det = "demo_details [demo_alt 1 1, demo_alt 2 2]"
  let ?st = "demo_three 5 3 ?ds"
  have s: "dep_status ?st (hd ?ds) = Failed" by code_simp
  have p: "\<forall>d \<in> set ?ds. alternative_dep d"
    by (simp add: alternative_dep_def regular_dep_def demo_alt_def demo_dep_def depend_consts SLURM_FLAGS_OR_def)
  have h: "jt_heap ?st 3 = Some ((demo_job 3 0 NO_VAL 0)\<lparr>jr_name := Some ''w'', jr_details := Some ?det\<rparr>)"
    by (simp add: demo_three_def)
  have d: "jd_depend_list ?det = Some ?ds" by (simp add: demo_details_def)
  show ?thesis using alternatives_exact [OF _ demo_three_reach h _ d _ p, of "[]" ?ds "\<lambda>a. 1" 0] s by auto
qed

text \<open>A new dependency text for a job and the test of the dependencies.\<close>

definition depend_test :: "(nat \<Rightarrow> int) \<Rightarrow> nat \<Rightarrow> string \<Rightarrow> job_tables \<Rightarrow> (dep_rc \<times> int) option" where
  "depend_test stage_out p text st = do {
     (st, rc) \<leftarrow> update_job_dependency 10 1001 (\<lambda>j. j) False p (Some text) st;
     (st, result) \<leftarrow> test_job_dependency 0 stage_out p st;
     Some (rc, result)
   }"

text \<open>The same on the text of a dependency: with \<open>afterok:1?afterok:2\<close>, job 1 failed and job 2 completed, the result is 2; with the
  alternatives in the other order it is 0.\<close>

lemma failed_alternative_kills:
  "depend_test (\<lambda>_. 1) 3 ''afterok:1?afterok:2'' (demo_three 5 3 []) = Some (DEP_SUCCESS, 2)
   \<and> depend_test (\<lambda>_. 1) 3 ''afterok:2?afterok:1'' (demo_three 5 3 []) = Some (DEP_SUCCESS, 0)"
proof
  show "depend_test (\<lambda>_. 1) 3 ''afterok:1?afterok:2'' (demo_three 5 3 []) = Some (DEP_SUCCESS, 2)" by code_simp
  show "depend_test (\<lambda>_. 1) 3 ''afterok:2?afterok:1'' (demo_three 5 3 []) = Some (DEP_SUCCESS, 0)" by code_simp
qed

text \<open>A job does not wait for the stage-out of the job it depends on. Job 1 has completed and its burst buffer is still being written:
  the entry is kept, as the comment says, but the result is 0, no dependencies, and the job can start; it should be 1.\<close>

theorem stage_out_not_awaited:
  "table_step\<^sup>*\<^sup>* (empty_tables 5) (demo_three 3 0 [])
    \<and> depend_test (\<lambda>_. 0) 3 ''afterok:1'' (demo_three 3 0 []) = Some (DEP_SUCCESS, 0)
    \<and> depend_test (\<lambda>_. 1) 3 ''afterok:2'' (demo_three 3 0 []) = Some (DEP_SUCCESS, 1)"
proof (intro conjI)
  show "table_step\<^sup>*\<^sup>* (empty_tables 5) (demo_three 3 0 [])" by (rule demo_three_reach)
  show "depend_test (\<lambda>_. 0) 3 ''afterok:1'' (demo_three 3 0 []) = Some (DEP_SUCCESS, 0)" by code_simp
  show "depend_test (\<lambda>_. 1) 3 ''afterok:2'' (demo_three 3 0 []) = Some (DEP_SUCCESS, 1)" by code_simp
qed

text \<open>What the tests of a waiting job return before and after the deletion, and whether task 1 still runs.\<close>

definition demo_purge :: "(dep_rc \<times> int \<times> int \<times> bool) option" where
  "demo_purge = do {
     st \<leftarrow> demo_array;
     st \<leftarrow> demo_add 3 ((demo_job 13 0 NO_VAL 0)\<lparr>jr_details := Some (demo_details [])\<rparr>) st;
     (st, rc) \<leftarrow> update_job_dependency 10 1001 (\<lambda>j. j) False 3 (Some ''afterany:10_*'') st;
     (st, before) \<leftarrow> test_job_dependency 0 (\<lambda>_. 1) 3 st;
     st \<leftarrow> list_delete_job 2 st;
     (st, after) \<leftarrow> test_job_dependency 0 (\<lambda>_. 1) 3 st;
     task \<leftarrow> jt_heap st 1;
     Some (rc, before, after, is_job JOB_RUNNING task)
   }"

text \<open>Purging the record of one finished task of a job array can release the jobs that wait for the whole array while other tasks run.
  Task 1 of array 10 runs and task 2 has completed and stands before it in the chain; a job with \<open>afterany:10_*\<close> waits (1); when the record of task 2 is
  deleted, the same test gives 0, and the job can start with task 1 still running.\<close>

lemma purge_releases_dependent: "demo_purge = Some (DEP_SUCCESS, 1, 0, True)"
  by code_simp

subsection \<open>Chains of which one job is to run\<close>

definition same_user_name :: "job_record \<Rightarrow> string \<Rightarrow> job_record \<Rightarrow> bool" where
  "same_user_name job name q \<longleftrightarrow> jr_user_id q = jr_user_id job \<and> (jr_name q = None \<or> jr_name q = Some name)"

lemma user_jobs_loop_spec:
  "\<forall>a \<in> set as. \<exists>r. jt_heap st a = Some r \<and> jr_magic r \<Longrightarrow>
   user_jobs_loop st (jr_user_id job) name as = Some (filter (same_user_name job name) (map (\<lambda>a. the (jt_heap st a)) as))"
  by (induction as) (auto simp: same_user_name_def)

lemma jt_inv_recs: "jt_inv st \<Longrightarrow> a \<in> set (jt_job_list st) \<Longrightarrow> \<exists>r. jt_heap st a = Some r \<and> jr_magic r"
proof -
  assume inv: "jt_inv st" and a: "a \<in> set (jt_job_list st)"
  from inv obtain Xs Js Ts where i: "dom (cores (jt_heap st)) = set (jt_job_list st)" "\<forall>a c. cores (jt_heap st) a = Some c \<longrightarrow> fst c"
    by (rule jt_invE)
  obtain r where "jt_heap st a = Some r" using in_cores [of a "jt_heap st"] a i(1) by blast
  then show ?thesis using i(2) by (auto simp: cores_def job_core_def)
qed

lemma flag_lookup:
  assumes "jt_inv st" "\<forall>a r. jt_heap st a = Some r \<longrightarrow> jr_job_id r \<noteq> 0"
  shows "\<exists>q. find_job_array_rec st 0 0 = Some q"
proof -
  from assms(1) obtain Xs Js Ts where t: "tabs_ok st Xs Js Ts" by (rule jt_invE)
  let ?k = "unat (0 + 0 :: u32) mod length (jt_hash_t st)"
  have k: "?k < length (jt_hash_t st)" using tabs_okD(5, 6) [OF t] by simp
  have c: "chain jr_job_array_next_t (jt_heap st) (jt_hash_t st ! ?k) (Ts ! ?k)"
    using bucketsD(1) [OF by_task.tab_okD(1) [OF tabs_okD(3) [OF t]] k] .
  have "find (\<lambda>a. jr_job_id (the (jt_heap st a)) = 0) (jt_job_list st) = None"
    using assms(2) jt_inv_recs [OF assms(1)] by (fastforce simp: find_None_iff)
  then have "find_job_record st 0 = Some None" using jt_inv_find [OF assms(1), of 0] by simp
  then show ?thesis using chain_find_chain [OF c] k
    by (simp add: find_job_array_rec_def NO_VAL_def INFINITE_def JOB_ARRAY_HASH_INX_def c_rd_def rec_of_def)
qed

lemma blocks_plussingleton_states: "blocks_plussingleton q \<longleftrightarrow> jr_job_state q AND 0xff \<in> {1, 2, 3, 4}"
  by (auto simp: blocks_plussingleton_def is_job_def job_base_def)

text \<open>C29 (functional): For a job whose only dependency is \<open>plussingleton\<close>, in tables built by creating and deleting jobs, the result is 2 and the job is marked to
  be killed if some job of the same user, with the same name or with no name, runs (state 1), is suspended (2), has completed (3) or was cancelled (4), and else
  0. In particular a job of the chain that failed or timed out does not keep the next one from running, although the option stands for
  one job, the rest being cancelled.\<close>

theorem plussingleton_exact:
  assumes "0 < n" "table_step\<^sup>*\<^sup>* (empty_tables n) st" "\<forall>a r. jt_heap st a = Some r \<longrightarrow> jr_job_id r \<noteq> 0"
    "jt_heap st p = Some job" "jr_name job = Some name" "jr_details job = Some det" "jd_depend_list det = Some [flag_dep SLURM_DEPEND_PLUSSINGLETON]"
  defines "killed \<equiv> \<exists>a \<in> set (jt_job_list st). jr_user_id (the (jt_heap st a)) = jr_user_id job
      \<and> (jr_name (the (jt_heap st a)) = None \<or> jr_name (the (jt_heap st a)) = Some name)
      \<and> jr_job_state (the (jt_heap st a)) AND 0xff \<in> {1, 2, 3, 4}"
  shows "\<exists>st' job'. test_job_dependency now stage_out p st = Some (st', if killed then 2 else 0)
    \<and> jt_heap st' p = Some job' \<and> jr_bit_flags job' = (if killed then jr_bit_flags job OR 1 else jr_bit_flags job)"
proof -
  have inv: "jt_inv st" using assms(2) jt_inv_empty [OF assms(1)] by (induction rule: rtranclp_induct) (auto intro: jt_inv_step)
  obtain q where q: "find_job_array_rec st 0 0 = Some q" using flag_lookup [OF inv assms(3)] by blast
  have k: "killed \<longleftrightarrow> (\<exists>a \<in> set (jt_job_list st). same_user_name job name (the (jt_heap st a)) \<and> blocks_plussingleton (the (jt_heap st a)))"
    unfolding killed_def same_user_name_def blocks_plussingleton_states by blast
  have "build_user_job_list st (jr_user_id job) name = Some (filter (same_user_name job name) (map (\<lambda>a. the (jt_heap st a)) (jt_job_list st)))"
    unfolding build_user_job_list_def using jt_inv_recs [OF inv] by (intro user_jobs_loop_spec) blast
  then have "check_dep st now job (flag_dep SLURM_DEPEND_PLUSSINGLETON) =
      Some (q, if killed then V_Fail else V_None, if killed then job\<lparr>jr_bit_flags := jr_bit_flags job OR KILL_INV_DEP\<rparr> else job)"
    using q assms(5) by (auto simp: check_dep_def flag_dep_def depend_consts k list_ex_iff)
  then show ?thesis using assms(4, 6, 7) by (cases killed) (simp_all add: test_job_dependency_def KILL_INV_DEP_def)
qed

text \<open>The first job of the chain has failed, and the third may run.\<close>

theorem plussingleton_exact_witness:
  "\<exists>st' job'. test_job_dependency 0 (\<lambda>_. 1) 3 (demo_three 5 0 [flag_dep SLURM_DEPEND_PLUSSINGLETON]) = Some (st', 0)
    \<and> jt_heap st' 3 = Some job' \<and> jr_bit_flags job' = 0"
proof -
  let ?ds = "[flag_dep SLURM_DEPEND_PLUSSINGLETON]"
  let ?st = "demo_three 5 0 ?ds" and ?job = "(demo_job 3 0 NO_VAL 0)\<lparr>jr_name := Some ''w'', jr_details := Some (demo_details ?ds)\<rparr>"
  have h: "jt_heap ?st 3 = Some ?job" by (simp add: demo_three_def)
  have n: "\<not> (\<exists>a \<in> set (jt_job_list ?st). jr_user_id (the (jt_heap ?st a)) = jr_user_id ?job \<and>
      (jr_name (the (jt_heap ?st a)) = None \<or> jr_name (the (jt_heap ?st a)) = Some ''w'') \<and>
      jr_job_state (the (jt_heap ?st a)) AND 0xff \<in> {1, 2, 3, 4})"
    by (simp add: demo_three_def demo_job_def)
  have i: "\<forall>a r. jt_heap ?st a = Some r \<longrightarrow> jr_job_id r \<noteq> 0" by (auto simp: demo_three_def demo_job_def split: if_splits)
  have "jr_name ?job = Some ''w''" "jr_details ?job = Some (demo_details ?ds)" "jd_depend_list (demo_details ?ds) = Some ?ds"
    by (simp_all add: demo_details_def)
  note e = plussingleton_exact [OF _ demo_three_reach i h this, of 0 "\<lambda>_. 1", simplified if_not_P [OF n], OF zero_less_numeral]
  have b: "jr_bit_flags ?job = 0" by (simp add: demo_job_def)
  show ?thesis using e unfolding b .
qed

subsection \<open>The text of a list\<close>

definition is_flag_dep :: "depend_spec \<Rightarrow> bool" where
  "is_flag_dep d \<longleftrightarrow> ds_depend_type d = SLURM_DEPEND_SINGLETON \<or> ds_depend_type d = SLURM_DEPEND_PLUSSINGLETON"

definition dep_body :: "depend_spec \<Rightarrow> string" where
  "dep_body d = (if ds_depend_type d = SLURM_DEPEND_SINGLETON then ''singleton''
     else if ds_depend_type d = SLURM_DEPEND_PLUSSINGLETON then ''plussingleton'' else dep_text d)"

definition dep_sep :: "bool \<Rightarrow> depend_spec \<Rightarrow> string" where
  "dep_sep f d = (if \<not> is_flag_dep d \<and> (f \<or> ds_depend_flags d AND SLURM_FLAGS_OR \<noteq> 0) then ''?'' else '','')"

fun deps_text :: "bool \<Rightarrow> string \<Rightarrow> depend_spec list \<Rightarrow> string" where
  "deps_text f sep [] = ''''"
| "deps_text f sep (d # ds) = sep @ dep_body d @ deps_text f (dep_sep f d) ds"

definition dep_flagged :: "bool \<Rightarrow> depend_spec \<Rightarrow> depend_spec" where
  "dep_flagged f d = (if is_flag_dep d then d else d\<lparr>ds_depend_flags := (if f then ds_depend_flags d OR SLURM_FLAGS_OR else ds_depend_flags d)\<rparr>)"

lemma or_flag_set: "(w OR SLURM_FLAGS_OR) AND SLURM_FLAGS_OR \<noteq> 0"
proof -
  have "(w OR SLURM_FLAGS_OR) AND SLURM_FLAGS_OR = SLURM_FLAGS_OR" by (simp add: or.commute and.commute)
  then show ?thesis by (simp add: SLURM_FLAGS_OR_def)
qed

lemma list2str_loop_text: "list2str_loop f ds sep str = (map (dep_flagged f) ds, str @ deps_text f sep ds)"
proof (induction ds arbitrary: sep str)
  case (Cons d ds)
  have s: "dep_text (d\<lparr>ds_depend_flags := x\<rparr>) = dep_text d" for x by (simp add: dep_text_def)
  show ?case using Cons.IH or_flag_set [of "ds_depend_flags d"]
    by (auto simp: dep_body_def dep_sep_def dep_flagged_def is_flag_dep_def s Let_def)
qed simp

text \<open>An entry that refers to an existing job the way the parser makes it.\<close>

definition dep_settled :: "job_tables \<Rightarrow> job_record \<Rightarrow> bool \<Rightarrow> depend_spec \<Rightarrow> bool" where
  "dep_settled st job f d \<longleftrightarrow> d = flag_dep SLURM_DEPEND_SINGLETON \<or> d = flag_dep SLURM_DEPEND_PLUSSINGLETON
     \<or> ds_depend_type d \<in> {SLURM_DEPEND_AFTER, SLURM_DEPEND_AFTER_ANY, SLURM_DEPEND_AFTER_NOT_OK, SLURM_DEPEND_AFTER_OK, SLURM_DEPEND_AFTER_CORRESPOND}
       \<and> ds_depend_flags d = (if f then SLURM_FLAGS_OR else 0) \<and> ds_job_id d \<noteq> 0 \<and> ds_job_id d \<noteq> jr_job_id job
       \<and> (\<exists>r. resolve_id st (ds_job_id d) (ds_array_task_id d) = Some (Some r, ds_job_ptr d, ds_array_task_id d)
            \<and> ds_job_id d = (if ds_array_task_id d = NO_VAL then jr_job_id r else jr_array_job_id r))"

definition end_or_sep :: "string \<Rightarrow> bool" where
  "end_or_sep s \<longleftrightarrow> s = [] \<or> hd s = CHR '','' \<or> hd s = CHR ''?''"

lemma end_or_sep_digit: "end_or_sep s \<Longrightarrow> s = [] \<or> \<not> is_digit (hd s)"
  by (auto simp: end_or_sep_def is_digit_def)

lemma strtol_id: "rest = [] \<or> \<not> is_digit (hd rest) \<Longrightarrow> strtol (show_id w @ rest) = (int (unat w), rest)"
proof -
  assume r: "rest = [] \<or> \<not> is_digit (hd rest)"
  have "uint w < 2 ^ 32" using unsigned_less [of w] by simp
  then show ?thesis unfolding show_id_def by (intro strtol_show r) simp
qed

definition task_text :: "u32 \<Rightarrow> string" where
  "task_text t = (if t = INFINITE then ''_*'' else if t = NO_VAL then '''' else ''_'' @ show_id t)"

lemma digit_not_special: "is_digit c \<Longrightarrow> c \<noteq> CHR ''*'' \<and> c \<noteq> CHR ''_'' \<and> c \<noteq> CHR '':'' \<and> c \<noteq> CHR ''[''"
  by (auto simp: is_digit_def)

lemma show_id_Cons: "\<exists>c cs. show_id w = c # cs \<and> is_digit c"
proof -
  obtain c cs where "show_nat (unat w) = c # cs" using show_nat_ne [of "unat w"] by (cases "show_nat (unat w)") auto
  then show ?thesis using show_nat_chars [of c "unat w"] by (simp add: show_id_def)
qed

lemma parse_id_text:
  assumes "end_or_sep rest"
  shows "parse_id (show_id w @ task_text t @ rest) = (w, t, rest)"
proof -
  have us: "\<not> is_digit CHR ''_''" by (simp add: is_digit_def)
  have one: "strtol (show_id w @ task_text t @ rest) = (int (unat w), task_text t @ rest)"
    by (rule strtol_id) (use end_or_sep_digit [OF assms] us in \<open>auto simp: task_text_def\<close>)
  consider "t = INFINITE" | "t = NO_VAL" "t \<noteq> INFINITE" | "t \<noteq> INFINITE" "t \<noteq> NO_VAL" by blast
  then show ?thesis
  proof cases
    case 1
    then show ?thesis using one by (simp add: parse_id_def task_text_def)
  next
    case 2
    have "take 1 rest \<noteq> ''_''" using assms by (cases rest) (auto simp: end_or_sep_def)
    then show ?thesis using one 2 by (simp add: parse_id_def task_text_def)
  next
    case 3
    obtain c cs where c: "show_id t = c # cs" "is_digit c" using show_id_Cons by blast
    have "strtol (show_id t @ rest) = (int (unat t), rest)" by (rule strtol_id [OF end_or_sep_digit [OF assms]])
    then show ?thesis using one 3 c digit_not_special [OF c(2)] by (simp add: parse_id_def task_text_def)
  qed
qed

lemma dep_text_task: "dep_text d = dep_type_name (ds_depend_type d) @ '':'' @ show_id (ds_job_id d) @ task_text (ds_array_task_id d)"
  by (simp add: dep_text_def task_text_def)

text \<open>One entry is read by one turn.\<close>

definition dep_clear :: "depend_spec \<Rightarrow> depend_spec" where
  "dep_clear d = d\<lparr>ds_depend_flags := 0\<rparr>"

lemma type_text:
  assumes "ty \<in> {SLURM_DEPEND_AFTER, SLURM_DEPEND_AFTER_ANY, SLURM_DEPEND_AFTER_NOT_OK, SLURM_DEPEND_AFTER_OK, SLURM_DEPEND_AFTER_CORRESPOND}"
  shows "\<not> starts_with (dep_type_name ty @ CHR '':'' # s) ''singleton''" "\<not> starts_with (dep_type_name ty @ CHR '':'' # s) ''plussingleton''"
    "depend_word ea (dep_type_name ty @ CHR '':'' # s) = Some ty" "CHR '':'' \<notin> set (dep_type_name ty)" "CHR ''['' \<notin> set (dep_type_name ty)"
    "dep_type_name ty \<noteq> []" "hd (dep_type_name ty) = CHR ''a''"
  using assms by (auto simp: dep_type_name_def depend_consts starts_with_def depend_word_def to_lower_def)

lemma tok_step_regular:
  assumes d: "dep_settled st job f d" "\<not> is_flag_dep d" and j: "jr_job_id (ps_job ps) = jr_job_id job" and r: "end_or_sep rest"
  shows "tok_step st gs ea (dep_body d @ rest) ps orf = Some (DEP_SUCCESS, ps\<lparr>ps_deps := ps_deps ps @ [dep_clear d]\<rparr>,
    orf \<or> take 1 rest = ''?'', if rest = [] then None else Some (tl rest))"
proof -
  have t: "ds_depend_type d \<in> {SLURM_DEPEND_AFTER, SLURM_DEPEND_AFTER_ANY, SLURM_DEPEND_AFTER_NOT_OK, SLURM_DEPEND_AFTER_OK, SLURM_DEPEND_AFTER_CORRESPOND}"
    and id: "ds_job_id d \<noteq> 0" "ds_job_id d \<noteq> jr_job_id job"
    using d by (auto simp: dep_settled_def is_flag_dep_def flag_dep_def)
  obtain q where q: "resolve_id st (ds_job_id d) (ds_array_task_id d) = Some (Some q, ds_job_ptr d, ds_array_task_id d)"
      "ds_job_id d = (if ds_array_task_id d = NO_VAL then jr_job_id q else jr_array_job_id q)"
    using d by (auto simp: dep_settled_def is_flag_dep_def flag_dep_def)
  let ?n = "dep_type_name (ds_depend_type d)" and ?s = "show_id (ds_job_id d) @ task_text (ds_array_task_id d) @ rest"
  have b: "dep_body d @ rest = ?n @ CHR '':'' # ?s" using d(2) by (simp add: dep_body_def is_flag_dep_def dep_text_task)
  have dw: "tl (dropWhile (\<lambda>c. c \<noteq> CHR '':'') (?n @ CHR '':'' # ?s)) = ?s"
    using type_text(4) [OF t] by (subst dropWhile_append2) auto
  have ex: "ds_depend_type d \<noteq> SLURM_DEPEND_EXPAND" using t by (auto simp: depend_consts)
  have sp: "take 1 rest \<in> {'''', '','', ''?'', '':''}" "take 1 rest \<noteq> '':''" using r by (cases rest; auto simp: end_or_sep_def)+
  have nd: "new_dep (ds_depend_type d) (ds_array_task_id d) (ds_job_ptr d) q = dep_clear d"
    using q(2) by (simp add: new_dep_def dep_clear_def)
  have "id_step st gs (ds_depend_type d) ?s ps = Some (DEP_SUCCESS, ps\<lparr>ps_deps := ps_deps ps @ [dep_clear d]\<rparr>, rest)"
    using parse_id_text [OF r] id j q(1) ex sp(1) nd by (simp add: id_step_def add_dep_def)
  then have "ids_loop st gs (ds_depend_type d) ?s ps = Some (DEP_SUCCESS, ps\<lparr>ps_deps := ps_deps ps @ [dep_clear d]\<rparr>, rest)"
    using sp(2) by (subst ids_loop.simps) simp
  then have "new_step st gs ea (?n @ CHR '':'' # ?s) ps orf = Some (DEP_SUCCESS, ps\<lparr>ps_deps := ps_deps ps @ [dep_clear d]\<rparr>,
      orf \<or> take 1 rest = ''?'', if rest = [] then None else Some (tl rest))"
    using type_text(3) [OF t] dw r by (cases rest) (auto simp: new_step_def end_or_sep_def)
  then show ?thesis unfolding b using type_text(1, 2) [OF t] by (simp add: tok_step_def)
qed

lemma flag_words:
  "starts_with (''singleton'' @ s) ''singleton''" "starts_with (''plussingleton'' @ s) ''plussingleton''"
  "\<not> starts_with (''plussingleton'' @ s) ''singleton''"
  by (simp_all add: starts_with_def to_lower_def)

lemma tok_step_flag:
  assumes "d = flag_dep SLURM_DEPEND_SINGLETON \<or> d = flag_dep SLURM_DEPEND_PLUSSINGLETON" "rest = [] \<or> take 1 rest = '',''"
  shows "tok_step st gs ea (dep_body d @ rest) ps orf = Some (DEP_SUCCESS, ps\<lparr>ps_deps := ps_deps ps @ [dep_clear d]\<rparr>,
    orf, if rest = [] then None else Some (tl rest))"
proof -
  have c: "dep_clear d = d" using assms(1) by (auto simp: dep_clear_def flag_dep_def)
  have fs: "flag_step ty (length w) (w @ rest) ps orf = (DEP_SUCCESS, ps\<lparr>ps_deps := ps_deps ps @ [flag_dep ty]\<rparr>, orf, if rest = [] then None else Some (tl rest))"
    for ty and w :: string
    using assms(2) by (cases rest) (auto simp: flag_step_def)
  from assms(1) show ?thesis
  proof
    assume d: "d = flag_dep SLURM_DEPEND_SINGLETON"
    then have b: "dep_body d = ''singleton''" by (simp add: dep_body_def flag_dep_def)
    have "tok_step st gs ea (''singleton'' @ rest) ps orf = Some (flag_step SLURM_DEPEND_SINGLETON (length ''singleton'') (''singleton'' @ rest) ps orf)"
      unfolding tok_step_def if_P [OF flag_words(1)] by (simp add: eval_nat_numeral)
    then show ?thesis unfolding fs c b d [symmetric] .
  next
    assume d: "d = flag_dep SLURM_DEPEND_PLUSSINGLETON"
    then have b: "dep_body d = ''plussingleton''" by (simp add: dep_body_def flag_dep_def depend_consts)
    have "tok_step st gs ea (''plussingleton'' @ rest) ps orf = Some (flag_step SLURM_DEPEND_PLUSSINGLETON (length ''plussingleton'') (''plussingleton'' @ rest) ps orf)"
      unfolding tok_step_def if_P [OF flag_words(2)] if_not_P [OF flag_words(3)] by (simp add: eval_nat_numeral)
    then show ?thesis unfolding fs c b d [symmetric] .
  qed
qed

lemma settled_flag: "dep_settled st job f d \<Longrightarrow> is_flag_dep d \<Longrightarrow> d = flag_dep SLURM_DEPEND_SINGLETON \<or> d = flag_dep SLURM_DEPEND_PLUSSINGLETON"
  by (auto simp: dep_settled_def is_flag_dep_def depend_consts)

lemma dep_sep_cases: "dep_sep f d = '','' \<or> dep_sep f d = ''?''" "is_flag_dep d \<Longrightarrow> dep_sep f d = '',''"
  by (auto simp: dep_sep_def)

lemma tok_step_dep:
  assumes "dep_settled st job f d" "jr_job_id (ps_job ps) = jr_job_id job" "rest = [] \<or> take 1 rest = dep_sep False d"
  shows "tok_step st gs ea (dep_body d @ rest) ps orf = Some (DEP_SUCCESS, ps\<lparr>ps_deps := ps_deps ps @ [dep_clear d]\<rparr>,
    orf \<or> rest \<noteq> [] \<and> dep_sep False d = ''?'', if rest = [] then None else Some (tl rest))"
proof (cases "is_flag_dep d")
  case True
  then show ?thesis using tok_step_flag [OF settled_flag [OF assms(1) True]] assms(3) dep_sep_cases(2) [OF True] by auto
next
  case False
  have "end_or_sep rest" using assms(3) dep_sep_cases(1) [of False d] by (cases rest) (auto simp: end_or_sep_def)
  from tok_step_regular [OF assms(1) False assms(2) this, of gs ea orf]
  show ?thesis using assms(3) by (cases "rest = []") auto
qed

lemma tok_loop_text:
  assumes "ds \<noteq> []" "\<forall>d \<in> set ds. dep_settled st job f d" "jr_job_id (ps_job ps) = jr_job_id job"
  shows "tok_loop st gs ea (deps_text False '''' ds) ps orf = Some (DEP_SUCCESS, ps\<lparr>ps_deps := ps_deps ps @ map dep_clear ds\<rparr>,
    orf \<or> (\<exists>d \<in> set (butlast ds). dep_sep False d = ''?''))"
  using assms
proof (induction ds arbitrary: ps orf)
  case (Cons d ds)
  define rest where "rest = deps_text False (dep_sep False d) ds"
  have r: "rest = [] \<longleftrightarrow> ds = []" "rest = [] \<or> take 1 rest = dep_sep False d" "ds \<noteq> [] \<Longrightarrow> tl rest = deps_text False '''' ds"
    using dep_sep_cases(1) [of False d] by (cases ds; auto simp: rest_def)+
  have t: "tok_step st gs ea (dep_body d @ rest) ps orf = Some (DEP_SUCCESS, ps\<lparr>ps_deps := ps_deps ps @ [dep_clear d]\<rparr>,
      orf \<or> ds \<noteq> [] \<and> dep_sep False d = ''?'', if ds = [] then None else Some (deps_text False '''' ds))"
    using tok_step_dep [OF _ Cons.prems(3) r(2), of st f gs ea orf] Cons.prems(2) r(1, 3) by auto
  show ?case
  proof (cases "ds = []")
    case True
    then show ?thesis using t by (subst tok_loop.simps) (simp add: rest_def)
  next
    case False
    have "tok_loop st gs ea (deps_text False '''' (d # ds)) ps orf
        = tok_loop st gs ea (deps_text False '''' ds) (ps\<lparr>ps_deps := ps_deps ps @ [dep_clear d]\<rparr>) (orf \<or> dep_sep False d = ''?'')"
      using t False by (subst tok_loop.simps) (simp add: rest_def)
    then show ?thesis using Cons.IH [OF False] Cons.prems(2, 3) False by simp
  qed
qed simp

lemma dep_body_chars:
  assumes "dep_settled st job f d"
  shows "CHR ''['' \<notin> set (dep_body d)" "dep_body d \<noteq> []" "hd (dep_body d) \<noteq> CHR ''0''"
proof -
  have i: "CHR ''['' \<notin> set (show_id w)" for w using show_nat_chars digit_not_special unfolding show_id_def by blast
  have "CHR ''['' \<notin> set (dep_body d) \<and> dep_body d \<noteq> [] \<and> hd (dep_body d) \<noteq> CHR ''0''"
  proof (cases "is_flag_dep d")
    case True
    then show ?thesis using settled_flag [OF assms True] by (auto simp: dep_body_def flag_dep_def depend_consts)
  next
    case False
    then have t: "ds_depend_type d \<in> {SLURM_DEPEND_AFTER, SLURM_DEPEND_AFTER_ANY, SLURM_DEPEND_AFTER_NOT_OK, SLURM_DEPEND_AFTER_OK, SLURM_DEPEND_AFTER_CORRESPOND}"
      using assms by (auto simp: dep_settled_def is_flag_dep_def flag_dep_def)
    have b: "dep_body d = dep_text d" using False by (simp add: dep_body_def is_flag_dep_def)
    show ?thesis unfolding b dep_text_task using type_text(5-7) [OF t] i by (auto simp: task_text_def)
  qed
  then show "CHR ''['' \<notin> set (dep_body d)" "dep_body d \<noteq> []" "hd (dep_body d) \<noteq> CHR ''0''" by blast+
qed

lemma deps_text_no_array:
  assumes "\<forall>d \<in> set ds. dep_settled st job f d" "CHR ''['' \<notin> set sep"
  shows "CHR ''['' \<notin> set (deps_text False sep ds)"
  using assms by (induction ds arbitrary: sep) (auto simp: dep_body_chars(1) dep_sep_def)

lemma no_array_expr: "CHR ''['' \<notin> set s \<Longrightarrow> \<not> has_array_expr s"
proof
  assume s: "CHR ''['' \<notin> set s" "has_array_expr s"
  then obtain i where "take 2 (drop i s) = ''_[''" by (auto simp: has_array_expr_def list_ex_iff)
  then have "CHR ''['' \<in> set (take 2 (drop i s))" by simp
  then show False using s(1) by (meson in_set_dropD in_set_takeD)
qed

lemma dep_flagged_clear:
  assumes "dep_settled st job f d"
  shows "dep_flagged f (dep_clear d) = d" "dep_sep False d = ''?'' \<longleftrightarrow> f \<and> \<not> is_flag_dep d"
proof -
  have "dep_flagged f (dep_clear d) = d \<and> (dep_sep False d = ''?'' \<longleftrightarrow> f \<and> \<not> is_flag_dep d)"
  proof (cases "is_flag_dep d")
    case True
    then show ?thesis using settled_flag [OF assms True] by (auto simp: dep_flagged_def dep_clear_def dep_sep_def is_flag_dep_def flag_dep_def)
  next
    case False
    then have "ds_depend_flags d = (if f then SLURM_FLAGS_OR else 0)" using assms by (auto simp: dep_settled_def is_flag_dep_def flag_dep_def)
    then show ?thesis using False by (cases f) (auto simp: dep_flagged_def dep_clear_def dep_sep_def is_flag_dep_def SLURM_FLAGS_OR_def)
  qed
  then show "dep_flagged f (dep_clear d) = d" "dep_sep False d = ''?'' \<longleftrightarrow> f \<and> \<not> is_flag_dep d" by blast+
qed

lemma list2str_settled:
  assumes "\<forall>d \<in> set ds. dep_settled st job f d"
  shows "list2str_loop f (map dep_clear ds) '''' '''' = (ds, snd (list2str_loop False ds '''' ''''))"
proof -
  have "dep_body (dep_clear d) = dep_body d" for d by (simp add: dep_body_def dep_clear_def dep_text_def)
  moreover have "dep_sep f (dep_clear d) = dep_sep False d" if "d \<in> set ds" for d
    using dep_flagged_clear(2) [of st job f d] assms that
    by (cases "is_flag_dep d"; cases f) (auto simp: dep_sep_def is_flag_dep_def dep_clear_def split: if_splits)
  ultimately have "deps_text f sep (map dep_clear ds) = deps_text False sep ds" for sep
    using assms by (induction ds arbitrary: sep) auto
  then show ?thesis unfolding list2str_loop_text using assms by (auto simp: dep_flagged_clear(1) intro!: map_idI)
qed

text \<open>C21 (roundtrip): The text that a job's dependencies are printed as is read back as the same dependencies. Let a job's list hold
  \<open>singleton\<close>, \<open>plussingleton\<close> and entries that wait for jobs, tasks or whole arrays of the tables, either all joined by commas or
  all the entries for jobs marked as alternatives, at least one of them not the last entry. If its dependency text is the printed list and the search
  for circles finds none, then updating the job with that text succeeds and changes nothing.\<close>

theorem dependency_text_roundtrip:
  assumes "jt_heap st p = Some job" "jr_details job = Some det" "jd_expanding_jobid det = 0"
    "jd_depend_list det = Some ds" "ds \<noteq> []" "depend_list2str False det = det" "jd_dependency det = Some s"
    "\<forall>d \<in> set ds. dep_settled st job f d" "f \<longrightarrow> (\<exists>d \<in> set (butlast ds). \<not> is_flag_dep d)"
    "scan_depend (jt_heap st) max_depth (Some (map dep_clear ds)) (jr_job_id job) 0 = Some (False, c)"
  shows "update_job_dependency max_depth max_array_size gres_sync expand_allow p (Some s) st = Some (st, DEP_SUCCESS)"
proof -
  have l: "list2str_loop False ds '''' '''' = (ds, s)"
  proof -
    obtain ds' s' where e: "list2str_loop False ds '''' '''' = (ds', s')" by fastforce
    have d: "det\<lparr>jd_depend_list := Some ds', jd_dependency := Some s'\<rparr> = det" using assms(4-6) e by (simp add: depend_list2str_def)
    show ?thesis using arg_cong [OF d, of jd_depend_list] arg_cong [OF d, of jd_dependency] assms(4, 7) e by simp
  qed
  have s: "s = deps_text False '''' ds" using l by (simp add: list2str_loop_text)
  have x: "xlate_array_dep max_array_size s = Some None"
    using no_array_expr [OF deps_text_no_array [OF assms(8)]] by (simp add: xlate_array_dep_def s)
  have c: "\<not> clear_depends (Some s)"
    using dep_body_chars(2, 3) assms(5, 8) by (cases ds) (force simp: clear_depends_def s neq_Nil_conv)+
  have o: "(\<exists>d \<in> set (butlast ds). dep_sep False d = ''?'') = f"
    using dep_flagged_clear(2) [of st job f] assms(8, 9) by (blast dest: in_set_butlastD)
  have d: "det\<lparr>jd_expanding_jobid := 0\<rparr> = det" using assms(3) by simp
  have j: "job\<lparr>jr_details := Some det\<rparr> = job" using assms(2) by simp
  have u: "(jt_heap st)(p \<mapsto> job) = jt_heap st" using assms(1) by (rule fun_upd_idem)
  have t: "tok_loop st gres_sync expand_allow s \<lparr>ps_job = job, ps_deps = [], ps_expand_cnt = 0\<rparr> False
      = Some (DEP_SUCCESS, \<lparr>ps_job = job, ps_deps = map dep_clear ds, ps_expand_cnt = 0\<rparr>, f)"
    using tok_loop_text [OF assms(5, 8), of "\<lparr>ps_job = job, ps_deps = [], ps_expand_cnt = 0\<rparr>" gres_sync expand_allow False] o s by simp
  have b: "depend_list2str f (det\<lparr>jd_depend_list := Some (map dep_clear ds)\<rparr>) = det"
    using list2str_settled [OF assms(8)] l assms(4, 5, 7) by (simp add: depend_list2str_def)
  show ?thesis using assms(1, 2, 10) c
    by (simp add: update_job_dependency_def d j u x t b)
qed

text \<open>Job 3 waits for one of jobs 1 and 2, and for the other jobs of its name.\<close>

definition demo_alternatives :: "depend_spec list" where
  "demo_alternatives = [(demo_dep 4 1 1)\<lparr>ds_depend_flags := 1\<rparr>, (demo_dep 1 2 2)\<lparr>ds_depend_flags := 1\<rparr>, flag_dep 5]"

definition demo_text :: job_tables where
  "demo_text = (let st = demo_three 0 0 [] in st\<lparr>jt_heap := (jt_heap st)(3 \<mapsto> (demo_job 3 0 NO_VAL 0)\<lparr>jr_details :=
     Some ((demo_details demo_alternatives)\<lparr>jd_dependency := Some ''afterok:1?after:2?singleton''\<rparr>)\<rparr>)\<rparr>)"

theorem dependency_text_roundtrip_witness:
  "update_job_dependency 10 1001 (\<lambda>j. j) False 3 (Some ''afterok:1?after:2?singleton'') demo_text = Some (demo_text, DEP_SUCCESS)"
proof -
  let ?det = "(demo_details demo_alternatives)\<lparr>jd_dependency := Some ''afterok:1?after:2?singleton''\<rparr>"
  let ?job = "(demo_job 3 0 NO_VAL 0)\<lparr>jr_details := Some ?det\<rparr>"
  have h: "jt_heap demo_text 3 = Some ?job" by (simp add: demo_text_def Let_def)
  have l: "list2str_loop False demo_alternatives '''' '''' = (demo_alternatives, ''afterok:1?after:2?singleton'')" by code_simp
  have d: "jr_details ?job = Some ?det" "jd_expanding_jobid ?det = 0" "jd_depend_list ?det = Some demo_alternatives" "demo_alternatives \<noteq> []"
      "depend_list2str False ?det = ?det" "jd_dependency ?det = Some ''afterok:1?after:2?singleton''"
    using l by (simp_all add: demo_details_def demo_alternatives_def depend_list2str_def)
  have f: "find_job_record demo_text 1 = Some (Some 1)" "find_job_record demo_text 2 = Some (Some 2)"  by code_simp+
  have r: "\<forall>x \<in> set demo_alternatives. dep_settled demo_text ?job True x"
    using f by (simp add: demo_alternatives_def dep_settled_def demo_dep_def flag_dep_def resolve_id_def rec_of_def demo_text_def Let_def demo_three_def
        demo_job_def depend_consts SLURM_FLAGS_OR_def)
  have b: "True \<longrightarrow> (\<exists>x \<in> set (butlast demo_alternatives). \<not> is_flag_dep x)"
    by (simp add: demo_alternatives_def demo_dep_def is_flag_dep_def depend_consts)
  have s: "scan_depend (jt_heap demo_text) 10 (Some (map dep_clear demo_alternatives)) (jr_job_id ?job) 0 = Some (False, 1)" by code_simp
  show ?thesis by (rule dependency_text_roundtrip [OF h d r b s])
qed

end
