(* ===== verification/Sim_Trace.thy ===== *)
theory Sim_Trace
  imports Bitstring_Fmt
begin

section \<open>Workload traces and simulated users (\<open>contribs/simulator\<close>, \<open>common/sim_funcs.c\<close>)\<close>

text \<open>
  What the simulation manager reads: the records of the workload trace as \<open>fscanf\<close> leaves them and what \<open>sim_trace.c\<close> makes of them, the
  pairs of trace ids and real job ids, the rewriting of dependencies, and the file \<open>users.sim\<close> with the users
  of the simulated system.
\<close>

subsection \<open>Records of the trace\<close>

text \<open>The fields that the manager uses; the others of \<open>job_trace_t\<close> are only read.\<close>

record job_trace =
  tr_job_id :: int
  tr_username :: string
  tr_submit :: int
  tr_duration :: int
  tr_wclimit :: int
  tr_tasks :: int
  tr_qosname :: string
  tr_partition :: string
  tr_account :: string
  tr_cpus_per_task :: int
  tr_tasks_per_node :: int
  tr_reservation :: string
  tr_dependency :: string
  tr_module_list :: string
  tr_modular_job_id :: int
  tr_total_components :: int
  tr_submit_modular_job_time :: int
  tr_modular_requested_time :: int
  tr_wait_component_job_time :: int
  tr_component_run_time :: int
  tr_rreq_partition_name :: string
  tr_rreq_nodes :: int
  tr_rreq_processes_per_node :: int
  tr_rreq_threads_per_process :: int
  tr_rreq_constraint :: string
  tr_rreq_hint :: string
  tr_after_complition_job_id :: string
  tr_dependency_type :: string

text \<open>\<open>ceil((float)d/60)\<close>, with the exact quotient.\<close>

definition ceil_minutes :: "int \<Rightarrow> int" where
  "ceil_minutes d = - (- d div 60)"

text \<open>A record of a binary trace, and the three text formats, after the fields have been read. A field that the format does not have keeps the
  contents of the uninitialised record.\<close>

definition read_job_trace_record :: "job_trace \<Rightarrow> job_trace" where
  "read_job_trace_record r = r\<lparr>tr_module_list := ''''\<rparr>"

definition fix_simple :: "job_trace \<Rightarrow> job_trace" where
  "fix_simple r = r\<lparr>tr_qosname := '''', tr_reservation := '''', tr_dependency := ''''\<rparr>"

definition fix_standard :: "job_trace \<Rightarrow> job_trace" where
  "fix_standard r = (let
     r = (if tr_wclimit r = - 1 then r\<lparr>tr_wclimit := max 1 (ceil_minutes (tr_duration r) * 2)\<rparr> else r);
     r = (if tr_tasks r = 0 then r\<lparr>tr_tasks := 1\<rparr> else r);
     r = (if tr_tasks r > 1 \<and> tr_tasks r mod 2 = 1 then r\<lparr>tr_tasks := tr_tasks r - 1\<rparr> else r);
     r = r\<lparr>tr_cpus_per_task := 1, tr_tasks_per_node := 1, tr_account := '''', tr_qosname := '''', tr_reservation := ''''\<rparr>;
     r = (if tr_dependency r = ''-1'' then r\<lparr>tr_dependency := ''''\<rparr> else r)
   in if tr_module_list r = ''-1'' then r\<lparr>tr_module_list := ''''\<rparr> else r)"

definition fix_modular :: "job_trace \<Rightarrow> job_trace" where
  "fix_modular r = r\<lparr>tr_job_id := tr_modular_job_id r, tr_submit := tr_submit_modular_job_time r, tr_duration := tr_component_run_time r,
     tr_wclimit := tr_modular_requested_time r, tr_tasks := tr_rreq_nodes r * tr_rreq_processes_per_node r,
     tr_cpus_per_task := tr_rreq_threads_per_process r, tr_tasks_per_node := tr_rreq_processes_per_node r,
     tr_partition := tr_rreq_partition_name r, tr_username := ''tester'', tr_account := ''1000'',
     tr_qosname := '''', tr_reservation := '''', tr_dependency := ''''\<rparr>"

definition read_job_trace_record_ascii :: "int \<Rightarrow> job_trace \<Rightarrow> job_trace" where
  "read_job_trace_record_ascii trace_format r =
     (if trace_format = 1 then fix_simple r else if trace_format = 2 then fix_standard r
      else if trace_format = 3 then fix_modular r else r)"

subsection \<open>Trace ids and real ids\<close>

type_synonym id_pairs = "(u32 \<times> u32) list"

definition SIM_NO_VAL :: u32 where
  "SIM_NO_VAL = 0xfffffffe"

definition add_job_pair :: "u32 \<Rightarrow> u32 \<Rightarrow> id_pairs \<Rightarrow> id_pairs" where
  "add_job_pair trace_job_id real_job_id job_id_list = (trace_job_id, real_job_id) # job_id_list"

fun get_real_job_id :: "u32 \<Rightarrow> id_pairs \<Rightarrow> u32" where
  "get_real_job_id trace_job_id [] = SIM_NO_VAL"
| "get_real_job_id trace_job_id ((t, r) # ps) =
     (if t = trace_job_id then r else if t < trace_job_id then SIM_NO_VAL else get_real_job_id trace_job_id ps)"

subsection \<open>Dependencies\<close>

text \<open>\<open>strtok_r\<close>: the token in front of a separator and the rest behind it, or no token.\<close>

definition strtok :: "char \<Rightarrow> string \<Rightarrow> (string \<times> string) option" where
  "strtok d s = (let s = dropWhile (\<lambda>c. c = d) s in
     if s = [] then None else Some (takeWhile (\<lambda>c. c \<noteq> d) s, tl (dropWhile (\<lambda>c. c \<noteq> d) s)))"

lemma strtok_length: "strtok d s = Some (t, r) \<Longrightarrow> length r < length s"
proof -
  assume a: "strtok d s = Some (t, r)"
  define u where "u = dropWhile (\<lambda>c. c = d) s"
  have u: "u \<noteq> []" "r = tl (dropWhile (\<lambda>c. c \<noteq> d) u)" using a by (auto simp: strtok_def u_def Let_def split: if_splits)
  have "length (dropWhile (\<lambda>c. c \<noteq> d) u) \<le> length u" "length u \<le> length s"
    unfolding u_def by (rule length_dropWhile_le)+
  then show ?thesis using u by (cases "dropWhile (\<lambda>c. c \<noteq> d) u") auto
qed

function tokens :: "char \<Rightarrow> string \<Rightarrow> string list" where
  "tokens d s = (case strtok d s of None \<Rightarrow> [] | Some (t, r) \<Rightarrow> t # tokens d r)"
  by pat_completeness auto
termination
  by (relation "measure (\<lambda>(d, s). length s)") (auto dest: strtok_length)

declare tokens.simps [simp del]

definition atoi :: "string \<Rightarrow> u32" where
  "atoi s = of_int (fst (strtol s))"

text \<open>The real ids of the trace ids, as texts; there is room for ten.\<close>

fun dep_ids :: "id_pairs \<Rightarrow> string list \<Rightarrow> nat \<Rightarrow> string list option" where
  "dep_ids ps [] n = Some []"
| "dep_ids ps (t # ts) n =
     (if n \<ge> 10 then None else do { ids \<leftarrow> dep_ids ps ts (n + 1); Some (show_int (sint (get_real_job_id (atoi t) ps)) # ids) })"

text \<open>The loop over the types. Each pass appends to the buffer \<open>new_dep_copy\<close> with a \<open>sprintf\<close> that has the same buffer as an argument, which
  is undefined; so the loop is defined only if there is no type.\<close>

fun dep_join :: "string list \<Rightarrow> string list \<Rightarrow> string option" where
  "dep_join [] ids = Some ''''"
| "dep_join (t # ts) ids = None"

definition first_token_text :: "string \<Rightarrow> string" where
  "first_token_text s = takeWhile (\<lambda>c. c = CHR '','') s @ takeWhile (\<lambda>c. c \<noteq> CHR '','') (dropWhile (\<lambda>c. c = CHR '','') s)"

text \<open>The loop for the other formats, over entries \<open>type:id\<close>.\<close>

function rewrite_loop :: "id_pairs \<Rightarrow> string \<Rightarrow> bool \<Rightarrow> string \<Rightarrow> string option" where
  "rewrite_loop ps s first acc = (case strtok CHR '':'' s of
     None \<Rightarrow> Some acc
   | Some (ty, r) \<Rightarrow> (case strtok CHR '','' r of
       None \<Rightarrow> None
     | Some (t, r) \<Rightarrow>
         let real_job_id = get_real_job_id (atoi t) ps;
             real_job_id = (if real_job_id = SIM_NO_VAL then atoi t else real_job_id)
         in rewrite_loop ps r False (acc @ (if first then '''' else '','') @ ty @ '':'' @ show_int (sint real_job_id))))"
  by pat_completeness auto
termination
  by (relation "measure (\<lambda>(ps, s, f, acc). length s)") (auto dest!: strtok_length)

declare rewrite_loop.simps [simp del]

definition re_write_dependencies :: "int \<Rightarrow> id_pairs \<Rightarrow> job_trace \<Rightarrow> string option" where
  "re_write_dependencies trace_format ps jobd =
     (if trace_format > 2 then
        if first_token_text (tr_after_complition_job_id jobd) = ''-1'' then Some ''''
        else do {
          ids \<leftarrow> dep_ids ps (tokens CHR '','' (tr_after_complition_job_id jobd)) 0;
          dep_join (tokens CHR '','' (tr_dependency_type jobd)) ids
        }
      else if tr_dependency jobd \<noteq> ''singleton'' \<or> tr_dependency jobd \<noteq> ''plussingleton'' then Some (tr_dependency jobd)
      else rewrite_loop ps (tr_dependency jobd) True '''')"

subsection \<open>Users\<close>

record sim_user_info =
  su_name :: string
  su_uid :: u32
  su_gid :: u32

text \<open>One field up to its delimiter or the end of the file, read into a buffer of the given size, which also takes the final null.\<close>

definition read_field :: "char \<Rightarrow> nat \<Rightarrow> string \<Rightarrow> (string \<times> string) option" where
  "read_field d n s = (let f = takeWhile (\<lambda>c. c \<noteq> d) s in if length f < n then Some (f, tl (dropWhile (\<lambda>c. c \<noteq> d) s)) else None)"

lemma read_field_length: "read_field d n s = Some (f, r) \<Longrightarrow> length r \<le> length s \<and> (f \<noteq> [] \<longrightarrow> length r < length s)"
proof -
  assume "read_field d n s = Some (f, r)"
  then have e: "f = takeWhile (\<lambda>c. c \<noteq> d) s" "r = tl (dropWhile (\<lambda>c. c \<noteq> d) s)" by (auto simp: read_field_def Let_def split: if_splits)
  have l: "length f + length (dropWhile (\<lambda>c. c \<noteq> d) s) = length s"
    unfolding e(1) by (metis length_append takeWhile_dropWhile_id)
  have "length r \<le> length (dropWhile (\<lambda>c. c \<noteq> d) s)" using e(2) by simp
  then show ?thesis using l by (metis add_gr_0 le_add2 le_less_trans length_greater_0_conv less_add_same_cancel2 order_trans)
qed

text \<open>A new user is put in front of the list.\<close>

function getting_simulation_users :: "string \<Rightarrow> sim_user_info list \<Rightarrow> sim_user_info list option" where
  "getting_simulation_users s us = (case read_field CHR '':'' 100 s of
     None \<Rightarrow> None
   | Some (username, r) \<Rightarrow>
       if username = [] then Some us
       else (case read_field CHR '':'' 10 r of
           None \<Rightarrow> None
         | Some (uid, r) \<Rightarrow> (case read_field CHR ''\<newline>'' 10 r of
             None \<Rightarrow> None
           | Some (gid, r) \<Rightarrow> getting_simulation_users r (\<lparr>su_name = username, su_uid = atoi uid, su_gid = atoi gid\<rparr> # us))))"
  by pat_completeness auto
termination
proof (relation "measure (\<lambda>(s, us). length s)", simp)
  fix s us p username r q uid r2 q2 gid r3
  assume "read_field CHR '':'' 100 s = Some p" "(username, r) = p" "username \<noteq> []"
    "read_field CHR '':'' 10 r = Some q" "(uid, r2) = q" "read_field CHR ''\<newline>'' 10 r2 = Some q2" "(gid, r3) = q2"
  then have "length r < length s" "length r2 \<le> length r" "length r3 \<le> length r2"
    using read_field_length by blast+
  then show "((r3, us'), (s, us)) \<in> measure (\<lambda>(s, us). length s)" for us' by simp
qed

declare getting_simulation_users.simps [simp del]

definition sim_getuid :: "sim_user_info list \<Rightarrow> string \<Rightarrow> u32" where
  "sim_getuid us name = (case find (\<lambda>u. su_name u = name) us of Some u \<Rightarrow> su_uid u | None \<Rightarrow> - 1)"

definition sim_getname :: "sim_user_info list \<Rightarrow> u32 \<Rightarrow> string option" where
  "sim_getname us uid = map_option su_name (find (\<lambda>u. su_uid u = uid) us)"

definition sim_getgid :: "sim_user_info list \<Rightarrow> u32 \<Rightarrow> u32" where
  "sim_getgid us uid = (case find (\<lambda>u. su_uid u = uid) us of Some u \<Rightarrow> su_gid u | None \<Rightarrow> - 1)"

text \<open>The functions of the C library that the simulator replaces: the user and group id or the name and group id, if there is a user.\<close>

definition sim_getpwnam_r :: "sim_user_info list \<Rightarrow> string \<Rightarrow> (u32 \<times> u32) option" where
  "sim_getpwnam_r us name = (let uid = sim_getuid us name in if uid = - 1 then None else Some (uid, sim_getgid us uid))"

definition sim_getpwuid_r :: "sim_user_info list \<Rightarrow> u32 \<Rightarrow> (string \<times> u32) option" where
  "sim_getpwuid_r us uid = map_option (\<lambda>name. (name, sim_getgid us uid)) (sim_getname us uid)"

text \<open>\<open>userIdFromName\<close> of the manager does not look at the result: for an unknown user the group id is that of an uninitialised
  record, \<open>garbage\<close> here.\<close>

definition userIdFromName :: "u32 \<Rightarrow> sim_user_info list \<Rightarrow> string \<Rightarrow> u32 \<times> u32" where
  "userIdFromName garbage us name = (if name = [] then (- 1, - 1)
     else case sim_getpwnam_r us name of Some (uid, gid) \<Rightarrow> (uid, gid) | None \<Rightarrow> (- 1, garbage))"

subsection \<open>What is found again\<close>

lemma get_real_job_id_spec:
  assumes "sorted_wrt (\<lambda>p q. fst p > fst q) ps"
  shows "get_real_job_id t ps = (case map_of ps t of Some r \<Rightarrow> r | None \<Rightarrow> SIM_NO_VAL)"
  using assms
proof (induction ps)
  case (Cons p ps)
  obtain x r where p: "p = (x, r)" by (cases p)
  have "map_of ps t = None" if "x < t" using Cons.prems that p by (fastforce simp: map_of_eq_None_iff)
  then show ?case using Cons p by auto
qed simp

text \<open>The pairs of submitted jobs, in the order of submission.\<close>

definition submitted_pairs :: "(u32 \<times> u32) list \<Rightarrow> id_pairs" where
  "submitted_pairs ps = foldl (\<lambda>l (t, r). add_job_pair t r l) [] ps"

lemma submitted_pairs_rev: "submitted_pairs ps = rev ps"
proof -
  have "foldl (\<lambda>l (t, r). add_job_pair t r l) l ps = rev ps @ l" for l
    by (induction ps arbitrary: l) (auto simp: add_job_pair_def)
  then show ?thesis by (simp add: submitted_pairs_def)
qed

lemma real_job_id_submitted:
  assumes "sorted_wrt (<) (map fst ps)"
  shows "get_real_job_id t (submitted_pairs ps) = (case map_of ps t of Some r \<Rightarrow> r | None \<Rightarrow> SIM_NO_VAL)"
proof -
  have "sorted_wrt (\<lambda>p q. fst p > fst q) (rev ps)" using assms by (simp add: sorted_wrt_rev sorted_wrt_map)
  moreover have "map_of (rev ps) = map_of ps"
    using assms map_of_inject_set [of "rev ps" ps] by (simp add: strict_sorted_iff rev_map [symmetric])
  ultimately show ?thesis unfolding submitted_pairs_rev by (simp add: get_real_job_id_spec)
qed

text \<open>A pair behind one with a smaller trace id is not found.\<close>

lemma real_job_id_lost: "s < t \<Longrightarrow> get_real_job_id t (submitted_pairs (ps @ [(s, r)])) = SIM_NO_VAL"
  by (auto simp: submitted_pairs_rev)

lemma atoi_show:
  assumes "n < 2 ^ 32"
  shows "atoi (show_nat n) = of_nat n"
  using strtol_show [of n "[]"] assms by (simp add: atoi_def)

definition blank_trace :: job_trace where
  "blank_trace = \<lparr>tr_job_id = 1, tr_username = ''tester'', tr_submit = 1, tr_duration = 60, tr_wclimit = 2, tr_tasks = 1, tr_qosname = '''',
     tr_partition = ''cm'', tr_account = '''', tr_cpus_per_task = 1, tr_tasks_per_node = 1, tr_reservation = '''', tr_dependency = '''',
     tr_module_list = '''', tr_modular_job_id = 0, tr_total_components = 1, tr_submit_modular_job_time = 0, tr_modular_requested_time = 0,
     tr_wait_component_job_time = - 1, tr_component_run_time = 0, tr_rreq_partition_name = '''', tr_rreq_nodes = 1,
     tr_rreq_processes_per_node = 1, tr_rreq_threads_per_process = 1, tr_rreq_constraint = ''-1'', tr_rreq_hint = ''-1'',
     tr_after_complition_job_id = ''-1'', tr_dependency_type = ''-1''\<rparr>"

text \<open>For a modular trace the dependency of a job without predecessors is empty; with predecessors and a type the behaviour is undefined.\<close>

lemma modular_dependencies:
  assumes "2 < trace_format"
  shows "first_token_text (tr_after_complition_job_id jobd) = ''-1'' \<Longrightarrow> re_write_dependencies trace_format ps jobd = Some ''''"
    and "first_token_text (tr_after_complition_job_id jobd) \<noteq> ''-1'' \<Longrightarrow> tokens CHR '','' (tr_dependency_type jobd) \<noteq> [] \<Longrightarrow>
      re_write_dependencies trace_format ps jobd = None"
  using assms by (auto simp: re_write_dependencies_def neq_Nil_conv bind_eq_None_conv)

text \<open>In the other formats the dependency is never rewritten, because one of two different words is always different from it; the
  ids of the trace reach the controller as they are.\<close>

lemma standard_dependencies_kept: "trace_format \<le> 2 \<Longrightarrow> re_write_dependencies trace_format ps jobd = Some (tr_dependency jobd)"
  by (auto simp: re_write_dependencies_def)

subsection \<open>The file of users\<close>

definition user_line :: "sim_user_info \<Rightarrow> string" where
  "user_line u = su_name u @ '':'' @ show_nat (unat (su_uid u)) @ '':'' @ show_nat (unat (su_gid u)) @ [CHR ''\<newline>'']"

definition user_ok :: "sim_user_info \<Rightarrow> bool" where
  "user_ok u \<longleftrightarrow> su_name u \<noteq> [] \<and> length (su_name u) < 100 \<and> CHR '':'' \<notin> set (su_name u) \<and> su_uid u < 1000000000 \<and> su_gid u < 1000000000"

lemma read_field_next:
  assumes "d \<notin> set f" "length f < n"
  shows "read_field d n (f @ d # r) = Some (f, r)"
proof -
  have "takeWhile (\<lambda>c. c \<noteq> d) (f @ d # r) = f" "dropWhile (\<lambda>c. c \<noteq> d) (f @ d # r) = d # r"
    using assms(1) by (auto simp: takeWhile_append dropWhile_append dropWhile_eq_Nil_conv)
  then show ?thesis using assms(2) by (simp add: read_field_def)
qed

lemma show_nat_len: "n < 10 ^ k \<Longrightarrow> 0 < k \<Longrightarrow> length (show_nat n) \<le> k"
proof (induction k arbitrary: n)
  case (Suc k)
  show ?case
  proof (cases "n < 10")
    case True
    then show ?thesis by (subst show_nat.simps) simp
  next
    case False
    have "n div 10 < 10 ^ k" using Suc.prems(1) by (simp add: less_mult_imp_div_less mult.commute)
    moreover have "0 < k" using Suc.prems(1) False by (cases k) auto
    ultimately have "length (show_nat (n div 10)) \<le> k" by (rule Suc.IH)
    then show ?thesis using False by (subst show_nat.simps) simp
  qed
qed simp

lemma id_field:
  assumes "w < (1000000000 :: u32)" "\<not> is_digit d"
  shows "read_field d 10 (show_nat (unat w) @ d # r) = Some (show_nat (unat w), r)" "atoi (show_nat (unat w)) = w"
proof -
  have "unat w < 1000000000" using assms(1) by (simp add: word_less_nat_alt)
  then have "length (show_nat (unat w)) \<le> 9" by (intro show_nat_len) simp_all
  moreover have "d \<notin> set (show_nat (unat w))" using show_nat_chars assms(2) by blast
  ultimately show "read_field d 10 (show_nat (unat w) @ d # r) = Some (show_nat (unat w), r)" by (intro read_field_next) simp_all
  show "atoi (show_nat (unat w)) = w" using atoi_show [of "unat w"] unsigned_less [of w] by simp
qed

lemma read_user: "user_ok u \<Longrightarrow> getting_simulation_users (user_line u @ s) us = getting_simulation_users s (u # us)"
proof -
  assume u: "user_ok u"
  have d: "\<not> is_digit CHR '':''" "\<not> is_digit CHR ''\<newline>''" by (simp_all add: is_digit_def)
  let ?t = "show_nat (unat (su_uid u)) @ CHR '':'' # show_nat (unat (su_gid u)) @ CHR ''\<newline>'' # s"
  have "read_field CHR '':'' 100 (user_line u @ s) = Some (su_name u, ?t)"
    using read_field_next [of "CHR '':''" "su_name u" 100 ?t] u by (simp add: user_ok_def user_line_def)
  then show ?thesis using u id_field [OF _ d(1), of "su_uid u"] id_field [OF _ d(2), of "su_gid u"]
    by (subst getting_simulation_users.simps) (cases u, simp add: user_ok_def)
qed

lemma read_users: "\<forall>u \<in> set us. user_ok u \<Longrightarrow> getting_simulation_users (concat (map user_line us)) vs = Some (rev us @ vs)"
proof (induction us arbitrary: vs)
  case Nil
  then show ?case by (subst getting_simulation_users.simps) (simp add: read_field_def)
next
  case (Cons u us)
  then show ?case by (simp add: read_user)
qed

lemma find_key: "distinct (map f xs) \<Longrightarrow> x \<in> set xs \<Longrightarrow> find (\<lambda>y. f y = f x) xs = Some x"
  by (induction xs) auto

text \<open>C25 (roundtrip): A file of users that has one line \<open>name:uid:gid\<close> for each user, with names of fewer than hundred characters without
  colon and ids below \<open>10^9\<close>, is read completely; if names and ids are different, every user is then found by name and by id, with the group, and the
  manager submits the user's jobs with these ids.\<close>

theorem users_file_roundtrip:
  assumes "\<forall>u \<in> set us. user_ok u" "distinct (map su_name us)" "distinct (map su_uid us)"
  shows "\<exists>vs. getting_simulation_users (concat (map user_line us)) [] = Some vs \<and> set vs = set us
    \<and> (\<forall>u \<in> set us. sim_getpwnam_r vs (su_name u) = Some (su_uid u, su_gid u) \<and> sim_getpwuid_r vs (su_uid u) = Some (su_name u, su_gid u)
         \<and> userIdFromName garbage vs (su_name u) = (su_uid u, su_gid u))"
proof (intro exI conjI ballI)
  show "getting_simulation_users (concat (map user_line us)) [] = Some (rev us)" using read_users [OF assms(1), of "[]"] by simp
  fix u assume u: "u \<in> set us"
  have n: "find (\<lambda>v. su_name v = su_name u) (rev us) = Some u" "find (\<lambda>v. su_uid v = su_uid u) (rev us) = Some u"
    using assms(2, 3) u by (simp_all add: find_key rev_map [symmetric])
  have "su_uid u < 1000000000" using assms(1) u by (simp add: user_ok_def)
  then have m: "su_uid u \<noteq> - 1" by auto
  show p: "sim_getpwnam_r (rev us) (su_name u) = Some (su_uid u, su_gid u)" using n m by (simp add: sim_getpwnam_r_def sim_getuid_def sim_getgid_def)
  show "sim_getpwuid_r (rev us) (su_uid u) = Some (su_name u, su_gid u)" using n by (simp add: sim_getpwuid_r_def sim_getname_def sim_getgid_def)
  show "userIdFromName garbage (rev us) (su_name u) = (su_uid u, su_gid u)" using p assms(1) u by (simp add: userIdFromName_def user_ok_def)
qed simp

theorem users_file_roundtrip_witness:
  "\<exists>vs. getting_simulation_users ''ann:1000:100\<newline>tester:1001:100\<newline>'' [] = Some vs \<and> userIdFromName 0 vs ''tester'' = (1001, 100)"
proof -
  let ?us = "[\<lparr>su_name = ''ann'', su_uid = 1000, su_gid = 100\<rparr>, \<lparr>su_name = ''tester'', su_uid = 1001, su_gid = 100\<rparr>]"
  have "concat (map user_line ?us) = ''ann:1000:100\<newline>tester:1001:100\<newline>''" by code_simp
  moreover have "\<forall>u \<in> set ?us. user_ok u" by (simp add: user_ok_def)
  ultimately show ?thesis using users_file_roundtrip [of ?us 0] by auto
qed

end
