(* ===== verification/Sim_Manager.thy ===== *)
theory Sim_Manager
  imports Sim_Trace
begin

section \<open>The simulation manager (\<open>contribs/simulator/sim_mgr.c\<close>)\<close>

text \<open>
  The manager reads the trace, advances the simulated clock and submits the jobs whose time has come. Its state has the rest of the trace and of the
  reservations, the pairs of ids, the shared clock and end flag, and the calls it has made. The answers of the controller to submissions (\<open>sc_resp\<close>,
  by their number) and the results of \<open>rand\<close> are parameters.
\<close>

subsection \<open>Job descriptions\<close>

record job_desc =
  jm_time_limit :: u32
  jm_name :: string
  jm_user_id :: u32
  jm_group_id :: u32
  jm_qos :: string
  jm_partition :: string
  jm_account :: string
  jm_reservation :: string
  jm_dependency :: string
  jm_num_tasks :: u32
  jm_min_nodes :: u32
  jm_min_cpus :: u32
  jm_cpus_per_task :: u16
  jm_ntasks_per_node :: u16
  jm_duration :: u32
  jm_comment :: "string option"
  jm_features :: "string option"
  jm_hints :: "string option"
  jm_delay :: u32

definition slurm_init_job_desc_msg :: job_desc where
  "slurm_init_job_desc_msg = \<lparr>jm_time_limit = SIM_NO_VAL, jm_name = '''', jm_user_id = SIM_NO_VAL, jm_group_id = SIM_NO_VAL, jm_qos = '''',
     jm_partition = '''', jm_account = '''', jm_reservation = '''', jm_dependency = '''', jm_num_tasks = SIM_NO_VAL, jm_min_nodes = SIM_NO_VAL,
     jm_min_cpus = SIM_NO_VAL, jm_cpus_per_task = 0xfffe, jm_ntasks_per_node = 0xfffe, jm_duration = 0, jm_comment = None,
     jm_features = None, jm_hints = None, jm_delay = 0\<rparr>"

record sim_conf =
  sc_trace_format :: int
  sc_users :: "sim_user_info list"
  sc_garbage :: u32
  sc_napps :: int
  sc_rand :: "nat \<Rightarrow> int"
  sc_resp :: "nat \<Rightarrow> u32"
  sc_time_incr :: int
  sc_end_point :: int

text \<open>The division by \<open>min_nodes\<close>, which is the number of tasks, is undefined for a job without tasks. The script of the job is left out.\<close>

definition desc_resources :: "job_trace \<Rightarrow> job_desc \<Rightarrow> job_desc option" where
  "desc_resources jobd d = (let
     d = (if tr_partition jobd \<in> {''cm'', ''esb'', ''dam''} then d\<lparr>jm_min_nodes := of_int (max 1 (tr_tasks jobd))\<rparr> else d);
     d = d\<lparr>jm_min_cpus := of_int (tr_tasks jobd * tr_cpus_per_task jobd), jm_cpus_per_task := of_int (tr_cpus_per_task jobd),
           jm_min_nodes := of_int (tr_tasks jobd)\<rparr>;
     d = (if tr_tasks_per_node jobd \<noteq> 0 then d\<lparr>jm_ntasks_per_node := of_int (tr_tasks_per_node jobd)\<rparr> else d)
   in do {
     c_assert (jm_min_nodes d \<noteq> 0);
     Some (d\<lparr>jm_ntasks_per_node := ucast (max 1 (of_int (tr_tasks jobd) div jm_min_nodes d))\<rparr>)
   })"

definition generate_job_desc_msg :: "sim_conf \<Rightarrow> id_pairs \<Rightarrow> nat \<Rightarrow> job_desc \<Rightarrow> job_trace \<Rightarrow> job_desc option" where
  "generate_job_desc_msg c ps k d jobd = do {
     let (uid, gid) = userIdFromName (sc_garbage c) (sc_users c) (tr_username jobd);
     dep \<leftarrow> re_write_dependencies (sc_trace_format c) ps jobd;
     let d = d\<lparr>jm_time_limit := of_int (tr_wclimit jobd), jm_name := ''sim_job'', jm_user_id := uid, jm_group_id := gid, jm_qos := tr_qosname jobd,
           jm_partition := tr_partition jobd, jm_account := tr_account jobd, jm_reservation := tr_reservation jobd, jm_dependency := dep,
           jm_num_tasks := of_int (tr_tasks jobd)\<rparr>;
     d \<leftarrow> desc_resources jobd d;
     let d = d\<lparr>jm_duration := of_int (tr_duration jobd)\<rparr>;
     d \<leftarrow> (if sc_napps c \<noteq> 0 then do { r \<leftarrow> c_rem (sc_rand c k) (sc_napps c); Some (d\<lparr>jm_comment := Some (show_int (1 + r))\<rparr>) } else Some d);
     let d = (if sc_trace_format c > 2 \<and> tr_rreq_constraint jobd \<noteq> ''-1'' then d\<lparr>jm_features := Some (tr_rreq_constraint jobd)\<rparr> else d);
     let d = (if sc_trace_format c > 2 \<and> tr_rreq_hint jobd \<noteq> ''-1'' then d\<lparr>jm_hints := Some (tr_rreq_hint jobd)\<rparr> else d);
     if tr_wait_component_job_time jobd \<noteq> 0 \<and> tr_wait_component_job_time jobd \<noteq> - 1 then do {
       c_assert (0 \<le> ceil_minutes (tr_wait_component_job_time jobd));
       Some (d\<lparr>jm_delay := of_int (ceil_minutes (tr_wait_component_job_time jobd))\<rparr>)
     } else Some d
   }"

subsection \<open>Submission\<close>

datatype sim_call = Submit job_desc | Submit_pack "job_desc list" | Sim_job u32 u32 | Run_command string

record sim_mgr =
  mg_trace :: "job_trace list"
  mg_rsv :: "(int \<times> string) list"
  mg_start_point :: int
  mg_pairs :: id_pairs
  mg_calls :: "sim_call list"
  mg_subs :: nat
  mg_descs :: nat
  mg_clock :: u32
  mg_trace_recs :: int
  mg_registered :: int
  mg_time_end :: int

text \<open>The loop over the tokens of a module list never takes the next token: it copies the first one into the two elements of the array and then
  past its end.\<close>

function copy_modules :: "string \<Rightarrow> nat \<Rightarrow> string list option" where
  "copy_modules token j = (if j < 2 \<and> length token < 10 then copy_modules token (j + 1) else None)"
  by pat_completeness auto
termination
  by (relation "measure (\<lambda>(t, j). 2 - j)") auto

declare copy_modules.simps [simp del]

definition parse_modules :: "string \<Rightarrow> string list option" where
  "parse_modules s = (case strtok CHR '','' s of None \<Rightarrow> None | Some (t, _) \<Rightarrow> copy_modules t 0)"

text \<open>\<open>generateJob\<close> for a single job; what follows the loop over the module list is not reached if there is one.\<close>

definition generateJob :: "sim_conf \<Rightarrow> job_trace \<Rightarrow> sim_mgr \<Rightarrow> sim_mgr option" where
  "generateJob c jobd st = do {
     d \<leftarrow> generate_job_desc_msg c (mg_pairs st) (mg_descs st) slurm_init_job_desc_msg jobd;
     _ \<leftarrow> (if tr_module_list jobd \<noteq> '''' then do {
            _ \<leftarrow> generate_job_desc_msg c (mg_pairs st) (mg_descs st + 1) slurm_init_job_desc_msg (jobd\<lparr>tr_dependency := ''plussingleton''\<rparr>);
            parse_modules (tr_module_list jobd)
          } else Some []);
     let jid = sc_resp c (mg_subs st);
     Some (st\<lparr>mg_pairs := add_job_pair (of_int (tr_job_id jobd)) jid (mg_pairs st), mg_subs := mg_subs st + 1, mg_descs := mg_descs st + 1,
       mg_calls := mg_calls st @ [Submit d, Sim_job jid (of_int (tr_duration jobd))]\<rparr>)
   }"

text \<open>The components of a modular job, submitted together.\<close>

fun pack_descs :: "sim_conf \<Rightarrow> id_pairs \<Rightarrow> nat \<Rightarrow> job_trace list \<Rightarrow> job_desc list option" where
  "pack_descs c ps k [] = Some []"
| "pack_descs c ps k (r # rs) = do {
     d \<leftarrow> generate_job_desc_msg c ps k slurm_init_job_desc_msg r;
     ds \<leftarrow> pack_descs c ps (k + 1) rs;
     Some (d # ds)
   }"

fun announce_pack :: "u32 \<Rightarrow> u32 \<Rightarrow> job_trace list \<Rightarrow> sim_mgr \<Rightarrow> sim_mgr" where
  "announce_pack t jid [] st = st"
| "announce_pack t jid (r # rs) st = announce_pack (t + 1) (jid + 1) rs
     (st\<lparr>mg_pairs := add_job_pair t jid (mg_pairs st), mg_calls := mg_calls st @ [Sim_job jid (of_int (tr_duration r))]\<rparr>)"

definition generate_pack :: "sim_conf \<Rightarrow> job_trace list \<Rightarrow> sim_mgr \<Rightarrow> sim_mgr option" where
  "generate_pack c rs st = do {
     ds \<leftarrow> pack_descs c (mg_pairs st) (mg_descs st) rs;
     let st' = st\<lparr>mg_subs := mg_subs st + 1, mg_descs := mg_descs st + length rs, mg_calls := mg_calls st @ [Submit_pack ds]\<rparr>;
     Some (announce_pack (of_int (tr_modular_job_id (hd rs))) (sc_resp c (mg_subs st)) rs st')
   }"

text \<open>The loop of \<open>time_mgr\<close> over the jobs whose time has come. A modular job with fewer records than components runs off the end of the trace.\<close>

function submit_loop :: "sim_conf \<Rightarrow> sim_mgr \<Rightarrow> sim_mgr option" where
  "submit_loop c st = (case mg_trace st of
     [] \<Rightarrow> Some st
   | r # rs \<Rightarrow>
       if int (unat (mg_clock st)) \<ge> tr_submit r then
         if sc_trace_format c > 2 \<and> tr_total_components r > 1 then
           let n = nat (tr_total_components r) in
           if n > length (r # rs) then None
           else (case generate_pack c (take n (r # rs)) st of
               None \<Rightarrow> None
             | Some st' \<Rightarrow> submit_loop c (st'\<lparr>mg_trace := drop n (r # rs)\<rparr>))
         else (case generateJob c r st of None \<Rightarrow> None | Some st' \<Rightarrow> submit_loop c (st'\<lparr>mg_trace := rs\<rparr>))
       else Some st)"
  by pat_completeness auto
termination
  by (relation "measure (\<lambda>(c, st). length (mg_trace st))") auto

declare submit_loop.simps [simp del]

subsection \<open>The cycle\<close>

definition insert_trace_record :: "job_trace \<Rightarrow> sim_mgr \<Rightarrow> sim_mgr" where
  "insert_trace_record r st = st\<lparr>mg_trace := mg_trace st @ [r]\<rparr>"

text \<open>The static counter of \<open>init_trace_info\<close> is zero exactly for the first record.\<close>

fun init_job_trace :: "job_trace list \<Rightarrow> nat \<Rightarrow> sim_mgr \<Rightarrow> sim_mgr" where
  "init_job_trace [] n st = st\<lparr>mg_trace_recs := int n\<rparr>"
| "init_job_trace (r # rs) n st = init_job_trace rs (n + 1)
     (insert_trace_record r (if n = 0 then st\<lparr>mg_start_point := tr_submit r - 1\<rparr> else st))"

text \<open>The start of \<open>time_mgr\<close> clears the shared memory: the clock, the number of records and the registration of the node daemon.\<close>

definition time_mgr_start :: "sim_mgr \<Rightarrow> sim_mgr" where
  "time_mgr_start st = st\<lparr>mg_clock := 1, mg_trace_recs := 0, mg_registered := 0, mg_time_end := 0\<rparr>"

definition reserve_step :: "sim_mgr \<Rightarrow> sim_mgr" where
  "reserve_step st = (case mg_rsv st of
     [] \<Rightarrow> st
   | (t, cmd) # rest \<Rightarrow> if int (unat (mg_clock st)) \<ge> t then st\<lparr>mg_rsv := rest, mg_calls := mg_calls st @ [Run_command cmd]\<rparr> else st)"

text \<open>The first half of a cycle, up to the post of \<open>slurm_sem\<close>, at a real time in seconds; the second component is whether the manager
  goes on. The second half is the advance of the clock when the helper has answered.\<close>

definition time_mgr_work :: "sim_conf \<Rightarrow> int \<Rightarrow> sim_mgr \<Rightarrow> (sim_mgr \<times> bool) option" where
  "time_mgr_work c t st = (let
     st = (if mg_time_end st = 0 \<and> (sc_end_point c \<noteq> 0 \<and> sc_end_point c \<le> int (unat (mg_clock st)) \<or> mg_trace_recs st = - 1)
           then st\<lparr>mg_time_end := t\<rparr> else st)
   in if mg_time_end st \<noteq> 0 \<and> t - mg_time_end st > 20 then Some (st, False)
      else map_option (\<lambda>st. (st, True)) (submit_loop c (reserve_step st)))"

definition time_mgr_advance :: "sim_conf \<Rightarrow> sim_mgr \<Rightarrow> sim_mgr" where
  "time_mgr_advance c st = st\<lparr>mg_clock := mg_clock st + of_int (sc_time_incr c)\<rparr>"

subsection \<open>Jobs are submitted on time\<close>

definition plain_job :: "sim_conf \<Rightarrow> job_trace \<Rightarrow> bool" where
  "plain_job c r \<longleftrightarrow> sc_trace_format c \<le> 2 \<and> tr_module_list r = '''' \<and> of_int (tr_tasks r) \<noteq> (0 :: u32)
     \<and> (tr_wait_component_job_time r = - 1 \<or> 0 \<le> tr_wait_component_job_time r)"

lemma desc_resources_eq:
  "desc_resources r d = (if of_int (tr_tasks r) = (0 :: u32) then None
     else Some (d\<lparr>jm_min_cpus := of_int (tr_tasks r * tr_cpus_per_task r), jm_cpus_per_task := of_int (tr_cpus_per_task r),
            jm_min_nodes := of_int (tr_tasks r), jm_ntasks_per_node := 1\<rparr>))"
proof (cases "of_int (tr_tasks r) = (0 :: u32)")
  case False
  then have "of_int (tr_tasks r) div of_int (tr_tasks r) = (1 :: u32)" by (simp add: div_word_self)
  then show ?thesis using False by (simp add: desc_resources_def Let_def)
qed (simp add: desc_resources_def Let_def)

text \<open>The description that is submitted for a plain job, field by field; the user and group id are those of \<open>userIdFromName\<close>, and \<open>k\<close> is the
  number of the submission.\<close>

definition plain_desc :: "sim_conf \<Rightarrow> nat \<Rightarrow> job_trace \<Rightarrow> job_desc" where
  "plain_desc c k r = \<lparr>jm_time_limit = of_int (tr_wclimit r), jm_name = ''sim_job'',
     jm_user_id = fst (userIdFromName (sc_garbage c) (sc_users c) (tr_username r)),
     jm_group_id = snd (userIdFromName (sc_garbage c) (sc_users c) (tr_username r)),
     jm_qos = tr_qosname r, jm_partition = tr_partition r, jm_account = tr_account r, jm_reservation = tr_reservation r,
     jm_dependency = tr_dependency r, jm_num_tasks = of_int (tr_tasks r), jm_min_nodes = of_int (tr_tasks r),
     jm_min_cpus = of_int (tr_tasks r * tr_cpus_per_task r), jm_cpus_per_task = of_int (tr_cpus_per_task r), jm_ntasks_per_node = 1,
     jm_duration = of_int (tr_duration r),
     jm_comment = (if sc_napps c = 0 then None else Some (show_int (1 + sgn (sc_rand c k) * (\<bar>sc_rand c k\<bar> mod \<bar>sc_napps c\<bar>)))),
     jm_features = None, jm_hints = None,
     jm_delay = (if tr_wait_component_job_time r \<le> 0 then 0 else of_int (ceil_minutes (tr_wait_component_job_time r)))\<rparr>"

lemma plain_desc_made:
  assumes "plain_job c r"
  shows "generate_job_desc_msg c ps k slurm_init_job_desc_msg r = Some (plain_desc c k r)"
proof -
  have w: "tr_wait_component_job_time r = - 1 \<or> tr_wait_component_job_time r = 0 \<or>
      0 < tr_wait_component_job_time r \<and> 0 \<le> ceil_minutes (tr_wait_component_job_time r)"
    using assms by (auto simp: plain_job_def ceil_minutes_def)
  have f: "sc_trace_format c \<le> 2" "of_int (tr_tasks r) \<noteq> (0 :: u32)" using assms by (auto simp: plain_job_def)
  obtain u g where ug: "userIdFromName (sc_garbage c) (sc_users c) (tr_username r) = (u, g)" by fastforce
  show ?thesis using f w
    by (auto simp: generate_job_desc_msg_def plain_desc_def slurm_init_job_desc_msg_def standard_dependencies_kept desc_resources_eq c_rem_def ug Let_def)
qed

text \<open>The requests the manager has sent, without the commands for reservations; and those for one job, the \<open>k\<close>-th to be submitted.\<close>

fun is_request :: "sim_call \<Rightarrow> bool" where
  "is_request (Run_command cmd) \<longleftrightarrow> False"
| "is_request x \<longleftrightarrow> True"

definition job_requests :: "sim_conf \<Rightarrow> nat \<times> job_trace \<Rightarrow> sim_call list" where
  "job_requests c = (\<lambda>(k, r). [Submit (plain_desc c k r), Sim_job (sc_resp c k) (of_int (tr_duration r))])"

definition id_pair_of :: "sim_conf \<Rightarrow> nat \<times> job_trace \<Rightarrow> u32 \<times> u32" where
  "id_pair_of c = (\<lambda>(k, r). (of_int (tr_job_id r), sc_resp c k))"

lemma plain_generate:
  assumes "plain_job c r" "mg_descs st = mg_subs st"
  shows "generateJob c r st = Some (st\<lparr>mg_pairs := id_pair_of c (mg_subs st, r) # mg_pairs st, mg_subs := mg_subs st + 1,
    mg_descs := mg_descs st + 1, mg_calls := mg_calls st @ job_requests c (mg_subs st, r)\<rparr>)"
  using assms by (simp add: generateJob_def plain_desc_made plain_job_def id_pair_of_def job_requests_def add_job_pair_def Let_def)

text \<open>What a part of the manager's work has done: it has submitted the records \<open>xs\<close> in front of the trace and nothing else.\<close>

definition submitted_front :: "sim_conf \<Rightarrow> job_trace list \<Rightarrow> sim_mgr \<Rightarrow> sim_mgr \<Rightarrow> bool" where
  "submitted_front c xs st st' \<longleftrightarrow> mg_trace st = xs @ mg_trace st'
     \<and> mg_pairs st' = rev (map (id_pair_of c) (enumerate (mg_subs st) xs)) @ mg_pairs st
     \<and> filter is_request (mg_calls st') = filter is_request (mg_calls st) @ concat (map (job_requests c) (enumerate (mg_subs st) xs))
     \<and> mg_subs st' = mg_subs st + length xs \<and> mg_descs st' = mg_subs st'
     \<and> mg_trace_recs st' = mg_trace_recs st \<and> mg_time_end st' = mg_time_end st"

lemma submitted_front_trans:
  assumes "submitted_front c xs st st'" "submitted_front c ys st' st''"
  shows "submitted_front c (xs @ ys) st st''"
  using assms by (simp add: submitted_front_def enumerate_append_eq)

lemma submit_loop_plain:
  assumes "\<forall>r \<in> set (mg_trace st). plain_job c r" "mg_descs st = mg_subs st"
  shows "\<exists>st'. submit_loop c st = Some st' \<and> mg_clock st' = mg_clock st
    \<and> submitted_front c (takeWhile (\<lambda>r. tr_submit r \<le> int (unat (mg_clock st))) (mg_trace st)) st st'"
  using assms
proof (induction "mg_trace st" arbitrary: st)
  case Nil
  then show ?case by (subst submit_loop.simps) (simp add: submitted_front_def)
next
  case (Cons r rs)
  note tr = Cons.hyps(2) [symmetric]
  show ?case
  proof (cases "tr_submit r \<le> int (unat (mg_clock st))")
    case False
    then show ?thesis using Cons.prems(2) by (subst submit_loop.simps) (simp add: tr submitted_front_def)
  next
    case True
    have p: "plain_job c r" "\<forall>r \<in> set rs. plain_job c r" using Cons.prems(1) tr by auto
    note g = plain_generate [OF p(1) Cons.prems(2)]
    define st1 where "st1 = st\<lparr>mg_pairs := id_pair_of c (mg_subs st, r) # mg_pairs st, mg_subs := mg_subs st + 1,
        mg_descs := mg_descs st + 1, mg_calls := mg_calls st @ job_requests c (mg_subs st, r), mg_trace := rs\<rparr>"
    have f: "submitted_front c [r] st st1" using Cons.prems(2) by (simp add: submitted_front_def st1_def tr job_requests_def)
    have st1: "rs = mg_trace st1" "mg_clock st1 = mg_clock st" "mg_descs st1 = mg_subs st1" using Cons.prems(2) by (simp_all add: st1_def)
    obtain st' where st': "submit_loop c st1 = Some st'" "mg_clock st' = mg_clock st1"
        "submitted_front c (takeWhile (\<lambda>r. tr_submit r \<le> int (unat (mg_clock st1))) (mg_trace st1)) st1 st'"
      using Cons.hyps(1) [OF st1(1) _ st1(3)] p(2) st1(1) by auto
    have "submit_loop c st = submit_loop c st1"
      using g p(1) True by (subst submit_loop.simps) (simp add: tr plain_job_def st1_def)
    then show ?thesis using st' submitted_front_trans [OF f st'(3)] st1 tr True by auto
  qed
qed

lemma reserve_step_front: "mg_descs (reserve_step st) = mg_descs st" "mg_subs (reserve_step st) = mg_subs st" "mg_clock (reserve_step st) = mg_clock st" "mg_trace (reserve_step st) = mg_trace st"
  "submitted_front c xs (reserve_step st) st' = submitted_front c xs st st'"
  by (auto simp: reserve_step_def submitted_front_def split: list.splits)

lemma time_mgr_work_plain:
  assumes "\<forall>r \<in> set (mg_trace st). plain_job c r" "sc_end_point c = 0" "mg_trace_recs st \<noteq> - 1" "mg_time_end st = 0"
    "mg_descs st = mg_subs st"
  shows "\<exists>st'. time_mgr_work c t st = Some (st', True) \<and> mg_clock st' = mg_clock st
    \<and> submitted_front c (takeWhile (\<lambda>r. tr_submit r \<le> int (unat (mg_clock st))) (mg_trace st)) st st'"
proof -
  obtain st' where "submit_loop c (reserve_step st) = Some st'" "mg_clock st' = mg_clock (reserve_step st)"
      "submitted_front c (takeWhile (\<lambda>r. tr_submit r \<le> int (unat (mg_clock st))) (mg_trace st)) (reserve_step st) st'"
    using submit_loop_plain [of "reserve_step st" c] assms(1,5) by (auto simp: reserve_step_front)
  then show ?thesis using assms(2-4) by (auto simp: time_mgr_work_def Let_def reserve_step_front)
qed

fun run_cycles :: "sim_conf \<Rightarrow> int list \<Rightarrow> sim_mgr \<Rightarrow> sim_mgr option" where
  "run_cycles c [] st = Some st"
| "run_cycles c (t # ts) st = (case time_mgr_work c t st of
     Some (st, True) \<Rightarrow> run_cycles c ts (time_mgr_advance c st)
   | _ \<Rightarrow> None)"

lemma takeWhile_two:
  assumes "\<And>x. P x \<Longrightarrow> Q x"
  shows "takeWhile Q xs = takeWhile P xs @ takeWhile Q (dropWhile P xs)"
  using assms by (induction xs) auto

lemma clock_add:
  fixes w :: u32
  assumes "0 \<le> d" "int (unat w) + d < 2 ^ 32"
  shows "int (unat (w + of_int d)) = int (unat w) + d"
proof -
  have t: "take_bit 32 (uint w + d) = uint w + d" using assms by (intro take_bit_int_eq_self) simp_all
  have "uint (word_of_int (uint w + d) :: u32) = uint w + d" unfolding uint_word_of_int_eq using t by simp
  then show ?thesis by simp
qed

lemma run_cycles_front:
  assumes "ts \<noteq> []" "\<forall>r \<in> set (mg_trace st). plain_job c r" "sc_end_point c = 0" "mg_trace_recs st \<noteq> - 1" "mg_time_end st = 0"
    "1 \<le> sc_time_incr c" "int (unat (mg_clock st)) + int (length ts) * sc_time_incr c < 2 ^ 32" "mg_descs st = mg_subs st"
  shows "\<exists>st'. run_cycles c ts st = Some st' \<and> int (unat (mg_clock st')) = int (unat (mg_clock st)) + int (length ts) * sc_time_incr c
    \<and> submitted_front c (takeWhile (\<lambda>r. tr_submit r \<le> int (unat (mg_clock st)) + int (length ts - 1) * sc_time_incr c) (mg_trace st)) st st'"
  using assms
proof (induction ts arbitrary: st)
  case (Cons t ts)
  let ?now = "int (unat (mg_clock st))"
  obtain st1 where st1: "time_mgr_work c t st = Some (st1, True)" "mg_clock st1 = mg_clock st"
      "submitted_front c (takeWhile (\<lambda>r. tr_submit r \<le> ?now) (mg_trace st)) st st1"
    using time_mgr_work_plain [of st c t] Cons.prems(2-5,8) by blast
  define st2 where "st2 = time_mgr_advance c st1"
  have b: "?now + sc_time_incr c \<le> ?now + int (length (t # ts)) * sc_time_incr c" using Cons.prems(6) by (simp add: distrib_right)
  then have "?now + sc_time_incr c < 2 ^ 32" using Cons.prems(7) by (rule le_less_trans)
  then have cl: "int (unat (mg_clock st2)) = ?now + sc_time_incr c"
    using clock_add [of "sc_time_incr c" "mg_clock st"] Cons.prems(6) st1(2) by (simp add: st2_def time_mgr_advance_def)
  have "takeWhile (\<lambda>r. tr_submit r \<le> ?now) (mg_trace st) @ mg_trace st1 = takeWhile (\<lambda>r. tr_submit r \<le> ?now) (mg_trace st) @ dropWhile (\<lambda>r. tr_submit r \<le> ?now) (mg_trace st)"
    using st1(3) unfolding takeWhile_dropWhile_id by (simp add: submitted_front_def)
  then have d: "mg_trace st1 = dropWhile (\<lambda>r. tr_submit r \<le> ?now) (mg_trace st)" by (simp only: same_append_eq)
  have st2: "mg_trace st2 = dropWhile (\<lambda>r. tr_submit r \<le> ?now) (mg_trace st)" "submitted_front c xs st2 st' = submitted_front c xs st1 st'"
      "mg_trace_recs st2 \<noteq> - 1" "mg_time_end st2 = 0" "mg_descs st2 = mg_subs st2" for xs st'
    using st1(3) Cons.prems(4, 5) d
    by (auto simp: st2_def time_mgr_advance_def submitted_front_def)
  have r: "run_cycles c (t # ts) st = run_cycles c ts st2" using st1(1) by (simp add: st2_def)
  show ?case
  proof (cases "ts = []")
    case True
    then show ?thesis using r cl st1(3) st2(2) [of _ st2] by (auto simp: st2_def submitted_front_def time_mgr_advance_def)
  next
    case False
    have pl: "\<forall>r \<in> set (mg_trace st2). plain_job c r" using Cons.prems(2) st2(1) by (auto dest: set_dropWhileD)
    have e: "?now + sc_time_incr c + int (length ts) * sc_time_incr c = ?now + int (length (t # ts)) * sc_time_incr c" by (simp add: distrib_right)
    have e2: "?now + sc_time_incr c + int (length ts - 1) * sc_time_incr c = ?now + int (length (t # ts) - 1) * sc_time_incr c"
      using False by (cases ts) (simp_all add: distrib_right)
    obtain st' where st': "run_cycles c ts st2 = Some st'" "int (unat (mg_clock st')) = ?now + int (length (t # ts)) * sc_time_incr c"
        "submitted_front c (takeWhile (\<lambda>r. tr_submit r \<le> ?now + int (length (t # ts) - 1) * sc_time_incr c) (mg_trace st2)) st2 st'"
      using Cons.IH [OF False pl Cons.prems(3) st2(3, 4) Cons.prems(6) _ st2(5)] Cons.prems(7) unfolding cl e e2 by blast
    have "0 \<le> int (length (t # ts) - 1) * sc_time_incr c" using Cons.prems(6) by simp
    then have "takeWhile (\<lambda>r. tr_submit r \<le> ?now + int (length (t # ts) - 1) * sc_time_incr c) (mg_trace st) =
        takeWhile (\<lambda>r. tr_submit r \<le> ?now) (mg_trace st) @ takeWhile (\<lambda>r. tr_submit r \<le> ?now + int (length (t # ts) - 1) * sc_time_incr c) (mg_trace st2)"
      unfolding st2(1) by (intro takeWhile_two) linarith
    then show ?thesis using r st' submitted_front_trans [OF st1(3)] st2(2) by auto
  qed
qed simp

definition mgr_init :: "(int \<times> string) list \<Rightarrow> sim_mgr" where
  "mgr_init rsv = \<lparr>mg_trace = [], mg_rsv = rsv, mg_start_point = 0, mg_pairs = [], mg_calls = [], mg_subs = 0, mg_descs = 0,
     mg_clock = 0, mg_trace_recs = 0, mg_registered = 0, mg_time_end = 0\<rparr>"

lemma init_job_trace_fields:
  "mg_trace (init_job_trace tr n st) = mg_trace st @ tr" "mg_trace_recs (init_job_trace tr n st) = int (n + length tr)"
  "mg_pairs (init_job_trace tr n st) = mg_pairs st" "mg_calls (init_job_trace tr n st) = mg_calls st" "mg_subs (init_job_trace tr n st) = mg_subs st"
  "mg_descs (init_job_trace tr n st) = mg_descs st"
  by (induction tr arbitrary: n st) (auto simp: insert_trace_record_def)

lemma sorted_split:
  fixes f :: "'a \<Rightarrow> int"
  assumes "sorted (map f xs)"
  shows "takeWhile (\<lambda>x. f x \<le> t) xs = filter (\<lambda>x. f x \<le> t) xs" "dropWhile (\<lambda>x. f x \<le> t) xs = filter (\<lambda>x. \<not> f x \<le> t) xs"
proof -
  have "takeWhile (\<lambda>x. f x \<le> t) xs = filter (\<lambda>x. f x \<le> t) xs \<and> dropWhile (\<lambda>x. f x \<le> t) xs = filter (\<lambda>x. \<not> f x \<le> t) xs"
    using assms
  proof (induction xs)
    case (Cons x xs)
    show ?case
    proof (cases "f x \<le> t")
      case True
      then show ?thesis using Cons by auto
    next
      case False
      then have "\<forall>y \<in> set xs. \<not> f y \<le> t" using Cons.prems by fastforce
      then show ?thesis using False by (simp add: filter_empty_conv filter_id_conv)
    qed
  qed simp
  then show "takeWhile (\<lambda>x. f x \<le> t) xs = filter (\<lambda>x. f x \<le> t) xs" "dropWhile (\<lambda>x. f x \<le> t) xs = filter (\<lambda>x. \<not> f x \<le> t) xs" by blast+
qed

text \<open>C4 (liveness): Every job of the trace is submitted in time. Let the trace be ordered by submit time and have plain jobs only: a trace format without
  modular jobs (at most 2), no module list, a number of tasks that is not zero, and no negative waiting time other than \<open>- 1\<close>. After \<open>n > 0\<close> cycles
  of the manager, as long as the end of the simulation is not requested and the clock does not overflow, the clock has advanced by
  \<open>n\<close> increments, and exactly the jobs with a submit time up to the clock of the last cycle have been submitted, once each and in the order of the
  trace. The requests sent, apart from commands for reservations, are for each of them one submission of the description \<open>plain_desc\<close>, which has
  the record's values field by field, and then one announcement of its duration to the node daemon under the id the controller gave it; and that id is
  recorded. So no job is early and none is late by a whole increment.\<close>

theorem submits_on_time:
  assumes "ts \<noteq> []" "sorted (map tr_submit tr)" "\<forall>r \<in> set tr. plain_job c r" "sc_end_point c = 0" "1 \<le> sc_time_incr c"
    "1 + int (length ts) * sc_time_incr c < 2 ^ 32"
    "submit_now = filter (\<lambda>r. tr_submit r \<le> 1 + int (length ts - 1) * sc_time_incr c) tr"
  shows "\<exists>st. run_cycles c ts (time_mgr_start (init_job_trace tr 0 (mgr_init rsv))) = Some st
    \<and> int (unat (mg_clock st)) = 1 + int (length ts) * sc_time_incr c
    \<and> mg_trace st = filter (\<lambda>r. tr_submit r > 1 + int (length ts - 1) * sc_time_incr c) tr
    \<and> mg_pairs st = submitted_pairs (map (\<lambda>(k, r). (of_int (tr_job_id r), sc_resp c k)) (enumerate 0 submit_now))
    \<and> filter is_request (mg_calls st) = concat (map (\<lambda>(k, r). [Submit (plain_desc c k r), Sim_job (sc_resp c k) (of_int (tr_duration r))])
        (enumerate 0 submit_now))"
proof -
  define st0 where "st0 = time_mgr_start (init_job_trace tr 0 (mgr_init rsv))"
  have s: "mg_trace st0 = tr" "mg_clock st0 = 1" "mg_trace_recs st0 = 0" "mg_time_end st0 = 0" "mg_pairs st0 = []" "mg_calls st0 = []" "mg_subs st0 = 0"
      "mg_descs st0 = 0"
    by (simp_all add: st0_def time_mgr_start_def init_job_trace_fields mgr_init_def)
  obtain st where st: "run_cycles c ts st0 = Some st" "int (unat (mg_clock st)) = 1 + int (length ts) * sc_time_incr c"
      "submitted_front c (takeWhile (\<lambda>r. tr_submit r \<le> 1 + int (length ts - 1) * sc_time_incr c) tr) st0 st"
    using run_cycles_front [OF assms(1), of st0 c] assms(3-6) by (auto simp: s)
  have f: "submitted_front c submit_now st0 st" using st(3) unfolding sorted_split(1) [OF assms(2)] assms(7) .
  have "submit_now @ mg_trace st = submit_now @ dropWhile (\<lambda>r. tr_submit r \<le> 1 + int (length ts - 1) * sc_time_incr c) tr"
    using f s(1) takeWhile_dropWhile_id [of _ tr] unfolding assms(7) sorted_split(1) [OF assms(2), symmetric] by (simp add: submitted_front_def)
  then have "mg_trace st = filter (\<lambda>r. tr_submit r > 1 + int (length ts - 1) * sc_time_incr c) tr"
    unfolding same_append_eq sorted_split(2) [OF assms(2)] by (simp add: not_le)
  then show ?thesis using st(1, 2) f s
    by (simp add: st0_def [symmetric] submitted_front_def submitted_pairs_rev id_pair_of_def job_requests_def)
qed

definition demo_sim :: sim_conf where
  "demo_sim = \<lparr>sc_trace_format = 2, sc_users = [\<lparr>su_name = ''tester'', su_uid = 1001, su_gid = 100\<rparr>], sc_garbage = 0, sc_napps = 0,
     sc_rand = (\<lambda>_. 0), sc_resp = (\<lambda>k. 100 + of_nat k), sc_time_incr = 5, sc_end_point = 0\<rparr>"

text \<open>Three jobs and a clock that advances by five seconds: the second cycle, at second six, submits the second job.\<close>

theorem submits_on_time_witness:
  "\<exists>st. run_cycles demo_sim [0, 0] (time_mgr_start (init_job_trace
        [blank_trace, blank_trace\<lparr>tr_job_id := 2, tr_submit := 4, tr_duration := 30\<rparr>, blank_trace\<lparr>tr_job_id := 3, tr_submit := 7\<rparr>] 0 (mgr_init []))) = Some st
    \<and> int (unat (mg_clock st)) = 11 \<and> mg_pairs st = [(2, 101), (1, 100)] 
    \<and> filter is_request (mg_calls st) = [Submit (plain_desc demo_sim 0 blank_trace), Sim_job 100 60,
        Submit (plain_desc demo_sim 1 (blank_trace\<lparr>tr_job_id := 2, tr_submit := 4, tr_duration := 30\<rparr>)), Sim_job 101 30]"
proof -
  let ?tr = "[blank_trace, blank_trace\<lparr>tr_job_id := 2, tr_submit := 4, tr_duration := 30\<rparr>, blank_trace\<lparr>tr_job_id := 3, tr_submit := 7\<rparr>]"
  let ?now = "[blank_trace, blank_trace\<lparr>tr_job_id := 2, tr_submit := 4, tr_duration := 30\<rparr>]"
  have i: "sc_time_incr demo_sim = 5" "sc_end_point demo_sim = 0" "sc_resp demo_sim = (\<lambda>k. 100 + of_nat k)" by (simp_all add: demo_sim_def)
  have p: "\<forall>r \<in> set ?tr. plain_job demo_sim r" by (simp add: plain_job_def demo_sim_def blank_trace_def)
  have s: "sorted (map tr_submit ?tr)" "?now = filter (\<lambda>r. tr_submit r \<le> 1 + int (length [0, 0 :: int] - 1) * sc_time_incr demo_sim) ?tr"
    by (simp_all add: blank_trace_def i)
  show ?thesis using submits_on_time [OF _ s(1) p i(2) _ _ s(2), of "[]"]
    by (auto simp: i blank_trace_def submitted_pairs_rev)
qed

subsection \<open>Where the manager fails\<close>

lemma copy_modules_fails: "copy_modules t j = None"
proof (induction t j rule: copy_modules.induct)
  case (1 t j)
  then show ?case by (subst copy_modules.simps) auto
qed

text \<open>Every job with a module list and every job without tasks stops the manager: the list of modules is copied past the end of an array of two,
  and the number of tasks per node is computed by a division by the number of tasks.\<close>

theorem fatal_records:
  assumes "tr_module_list jobd \<noteq> '''' \<or> tr_tasks jobd = 0"
  shows "generateJob c jobd st = None"
proof (cases "generate_job_desc_msg c (mg_pairs st) (mg_descs st) slurm_init_job_desc_msg jobd")
  case None
  then show ?thesis by (simp add: generateJob_def)
next
  case (Some d)
  have "tr_tasks jobd \<noteq> 0"
  proof
    assume "tr_tasks jobd = 0"
    then have "desc_resources jobd x = None" for x by (simp add: desc_resources_eq)
    then show False using Some by (auto simp: generate_job_desc_msg_def Let_def bind_eq_Some_conv split: prod.splits)
  qed
  then have m: "tr_module_list jobd \<noteq> ''''" using assms by blast
  have "parse_modules s = None" for s by (auto simp: parse_modules_def copy_modules_fails split: option.splits)
  then show ?thesis using m by (simp add: generateJob_def bind_eq_None_conv)
qed

theorem fatal_records_witness:
  "generateJob demo_sim (blank_trace\<lparr>tr_module_list := ''cm,esb''\<rparr>) (mgr_init []) = None \<and> generateJob demo_sim (blank_trace\<lparr>tr_tasks := 0\<rparr>) (mgr_init []) = None"
  by (simp add: fatal_records)

subsection \<open>The end of the simulation\<close>

text \<open>The controller reads the number of records once, when it starts, and compares it in its background thread with the number of jobs that
  have ended (\<open>controller.c\<close>).\<close>

definition ctld_total_log_jobs :: "sim_mgr \<Rightarrow> int" where
  "ctld_total_log_jobs st = mg_trace_recs st"

definition ctld_end_check :: "int \<Rightarrow> int \<Rightarrow> sim_mgr \<Rightarrow> sim_mgr" where
  "ctld_end_check total_epilog_complete_jobs total_log_jobs st =
     (if total_epilog_complete_jobs = total_log_jobs then st\<lparr>mg_trace_recs := - 1\<rparr> else st)"

lemma announce_pack_keeps: "mg_time_end (announce_pack t jid rs st) = mg_time_end st" "mg_clock (announce_pack t jid rs st) = mg_clock st"
  by (induction t jid rs st rule: announce_pack.induct) auto

lemma generate_keeps:
  "generateJob c r st = Some st' \<Longrightarrow> mg_time_end st' = mg_time_end st \<and> mg_clock st' = mg_clock st"
  "generate_pack c rs st = Some st' \<Longrightarrow> mg_time_end st' = mg_time_end st \<and> mg_clock st' = mg_clock st"
  by (auto simp: generateJob_def generate_pack_def Let_def bind_eq_Some_conv announce_pack_keeps)

lemma submit_loop_keeps: "submit_loop c st = Some st' \<Longrightarrow> mg_time_end st' = mg_time_end st \<and> mg_clock st' = mg_clock st"
proof (induction c st rule: submit_loop.induct)
  case (1 c st)
  note u = 1(3) [unfolded submit_loop.simps [of c st]]
  show ?case
  proof (cases "mg_trace st")
    case Nil
    then show ?thesis using u by simp
  next
    case tr: (Cons r rs)
    consider "\<not> tr_submit r \<le> int (unat (mg_clock st))"
      | "tr_submit r \<le> int (unat (mg_clock st))" "sc_trace_format c > 2 \<and> tr_total_components r > 1"
      | "tr_submit r \<le> int (unat (mg_clock st))" "\<not> (sc_trace_format c > 2 \<and> tr_total_components r > 1)" by blast
    then show ?thesis
    proof cases
      case a: 1
      then show ?thesis using u tr by simp
    next
      case b: 2
      let ?n = "nat (tr_total_components r)"
      have n: "\<not> ?n > length (r # rs)" using u tr b by (auto simp: Let_def split: if_splits)
      then obtain st1 where g: "generate_pack c (take ?n (r # rs)) st = Some st1" "submit_loop c (st1\<lparr>mg_trace := drop ?n (r # rs)\<rparr>) = Some st'"
        using u tr b by (auto simp: Let_def split: option.splits)
      have "mg_time_end st' = mg_time_end (st1\<lparr>mg_trace := drop ?n (r # rs)\<rparr>) \<and> mg_clock st' = mg_clock (st1\<lparr>mg_trace := drop ?n (r # rs)\<rparr>)"
        using 1(1) [OF tr b(1) b(2) refl n g(1)] g(2) by blast
      then show ?thesis using generate_keeps(2) [OF g(1)] by simp
    next
      case b: 3
      then obtain st1 where g: "generateJob c r st = Some st1" "submit_loop c (st1\<lparr>mg_trace := rs\<rparr>) = Some st'"
        using u tr by (auto split: option.splits if_splits)
      have "mg_time_end st' = mg_time_end (st1\<lparr>mg_trace := rs\<rparr>) \<and> mg_clock st' = mg_clock (st1\<lparr>mg_trace := rs\<rparr>)" using 1(2) [OF tr b(1) b(2) g(1)] g(2) by blast
      then show ?thesis using generate_keeps(1) [OF g(1)] by simp
    qed
  qed
qed

text \<open>C36 (error): A controller that starts after the manager's clock ends the simulation before any job has ended. The start of \<open>time_mgr\<close> clears the number of
  records that was written into the shared memory; a controller that reads it then finds zero, equal to its number of ended jobs, and sets the
  end flag; 21 seconds of real time after its next cycle the manager exits, whatever is left of the trace. A controller
  that has read the number before does not set the flag.\<close>

theorem late_controller_ends_simulation:
  assumes "st0 = time_mgr_start (init_job_trace tr 0 st)" "st1 = ctld_end_check 0 (ctld_total_log_jobs st0) st0"
    "0 < t" "time_mgr_work c t st1 = Some (st2, True)" "t + 20 < t'"
  shows "mg_trace_recs st1 = - 1 \<and> time_mgr_work c t' (time_mgr_advance c st2) = Some (time_mgr_advance c st2, False)
    \<and> (tr \<noteq> [] \<longrightarrow> ctld_end_check 0 (ctld_total_log_jobs (init_job_trace tr 0 st)) st0 = st0)"
proof -
  have f: "mg_trace_recs st1 = - 1" "mg_time_end st1 = 0" using assms(1, 2) by (simp_all add: ctld_end_check_def ctld_total_log_jobs_def time_mgr_start_def)
  then have "submit_loop c (reserve_step (st1\<lparr>mg_time_end := t\<rparr>)) = Some st2"
    using assms(4) by (auto simp: time_mgr_work_def Let_def split: if_splits)
  then have "mg_time_end st2 = mg_time_end (reserve_step (st1\<lparr>mg_time_end := t\<rparr>))" by (rule submit_loop_keeps [THEN conjunct1])
  then have "mg_time_end st2 = t" by (auto simp: reserve_step_def split: list.splits)
  then show ?thesis using f(1) assms(3, 5)
    by (simp add: time_mgr_work_def Let_def time_mgr_advance_def ctld_end_check_def ctld_total_log_jobs_def init_job_trace_fields)
qed

theorem late_controller_ends_simulation_witness:
  "\<exists>st2. mg_trace st2 = [blank_trace\<lparr>tr_submit := 500\<rparr>]
    \<and> time_mgr_work demo_sim 22 (time_mgr_advance demo_sim st2) = Some (time_mgr_advance demo_sim st2, False)"
proof -
  define st0 where "st0 = time_mgr_start (init_job_trace [blank_trace\<lparr>tr_submit := 500\<rparr>] 0 (mgr_init []))"
  define st1 where "st1 = ctld_end_check 0 (ctld_total_log_jobs st0) st0"
  have w: "\<exists>st2. time_mgr_work demo_sim t st1 = Some (st2, True) \<and> mg_trace st2 = [blank_trace\<lparr>tr_submit := 500\<rparr>]" for t
  proof -
    have s: "mg_trace st1 = [blank_trace\<lparr>tr_submit := 500\<rparr>]" "mg_clock st1 = 1" "mg_rsv st1 = []" "mg_trace_recs st1 = - 1" "mg_time_end st1 = 0"
      by (simp_all add: st1_def st0_def ctld_end_check_def ctld_total_log_jobs_def time_mgr_start_def mgr_init_def insert_trace_record_def)
    then have "submit_loop demo_sim (reserve_step (st1\<lparr>mg_time_end := t\<rparr>)) = Some (st1\<lparr>mg_time_end := t\<rparr>)"
      by (subst submit_loop.simps) (simp add: reserve_step_def)
    then show ?thesis using s by (simp add: time_mgr_work_def Let_def)
  qed
  obtain st3 where st3: "time_mgr_work demo_sim 1 st1 = Some (st3, True)" "mg_trace st3 = [blank_trace\<lparr>tr_submit := 500\<rparr>]" using w [of 1] by blast
  show ?thesis using late_controller_ends_simulation [OF st0_def st1_def _ st3(1), of 22] st3(2) by (intro exI [of _ st3]) simp
qed

subsection \<open>The clock that the daemons see\<close>

text \<open>The simulator replaces \<open>time\<close> and \<open>gettimeofday\<close> by functions of the shared memory; the second one counts its calls in the microseconds.\<close>

definition sim_time :: "sim_mgr \<Rightarrow> int" where
  "sim_time st = int (unat (mg_clock st))"

definition sim_gettimeofday :: "u32 \<Rightarrow> u32 \<Rightarrow> (int \<times> int) \<times> u32" where
  "sim_gettimeofday current_sim current_micro = (let m = current_micro + 100 in ((int (unat current_sim), int (unat m)), m))"

text \<open>The microseconds are never carried over: ten thousand calls after the start they are a whole second.\<close>

lemma sim_gettimeofday_no_carry:
  "((\<lambda>m. snd (sim_gettimeofday s m)) ^^ 9999) 0 = m \<Longrightarrow> fst (sim_gettimeofday s m) = (int (unat s), 1000000)"
proof -
  assume m: "((\<lambda>m. snd (sim_gettimeofday s m)) ^^ 9999) 0 = m"
  have "((\<lambda>m. snd (sim_gettimeofday s m)) ^^ n) 0 = of_nat (100 * n)" for n
    by (induction n) (simp_all add: sim_gettimeofday_def Let_def algebra_simps)
  from this [of 9999] have "m = 999900" using m by simp
  then show ?thesis by (simp add: sim_gettimeofday_def)
qed

end
