(* ===== verification/Sim_Events.thy ===== *)
theory Sim_Events
  imports Slurm_Prelude "HOL-Library.Multiset"
begin

section \<open>The simulator's event queue (\<open>src/slurmd/slurmd\<close>, built with \<open>SLURM_SIMULATOR\<close>)\<close>

text \<open>
  In a simulation no job is executed: the daemon \<open>slurmd\<close> is told how long each job takes
  (\<open>_rpc_sim_job\<close>), puts the end of a launched job into a list ordered by time
  (\<open>simulator_add_future_event\<close>), and its helper thread completes, once per cycle, the jobs
  whose end time has come (\<open>_simulator_helper\<close>) and then waits until the controller has had
  them all terminated (\<open>simulator_rpc_terminate_job\<close>). The pointers \<open>head_simulator_event\<close>,
  \<open>head_sim_completed_jobs\<close> and \<open>head_simulator_event_info\<close> are lists here. Each handler runs its
  list operations under \<open>simulator_mutex\<close>; an operation that has to wait for a mutex that is never
  released has the result \<open>None\<close>. Whether the completion message for a job can be sent is the
  argument \<open>send\<close>. The requests run in threads of their own, and two of them are not one critical
  section: a launch reads the clock and builds its event before it takes the mutex, and a termination removes the
  event under \<open>simulator_mutex\<close> and decrements the counter \<open>waiting_epilog_msgs\<close> later, under
  \<open>epilogs_mutex\<close>, when its message has been answered. Each has its two halves as operations, the
  handler is their composition, and in the state machine below the halves are separate steps. The helper's increments of
  the counter commute with those decrements, so its critical section is one step.
\<close>

subsection \<open>State and operations\<close>

record simulator_event =
  se_job_id :: int
  se_when :: int
  se_nodelist :: string

record sim_state =
  ss_info :: "(int \<times> int) list"
  ss_last_job_id :: int
  ss_events :: "simulator_event list"
  ss_completed :: "simulator_event list"
  ss_total :: int
  ss_epilogs :: int
  ss_mutex :: bool

record batch_job_launch_msg =
  bj_job_id :: int
  bj_duration :: int
  bj_nodes :: string

definition sim_init :: sim_state where
  "sim_init = \<lparr>ss_info = [], ss_last_job_id = 0, ss_events = [], ss_completed = [],
     ss_total = 0, ss_epilogs = 0, ss_mutex = False\<rparr>"

text \<open>\<open>_rpc_sim_job\<close>: a repeated job id updates the entry inserted last.\<close>

definition rpc_sim_job :: "int \<Rightarrow> int \<Rightarrow> sim_state \<Rightarrow> sim_state option" where
  "rpc_sim_job job_id duration st =
     (if job_id \<noteq> ss_last_job_id st
      then Some (st\<lparr>ss_info := (job_id, duration) # ss_info st, ss_last_job_id := job_id\<rparr>)
      else (case ss_info st of
              [] \<Rightarrow> None
            | (j, _) # rest \<Rightarrow> Some (st\<lparr>ss_info := (j, duration) # rest\<rparr>)))"

text \<open>The insertion behind the head: \<open>while ((node_temp->next) && (node_temp->next->when <
  new_event->when))\<close>.\<close>

fun insert_behind :: "simulator_event \<Rightarrow> simulator_event list \<Rightarrow> simulator_event list" where
  "insert_behind new [] = [new]"
| "insert_behind new (x # xs) =
     (if se_when x < se_when new then x # insert_behind new xs else new # x # xs)"

fun insert_event :: "simulator_event \<Rightarrow> simulator_event list \<Rightarrow> simulator_event list" where
  "insert_event new [] = [new]"
| "insert_event new (h # t) = (if se_when h > se_when new then new # h # t else h # insert_behind new t)"

text \<open>\<open>simulator_add_future_event\<close>: the event is built from the clock \<open>now\<close>, if the job is known; then it is
  put into the list under the mutex.\<close>

definition new_event :: "int \<Rightarrow> batch_job_launch_msg \<Rightarrow> sim_state \<Rightarrow> simulator_event option" where
  "new_event now req st =
     (if bj_job_id req \<notin> fst ` set (ss_info st) then None
      else Some \<lparr>se_job_id = bj_job_id req, se_when = now + bj_duration req, se_nodelist = bj_nodes req\<rparr>)"

definition add_event :: "simulator_event \<Rightarrow> sim_state \<Rightarrow> sim_state option" where
  "add_event ev st =
     (if ss_mutex st then None
      else Some (st\<lparr>ss_total := ss_total st + 1, ss_events := insert_event ev (ss_events st)\<rparr>))"

definition simulator_add_future_event :: "int \<Rightarrow> batch_job_launch_msg \<Rightarrow> sim_state \<Rightarrow> (sim_state \<times> int) option" where
  "simulator_add_future_event now req st = (case new_event now req st of
     None \<Rightarrow> Some (st, - 1)
   | Some ev \<Rightarrow> map_option (\<lambda>st. (st, 0)) (add_event ev st))"

text \<open>The inner loop of the helper. The outcome is the state, the number of jobs ended and
  whether the loop ended normally; after a failed send the thread exits at once, with the
  mutex still locked.\<close>

function deliver :: "(int \<Rightarrow> bool) \<Rightarrow> int \<Rightarrow> sim_state \<Rightarrow> int \<Rightarrow> sim_state \<times> int \<times> bool" where
  "deliver send now st ended = (case ss_events st of
     [] \<Rightarrow> (st, ended, True)
   | ev # rest \<Rightarrow>
       if now \<ge> se_when ev then
         let st = st\<lparr>ss_events := rest, ss_completed := ev # ss_completed st, ss_total := ss_total st - 1\<rparr> in
         if send (se_job_id ev) then deliver send now (st\<lparr>ss_epilogs := ss_epilogs st + 1\<rparr>) (ended + 1)
         else (st, ended, False)
       else (st, ended, True))"
  by pat_completeness auto
termination
  by (relation "measure (\<lambda>(send, now, st, ended). length (ss_events st))") auto

declare deliver.simps [simp del]

definition helper_cycle :: "(int \<Rightarrow> bool) \<Rightarrow> int \<Rightarrow> sim_state \<Rightarrow> (sim_state \<times> int \<times> bool) option" where
  "helper_cycle send now st =
     (if ss_mutex st then None
      else case deliver send now st 0 of
        (st, ended, True) \<Rightarrow> Some (st, ended, True)
      | (st, ended, False) \<Rightarrow> Some (st\<lparr>ss_mutex := True\<rparr>, ended, False))"

text \<open>\<open>simulator_rpc_terminate_job\<close>: remove the first completed event of the job and report its
  epilog; without such an event no epilog message is sent.\<close>

fun remove_job :: "int \<Rightarrow> simulator_event list \<Rightarrow> (simulator_event \<times> simulator_event list) option" where
  "remove_job j [] = None"
| "remove_job j (x # xs) =
     (if se_job_id x = j then Some (x, xs)
      else map_option (\<lambda>(y, ys). (y, x # ys)) (remove_job j xs))"

definition terminate_begin :: "int \<Rightarrow> sim_state \<Rightarrow> (sim_state \<times> simulator_event option) option" where
  "terminate_begin job_id st =
     (if ss_mutex st then None
      else case remove_job job_id (ss_completed st) of
        None \<Rightarrow> Some (st, None)
      | Some (ev, rest) \<Rightarrow> Some (st\<lparr>ss_completed := rest\<rparr>, Some ev))"

definition epilog_sent :: "sim_state \<Rightarrow> sim_state" where
  "epilog_sent st = st\<lparr>ss_epilogs := ss_epilogs st - 1\<rparr>"

definition rpc_terminate_job :: "int \<Rightarrow> sim_state \<Rightarrow> (sim_state \<times> simulator_event option) option" where
  "rpc_terminate_job job_id st = (case terminate_begin job_id st of
     None \<Rightarrow> None
   | Some (st, None) \<Rightarrow> Some (st, None)
   | Some (st, Some ev) \<Rightarrow> Some (epilog_sent st, Some ev))"

subsection \<open>The daemon as a state machine\<close>

text \<open>The daemon with the handlers that are between their two halves: launches that have built an event and not yet put
  it into the list, and terminations that have removed an event and wait for the answer to their message. Requests
  and helper cycles come in any order; a helper cycle that fails to send leaves the mutex locked.\<close>

record slurmd =
  sd_sim :: sim_state
  sd_launching :: "simulator_event list"
  sd_ending :: "simulator_event list"

definition slurmd_init :: slurmd where
  "slurmd_init = \<lparr>sd_sim = sim_init, sd_launching = [], sd_ending = []\<rparr>"

inductive sim_step :: "slurmd \<Rightarrow> slurmd \<Rightarrow> bool" where
  sim_job: "rpc_sim_job j d (sd_sim st) = Some sim \<Longrightarrow> sim_step st (st\<lparr>sd_sim := sim\<rparr>)"
| launch_begin: "new_event now req (sd_sim st) = Some ev \<Longrightarrow> sim_step st (st\<lparr>sd_launching := ev # sd_launching st\<rparr>)"
| launch_end: "sd_launching st = xs @ ev # ys \<Longrightarrow> add_event ev (sd_sim st) = Some sim \<Longrightarrow>
    sim_step st (st\<lparr>sd_sim := sim, sd_launching := xs @ ys\<rparr>)"
| helper: "helper_cycle send now (sd_sim st) = Some (sim, n, ok) \<Longrightarrow> sim_step st (st\<lparr>sd_sim := sim\<rparr>)"
| terminate_first: "terminate_begin j (sd_sim st) = Some (sim, Some ev) \<Longrightarrow>
    sim_step st (st\<lparr>sd_sim := sim, sd_ending := ev # sd_ending st\<rparr>)"
| terminate_second: "sd_ending st = xs @ ev # ys \<Longrightarrow>
    sim_step st (st\<lparr>sd_sim := epilog_sent (sd_sim st), sd_ending := xs @ ys\<rparr>)"

inductive_cases sim_stepE: "sim_step st st'"

text \<open>\<open>node_inv k\<close>: the lists and counters agree when \<open>k\<close> terminations are under way; \<open>sim_inv\<close>: when none is.\<close>

definition node_inv :: "nat \<Rightarrow> sim_state \<Rightarrow> bool" where
  "node_inv k st \<longleftrightarrow> sorted (map se_when (ss_events st)) \<and> ss_total st = int (length (ss_events st)) \<and>
     ss_epilogs st + (if ss_mutex st then 1 else 0) = int (length (ss_completed st)) + int k"

definition sim_inv :: "sim_state \<Rightarrow> bool" where
  "sim_inv st \<longleftrightarrow> sorted (map se_when (ss_events st)) \<and> ss_total st = int (length (ss_events st)) \<and>
     ss_epilogs st = int (length (ss_completed st)) \<and> \<not> ss_mutex st"

lemma node_inv_0: "sim_inv st \<longleftrightarrow> node_inv 0 st \<and> \<not> ss_mutex st"
  by (auto simp: sim_inv_def node_inv_def)

lemma insert_behind_set [simp]: "set (insert_behind e xs) = insert e (set xs)"
  by (induction e xs rule: insert_behind.induct) auto

lemma insert_behind_length [simp]: "length (insert_behind e xs) = Suc (length xs)"
  by (induction e xs rule: insert_behind.induct) auto

lemma insert_behind_sorted: "sorted (map se_when xs) \<Longrightarrow> sorted (map se_when (insert_behind e xs))"
  by (induction e xs rule: insert_behind.induct) (auto simp: order.trans)

lemma insert_event_set [simp]: "set (insert_event e xs) = insert e (set xs)"
  by (cases xs) auto

lemma insert_event_length [simp]: "length (insert_event e xs) = Suc (length xs)"
  by (cases xs) auto

lemma insert_event_sorted: "sorted (map se_when xs) \<Longrightarrow> sorted (map se_when (insert_event e xs))"
  by (cases xs) (auto simp: insert_behind_sorted dest: order.strict_implies_order intro: order.trans)

text \<open>When every message can be sent the helper completes exactly the due events, in order.\<close>

definition due :: "int \<Rightarrow> simulator_event list \<Rightarrow> simulator_event list" where
  "due now evs = takeWhile (\<lambda>ev. se_when ev \<le> now) evs"

definition pending :: "int \<Rightarrow> simulator_event list \<Rightarrow> simulator_event list" where
  "pending now evs = dropWhile (\<lambda>ev. se_when ev \<le> now) evs"

lemma deliver_ok:
  "(\<forall>ev \<in> set (due now (ss_events st)). send (se_job_id ev)) \<Longrightarrow>
   deliver send now st ended =
     (st\<lparr>ss_events := pending now (ss_events st),
         ss_completed := rev (due now (ss_events st)) @ ss_completed st,
         ss_total := ss_total st - int (length (due now (ss_events st))),
         ss_epilogs := ss_epilogs st + int (length (due now (ss_events st)))\<rparr>,
      ended + int (length (due now (ss_events st))), True)"
proof (induction send now st ended rule: deliver.induct)
  case (1 send now st ended)
  show ?case
  proof (cases "ss_events st")
    case Nil
    then show ?thesis by (subst deliver.simps) (simp add: due_def pending_def)
  next
    case (Cons ev rest)
    show ?thesis
    proof (cases "se_when ev \<le> now")
      case False
      then show ?thesis using Cons by (subst deliver.simps) (simp add: due_def pending_def)
    next
      case True
      then have s: "send (se_job_id ev)" using 1(2) Cons by (simp add: due_def)
      show ?thesis
        using True Cons s 1(2) 1(1) [OF Cons True refl]
        by (subst deliver.simps) (simp add: due_def pending_def algebra_simps)
    qed
  qed
qed

lemma deliver_ended: "deliver send now st ended = (st', n, True) \<Longrightarrow> \<forall>ev \<in> set (due now (ss_events st)). send (se_job_id ev)"
proof (induction send now st ended rule: deliver.induct)
  case (1 send now st ended)
  then show ?case
    by (subst (asm) (2) deliver.simps) (auto simp: due_def Let_def split: list.splits if_splits)
qed

lemma due_pending: "due now evs @ pending now evs = evs"
  by (simp add: due_def pending_def)

lemma pending_late: "sorted (map se_when evs) \<Longrightarrow> ev \<in> set (pending now evs) \<Longrightarrow> now < se_when ev"
  unfolding pending_def by (induction evs) (auto split: if_splits)

lemma remove_job_length: "remove_job j xs = Some (x, ys) \<Longrightarrow> length xs = Suc (length ys)"
  by (induction xs arbitrary: ys) (auto split: if_splits)

lemma remove_job_None: "remove_job j xs = None \<longleftrightarrow> j \<notin> se_job_id ` set xs"
  by (induction xs) auto

text \<open>Whatever can be sent, a helper cycle moves a prefix of the events to the completed jobs; the message for the last of
  them was not sent where the cycle failed.\<close>

lemma deliver_shape:
  "deliver send now st ended = (st', n, ok) \<Longrightarrow> \<exists>pre. ss_events st = pre @ ss_events st' \<and>
     st' = st\<lparr>ss_events := ss_events st', ss_completed := rev pre @ ss_completed st, ss_total := ss_total st - int (length pre),
       ss_epilogs := ss_epilogs st + int (length pre) - (if ok then 0 else 1)\<rparr> \<and>
     n = ended + int (length pre) - (if ok then 0 else 1)"
proof (induction send now st ended arbitrary: st' n ok rule: deliver.induct)
  case (1 send now st ended)
  note d = 1(2) [unfolded deliver.simps [of send now st ended]]
  show ?case
  proof (cases "\<exists>ev rest. ss_events st = ev # rest \<and> se_when ev \<le> now")
    case False
    then have "st' = st \<and> n = ended \<and> ok" using d by (auto split: list.splits if_splits)
    then show ?thesis by (intro exI [of _ "[]"]) simp
  next
    case True
    then obtain ev rest where e: "ss_events st = ev # rest" "se_when ev \<le> now" by blast
    define st1 where "st1 = st\<lparr>ss_events := rest, ss_completed := ev # ss_completed st, ss_total := ss_total st - 1\<rparr>"
    show ?thesis
    proof (cases "send (se_job_id ev)")
      case False
      then have "st' = st1 \<and> n = ended \<and> \<not> ok" using d e by (simp add: st1_def)
      then show ?thesis using e by (intro exI [of _ "[ev]"]) (simp add: st1_def)
    next
      case True
      then have "deliver send now (st1\<lparr>ss_epilogs := ss_epilogs st1 + 1\<rparr>) (ended + 1) = (st', n, ok)" using d e by (simp add: st1_def)
      then obtain pre where pre: "rest = pre @ ss_events st'" "st' = st1\<lparr>ss_epilogs := ss_epilogs st1 + 1, ss_events := ss_events st',
            ss_completed := rev pre @ ss_completed st1, ss_total := ss_total st1 - int (length pre),
            ss_epilogs := ss_epilogs st1 + 1 + int (length pre) - (if ok then 0 else 1)\<rparr>"
          "n = ended + 1 + int (length pre) - (if ok then 0 else 1)"
        using 1(1) [OF e refl, of st' n ok] True e by (auto simp: st1_def)
      have "st' = st\<lparr>ss_events := ss_events st', ss_completed := rev (ev # pre) @ ss_completed st, ss_total := ss_total st - int (length (ev # pre)),
          ss_epilogs := ss_epilogs st + int (length (ev # pre)) - (if ok then 0 else 1)\<rparr>"
        by (subst pre(2)) (simp add: st1_def)
      then show ?thesis using e(1) pre(1,3) by (intro exI [of _ "ev # pre"]) auto
    qed
  qed
qed

lemma deliver_few: "deliver send now st ended = (st', n, False) \<Longrightarrow> n < ended + int (length (due now (ss_events st)))"
proof (induction send now st ended arbitrary: n rule: deliver.induct)
  case (1 send now st ended)
  note d = 1(2) [unfolded deliver.simps [of send now st ended]]
  obtain ev rest where e: "ss_events st = ev # rest" "se_when ev \<le> now" using d by (auto split: list.splits if_splits)
  show ?case
  proof (cases "send (se_job_id ev)")
    case False
    then show ?thesis using d e by (simp add: due_def)
  next
    case True
    then show ?thesis using d e 1(1) [OF e refl True] by (force simp: due_def)
  qed
qed

lemma helper_shape:
  assumes "helper_cycle send now st = Some (st', n, ok)"
  shows "\<not> ss_mutex st \<and> (\<exists>pre. ss_events st = pre @ ss_events st' \<and>
     st' = st\<lparr>ss_events := ss_events st', ss_completed := rev pre @ ss_completed st, ss_total := ss_total st - int (length pre),
       ss_epilogs := ss_epilogs st + int (length pre) - (if ok then 0 else 1), ss_mutex := \<not> ok\<rparr> \<and>
     n = int (length pre) - (if ok then 0 else 1))"
proof -
  obtain st1 n1 ok1 where d: "deliver send now st 0 = (st1, n1, ok1)" by (cases "deliver send now st 0") auto
  then have m: "\<not> ss_mutex st" and r: "st' = (if ok then st1 else st1\<lparr>ss_mutex := True\<rparr>)" "n1 = n" "ok1 = ok"
    using assms by (auto simp: helper_cycle_def split: if_splits bool.splits)
  obtain pre where pre: "ss_events st = pre @ ss_events st1" "st1 = st\<lparr>ss_events := ss_events st1, ss_completed := rev pre @ ss_completed st,
      ss_total := ss_total st - int (length pre), ss_epilogs := ss_epilogs st + int (length pre) - (if ok then 0 else 1)\<rparr>"
      "n = int (length pre) - (if ok then 0 else 1)"
    using deliver_shape [OF d] r by auto
  have "ss_mutex st1 = ss_mutex st" by (subst pre(2)) simp
  then have st': "st' = st1\<lparr>ss_mutex := \<not> ok\<rparr>" using r(1) m by (cases ok) simp_all
  then have "st' = st\<lparr>ss_events := ss_events st', ss_completed := rev pre @ ss_completed st, ss_total := ss_total st - int (length pre),
      ss_epilogs := ss_epilogs st + int (length pre) - (if ok then 0 else 1), ss_mutex := \<not> ok\<rparr>"
    by (subst st', subst pre(2)) simp
  then show ?thesis using m pre(1,3) st' by (intro conjI exI [of _ pre]) simp_all
qed

lemma helper_fails:
  assumes "\<not> ss_mutex st" "ev \<in> set (due now (ss_events st))" "\<not> send (se_job_id ev)"
  shows "\<exists>st' n. helper_cycle send now st = Some (st', n, False) \<and> n < int (length (due now (ss_events st)))"
proof -
  obtain st1 n ok where d: "deliver send now st 0 = (st1, n, ok)" by (cases "deliver send now st 0") auto
  have "\<not> ok" using deliver_ended [of send now st 0 st1 n] d assms(2,3) by auto
  moreover have "n < int (length (due now (ss_events st)))" using deliver_few d \<open>\<not> ok\<close> by force
  ultimately show ?thesis using d assms(1) by (auto simp: helper_cycle_def)
qed

lemma helper_counts:
  assumes "helper_cycle send now st = Some (st', n, ok)" "node_inv k st"
  shows "node_inv k st' \<and> (ss_mutex st' \<longleftrightarrow> \<not> ok)"
proof -
  obtain pre evs where pre: "ss_events st = pre @ evs" "st' = st\<lparr>ss_events := evs, ss_completed := rev pre @ ss_completed st,
      ss_total := ss_total st - int (length pre), ss_epilogs := ss_epilogs st + int (length pre) - (if ok then 0 else 1), ss_mutex := \<not> ok\<rparr>"
      "\<not> ss_mutex st"
    using helper_shape [OF assms(1)] by blast
  then show ?thesis using assms(2) by (auto simp: node_inv_def sorted_append)
qed

definition slurmd_inv :: "slurmd \<Rightarrow> bool" where
  "slurmd_inv st \<longleftrightarrow> node_inv (length (sd_ending st)) (sd_sim st)"

lemma sim_step_inv: "sim_step st st' \<Longrightarrow> slurmd_inv st \<Longrightarrow> slurmd_inv st'"
proof (induction rule: sim_step.induct)
  case (sim_job j d st sim)
  then show ?case by (auto simp: rpc_sim_job_def slurmd_inv_def node_inv_def split: if_splits list.splits)
next
  case (launch_begin now req st ev)
  then show ?case by (simp add: slurmd_inv_def)
next
  case (launch_end st xs ev ys sim)
  then show ?case by (auto simp: add_event_def slurmd_inv_def node_inv_def insert_event_sorted split: if_splits)
next
  case (helper send now st sim n ok)
  then show ?case using helper_counts by (simp add: slurmd_inv_def)
next
  case (terminate_first j st sim ev)
  then show ?case by (auto simp: terminate_begin_def slurmd_inv_def node_inv_def split: if_splits option.splits dest!: remove_job_length)
next
  case (terminate_second st xs ev ys)
  then show ?case by (auto simp: epilog_sent_def slurmd_inv_def node_inv_def)
qed

lemma slurmd_init_inv: "slurmd_inv slurmd_init"
  by (simp add: slurmd_inv_def node_inv_def slurmd_init_def sim_init_def)

lemma slurmd_reach_inv: "sim_step\<^sup>*\<^sup>* slurmd_init st \<Longrightarrow> slurmd_inv st"
  by (induction rule: rtranclp_induct) (auto intro: sim_step_inv slurmd_init_inv)

text \<open>While the mutex is locked for good the lists of events stay as they are.\<close>

lemma locked_step:
  "sim_step st st' \<Longrightarrow> ss_mutex (sd_sim st) \<Longrightarrow>
   ss_mutex (sd_sim st') \<and> ss_events (sd_sim st') = ss_events (sd_sim st) \<and> ss_completed (sd_sim st') = ss_completed (sd_sim st)"
  by (induction rule: sim_step.induct)
    (auto simp: rpc_sim_job_def add_event_def helper_cycle_def terminate_begin_def epilog_sent_def split: if_splits list.splits)

lemma locked_steps:
  "sim_step\<^sup>*\<^sup>* st st' \<Longrightarrow> ss_mutex (sd_sim st) \<Longrightarrow>
   ss_mutex (sd_sim st') \<and> ss_events (sd_sim st') = ss_events (sd_sim st) \<and> ss_completed (sd_sim st') = ss_completed (sd_sim st)"
  by (induction rule: rtranclp_induct) (auto dest: locked_step)

text \<open>The controller's terminate requests, in some order.\<close>

fun terminate_all :: "int list \<Rightarrow> sim_state \<Rightarrow> sim_state option" where
  "terminate_all [] st = Some st"
| "terminate_all (j # js) st = do { (st, _) \<leftarrow> rpc_terminate_job j st; terminate_all js st }"

lemma remove_job_mset:
  "remove_job j xs = Some (x, ys) \<Longrightarrow> image_mset se_job_id (mset xs) = add_mset j (image_mset se_job_id (mset ys))"
  by (induction xs arbitrary: ys) (auto split: if_splits)

lemma terminate_all_done:
  assumes "\<not> ss_mutex st" "mset js = image_mset se_job_id (mset (ss_completed st))"
  shows "\<exists>st'. terminate_all js st = Some st' \<and> ss_completed st' = [] \<and>
    ss_epilogs st' = ss_epilogs st - int (length (ss_completed st)) \<and> ss_events st' = ss_events st \<and> \<not> ss_mutex st'"
  using assms
proof (induction js arbitrary: st)
  case Nil
  then show ?case by simp
next
  case (Cons j js)
  have "j \<in> se_job_id ` set (ss_completed st)"
    using Cons.prems(2) by (metis image_mset_subseteq_mono list.set_intros(1) set_image_mset set_mset_mset)
  then obtain x ys where r: "remove_job j (ss_completed st) = Some (x, ys)"
    using remove_job_None by (metis not_None_eq surj_pair)
  define st1 where "st1 = st\<lparr>ss_completed := ys, ss_epilogs := ss_epilogs st - 1\<rparr>"
  have "mset js = image_mset se_job_id (mset (ss_completed st1))"
    using Cons.prems(2) remove_job_mset [OF r] by (simp add: st1_def)
  moreover have "rpc_terminate_job j st = Some (st1, Some x)"
    using Cons.prems(1) r by (simp add: rpc_terminate_job_def terminate_begin_def epilog_sent_def st1_def)
  moreover have "length (ss_completed st) = Suc (length ys)" by (rule remove_job_length [OF r])
  ultimately show ?case using Cons.IH [of st1] Cons.prems(1) by (auto simp: st1_def)
qed

lemma insert_behind_split: "\<exists>xs ys. es = xs @ ys \<and> insert_behind e es = xs @ e # ys"
proof (induction e es rule: insert_behind.induct)
  case (2 new x xs)
  then show ?case
  proof (cases "se_when x < se_when new")
    case True
    then obtain as bs where "xs = as @ bs" "insert_behind new xs = as @ new # bs" using 2 by auto
    then show ?thesis using True by (intro exI [of _ "x # as"] exI [of _ bs]) auto
  next
    case False
    then show ?thesis by (intro exI [of _ "[]"] exI [of _ "x # xs"]) auto
  qed
qed simp

lemma insert_event_split: "\<exists>xs ys. es = xs @ ys \<and> insert_event e es = xs @ e # ys"
proof (cases es)
  case (Cons h t)
  show ?thesis
  proof (cases "se_when h > se_when e")
    case True
    then show ?thesis using Cons by (intro exI [of _ "[]"] exI [of _ "h # t"]) auto
  next
    case False
    obtain xs ys where "t = xs @ ys" "insert_behind e t = xs @ e # ys" using insert_behind_split by blast
    then show ?thesis using False Cons by (intro exI [of _ "h # xs"] exI [of _ ys]) auto
  qed
qed simp

lemma due_filter: "sorted (map se_when evs) \<Longrightarrow> due now evs = filter (\<lambda>ev. se_when ev \<le> now) evs"
  unfolding due_def by (induction evs) (auto intro!: filter_False [symmetric])

lemma pending_filter: "sorted (map se_when evs) \<Longrightarrow> pending now evs = filter (\<lambda>ev. now < se_when ev) evs"
  unfolding pending_def by (induction evs) (auto simp: not_le intro!: filter_True [symmetric])

subsection \<open>Properties\<close>

text \<open>A state with two running jobs, for the instances below.\<close>

definition sim_demo :: sim_state where
  "sim_demo = \<lparr>ss_info = [(2, 50), (1, 20)], ss_last_job_id = 2,
     ss_events = [\<lparr>se_job_id = 1, se_when = 120, se_nodelist = ''n1''\<rparr>, \<lparr>se_job_id = 2, se_when = 150, se_nodelist = ''n2''\<rparr>],
     ss_completed = [], ss_total = 2, ss_epilogs = 0, ss_mutex = False\<rparr>"

text \<open>C8 (invariant): in every state the daemon reaches, whatever the order of its requests, their halves and the helper's
  cycles, the event list is ordered by time, the event counter is its length, and the number of epilog messages waited for is the
  number of completed jobs that still have to be terminated plus the number of terminations that are still waiting
  for the answer to their message; it is one less when the helper has exited with the mutex locked. (The statement is about the states
  between critical sections of \<open>simulator_mutex\<close>.)\<close>

theorem sim_reachable_inv:
  assumes "sim_step\<^sup>*\<^sup>* slurmd_init st"
  shows "sorted (map se_when (ss_events (sd_sim st))) \<and> ss_total (sd_sim st) = int (length (ss_events (sd_sim st))) \<and>
     ss_epilogs (sd_sim st) = int (length (ss_completed (sd_sim st))) + int (length (sd_ending st)) - (if ss_mutex (sd_sim st) then 1 else 0)"
  using slurmd_reach_inv [OF assms] by (auto simp: slurmd_inv_def node_inv_def)

text \<open>A job of one second that has been completed, with its termination between the two halves.\<close>

definition demo_ending :: slurmd where
  "demo_ending = \<lparr>sd_sim = \<lparr>ss_info = [(7, 1)], ss_last_job_id = 7, ss_events = [], ss_completed = [], ss_total = 0, ss_epilogs = 1, ss_mutex = False\<rparr>,
     sd_launching = [], sd_ending = [\<lparr>se_job_id = 7, se_when = 101, se_nodelist = ''n1''\<rparr>]\<rparr>"

lemma demo_ending_reach: "sim_step\<^sup>*\<^sup>* slurmd_init demo_ending"
proof -
  let ?req = "\<lparr>bj_job_id = 7, bj_duration = 1, bj_nodes = ''n1''\<rparr>" and ?ev = "\<lparr>se_job_id = 7, se_when = 101, se_nodelist = ''n1''\<rparr>"
  define i where "i = sim_init\<lparr>ss_info := [(7, 1)], ss_last_job_id := 7\<rparr>"
  define c where "c = i\<lparr>ss_completed := [?ev], ss_epilogs := 1\<rparr>"
  have "sim_step slurmd_init (slurmd_init\<lparr>sd_sim := i\<rparr>)"
    by (rule sim_step.sim_job [of 7 1]) (simp add: rpc_sim_job_def slurmd_init_def sim_init_def i_def)
  moreover have "sim_step (slurmd_init\<lparr>sd_sim := i\<rparr>) \<lparr>sd_sim = i, sd_launching = [?ev], sd_ending = []\<rparr>"
    using sim_step.launch_begin [of 100 ?req "slurmd_init\<lparr>sd_sim := i\<rparr>" ?ev] by (simp add: new_event_def i_def slurmd_init_def)
  moreover have "sim_step \<lparr>sd_sim = i, sd_launching = [?ev], sd_ending = []\<rparr>
      \<lparr>sd_sim = i\<lparr>ss_total := 1, ss_events := [?ev]\<rparr>, sd_launching = [], sd_ending = []\<rparr>"
    using sim_step.launch_end [of "\<lparr>sd_sim = i, sd_launching = [?ev], sd_ending = []\<rparr>" "[]" ?ev "[]" "i\<lparr>ss_total := 1, ss_events := [?ev]\<rparr>"]
    by (simp add: add_event_def i_def sim_init_def)
  moreover have "helper_cycle (\<lambda>_. True) 200 (i\<lparr>ss_total := 1, ss_events := [?ev]\<rparr>) = Some (c, 1, True)"
    using deliver_ok [of 200 "i\<lparr>ss_total := 1, ss_events := [?ev]\<rparr>" "\<lambda>_. True" 0]
    by (simp add: helper_cycle_def due_def pending_def i_def c_def sim_init_def)
  then have "sim_step \<lparr>sd_sim = i\<lparr>ss_total := 1, ss_events := [?ev]\<rparr>, sd_launching = [], sd_ending = []\<rparr>
      \<lparr>sd_sim = c, sd_launching = [], sd_ending = []\<rparr>"
    using sim_step.helper [of "\<lambda>_. True" 200 "\<lparr>sd_sim = i\<lparr>ss_total := 1, ss_events := [?ev]\<rparr>, sd_launching = [], sd_ending = []\<rparr>" c 1 True] by simp
  moreover have "sim_step \<lparr>sd_sim = c, sd_launching = [], sd_ending = []\<rparr> demo_ending"
    using sim_step.terminate_first [of 7 "\<lparr>sd_sim = c, sd_launching = [], sd_ending = []\<rparr>" "c\<lparr>ss_completed := []\<rparr>" ?ev]
    by (simp add: terminate_begin_def c_def i_def sim_init_def demo_ending_def)
  ultimately show ?thesis by (meson converse_rtranclp_into_rtranclp rtranclp.rtrancl_refl)
qed

theorem sim_reachable_inv_witness:
  "sim_step\<^sup>*\<^sup>* slurmd_init demo_ending \<and> sd_ending demo_ending \<noteq> [] \<and> ss_epilogs (sd_sim demo_ending) = 0 + 1"
proof -
  have "ss_epilogs (sd_sim demo_ending) = 0 + 1" using sim_reachable_inv [OF demo_ending_reach] by (simp add: demo_ending_def)
  then show ?thesis using demo_ending_reach by (simp add: demo_ending_def)
qed

text \<open>C15 (functional): a helper cycle at time \<open>now\<close> whose messages are accepted returns, completes
  exactly the events due at \<open>now\<close>, in the order of their times, and leaves all others.\<close>

theorem helper_delivers_due:
  assumes "sim_inv st" "\<forall>ev \<in> set (ss_events st). se_when ev \<le> now \<longrightarrow> send (se_job_id ev)"
  shows "\<exists>st'. helper_cycle send now st =
      Some (st', int (length (filter (\<lambda>ev. se_when ev \<le> now) (ss_events st))), True) \<and> sim_inv st' \<and>
    ss_events st' = filter (\<lambda>ev. now < se_when ev) (ss_events st) \<and>
    ss_completed st' = rev (filter (\<lambda>ev. se_when ev \<le> now) (ss_events st)) @ ss_completed st"
proof -
  have s: "sorted (map se_when (ss_events st))" "\<not> ss_mutex st" using assms(1) by (auto simp: sim_inv_def)
  have snd: "\<forall>ev \<in> set (due now (ss_events st)). send (se_job_id ev)" using assms(2) by (simp add: due_filter [OF s(1)])
  obtain st' where st': "helper_cycle send now st = Some (st', int (length (due now (ss_events st))), True)"
      "ss_events st' = pending now (ss_events st)" "ss_completed st' = rev (due now (ss_events st)) @ ss_completed st"
    using deliver_ok [OF snd, of 0] s(2) by (simp add: helper_cycle_def)
  then have "sim_inv st'" using helper_counts [OF st'(1), of 0] assms(1) by (simp add: node_inv_0)
  then show ?thesis using st' by (auto simp: due_filter [OF s(1)] pending_filter [OF s(1)])
qed

theorem helper_delivers_due_witness:
  "\<exists>st'. helper_cycle (\<lambda>_. True) 130 sim_demo = Some (st', 1, True) \<and> length (ss_events st') = 1"
proof -
  have "sim_inv sim_demo" by (simp add: sim_inv_def sim_demo_def)
  moreover have "filter (\<lambda>ev. se_when ev \<le> 130) (ss_events sim_demo) = [ss_events sim_demo ! 0]"
      "filter (\<lambda>ev. 130 < se_when ev) (ss_events sim_demo) = [ss_events sim_demo ! 1]"
    by (simp_all add: sim_demo_def)
  ultimately show ?thesis using helper_delivers_due [of sim_demo 130 "\<lambda>_. True"] by auto
qed

text \<open>Launching a job whose duration is known inserts one event, at the job's end
  time, and keeps all other events and the order; for an unknown job id the result is \<open>- 1\<close> and
  nothing changes.\<close>

theorem launch_inserts_event:
  assumes "sim_inv st"
  shows "if bj_job_id req \<in> fst ` set (ss_info st)
    then \<exists>st' xs ys. simulator_add_future_event now req st = Some (st', 0) \<and> ss_events st = xs @ ys \<and>
      ss_events st' = xs @ \<lparr>se_job_id = bj_job_id req, se_when = now + bj_duration req, se_nodelist = bj_nodes req\<rparr> # ys \<and>
      sorted (map se_when (ss_events st')) \<and> ss_total st' = ss_total st + 1
    else simulator_add_future_event now req st = Some (st, - 1)"
proof -
  let ?e = "\<lparr>se_job_id = bj_job_id req, se_when = now + bj_duration req, se_nodelist = bj_nodes req\<rparr>"
  obtain xs ys where "ss_events st = xs @ ys" "insert_event ?e (ss_events st) = xs @ ?e # ys"
    using insert_event_split by blast
  then show ?thesis
    using assms insert_event_sorted [of "ss_events st" ?e]
    by (auto simp: simulator_add_future_event_def new_event_def add_event_def sim_inv_def)
qed

theorem launch_inserts_event_witness:
  "\<exists>st'. simulator_add_future_event 100 \<lparr>bj_job_id = 2, bj_duration = 30, bj_nodes = ''n3''\<rparr> sim_demo = Some (st', 0) \<and>
    sorted (map se_when (ss_events st')) \<and> ss_total st' = 3"
proof -
  have "sim_inv sim_demo" "2 \<in> fst ` set (ss_info sim_demo)" "ss_total sim_demo = 2"
    by (auto simp: sim_inv_def sim_demo_def)
  then show ?thesis
    using launch_inserts_event [of sim_demo "\<lparr>bj_job_id = 2, bj_duration = 30, bj_nodes = ''n3''\<rparr>" 100] by auto
qed

text \<open>C30 (liveness): the helper's wait for the epilogs ends: once the controller has terminated the
  completed jobs, in whatever order, the counter the helper polls is zero.\<close>

theorem epilog_wait_ends:
  assumes "sim_inv st" "mset js = image_mset se_job_id (mset (ss_completed st))"
  shows "\<exists>st'. terminate_all js st = Some st' \<and> ss_epilogs st' = 0 \<and> ss_completed st' = [] \<and> ss_events st' = ss_events st"
  using terminate_all_done [of st js] assms by (auto simp: sim_inv_def)

theorem epilog_wait_ends_witness:
  "\<exists>st st'. helper_cycle (\<lambda>_. True) 200 sim_demo = Some (st, 2, True) \<and>
    terminate_all [1, 2] st = Some st' \<and> ss_epilogs st' = 0"
proof -
  obtain st where st: "helper_cycle (\<lambda>_. True) 200 sim_demo = Some (st, 2, True)" "sim_inv st"
      "ss_completed st = rev (ss_events sim_demo)"
    using deliver_ok [of 200 sim_demo "\<lambda>_. True" 0]
    by (auto simp: helper_cycle_def sim_demo_def due_def pending_def sim_inv_def)
  then show ?thesis using epilog_wait_ends [of st "[1, 2]"] by (auto simp: sim_demo_def)
qed

text \<open>C35 (error): when, in any state the daemon reaches, the completion message of some event that is due cannot be sent, the helper
  ends its cycle inside the critical section, with at least that event unreported, and exits. From then on, whatever else
  happens, no event enters or leaves the lists: every further cycle, every termination and every launch of a known job blocks for
  ever on the mutex. Requests that do not need the mutex, the announcements of jobs and launches of unknown jobs, are still answered.\<close>

theorem failed_send_deadlock:
  assumes "sim_step\<^sup>*\<^sup>* slurmd_init st" "\<not> ss_mutex (sd_sim st)"
    and "ev \<in> set (ss_events (sd_sim st))" "se_when ev \<le> now" "\<not> send (se_job_id ev)"
  shows "\<exists>sim n. helper_cycle send now (sd_sim st) = Some (sim, n, False) \<and>
    n < int (length (filter (\<lambda>ev. se_when ev \<le> now) (ss_events (sd_sim st)))) \<and>
    (\<forall>st'. sim_step\<^sup>*\<^sup>* (st\<lparr>sd_sim := sim\<rparr>) st' \<longrightarrow>
      ss_events (sd_sim st') = ss_events sim \<and> ss_completed (sd_sim st') = ss_completed sim \<and>
      (\<forall>j. rpc_terminate_job j (sd_sim st') = None) \<and> (\<forall>s t. helper_cycle s t (sd_sim st') = None) \<and>
      (\<forall>t req. simulator_add_future_event t req (sd_sim st') =
        (if bj_job_id req \<in> fst ` set (ss_info (sd_sim st')) then None else Some (sd_sim st', - 1))))"
proof -
  have s: "sorted (map se_when (ss_events (sd_sim st)))" using slurmd_reach_inv [OF assms(1)] by (simp add: slurmd_inv_def node_inv_def)
  have "ev \<in> set (due now (ss_events (sd_sim st)))" using assms(3,4) by (simp add: due_filter [OF s])
  then obtain sim n where h: "helper_cycle send now (sd_sim st) = Some (sim, n, False)" "n < int (length (due now (ss_events (sd_sim st))))"
    using helper_fails assms(2,5) by blast
  have m: "ss_mutex sim" using helper_counts [OF h(1)] slurmd_reach_inv [OF assms(1)] by (simp add: slurmd_inv_def)
  have "ss_mutex (sd_sim st') \<and> ss_events (sd_sim st') = ss_events sim \<and> ss_completed (sd_sim st') = ss_completed sim"
    if "sim_step\<^sup>*\<^sup>* (st\<lparr>sd_sim := sim\<rparr>) st'" for st'
    using locked_steps [OF that] m by simp
  then show ?thesis using h
    by (auto simp: due_filter [OF s] rpc_terminate_job_def terminate_begin_def helper_cycle_def simulator_add_future_event_def new_event_def add_event_def
        intro!: exI [of _ sim] exI [of _ n])
qed

text \<open>The daemon of the example above with a second job, which ends at 300 and cannot be reported.\<close>

theorem failed_send_deadlock_witness:
  "\<exists>st sim. sim_step\<^sup>*\<^sup>* slurmd_init st \<and> length (ss_events (sd_sim st)) = 1 \<and>
    helper_cycle (\<lambda>_. False) 300 (sd_sim st) = Some (sim, 0, False) \<and> rpc_terminate_job 7 sim = None"
proof -
  let ?ev = "\<lparr>se_job_id = 7, se_when = 300, se_nodelist = ''n1''\<rparr>" and ?req = "\<lparr>bj_job_id = 7, bj_duration = 1, bj_nodes = ''n1''\<rparr>"
  define s1 where "s1 = demo_ending\<lparr>sd_launching := [?ev]\<rparr>"
  define sim2 where "sim2 = (sd_sim demo_ending)\<lparr>ss_total := 1, ss_events := [?ev]\<rparr>"
  define s2 where "s2 = s1\<lparr>sd_sim := sim2, sd_launching := []\<rparr>"
  have "sim_step demo_ending s1"
    using sim_step.launch_begin [of 299 ?req demo_ending ?ev] by (simp add: new_event_def demo_ending_def s1_def)
  moreover have "sim_step s1 s2"
    using sim_step.launch_end [of s1 "[]" ?ev "[]" sim2] by (simp add: add_event_def s1_def s2_def sim2_def demo_ending_def)
  ultimately have r: "sim_step\<^sup>*\<^sup>* slurmd_init s2" using demo_ending_reach by (meson rtranclp.rtrancl_into_rtrancl)
  have e: "ss_events (sd_sim s2) = [?ev]" "\<not> ss_mutex (sd_sim s2)" by (simp_all add: s2_def sim2_def demo_ending_def)
  obtain sim n where d: "helper_cycle (\<lambda>_. False) 300 (sd_sim s2) = Some (sim, n, False)" "n < 1" "rpc_terminate_job 7 sim = None"
    using failed_send_deadlock [OF r e(2), of ?ev 300 "\<lambda>_. False"] e(1) by fastforce
  then have "n = 0" using d(1) e by (auto simp: helper_cycle_def deliver.simps [of _ _ "sd_sim s2"])
  then show ?thesis using r e d by (intro exI [of _ s2] exI [of _ sim]) simp
qed

end
