(* ===== verification/Sim_Cycle.thy ===== *)
theory Sim_Cycle
  imports Sim_Manager Sim_Events
begin

section \<open>The manager and the node daemon in step (\<open>sim_mgr.c\<close>, \<open>slurmd.c\<close>)\<close>

text \<open>
  The thread \<open>time_mgr\<close> of the manager and the helper thread of the node daemon pass control to each other with two semaphores: the manager posts
  \<open>slurm_sem\<close> and waits for \<open>sim_sem\<close>, the helper waits for \<open>slurm_sem\<close> and posts \<open>sim_sem\<close> at the end of its cycle. Both read the same clock. The steps
  interleave with the requests to the node daemon, which may come at any time and run in threads of their own: a launch reads the clock in one step and
  puts its event into the list in a later one, and a termination decrements the counter of epilogs after it has removed its event, with any
  other steps between. The clock does not overflow (after 136 years). The field \<open>cy_fresh\<close> is a history variable: the events that were put into the list
  since the helper last looked at it.
\<close>

datatype mgr_pc = Mgr_work | Mgr_wait | Mgr_exit

text \<open>The helper waits for \<open>slurm_sem\<close>; or has ended a number of jobs and waits for their epilogs; or has exited because a message was not sent.\<close>

datatype helper_pc = Helper_wait | Helper_epilogs int | Helper_exit

record cycle_state =
  cy_mgr :: sim_mgr
  cy_pc :: mgr_pc
  cy_helper :: helper_pc
  cy_slurm_sem :: nat
  cy_sim_sem :: nat
  cy_node :: slurmd
  cy_fresh :: "simulator_event list"

definition cy_clock :: "cycle_state \<Rightarrow> int" where
  "cy_clock st = int (unat (mg_clock (cy_mgr st)))"

inductive cycle_step :: "sim_conf \<Rightarrow> cycle_state \<Rightarrow> cycle_state \<Rightarrow> bool" for c where
  work: "cy_pc st = Mgr_work \<Longrightarrow> time_mgr_work c t (cy_mgr st) = Some (m, True) \<Longrightarrow>
    cycle_step c st (st\<lparr>cy_mgr := m, cy_pc := Mgr_wait, cy_slurm_sem := cy_slurm_sem st + 1\<rparr>)"
| stop: "cy_pc st = Mgr_work \<Longrightarrow> time_mgr_work c t (cy_mgr st) = Some (m, False) \<Longrightarrow>
    cycle_step c st (st\<lparr>cy_mgr := m, cy_pc := Mgr_exit\<rparr>)"
| advance: "cy_pc st = Mgr_wait \<Longrightarrow> 0 < cy_sim_sem st \<Longrightarrow> cy_clock st + sc_time_incr c < 2 ^ 32 \<Longrightarrow>
    cycle_step c st (st\<lparr>cy_mgr := time_mgr_advance c (cy_mgr st), cy_pc := Mgr_work, cy_sim_sem := cy_sim_sem st - 1\<rparr>)"
| helper_begin: "cy_helper st = Helper_wait \<Longrightarrow> 0 < cy_slurm_sem st \<Longrightarrow>
    helper_cycle send (cy_clock st) (sd_sim (cy_node st)) = Some (sim, n, ok) \<Longrightarrow>
    cycle_step c st (st\<lparr>cy_node := (cy_node st)\<lparr>sd_sim := sim\<rparr>, cy_helper := (if ok then Helper_epilogs n else Helper_exit),
      cy_slurm_sem := cy_slurm_sem st - 1, cy_fresh := []\<rparr>)"
| helper_end: "cy_helper st = Helper_epilogs n \<Longrightarrow> n = 0 \<or> ss_epilogs (sd_sim (cy_node st)) = 0 \<Longrightarrow>
    cycle_step c st (st\<lparr>cy_helper := Helper_wait, cy_sim_sem := cy_sim_sem st + 1\<rparr>)"
| sim_job_msg: "rpc_sim_job j d (sd_sim (cy_node st)) = Some sim \<Longrightarrow> cycle_step c st (st\<lparr>cy_node := (cy_node st)\<lparr>sd_sim := sim\<rparr>\<rparr>)"
| launch_begin: "new_event (cy_clock st) req (sd_sim (cy_node st)) = Some ev \<Longrightarrow>
    cycle_step c st (st\<lparr>cy_node := (cy_node st)\<lparr>sd_launching := ev # sd_launching (cy_node st)\<rparr>\<rparr>)"
| launch_end: "sd_launching (cy_node st) = xs @ ev # ys \<Longrightarrow> add_event ev (sd_sim (cy_node st)) = Some sim \<Longrightarrow>
    cycle_step c st (st\<lparr>cy_node := (cy_node st)\<lparr>sd_sim := sim, sd_launching := xs @ ys\<rparr>, cy_fresh := ev # cy_fresh st\<rparr>)"
| terminate_first: "terminate_begin j (sd_sim (cy_node st)) = Some (sim, Some ev) \<Longrightarrow>
    cycle_step c st (st\<lparr>cy_node := (cy_node st)\<lparr>sd_sim := sim, sd_ending := ev # sd_ending (cy_node st)\<rparr>\<rparr>)"
| terminate_second: "sd_ending (cy_node st) = xs @ ev # ys \<Longrightarrow>
    cycle_step c st (st\<lparr>cy_node := (cy_node st)\<lparr>sd_sim := epilog_sent (sd_sim (cy_node st)), sd_ending := xs @ ys\<rparr>\<rparr>)"

inductive_cases cycle_stepE: "cycle_step c st st'"

definition cycle_init :: "job_trace list \<Rightarrow> (int \<times> string) list \<Rightarrow> cycle_state" where
  "cycle_init tr rsv = \<lparr>cy_mgr = time_mgr_start (init_job_trace tr 0 (mgr_init rsv)), cy_pc = Mgr_work, cy_helper = Helper_wait,
     cy_slurm_sem = 0, cy_sim_sem = 0, cy_node = slurmd_init, cy_fresh = []\<rparr>"

text \<open>One token is passed around: the manager works, or has posted, or the helper works or has exited, or has posted. Before the helper's cycle the events it
  has already passed over lie at most one increment back, after it they lie in the future.\<close>

definition token :: "cycle_state \<Rightarrow> nat" where
  "token st = cy_slurm_sem st + cy_sim_sem st + (if cy_helper st \<noteq> Helper_wait then 1 else 0) + (if cy_pc st \<noteq> Mgr_wait then 1 else 0)"

definition cycle_inv :: "sim_conf \<Rightarrow> cycle_state \<Rightarrow> bool" where
  "cycle_inv c st \<longleftrightarrow> token st = 1 \<and> slurmd_inv (cy_node st) \<and> (ss_mutex (sd_sim (cy_node st)) \<longleftrightarrow> cy_helper st = Helper_exit) \<and>
     (\<forall>ev \<in> set (ss_events (sd_sim (cy_node st))). ev \<in> set (cy_fresh st) \<or> cy_helper st = Helper_exit \<or> cy_clock st - sc_time_incr c < se_when ev \<and>
        (cy_helper st \<noteq> Helper_wait \<or> 0 < cy_sim_sem st \<longrightarrow> cy_clock st < se_when ev))"

lemma time_mgr_work_clock: "time_mgr_work c t st = Some (st', b) \<Longrightarrow> mg_clock st' = mg_clock st"
proof -
  assume w: "time_mgr_work c t st = Some (st', b)"
  define st1 where "st1 = (if mg_time_end st = 0 \<and> (sc_end_point c \<noteq> 0 \<and> sc_end_point c \<le> int (unat (mg_clock st)) \<or> mg_trace_recs st = - 1)
    then st\<lparr>mg_time_end := t\<rparr> else st)"
  have c1: "mg_clock st1 = mg_clock st" by (simp add: st1_def)
  have "st' = st1 \<or> submit_loop c (reserve_step st1) = Some st'"
    using w unfolding time_mgr_work_def Let_def st1_def [symmetric] by (auto split: if_splits)
  then show ?thesis using c1 submit_loop_keeps [of c "reserve_step st1" st'] by (auto simp: reserve_step_front)
qed

lemma helper_events:
  assumes "helper_cycle send now st = Some (st', n, True)" "node_inv k st"
  shows "ss_events st' = filter (\<lambda>ev. now < se_when ev) (ss_events st)"
    "ss_completed st' = rev (filter (\<lambda>ev. se_when ev \<le> now) (ss_events st)) @ ss_completed st"
    "n = int (length (filter (\<lambda>ev. se_when ev \<le> now) (ss_events st)))"
proof -
  have d: "deliver send now st 0 = (st', n, True)"
    using assms(1) by (auto simp: helper_cycle_def split: if_splits prod.splits bool.splits)
  have s: "sorted (map se_when (ss_events st))" using assms(2) by (simp add: node_inv_def)
  show "ss_events st' = filter (\<lambda>ev. now < se_when ev) (ss_events st)"
    "ss_completed st' = rev (filter (\<lambda>ev. se_when ev \<le> now) (ss_events st)) @ ss_completed st"
    "n = int (length (filter (\<lambda>ev. se_when ev \<le> now) (ss_events st)))"
    using d deliver_ok [OF deliver_ended [OF d], of 0] by (auto simp: due_filter [OF s] pending_filter [OF s])
qed

text \<open>A step that leaves the events, the clock, the semaphores and the program counters alone.\<close>

lemma cycle_inv_node:
  assumes "cycle_inv c st" "sim_step (cy_node st) node" "ss_events (sd_sim node) = ss_events (sd_sim (cy_node st))"
    "ss_mutex (sd_sim node) = ss_mutex (sd_sim (cy_node st))"
  shows "cycle_inv c (st\<lparr>cy_node := node\<rparr>)"
  using assms sim_step_inv [OF assms(2)] by (auto simp: cycle_inv_def token_def cy_clock_def)

lemma cycle_init_inv: "cycle_inv c (cycle_init tr rsv)"
  using slurmd_init_inv by (simp add: cycle_inv_def cycle_init_def token_def) (simp add: slurmd_init_def sim_init_def)

lemma advance_inv:
  assumes "cycle_inv c st" "0 \<le> sc_time_incr c" "cy_pc st = Mgr_wait" "0 < cy_sim_sem st" "cy_clock st + sc_time_incr c < 2 ^ 32"
  shows "cycle_inv c (st\<lparr>cy_mgr := time_mgr_advance c (cy_mgr st), cy_pc := Mgr_work, cy_sim_sem := cy_sim_sem st - 1\<rparr>)"
proof -
  let ?st = "st\<lparr>cy_mgr := time_mgr_advance c (cy_mgr st), cy_pc := Mgr_work, cy_sim_sem := cy_sim_sem st - 1\<rparr>"
  have "cy_clock ?st = cy_clock st + sc_time_incr c"
    using clock_add [OF assms(2), of "mg_clock (cy_mgr st)"] assms(5) by (simp add: cy_clock_def time_mgr_advance_def)
  then show ?thesis using assms(1,3,4) by (auto simp: cycle_inv_def token_def split: if_splits)
qed

lemma helper_begin_inv:
  assumes inv: "cycle_inv c st" and w: "cy_helper st = Helper_wait" "0 < cy_slurm_sem st" and i: "0 \<le> sc_time_incr c"
    and h: "helper_cycle send (cy_clock st) (sd_sim (cy_node st)) = Some (sim, n, ok)"
  shows "cycle_inv c (st\<lparr>cy_node := (cy_node st)\<lparr>sd_sim := sim\<rparr>, cy_helper := (if ok then Helper_epilogs n else Helper_exit),
      cy_slurm_sem := cy_slurm_sem st - 1, cy_fresh := []\<rparr>)" (is "cycle_inv c ?st")
proof -
  have k: "node_inv (length (sd_ending (cy_node st))) (sd_sim (cy_node st))" using inv by (simp add: cycle_inv_def slurmd_inv_def)
  have "ok \<Longrightarrow> ss_events sim = filter (\<lambda>ev. cy_clock st < se_when ev) (ss_events (sd_sim (cy_node st)))"
    using helper_events(1) [OF _ k] h by (cases ok) auto
  moreover have "cy_clock ?st = cy_clock st" by (simp add: cy_clock_def)
  ultimately show ?thesis using inv w i helper_counts [OF h k] by (auto simp: cycle_inv_def token_def slurmd_inv_def split: if_splits)
qed

lemma cycle_step_inv:
  assumes "cycle_step c st st'" "cycle_inv c st" "0 \<le> sc_time_incr c"
  shows "cycle_inv c st'"
  using assms
proof (induction rule: cycle_step.induct)
  case (work st t m)
  then show ?case using time_mgr_work_clock [OF work(2)] by (auto simp: cycle_inv_def token_def cy_clock_def split: if_splits)
next
  case (stop st t m)
  then show ?case using time_mgr_work_clock [OF stop(2)] by (auto simp: cycle_inv_def token_def cy_clock_def split: if_splits)
next
  case (advance st)
  then show ?case by (intro advance_inv)
next
  case (helper_begin st send sim n ok)
  then show ?case by (intro helper_begin_inv)
next
  case (helper_end st n)
  then show ?case by (auto simp: cycle_inv_def token_def cy_clock_def split: if_splits)
next
  case (sim_job_msg j d st sim)
  then show ?case using sim_step.sim_job [OF sim_job_msg(1)]
    by (intro cycle_inv_node) (auto simp: rpc_sim_job_def split: if_splits list.splits)
next
  case (launch_begin st req ev)
  then show ?case using sim_step.launch_begin [OF launch_begin(1)] by (intro cycle_inv_node) auto
next
  case (launch_end st xs ev ys sim)
  have e: "ss_events sim = insert_event ev (ss_events (sd_sim (cy_node st)))" "\<not> ss_mutex sim" "\<not> ss_mutex (sd_sim (cy_node st))"
    using launch_end(2) by (auto simp: add_event_def split: if_splits)
  show ?case using launch_end(3) e sim_step_inv [OF sim_step.launch_end [OF launch_end(1,2)]] by (auto simp: cycle_inv_def token_def cy_clock_def)
next
  case (terminate_first j st sim ev)
  then show ?case using sim_step.terminate_first [OF terminate_first(1)]
    by (intro cycle_inv_node) (auto simp: terminate_begin_def split: if_splits option.splits)
next
  case (terminate_second st xs ev ys)
  then show ?case using sim_step.terminate_second [OF terminate_second(1)] by (intro cycle_inv_node) (auto simp: epilog_sent_def)
qed

lemma cycle_reach_inv: "(cycle_step c)\<^sup>*\<^sup>* (cycle_init tr rsv) st \<Longrightarrow> 0 \<le> sc_time_incr c \<Longrightarrow> cycle_inv c st"
  by (induction rule: rtranclp_induct) (auto intro: cycle_init_inv cycle_step_inv)

text \<open>C3 (safety): The simulation keeps step. In every reachable state of the manager, the node daemon and its requests, the clock does not move while the helper
  is in its cycle or after it has exited, whatever step is taken. A helper cycle ends no job before its end time and leaves none that is due; and a job it ends lies
  less than one increment back, unless its event was put into the list only since the previous helper cycle: so a job ends late only
  when the thread that launches it is delayed between reading the clock and entering the list. The history variable \<open>cy_fresh\<close> holds the events
  that entered the list since the previous cycle.\<close>

theorem jobs_end_on_time:
  assumes "(cycle_step c)\<^sup>*\<^sup>* (cycle_init tr rsv) st" "0 \<le> sc_time_incr c"
  shows "(cy_helper st \<noteq> Helper_wait \<and> cycle_step c st st' \<longrightarrow> cy_clock st' = cy_clock st)
    \<and> (helper_cycle send (cy_clock st) (sd_sim (cy_node st)) = Some (node, n, True) \<longrightarrow>
        (\<exists>ended. ss_completed node = ended @ ss_completed (sd_sim (cy_node st)) \<and> n = int (length ended)
          \<and> (\<forall>ev \<in> set ended. se_when ev \<le> cy_clock st \<and> (cy_clock st - sc_time_incr c < se_when ev \<or> ev \<in> set (cy_fresh st)))
          \<and> (\<forall>ev \<in> set (ss_events node). cy_clock st < se_when ev)))"
proof (intro conjI impI)
  have inv: "cycle_inv c st" by (rule cycle_reach_inv [OF assms])
  {
    assume a: "cy_helper st \<noteq> Helper_wait \<and> cycle_step c st st'"
    then have t: "cy_pc st = Mgr_wait" "cy_sim_sem st = 0" using inv by (auto simp: cycle_inv_def token_def split: if_splits)
    from a have "cycle_step c st st'" by simp
    then show "cy_clock st' = cy_clock st" using t by cases (auto simp: cy_clock_def)
  }
  assume h: "helper_cycle send (cy_clock st) (sd_sim (cy_node st)) = Some (node, n, True)"
  have k: "node_inv (length (sd_ending (cy_node st))) (sd_sim (cy_node st))" using inv by (simp add: cycle_inv_def slurmd_inv_def)
  have "\<not> ss_mutex (sd_sim (cy_node st))" using h by (auto simp: helper_cycle_def split: if_splits)
  then have "cy_helper st \<noteq> Helper_exit" using inv by (auto simp: cycle_inv_def)
  then show "\<exists>ended. ss_completed node = ended @ ss_completed (sd_sim (cy_node st)) \<and> n = int (length ended)
      \<and> (\<forall>ev \<in> set ended. se_when ev \<le> cy_clock st \<and> (cy_clock st - sc_time_incr c < se_when ev \<or> ev \<in> set (cy_fresh st)))
      \<and> (\<forall>ev \<in> set (ss_events node). cy_clock st < se_when ev)"
    using helper_events [OF h k] inv
    by (intro exI [of _ "rev (filter (\<lambda>ev. se_when ev \<le> cy_clock st) (ss_events (sd_sim (cy_node st))))"]) (auto simp: cycle_inv_def)
qed

text \<open>A job of duration zero is launched at second one and ends in the cycle of that second.\<close>

theorem jobs_end_on_time_witness:
  "\<exists>st node. (cycle_step demo_sim)\<^sup>*\<^sup>* (cycle_init [] []) st \<and> helper_cycle (\<lambda>_. True) (cy_clock st) (sd_sim (cy_node st)) = Some (node, 1, True)
    \<and> (\<forall>ev \<in> set (ss_completed node). se_when ev \<le> 1 \<and> (- 4 < se_when ev \<or> ev \<in> set (cy_fresh st)))"
proof -
  let ?st0 = "cycle_init [] []" and ?req = "\<lparr>bj_job_id = 7, bj_duration = 0, bj_nodes = ''n1''\<rparr>"
  let ?ev = "\<lparr>se_job_id = 7, se_when = 1, se_nodelist = ''n1''\<rparr>"
  define sim1 where "sim1 = sim_init\<lparr>ss_info := [(7, 0)], ss_last_job_id := 7\<rparr>"
  define sim2 where "sim2 = sim1\<lparr>ss_total := 1, ss_events := [?ev]\<rparr>"
  define sim3 where "sim3 = sim2\<lparr>ss_total := 0, ss_events := [], ss_completed := [?ev], ss_epilogs := 1\<rparr>"
  define st1 where "st1 = ?st0\<lparr>cy_node := slurmd_init\<lparr>sd_sim := sim1\<rparr>\<rparr>"
  define st2 where "st2 = st1\<lparr>cy_node := slurmd_init\<lparr>sd_sim := sim1, sd_launching := [?ev]\<rparr>\<rparr>"
  define st where "st = st2\<lparr>cy_node := slurmd_init\<lparr>sd_sim := sim2, sd_launching := []\<rparr>, cy_fresh := [?ev]\<rparr>"
  note defs = cycle_init_def slurmd_init_def sim_init_def sim1_def sim2_def st1_def st2_def st_def
  have cl: "cy_clock st1 = 1" "cy_clock st = 1" by (simp_all add: defs cy_clock_def time_mgr_start_def)
  have "cycle_step demo_sim ?st0 st1"
    using cycle_step.sim_job_msg [of 7 0 ?st0 sim1] by (simp add: defs rpc_sim_job_def)
  moreover have "cycle_step demo_sim st1 st2"
    using cycle_step.launch_begin [of st1 ?req ?ev demo_sim] cl(1) by (simp add: defs new_event_def)
  moreover have "cycle_step demo_sim st2 st"
    using cycle_step.launch_end [of st2 "[]" ?ev "[]" sim2 demo_sim] by (simp add: defs add_event_def)
  ultimately have r: "(cycle_step demo_sim)\<^sup>*\<^sup>* ?st0 st" by (meson converse_rtranclp_into_rtranclp rtranclp.rtrancl_refl)
  have "helper_cycle (\<lambda>_. True) 1 sim2 = Some (sim3, 1, True)"
    unfolding sim3_def sim2_def sim1_def sim_init_def by code_simp
  then have h: "helper_cycle (\<lambda>_. True) (cy_clock st) (sd_sim (cy_node st)) = Some (sim3, 1, True)" by (simp add: cl(2)) (simp add: st_def)
  have "sc_time_incr demo_sim = 5" by (simp add: demo_sim_def)
  moreover have "ss_completed (sd_sim (cy_node st)) = []" by (simp add: defs)
  ultimately have "\<forall>ev \<in> set (ss_completed sim3). se_when ev \<le> 1 \<and> (- 4 < se_when ev \<or> ev \<in> set (cy_fresh st))"
    using jobs_end_on_time [OF r, of st "\<lambda>_. True" sim3 1] h cl by auto
  then show ?thesis using r h by blast
qed

end
