(* ===== verification/Spec2Isabelle.thy ===== *)
theory Spec2Isabelle
  imports Bitstring_Count Pack_Message Energy_Policy Backfill_Plan List_Refine Cbuf_Safety Ctld_Locks
    License_Props License_Message Job_Depend_Props Sim_Cycle
begin

text \<open>
  \<^bold>\<open>A verification development for the Slurm simulator\<close>

  The repository is the Slurm workload manager with the changes that turn it into a simulator of
  a cluster, and scheduling policies for modular and energy-aware systems. A controller
  (\<open>src/slurm/src/slurmctld\<close>) keeps jobs and nodes and plans reservations with a backfill plugin
  (\<open>plugins/sched/backfill\<close>). One node daemon (\<open>slurmd/slurmd\<close>) stands for all nodes: it does not start
  processes but queues an event for the end of each job. The simulation manager (\<open>contribs/simulator/sim_mgr.c\<close>) advances the
  clock and submits the jobs of a trace. They rest on the library in \<open>common\<close>: bit strings for
  sets of nodes, lists, circular buffers, and the packing of messages.

  \<^bold>\<open>Theories.\<close> \<open>Slurm_Prelude\<close> has the shared vocabulary. Each component has a theory with the model,
  function by function in the order of the code, and theories with its lemmas and properties:

    \<^item> \<open>Bitstring\<close>, \<open>Bitstring_Search\<close>, \<open>Bitstring_Count\<close> (\<open>common/bitstring.c\<close>). A record with cookie, size and
      64-bit words; every operation is characterised by its effect on the single bits
      (\<open>bitmap_simps\<close>) and, on well-formed strings, on \<open>bitset\<close>, the set of positions. The locale on bit maps
      states what the schedulers use of them. \<open>Bitstring_Fmt\<close> has the conversions to and from text, with the
      round trips of the list of ranges and of the masks.
    \<^item> \<open>Node_Space\<close> (\<open>plugins/sched/backfill/backfill.c\<close>: \<open>_add_reservation\<close>, \<open>_test_resv_overlap\<close>, the
      selection of usable nodes, \<open>_get_job_max_tl\<close>). The table of free nodes over time refines the function
      \<open>nodes_at\<close> from times to sets of nodes. The locale \<open>reservation_table\<close> is the interface of the table.
    \<^item> \<open>Backfill_Plan\<close> (the same file: the part of \<open>_attempt_backfill\<close> that plans a job). For every sequence of
      attempts the reservations of a cycle are exclusive.
    \<^item> \<open>Sim_Events\<close> (\<open>slurmd/slurmd/req.c\<close>, \<open>slurmd.c\<close>). The queue of future events, the helper thread that delivers
      the due ones and the wait for the epilogs, as a step relation with its invariant. Launching reads the clock before it takes the mutex, and ending a
      job has one critical section for the queue and another for the counter, with a message in between: each is two steps that
      others may interleave.
    \<^item> \<open>Slurm_List\<close>, \<open>List_Refine\<close> (\<open>common/list.c\<close>). Nodes in a heap with a free list, iterators with their
      \<open>pos\<close> and \<open>prev\<close> pointers; refinement of HOL lists with iterator positions.
    \<^item> \<open>Cbuf\<close>, \<open>Cbuf_Contents\<close>, \<open>Cbuf_Refine\<close>, \<open>Cbuf_Safety\<close> (\<open>common/cbuf.c\<close>). The circular buffer as an array with three
      indices; refinement of two byte lists, the data to replay and the unread data. The locales
      \<open>byte_sink\<close> and \<open>byte_source\<close> are the interfaces of \<open>putf\<close> and \<open>getf\<close>. Every sequence of operations on two buffers
      runs through, without an overflow of \<open>int\<close> for buffers below one gigabyte.
    \<^item> \<open>Ctld_Locks\<close> (\<open>slurmctld/locks.c\<close>). Threads that interleave at each critical section and sleep on the condition variable until a
      broadcast or a spurious wake-up; exclusion, a bound on the steps until every request is served, with nobody left asleep, and priority
      of writers.
    \<^item> \<open>Pack\<close>, \<open>Pack_Codec\<close>, \<open>Pack_Message\<close> (\<open>common/pack.c\<close>, \<open>pack.h\<close>). Buffers with 32-bit sizes and the functions that
      append and consume values. The locale \<open>codec\<close> is the contract of such a pair and \<open>array_codec\<close> that of arrays, a codec
      again by \<open>sublocale\<close>; every pair of the code interprets them, and whole messages are sequences of
      calls. Packing appends the encodings, reading returns the values and never leaves the buffer.
    \<^item> \<open>C_Double\<close>, \<open>C_Stdlib\<close>, \<open>Energy_Model\<close>, \<open>Energy_Priority\<close>, \<open>Energy_Ranking\<close>, \<open>Energy_Policy\<close>
      (\<open>plugins/priority/multifactor_energy/priority_multifactor_energy.c\<close>). Doubles as rationals with infinities and NaN, the sort and the search
      of the C library, the application models with the choice of a frequency, and \<open>_get_priority_internal\<close> with its energy policies. The
      theorems say which frequency the policy picks, which projections it stores for the partitions, what bounds the factors and priorities
      have, and where the policy fails: the
      comparison of partitions is not transitive, the bonus of job chains ignores the projections, and two inputs
      leave defined behaviour.
    \<^item> \<open>Licenses\<close>, \<open>License_Props\<close>, \<open>License_Message\<close> (\<open>slurmctld/licenses.c\<close>, and the decoder of the message in
      \<open>common/slurm_protocol_pack.c\<close>). The list of licenses with 32-bit counts, the parser and printer of license strings, the licenses
      of jobs, remote licenses. Use counts are exact under every history of starting and ending jobs, strings have a normal
      form, synchronisation is exact and the message to clients is decoded to the controller's list.
    \<^item> \<open>Job_Table\<close>, \<open>Job_Chains\<close> (\<open>slurmctld/job_mgr.c\<close>, \<open>slurmctld.h\<close>). Job records in a heap, the hash table by id and the
      two tables of job arrays, each a vector of chains threaded through the records. The locales \<open>chained_table\<close> and \<open>keyed_table\<close>
      state what a table of chains keeps; the three tables interpret them. Lookup by id is exact; removal cuts the chains
      of arrays.
    \<^item> \<open>Job_Depend\<close>, \<open>Job_Depend_Text\<close>, \<open>Job_Depend_Props\<close> (\<open>slurmctld/job_scheduler.c\<close>, the part on dependencies). The test of a job's
      dependencies, their text, the parser and the search for circles, which ends on every graph after a bounded number of calls. The rules
      of the dependency types and of alternatives are stated literally, independent of the code's predicates.
    \<^item> \<open>Sim_Trace\<close> (\<open>contribs/simulator/sim_mgr.c\<close>, \<open>sim_trace.c\<close>, \<open>common/sim_funcs.c\<close>). What the simulation manager reads: records of
      the workload trace, dependencies, where the code prints a text into itself if a modular job has a type of dependency, which is undefined, and
      the file of simulated users, which is read back completely.
    \<^item> \<open>Sim_Manager\<close> (\<open>sim_mgr.c\<close>, the end check of \<open>slurmctld/controller.c\<close>, the clock of \<open>sim_funcs.c\<close>). Job descriptions, the submission of single and
      modular jobs and the cycle of \<open>time_mgr\<close>: every job of an ordered trace is submitted in the first cycle at or after its time.
    \<^item> \<open>Sim_Cycle\<close> (\<open>sim_mgr.c\<close>, \<open>slurmd.c\<close>). The manager, the helper thread of \<open>Sim_Events\<close> and the requests to the node daemon under all interleavings
      of their semaphores: one token is passed around, and jobs end on time, a launch that was under way when the clock advanced included.

  \<^bold>\<open>How the components meet.\<close> The table of \<open>Node_Space\<close> works on bit strings through the
  lemmas of \<open>Bitstring\<close>, down to the slack bits that \<open>bit_not\<close> leaves in the last word; \<open>Backfill_Plan\<close> uses the table
  through \<open>reservation_table\<close> only. \<open>Pack_Message\<close> sends bit strings through \<open>Bitstring_Fmt\<close> and reads them back, \<open>License_Message\<close> is a codec over
  those of \<open>Pack_Codec\<close>. The dependency tests find jobs through the tables of \<open>Job_Table\<close>, and array expressions in dependency texts are read with \<open>bit_unfmt\<close>.
  \<open>Sim_Cycle\<close> composes \<open>Sim_Manager\<close> and \<open>Sim_Events\<close>. The controller's threads that run the backfill loop and serve requests are the
  threads of \<open>Ctld_Locks\<close>; the other components are sequential under a lock, which is why each
  of their functions is one step, except for the handlers of the node daemon.

  \<^bold>\<open>Conventions.\<close> Failing assertions and accesses outside an object are \<open>None\<close>, so that a
  conclusion \<open>f x = Some y\<close> includes that the code runs through. Loops are \<open>function\<close>s with a measure
  where they end by themselves, \<open>partial_function (option)\<close> where they end only on well-formed data, and have fuel in
  \<open>Node_Space\<close>, where the array's length is enough; the theorems always conclude that a result exists.
  Integers are unbounded where the code cannot overflow for admissible sizes, \<open>u32\<close> is written out where it
  converts to \<open>uint32_t\<close>, and words are 64 bits wide in bit strings and 32 bits wide in the sizes of \<open>Pack\<close>, whose overflow is part of the model.

  \<^bold>\<open>Parameters.\<close> \<open>realloc\<close>, \<open>read\<close> and \<open>write\<close> in \<open>Cbuf\<close>, \<open>qsort\<close> in \<open>Slurm_List\<close>, the sending of messages
  in \<open>Sim_Events\<close>, the callbacks of list operations, the accounting ids of licenses, the answers of the controller to the simulation manager's submissions and the results of \<open>rand\<close>, the burst-buffer plugin's answer in \<open>test_job_dependency\<close> and
  the changes of generic resources by an expanding job in \<open>update_job_dependency\<close>, the library that projects energy and time and the fair-share factor in \<open>Energy_Priority\<close>, and the answers of the select plugin and of the accounting
  policy in \<open>Backfill_Plan\<close>. What the theorems need of them is a named hypothesis, such as \<open>write_ok\<close>.

  \<^bold>\<open>Not modelled.\<close> The job, node and partition records of the controller with their hundreds of
  fields, except the fields that the job tables and the dependencies use, the contents of the protocol's messages except that on licenses, doubles in messages, configuration, accounting and client commands, because they are I/O, glue or
  depend on all the others. The first half of the backfill loop, which calls into most of these. The
  set-up of the simulation manager, the scripts of the jobs it submits, and its conversion of jobs between modules, which is not reached. The fair-share tree and the decay of usage in the priority plugin.
  Rounding of floating-point numbers: doubles are exact rationals. Of the theorems on energies and priorities, those on stored projections, on held jobs and
  on the cycle of the comparison do not depend on it; the choice of the frequency and the bounds of the factors are about exact arithmetic.
\<close>

end
